(* ===== verification/Nano_Prelude.thy ===== *)
theory Nano_Prelude
  imports Main "HOL-Library.Word"
begin

text \<open>
  The prelude of the NanoVaultDB development: the machine-integer ranges of the C++ types the
  models use, the result type of code that may throw, and the collections of rewrite rules that the
  component theories fill.

  Conventions. A C++ \<open>int\<close>, \<open>int32_t\<close> or \<open>int64_t\<close> whose values the code only compares or
  copies is an \<open>int\<close>. Where the code sums \<open>int64_t\<close> values without a bound (the quantity of a price
  level, the fill-or-kill test, the running sum of the moving average) every assignment goes through
  \<open>i64\<close>, the two's complement wrap of the compiled code; the standard leaves such an overflow
  undefined, and the theorems whose result depends on it state the bound under which none happens. An
  unsigned counter that wraps is a \<open>64 word\<close> or a \<open>nat\<close> with \<open>mod\<close> written out; a pointer into an
  array is the index of the element.
\<close>

named_theorems heap_simps \<open>rewriting an object of the order store\<close>
named_theorems lex_simps \<open>stepping the lexer\<close>
named_theorems parse_simps \<open>stepping the parser\<close>

section \<open>Machine integers\<close>

definition INT64_MAX :: int where "INT64_MAX = 9223372036854775807"
definition INT64_MIN :: int where "INT64_MIN = -9223372036854775808"
definition INT32_MAX :: int where "INT32_MAX = 2147483647"
definition INT32_MIN :: int where "INT32_MIN = -2147483648"

lemmas int_limits = INT64_MAX_def INT64_MIN_def INT32_MAX_def INT32_MIN_def

text \<open>The value an \<open>int64_t\<close> holds after an assignment of \<open>x\<close>.\<close>

definition i64 :: "int \<Rightarrow> int" where
  "i64 x = (x + 2 ^ 63) mod 2 ^ 64 - 2 ^ 63"

lemma i64_id: "INT64_MIN \<le> x \<Longrightarrow> x \<le> INT64_MAX \<Longrightarrow> i64 x = x"
  by (simp add: i64_def int_limits)

lemma i64_range: "INT64_MIN \<le> i64 x" "i64 x \<le> INT64_MAX"
  by (simp_all add: i64_def int_limits)

lemma i64_0 [simp]: "i64 0 = 0"
  by (simp add: i64_def)

lemma i64_i64 [simp]: "i64 (i64 x) = i64 x"
  by (rule i64_id) (rule i64_range)+

lemma i64_cong: "x mod 2 ^ 64 = y mod 2 ^ 64 \<Longrightarrow> i64 x = i64 y"
  using mod_add_cong [of x "2 ^ 64" y "2 ^ 63" "2 ^ 63"] by (simp add: i64_def)

lemma i64_mod: "i64 x mod 2 ^ 64 = x mod 2 ^ 64"
  by (simp add: i64_def mod_diff_left_eq)

lemma i64_add [simp]: "i64 (i64 x + y) = i64 (x + y)" "i64 (y + i64 x) = i64 (y + x)"
  by (rule i64_cong, rule mod_add_cong, simp_all only: i64_mod)+

lemma i64_diff [simp]: "i64 (i64 x - y) = i64 (x - y)" "i64 (y - i64 x) = i64 (y - x)"
  by (rule i64_cong, rule mod_diff_cong, simp_all only: i64_mod)+

text \<open>An overflow of a sum only ever makes it smaller.\<close>

lemma i64_le: "INT64_MIN \<le> x \<Longrightarrow> i64 x \<le> x"
  using zmod_le_nonneg_dividend [of "x + 2 ^ 63" "2 ^ 64"] by (simp add: i64_def int_limits)

section \<open>Characters and numbers as text\<close>

definition NUL :: char where "NUL = CHR 0x00"

text \<open>\<open>std::to_string\<close> of an unsigned number.\<close>

fun show_nat :: "nat \<Rightarrow> string" where
  "show_nat n = (if n < 10 then [char_of (48 + n)] else show_nat (n div 10) @ [char_of (48 + n mod 10)])"

declare show_nat.simps [simp del]

section \<open>Code that throws\<close>

text \<open>
  A computation either returns or ends in a fault: a C++ exception derived from \<open>std::exception\<close>,
  with the text its \<open>what()\<close> gives, or behaviour the standard leaves undefined, with a note of
  what the code did, or (in a definition with fuel) a run that was cut off.
\<close>

datatype fault = Throw string | Undefined string | Out_of_fuel

type_synonym 'a result = "fault + 'a"

definition bindE :: "'a result \<Rightarrow> ('a \<Rightarrow> 'b result) \<Rightarrow> 'b result" where
  "bindE r k = (case r of Inl e \<Rightarrow> Inl e | Inr x \<Rightarrow> k x)"

lemma bindE_simps [simp]: "bindE (Inl e) k = Inl e" "bindE (Inr x) k = k x"
  by (simp_all add: bindE_def)

lemma bindE_Inr: "bindE r k = Inr y \<longleftrightarrow> (\<exists>x. r = Inr x \<and> k x = Inr y)"
  by (cases r) simp_all

lemma bindE_Inl: "bindE r k = Inl e \<longleftrightarrow> r = Inl e \<or> (\<exists>x. r = Inr x \<and> k x = Inl e)"
  by (cases r) simp_all

lemma bindE_assoc: "bindE (bindE r k) h = bindE r (\<lambda>x. bindE (k x) h)"
  by (cases r) simp_all

lemma bindE_cong [fundef_cong]:
  "r = r' \<Longrightarrow> (\<And>x. r' = Inr x \<Longrightarrow> k x = k' x) \<Longrightarrow> bindE r k = bindE r' k'"
  by (cases r') simp_all

section \<open>Lists and maps\<close>

lemma sum_list_map_fun_upd:
  "i \<notin> set xs \<Longrightarrow> sum_list (map (f(i := v)) xs) = sum_list (map f xs)"
  by (simp add: map_fun_upd)

lemma butlast_tl_hd_conv:
  "xs \<noteq> [] \<Longrightarrow> hd xs = last xs \<Longrightarrow> distinct xs \<Longrightarrow> xs = [hd xs]"
  by (cases xs) (auto split: if_splits)

lemma sum_list_nonneg_member:
  fixes f :: "'a \<Rightarrow> int"
  assumes "\<And>x. x \<in> set xs \<Longrightarrow> 0 \<le> f x" and "x \<in> set xs"
  shows "f x \<le> sum_list (map f xs)"
proof -
  have "sum_list (map f xs) = f x + sum_list (map f (remove1 x xs))"
    by (rule sum_list_map_remove1) (rule assms)
  moreover have "0 \<le> sum_list (map f (remove1 x xs))"
    by (rule sum_list_nonneg) (use assms(1) set_remove1_subset in fastforce)
  ultimately show ?thesis by simp
qed

end
