(* ===== verification/Book_Types.thy ===== *)
theory Book_Types
  imports Nano_Prelude
begin

text \<open>
  The value types of the matching engine (\<open>hft_clean/include/types.hpp\<close>, \<open>price_level.hpp\<close> and the
  result types of \<open>order_book.hpp\<close>). Prices and quantities are the fixed-point \<open>int64_t\<close> of the code,
  order ids the \<open>uint64_t\<close> handles with 0 for "no order". Padding bytes are left out.
\<close>

type_synonym price = int
type_synonym quantity = int
type_synonym order_id = nat
type_synonym nanos = nat

definition PRICE_SCALE :: int where "PRICE_SCALE = 100000000"

datatype side = BUY | SELL
datatype order_type = LIMIT | MARKET | IOC | FOK | POST_ONLY
datatype order_status = NEW | PARTIAL | FILLED | CANCELLED | REJECTED
datatype exchange = GENERIC | BINANCE | ZERODHA | COINBASE | BYBIT

fun opposite :: "side \<Rightarrow> side" where
  "opposite BUY = SELL"
| "opposite SELL = BUY"

lemma opposite_opposite [simp]: "opposite (opposite s) = s"
  by (cases s) simp_all

lemma opposite_neq [simp]: "opposite s \<noteq> s" "s \<noteq> opposite s"
  by (cases s; simp)+

section \<open>Symbol: a string in a fixed buffer of 24 bytes\<close>

definition SYMBOL_MAX_LEN :: nat where "SYMBOL_MAX_LEN = 24"

type_synonym symbol = "char list"

definition mk_symbol :: "string \<Rightarrow> symbol" where
  "mk_symbol sv =
     (let n = (if length sv < SYMBOL_MAX_LEN then length sv else SYMBOL_MAX_LEN - 1)
      in take n sv @ replicate (SYMBOL_MAX_LEN - n) NUL)"

text \<open>\<open>view()\<close> builds a \<open>string_view\<close> from the buffer and so stops at the first zero byte.\<close>

definition symbol_view :: "symbol \<Rightarrow> string" where
  "symbol_view s = takeWhile (\<lambda>c. c \<noteq> NUL) s"

definition symbol_eq :: "symbol \<Rightarrow> symbol \<Rightarrow> bool" where
  "symbol_eq a b \<longleftrightarrow> take SYMBOL_MAX_LEN a = take SYMBOL_MAX_LEN b"

lemma length_mk_symbol [simp]: "length (mk_symbol sv) = SYMBOL_MAX_LEN"
  by (simp add: mk_symbol_def Let_def SYMBOL_MAX_LEN_def)

lemma mk_symbol_view:
  assumes "NUL \<notin> set sv"
  shows "symbol_view (mk_symbol sv) = take (SYMBOL_MAX_LEN - 1) sv"
proof -
  have tw: "takeWhile (\<lambda>c. c \<noteq> NUL) (xs @ replicate (Suc k) NUL) = xs" if "NUL \<notin> set xs" for xs k
    using that by (induction xs) auto
  show ?thesis
  proof (cases "length sv < SYMBOL_MAX_LEN")
    case True
    then have "SYMBOL_MAX_LEN - length sv = Suc (SYMBOL_MAX_LEN - Suc (length sv))" by simp
    with True tw [of sv] assms show ?thesis
      by (simp only: mk_symbol_def symbol_view_def Let_def if_True take_all_iff) simp
  next
    case False
    have "NUL \<notin> set (take (SYMBOL_MAX_LEN - 1) sv)"
      using assms in_set_takeD by metis
    with False tw [of "take (SYMBOL_MAX_LEN - 1) sv" 0] show ?thesis
      by (simp add: mk_symbol_def symbol_view_def Let_def SYMBOL_MAX_LEN_def)
  qed
qed

section \<open>Order, Trade, BBO, PriceLevel\<close>

record order =
  o_id :: order_id
  o_price :: price
  o_qty :: quantity
  o_remaining :: quantity
  o_timestamp :: nanos
  o_prev :: order_id
  o_next :: order_id
  o_side :: side
  o_type :: order_type
  o_status :: order_status
  o_exchange :: exchange
  o_symbol :: symbol

definition default_order :: order where
  "default_order = \<lparr>o_id = 0, o_price = 0, o_qty = 0, o_remaining = 0, o_timestamp = 0, o_prev = 0,
     o_next = 0, o_side = BUY, o_type = LIMIT, o_status = NEW, o_exchange = GENERIC,
     o_symbol = replicate SYMBOL_MAX_LEN NUL\<rparr>"

definition is_active :: "order \<Rightarrow> bool" where
  "is_active o1 \<longleftrightarrow> o_status o1 = NEW \<or> o_status o1 = PARTIAL"

record trade =
  t_id :: nat
  t_maker_id :: order_id
  t_taker_id :: order_id
  t_price :: price
  t_qty :: quantity
  t_timestamp :: nanos
  t_aggressor :: side

record bbo =
  bid_price :: price
  ask_price :: price
  bid_qty :: quantity
  ask_qty :: quantity
  bbo_timestamp :: nanos

definition bbo_valid :: "bbo \<Rightarrow> bool" where
  "bbo_valid q \<longleftrightarrow> 0 < bid_price q \<and> 0 < ask_price q"

definition bbo_spread :: "bbo \<Rightarrow> price" where
  "bbo_spread q = ask_price q - bid_price q"

record price_level =
  l_price :: price
  l_total_qty :: quantity
  l_order_count :: nat
  l_head :: order_id
  l_tail :: order_id

definition default_level :: price_level where
  "default_level = \<lparr>l_price = 0, l_total_qty = 0, l_order_count = 0, l_head = 0, l_tail = 0\<rparr>"

definition level_empty :: "price_level \<Rightarrow> bool" where
  "level_empty l \<longleftrightarrow> l_order_count l = 0"

record add_result =
  ar_id :: order_id
  ar_accepted :: bool
  ar_fills :: "trade list"

record cancel_result =
  cr_found :: bool
  cr_cancelled :: bool

record modify_result =
  mr_success :: bool
  mr_new_id :: order_id
  mr_fills :: "trade list"

record stats =
  orders_added :: "64 word"
  orders_cancelled :: "64 word"
  orders_filled :: "64 word"
  trades_executed :: "64 word"
  total_volume :: "64 word"

definition zero_stats :: stats where
  "zero_stats = \<lparr>orders_added = 0, orders_cancelled = 0, orders_filled = 0, trades_executed = 0,
     total_volume = 0\<rparr>"

text \<open>The calls of the callback interface, with the object each passes.\<close>

datatype event = On_trade trade | On_bbo_update bbo | On_order_added order
  | On_order_cancelled order | On_order_filled order

end
