(* ===== verification/Std_Map.thy ===== *)
theory Std_Map
  imports Nano_Prelude
begin

text \<open>
  \<open>std::map<K, V, Compare>\<close> as the matching engine uses it for its two price ladders: the entries
  in the order of the comparator, so that \<open>begin()\<close> is the head of the list. The comparator is a
  parameter; the locale states what \<open>std::map\<close> requires of it (a strict order in which any two
  different keys are comparable) and the laws of the operations are proved once from that.
\<close>

type_synonym ('k, 'v) smap = "('k \<times> 'v) list"

text \<open>\<open>m[k] = v\<close> (and the update of the mapped value through a reference).\<close>

fun sm_insert :: "('k \<Rightarrow> 'k \<Rightarrow> bool) \<Rightarrow> 'k \<Rightarrow> 'v \<Rightarrow> ('k, 'v) smap \<Rightarrow> ('k, 'v) smap" where
  "sm_insert lt k v [] = [(k, v)]"
| "sm_insert lt k v ((k', v') # m) =
     (if lt k k' then (k, v) # (k', v') # m
      else if lt k' k then (k', v') # sm_insert lt k v m
      else (k, v) # m)"

text \<open>\<open>m.find(k)\<close>.\<close>

definition sm_find :: "'k \<Rightarrow> ('k, 'v) smap \<Rightarrow> 'v option" where
  "sm_find k m = map_of m k"

text \<open>\<open>m.erase(it)\<close> for the iterator of key \<open>k\<close>.\<close>

definition sm_erase :: "'k \<Rightarrow> ('k, 'v) smap \<Rightarrow> ('k, 'v) smap" where
  "sm_erase k m = filter (\<lambda>e. fst e \<noteq> k) m"

definition sm_ok :: "('k \<Rightarrow> 'k \<Rightarrow> bool) \<Rightarrow> ('k, 'v) smap \<Rightarrow> bool" where
  "sm_ok lt m \<longleftrightarrow> sorted_wrt (\<lambda>x y. lt (fst x) (fst y)) m"

lemma sm_find_simps [simp]:
  "sm_find k [] = None"
  "sm_find k ((k', v) # m) = (if k = k' then Some v else sm_find k m)"
  by (auto simp: sm_find_def)

lemma sm_find_None: "sm_find k m = None \<longleftrightarrow> k \<notin> fst ` set m"
  by (simp add: sm_find_def map_of_eq_None_iff)

lemma sm_find_SomeD: "sm_find k m = Some v \<Longrightarrow> (k, v) \<in> set m"
  by (simp add: sm_find_def map_of_SomeD)

lemma sm_erase_simps [simp]:
  "sm_erase k [] = []"
  "sm_erase k ((k', v) # m) = (if k = k' then sm_erase k m else (k', v) # sm_erase k m)"
  by (auto simp: sm_erase_def)

lemma sm_erase_id [simp]: "k \<notin> fst ` set m \<Longrightarrow> sm_erase k m = m"
  by (induction m) auto

lemma set_sm_erase: "set (sm_erase k m) = {e \<in> set m. fst e \<noteq> k}"
  by (auto simp: sm_erase_def)

lemma sm_find_erase: "sm_find k (sm_erase k' m) = (if k = k' then None else sm_find k m)"
  by (induction m) auto

locale comparator =
  fixes lt :: "'k \<Rightarrow> 'k \<Rightarrow> bool"
  assumes lt_irrefl: "\<not> lt x x"
    and lt_trans: "lt x y \<Longrightarrow> lt y z \<Longrightarrow> lt x z"
    and lt_total: "x \<noteq> y \<Longrightarrow> lt x y \<or> lt y x"
begin

lemma lt_asym: "lt x y \<Longrightarrow> \<not> lt y x"
  using lt_irrefl lt_trans by blast

lemma ok_Cons: "sm_ok lt ((k, v) # m) \<longleftrightarrow> (\<forall>k' \<in> fst ` set m. lt k k') \<and> sm_ok lt m"
  by (auto simp: sm_ok_def)

lemma ok_distinct: "sm_ok lt m \<Longrightarrow> distinct (map fst m)"
  by (induction m) (use lt_irrefl in \<open>force simp: ok_Cons\<close>)+

lemma fst_set_insert: "fst ` set (sm_insert lt k v m) = insert k (fst ` set m)"
proof (induction m)
  case Nil
  then show ?case by simp
next
  case (Cons e m)
  obtain k' v' where e: "e = (k', v')" by fastforce
  show ?case using Cons lt_total [of k k'] by (auto simp: e)
qed

lemma ok_insert: "sm_ok lt m \<Longrightarrow> sm_ok lt (sm_insert lt k v m)"
proof (induction m)
  case Nil
  then show ?case by (simp add: sm_ok_def)
next
  case (Cons e m)
  obtain k' v' where e: "e = (k', v')" by fastforce
  show ?case
    using Cons lt_total [of k k'] by (auto simp: e ok_Cons fst_set_insert intro: lt_trans)
qed

lemma ok_erase: "sm_ok lt m \<Longrightarrow> sm_ok lt (sm_erase k m)"
  by (auto simp: sm_ok_def sm_erase_def sorted_wrt_filter)

lemma find_insert: "sm_ok lt m \<Longrightarrow>
    sm_find x (sm_insert lt k v m) = (if x = k then Some v else sm_find x m)"
proof (induction m)
  case Nil
  then show ?case by simp
next
  case (Cons e m)
  obtain k' v' where e: "e = (k', v')" by fastforce
  show ?case
    using Cons lt_total [of k k'] lt_irrefl lt_asym by (auto simp: e ok_Cons)
qed

lemma set_insert: "sm_ok lt m \<Longrightarrow> set (sm_insert lt k v m) = insert (k, v) {e \<in> set m. fst e \<noteq> k}"
proof (induction m)
  case Nil
  then show ?case by simp
next
  case (Cons e m)
  obtain k' v' where e: "e = (k', v')" by fastforce
  show ?case
    using Cons lt_total [of k k'] lt_irrefl lt_asym by (auto simp: e ok_Cons)
qed

lemma find_iff: "sm_ok lt m \<Longrightarrow> sm_find k m = Some v \<longleftrightarrow> (k, v) \<in> set m"
  by (simp add: sm_find_def ok_distinct)

lemma begin_least: "sm_ok lt ((k, v) # m) \<Longrightarrow> k' \<in> fst ` set m \<Longrightarrow> lt k k'"
  by (auto simp: ok_Cons)

lemma erase_insert: "sm_ok lt m \<Longrightarrow> sm_erase k (sm_insert lt k v m) = sm_erase k m"
proof (induction m)
  case Nil
  then show ?case by simp
next
  case (Cons e m)
  obtain k' v' where e: "e = (k', v')" by fastforce
  show ?case
    using Cons lt_total [of k k'] lt_irrefl by (auto simp: e ok_Cons)
qed

lemma insert_head: "sm_insert lt k w ((k, v) # m) = (k, w) # m"
  by (simp add: lt_irrefl)

end

text \<open>The two comparators of the engine: \<open>std::less<Price>\<close> for asks, \<open>std::greater<Price>\<close> for bids.\<close>

interpretation asks: comparator "(<) :: int \<Rightarrow> int \<Rightarrow> bool"
  by unfold_locales auto

interpretation bids: comparator "(>) :: int \<Rightarrow> int \<Rightarrow> bool"
  by unfold_locales auto

end
