(* ===== verification/Memory_Pool.thy ===== *)
theory Memory_Pool
  imports Nano_Prelude
begin

text \<open>
  The fixed-capacity slab allocators: \<open>MemoryPool\<close> (\<open>hft_clean/include/memory_pool.hpp\<close>), which
  backs the order book, \<open>ObjectPool\<close> (\<open>orderbook/object_pool.hpp\<close>) and the bump allocators
  \<open>IndicatorPool\<close> and \<open>StrategyPool\<close> (\<open>pool.hpp\<close>, \<open>strategyPool.hpp\<close>). A slot pointer is the index
  of the slot. The locale \<open>slot_pool\<close> is the contract the clients rely on: a slot is never handed out
  twice, and a released slot becomes available again.
\<close>

section \<open>MemoryPool\<close>

record 'a mpool =
  storage :: "nat \<Rightarrow> 'a"
  free_list :: "nat \<Rightarrow> nat"
  free_top :: nat

text \<open>
  The constructor fills \<open>free_list_[i] = i\<close> for every index below \<open>CAPACITY\<close>; the arrays have no
  other index.
\<close>

definition pool_init :: "nat \<Rightarrow> 'a \<Rightarrow> 'a mpool" where
  "pool_init capacity fresh = \<lparr>storage = (\<lambda>_. fresh), free_list = (\<lambda>i. i), free_top = capacity\<rparr>"

definition allocate :: "'a \<Rightarrow> 'a mpool \<Rightarrow> nat option \<times> 'a mpool" where
  "allocate fresh p =
     (if free_top p = 0 then (None, p)
      else let top = free_top p - 1;
               idx = free_list p top
           in (Some idx, p\<lparr>free_top := top, storage := (storage p)(idx := fresh)\<rparr>))"

definition deallocate :: "nat \<Rightarrow> 'a mpool \<Rightarrow> 'a mpool" where
  "deallocate idx p =
     p\<lparr>free_list := (free_list p)(free_top p := idx), free_top := Suc (free_top p)\<rparr>"

definition pool_owns :: "nat \<Rightarrow> nat \<Rightarrow> bool" where
  "pool_owns capacity idx \<longleftrightarrow> idx < capacity"

definition pool_reset :: "nat \<Rightarrow> 'a mpool \<Rightarrow> 'a mpool" where
  "pool_reset capacity p = p\<lparr>free_list := (\<lambda>i. i), free_top := capacity\<rparr>"

definition pool_available :: "'a mpool \<Rightarrow> nat" where
  "pool_available p = free_top p"

definition pool_used :: "nat \<Rightarrow> 'a mpool \<Rightarrow> nat" where
  "pool_used capacity p = capacity - free_top p"

text \<open>The slots on the free list, and the invariant: they are distinct and inside the slab.\<close>

definition free_slots :: "'a mpool \<Rightarrow> nat set" where
  "free_slots p = free_list p ` {..<free_top p}"

definition pool_ok :: "nat \<Rightarrow> 'a mpool \<Rightarrow> bool" where
  "pool_ok capacity p \<longleftrightarrow> inj_on (free_list p) {..<free_top p} \<and> free_slots p \<subseteq> {..<capacity}"

lemma card_free_slots: "pool_ok capacity p \<Longrightarrow> card (free_slots p) = free_top p"
  by (simp add: pool_ok_def free_slots_def card_image)

lemma pool_ok_top: "pool_ok capacity p \<Longrightarrow> free_top p \<le> capacity"
  using card_mono [of "{..<capacity}" "free_slots p"] card_free_slots [of capacity p]
  by (simp add: pool_ok_def)

lemma pool_init_ok [simp]: "pool_ok capacity (pool_init capacity fresh)"
  by (simp add: pool_ok_def pool_init_def free_slots_def)

lemma free_slots_init [simp]: "free_slots (pool_init capacity fresh) = {..<capacity}"
  by (simp add: pool_init_def free_slots_def)

lemma pool_reset_ok [simp]: "pool_ok capacity (pool_reset capacity p)"
  "free_slots (pool_reset capacity p) = {..<capacity}"
  by (simp_all add: pool_ok_def pool_reset_def free_slots_def)

lemma allocate_None: "allocate fresh p = (None, p') \<longleftrightarrow> free_top p = 0 \<and> p' = p"
  by (auto simp: allocate_def Let_def)

lemma free_slots_split:
  assumes "0 < free_top p"
  shows "free_slots p = insert (free_list p (free_top p - 1)) (free_list p ` {..<free_top p - 1})"
proof -
  have "{..<free_top p} = insert (free_top p - 1) {..<free_top p - 1}" using assms by auto
  then show ?thesis by (simp add: free_slots_def)
qed

lemma allocate_Some:
  assumes ok: "pool_ok capacity p" and al: "allocate fresh p = (Some i, p')"
  shows "i \<in> free_slots p" "free_slots p' = free_slots p - {i}" "pool_ok capacity p'"
    "storage p' = (storage p)(i := fresh)"
proof -
  from al have top: "0 < free_top p" and i: "i = free_list p (free_top p - 1)"
    and p': "p' = p\<lparr>free_top := free_top p - 1, storage := (storage p)(i := fresh)\<rparr>"
    by (auto simp: allocate_def Let_def split: if_splits)
  show "i \<in> free_slots p" using top by (simp add: i free_slots_split)
  have "i \<notin> free_list p ` {..<free_top p - 1}"
    using ok top unfolding pool_ok_def i inj_on_def by fastforce
  then show "free_slots p' = free_slots p - {i}"
    unfolding free_slots_split [OF top] by (auto simp: p' free_slots_def i)
  then show "pool_ok capacity p'"
    using ok by (auto simp: pool_ok_def p' inj_on_def)
  show "storage p' = (storage p)(i := fresh)" by (simp add: p')
qed

lemma deallocate_slots:
  assumes ok: "pool_ok capacity p" and "i < capacity" and "i \<notin> free_slots p"
  shows "free_slots (deallocate i p) = insert i (free_slots p)"
    "pool_ok capacity (deallocate i p)"
proof -
  have S: "{..<Suc (free_top p)} = insert (free_top p) {..<free_top p}" by auto
  show fs: "free_slots (deallocate i p) = insert i (free_slots p)"
    by (auto simp: deallocate_def free_slots_def S)
  have "inj_on ((free_list p)(free_top p := i)) {..<Suc (free_top p)}"
    using assms unfolding pool_ok_def free_slots_def S
    by (auto simp: inj_on_def image_iff)
  then show "pool_ok capacity (deallocate i p)"
    using fs assms by (auto simp: pool_ok_def deallocate_def)
qed

lemma deallocate_storage [simp]: "storage (deallocate i p) = storage p"
  by (simp add: deallocate_def)

section \<open>ObjectPool\<close>

text \<open>The older pool: \<open>acquire\<close> does not reset the object, \<open>release\<close> drops a release into a full pool.\<close>

record opool =
  op_free_list :: "nat \<Rightarrow> nat"
  op_free_head :: nat

definition opool_init :: "nat \<Rightarrow> opool" where
  "opool_init pool_size = \<lparr>op_free_list = (\<lambda>i. i), op_free_head = pool_size\<rparr>"

definition acquire :: "opool \<Rightarrow> nat option \<times> opool" where
  "acquire p =
     (if op_free_head p = 0 then (None, p)
      else (Some (op_free_list p (op_free_head p - 1)), p\<lparr>op_free_head := op_free_head p - 1\<rparr>))"

definition release :: "nat \<Rightarrow> nat \<Rightarrow> opool \<Rightarrow> opool" where
  "release pool_size obj p =
     (if op_free_head p = pool_size then p
      else p\<lparr>op_free_list := (op_free_list p)(op_free_head p := obj),
             op_free_head := Suc (op_free_head p)\<rparr>)"

definition opool_mpool :: "opool \<Rightarrow> unit mpool" where
  "opool_mpool p = \<lparr>storage = (\<lambda>_. ()), free_list = op_free_list p, free_top = op_free_head p\<rparr>"

lemma acquire_allocate:
  "acquire p = (r, p') \<Longrightarrow> allocate () (opool_mpool p) = (r, opool_mpool p')"
  by (auto simp: acquire_def allocate_def opool_mpool_def Let_def split: if_splits)

lemma release_deallocate:
  assumes "pool_ok n (opool_mpool p)" and "i < n" and "i \<notin> free_slots (opool_mpool p)"
  shows "opool_mpool (release n i p) = deallocate i (opool_mpool p)"
proof -
  have "card (insert i (free_slots (opool_mpool p))) \<le> card {..<n}"
    by (rule card_mono) (use assms in \<open>auto simp: pool_ok_def\<close>)
  moreover have "card (insert i (free_slots (opool_mpool p))) = Suc (card (free_slots (opool_mpool p)))"
    using assms(3) by (simp add: free_slots_def)
  ultimately have "op_free_head p \<noteq> n"
    using card_free_slots [OF assms(1)] by (simp add: opool_mpool_def)
  then show ?thesis by (simp add: release_def deallocate_def opool_mpool_def)
qed

section \<open>The contract of a slot pool\<close>

locale slot_pool =
  fixes alloc :: "'p \<Rightarrow> nat option \<times> 'p"
    and free :: "nat \<Rightarrow> 'p \<Rightarrow> 'p"
    and slots :: "'p \<Rightarrow> nat set"
    and ok :: "'p \<Rightarrow> bool"
    and capacity :: nat
  assumes alloc_none: "ok p \<Longrightarrow> alloc p = (None, p') \<Longrightarrow> slots p = {} \<and> p' = p"
    and alloc_some: "ok p \<Longrightarrow> alloc p = (Some i, p') \<Longrightarrow>
      i \<in> slots p \<and> slots p' = slots p - {i} \<and> ok p'"
    and free_slot: "ok p \<Longrightarrow> i < capacity \<Longrightarrow> i \<notin> slots p \<Longrightarrow>
      slots (free i p) = insert i (slots p) \<and> ok (free i p)"
    and slots_bound: "ok p \<Longrightarrow> slots p \<subseteq> {..<capacity}"
begin

lemma alloc_distinct:
  "ok p \<Longrightarrow> alloc p = (Some i, p1) \<Longrightarrow> alloc p1 = (Some j, p2) \<Longrightarrow> i \<noteq> j"
  using alloc_some by blast

lemma alloc_bound: "ok p \<Longrightarrow> alloc p = (Some i, p') \<Longrightarrow> i < capacity"
  using alloc_some slots_bound by blast

lemma free_alloc: "ok p \<Longrightarrow> alloc p = (Some i, p') \<Longrightarrow> slots (free i p') = slots p \<and> ok (free i p')"
  using alloc_some [of p i p'] alloc_bound [of p i p'] free_slot [of p' i] by auto

lemma alloc_after_free: "ok p \<Longrightarrow> i < capacity \<Longrightarrow> i \<notin> slots p \<Longrightarrow> fst (alloc (free i p)) \<noteq> None"
  using free_slot [of p i] alloc_none [of "free i p"] by (cases "alloc (free i p)") auto

end

interpretation memory_pool: slot_pool "allocate fresh" deallocate free_slots "pool_ok capacity" capacity
  for fresh :: 'a and capacity :: nat
proof unfold_locales
  fix p p' :: "'a mpool" and i
  show "pool_ok capacity p \<Longrightarrow> allocate fresh p = (None, p') \<Longrightarrow> free_slots p = {} \<and> p' = p"
    by (simp add: allocate_None free_slots_def)
  show "pool_ok capacity p \<Longrightarrow> allocate fresh p = (Some i, p') \<Longrightarrow>
      i \<in> free_slots p \<and> free_slots p' = free_slots p - {i} \<and> pool_ok capacity p'"
    using allocate_Some by metis
  show "pool_ok capacity p \<Longrightarrow> i < capacity \<Longrightarrow> i \<notin> free_slots p \<Longrightarrow>
      free_slots (deallocate i p) = insert i (free_slots p) \<and> pool_ok capacity (deallocate i p)"
    using deallocate_slots by metis
  show "pool_ok capacity p \<Longrightarrow> free_slots p \<subseteq> {..<capacity}"
    by (simp add: pool_ok_def)
qed

interpretation object_pool: slot_pool acquire "release pool_size"
  "\<lambda>p. free_slots (opool_mpool p)" "\<lambda>p. pool_ok pool_size (opool_mpool p)" pool_size
  for pool_size :: nat
proof unfold_locales
  fix p p' :: opool and i
  show "pool_ok pool_size (opool_mpool p) \<Longrightarrow> acquire p = (None, p') \<Longrightarrow>
      free_slots (opool_mpool p) = {} \<and> p' = p"
    by (auto simp: acquire_def free_slots_def opool_mpool_def split: if_splits)
  show "pool_ok pool_size (opool_mpool p) \<Longrightarrow> acquire p = (Some i, p') \<Longrightarrow>
      i \<in> free_slots (opool_mpool p) \<and> free_slots (opool_mpool p') = free_slots (opool_mpool p) - {i} \<and>
      pool_ok pool_size (opool_mpool p')"
    using acquire_allocate memory_pool.alloc_some by metis
  show "pool_ok pool_size (opool_mpool p) \<Longrightarrow> i < pool_size \<Longrightarrow> i \<notin> free_slots (opool_mpool p) \<Longrightarrow>
      free_slots (opool_mpool (release pool_size i p)) = insert i (free_slots (opool_mpool p)) \<and>
      pool_ok pool_size (opool_mpool (release pool_size i p))"
    using release_deallocate memory_pool.free_slot by metis
  show "pool_ok pool_size (opool_mpool p) \<Longrightarrow> free_slots (opool_mpool p) \<subseteq> {..<pool_size}"
    by (simp add: pool_ok_def)
qed

section \<open>IndicatorPool and StrategyPool\<close>

text \<open>
  A bump allocator over \<open>N\<close> slots; \<open>acquire\<close> on a full pool calls \<open>std::abort()\<close>. The two templates
  have the same body.
\<close>

record 'a bump_pool =
  bp_storage :: "nat \<Rightarrow> 'a"
  bp_next :: nat

definition bump_acquire :: "nat \<Rightarrow> 'a \<Rightarrow> 'a bump_pool \<Rightarrow> (nat \<times> 'a bump_pool) result" where
  "bump_acquire N obj p =
     (if N \<le> bp_next p then Inl (Undefined ''abort'')
      else Inr (bp_next p, p\<lparr>bp_storage := (bp_storage p)(bp_next p := obj), bp_next := Suc (bp_next p)\<rparr>))"

definition bump_release_all :: "'a bump_pool \<Rightarrow> 'a bump_pool" where
  "bump_release_all p = p\<lparr>bp_next := 0\<rparr>"

end
