(* ===== verification/Order_Book.thy ===== *)
theory Order_Book
  imports Book_Types Std_Map Memory_Pool
begin

text \<open>
  The price-time priority order book and its matching engine
  (\<open>hft_clean/include/order_book.hpp\<close>, \<open>hft_clean/src/order_book.cpp\<close>).

  The state is the one of the class: the two ladders, the map from order ids to \<open>Order*\<close> (a slot of
  the pool), the pool, the id counters (\<open>uint64_t\<close>, so they wrap) and the statistics. Orders of a
  level are linked through \<open>prev\<close> and \<open>next\<close> ids and every access through an id goes through
  \<open>order_map\<close>, as in the code, so that dangling ids, leaked slots and broken links are states of the
  model.

  Four fields make the environment explicit: \<open>clock\<close> is the sequence of values \<open>now_ns()\<close> is going to
  return, \<open>events\<close> is the sequence of callbacks made so far, and \<open>stale_reads\<close> counts the reads of
  \<open>it->first\<close> in \<open>match_order\<close> after \<open>fill_order\<close> has erased the map node of \<open>it\<close>. Such a read of freed memory
  is undefined for the standard; the model goes on with whatever price the memory holds, which is the number
  \<open>freed_keys b n\<close> for the read number \<open>n\<close>, and nothing is assumed about it.
\<close>

definition MAX_ORDERS :: nat where "MAX_ORDERS = 1048576"

type_synonym ladder = "(price, price_level) smap"

record book =
  bk_symbol :: symbol
  callbacks :: bool
  bid_ladder :: ladder
  ask_ladder :: ladder
  order_map :: "order_id \<rightharpoonup> nat"
  order_pool :: "order mpool"
  order_id_seq :: nat
  trade_id_seq :: nat
  bk_stats :: stats
  clock :: "nat \<Rightarrow> nanos"
  events :: "event list"
  stale_reads :: nat
  freed_keys :: "nat \<Rightarrow> price"

definition new_book :: "symbol \<Rightarrow> bool \<Rightarrow> (nat \<Rightarrow> nanos) \<Rightarrow> (nat \<Rightarrow> price) \<Rightarrow> book" where
  "new_book symb cb clk keys = \<lparr>bk_symbol = symb, callbacks = cb, bid_ladder = [], ask_ladder = [],
     order_map = Map.empty, order_pool = pool_init MAX_ORDERS default_order, order_id_seq = 0,
     trade_id_seq = 0, bk_stats = zero_stats, clock = clk, events = [], stale_reads = 0, freed_keys = keys\<rparr>"

section \<open>Access to the parts of the state\<close>

definition now_ns :: "book \<Rightarrow> nanos \<times> book" where
  "now_ns b = (clock b 0, b\<lparr>clock := (\<lambda>n. clock b (Suc n))\<rparr>)"

definition next_order_id :: "book \<Rightarrow> order_id \<times> book" where
  "next_order_id b = (let i = (order_id_seq b + 1) mod 2 ^ 64 in (i, b\<lparr>order_id_seq := i\<rparr>))"

definition next_trade_id :: "book \<Rightarrow> nat \<times> book" where
  "next_trade_id b = (let i = (trade_id_seq b + 1) mod 2 ^ 64 in (i, b\<lparr>trade_id_seq := i\<rparr>))"

definition obj :: "nat \<Rightarrow> book \<Rightarrow> order" where
  "obj s b = storage (order_pool b) s"

definition upd_obj :: "nat \<Rightarrow> (order \<Rightarrow> order) \<Rightarrow> book \<Rightarrow> book" where
  "upd_obj s f b =
     b\<lparr>order_pool := (order_pool b)\<lparr>storage := (storage (order_pool b))(s := f (obj s b))\<rparr>\<rparr>"

definition upd_stats :: "(stats \<Rightarrow> stats) \<Rightarrow> book \<Rightarrow> book" where
  "upd_stats f b = b\<lparr>bk_stats := f (bk_stats b)\<rparr>"

definition dealloc :: "nat \<Rightarrow> book \<Rightarrow> book" where
  "dealloc s b = b\<lparr>order_pool := deallocate s (order_pool b)\<rparr>"

definition map_erase :: "order_id \<Rightarrow> book \<Rightarrow> book" where
  "map_erase i b = b\<lparr>order_map := (order_map b)(i := None)\<rparr>"

text \<open>\<open>order_map_.emplace\<close> leaves an existing entry as it is.\<close>

definition map_emplace :: "order_id \<Rightarrow> nat \<Rightarrow> book \<Rightarrow> book" where
  "map_emplace i s b =
     (case order_map b i of None \<Rightarrow> b\<lparr>order_map := (order_map b)(i \<mapsto> s)\<rparr> | Some _ \<Rightarrow> b)"

text \<open>The ladder on which orders of a side rest, and the comparator of its \<open>std::map\<close>.\<close>

fun side_lt :: "side \<Rightarrow> price \<Rightarrow> price \<Rightarrow> bool" where
  "side_lt BUY x y \<longleftrightarrow> x > y"
| "side_lt SELL x y \<longleftrightarrow> x < y"

fun ladder_of :: "side \<Rightarrow> book \<Rightarrow> ladder" where
  "ladder_of BUY b = bid_ladder b"
| "ladder_of SELL b = ask_ladder b"

fun set_ladder :: "side \<Rightarrow> ladder \<Rightarrow> book \<Rightarrow> book" where
  "set_ladder BUY m b = b\<lparr>bid_ladder := m\<rparr>"
| "set_ladder SELL m b = b\<lparr>ask_ladder := m\<rparr>"

definition put_level :: "side \<Rightarrow> price \<Rightarrow> price_level \<Rightarrow> book \<Rightarrow> book" where
  "put_level sd p l b = set_ladder sd (sm_insert (side_lt sd) p l (ladder_of sd b)) b"

definition erase_level :: "side \<Rightarrow> price \<Rightarrow> book \<Rightarrow> book" where
  "erase_level sd p b = set_ladder sd (sm_erase p (ladder_of sd b)) b"

definition notify :: "event \<Rightarrow> book \<Rightarrow> book" where
  "notify e b = (if callbacks b then b\<lparr>events := events b @ [e]\<rparr> else b)"

section \<open>Best bid and offer\<close>

definition best_bid :: "book \<Rightarrow> price" where
  "best_bid b = (case bid_ladder b of [] \<Rightarrow> 0 | (p, _) # _ \<Rightarrow> p)"

definition best_ask :: "book \<Rightarrow> price" where
  "best_ask b = (case ask_ladder b of [] \<Rightarrow> 0 | (p, _) # _ \<Rightarrow> p)"

definition best_bbo :: "book \<Rightarrow> bbo \<times> book" where
  "best_bbo b =
     (let (t, b1) = now_ns b;
          (bp, bq) = (case bid_ladder b of [] \<Rightarrow> (0, 0) | (_, l) # _ \<Rightarrow> (l_price l, l_total_qty l));
          (ap, aq) = (case ask_ladder b of [] \<Rightarrow> (0, 0) | (_, l) # _ \<Rightarrow> (l_price l, l_total_qty l))
      in (\<lparr>bid_price = bp, ask_price = ap, bid_qty = bq, ask_qty = aq, bbo_timestamp = t\<rparr>, b1))"

definition notify_bbo :: "book \<Rightarrow> book" where
  "notify_bbo b =
     (if callbacks b then let (q, b1) = best_bbo b in b1\<lparr>events := events b1 @ [On_bbo_update q]\<rparr>
      else b)"

section \<open>The linked list of a level\<close>

definition level_add_order :: "price_level \<Rightarrow> nat \<Rightarrow> book \<Rightarrow> price_level \<times> book" where
  "level_add_order lvl s b =
     (let b1 = upd_obj s (\<lambda>o1. o1\<lparr>o_prev := l_tail lvl, o_next := 0\<rparr>) b;
          oid = o_id (obj s b1);
          (lvl1, b2) =
            (if l_tail lvl \<noteq> 0 then
               (case order_map b1 (l_tail lvl) of
                  None \<Rightarrow> (lvl, b1)
                | Some ps \<Rightarrow> (lvl, upd_obj ps (\<lambda>o1. o1\<lparr>o_next := oid\<rparr>) b1))
             else (lvl\<lparr>l_head := oid\<rparr>, b1))
      in (lvl1\<lparr>l_tail := oid, l_total_qty := i64 (l_total_qty lvl1 + o_remaining (obj s b2)),
               l_order_count := l_order_count lvl1 + 1\<rparr>, b2))"

definition level_remove_order_links :: "price_level \<Rightarrow> nat \<Rightarrow> book \<Rightarrow> price_level \<times> book" where
  "level_remove_order_links lvl s b =
     (let (lvl1, b1) =
            (if o_prev (obj s b) \<noteq> 0 then
               (case order_map b (o_prev (obj s b)) of
                  None \<Rightarrow> (lvl, b)
                | Some ps \<Rightarrow> (lvl, upd_obj ps (\<lambda>o1. o1\<lparr>o_next := o_next (obj s b)\<rparr>) b))
             else (lvl\<lparr>l_head := o_next (obj s b)\<rparr>, b));
          (lvl2, b2) =
            (if o_next (obj s b1) \<noteq> 0 then
               (case order_map b1 (o_next (obj s b1)) of
                  None \<Rightarrow> (lvl1, b1)
                | Some ns \<Rightarrow> (lvl1, upd_obj ns (\<lambda>o1. o1\<lparr>o_prev := o_prev (obj s b1)\<rparr>) b1))
             else (lvl1\<lparr>l_tail := o_prev (obj s b1)\<rparr>, b1))
      in (if 0 < l_order_count lvl2 then lvl2\<lparr>l_order_count := l_order_count lvl2 - 1\<rparr> else lvl2, b2))"

section \<open>Filling\<close>

definition fill_update_ladder :: "side \<Rightarrow> nat \<Rightarrow> quantity \<Rightarrow> book \<Rightarrow> book" where
  "fill_update_ladder sd ms fill_qty b =
     (let p = o_price (obj ms b)
      in case sm_find p (ladder_of sd b) of
           None \<Rightarrow> b
         | Some lvl \<Rightarrow>
             let lvl1 = lvl\<lparr>l_total_qty := i64 (l_total_qty lvl - fill_qty)\<rparr>
             in if o_remaining (obj ms b) = 0 then
                  let (lvl2, b1) = level_remove_order_links lvl1 ms b
                  in if level_empty lvl2 then erase_level sd p b1 else put_level sd p lvl2 b1
                else put_level sd p lvl1 b)"

definition retire_maker :: "nat \<Rightarrow> book \<Rightarrow> book" where
  "retire_maker ms b =
     (if o_remaining (obj ms b) = 0 then
        let b1 = upd_obj ms (\<lambda>o1. o1\<lparr>o_status := FILLED\<rparr>) b;
            b2 = map_erase (o_id (obj ms b1)) b1;
            b3 = upd_stats (\<lambda>st. st\<lparr>orders_filled := orders_filled st + 1\<rparr>) b2;
            b4 = notify (On_order_filled (obj ms b3)) b3
        in dealloc ms b4
      else upd_obj ms (\<lambda>o1. o1\<lparr>o_status := PARTIAL\<rparr>) b)"

definition fill_order :: "nat \<Rightarrow> nat \<Rightarrow> quantity \<Rightarrow> trade list \<Rightarrow> book \<Rightarrow> trade list \<times> book" where
  "fill_order ms ts fill_qty out b =
     (let (tid, b1) = next_trade_id b;
          (now, b2) = now_ns b1;
          t = \<lparr>t_id = tid, t_maker_id = o_id (obj ms b2), t_taker_id = o_id (obj ts b2),
               t_price = o_price (obj ms b2), t_qty = fill_qty, t_timestamp = now,
               t_aggressor = o_side (obj ts b2)\<rparr>;
          b3 = upd_obj ms (\<lambda>o1. o1\<lparr>o_remaining := o_remaining o1 - fill_qty\<rparr>) b2;
          b4 = upd_obj ts (\<lambda>o1. o1\<lparr>o_remaining := o_remaining o1 - fill_qty\<rparr>) b3;
          b5 = upd_stats (\<lambda>st. st\<lparr>total_volume := total_volume st + word_of_int fill_qty,
                                  trades_executed := trades_executed st + 1\<rparr>) b4;
          b6 = fill_update_ladder (if o_side (obj ts b5) = BUY then SELL else BUY) ms fill_qty b5;
          b7 = retire_maker ms b6;
          b8 = upd_obj ts (\<lambda>o1. o1\<lparr>o_status := (if o_remaining o1 = 0 then FILLED else PARTIAL)\<rparr>) b7
      in (out @ [t], notify (On_trade t) b8))"

section \<open>Matching\<close>

text \<open>
  The two loops of \<open>match_order\<close>. \<open>None\<close> is a loop that does not end: the outer loop spins when the best
  level is not empty but has no reachable order.
\<close>

partial_function (option) walk_level ::
  "nat \<Rightarrow> order_id \<Rightarrow> trade list \<Rightarrow> book \<Rightarrow> (trade list \<times> book) option" where
  "walk_level ts cur out b =
     (if cur \<noteq> 0 \<and> 0 < o_remaining (obj ts b) then
        (case order_map b cur of
           None \<Rightarrow> Some (out, b)
         | Some ms \<Rightarrow>
             let next_id = o_next (obj ms b);
                 fill = min (o_remaining (obj ts b)) (o_remaining (obj ms b));
                 r = fill_order ms ts fill out b
             in walk_level ts next_id (fst r) (snd r))
      else Some (out, b))"

text \<open>
  The clean-up of a level: it looks up \<open>it->first\<close>. While the level is in the ladder that is its price \<open>p\<close>; when
  \<open>fill_order\<close> has erased it, the key is read from the freed node.
\<close>

definition cleanup_at :: "side \<Rightarrow> price \<Rightarrow> book \<Rightarrow> book" where
  "cleanup_at sd k b =
     (case sm_find k (ladder_of sd b) of
        None \<Rightarrow> b
      | Some lvl \<Rightarrow> if level_empty lvl then erase_level sd k b else b)"

definition sweep_cleanup :: "side \<Rightarrow> price \<Rightarrow> book \<Rightarrow> book" where
  "sweep_cleanup sd p b =
     (if sm_find p (ladder_of sd b) = None then
        cleanup_at sd (freed_keys b (stale_reads b)) (b\<lparr>stale_reads := Suc (stale_reads b)\<rparr>)
      else cleanup_at sd p b)"

definition price_blocked :: "side \<Rightarrow> price \<Rightarrow> price \<Rightarrow> bool" where
  "price_blocked taker_side limit p \<longleftrightarrow> (if taker_side = BUY then p > limit else p < limit)"

partial_function (option) sweep ::
  "side \<Rightarrow> nat \<Rightarrow> trade list \<Rightarrow> book \<Rightarrow> (trade list \<times> book) option" where
  "sweep sd ts out b =
     (case ladder_of sd b of
        [] \<Rightarrow> Some (out, b)
      | e # _ \<Rightarrow>
          if 0 < o_remaining (obj ts b) then
            if price_blocked (o_side (obj ts b)) (o_price (obj ts b)) (fst e) then Some (out, b)
            else
              (case walk_level ts (l_head (snd e)) out b of
                 None \<Rightarrow> None
               | Some r \<Rightarrow> sweep sd ts (fst r) (sweep_cleanup sd (fst e) (snd r)))
          else Some (out, b))"

declare walk_level.simps [code] sweep.simps [code]

definition match_order :: "nat \<Rightarrow> book \<Rightarrow> (trade list \<times> book) option" where
  "match_order ts b = sweep (if o_side (obj ts b) = BUY then SELL else BUY) ts [] b"

text \<open>The fill-or-kill test: the loop over the opposite ladder with its early returns.\<close>

fun fok_scan :: "side \<Rightarrow> price \<Rightarrow> quantity \<Rightarrow> quantity \<Rightarrow> ladder \<Rightarrow> bool" where
  "fok_scan sd limit qty avail [] \<longleftrightarrow> qty \<le> avail"
| "fok_scan sd limit qty avail ((p, lvl) # m) \<longleftrightarrow>
     (if price_blocked sd limit p then qty \<le> avail
      else let avail1 = i64 (avail + l_total_qty lvl)
           in qty \<le> avail1 \<or> fok_scan sd limit qty avail1 m)"

definition can_fill_fok :: "side \<Rightarrow> price \<Rightarrow> quantity \<Rightarrow> book \<Rightarrow> bool" where
  "can_fill_fok sd limit qty b = fok_scan sd limit qty 0 (ladder_of (opposite sd) b)"

section \<open>The public operations\<close>

definition init_order :: "order_id \<Rightarrow> nanos \<Rightarrow> side \<Rightarrow> order_type \<Rightarrow> price \<Rightarrow> quantity \<Rightarrow> exchange \<Rightarrow>
    symbol \<Rightarrow> order \<Rightarrow> order" where
  "init_order oid now sd tp p qty exch symb o1 =
     o1\<lparr>o_id := oid, o_qty := qty, o_remaining := qty,
        o_price := (if tp = MARKET then if sd = BUY then INT64_MAX else INT64_MIN else p),
        o_timestamp := now, o_side := sd, o_type := tp, o_status := NEW, o_exchange := exch,
        o_symbol := symb, o_prev := 0, o_next := 0\<rparr>"

definition rest_in_book :: "side \<Rightarrow> nat \<Rightarrow> book \<Rightarrow> book" where
  "rest_in_book sd s b =
     (let p = o_price (obj s b);
          lvl = (case sm_find p (ladder_of sd b) of Some l \<Rightarrow> l | None \<Rightarrow> default_level);
          (lvl1, b1) = level_add_order (lvl\<lparr>l_price := p\<rparr>) s b
      in put_level sd p lvl1 b1)"

definition reject :: add_result where
  "reject = \<lparr>ar_id = 0, ar_accepted = False, ar_fills = []\<rparr>"

text \<open>The part of \<open>add_order\<close> after the call of \<open>match_order\<close>.\<close>

definition after_match :: "side \<Rightarrow> order_type \<Rightarrow> nat \<Rightarrow> order_id \<Rightarrow> trade list \<Rightarrow> book \<Rightarrow>
    add_result \<times> book" where
  "after_match sd tp s oid fills b =
     (let res = \<lparr>ar_id = oid, ar_accepted = True, ar_fills = fills\<rparr>
      in if tp = POST_ONLY \<and> fills \<noteq> [] then
           (res\<lparr>ar_accepted := False, ar_fills := []\<rparr>,
            if is_active (obj s b) then dealloc s (map_erase (o_id (obj s b)) b) else b)
         else if o_remaining (obj s b) = 0 then
           let b1 = upd_obj s (\<lambda>o1. o1\<lparr>o_status := FILLED\<rparr>) b;
               b2 = map_erase (o_id (obj s b1)) b1;
               b3 = upd_stats (\<lambda>st. st\<lparr>orders_filled := orders_filled st + 1\<rparr>) b2;
               b4 = notify (On_order_filled (obj s b3)) b3
           in (res, notify_bbo (dealloc s b4))
         else if tp = IOC \<or> tp = FOK then
           (res, notify_bbo (dealloc s (map_erase (o_id (obj s b)) b)))
         else if tp = LIMIT then
           let b1 = rest_in_book sd s b
           in (res, notify_bbo (notify (On_order_added (obj s b1)) b1))
         else (res, b))"

text \<open>Allocation and initialisation of the order, up to the fill-or-kill test.\<close>

definition new_order :: "side \<Rightarrow> order_type \<Rightarrow> price \<Rightarrow> quantity \<Rightarrow> exchange \<Rightarrow> nat \<Rightarrow> book \<Rightarrow> book" where
  "new_order sd tp p qty exch s b =
     (let (oid, b1) = next_order_id b;
          (now, b2) = now_ns b1
      in upd_obj s (init_order oid now sd tp p qty exch (bk_symbol b2)) b2)"

definition add_order :: "side \<Rightarrow> order_type \<Rightarrow> price \<Rightarrow> quantity \<Rightarrow> exchange \<Rightarrow> book \<Rightarrow>
    (add_result \<times> book) option" where
  "add_order sd tp p qty exch b =
     (if qty \<le> 0 then Some (reject, b)
      else if tp = LIMIT \<and> p \<le> 0 then Some (reject, b)
      else
        (case allocate default_order (order_pool b) of
           (None, pool1) \<Rightarrow> Some (reject, b\<lparr>order_pool := pool1\<rparr>)
         | (Some s, pool1) \<Rightarrow>
             let b1 = new_order sd tp p qty exch s (b\<lparr>order_pool := pool1\<rparr>)
             in if tp = FOK \<and> \<not> can_fill_fok sd (o_price (obj s b1)) (o_qty (obj s b1)) b1 then
                  Some (reject, dealloc s b1)
                else
                  let oid = o_id (obj s b1);
                      b2 = map_emplace oid s b1;
                      b3 = upd_stats (\<lambda>st. st\<lparr>orders_added := orders_added st + 1\<rparr>) b2
                  in case match_order s b3 of
                       None \<Rightarrow> None
                     | Some (fills, b4) \<Rightarrow> Some (after_match sd tp s oid fills b4)))"

definition cancel_remove_from :: "side \<Rightarrow> nat \<Rightarrow> book \<Rightarrow> book" where
  "cancel_remove_from sd s b =
     (let p = o_price (obj s b)
      in case sm_find p (ladder_of sd b) of
           None \<Rightarrow> b
         | Some lvl \<Rightarrow>
             let (lvl1, b1) =
                   level_remove_order_links (lvl\<lparr>l_total_qty := i64 (l_total_qty lvl - o_remaining (obj s b))\<rparr>) s b
             in if level_empty lvl1 then erase_level sd p b1 else put_level sd p lvl1 b1)"

definition cancel_order :: "order_id \<Rightarrow> book \<Rightarrow> cancel_result \<times> book" where
  "cancel_order oid b =
     (case order_map b oid of
        None \<Rightarrow> (\<lparr>cr_found = False, cr_cancelled = False\<rparr>, b)
      | Some s \<Rightarrow>
          if \<not> is_active (obj s b) then (\<lparr>cr_found = True, cr_cancelled = False\<rparr>, b)
          else
            let b1 = cancel_remove_from (o_side (obj s b)) s b;
                b2 = upd_obj s (\<lambda>o1. o1\<lparr>o_status := CANCELLED\<rparr>) b1;
                b3 = map_erase oid b2;
                b4 = upd_stats (\<lambda>st. st\<lparr>orders_cancelled := orders_cancelled st + 1\<rparr>) b3;
                b5 = notify (On_order_cancelled (obj s b4)) b4
            in (\<lparr>cr_found = True, cr_cancelled = True\<rparr>, notify_bbo (dealloc s b5)))"

definition modify_order :: "order_id \<Rightarrow> price \<Rightarrow> quantity \<Rightarrow> book \<Rightarrow> (modify_result \<times> book) option" where
  "modify_order oid new_price new_qty b =
     (case order_map b oid of
        None \<Rightarrow> Some (\<lparr>mr_success = False, mr_new_id = 0, mr_fills = []\<rparr>, b)
      | Some s \<Rightarrow>
          let sd = o_side (obj s b); tp = o_type (obj s b); exch = o_exchange (obj s b);
              b1 = snd (cancel_order oid b)
          in case add_order sd tp new_price new_qty exch b1 of
               None \<Rightarrow> None
             | Some (r, b2) \<Rightarrow>
                 Some (\<lparr>mr_success = ar_accepted r, mr_new_id = ar_id r, mr_fills = ar_fills r\<rparr>, b2))"

definition clear_book :: "book \<Rightarrow> book" where
  "clear_book b = notify_bbo (b\<lparr>bid_ladder := [], ask_ladder := [], order_map := Map.empty,
     order_pool := pool_reset MAX_ORDERS (order_pool b), order_id_seq := 0, trade_id_seq := 0,
     bk_stats := zero_stats\<rparr>)"

definition order_count :: "book \<Rightarrow> nat" where
  "order_count b = pool_used MAX_ORDERS (order_pool b)"

text \<open>
  Market depth. \<open>out.reserve(static_cast<size_t>(levels))\<close> throws \<open>std::length_error\<close> for a negative
  argument; otherwise the loop copies levels until \<open>out\<close> holds \<open>levels\<close> of them.
\<close>

fun depth_loop :: "int \<Rightarrow> (price \<times> quantity \<times> nat) list \<Rightarrow> ladder \<Rightarrow> (price \<times> quantity \<times> nat) list" where
  "depth_loop levels out [] = out"
| "depth_loop levels out ((p, l) # m) =
     (if levels \<le> int (length out) then out
      else depth_loop levels (out @ [(l_price l, l_total_qty l, l_order_count l)]) m)"

definition depth :: "side \<Rightarrow> int \<Rightarrow> book \<Rightarrow> (price \<times> quantity \<times> nat) list result" where
  "depth sd levels b =
     (if levels < 0 then Inl (Throw ''vector::reserve'') else Inr (depth_loop levels [] (ladder_of sd b)))"

end
