(* ===== verification/Book_Heap.thy ===== *)
theory Book_Heap
  imports Order_Book
begin

text \<open>
  Reasoning about the order store: what each primitive operation on the book leaves alone, the view
  \<open>ord\<close> of the store as a map from order ids to orders, and the doubly linked lists in it. The last
  two lemmas are the contracts of \<open>level_add_order\<close> and \<open>level_remove_order_links\<close>.
\<close>

section \<open>What the primitive operations change\<close>

lemma ladder_set_ladder [heap_simps]:
  "ladder_of sd (set_ladder sd' m b) = (if sd = sd' then m else ladder_of sd b)"
  by (cases sd; cases sd') simp_all

lemma set_ladder_frame [heap_simps]:
  "order_map (set_ladder sd m b) = order_map b" "order_pool (set_ladder sd m b) = order_pool b"
  "order_id_seq (set_ladder sd m b) = order_id_seq b" "callbacks (set_ladder sd m b) = callbacks b"
  "obj s (set_ladder sd m b) = obj s b" "events (set_ladder sd m b) = events b"
  "stale_reads (set_ladder sd m b) = stale_reads b" "bk_symbol (set_ladder sd m b) = bk_symbol b"
  "bk_stats (set_ladder sd m b) = bk_stats b"
  by (cases sd; simp add: obj_def)+

lemma obj_upd_obj [heap_simps]: "obj s (upd_obj s' f b) = (if s = s' then f (obj s b) else obj s b)"
  by (simp add: obj_def upd_obj_def)

lemma upd_obj_frame [heap_simps]:
  "order_map (upd_obj s f b) = order_map b" "ladder_of sd (upd_obj s f b) = ladder_of sd b"
  "order_id_seq (upd_obj s f b) = order_id_seq b" "callbacks (upd_obj s f b) = callbacks b"
  "free_slots (order_pool (upd_obj s f b)) = free_slots (order_pool b)"
  "pool_ok n (order_pool (upd_obj s f b)) = pool_ok n (order_pool b)"
  "events (upd_obj s f b) = events b" "stale_reads (upd_obj s f b) = stale_reads b"
  "bk_symbol (upd_obj s f b) = bk_symbol b" "bk_stats (upd_obj s f b) = bk_stats b"
  by (simp_all add: upd_obj_def free_slots_def pool_ok_def) (cases sd; simp add: upd_obj_def)

lemma upd_stats_frame [heap_simps]:
  "order_map (upd_stats f b) = order_map b" "ladder_of sd (upd_stats f b) = ladder_of sd b"
  "order_pool (upd_stats f b) = order_pool b" "obj s (upd_stats f b) = obj s b"
  "order_id_seq (upd_stats f b) = order_id_seq b" "callbacks (upd_stats f b) = callbacks b"
  "events (upd_stats f b) = events b" "stale_reads (upd_stats f b) = stale_reads b"
  "bk_symbol (upd_stats f b) = bk_symbol b" "bk_stats (upd_stats f b) = f (bk_stats b)"
  by (simp_all add: upd_stats_def obj_def) (cases sd; simp add: upd_stats_def)

lemma dealloc_frame [heap_simps]:
  "order_map (dealloc s b) = order_map b" "ladder_of sd (dealloc s b) = ladder_of sd b"
  "order_pool (dealloc s b) = deallocate s (order_pool b)" "obj s' (dealloc s b) = obj s' b"
  "order_id_seq (dealloc s b) = order_id_seq b" "callbacks (dealloc s b) = callbacks b"
  "events (dealloc s b) = events b" "stale_reads (dealloc s b) = stale_reads b"
  "bk_symbol (dealloc s b) = bk_symbol b" "bk_stats (dealloc s b) = bk_stats b"
  by (simp_all add: dealloc_def obj_def deallocate_def) (cases sd; simp add: dealloc_def)

lemma map_erase_frame [heap_simps]:
  "order_map (map_erase i b) = (order_map b)(i := None)" "ladder_of sd (map_erase i b) = ladder_of sd b"
  "order_pool (map_erase i b) = order_pool b" "obj s (map_erase i b) = obj s b"
  "order_id_seq (map_erase i b) = order_id_seq b" "callbacks (map_erase i b) = callbacks b"
  "events (map_erase i b) = events b" "stale_reads (map_erase i b) = stale_reads b"
  "bk_symbol (map_erase i b) = bk_symbol b" "bk_stats (map_erase i b) = bk_stats b"
  by (simp_all add: map_erase_def obj_def) (cases sd; simp add: map_erase_def)

lemma notify_frame [heap_simps]:
  "order_map (notify e b) = order_map b" "ladder_of sd (notify e b) = ladder_of sd b"
  "order_pool (notify e b) = order_pool b" "obj s (notify e b) = obj s b"
  "order_id_seq (notify e b) = order_id_seq b" "callbacks (notify e b) = callbacks b"
  "stale_reads (notify e b) = stale_reads b" "bk_symbol (notify e b) = bk_symbol b"
  "bk_stats (notify e b) = bk_stats b"
  by (simp_all add: notify_def obj_def) (cases sd; simp add: notify_def)

lemma now_ns_frame [heap_simps]:
  "order_map (snd (now_ns b)) = order_map b" "ladder_of sd (snd (now_ns b)) = ladder_of sd b"
  "order_pool (snd (now_ns b)) = order_pool b" "obj s (snd (now_ns b)) = obj s b"
  "order_id_seq (snd (now_ns b)) = order_id_seq b" "callbacks (snd (now_ns b)) = callbacks b"
  "events (snd (now_ns b)) = events b" "stale_reads (snd (now_ns b)) = stale_reads b"
  "bk_symbol (snd (now_ns b)) = bk_symbol b" "bk_stats (snd (now_ns b)) = bk_stats b"
  by (simp_all add: now_ns_def obj_def) (cases sd; simp add: now_ns_def)

lemma best_bbo_snd: "snd (best_bbo b) = snd (now_ns b)"
  by (simp add: best_bbo_def now_ns_def Let_def split: prod.split)

lemma notify_bbo_frame [heap_simps]:
  "order_map (notify_bbo b) = order_map b" "ladder_of sd (notify_bbo b) = ladder_of sd b"
  "order_pool (notify_bbo b) = order_pool b" "obj s (notify_bbo b) = obj s b"
  "order_id_seq (notify_bbo b) = order_id_seq b" "callbacks (notify_bbo b) = callbacks b"
  "stale_reads (notify_bbo b) = stale_reads b" "bk_symbol (notify_bbo b) = bk_symbol b"
  "bk_stats (notify_bbo b) = bk_stats b"
  by (cases sd; simp add: notify_bbo_def obj_def best_bbo_def now_ns_def Let_def split: prod.split)+

lemma next_trade_id_frame [heap_simps]:
  "order_map (snd (next_trade_id b)) = order_map b" "ladder_of sd (snd (next_trade_id b)) = ladder_of sd b"
  "order_pool (snd (next_trade_id b)) = order_pool b" "obj s (snd (next_trade_id b)) = obj s b"
  "order_id_seq (snd (next_trade_id b)) = order_id_seq b" "callbacks (snd (next_trade_id b)) = callbacks b"
  "events (snd (next_trade_id b)) = events b" "stale_reads (snd (next_trade_id b)) = stale_reads b"
  "bk_symbol (snd (next_trade_id b)) = bk_symbol b" "bk_stats (snd (next_trade_id b)) = bk_stats b"
  by (cases sd; simp add: next_trade_id_def obj_def Let_def)+

lemma put_level_frame [heap_simps]:
  "order_map (put_level sd p l b) = order_map b" "order_pool (put_level sd p l b) = order_pool b"
  "order_id_seq (put_level sd p l b) = order_id_seq b" "callbacks (put_level sd p l b) = callbacks b"
  "obj s (put_level sd p l b) = obj s b" "events (put_level sd p l b) = events b"
  "stale_reads (put_level sd p l b) = stale_reads b" "bk_symbol (put_level sd p l b) = bk_symbol b"
  "bk_stats (put_level sd p l b) = bk_stats b"
  "ladder_of sd' (put_level sd p l b) =
     (if sd' = sd then sm_insert (side_lt sd) p l (ladder_of sd b) else ladder_of sd' b)"
  by (simp_all add: put_level_def heap_simps)

lemma erase_level_frame [heap_simps]:
  "order_map (erase_level sd p b) = order_map b" "order_pool (erase_level sd p b) = order_pool b"
  "order_id_seq (erase_level sd p b) = order_id_seq b" "callbacks (erase_level sd p b) = callbacks b"
  "obj s (erase_level sd p b) = obj s b" "events (erase_level sd p b) = events b"
  "stale_reads (erase_level sd p b) = stale_reads b" "bk_symbol (erase_level sd p b) = bk_symbol b"
  "bk_stats (erase_level sd p b) = bk_stats b"
  "ladder_of sd' (erase_level sd p b) = (if sd' = sd then sm_erase p (ladder_of sd b) else ladder_of sd' b)"
  by (simp_all add: erase_level_def heap_simps)

section \<open>The order store as a map from ids to orders\<close>

definition ord :: "book \<Rightarrow> order_id \<rightharpoonup> order" where
  "ord b i = map_option (\<lambda>s. obj s b) (order_map b i)"

lemma dom_ord: "dom (ord b) = dom (order_map b)"
  by (auto simp: ord_def)

lemma ord_upd_obj:
  assumes "inj_on (order_map b) (dom (order_map b))" and "order_map b i = Some s"
  shows "ord (upd_obj s f b) = (ord b)(i \<mapsto> f (obj s b))"
proof
  fix j
  show "ord (upd_obj s f b) j = ((ord b)(i \<mapsto> f (obj s b))) j"
    using assms by (auto simp: ord_def heap_simps inj_on_def dom_def map_option_case split: option.split)
qed

lemma ord_upd_unmapped: "s \<notin> ran (order_map b) \<Longrightarrow> ord (upd_obj s f b) = ord b"
  by (auto simp: ord_def heap_simps fun_eq_iff map_option_case ran_def split: option.split)

lemma ord_frame [heap_simps]:
  "ord (set_ladder sd m b) = ord b" "ord (upd_stats g b) = ord b" "ord (dealloc s b) = ord b"
  "ord (notify e b) = ord b" "ord (notify_bbo b) = ord b" "ord (snd (now_ns b)) = ord b"
  "ord (snd (next_trade_id b)) = ord b" "ord (put_level sd p l b) = ord b"
  "ord (erase_level sd p b) = ord b" "ord (map_erase i b) = (ord b)(i := None)"
  by (simp_all add: ord_def heap_simps fun_eq_iff)

text \<open>An order without its links: what the linked-list operations leave alone.\<close>

definition unlinked :: "order \<Rightarrow> order" where
  "unlinked o1 = o1\<lparr>o_prev := 0, o_next := 0\<rparr>"

definition same_data :: "(order_id \<rightharpoonup> order) \<Rightarrow> (order_id \<rightharpoonup> order) \<Rightarrow> bool" where
  "same_data m m' \<longleftrightarrow> (\<forall>i. map_option unlinked (m' i) = map_option unlinked (m i))"

lemma same_data_refl [simp]: "same_data m m"
  by (simp add: same_data_def)

lemma same_data_trans: "same_data m m' \<Longrightarrow> same_data m' m'' \<Longrightarrow> same_data m m''"
  by (simp add: same_data_def)

lemma same_data_upd:
  "m i = Some o1 \<Longrightarrow> unlinked o2 = unlinked o1 \<Longrightarrow> same_data m (m(i \<mapsto> o2))"
  by (simp add: same_data_def)

lemma unlinked_links [simp]:
  "unlinked (o1\<lparr>o_next := n\<rparr>) = unlinked o1" "unlinked (o1\<lparr>o_prev := n\<rparr>) = unlinked o1"
  by (simp_all add: unlinked_def)

lemma same_dataD:
  assumes "same_data m m'" and "m i = Some o1"
  obtains o2 where "m' i = Some o2" "unlinked o2 = unlinked o1"
  using assms unfolding same_data_def by (metis map_option_eq_Some)

lemma same_data_None: "same_data m m' \<Longrightarrow> m' i = None \<longleftrightarrow> m i = None"
  unfolding same_data_def by (metis map_option_is_None)

lemma unlinked_eqD:
  assumes "unlinked o2 = unlinked o1"
  shows "o_id o2 = o_id o1" "o_price o2 = o_price o1" "o_remaining o2 = o_remaining o1"
    "o_side o2 = o_side o1" "o_type o2 = o_type o1" "o_status o2 = o_status o1"
    "is_active o2 = is_active o1" "o_qty o2 = o_qty o1"
proof -
  have f: "\<And>f. f (unlinked o2) = f (unlinked o1)" using assms by simp
  show "o_id o2 = o_id o1" using f [of o_id] by (simp add: unlinked_def)
  show "o_price o2 = o_price o1" using f [of o_price] by (simp add: unlinked_def)
  show "o_remaining o2 = o_remaining o1" using f [of o_remaining] by (simp add: unlinked_def)
  show "o_side o2 = o_side o1" using f [of o_side] by (simp add: unlinked_def)
  show "o_type o2 = o_type o1" using f [of o_type] by (simp add: unlinked_def)
  show "o_qty o2 = o_qty o1" using f [of o_qty] by (simp add: unlinked_def)
  show s: "o_status o2 = o_status o1" using f [of o_status] by (simp add: unlinked_def)
  show "is_active o2 = is_active o1" using s by (simp add: is_active_def)
qed

section \<open>Doubly linked lists\<close>

definition hd0 :: "order_id list \<Rightarrow> order_id" where
  "hd0 ids = (case ids of [] \<Rightarrow> 0 | i # _ \<Rightarrow> i)"

definition last0 :: "order_id list \<Rightarrow> order_id" where
  "last0 ids = (if ids = [] then 0 else last ids)"

lemma hd0_simps [simp]: "hd0 [] = 0" "hd0 (i # ids) = i"
  by (simp_all add: hd0_def)

lemma last0_simps [simp]: "last0 [] = 0" "last0 (ids @ [i]) = i"
  by (simp_all add: last0_def)

lemma hd0_append: "hd0 (xs @ ys) = (if xs = [] then hd0 ys else hd0 xs)"
  by (cases xs) simp_all

lemma last0_append: "last0 (xs @ ys) = (if ys = [] then last0 xs else last0 ys)"
  by (simp add: last0_def)

lemma hd0_in: "ids \<noteq> [] \<Longrightarrow> hd0 ids \<in> set ids"
  by (cases ids) simp_all

lemma last0_in: "ids \<noteq> [] \<Longrightarrow> last0 ids \<in> set ids"
  by (simp add: last0_def)

lemma last0_zero: "0 \<notin> set ids \<Longrightarrow> last0 ids = 0 \<longleftrightarrow> ids = []"
  using last0_in by (cases "ids = []") fastforce+

lemma hd0_zero: "0 \<notin> set ids \<Longrightarrow> hd0 ids = 0 \<longleftrightarrow> ids = []"
  by (cases ids) auto

fun dll :: "(order_id \<rightharpoonup> order) \<Rightarrow> order_id \<Rightarrow> order_id list \<Rightarrow> bool" where
  "dll m p [] \<longleftrightarrow> True"
| "dll m p (i # ids) \<longleftrightarrow>
     (case m i of None \<Rightarrow> False | Some o1 \<Rightarrow> o_prev o1 = p \<and> o_next o1 = hd0 ids) \<and> dll m i ids"

lemma dll_cong: "(\<And>i. i \<in> set ids \<Longrightarrow> m' i = m i) \<Longrightarrow> dll m' p ids = dll m p ids"
  by (induction ids arbitrary: p) auto

lemma dll_upd_other [simp]: "i \<notin> set ids \<Longrightarrow> dll (m(i := v)) p ids = dll m p ids"
  by (rule dll_cong) auto

lemma dll_cong_links:
  assumes "\<And>i o1. i \<in> set ids \<Longrightarrow> m i = Some o1 \<Longrightarrow>
      \<exists>o2. m' i = Some o2 \<and> o_prev o2 = o_prev o1 \<and> o_next o2 = o_next o1"
    and "dll m p ids"
  shows "dll m' p ids"
  using assms by (induction ids arbitrary: p) (fastforce split: option.splits)+

lemma dll_mapped: "dll m p ids \<Longrightarrow> i \<in> set ids \<Longrightarrow> \<exists>o1. m i = Some o1"
  by (induction ids arbitrary: p) (auto split: option.splits)

lemma dll_mid:
  assumes "dll m p (xs @ i # ys)"
  shows "\<exists>o1. m i = Some o1 \<and> o_prev o1 = (if xs = [] then p else last0 xs) \<and> o_next o1 = hd0 ys"
  using assms by (induction xs arbitrary: p) (auto simp: last0_def split: option.splits)

lemma dll_tail: "dll m p (xs @ ys) \<Longrightarrow> dll m (if xs = [] then p else last0 xs) ys"
  by (induction xs arbitrary: p) (auto simp: last0_def split: if_splits)

text \<open>Setting the predecessor of the first element.\<close>

lemma dll_set_prev:
  assumes "dll m p (j # ys)" and "distinct (j # ys)" and "m j = Some o1"
  shows "dll (m(j \<mapsto> o1\<lparr>o_prev := q\<rparr>)) q (j # ys)"
proof -
  have "dll (m(j \<mapsto> o1\<lparr>o_prev := q\<rparr>)) j ys = dll m j ys"
    by (rule dll_cong) (use assms in auto)
  then show ?thesis using assms by simp
qed

text \<open>Setting the successor of the last element of the front part.\<close>

lemma dll_set_next:
  assumes "dll m p (xs @ [k] @ ys)" and "distinct (xs @ [k] @ ys)" and "m k = Some o1"
    and "dll m' k zs" and "distinct (xs @ [k] @ zs)"
    and "m' k = Some o2" "o_prev o2 = o_prev o1" "o_next o2 = hd0 zs"
    and "\<And>i. i \<in> set xs \<Longrightarrow> m' i = m i"
  shows "dll m' p (xs @ [k] @ zs)"
  using assms
proof (induction xs arbitrary: p)
  case Nil
  then show ?case by simp
next
  case (Cons a xs)
  have "dll m' a (xs @ [k] @ zs)"
    by (rule Cons.IH) (use Cons.prems in auto)
  then show ?case
    using Cons.prems(1,9) by (cases xs) (auto split: option.splits)
qed

text \<open>Appending an element whose own links are already set.\<close>

lemma dll_snoc:
  assumes "dll m p ids" and "distinct (ids @ [i])"
    and "m i = Some n1" "o_prev n1 = (if ids = [] then p else last0 ids)" "o_next n1 = 0"
    and "ids \<noteq> [] \<Longrightarrow> m (last0 ids) = Some o1"
    and "ids = [] \<Longrightarrow> m' = m" "ids \<noteq> [] \<Longrightarrow> m' = m(last0 ids \<mapsto> o1\<lparr>o_next := i\<rparr>)"
  shows "dll m' p (ids @ [i])"
proof (cases "ids = []")
  case True
  then show ?thesis using assms by simp
next
  case False
  then obtain xs k where ids: "ids = xs @ [k]" by (metis append_butlast_last_id)
  have m': "m' = m(k \<mapsto> o1\<lparr>o_next := i\<rparr>)" and o1: "m k = Some o1" using assms(6,8) by (simp_all add: ids)
  have "dll m' p (xs @ [k] @ [i])"
    by (rule dll_set_next [where m = m and ys = "[]" and ?o1.0 = o1 and ?o2.0 = "o1\<lparr>o_next := i\<rparr>"])
       (use assms(1-5) m' o1 in \<open>auto simp: ids\<close>)
  then show ?thesis by (simp add: ids)
qed

text \<open>Taking an element out: its neighbours point at each other.\<close>

definition unlink :: "(order_id \<rightharpoonup> order) \<Rightarrow> order_id \<Rightarrow> order_id \<Rightarrow> (order_id \<rightharpoonup> order)" where
  "unlink m p n =
     (let m1 = (if p = 0 then m else case m p of None \<Rightarrow> m | Some o1 \<Rightarrow> m(p \<mapsto> o1\<lparr>o_next := n\<rparr>))
      in if n = 0 then m1 else case m1 n of None \<Rightarrow> m1 | Some o1 \<Rightarrow> m1(n \<mapsto> o1\<lparr>o_prev := p\<rparr>))"

lemma unlink_same_data: "same_data m (unlink m p n)"
  by (auto simp: unlink_def Let_def same_data_def split: option.split)

lemma unlink_other: "j \<noteq> p \<Longrightarrow> j \<noteq> n \<Longrightarrow> unlink m p n j = m j"
  by (auto simp: unlink_def Let_def split: option.split)

lemma dll_unlink:
  assumes d: "dll m 0 (xs @ i # ys)" and dist: "distinct (xs @ i # ys)" and nz: "0 \<notin> set (xs @ i # ys)"
  shows "dll (unlink m (last0 xs) (hd0 ys)) 0 (xs @ ys)"
proof -
  define m1 where "m1 = (if xs = [] then m else m(last0 xs \<mapsto> (the (m (last0 xs)))\<lparr>o_next := hd0 ys\<rparr>))"
  define m' where "m' = (if ys = [] then m1 else m1(hd0 ys \<mapsto> (the (m1 (hd0 ys)))\<lparr>o_prev := last0 xs\<rparr>))"
  have mapped: "\<exists>o1. m j = Some o1" if "j \<in> set (xs @ i # ys)" for j
    using dll_mapped [OF d that] .
  have lx: "xs \<noteq> [] \<Longrightarrow> last0 xs \<in> set xs" and hy: "ys \<noteq> [] \<Longrightarrow> hd0 ys \<in> set ys"
    by (simp_all add: last0_in hd0_in)
  have m'_eq: "unlink m (last0 xs) (hd0 ys) = m'"
  proof -
    have z: "last0 xs = 0 \<longleftrightarrow> xs = []"
      using nz by (simp add: last0_zero)
    have z': "hd0 ys = 0 \<longleftrightarrow> ys = []"
      using nz by (simp add: hd0_zero)
    obtain o1 where "xs \<noteq> [] \<Longrightarrow> m (last0 xs) = Some o1" using mapped lx by fastforce
    moreover obtain o2 where "ys \<noteq> [] \<Longrightarrow> m (hd0 ys) = Some o2" using mapped hy by fastforce
    ultimately show ?thesis
      unfolding unlink_def m'_def m1_def by (auto simp: z z' Let_def)
  qed
  have tail: "dll m i ys" using dll_tail [of m 0 "xs @ [i]" ys] d by simp
  have ys_part: "dll m' (last0 xs) ys" if xs: "xs \<noteq> [] \<or> xs = []"
  proof (cases ys)
    case Nil
    then show ?thesis by simp
  next
    case (Cons j zs)
    obtain o2 where o2: "m j = Some o2" using mapped Cons by auto
    have ne: "j \<noteq> last0 xs" using Cons nz lx dist by (cases "xs = []") (auto simp: last0_def)
    have same: "m1 k = m k" if "k \<in> set ys" for k
      using that lx dist by (auto simp: m1_def)
    have "dll m1 i (j # zs)" using tail dll_cong [of ys m1 m i] same Cons by simp
    moreover have "m1 j = Some o2" using same o2 Cons by simp
    ultimately show ?thesis
      using dll_set_prev [of m1 i j zs o2 "last0 xs"] dist Cons by (simp add: m'_def)
  qed
  show ?thesis
  proof (cases "xs = []")
    case True
    then show ?thesis using ys_part m'_eq by simp
  next
    case False
    then obtain as k where xs: "xs = as @ [k]" by (metis append_butlast_last_id)
    obtain o1 where o1: "m k = Some o1" using mapped xs by auto
    have khy: "ys \<noteq> [] \<Longrightarrow> hd0 ys \<noteq> k" using hy dist xs by auto
    have "dll m' 0 (as @ [k] @ ys)"
    proof (rule dll_set_next [where m = m and ys = "i # ys" and ?o1.0 = o1 and ?o2.0 = "o1\<lparr>o_next := hd0 ys\<rparr>"])
      show "m' k = Some (o1\<lparr>o_next := hd0 ys\<rparr>)"
        using khy o1 by (auto simp: m'_def m1_def xs)
      show "m' j = m j" if "j \<in> set as" for j
        using that dist xs hy by (auto simp: m'_def m1_def)
    qed (use d dist o1 ys_part xs in auto)
    then show ?thesis using m'_eq xs by simp
  qed
qed

section \<open>The contracts of the two level operations\<close>

text \<open>They write to the objects of the pool only.\<close>

definition heap_only :: "book \<Rightarrow> book \<Rightarrow> bool" where
  "heap_only b b' \<longleftrightarrow> (\<exists>st. b' = b\<lparr>order_pool := (order_pool b)\<lparr>storage := st\<rparr>\<rparr>)"

lemma heap_only_refl [simp]: "heap_only b b"
  unfolding heap_only_def by (rule exI [of _ "storage (order_pool b)"]) simp

lemma heap_only_upd: "heap_only b (upd_obj s f b)"
  by (auto simp: heap_only_def upd_obj_def)

lemma heap_only_trans: "heap_only b b' \<Longrightarrow> heap_only b' b'' \<Longrightarrow> heap_only b b''"
  by (auto simp: heap_only_def)

lemma heap_only_frame:
  assumes "heap_only b b'"
  shows "order_map b' = order_map b" "ladder_of sd b' = ladder_of sd b"
    "order_id_seq b' = order_id_seq b" "callbacks b' = callbacks b" "events b' = events b"
    "free_slots (order_pool b') = free_slots (order_pool b)"
    "pool_ok n (order_pool b') = pool_ok n (order_pool b)"
    "stale_reads b' = stale_reads b" "bk_symbol b' = bk_symbol b" "bk_stats b' = bk_stats b"
  using assms by (cases sd; auto simp: heap_only_def free_slots_def pool_ok_def)+

abbreviation heap_inj :: "book \<Rightarrow> bool" where
  "heap_inj b \<equiv> inj_on (order_map b) (dom (order_map b))"

lemma heap_inj_upd [simp]: "heap_inj (upd_obj s f b) = heap_inj b"
  by (simp add: heap_simps)

lemma ord_slot: "order_map b i = Some s \<Longrightarrow> ord b i = Some (obj s b)"
  by (simp add: ord_def)

lemma ord_SomeE:
  assumes "ord b i = Some o1"
  obtains s where "order_map b i = Some s" "obj s b = o1"
  using assms by (auto simp: ord_def)

text \<open>Writing through an id that \<open>order_map\<close> may not hold.\<close>

lemma ord_upd_by_id:
  assumes "heap_inj b"
  shows "ord (case order_map b i of None \<Rightarrow> b | Some s \<Rightarrow> upd_obj s f b) =
    (case ord b i of None \<Rightarrow> ord b | Some o1 \<Rightarrow> (ord b)(i \<mapsto> f o1))"
proof (cases "order_map b i")
  case None
  then have "ord b i = None" by (simp add: ord_def)
  with None show ?thesis by simp
next
  case (Some s)
  then show ?thesis using ord_upd_obj [OF assms Some] ord_slot [OF Some] by simp
qed

lemma heap_only_upd_by_id:
  "heap_only b (case order_map b i of None \<Rightarrow> b | Some s \<Rightarrow> upd_obj s f b)"
  by (simp add: heap_only_upd split: option.split)

text \<open>The two operations with the level and the heap written separately.\<close>

lemma level_remove_split:
  "level_remove_order_links lvl s b =
     (let p = o_prev (obj s b);
          b1 = (if p = 0 then b
                else case order_map b p of None \<Rightarrow> b
                     | Some ps \<Rightarrow> upd_obj ps (\<lambda>o1. o1\<lparr>o_next := o_next (obj s b)\<rparr>) b);
          n = o_next (obj s b1);
          b2 = (if n = 0 then b1
                else case order_map b1 n of None \<Rightarrow> b1
                     | Some ns \<Rightarrow> upd_obj ns (\<lambda>o1. o1\<lparr>o_prev := o_prev (obj s b1)\<rparr>) b1);
          lvl1 = (if p = 0 then lvl\<lparr>l_head := o_next (obj s b)\<rparr> else lvl);
          lvl2 = (if n = 0 then lvl1\<lparr>l_tail := o_prev (obj s b1)\<rparr> else lvl1)
      in (lvl2\<lparr>l_order_count := l_order_count lvl2 - 1\<rparr>, b2))"
  by (simp add: level_remove_order_links_def Let_def split: option.split)

lemma level_add_split:
  "level_add_order lvl s b =
     (let b1 = upd_obj s (\<lambda>o1. o1\<lparr>o_prev := l_tail lvl, o_next := 0\<rparr>) b;
          i = o_id (obj s b);
          b2 = (if l_tail lvl = 0 then b1
                else case order_map b1 (l_tail lvl) of None \<Rightarrow> b1
                     | Some ps \<Rightarrow> upd_obj ps (\<lambda>o1. o1\<lparr>o_next := i\<rparr>) b1)
      in ((if l_tail lvl = 0 then lvl\<lparr>l_head := i\<rparr> else lvl)\<lparr>l_tail := i,
            l_total_qty := i64 (l_total_qty lvl + o_remaining (obj s b)),
            l_order_count := l_order_count lvl + 1\<rparr>, b2))"
  by (simp add: level_add_order_def Let_def heap_simps split: option.split)

lemma level_remove_links:
  assumes inj: "heap_inj b" and om: "order_map b i = Some s"
    and d: "dll (ord b) 0 (xs @ i # ys)" and dist: "distinct (xs @ i # ys)"
    and nz: "0 \<notin> set (xs @ i # ys)"
    and h: "l_head lvl = hd0 (xs @ i # ys)" "l_tail lvl = last0 (xs @ i # ys)"
      "l_order_count lvl = length (xs @ i # ys)"
  obtains b' where
    "level_remove_order_links lvl s b =
       (lvl\<lparr>l_head := hd0 (xs @ ys), l_tail := last0 (xs @ ys), l_order_count := length (xs @ ys)\<rparr>, b')"
    "ord b' = unlink (ord b) (last0 xs) (hd0 ys)" "heap_only b b'"
proof -
  have lnk: "o_prev (obj s b) = last0 xs" "o_next (obj s b) = hd0 ys"
    using dll_mid [OF d] ord_slot [OF om] by (auto simp: last0_def)
  have ne: "last0 xs \<noteq> i" "hd0 ys \<noteq> i"
    using nz dist by (cases "xs = []"; auto simp: last0_def) (use nz dist in \<open>cases ys; auto\<close>)
  define b1 where "b1 = (if last0 xs = 0 then b
      else case order_map b (last0 xs) of None \<Rightarrow> b
           | Some ps \<Rightarrow> upd_obj ps (\<lambda>o1. o1\<lparr>o_next := hd0 ys\<rparr>) b)"
  define b2 where "b2 = (if hd0 ys = 0 then b1
      else case order_map b1 (hd0 ys) of None \<Rightarrow> b1
           | Some ns \<Rightarrow> upd_obj ns (\<lambda>o1. o1\<lparr>o_prev := last0 xs\<rparr>) b1)"
  have ho1: "heap_only b b1" by (simp add: b1_def heap_only_upd_by_id)
  have ho2: "heap_only b1 b2" by (simp add: b2_def heap_only_upd_by_id)
  have om1: "order_map b1 = order_map b" using heap_only_frame(1) [OF ho1] .
  have inj1: "heap_inj b1" using inj om1 by simp
  have o1: "ord b1 = (if last0 xs = 0 then ord b else case ord b (last0 xs) of None \<Rightarrow> ord b
      | Some o1 \<Rightarrow> (ord b)(last0 xs \<mapsto> o1\<lparr>o_next := hd0 ys\<rparr>))"
    by (simp add: b1_def ord_upd_by_id [OF inj])
  have o2: "ord b2 = unlink (ord b) (last0 xs) (hd0 ys)"
    unfolding unlink_def Let_def o1 [symmetric] by (simp add: b2_def ord_upd_by_id [OF inj1])
  have "ord b1 i = ord b i" using ne by (simp add: o1 split: option.split)
  then have s1: "obj s b1 = obj s b" using om om1 by (simp add: ord_def)
  have lvl: "(if last0 xs = 0 then lvl\<lparr>l_head := hd0 ys\<rparr> else lvl) = lvl\<lparr>l_head := hd0 (xs @ ys)\<rparr>"
    using h(1) nz last0_zero [of xs] by (cases xs) auto
  have lvl': "(if hd0 ys = 0 then lvl1\<lparr>l_tail := last0 xs\<rparr> else lvl1) = lvl1\<lparr>l_tail := last0 (xs @ ys)\<rparr>"
    if "l_tail lvl1 = last0 (xs @ i # ys)" for lvl1
  proof (cases "ys = []")
    case True
    then show ?thesis by simp
  next
    case False
    then have "hd0 ys \<noteq> 0" using nz hd0_zero [of ys] by auto
    moreover have "l_tail lvl1 = last0 (xs @ ys)" using that False by (simp add: last0_def)
    ultimately show ?thesis by simp
  qed
  have "level_remove_order_links lvl s b =
      (lvl\<lparr>l_head := hd0 (xs @ ys), l_tail := last0 (xs @ ys), l_order_count := length (xs @ ys)\<rparr>, b2)"
    unfolding level_remove_split lnk Let_def
    unfolding b1_def [symmetric] s1 lnk
    unfolding b2_def [symmetric] lvl
    by (subst lvl') (use h in \<open>auto simp: nz\<close>)
  then show thesis
    using o2 heap_only_trans [OF ho1 ho2] by (rule that)
qed

lemma level_add_links:
  assumes inj: "heap_inj b" and om: "order_map b i = Some s" and oid: "o_id (obj s b) = i"
    and d: "dll (ord b) 0 ids" and dist: "distinct (ids @ [i])" and nz: "0 \<notin> set (ids @ [i])"
    and h: "l_head lvl = hd0 ids" "l_tail lvl = last0 ids" "l_order_count lvl = length ids"
  obtains b' where
    "level_add_order lvl s b =
       (lvl\<lparr>l_head := hd0 (ids @ [i]), l_tail := i,
            l_total_qty := i64 (l_total_qty lvl + o_remaining (obj s b)),
            l_order_count := length (ids @ [i])\<rparr>, b')"
    "dll (ord b') 0 (ids @ [i])" "same_data (ord b) (ord b')"
    "\<And>j. j \<notin> set (ids @ [i]) \<Longrightarrow> ord b' j = ord b j" "heap_only b b'"
proof -
  define f where "f = (\<lambda>o1. o1\<lparr>o_prev := last0 ids, o_next := 0\<rparr> :: order)"
  define b1 where "b1 = upd_obj s f b"
  define b2 where "b2 = (if last0 ids = 0 then b1
      else case order_map b1 (last0 ids) of None \<Rightarrow> b1
           | Some ps \<Rightarrow> upd_obj ps (\<lambda>o1. o1\<lparr>o_next := i\<rparr>) b1)"
  have z: "last0 ids = 0 \<longleftrightarrow> ids = []" using nz by (simp add: last0_zero)
  have inj1: "heap_inj b1" using inj by (simp add: b1_def)
  have o1: "ord b1 = (ord b)(i \<mapsto> f (obj s b))" unfolding b1_def by (rule ord_upd_obj [OF inj om])
  have o2: "ord b2 = (if ids = [] then ord b1 else case ord b1 (last0 ids) of None \<Rightarrow> ord b1
      | Some o1 \<Rightarrow> (ord b1)(last0 ids \<mapsto> o1\<lparr>o_next := i\<rparr>))"
    by (simp add: b2_def z ord_upd_by_id [OF inj1])
  have d1: "dll (ord b1) 0 ids" using d dist by (simp add: o1)
  have last: "\<exists>o1. ord b1 (last0 ids) = Some o1" if "ids \<noteq> []"
    using dll_mapped [OF d1] last0_in [OF that] by simp
  have "dll (ord b2) 0 (ids @ [i])"
  proof (rule dll_snoc [where m = "ord b1" and ?n1.0 = "f (obj s b)" and ?o1.0 = "the (ord b1 (last0 ids))"])
    show "ids \<noteq> [] \<Longrightarrow> ord b2 = (ord b1)(last0 ids \<mapsto> (the (ord b1 (last0 ids)))\<lparr>o_next := i\<rparr>)"
      using last by (auto simp: o2)
  qed (use d1 dist last in \<open>auto simp: o1 o2 f_def\<close>)
  moreover have "same_data (ord b) (ord b2)"
  proof -
    have "same_data (ord b) (ord b1)"
      unfolding o1 using ord_slot [OF om] by (rule same_data_upd) (simp add: f_def unlinked_def)
    moreover have "same_data (ord b1) (ord b2)"
      by (auto simp: o2 same_data_def split: option.split)
    ultimately show ?thesis by (rule same_data_trans)
  qed
  moreover have "ord b2 j = ord b j" if "j \<notin> set (ids @ [i])" for j
    using that last0_in [of ids] by (auto simp: o2 o1 split: option.split)
  moreover have "heap_only b b2"
    unfolding b2_def b1_def
    by (auto intro: heap_only_upd heap_only_trans [OF heap_only_upd heap_only_upd_by_id])
  moreover have "level_add_order lvl s b =
       (lvl\<lparr>l_head := hd0 (ids @ [i]), l_tail := i,
            l_total_qty := i64 (l_total_qty lvl + o_remaining (obj s b)),
            l_order_count := length (ids @ [i])\<rparr>, b2)"
    unfolding level_add_split h(2) Let_def oid f_def [symmetric]
    unfolding b1_def [symmetric]
    unfolding b2_def [symmetric]
    using h by (auto simp: z hd0_append)
  ultimately show thesis using that by blast
qed

end
