(* ===== verification/Book_Spec.thy ===== *)
theory Book_Spec
  imports Book_Types Std_Map Order_Book
begin

text \<open>
  The abstract order book: what price-time priority matching promises, with no pool, no links and
  no map of ids. A ladder is the list of its price levels, best price first, and a level is the queue
  of its orders (id and open quantity), oldest first.
\<close>

type_synonym queue = "(order_id \<times> quantity) list"
type_synonym aladder = "(price \<times> queue) list"
type_synonym afill = "price \<times> order_id \<times> quantity"

text \<open>Filling \<open>n\<close> units from a queue: the rest of \<open>n\<close>, the rest of the queue, the fills.\<close>

fun spec_fill :: "quantity \<Rightarrow> queue \<Rightarrow> quantity \<times> queue \<times> (order_id \<times> quantity) list" where
  "spec_fill n [] = (n, [], [])"
| "spec_fill n ((i, r) # q) =
     (if n \<le> 0 then (n, (i, r) # q, [])
      else if n < r then (0, (i, r - n) # q, [(i, n)])
      else (case spec_fill (n - r) q of (n', q', fs) \<Rightarrow> (n', q', (i, r) # fs)))"

fun spec_sweep :: "side \<Rightarrow> price \<Rightarrow> quantity \<Rightarrow> aladder \<Rightarrow> quantity \<times> aladder \<times> afill list" where
  "spec_sweep sd limit n [] = (n, [], [])"
| "spec_sweep sd limit n ((p, q) # ls) =
     (if n \<le> 0 \<or> price_blocked sd limit p then (n, (p, q) # ls, [])
      else (case spec_fill n q of (n', q', fs) \<Rightarrow>
        if q' = [] then
          (case spec_sweep sd limit n' ls of (n'', ls', fs') \<Rightarrow>
            (n'', ls', map (Pair p) fs @ fs'))
        else (n', (p, q') # ls, map (Pair p) fs)))"

text \<open>A new order joins the end of the queue of its price.\<close>

definition spec_rest :: "side \<Rightarrow> price \<Rightarrow> order_id \<Rightarrow> quantity \<Rightarrow> aladder \<Rightarrow> aladder" where
  "spec_rest sd p i n al =
     sm_insert (side_lt sd) p ((case sm_find p al of None \<Rightarrow> [] | Some q \<Rightarrow> q) @ [(i, n)]) al"

text \<open>Cancelling removes the order from its queue and the level with its last order.\<close>

definition spec_cancel :: "order_id \<Rightarrow> aladder \<Rightarrow> aladder" where
  "spec_cancel i al = filter (\<lambda>e. snd e \<noteq> []) (map (\<lambda>(p, q). (p, filter (\<lambda>e. fst e \<noteq> i) q)) al)"

definition queue_qty :: "queue \<Rightarrow> quantity" where
  "queue_qty q = sum_list (map snd q)"

definition aids :: "aladder \<Rightarrow> order_id set" where
  "aids al = (\<Union>e \<in> set al. fst ` set (snd e))"

definition queue_ok :: "queue \<Rightarrow> bool" where
  "queue_ok q \<longleftrightarrow> q \<noteq> [] \<and> (\<forall>e \<in> set q. 0 < snd e)"

definition aladder_ok :: "aladder \<Rightarrow> bool" where
  "aladder_ok al \<longleftrightarrow> (\<forall>e \<in> set al. queue_ok (snd e))"

definition afill_qty :: "afill list \<Rightarrow> quantity" where
  "afill_qty fs = sum_list (map (snd \<circ> snd) fs)"

lemma aids_simps [simp]: "aids [] = {}" "aids ((p, q) # al) = fst ` set q \<union> aids al"
  by (simp_all add: aids_def)

lemma aladder_ok_simps [simp]: "aladder_ok []" "aladder_ok ((p, q) # al) \<longleftrightarrow> queue_ok q \<and> aladder_ok al"
  by (simp_all add: aladder_ok_def)

section \<open>Facts about filling a queue\<close>

lemma spec_fill_qty:
  assumes "spec_fill n q = (n', q', fs)"
  shows "n' + sum_list (map snd fs) = n"
    and "queue_qty q' + sum_list (map snd fs) = queue_qty q"
  using assms
  by (induction n q arbitrary: n' q' fs rule: spec_fill.induct)
     (auto simp: queue_qty_def split: if_splits prod.splits)

lemma spec_fill_nonneg: "spec_fill n q = (n', q', fs) \<Longrightarrow> 0 \<le> n \<Longrightarrow> 0 \<le> n'"
  by (induction n q arbitrary: n' q' fs rule: spec_fill.induct) (auto split: if_splits prod.splits)

lemma spec_fill_done: "spec_fill n q = (n', q', fs) \<Longrightarrow> 0 \<le> n \<Longrightarrow> n' = 0 \<or> q' = []"
  by (induction n q arbitrary: n' q' fs rule: spec_fill.induct) (auto split: if_splits prod.splits)

lemma spec_fill_zero [simp]: "n \<le> 0 \<Longrightarrow> q \<noteq> [] \<Longrightarrow> spec_fill n q = (n, q, [])"
  by (cases q) auto

lemma spec_fill_ok:
  "spec_fill n q = (n', q', fs) \<Longrightarrow> \<forall>e \<in> set q. 0 < snd e \<Longrightarrow>
     (\<forall>e \<in> set q'. 0 < snd e) \<and> (\<forall>e \<in> set fs. 0 < snd e)"
  by (induction n q arbitrary: n' q' fs rule: spec_fill.induct)
     (force split: if_splits prod.splits)+

text \<open>First in, first out: the makers filled are a prefix of the queue, in its order.\<close>

lemma spec_fill_fifo:
  "spec_fill n q = (n', q', fs) \<Longrightarrow> \<exists>k. map fst fs = take k (map fst q)"
proof (induction n q arbitrary: n' q' fs rule: spec_fill.induct)
  case (1 n)
  then show ?case by simp
next
  case (2 n i r q)
  consider "n \<le> 0" | "\<not> n \<le> 0" "n < r" | "\<not> n \<le> 0" "\<not> n < r" by blast
  then show ?case
  proof cases
    case 1
    then show ?thesis using "2.prems" by (auto intro: exI [of _ 0])
  next
    case 2
    then show ?thesis using "2.prems" by (auto intro: exI [of _ 1])
  next
    case 3
    obtain a b c where r: "spec_fill (n - r) q = (a, b, c)" by (metis prod_cases3)
    with 3 obtain k where "map fst c = take k (map fst q)" using "2.IH" by blast
    then show ?thesis using 3 r "2.prems" by (auto intro!: exI [of _ "Suc k"])
  qed
qed

lemma spec_fill_sub:
  "spec_fill n q = (n', q', fs) \<Longrightarrow> fst ` set q' \<subseteq> fst ` set q \<and> fst ` set fs \<subseteq> fst ` set q"
  by (induction n q arbitrary: n' q' fs rule: spec_fill.induct) (force split: if_splits prod.splits)+

section \<open>Facts about sweeping a ladder\<close>

lemma spec_sweep_zero [simp]: "n \<le> 0 \<Longrightarrow> spec_sweep sd limit n al = (n, al, [])"
  by (cases al) auto

text \<open>The three ways a sweep goes: it stops, it stops inside a level, it takes a level and goes on.\<close>

lemma spec_sweep_induct [consumes 1, case_names stop inside level]:
  assumes "spec_sweep sd limit n al = (n', al', fs)"
    and stop: "\<And>n al. n \<le> 0 \<or> al = [] \<or> price_blocked sd limit (fst (hd al)) \<Longrightarrow> P n al n al []"
    and inside: "\<And>n p q ls n' q' c. 0 < n \<Longrightarrow> \<not> price_blocked sd limit p \<Longrightarrow>
      spec_fill n q = (n', q', c) \<Longrightarrow> q' \<noteq> [] \<Longrightarrow> P n ((p, q) # ls) n' ((p, q') # ls) (map (Pair p) c)"
    and level: "\<And>n p q ls a c n' al' fs. 0 < n \<Longrightarrow> \<not> price_blocked sd limit p \<Longrightarrow>
      spec_fill n q = (a, [], c) \<Longrightarrow> spec_sweep sd limit a ls = (n', al', fs) \<Longrightarrow>
      P a ls n' al' fs \<Longrightarrow> P n ((p, q) # ls) n' al' (map (Pair p) c @ fs)"
  shows "P n al n' al' fs"
  using assms(1)
proof (induction al arbitrary: n n' al' fs)
  case Nil
  then show ?case using stop by simp
next
  case (Cons e ls)
  obtain p q where e: "e = (p, q)" by fastforce
  obtain a b c where r: "spec_fill n q = (a, b, c)" by (metis prod_cases3)
  obtain a' b' c' where r': "spec_sweep sd limit a ls = (a', b', c')" by (metis prod_cases3)
  consider "n \<le> 0 \<or> price_blocked sd limit p" | "0 < n" "\<not> price_blocked sd limit p" "b = []"
    | "0 < n" "\<not> price_blocked sd limit p" "b \<noteq> []" by fastforce
  then show ?case
  proof cases
    case 1
    then show ?thesis using Cons.prems stop [of n "(p, q) # ls"] by (auto simp: e)
  next
    case 2
    have "P a ls a' b' c'" by (rule Cons.IH [OF r'])
    then show ?thesis using Cons.prems 2 r r' level [of n p q a c ls] by (simp add: e)
  next
    case 3
    then show ?thesis using Cons.prems r inside [of n p q a b c ls] by (simp add: e)
  qed
qed

lemma afill_qty_simps [simp]:
  "afill_qty [] = 0" "afill_qty (fs @ gs) = afill_qty fs + afill_qty gs"
  "afill_qty (map (Pair p) c) = sum_list (map snd c)"
  by (simp_all add: afill_qty_def comp_def)

lemma spec_sweep_qty: "spec_sweep sd limit n al = (n', al', fs) \<Longrightarrow> n' + afill_qty fs = n"
  by (induction rule: spec_sweep_induct) (use spec_fill_qty(1) in fastforce)+

lemma spec_sweep_nonneg: "spec_sweep sd limit n al = (n', al', fs) \<Longrightarrow> 0 \<le> n \<Longrightarrow> 0 \<le> n'"
  by (induction rule: spec_sweep_induct) (auto dest: spec_fill_nonneg)

lemma spec_sweep_done:
  "spec_sweep sd limit n al = (n', al', fs) \<Longrightarrow> 0 \<le> n \<Longrightarrow>
     n' = 0 \<or> al' = [] \<or> price_blocked sd limit (fst (hd al'))"
  by (induction rule: spec_sweep_induct) (auto dest: spec_fill_done spec_fill_nonneg)

lemma spec_sweep_ok:
  "spec_sweep sd limit n al = (n', al', fs) \<Longrightarrow> aladder_ok al \<Longrightarrow>
     aladder_ok al' \<and> (\<forall>f \<in> set fs. 0 < snd (snd f))"
  by (induction rule: spec_sweep_induct) (fastforce dest: spec_fill_ok simp: queue_ok_def)+

text \<open>Every fill is at a price the taker accepts.\<close>

lemma spec_sweep_limit:
  "spec_sweep sd limit n al = (n', al', fs) \<Longrightarrow> \<forall>f \<in> set fs. \<not> price_blocked sd limit (fst f)"
  by (induction rule: spec_sweep_induct) auto

text \<open>The ladder left over is a suffix of the one swept, up to the queue of its first level.\<close>

lemma spec_sweep_suffix:
  "spec_sweep sd limit n al = (n', al', fs) \<Longrightarrow> \<exists>k. map fst al' = drop k (map fst al)"
proof (induction rule: spec_sweep_induct)
  case (stop n al)
  then show ?case by (auto intro: exI [of _ 0])
next
  case (inside n p q ls n' q' c)
  then show ?case by (auto intro: exI [of _ 0])
next
  case (level n p q ls a c n' al' fs)
  then obtain k where "map fst al' = drop k (map fst ls)" by blast
  then show ?case by (auto intro: exI [of _ "Suc k"])
qed

lemma spec_sweep_sub:
  "spec_sweep sd limit n al = (n', al', fs) \<Longrightarrow>
     fst ` set al' \<subseteq> fst ` set al \<and> fst ` set fs \<subseteq> fst ` set al \<and> aids al' \<subseteq> aids al"
proof (induction rule: spec_sweep_induct)
  case (stop n al)
  then show ?case by simp
next
  case (inside n p q ls n' q' c)
  then show ?case using spec_fill_sub [OF inside.hyps(3)] by auto
next
  case (level n p q ls a c n' al' fs)
  then show ?case by auto
qed

lemma spec_sweep_sm_ok: "spec_sweep sd limit n al = (n', al', fs) \<Longrightarrow> sm_ok lt al \<Longrightarrow> sm_ok lt al'"
  by (induction rule: spec_sweep_induct) (auto simp: sm_ok_def)

text \<open>Price priority: the fills follow the order of the ladder.\<close>

lemma spec_sweep_sorted:
  "spec_sweep sd limit n al = (n', al', fs) \<Longrightarrow> sm_ok lt al \<Longrightarrow>
     sorted_wrt (\<lambda>x y. lt x y \<or> x = y) (map fst fs)"
proof (induction rule: spec_sweep_induct)
  case (stop n al)
  then show ?case by simp
next
  case (inside n p q ls n' q' c)
  have "sorted_wrt (\<lambda>x y. lt x y \<or> x = y) (map (\<lambda>_. p) c)" by (induction c) auto
  then show ?case by (simp add: comp_def)
next
  case (level n p q ls a c n' al' fs)
  have "sorted_wrt (\<lambda>x y. lt x y \<or> x = y) (map (\<lambda>_. p) c)" by (induction c) auto
  moreover have "\<forall>x \<in> fst ` set fs. lt p x"
    using spec_sweep_sub [OF level.hyps(4)] level.prems by (fastforce simp: sm_ok_def)
  moreover have "sm_ok lt ls" using level.prems by (simp add: sm_ok_def)
  ultimately show ?case using level.IH by (auto simp: sorted_wrt_append comp_def)
qed

end
