(* ===== verification/Book_Invariant.thy ===== *)
theory Book_Invariant
  imports Book_Heap Book_Spec
begin

text \<open>
  The representation invariant of the order book and its abstraction to the book of \<open>Book_Spec\<close>.

  A level represents the queue obtained by following \<open>next\<close> from its head; \<open>level_rel\<close> says that the
  list is linked both ways, that the counters of the level are its length and the sum of the open
  quantities (as an \<open>int64_t\<close> holds it), and that its orders are active limit orders of that side and price. \<open>heap_inv\<close> says that
  ids and pool slots correspond one to one and no slot is lost. \<open>book_rel X\<close> joins the two: the orders
  on the ladders are the ones in \<open>order_map\<close> except those in \<open>X\<close> (the incoming order while it is being
  matched, and market orders left over).
\<close>

section \<open>Levels\<close>

definition rem :: "(order_id \<rightharpoonup> order) \<Rightarrow> order_id \<Rightarrow> quantity" where
  "rem m i = (case m i of None \<Rightarrow> 0 | Some o1 \<Rightarrow> o_remaining o1)"

definition entries :: "(order_id \<rightharpoonup> order) \<Rightarrow> order_id list \<Rightarrow> queue" where
  "entries m ids = map (\<lambda>i. (i, rem m i)) ids"

definition rests :: "side \<Rightarrow> price \<Rightarrow> order \<Rightarrow> bool" where
  "rests sd p o1 \<longleftrightarrow> o_price o1 = p \<and> o_side o1 = sd \<and> o_type o1 = LIMIT \<and> 0 < o_remaining o1 \<and>
     is_active o1"

definition level_links :: "(order_id \<rightharpoonup> order) \<Rightarrow> price_level \<Rightarrow> order_id list \<Rightarrow> bool" where
  "level_links m l ids \<longleftrightarrow> distinct ids \<and> 0 \<notin> set ids \<and> dll m 0 ids \<and>
     l_head l = hd0 ids \<and> l_tail l = last0 ids \<and> l_order_count l = length ids"

definition level_rel :: "(order_id \<rightharpoonup> order) \<Rightarrow> side \<Rightarrow> price \<Rightarrow> price_level \<Rightarrow> order_id list \<Rightarrow> bool" where
  "level_rel m sd p l ids \<longleftrightarrow> ids \<noteq> [] \<and> level_links m l ids \<and> l_price l = p \<and>
     (\<forall>i \<in> set ids. \<exists>o1. m i = Some o1 \<and> rests sd p o1) \<and>
     l_total_qty l = i64 (sum_list (map (rem m) ids))"

text \<open>Following the \<open>next\<close> links from an id, at most \<open>n\<close> orders.\<close>

fun follow :: "(order_id \<rightharpoonup> order) \<Rightarrow> nat \<Rightarrow> order_id \<Rightarrow> order_id list" where
  "follow m 0 i = []"
| "follow m (Suc n) i =
     (case m i of None \<Rightarrow> [] | Some o1 \<Rightarrow> i # follow m n (o_next o1))"

definition lids :: "(order_id \<rightharpoonup> order) \<Rightarrow> price_level \<Rightarrow> order_id list" where
  "lids m l = follow m (l_order_count l) (l_head l)"

lemma follow_dll: "dll m p ids \<Longrightarrow> follow m (length ids) (hd0 ids) = ids"
  by (induction ids arbitrary: p) (auto split: option.splits)

lemma lids_eq: "level_links m l ids \<Longrightarrow> lids m l = ids"
  using follow_dll [of m 0 ids] by (simp add: lids_def level_links_def)

lemma level_rel_lids: "level_rel m sd p l ids \<Longrightarrow> lids m l = ids"
  by (simp add: level_rel_def lids_eq)

lemma rem_Some: "m i = Some o1 \<Longrightarrow> rem m i = o_remaining o1"
  by (simp add: rem_def)

lemma rem_cong: "m' i = m i \<Longrightarrow> rem m' i = rem m i"
  by (simp add: rem_def)

lemma entries_simps [simp]:
  "entries m [] = []" "entries m (i # ids) = (i, rem m i) # entries m ids"
  "entries m (xs @ ys) = entries m xs @ entries m ys" "entries m ids = [] \<longleftrightarrow> ids = []"
  by (simp_all add: entries_def)

lemma fst_entries [simp]: "fst ` set (entries m ids) = set ids" "map fst (entries m ids) = ids"
  by (force simp: entries_def comp_def)+

lemma entries_cong: "(\<And>i. i \<in> set ids \<Longrightarrow> rem m' i = rem m i) \<Longrightarrow> entries m' ids = entries m ids"
  by (simp add: entries_def)

lemma sum_rem_cong:
  "(\<And>i. i \<in> set ids \<Longrightarrow> rem m' i = rem m i) \<Longrightarrow>
     sum_list (map (rem m') ids) = sum_list (map (rem m) ids)"
  by (rule arg_cong [of _ _ sum_list], rule map_cong) simp_all

lemma queue_qty_entries: "queue_qty (entries m ids) = sum_list (map (rem m) ids)"
  by (simp add: queue_qty_def entries_def comp_def)

lemma level_links_cong:
  assumes "\<And>i. i \<in> set ids \<Longrightarrow> m' i = m i"
  shows "level_links m' l ids = level_links m l ids"
  using dll_cong [of ids m' m] assms by (simp add: level_links_def)

lemma level_rel_cong:
  assumes "\<And>i. i \<in> set ids \<Longrightarrow> m' i = m i"
  shows "level_rel m' sd p l ids = level_rel m sd p l ids"
proof -
  have "sum_list (map (rem m') ids) = sum_list (map (rem m) ids)"
    by (rule sum_rem_cong) (simp add: rem_def assms)
  then show ?thesis
    using level_links_cong [of ids m' m l] assms by (simp add: level_rel_def)
qed

lemma level_rel_rests: "level_rel m sd p l ids \<Longrightarrow> i \<in> set ids \<Longrightarrow> \<exists>o1. m i = Some o1 \<and> rests sd p o1"
  by (simp add: level_rel_def)

lemma level_rel_disjoint:
  assumes "level_rel m sd p l ids" and "level_rel m sd' p' l' ids'" and "sd \<noteq> sd' \<or> p \<noteq> p'"
  shows "set ids \<inter> set ids' = {}"
proof (rule ccontr)
  assume "set ids \<inter> set ids' \<noteq> {}"
  then obtain i where "i \<in> set ids" "i \<in> set ids'" by blast
  then obtain o1 where "rests sd p o1" "rests sd' p' o1"
    using assms(1,2) level_rel_rests by (metis option.inject)
  then show False using assms(3) by (auto simp: rests_def)
qed

lemma level_rel_queue_ok: "level_rel m sd p l ids \<Longrightarrow> queue_ok (entries m ids)"
  by (force simp: queue_ok_def level_rel_def entries_def rests_def rem_def)

lemma level_rel_not_empty: "level_rel m sd p l ids \<Longrightarrow> \<not> level_empty l"
  by (simp add: level_rel_def level_links_def level_empty_def)

section \<open>Ladders\<close>

definition side_inv :: "(order_id \<rightharpoonup> order) \<Rightarrow> side \<Rightarrow> ladder \<Rightarrow> bool" where
  "side_inv m sd lad \<longleftrightarrow> sm_ok (side_lt sd) lad \<and>
     (\<forall>e \<in> set lad. level_rel m sd (fst e) (snd e) (lids m (snd e)))"

definition abs_ladder :: "(order_id \<rightharpoonup> order) \<Rightarrow> ladder \<Rightarrow> aladder" where
  "abs_ladder m lad = map (\<lambda>e. (fst e, entries m (lids m (snd e)))) lad"

lemma side_lt_comparator: "comparator (side_lt sd)"
  by (cases sd) (unfold_locales, auto)

interpretation ladder: comparator "side_lt sd" for sd
  by (rule side_lt_comparator)

lemma abs_ladder_simps [simp]:
  "abs_ladder m [] = []"
  "abs_ladder m ((p, l) # lad) = (p, entries m (lids m l)) # abs_ladder m lad"
  by (simp_all add: abs_ladder_def)

lemma fst_abs_ladder [simp]: "map fst (abs_ladder m lad) = map fst lad"
  "fst ` set (abs_ladder m lad) = fst ` set lad"
  by (force simp: abs_ladder_def comp_def)+

lemma abs_ladder_ok [simp]: "sm_ok lt (abs_ladder m lad) = sm_ok lt lad"
  by (simp add: sm_ok_def abs_ladder_def sorted_wrt_map)

lemma side_inv_ok: "side_inv m sd lad \<Longrightarrow> sm_ok (side_lt sd) lad"
  by (simp add: side_inv_def)

lemma side_inv_level:
  "side_inv m sd lad \<Longrightarrow> sm_find p lad = Some l \<Longrightarrow> level_rel m sd p l (lids m l)"
  using sm_find_SomeD by (fastforce simp: side_inv_def)

lemma side_inv_Cons:
  "side_inv m sd ((p, l) # lad) \<longleftrightarrow>
     level_rel m sd p l (lids m l) \<and> side_inv m sd lad \<and> (\<forall>p' \<in> fst ` set lad. side_lt sd p p')"
  by (auto simp: side_inv_def ladder.ok_Cons)

lemma side_inv_aladder_ok: "side_inv m sd lad \<Longrightarrow> aladder_ok (abs_ladder m lad)"
  by (auto simp: side_inv_def aladder_ok_def abs_ladder_def intro: level_rel_queue_ok)

lemma abs_find: "sm_find p (abs_ladder m lad) = map_option (\<lambda>l. entries m (lids m l)) (sm_find p lad)"
  by (induction lad) auto

lemma aids_rests:
  assumes "side_inv m sd lad" and "i \<in> aids (abs_ladder m lad)"
  shows "\<exists>p o1. m i = Some o1 \<and> rests sd p o1 \<and> p \<in> fst ` set lad"
proof -
  obtain e where e: "e \<in> set lad" "i \<in> set (lids m (snd e))"
    using assms(2) by (auto simp: aids_def abs_ladder_def)
  then have "level_rel m sd (fst e) (snd e) (lids m (snd e))" using assms(1) by (simp add: side_inv_def)
  then show ?thesis using level_rel_rests e by blast
qed

text \<open>Changes of the store that do not touch the orders of a ladder.\<close>

lemma lids_cong:
  assumes "level_rel m sd p l (lids m l)" and "\<And>i. i \<in> set (lids m l) \<Longrightarrow> m' i = m i"
  shows "lids m' l = lids m l" "level_rel m' sd p l (lids m l)" "entries m' (lids m l) = entries m (lids m l)"
proof -
  show lr: "level_rel m' sd p l (lids m l)" using assms level_rel_cong [of "lids m l" m' m] by simp
  then show "lids m' l = lids m l" by (rule level_rel_lids)
  show "entries m' (lids m l) = entries m (lids m l)" by (rule entries_cong) (simp add: rem_def assms(2))
qed

lemma side_inv_frame:
  assumes "side_inv m sd lad" and "\<And>i. i \<in> aids (abs_ladder m lad) \<Longrightarrow> m' i = m i"
  shows "side_inv m' sd lad" "abs_ladder m' lad = abs_ladder m lad"
proof -
  have frame: "m' i = m i" if "e \<in> set lad" "i \<in> set (lids m (snd e))" for e i
    by (rule assms(2)) (use that in \<open>force simp: aids_def abs_ladder_def\<close>)
  have lr: "level_rel m sd (fst e) (snd e) (lids m (snd e))" if "e \<in> set lad" for e
    using assms(1) that by (simp add: side_inv_def)
  note level = lids_cong [OF lr frame]
  show "side_inv m' sd lad" using assms(1) level(1,2) by (simp add: side_inv_def)
  show "abs_ladder m' lad = abs_ladder m lad" using level(1,3) by (simp add: abs_ladder_def)
qed

text \<open>Replacing and erasing a level.\<close>

lemma aids_abs_level:
  "i \<in> set (lids m l) \<Longrightarrow> (p, l) \<in> set lad \<Longrightarrow> i \<in> aids (abs_ladder m lad)"
  by (force simp: aids_def abs_ladder_def)

lemma erase_abs: "sm_erase p (abs_ladder m lad) = abs_ladder m (sm_erase p lad)"
  by (induction lad) auto

lemma insert_abs:
  "sm_insert lt p (entries m (lids m l)) (abs_ladder m lad) = abs_ladder m (sm_insert lt p l lad)"
  by (induction lad) (auto split: prod.splits)

lemma side_inv_erase:
  assumes "side_inv m sd lad" and "\<And>i. i \<in> aids (abs_ladder m (sm_erase p lad)) \<Longrightarrow> m' i = m i"
  shows "side_inv m' sd (sm_erase p lad)" "abs_ladder m' (sm_erase p lad) = sm_erase p (abs_ladder m lad)"
proof -
  have "side_inv m sd (sm_erase p lad)"
    using assms(1) by (auto simp: side_inv_def ladder.ok_erase set_sm_erase)
  then show "side_inv m' sd (sm_erase p lad)"
    "abs_ladder m' (sm_erase p lad) = sm_erase p (abs_ladder m lad)"
    using side_inv_frame [of m sd "sm_erase p lad" m'] assms(2) by (simp_all add: erase_abs)
qed

lemma sm_insert_erase_eq:
  "sm_ok (side_lt sd) lad \<Longrightarrow> sm_insert (side_lt sd) p l (sm_erase p lad) = sm_insert (side_lt sd) p l lad"
proof (induction lad)
  case Nil
  then show ?case by simp
next
  case (Cons e lad)
  obtain p' l' where e: "e = (p', l')" by fastforce
  show ?case
  proof (cases "p = p'")
    case True
    have "p \<notin> fst ` set lad" using Cons.prems True ladder.lt_irrefl [of sd p] by (auto simp: e ladder.ok_Cons)
    moreover have "sm_insert (side_lt sd) p l lad = (p, l) # lad"
      using Cons.prems True by (cases lad) (auto simp: e ladder.ok_Cons)
    ultimately show ?thesis using True by (simp add: e ladder.lt_irrefl)
  next
    case False
    show ?thesis
    proof (cases "side_lt sd p p'")
      case True
      then have "p \<notin> fst ` set lad"
        using Cons.prems ladder.lt_asym [of sd p p'] by (auto simp: e ladder.ok_Cons)
      then show ?thesis using False by (simp add: e)
    next
      case nlt: False
      then have "side_lt sd p' p" using ladder.lt_total [OF False, of sd] by simp
      then show ?thesis using Cons False nlt by (auto simp: e ladder.ok_Cons)
    qed
  qed
qed

lemma side_inv_put:
  assumes inv: "side_inv m sd lad" and lr: "level_rel m' sd p l ids"
    and frame: "\<And>i. i \<in> aids (abs_ladder m (sm_erase p lad)) \<Longrightarrow> m' i = m i"
  shows "side_inv m' sd (sm_insert (side_lt sd) p l lad)"
    "abs_ladder m' (sm_insert (side_lt sd) p l lad) =
       sm_insert (side_lt sd) p (entries m' ids) (abs_ladder m lad)"
proof -
  have ok: "sm_ok (side_lt sd) lad" by (rule side_inv_ok [OF inv])
  have e: "side_inv m' sd (sm_erase p lad)" "abs_ladder m' (sm_erase p lad) = abs_ladder m (sm_erase p lad)"
    using side_inv_erase [OF inv frame] by (simp_all add: erase_abs)
  have ids: "lids m' l = ids" using lr by (rule level_rel_lids)
  have ins: "sm_insert (side_lt sd) p l lad = sm_insert (side_lt sd) p l (sm_erase p lad)"
    by (simp add: sm_insert_erase_eq [OF ok])
  show "side_inv m' sd (sm_insert (side_lt sd) p l lad)"
    using e(1) lr ids unfolding ins side_inv_def
    by (auto simp: ladder.ok_insert ladder.set_insert)
  show "abs_ladder m' (sm_insert (side_lt sd) p l lad) =
       sm_insert (side_lt sd) p (entries m' ids) (abs_ladder m lad)"
    unfolding ins insert_abs [symmetric] e(2) ids unfolding erase_abs [symmetric]
    by (rule sm_insert_erase_eq) (simp add: ok)
qed

section \<open>The store\<close>

definition heap_inv :: "book \<Rightarrow> bool" where
  "heap_inv b \<longleftrightarrow> pool_ok MAX_ORDERS (order_pool b) \<and> heap_inj b \<and>
     (\<forall>i s. order_map b i = Some s \<longrightarrow> s < MAX_ORDERS \<and> s \<notin> free_slots (order_pool b) \<and>
        o_id (obj s b) = i \<and> 0 < i \<and> i \<le> order_id_seq b) \<and>
     {..<MAX_ORDERS} \<subseteq> free_slots (order_pool b) \<union> ran (order_map b)"

lemma heap_invD:
  assumes "heap_inv b"
  shows "pool_ok MAX_ORDERS (order_pool b)" "heap_inj b"
    and "order_map b i = Some s \<Longrightarrow> s < MAX_ORDERS" "order_map b i = Some s \<Longrightarrow> s \<notin> free_slots (order_pool b)"
    and "order_map b i = Some s \<Longrightarrow> o_id (obj s b) = i" "order_map b i = Some s \<Longrightarrow> 0 < i"
    and "order_map b i = Some s \<Longrightarrow> i \<le> order_id_seq b"
    and "{..<MAX_ORDERS} \<subseteq> free_slots (order_pool b) \<union> ran (order_map b)"
  using assms by (auto simp: heap_inv_def)

lemma heap_inj_eq:
  assumes "heap_inj b" and "order_map b i = Some s" and "order_map b j = Some s"
  shows "i = j"
  using assms by (auto simp: inj_on_def dom_def)

lemma heap_inv_cong:
  assumes "order_map b' = order_map b" "order_id_seq b' = order_id_seq b"
    and "free_slots (order_pool b') = free_slots (order_pool b)"
    and "pool_ok MAX_ORDERS (order_pool b') = pool_ok MAX_ORDERS (order_pool b)"
    and "\<And>i s. order_map b i = Some s \<Longrightarrow> o_id (obj s b') = o_id (obj s b)"
  shows "heap_inv b' = heap_inv b"
  using assms by (auto simp: heap_inv_def)

text \<open>Removing an order from the map and giving its slot back to the pool.\<close>

lemma heap_inv_retire:
  assumes inv: "heap_inv b" and om: "order_map b i = Some s"
    and b': "order_map b' = (order_map b)(i := None)" "order_pool b' = deallocate s (order_pool b)"
      "order_id_seq b' = order_id_seq b" "\<And>s. obj s b' = obj s b"
  shows "heap_inv b'"
proof -
  note D = heap_invD [OF inv]
  note del = deallocate_slots [OF D(1) D(3) [OF om] D(4) [OF om]]
  have ran: "ran ((order_map b)(i := None)) = ran (order_map b) - {s}"
  proof (rule set_eqI)
    fix x
    have "x \<in> ran ((order_map b)(i := None)) \<longleftrightarrow> (\<exists>j. j \<noteq> i \<and> order_map b j = Some x)"
      by (auto simp: ran_def)
    also have "\<dots> \<longleftrightarrow> (\<exists>j. order_map b j = Some x) \<and> x \<noteq> s"
      using heap_inj_eq [OF D(2)] om by (metis option.inject)
    finally show "x \<in> ran ((order_map b)(i := None)) \<longleftrightarrow> x \<in> ran (order_map b) - {s}"
      by (auto simp: ran_def)
  qed
  have "inj_on ((order_map b)(i := None)) (dom ((order_map b)(i := None)))"
    using D(2) by (auto simp: inj_on_def dom_def)
  moreover have "s' \<noteq> s" if "order_map b j = Some s'" "j \<noteq> i" for j s'
    using heap_inj_eq [OF D(2) om, of j] that by auto
  ultimately show ?thesis
    using D del unfolding heap_inv_def by (auto simp: b' ran)
qed

section \<open>The book\<close>

definition abs :: "book \<Rightarrow> side \<Rightarrow> aladder" where
  "abs b sd = abs_ladder (ord b) (ladder_of sd b)"

definition resting :: "book \<Rightarrow> order_id set" where
  "resting b = aids (abs b BUY) \<union> aids (abs b SELL)"

definition book_rel :: "order_id set \<Rightarrow> book \<Rightarrow> bool" where
  "book_rel X b \<longleftrightarrow> heap_inv b \<and> (\<forall>sd. side_inv (ord b) sd (ladder_of sd b)) \<and>
     resting b = dom (order_map b) - X"

lemma resting_side: "resting b = aids (abs b sd) \<union> aids (abs b (opposite sd))"
  by (cases sd) (auto simp: resting_def)

lemma book_relD:
  assumes "book_rel X b"
  shows "heap_inv b" "side_inv (ord b) sd (ladder_of sd b)" "resting b = dom (order_map b) - X"
  using assms by (simp_all add: book_rel_def)

lemma book_relI:
  assumes "heap_inv b" and "side_inv (ord b) sd (ladder_of sd b)"
    and "side_inv (ord b) (opposite sd) (ladder_of (opposite sd) b)"
    and "resting b = dom (order_map b) - X"
  shows "book_rel X b"
proof -
  have "side_inv (ord b) sd' (ladder_of sd' b)" for sd'
    using assms(2,3) by (cases sd; cases sd') simp_all
  then show ?thesis using assms by (simp add: book_rel_def)
qed

text \<open>The orders on different sides, and on different levels of a side, are different.\<close>

lemma aids_sides_disjoint:
  assumes "side_inv m sd lad" and "side_inv m (opposite sd) lad'"
  shows "aids (abs_ladder m lad) \<inter> aids (abs_ladder m lad') = {}"
  using aids_rests [OF assms(1)] aids_rests [OF assms(2)] by (fastforce simp: rests_def)

lemma aids_level_disjoint:
  assumes "side_inv m sd lad" and "level_rel m sd p l ids"
  shows "set ids \<inter> aids (abs_ladder m (sm_erase p lad)) = {}"
proof -
  have "side_inv m sd (sm_erase p lad)" using side_inv_erase(1) [OF assms(1)] by simp
  then show ?thesis
    using level_rel_rests [OF assms(2)] aids_rests by (fastforce simp: rests_def set_sm_erase)
qed

lemma book_rel_frame:
  assumes "heap_inv b'" "order_map b' = order_map b" "\<And>sd. ladder_of sd b' = ladder_of sd b"
    and "ord b' = ord b" "book_rel X b"
  shows "book_rel X b'"
  using assms by (auto simp: book_rel_def resting_def abs_def)

end
