(* ===== verification/Book_Fill.thy ===== *)
theory Book_Fill
  imports Book_Invariant
begin

text \<open>
  One execution of \<open>fill_order\<close> refines one step of \<open>spec_fill\<close>: the maker at the head of the best
  level is reduced, or taken out of the level, the map and the pool.
\<close>

lemma same_data_rem:
  assumes "same_data m m'"
  shows "rem m' i = rem m i"
proof (cases "m i")
  case None
  then show ?thesis using same_data_None [OF assms, of i] by (simp add: rem_def)
next
  case (Some o1)
  obtain o2 where "m' i = Some o2" "unlinked o2 = unlinked o1" using assms Some by (rule same_dataD)
  then show ?thesis using Some unlinked_eqD(3) [of o2 o1] by (simp add: rem_def)
qed

lemma rests_unlinked: "unlinked o2 = unlinked o1 \<Longrightarrow> rests sd p o2 = rests sd p o1"
  using unlinked_eqD [of o2 o1] by (simp add: rests_def)

lemma same_data_rests:
  assumes "same_data m m'" and "m i = Some o1" and "rests sd p o1"
  shows "\<exists>o2. m' i = Some o2 \<and> rests sd p o2"
proof -
  obtain o2 where "m' i = Some o2" "unlinked o2 = unlinked o1" using assms(1,2) by (rule same_dataD)
  then show ?thesis using assms(3) rests_unlinked [of o2 o1 sd p] by simp
qed

text \<open>The state in front of the ladder update, and what is known of it.\<close>

definition filled_pair :: "nat \<Rightarrow> nat \<Rightarrow> quantity \<Rightarrow> book \<Rightarrow> book" where
  "filled_pair ms ts f b =
     upd_stats (\<lambda>st. st\<lparr>total_volume := total_volume st + word_of_int f,
                        trades_executed := trades_executed st + 1\<rparr>)
       (upd_obj ts (\<lambda>o1. o1\<lparr>o_remaining := o_remaining o1 - f\<rparr>)
         (upd_obj ms (\<lambda>o1. o1\<lparr>o_remaining := o_remaining o1 - f\<rparr>) (snd (now_ns (snd (next_trade_id b))))))"

lemma fill_order_split:
  obtains t where
    "fill_order ms ts f out b = (out @ [t], notify (On_trade t)
       (upd_obj ts (\<lambda>o1. o1\<lparr>o_status := (if o_remaining o1 = 0 then FILLED else PARTIAL)\<rparr>)
         (retire_maker ms (fill_update_ladder
            (if o_side (obj ts (filled_pair ms ts f b)) = BUY then SELL else BUY) ms f (filled_pair ms ts f b)))))"
    "t_maker_id t = o_id (obj ms b)" "t_taker_id t = o_id (obj ts b)" "t_price t = o_price (obj ms b)"
    "t_qty t = f" "t_aggressor t = o_side (obj ts b)" "t_id t = (trade_id_seq b + 1) mod 2 ^ 64"
proof -
  define t where "t = \<lparr>t_id = fst (next_trade_id b), t_maker_id = o_id (obj ms b),
    t_taker_id = o_id (obj ts b), t_price = o_price (obj ms b), t_qty = f,
    t_timestamp = fst (now_ns (snd (next_trade_id b))), t_aggressor = o_side (obj ts b)\<rparr>"
  have "fill_order ms ts f out b = (out @ [t], notify (On_trade t)
       (upd_obj ts (\<lambda>o1. o1\<lparr>o_status := (if o_remaining o1 = 0 then FILLED else PARTIAL)\<rparr>)
         (retire_maker ms (fill_update_ladder
            (if o_side (obj ts (filled_pair ms ts f b)) = BUY then SELL else BUY) ms f (filled_pair ms ts f b)))))"
    unfolding fill_order_def filled_pair_def t_def Let_def
    by (simp add: case_prod_beta heap_simps)
  then show thesis by (rule that) (simp_all add: t_def next_trade_id_def Let_def)
qed

lemma filled_pair_facts:
  assumes inj: "heap_inj b" and om: "order_map b i = Some ms" and T: "order_map b tid = Some ts"
    and ne: "i \<noteq> tid"
  shows "ord (filled_pair ms ts f b) =
      (ord b)(i \<mapsto> (obj ms b)\<lparr>o_remaining := o_remaining (obj ms b) - f\<rparr>,
              tid \<mapsto> (obj ts b)\<lparr>o_remaining := o_remaining (obj ts b) - f\<rparr>)"
    and "obj ms (filled_pair ms ts f b) = (obj ms b)\<lparr>o_remaining := o_remaining (obj ms b) - f\<rparr>"
    and "obj ts (filled_pair ms ts f b) = (obj ts b)\<lparr>o_remaining := o_remaining (obj ts b) - f\<rparr>"
    and "order_map (filled_pair ms ts f b) = order_map b"
    and "ladder_of sd (filled_pair ms ts f b) = ladder_of sd b"
    and "order_id_seq (filled_pair ms ts f b) = order_id_seq b"
    and "free_slots (order_pool (filled_pair ms ts f b)) = free_slots (order_pool b)"
    and "pool_ok N (order_pool (filled_pair ms ts f b)) = pool_ok N (order_pool b)"
    and "o_id (obj s (filled_pair ms ts f b)) = o_id (obj s b)"
    and "bk_symbol (filled_pair ms ts f b) = bk_symbol b" "callbacks (filled_pair ms ts f b) = callbacks b"
    and "stale_reads (filled_pair ms ts f b) = stale_reads b"
proof -
  have mt: "ms \<noteq> ts" using heap_inj_eq [OF inj om] T ne by auto
  show "obj ms (filled_pair ms ts f b) = (obj ms b)\<lparr>o_remaining := o_remaining (obj ms b) - f\<rparr>"
    "obj ts (filled_pair ms ts f b) = (obj ts b)\<lparr>o_remaining := o_remaining (obj ts b) - f\<rparr>"
    using mt by (simp_all add: filled_pair_def heap_simps)
  define b2 where "b2 = snd (now_ns (snd (next_trade_id b)))"
  have b2: "heap_inj b2" "order_map b2 = order_map b" "ord b2 = ord b" "\<And>s. obj s b2 = obj s b"
    using inj by (simp_all add: b2_def heap_simps)
  show "ord (filled_pair ms ts f b) =
      (ord b)(i \<mapsto> (obj ms b)\<lparr>o_remaining := o_remaining (obj ms b) - f\<rparr>,
              tid \<mapsto> (obj ts b)\<lparr>o_remaining := o_remaining (obj ts b) - f\<rparr>)"
    using ord_upd_obj [OF b2(1), of i ms] b2 om T mt
      ord_upd_obj [of "upd_obj ms (\<lambda>o1. o1\<lparr>o_remaining := o_remaining o1 - f\<rparr>) b2" tid ts]
    by (simp add: filled_pair_def b2_def [symmetric] heap_simps)
qed (simp_all add: filled_pair_def heap_simps)

text \<open>The maker keeps a remainder.\<close>

lemma fill_partial:
  assumes LR: "level_rel m sd p l (i # is)" and mo: "m i = Some mo" and tid: "tid \<notin> set (i # is)"
    and f: "0 < f" "f < o_remaining mo"
    and m': "m' = m(i \<mapsto> mo\<lparr>o_remaining := o_remaining mo - f, o_status := PARTIAL\<rparr>, tid \<mapsto> t1)"
  shows "level_rel m' sd p (l\<lparr>l_total_qty := i64 (l_total_qty l - f)\<rparr>) (i # is)"
    "entries m' (i # is) = (i, o_remaining mo - f) # entries m is"
proof -
  have ne: "i \<noteq> tid" and dist: "distinct (i # is)" using tid LR by (auto simp: level_rel_def level_links_def)
  have other: "m' j = m j" if "j \<in> set is" for j using that dist tid by (auto simp: m')
  have mi: "m' i = Some (mo\<lparr>o_remaining := o_remaining mo - f, o_status := PARTIAL\<rparr>)" using ne by (simp add: m')
  have "dll m' 0 (i # is)"
    by (rule dll_cong_links [where m = m])
       (use LR mi mo other in \<open>auto simp: level_rel_def level_links_def\<close>)
  moreover have "rests sd p mo" using level_rel_rests [OF LR, of i] mo by auto
  moreover have rem: "sum_list (map (rem m') is) = sum_list (map (rem m) is)"
    by (rule sum_rem_cong) (simp add: other rem_def)
  ultimately show "level_rel m' sd p (l\<lparr>l_total_qty := i64 (l_total_qty l - f)\<rparr>) (i # is)"
    using LR f mi other mo by (auto simp: level_rel_def level_links_def rests_def is_active_def rem_def diff_add_eq)
  show "entries m' (i # is) = (i, o_remaining mo - f) # entries m is"
    using entries_cong [of "is" m' m] other mi by (simp add: rem_def)
qed

text \<open>The maker is used up and leaves the level.\<close>

lemma fill_whole:
  assumes LR: "level_rel m sd p l (i # is)" and mo: "m i = Some mo" and tid: "tid \<notin> set (i # is)"
    and f: "f = o_remaining mo"
    and m5: "m5 = m(i \<mapsto> mo5, tid \<mapsto> t5)" "o_prev mo5 = o_prev mo" "o_next mo5 = o_next mo"
    and m': "m' = (unlink m5 0 (hd0 is))(i := None, tid \<mapsto> t1)"
  shows "is \<noteq> [] \<Longrightarrow> level_rel m' sd p
      (l\<lparr>l_total_qty := i64 (l_total_qty l - f), l_head := hd0 is, l_tail := last0 is, l_order_count := length is\<rparr>) is"
    "entries m' is = entries m is" "dll m5 0 (i # is)"
proof -
  have dist: "distinct (i # is)" and nz: "0 \<notin> set (i # is)" and d: "dll m 0 (i # is)"
    using LR by (auto simp: level_rel_def level_links_def)
  have other5: "m5 j = m j" if "j \<in> set is" for j using that dist tid by (auto simp: m5)
  show d5: "dll m5 0 (i # is)"
  proof (rule dll_cong_links [OF _ d])
    fix j o1 assume j: "j \<in> set (i # is)" "m j = Some o1"
    show "\<exists>o2. m5 j = Some o2 \<and> o_prev o2 = o_prev o1 \<and> o_next o2 = o_next o1"
      using j other5 [of j] tid m5 mo by (cases "j = i") auto
  qed
  have "dll (unlink m5 0 (hd0 is)) 0 is" using dll_unlink [of m5 "[]" i "is"] d5 dist nz by simp
  then have d': "dll m' 0 is" using dist tid by (simp add: m')
  have sd5: "same_data m5 (unlink m5 0 (hd0 is))" by (rule unlink_same_data)
  have m'j: "m' j = unlink m5 0 (hd0 is) j" if "j \<in> set is" for j using that dist tid by (auto simp: m')
  have remj: "rem m' j = rem m j" if "j \<in> set is" for j
    using m'j [OF that] other5 [OF that] same_data_rem [OF sd5, of j] by (simp add: rem_def)
  then show ent: "entries m' is = entries m is" by (rule entries_cong)
  show "level_rel m' sd p
      (l\<lparr>l_total_qty := i64 (l_total_qty l - f), l_head := hd0 is, l_tail := last0 is, l_order_count := length is\<rparr>) is"
    if "is \<noteq> []"
  proof -
    have rest: "\<exists>o1. m' j = Some o1 \<and> rests sd p o1" if "j \<in> set is" for j
      using level_rel_rests [OF LR, of j] other5 [OF that] m'j [OF that] that
        same_data_rests [OF sd5, of j] by auto
    have "sum_list (map (rem m') is) = sum_list (map (rem m) is)" by (rule sum_rem_cong) (rule remj)
    then have "i64 (l_total_qty l - f) = i64 (sum_list (map (rem m') is))"
      using LR mo f by (simp add: level_rel_def rem_Some)
    then show ?thesis
      using that d' dist nz rest LR by (simp add: level_rel_def level_links_def)
  qed
qed

section \<open>Changing the head level\<close>

text \<open>
  The book after a change of the best level: the ladder of the other side and the other levels of this
  one see the same orders, so only the new level has to be checked.
\<close>

definition put_queue :: "price \<Rightarrow> queue \<Rightarrow> aladder \<Rightarrow> aladder" where
  "put_queue p q al = (if q = [] then al else (p, q) # al)"

lemma head_level_change:
  assumes rel: "book_rel X b" and tX: "tid \<in> X" and inv': "heap_inv b'"
    and t': "tid \<in> dom (order_map b')" "tid \<in> dom (order_map b)"
    and other: "ladder_of (opposite sd) b' = ladder_of (opposite sd) b"
    and lad: "ladder_of sd b = (p, l) # lad" and ids: "lids (ord b) l = ids"
    and frame: "\<And>j. j \<notin> set ids \<Longrightarrow> j \<noteq> tid \<Longrightarrow> ord b' j = ord b j"
    and lad': "ladder_of sd b' = (if ids' = [] then lad else (p, l') # lad)"
    and lr': "ids' \<noteq> [] \<Longrightarrow> level_rel (ord b') sd p l' ids'"
    and ids': "set ids' = dom (order_map b') \<inter> set ids"
  shows "book_rel X b'" "abs b' (opposite sd) = abs b (opposite sd)"
    "abs b' sd = put_queue p (entries (ord b') ids') (abs_ladder (ord b) lad)"
proof -
  note si = book_relD(2) [OF rel, of sd, unfolded lad] and so = book_relD(2) [OF rel, of "opposite sd"]
  have lr: "level_rel (ord b) sd p l ids" using si by (simp add: side_inv_Cons ids)
  have res: "resting b = set ids \<union> aids (abs_ladder (ord b) lad) \<union> aids (abs b (opposite sd))"
    by (simp add: resting_side [of b sd] abs_def lad ids)
  have X: "resting b = dom (order_map b) - X" by (rule book_relD(3) [OF rel])
  have p: "p \<notin> fst ` set lad"
    using si ladder.ok_distinct [of sd "(p, l) # lad"] by (simp add: side_inv_def)
  have d1: "set ids \<inter> aids (abs_ladder (ord b) lad) = {}"
    using aids_level_disjoint [OF si lr] p by simp
  have d2: "set ids \<inter> aids (abs b (opposite sd)) = {}"
    using aids_sides_disjoint [OF si so] by (auto simp: abs_def ids)
  have tid: "tid \<notin> resting b" using tX X by simp
  have f1: "side_inv (ord b') sd lad" "abs_ladder (ord b') lad = abs_ladder (ord b) lad"
    using side_inv_frame [of "ord b" sd lad "ord b'"] si d1 tid frame
    by (auto simp: side_inv_Cons res)
  have f2: "side_inv (ord b') (opposite sd) (ladder_of (opposite sd) b)"
    "abs_ladder (ord b') (ladder_of (opposite sd) b) = abs b (opposite sd)"
    using side_inv_frame [OF so, of "ord b'"] d2 tid frame by (auto simp: res abs_def)
  show o: "abs b' (opposite sd) = abs b (opposite sd)" using f2 by (simp add: abs_def other)
  have s': "side_inv (ord b') sd (ladder_of sd b')"
    using lad' lr' f1 si level_rel_lids by (auto simp: side_inv_Cons)
  show a: "abs b' sd = put_queue p (entries (ord b') ids') (abs_ladder (ord b) lad)"
    using lad' lr' f1 level_rel_lids by (auto simp: abs_def put_queue_def)
  have domsame: "j \<in> dom (order_map b') \<longleftrightarrow> j \<in> dom (order_map b)" if "j \<notin> set ids" for j
    using frame [OF that] t' unfolding dom_ord [symmetric] by (cases "j = tid") (auto simp: domIff)
  have "aids (abs b' sd) = set ids' \<union> aids (abs_ladder (ord b) lad)" by (simp add: a put_queue_def)
  then have "resting b' = set ids' \<union> aids (abs_ladder (ord b) lad) \<union> aids (abs b (opposite sd))"
    by (simp add: resting_side [of b' sd] o)
  moreover have "set ids \<inter> X = {}" using X res by auto
  moreover have "j \<in> set ids' \<or> j \<in> aids (abs_ladder (ord b) lad) \<or> j \<in> aids (abs b (opposite sd)) \<longleftrightarrow>
      j \<in> dom (order_map b') \<and> j \<notin> X" for j
  proof (cases "j \<in> set ids")
    case True
    then show ?thesis using d1 d2 \<open>set ids \<inter> X = {}\<close> ids' by blast
  next
    case False
    then have "j \<in> resting b \<longleftrightarrow> j \<in> aids (abs_ladder (ord b) lad) \<or> j \<in> aids (abs b (opposite sd))"
      by (simp add: res)
    then show ?thesis using X domsame [OF False] False ids' by blast
  qed
  ultimately have "resting b' = dom (order_map b') - X" by blast
  then show "book_rel X b'" using book_relI [OF inv' s'] f2(1) other by simp
qed

lemma abs_head:
  assumes "book_rel X b" and "abs b sd = (p, q) # al"
  obtains l lad where "ladder_of sd b = (p, l) # lad" "level_rel (ord b) sd p l (lids (ord b) l)"
    "q = entries (ord b) (lids (ord b) l)" "al = abs_ladder (ord b) lad"
proof (cases "ladder_of sd b")
  case Nil
  then show ?thesis using assms(2) by (simp add: abs_def)
next
  case (Cons e lad)
  obtain p' l where e: "e = (p', l)" by fastforce
  have "level_rel (ord b) sd p' l (lids (ord b) l)"
    using book_relD(2) [OF assms(1), of sd] by (simp add: Cons e side_inv_Cons)
  then show ?thesis using that assms(2) by (auto simp: abs_def Cons e)
qed

section \<open>One fill\<close>

text \<open>
  What filling leaves alone and what it does to the taker. \<open>matched\<close> is transitive, so it holds from
  the start of \<open>match_order\<close> to its end.
\<close>

definition fill_status :: "quantity \<Rightarrow> quantity \<Rightarrow> order_status \<Rightarrow> order_status" where
  "fill_status n n' st = (if n' = n then st else if n' = 0 then FILLED else PARTIAL)"

definition taker_now :: "order \<Rightarrow> order \<Rightarrow> bool" where
  "taker_now o1 o2 \<longleftrightarrow> o_remaining o2 \<le> o_remaining o1 \<and>
     o2 = o1\<lparr>o_remaining := o_remaining o2,
             o_status := fill_status (o_remaining o1) (o_remaining o2) (o_status o1)\<rparr>"

definition matched :: "side \<Rightarrow> order_id \<Rightarrow> nat \<Rightarrow> order_id set \<Rightarrow> book \<Rightarrow> book \<Rightarrow> bool" where
  "matched sd tid ts X b b' \<longleftrightarrow> book_rel X b' \<and> order_map b' tid = Some ts \<and>
     abs b' (opposite sd) = abs b (opposite sd) \<and> order_id_seq b' = order_id_seq b \<and>
     callbacks b' = callbacks b \<and> bk_symbol b' = bk_symbol b \<and>
     (\<forall>i \<in> X - {tid}. ord b' i = ord b i) \<and> taker_now (obj ts b) (obj ts b')"

lemma taker_now_refl [simp]: "taker_now o1 o1"
  by (simp add: taker_now_def fill_status_def)

lemma taker_now_trans: "taker_now o1 o2 \<Longrightarrow> taker_now o2 o3 \<Longrightarrow> taker_now o1 o3"
proof -
  assume a: "taker_now o1 o2" "taker_now o2 o3"
  define n2 n3 where "n2 = o_remaining o2" and "n3 = o_remaining o3"
  have 2: "o2 = o1\<lparr>o_remaining := n2, o_status := fill_status (o_remaining o1) n2 (o_status o1)\<rparr>"
    and 3: "o3 = o2\<lparr>o_remaining := n3, o_status := fill_status n2 n3 (o_status o2)\<rparr>"
    and le: "n2 \<le> o_remaining o1" "n3 \<le> n2"
    using a by (simp_all add: taker_now_def n2_def n3_def)
  have st: "fill_status n2 n3 (fill_status (o_remaining o1) n2 (o_status o1)) =
      fill_status (o_remaining o1) n3 (o_status o1)"
    using le by (auto simp: fill_status_def)
  have "o_status o2 = fill_status (o_remaining o1) n2 (o_status o1)" by (subst 2) simp
  then have "o3 = o2\<lparr>o_remaining := n3, o_status := fill_status (o_remaining o1) n3 (o_status o1)\<rparr>"
    using 3 st by simp
  also have "\<dots> = o1\<lparr>o_remaining := n3, o_status := fill_status (o_remaining o1) n3 (o_status o1)\<rparr>"
    by (subst 2) simp
  finally show ?thesis using le by (simp add: taker_now_def n3_def)
qed

lemma matched_refl: "book_rel X b \<Longrightarrow> order_map b tid = Some ts \<Longrightarrow> matched sd tid ts X b b"
  by (simp add: matched_def)

lemma matched_trans:
  "matched sd tid ts X b b' \<Longrightarrow> matched sd tid ts X b' b'' \<Longrightarrow> matched sd tid ts X b b''"
  using taker_now_trans by (auto simp: matched_def)

lemma taker_nowD:
  assumes "taker_now o1 o2"
  shows "o_side o2 = o_side o1" "o_price o2 = o_price o1" "o_remaining o2 \<le> o_remaining o1"
    "o_id o2 = o_id o1" "o_type o2 = o_type o1"
    "o_status o2 = fill_status (o_remaining o1) (o_remaining o2) (o_status o1)"
    "o_prev o2 = o_prev o1" "o_next o2 = o_next o1"
proof -
  obtain n st where o2: "o2 = o1\<lparr>o_remaining := n, o_status := st\<rparr>" and n: "n \<le> o_remaining o1"
    and st: "st = fill_status (o_remaining o1) n (o_status o1)"
    using assms unfolding taker_now_def by (metis order.select_convs(4) order.surjective order.update_convs(4,10))
  show "o_side o2 = o_side o1" "o_price o2 = o_price o1" "o_remaining o2 \<le> o_remaining o1"
    "o_id o2 = o_id o1" "o_type o2 = o_type o1"
    "o_status o2 = fill_status (o_remaining o1) (o_remaining o2) (o_status o1)"
    "o_prev o2 = o_prev o1" "o_next o2 = o_next o1"
    using n st by (simp_all add: o2)
qed

lemma matchedD:
  assumes "matched sd tid ts X b b'"
  shows "book_rel X b'" "order_map b' tid = Some ts" "taker_now (obj ts b) (obj ts b')"
    "abs b' (opposite sd) = abs b (opposite sd)" "order_id_seq b' = order_id_seq b"
    "i \<in> X \<Longrightarrow> i \<noteq> tid \<Longrightarrow> ord b' i = ord b i"
  using assms unfolding matched_def by blast+

text \<open>The situation in which \<open>fill_order\<close> is called: the maker is the head of the best level.\<close>

definition head_fill :: "side \<Rightarrow> book \<Rightarrow> order_id set \<Rightarrow> order_id \<Rightarrow> nat \<Rightarrow> nat \<Rightarrow> price \<Rightarrow> price_level \<Rightarrow>
    ladder \<Rightarrow> order_id \<Rightarrow> order_id list \<Rightarrow> quantity \<Rightarrow> bool" where
  "head_fill sd b X tid ts ms p l lad i ids f \<longleftrightarrow> book_rel X b \<and>
     order_map b tid = Some ts \<and> tid \<in> X \<and> o_side (obj ts b) = opposite sd \<and>
     ladder_of sd b = (p, l) # lad \<and> lids (ord b) l = i # ids \<and> order_map b i = Some ms \<and>
     0 < f \<and> f \<le> o_remaining (obj ts b) \<and> f \<le> o_remaining (obj ms b)"

lemma head_fillD:
  assumes H: "head_fill sd b X tid ts ms p l lad i ids f"
  shows "book_rel X b" "order_map b tid = Some ts" "tid \<in> X" "o_side (obj ts b) = opposite sd"
    "ladder_of sd b = (p, l) # lad" "lids (ord b) l = i # ids" "order_map b i = Some ms"
    "0 < f" "f \<le> o_remaining (obj ts b)" "f \<le> o_remaining (obj ms b)"
    and "level_rel (ord b) sd p l (i # ids)" and "heap_inj b" and "heap_inv b"
    and "tid \<notin> set (i # ids)" and "i \<noteq> tid" and "ms \<noteq> ts"
    and "rests sd p (obj ms b)" "o_id (obj ms b) = i" "o_id (obj ts b) = tid"
proof -
  show d: "book_rel X b" "order_map b tid = Some ts" "tid \<in> X" "o_side (obj ts b) = opposite sd"
    "ladder_of sd b = (p, l) # lad" "lids (ord b) l = i # ids" "order_map b i = Some ms"
    "0 < f" "f \<le> o_remaining (obj ts b)" "f \<le> o_remaining (obj ms b)"
    using H by (simp_all add: head_fill_def)
  show lr: "level_rel (ord b) sd p l (i # ids)"
    using book_relD(2) [OF d(1), of sd] by (simp add: d side_inv_Cons)
  show hi: "heap_inv b" by (rule book_relD(1) [OF d(1)])
  show inj: "heap_inj b" by (rule heap_invD(2) [OF hi])
  have "set (i # ids) \<subseteq> resting b" by (auto simp: resting_side [of b sd] abs_def d)
  then show out: "tid \<notin> set (i # ids)" using d(3) book_relD(3) [OF d(1)] by blast
  then show ne: "i \<noteq> tid" by auto
  then show "ms \<noteq> ts" using heap_inj_eq [OF inj d(7)] d(2) by auto
  show "rests sd p (obj ms b)" using level_rel_rests [OF lr, of i] ord_slot [OF d(7)] by auto
  show "o_id (obj ms b) = i" "o_id (obj ts b) = tid" using heap_invD(5) [OF hi] d by auto
qed

text \<open>The state in front of the ladder update, in that situation.\<close>

lemma head_fill_pair:
  assumes H: "head_fill sd b X tid ts ms p l lad i ids f"
  shows "o_price (obj ms (filled_pair ms ts f b)) = p" "o_id (obj ms (filled_pair ms ts f b)) = i"
    "o_remaining (obj ms (filled_pair ms ts f b)) = o_remaining (obj ms b) - f"
    "heap_inv (filled_pair ms ts f b)"
    "taker_now (obj ts b) ((obj ts (filled_pair ms ts f b))
       \<lparr>o_status := (if o_remaining (obj ts (filled_pair ms ts f b)) = 0 then FILLED else PARTIAL)\<rparr>)"
    "(if o_side (obj ts (filled_pair ms ts f b)) = BUY then SELL else BUY) = sd"
    "ladder_of sd (filled_pair ms ts f b) = (p, l) # lad"
proof -
  note D = head_fillD [OF H]
  note b5 = filled_pair_facts [OF D(12) D(7) D(2) D(15), where f = f]
  show "o_price (obj ms (filled_pair ms ts f b)) = p" "o_id (obj ms (filled_pair ms ts f b)) = i"
    "o_remaining (obj ms (filled_pair ms ts f b)) = o_remaining (obj ms b) - f"
    using D(17,18) by (simp_all add: b5 rests_def)
  show "heap_inv (filled_pair ms ts f b)"
    using D(13) heap_inv_cong [of "filled_pair ms ts f b" b] by (simp add: b5)
  show "taker_now (obj ts b) ((obj ts (filled_pair ms ts f b))
       \<lparr>o_status := (if o_remaining (obj ts (filled_pair ms ts f b)) = 0 then FILLED else PARTIAL)\<rparr>)"
    using D(8,9) by (simp add: taker_now_def fill_status_def b5)
  show "(if o_side (obj ts (filled_pair ms ts f b)) = BUY then SELL else BUY) = sd"
    using D(4) by (cases sd) (simp_all add: b5)
  show "ladder_of sd (filled_pair ms ts f b) = (p, l) # lad" by (simp add: b5 D)
qed

definition trade_is :: "order_id \<Rightarrow> side \<Rightarrow> afill \<Rightarrow> trade \<Rightarrow> bool" where
  "trade_is tid sd fl t \<longleftrightarrow> t_price t = fst fl \<and> t_maker_id t = fst (snd fl) \<and> t_qty t = snd (snd fl) \<and>
     t_taker_id t = tid \<and> t_aggressor t = sd"

text \<open>The state after \<open>fill_order\<close>, from what happened between the pair update and the taker status.\<close>

lemma fill_order_finish:
  assumes H: "head_fill sd b X tid ts ms p l lad i ids f"
    and b7: "retire_maker ms (fill_update_ladder sd ms f (filled_pair ms ts f b)) = b7"
    and same: "order_map b7 tid = Some ts" "obj ts b7 = obj ts (filled_pair ms ts f b)" "heap_inv b7"
      "ladder_of (opposite sd) b7 = ladder_of (opposite sd) b" "order_id_seq b7 = order_id_seq b"
      "callbacks b7 = callbacks b" "bk_symbol b7 = bk_symbol b"
    and frame: "\<And>j. j \<notin> set (i # ids) \<Longrightarrow> j \<noteq> tid \<Longrightarrow> ord b7 j = ord b j"
    and m': "m' = (ord b7)(tid \<mapsto> (obj ts b7)\<lparr>o_status := (if o_remaining (obj ts b7) = 0 then FILLED else PARTIAL)\<rparr>)"
    and new: "ladder_of sd b7 = (if ids' = [] then lad else (p, l') # lad)"
      "ids' \<noteq> [] \<Longrightarrow> level_rel m' sd p l' ids'"
      "set ids' = dom (order_map b7) \<inter> set (i # ids)"
  shows "\<exists>t b'. fill_order ms ts f out b = (out @ [t], b') \<and> trade_is tid (opposite sd) (p, i, f) t \<and>
    matched sd tid ts X b b' \<and> o_remaining (obj ts b') = o_remaining (obj ts b) - f \<and>
    abs b' sd = put_queue p (entries m' ids') (abs_ladder (ord b) lad)"
proof -
  note D = head_fillD [OF H] and P = head_fill_pair [OF H]
  note b5 = filled_pair_facts [OF D(12) D(7) D(2) D(15), where f = f]
  obtain t where eq: "fill_order ms ts f out b = (out @ [t], notify (On_trade t)
       (upd_obj ts (\<lambda>o1. o1\<lparr>o_status := (if o_remaining o1 = 0 then FILLED else PARTIAL)\<rparr>)
         (retire_maker ms (fill_update_ladder
            (if o_side (obj ts (filled_pair ms ts f b)) = BUY then SELL else BUY) ms f (filled_pair ms ts f b)))))"
    and t: "t_maker_id t = o_id (obj ms b)" "t_taker_id t = o_id (obj ts b)" "t_price t = o_price (obj ms b)"
      "t_qty t = f" "t_aggressor t = o_side (obj ts b)"
    by (rule fill_order_split)
  define b' where "b' = notify (On_trade t)
       (upd_obj ts (\<lambda>o1. o1\<lparr>o_status := (if o_remaining o1 = 0 then FILLED else PARTIAL)\<rparr>) b7)"
  have inj7: "heap_inj b7" by (rule heap_invD(2) [OF same(3)])
  have ord': "ord b' = m'" unfolding b'_def m' using ord_upd_obj [OF inj7 same(1)] by (simp add: heap_simps)
  have hi': "heap_inv b'"
    using same(3) heap_inv_cong [of b' b7] by (simp add: b'_def heap_simps)
  have tr: "trade_is tid (opposite sd) (p, i, f) t"
    using D(17,18,19,4) by (simp add: trade_is_def t rests_def)
  have obj': "obj ts b' = (obj ts b7)\<lparr>o_status := (if o_remaining (obj ts b7) = 0 then FILLED else PARTIAL)\<rparr>"
    by (simp add: b'_def heap_simps)
  have fr: "ord b' j = ord b j" if "j \<notin> set (i # ids)" "j \<noteq> tid" for j
    using frame [OF that] that by (simp add: ord' m')
  have b': "tid \<in> dom (order_map b')" "order_map b' = order_map b7" "ladder_of sd' b' = ladder_of sd' b7" for sd'
    using same(1) by (auto simp: b'_def heap_simps)
  have "tid \<in> dom (order_map b)" using D(2) by blast
  note head = head_level_change [OF D(1) D(3) hi' b'(1) this _ D(5) D(6) fr, where ids' = ids' and l' = l',
      unfolded b' ord', OF same(4) _ _ new]
  have "ord b' j = ord b j" if "j \<in> X - {tid}" for j
  proof -
    have "set (i # ids) \<subseteq> resting b" by (auto simp: resting_side [of b sd] abs_def D)
    then have "j \<notin> set (i # ids)" using that book_relD(3) [OF D(1)] by blast
    then show ?thesis using frame [of j] that by (simp add: ord' m')
  qed
  then have "matched sd tid ts X b b'"
    using head same P(5) unfolding matched_def obj' by (simp add: b'_def heap_simps)
  moreover have "o_remaining (obj ts b') = o_remaining (obj ts b) - f"
    by (simp add: obj' same b5)
  moreover have "fill_order ms ts f out b = (out @ [t], b')"
    unfolding eq P(6) b7 b'_def ..
  ultimately show ?thesis using tr head(3) unfolding ord' by blast
qed

lemma fill_order_partial:
  assumes H: "head_fill sd b X tid ts ms p l lad i ids f" and lt: "f < o_remaining (obj ms b)"
  shows "\<exists>t b'. fill_order ms ts f out b = (out @ [t], b') \<and> trade_is tid (opposite sd) (p, i, f) t \<and>
    matched sd tid ts X b b' \<and> o_remaining (obj ts b') = o_remaining (obj ts b) - f \<and>
    abs b' sd = put_queue p ((i, o_remaining (obj ms b) - f) # entries (ord b) ids) (abs_ladder (ord b) lad)"
proof -
  note D = head_fillD [OF H] and P = head_fill_pair [OF H]
  define b5 where "b5 = filled_pair ms ts f b"
  note b5 = filled_pair_facts [OF D(12) D(7) D(2) D(15), where f = f, folded b5_def]
  note P = P [folded b5_def]
  define b7 where "b7 = upd_obj ms (\<lambda>o1. o1\<lparr>o_status := PARTIAL\<rparr>)
    (put_level sd p (l\<lparr>l_total_qty := i64 (l_total_qty l - f)\<rparr>) b5)"
  have ne: "o_remaining (obj ms b5) \<noteq> 0" using lt P(3) by simp
  have upd: "fill_update_ladder sd ms f b5 = put_level sd p (l\<lparr>l_total_qty := i64 (l_total_qty l - f)\<rparr>) b5"
    using ne by (simp add: fill_update_ladder_def P Let_def)
  have b7: "retire_maker ms (fill_update_ladder sd ms f b5) = b7"
    using ne by (simp add: upd retire_maker_def b7_def heap_simps)
  have om7: "order_map b7 = order_map b" by (simp add: b7_def b5 heap_simps)
  have inj5: "heap_inj b5" using heap_invD(2) [OF P(4)] .
  have ord7: "ord b7 = (ord b)(tid \<mapsto> obj ts b5, i \<mapsto> (obj ms b5)\<lparr>o_status := PARTIAL\<rparr>)"
    unfolding b7_def using ord_upd_obj [of "put_level sd p (l\<lparr>l_total_qty := i64 (l_total_qty l - f)\<rparr>) b5" i ms]
      inj5 D(7,15) by (simp add: heap_simps b5 fun_upd_twist)
  have hi7: "heap_inv b7" using P(4) heap_inv_cong [of b7 b5] by (simp add: b7_def heap_simps)
  define m' where "m' = (ord b7)(tid \<mapsto> (obj ts b7)\<lparr>o_status := (if o_remaining (obj ts b7) = 0 then FILLED else PARTIAL)\<rparr>)"
  have m': "m' = (ord b)(i \<mapsto> (obj ms b)\<lparr>o_remaining := o_remaining (obj ms b) - f, o_status := PARTIAL\<rparr>,
      tid \<mapsto> (obj ts b7)\<lparr>o_status := (if o_remaining (obj ts b7) = 0 then FILLED else PARTIAL)\<rparr>)"
    using D(15) by (simp add: m'_def ord7 b5 fun_upd_twist)
  note FP = fill_partial [OF D(11) ord_slot [OF D(7)] D(14) D(8) lt m']
  have "\<exists>t b'. fill_order ms ts f out b = (out @ [t], b') \<and> trade_is tid (opposite sd) (p, i, f) t \<and>
    matched sd tid ts X b b' \<and> o_remaining (obj ts b') = o_remaining (obj ts b) - f \<and>
    abs b' sd = put_queue p (entries m' (i # ids)) (abs_ladder (ord b) lad)"
  proof (rule fill_order_finish [OF H b7 [unfolded b5_def] _ _ hi7 _ _ _ _ _ m'_def])
    show "ord b7 j = ord b j" if "j \<notin> set (i # ids)" "j \<noteq> tid" for j using that by (simp add: ord7)
    show "ladder_of sd b7 = (if i # ids = [] then lad else (p, l\<lparr>l_total_qty := i64 (l_total_qty l - f)\<rparr>) # lad)"
      by (simp add: b7_def heap_simps P ladder.lt_irrefl)
    show "set (i # ids) = dom (order_map b7) \<inter> set (i # ids)"
      using level_rel_rests [OF D(11)] by (auto simp: om7 dom_ord [symmetric] domIff)
  qed (use D(2,16) FP(1) in \<open>simp_all add: om7 b7_def b5_def [symmetric] b5 heap_simps\<close>)
  then show ?thesis by (simp only: FP(2))
qed

lemma heap_inv_same_data:
  assumes inv: "heap_inv b" and ho: "heap_only b b'" and sd: "same_data (ord b) (ord b')"
  shows "heap_inv b'"
proof -
  note H = heap_only_frame [OF ho]
  have "o_id (obj s b') = o_id (obj s b)" if om: "order_map b i = Some s" for i s
  proof -
    obtain o2 where "ord b' i = Some o2" "unlinked o2 = unlinked (obj s b)"
      using sd ord_slot [OF om] by (rule same_dataD)
    then show ?thesis using unlinked_eqD(1) [of o2 "obj s b"] om H(1) by (simp add: ord_def)
  qed
  then show ?thesis using inv heap_inv_cong [of b' b] H by simp
qed

lemma fill_order_whole:
  assumes H: "head_fill sd b X tid ts ms p l lad i ids f" and f: "f = o_remaining (obj ms b)"
  shows "\<exists>t b'. fill_order ms ts f out b = (out @ [t], b') \<and> trade_is tid (opposite sd) (p, i, f) t \<and>
    matched sd tid ts X b b' \<and> o_remaining (obj ts b') = o_remaining (obj ts b) - f \<and>
    abs b' sd = put_queue p (entries (ord b) ids) (abs_ladder (ord b) lad)"
proof -
  note D = head_fillD [OF H] and P = head_fill_pair [OF H]
  define b5 where "b5 = filled_pair ms ts f b"
  note b5 = filled_pair_facts [OF D(12) D(7) D(2) D(15), where f = f, folded b5_def]
  note P = P [folded b5_def]
  have inj5: "heap_inj b5" using heap_invD(2) [OF P(4)] .
  define l1 where "l1 = l\<lparr>l_total_qty := i64 (l_total_qty l - f)\<rparr>"
  define l' where "l' = l1\<lparr>l_head := hd0 ids, l_tail := last0 ids, l_order_count := length ids\<rparr>"
  have om5: "order_map b5 i = Some ms" by (simp add: b5 D(7))
  have nz: "0 \<notin> set (i # ids)" and dist: "distinct (i # ids)" and
    lvl: "l_head l1 = i" "l_tail l1 = last0 (i # ids)" "l_order_count l1 = length (i # ids)"
    using D(11) by (auto simp: level_rel_def level_links_def l1_def)
  have ord5: "ord b5 = (ord b)(i \<mapsto> obj ms b5, tid \<mapsto> obj ts b5)" by (simp add: b5)
  have lnk: "o_prev (obj ms b5) = o_prev (obj ms b)" "o_next (obj ms b5) = o_next (obj ms b)" by (simp_all add: b5)
  define m' where "m' = (unlink (ord b5) 0 (hd0 ids))(i := None, tid \<mapsto> (obj ts b5)\<lparr>o_status := (if o_remaining (obj ts b5) = 0 then FILLED else PARTIAL)\<rparr>)"
  note FW = fill_whole [OF D(11) ord_slot [OF D(7)] D(14) f ord5 lnk m'_def]
  obtain b6 where b6: "level_remove_order_links l1 ms b5 = (l', b6)"
    "ord b6 = unlink (ord b5) 0 (hd0 ids)" "heap_only b5 b6"
    using level_remove_links [of b5 i ms "[]" ids l1] inj5 om5 FW(3) nz dist lvl by (auto simp: l'_def)
  note ho = heap_only_frame [OF b6(3)]
  have tl: "tid \<noteq> hd0 ids" using D(14) b5(3) nz D(2) heap_invD(6) [OF D(13)] by (cases ids) auto
  have il: "i \<noteq> hd0 ids" using dist nz by (cases ids) auto
  have nz2: "tid \<noteq> 0" "i \<noteq> 0" using heap_invD(6) [OF D(13)] D(2,7) by fastforce+
  have "ord b6 tid = ord b5 tid" "ord b6 i = ord b5 i" using nz2 tl il by (simp_all add: b6(2) unlink_other)
  then have objs: "obj ts b6 = obj ts b5" "obj ms b6 = obj ms b5"
    using D(2,7) by (simp_all add: ord_def ho(1) b5(4))
  define b6' where "b6' = (if ids = [] then erase_level sd p b6 else put_level sd p l' b6)"
  have upd: "fill_update_ladder sd ms f b5 = b6'"
  proof -
    have "o_remaining (obj ms b5) = 0" using P(3) f by linarith
    then show ?thesis
      by (simp add: fill_update_ladder_def P(1,7) Let_def l1_def [symmetric] b6(1) b6'_def level_empty_def)
        (simp add: l'_def)
  qed
  define b7 where "b7 = retire_maker ms b6'"
  have b6': "order_map b6' = order_map b" "ord b6' = ord b6" "obj s b6' = obj s b6"
    "order_pool b6' = order_pool b6" "order_id_seq b6' = order_id_seq b" "callbacks b6' = callbacks b"
    "bk_symbol b6' = bk_symbol b" "ladder_of (opposite sd) b6' = ladder_of (opposite sd) b"
    "ladder_of sd b6' = (if ids = [] then lad else (p, l') # lad)" for s
    using book_relD(2) [OF D(1), of sd] ladder.ok_distinct [of sd "(p, l) # lad"]
    by (auto simp: b6'_def ho b5 heap_simps D(5) ladder.lt_irrefl side_inv_def)
  have rem0: "o_remaining (obj ms b6') = 0" using f by (simp add: b6' objs P)
  have id6: "o_id (obj ms b6') = i" by (simp add: b6' objs P)
  have "heap_inv b6"
    using P(4) b6(3) by (rule heap_inv_same_data) (simp add: b6(2) unlink_same_data)
  then have hi6: "heap_inv (upd_obj ms (\<lambda>o1. o1\<lparr>o_status := FILLED\<rparr>) b6')"
    using heap_inv_cong [of "upd_obj ms (\<lambda>o1. o1\<lparr>o_status := FILLED\<rparr>) b6'" b6]
    by (simp add: heap_simps b6' ho b5)
  have b7: "order_map b7 = (order_map b)(i := None)" "order_pool b7 = deallocate ms (order_pool (upd_obj ms (\<lambda>o1. o1\<lparr>o_status := FILLED\<rparr>) b6'))"
    "order_id_seq b7 = order_id_seq b" "callbacks b7 = callbacks b" "bk_symbol b7 = bk_symbol b"
    "ladder_of sd' b7 = ladder_of sd' b6'" "obj s b7 = (if s = ms then (obj s b6')\<lparr>o_status := FILLED\<rparr> else obj s b6')" for sd' s
    using rem0 id6 by (simp_all add: b7_def retire_maker_def Let_def heap_simps b6')
  have hi7: "heap_inv b7"
    using hi6 by (rule heap_inv_retire [of _ i ms]) (simp_all add: b7 heap_simps b6' D(7))
  have ord7: "ord b7 = (unlink (ord b5) 0 (hd0 ids))(i := None)"
  proof
    fix j
    have "s \<noteq> ms" if "order_map b j = Some s" "j \<noteq> i" for s
      using that heap_inj_eq [OF D(12) D(7), of j] by auto
    then show "ord b7 j = ((unlink (ord b5) 0 (hd0 ids))(i := None)) j"
      unfolding b6(2) [symmetric]
      by (cases "order_map b j") (auto simp: ord_def b7 b6' ho b5(4))
  qed
  have frame: "ord b7 j = ord b j" if "j \<notin> set (i # ids)" "j \<noteq> tid" for j
  proof (cases "j = 0")
    case True
    have "order_map c 0 = None" if "heap_inv c" for c
      using heap_invD(6) [OF that, of 0] by (cases "order_map c 0") auto
    then show ?thesis using hi7 D(13) True by (simp add: ord_def)
  next
    case False
    then have "j \<noteq> hd0 ids" using that hd0_in [of ids] by (cases ids) auto
    then show ?thesis using that False by (simp add: ord7 unlink_other ord5)
  qed
  show ?thesis
    unfolding FW(2) [symmetric]
  proof (rule fill_order_finish [OF H b7_def [symmetric, unfolded upd [symmetric] b5_def] _ _ hi7 _ _ _ _ frame])
    show "m' = (ord b7)(tid \<mapsto> (obj ts b7)\<lparr>o_status := (if o_remaining (obj ts b7) = 0 then FILLED else PARTIAL)\<rparr>)"
      using D(16) by (simp add: m'_def ord7 b7 b6' objs)
    show "ids \<noteq> [] \<Longrightarrow> level_rel m' sd p l' ids" using FW(1) by (simp add: l'_def l1_def)
    show "set ids = dom (order_map b7) \<inter> set (i # ids)"
      using level_rel_rests [OF D(11)] dist by (auto simp: b7 dom_ord [symmetric] domIff)
  qed (use D(2,15,16) in \<open>simp_all add: b7 b6' objs b5_def [symmetric]\<close>)
qed


section \<open>One fill, on the abstract book\<close>

lemma fill_step:
  assumes rel: "book_rel X b" and tid: "order_map b tid = Some ts" "tid \<in> X"
    and side: "o_side (obj ts b) = opposite sd" and a: "abs b sd = (p, (i, r) # q) # al"
    and n: "n = o_remaining (obj ts b)" "0 < n"
  obtains ms t b' where "order_map b i = Some ms" "o_remaining (obj ms b) = r" "0 < r" "i \<noteq> 0"
    "o_next (obj ms b) = hd0 (map fst q)" "fill_order ms ts (min n r) out b = (out @ [t], b')"
    "trade_is tid (opposite sd) (p, i, min n r) t" "matched sd tid ts X b b'"
    "o_remaining (obj ts b') = n - min n r"
    "abs b' sd = put_queue p (if n < r then (i, r - n) # q else q) al"
proof -
  obtain l lad where lad: "ladder_of sd b = (p, l) # lad" and lr: "level_rel (ord b) sd p l (lids (ord b) l)"
    and q: "(i, r) # q = entries (ord b) (lids (ord b) l)" and al: "al = abs_ladder (ord b) lad"
    by (rule abs_head [OF rel a])
  from q obtain ids where ids: "lids (ord b) l = i # ids" and r: "r = rem (ord b) i" and qe: "q = entries (ord b) ids"
    by (cases "lids (ord b) l") auto
  obtain o1 where o1: "ord b i = Some o1" "rests sd p o1" using level_rel_rests [OF lr, of i] ids by auto
  obtain ms where om: "order_map b i = Some ms" and ms: "obj ms b = o1" using o1(1) by (rule ord_SomeE)
  have r': "o_remaining (obj ms b) = r" "0 < r" using r o1 ms by (auto simp: rem_def rests_def)
  have i0: "i \<noteq> 0" using lr ids by (auto simp: level_rel_def level_links_def)
  have nx: "o_next (obj ms b) = hd0 (map fst q)"
    using lr ids o1 ms qe by (simp add: level_rel_def level_links_def)
  have H: "head_fill sd b X tid ts ms p l lad i ids (min n r)"
    using rel tid side lad ids om n r' by (simp add: head_fill_def)
  have "\<exists>t b'. fill_order ms ts (min n r) out b = (out @ [t], b') \<and> trade_is tid (opposite sd) (p, i, min n r) t \<and>
    matched sd tid ts X b b' \<and> o_remaining (obj ts b') = n - min n r \<and>
    abs b' sd = put_queue p (if n < r then (i, r - n) # q else q) al"
  proof (cases "n < r")
    case True
    then show ?thesis using fill_order_partial [OF H] r' n al qe by simp
  next
    case False
    then show ?thesis using fill_order_whole [OF H] r' n al qe by simp
  qed
  then show thesis using that om r' i0 nx by blast
qed

end
