(* ===== verification/Book_Match.thy ===== *)
theory Book_Match
  imports Book_Fill
begin

text \<open>
  The two loops of \<open>match_order\<close> refine \<open>spec_fill\<close> and \<open>spec_sweep\<close>. As the loops are partial
  functions, the lemmas also say that they end.
\<close>

lemma walk_level_stop: "\<not> (cur \<noteq> 0 \<and> 0 < o_remaining (obj ts b)) \<Longrightarrow> walk_level ts cur out b = Some (out, b)"
  by (subst walk_level.simps) auto

lemma walk_level_step:
  assumes "cur \<noteq> 0" "0 < o_remaining (obj ts b)" "order_map b cur = Some ms"
    and "fill_order ms ts (min (o_remaining (obj ts b)) (o_remaining (obj ms b))) out b = (out', b')"
  shows "walk_level ts cur out b = walk_level ts (o_next (obj ms b)) out' b'"
  by (subst walk_level.simps) (use assms in \<open>simp add: Let_def\<close>)

lemma walk_level_spec:
  assumes "book_rel X b" and "order_map b tid = Some ts" "tid \<in> X"
    and "o_side (obj ts b) = opposite sd" and "abs b sd = put_queue p q al"
    and "n = o_remaining (obj ts b)" "0 \<le> n" and "spec_fill n q = (n', q', fs)"
  shows "\<exists>trs b'. walk_level ts (hd0 (map fst q)) out b = Some (out @ trs, b') \<and>
    list_all2 (trade_is tid (opposite sd)) (map (Pair p) fs) trs \<and> matched sd tid ts X b b' \<and>
    o_remaining (obj ts b') = n' \<and> abs b' sd = put_queue p q' al"
  using assms
proof (induction q arbitrary: b n n' q' fs out)
  case Nil
  then show ?case using matched_refl [of X b tid ts sd] by (auto simp: walk_level_stop)
next
  case (Cons e q)
  obtain i r where e: "e = (i, r)" by fastforce
  show ?case
  proof (cases "n = 0")
    case True
    then show ?thesis
      using Cons.prems matched_refl [of X b tid ts sd] by (auto simp: walk_level_stop e)
  next
    case False
    then have n: "0 < n" using Cons.prems by simp
    have a: "abs b sd = (p, (i, r) # q) # al" using Cons.prems(5) by (simp add: put_queue_def e)
    obtain ms t b1 where om: "order_map b i = Some ms" and r: "o_remaining (obj ms b) = r" "0 < r" "i \<noteq> 0"
      and nx: "o_next (obj ms b) = hd0 (map fst q)"
      and fo: "fill_order ms ts (min n r) out b = (out @ [t], b1)"
      and t: "trade_is tid (opposite sd) (p, i, min n r) t" and m1: "matched sd tid ts X b b1"
      and n1: "o_remaining (obj ts b1) = n - min n r"
      and a1: "abs b1 sd = put_queue p (if n < r then (i, r - n) # q else q) al"
      by (rule fill_step [OF Cons.prems(1-4) a Cons.prems(6) n])
    have w: "walk_level ts (hd0 (map fst (e # q))) out b = walk_level ts (hd0 (map fst q)) (out @ [t]) b1"
      using walk_level_step [OF r(3) _ om, of ts out "out @ [t]" b1] fo n Cons.prems(6) r(1) nx by (simp add: e)
    show ?thesis
    proof (cases "n < r")
      case True
      then have "walk_level ts (hd0 (map fst q)) (out @ [t]) b1 = Some (out @ [t], b1)"
        using n1 by (intro walk_level_stop) simp
      then show ?thesis using True w Cons.prems(8) n t m1 n1 a1 by (auto simp: e)
    next
      case False
      obtain a c d where f: "spec_fill (n - r) q = (a, c, d)" by (metis prod_cases3)
      note M = matchedD [OF m1]
      have "\<exists>trs b'. walk_level ts (hd0 (map fst q)) (out @ [t]) b1 = Some ((out @ [t]) @ trs, b') \<and>
          list_all2 (trade_is tid (opposite sd)) (map (Pair p) d) trs \<and> matched sd tid ts X b1 b' \<and>
          o_remaining (obj ts b') = a \<and> abs b' sd = put_queue p c al"
        by (rule Cons.IH [OF M(1,2) Cons.prems(3)])
           (use False n1 a1 f taker_nowD(1) [OF M(3)] Cons.prems(4) in auto)
      then obtain trs b' where "walk_level ts (hd0 (map fst q)) (out @ [t]) b1 = Some (out @ t # trs, b')"
        "list_all2 (trade_is tid (opposite sd)) (map (Pair p) d) trs" "matched sd tid ts X b1 b'"
        "o_remaining (obj ts b') = a" "abs b' sd = put_queue p c al" by auto
      moreover have "n' = a" "q' = c" "fs = (i, r) # d" using Cons.prems(8) False n f by (auto simp: e)
      moreover have "min n r = r" using False by simp
      ultimately show ?thesis
        using w t matched_trans [OF m1] by (intro exI [of _ "t # trs"] exI [of _ b']) auto
    qed
  qed
qed


section \<open>Reads after erase\<close>

lemma stale_level_remove:
  "stale_reads (snd (level_remove_order_links l s b)) = stale_reads b"
  by (simp add: level_remove_split Let_def heap_simps split: option.split)

lemma stale_fill_update: "stale_reads (fill_update_ladder sd s f b) = stale_reads b"
proof -
  have "stale_reads b' = stale_reads b" if "level_remove_order_links l s b = (l', b')" for l l' b'
    using stale_level_remove [of l s b] that by simp
  then show ?thesis
    by (simp add: fill_update_ladder_def Let_def heap_simps split: option.split prod.split)
qed

lemma stale_retire: "stale_reads (retire_maker s b) = stale_reads b"
  by (simp add: retire_maker_def Let_def heap_simps)

lemma stale_fill: "stale_reads (snd (fill_order ms ts f out b)) = stale_reads b"
proof -
  obtain t where "fill_order ms ts f out b = (out @ [t], notify (On_trade t)
       (upd_obj ts (\<lambda>o1. o1\<lparr>o_status := (if o_remaining o1 = 0 then FILLED else PARTIAL)\<rparr>)
         (retire_maker ms (fill_update_ladder
            (if o_side (obj ts (filled_pair ms ts f b)) = BUY then SELL else BUY) ms f (filled_pair ms ts f b)))))"
    by (rule fill_order_split)
  then show ?thesis
    by (simp add: heap_simps stale_fill_update stale_retire filled_pair_def)
qed

lemma stale_walk:
  assumes "walk_level ts cur out b = Some r"
  shows "stale_reads (snd r) = stale_reads b"
  using _ assms
proof (rule walk_level.raw_induct [where P = "\<lambda>ts cur out b r. stale_reads (snd r) = stale_reads b"])
  fix walk ts cur out b r
  assume "\<And>ts cur out b r. walk ts cur out b = Some r \<Longrightarrow> stale_reads (snd r) = stale_reads b"
    and "(if cur \<noteq> 0 \<and> 0 < o_remaining (obj ts b) then
        (case order_map b cur of
           None \<Rightarrow> Some (out, b)
         | Some ms \<Rightarrow>
             let next_id = o_next (obj ms b);
                 fill = min (o_remaining (obj ts b)) (o_remaining (obj ms b));
                 r = fill_order ms ts fill out b
             in walk ts next_id (fst r) (snd r))
      else Some (out, b)) = Some r"
  then show "stale_reads (snd r) = stale_reads b"
    by (auto simp: Let_def stale_fill split: if_splits option.splits)
qed

section \<open>The sweep\<close>

lemma sweep_stop:
  assumes "o_remaining (obj ts b) \<le> 0 \<or> abs b sd = [] \<or>
    price_blocked (o_side (obj ts b)) (o_price (obj ts b)) (fst (hd (abs b sd)))"
  shows "sweep sd ts out b = Some (out, b)"
  using assms by (subst sweep.simps) (auto simp: abs_def split: list.split)


lemma sweep_level:
  assumes "0 < o_remaining (obj ts b)" "ladder_of sd b = (p, l) # lad"
    and "\<not> price_blocked (o_side (obj ts b)) (o_price (obj ts b)) p"
    and "walk_level ts (l_head l) out b = Some (out', b')"
  shows "sweep sd ts out b = sweep sd ts out' (sweep_cleanup sd p b')"
  by (subst sweep.simps) (use assms in simp)

text \<open>No level of a ladder is empty: whatever key the clean-up looks up, it erases nothing.\<close>

lemma cleanup_at_nothing:
  assumes "book_rel X b"
  shows "cleanup_at sd k b = b"
proof (cases "sm_find k (ladder_of sd b)")
  case (Some l)
  then have "\<not> level_empty l" by (rule level_rel_not_empty [OF side_inv_level [OF book_relD(2) [OF assms]]])
  then show ?thesis using Some by (simp add: cleanup_at_def)
qed (simp add: cleanup_at_def)

lemma matched_stale: "matched sd tid ts X b b' \<Longrightarrow> matched sd tid ts X b (b'\<lparr>stale_reads := k\<rparr>)"
proof -
  assume m: "matched sd tid ts X b b'"
  define b2 where "b2 = b'\<lparr>stale_reads := k\<rparr>"
  have f: "order_map b2 = order_map b'" "ladder_of sd' b2 = ladder_of sd' b'" "order_id_seq b2 = order_id_seq b'"
    "order_pool b2 = order_pool b'" "obj s b2 = obj s b'" "callbacks b2 = callbacks b'"
    "bk_symbol b2 = bk_symbol b'" for s sd'
    by (cases sd'; simp add: b2_def obj_def)+
  have o: "ord b2 = ord b'" by (simp add: ord_def fun_eq_iff f)
  have "heap_inv b2" using heap_inv_cong [of b2 b'] matchedD(1) [OF m] by (simp add: f book_rel_def)
  then have "book_rel X b2" using book_rel_frame [of b2 b' X] o f matchedD(1) [OF m] by simp
  then show ?thesis using m by (simp add: matched_def abs_def f o b2_def [symmetric])
qed

lemma sweep_spec:
  assumes "book_rel X b" and "order_map b tid = Some ts" "tid \<in> X"
    and "o_side (obj ts b) = opposite sd" and "abs b sd = al"
    and "n = o_remaining (obj ts b)" "0 \<le> n" and "limit = o_price (obj ts b)"
    and "spec_sweep (opposite sd) limit n al = (n', al', fs)"
  shows "\<exists>trs b'. sweep sd ts out b = Some (out @ trs, b') \<and>
    list_all2 (trade_is tid (opposite sd)) fs trs \<and> matched sd tid ts X b b' \<and>
    o_remaining (obj ts b') = n' \<and> abs b' sd = al' \<and>
    stale_reads b' + length al' = stale_reads b + length al"
  using assms
proof (induction al arbitrary: b n n' al' fs out)
  case Nil
  then show ?case using matched_refl [of X b tid ts sd] by (auto simp: sweep_stop)
next
  case (Cons e al)
  obtain p q where e: "e = (p, q)" by fastforce
  show ?case
  proof (cases "n = 0 \<or> price_blocked (opposite sd) limit p")
    case True
    have "sweep sd ts out b = Some (out, b)"
      by (rule sweep_stop) (use True Cons.prems(4-8) in \<open>auto simp: e\<close>)
    moreover have "n' = n" "al' = e # al" "fs = []" using True Cons.prems(9) by (auto simp: e)
    ultimately show ?thesis
      using Cons.prems matched_refl [of X b tid ts sd] by (intro exI [of _ "[]"] exI [of _ b]) simp
  next
    case False
    then have n: "0 < n" "\<not> price_blocked (opposite sd) limit p" using Cons.prems by auto
    obtain a c d where f: "spec_fill n q = (a, c, d)" by (metis prod_cases3)
    obtain l lad where lad: "ladder_of sd b = (p, l) # lad" and lr: "level_rel (ord b) sd p l (lids (ord b) l)"
      and q: "q = entries (ord b) (lids (ord b) l)" and al: "al = abs_ladder (ord b) lad"
      using abs_head [OF Cons.prems(1), of sd p q al] Cons.prems(5) by (auto simp: e)
    have qne: "q \<noteq> []" using lr by (simp add: q level_rel_def)
    have hd: "l_head l = hd0 (map fst q)" using lr by (simp add: q level_rel_def level_links_def)
    have aq: "abs b sd = put_queue p q al" using Cons.prems(5) qne by (simp add: put_queue_def e)
    obtain trs b1 where w: "walk_level ts (l_head l) out b = Some (out @ trs, b1)"
      and trs: "list_all2 (trade_is tid (opposite sd)) (map (Pair p) d) trs"
      and m1: "matched sd tid ts X b b1" and n1: "o_remaining (obj ts b1) = a"
      and a1: "abs b1 sd = put_queue p c al"
      using walk_level_spec [OF Cons.prems(1-4) aq Cons.prems(6,7) f] unfolding hd by blast
    have sw: "sweep sd ts out b = sweep sd ts (out @ trs) (sweep_cleanup sd p b1)"
      by (rule sweep_level [OF _ lad _ w]) (use n Cons.prems in auto)
    have st1: "stale_reads b1 = stale_reads b" using stale_walk [OF w] by simp
    have a0: "0 \<le> a" "a = 0 \<or> c = []" using spec_fill_nonneg [OF f] spec_fill_done [OF f] n by auto
    show ?thesis
    proof (cases "c = []")
      case False
      then have "abs b1 sd = (p, c) # al" using a1 by (simp add: put_queue_def)
      then obtain l' lad' where l': "ladder_of sd b1 = (p, l') # lad'" "level_rel (ord b1) sd p l' (lids (ord b1) l')"
        by (rule abs_head [OF matchedD(1) [OF m1]])
      then have cl: "sweep_cleanup sd p b1 = b1" by (simp add: sweep_cleanup_def cleanup_at_def level_rel_not_empty)
      have "sweep sd ts (out @ trs) b1 = Some (out @ trs, b1)" using a0 n1 False by (intro sweep_stop) simp
      moreover have "n' = a" "al' = (p, c) # al" "fs = map (Pair p) d"
        using Cons.prems(9) n f False by (auto simp: e)
      ultimately show ?thesis
        using False sw cl trs m1 n1 a1 st1
        by (intro exI [of _ trs] exI [of _ b1]) (simp add: put_queue_def)
    next
      case True
      define b2 where "b2 = b1\<lparr>stale_reads := Suc (stale_reads b1)\<rparr>"
      have m2: "matched sd tid ts X b b2" unfolding b2_def by (rule matched_stale [OF m1])
      have b2: "obj s b2 = obj s b1" "order_map b2 = order_map b1" "ladder_of sd b2 = ladder_of sd b1" for s
        by (simp_all add: b2_def obj_def) (cases sd; simp)
      have "ord b2 = ord b1" by (simp add: ord_def fun_eq_iff b2)
      then have a2: "abs b2 sd = al" using a1 True by (simp add: put_queue_def abs_def b2)
      have "sm_ok (side_lt sd) (ladder_of sd b)" by (rule side_inv_ok [OF book_relD(2) [OF Cons.prems(1)]])
      then have "p \<notin> fst ` set lad" using ladder.ok_distinct [of sd "(p, l) # lad"] by (simp add: lad)
      then have "p \<notin> fst ` set (abs b1 sd)" using a1 True al by (simp add: put_queue_def)
      then have "sm_find p (ladder_of sd b1) = None" by (simp add: abs_def sm_find_None)
      then have "sweep_cleanup sd p b1 = cleanup_at sd (freed_keys b1 (stale_reads b1)) b2" by (simp add: sweep_cleanup_def b2_def)
      then have cl: "sweep_cleanup sd p b1 = b2" by (simp add: cleanup_at_nothing [OF matchedD(1) [OF m2]])
      obtain n2 al2 fs2 where s2: "spec_sweep (opposite sd) limit a al = (n2, al2, fs2)" by (metis prod_cases3)
      note M = matchedD [OF m2]
      have "\<exists>trs' b'. sweep sd ts (out @ trs) b2 = Some ((out @ trs) @ trs', b') \<and>
          list_all2 (trade_is tid (opposite sd)) fs2 trs' \<and> matched sd tid ts X b2 b' \<and>
          o_remaining (obj ts b') = n2 \<and> abs b' sd = al2 \<and>
          stale_reads b' + length al2 = stale_reads b2 + length al"
        by (rule Cons.IH [OF M(1,2) Cons.prems(3) _ a2 _ _ _ s2])
           (use a0 n1 taker_nowD(1,2) [OF M(3)] Cons.prems(4,8) in \<open>auto simp: b2\<close>)
      then obtain trs' b' where "sweep sd ts (out @ trs) b2 = Some (out @ trs @ trs', b')"
        "list_all2 (trade_is tid (opposite sd)) fs2 trs'" "matched sd tid ts X b2 b'"
        "o_remaining (obj ts b') = n2" "abs b' sd = al2"
        "stale_reads b' + length al2 = stale_reads b2 + length al" by auto
      moreover have "n' = n2" "al' = al2" "fs = map (Pair p) d @ fs2"
        using Cons.prems(9) n f True s2 by (auto simp: e)
      moreover have "stale_reads b2 = Suc (stale_reads b)" by (simp add: b2_def st1)
      ultimately show ?thesis
        using sw cl matched_trans [OF m2] list_all2_appendI [OF trs]
        by (intro exI [of _ "trs @ trs'"] exI [of _ b']) auto
    qed
  qed
qed

end
