(* ===== verification/Book_Add.thy ===== *)
theory Book_Add
  imports Book_Match
begin

text \<open>
  \<open>add_order\<close>: the invariant \<open>book_inv\<close> that holds between operations, the exactness of the
  fill-or-kill test, and \<open>add_order_main\<close>, which says what \<open>add_order\<close> does to the abstract book.
\<close>

lemma side_or_opposite: "sd' = sd \<or> sd' = opposite sd"
  by (cases sd; cases sd') simp_all

section \<open>Taking an order that does not rest out of the book\<close>

lemma remove_unrested:
  assumes rel: "book_rel X b" and tid: "order_map b tid = Some s" "tid \<in> X"
    and b': "order_map b' = (order_map b)(tid := None)" "order_pool b' = deallocate s (order_pool b1)"
      "order_id_seq b' = order_id_seq b" "\<And>sd. ladder_of sd b' = ladder_of sd b"
    and b1: "heap_inv b1" "order_map b1 = order_map b" "order_id_seq b1 = order_id_seq b"
      "\<And>s'. obj s' b' = obj s' b1" "\<And>s'. s' \<noteq> s \<Longrightarrow> obj s' b1 = obj s' b"
  shows "book_rel X b'" "abs b' = abs b" "i \<noteq> tid \<Longrightarrow> ord b' i = ord b i"
proof -
  have hi: "heap_inv b'"
    using b1(1) by (rule heap_inv_retire [of _ tid s]) (simp_all add: b' b1 tid)
  have ord': "ord b' = (ord b)(tid := None)"
  proof
    fix j
    have "s' \<noteq> s" if "order_map b j = Some s'" "j \<noteq> tid" for s'
      using that heap_inj_eq [OF heap_invD(2) [OF book_relD(1) [OF rel]] tid(1), of j] by auto
    then show "ord b' j = ((ord b)(tid := None)) j"
      by (cases "order_map b j") (auto simp: ord_def b' b1)
  qed
  then show "i \<noteq> tid \<Longrightarrow> ord b' i = ord b i" by simp
  have out: "tid \<notin> resting b" using tid book_relD(3) [OF rel] by simp
  have frame: "ord b' j = ord b j" if "j \<in> aids (abs_ladder (ord b) (ladder_of sd b))" for j sd
  proof -
    have "j \<in> resting b" using that by (simp add: resting_side [of b sd] abs_def)
    then show ?thesis using out by (auto simp: ord')
  qed
  note si = side_inv_frame [OF book_relD(2) [OF rel] frame]
  show a: "abs b' = abs b" using si(2) by (simp add: abs_def b' fun_eq_iff)
  have "resting b' = dom (order_map b') - X"
    using book_relD(3) [OF rel] tid by (auto simp: resting_def a b')
  then show "book_rel X b'" using hi si(1) by (simp add: book_rel_def b')
qed

section \<open>Resting in the book\<close>

lemma aids_find:
  assumes "sm_ok (side_lt sd) al"
  shows "aids al = fst ` set (case sm_find p al of None \<Rightarrow> [] | Some q \<Rightarrow> q) \<union> aids (sm_erase p al)"
proof -
  have d: "distinct (map fst al)" by (rule ladder.ok_distinct [OF assms])
  show ?thesis
  proof (cases "sm_find p al")
    case None
    moreover have "p \<notin> fst ` set al" using None by (simp add: sm_find_None)
    ultimately show ?thesis by simp
  next
    case (Some q)
    have uniq: "e = (p, q)" if "e \<in> set al" "fst e = p" for e
      using that eq_key_imp_eq_value [OF d sm_find_SomeD [OF Some], of "snd e"] by (metis prod.collapse)
    have "set al = insert (p, q) (set (sm_erase p al))"
      unfolding set_sm_erase using sm_find_SomeD [OF Some] uniq by blast
    then have "aids al = fst ` set q \<union> aids (sm_erase p al)" unfolding aids_def by (rule ssubst) simp
    then show ?thesis using Some by simp
  qed
qed

lemma aids_spec_rest:
  assumes "sm_ok (side_lt sd) al"
  shows "aids (spec_rest sd p i n al) = insert i (aids al)"
  unfolding aids_find [OF assms, of p] spec_rest_def
  using ladder.set_insert [OF assms] by (auto simp: aids_def set_sm_erase)

lemma rest_in_book_spec:
  assumes rel: "book_rel X b" and tid: "order_map b tid = Some s" "tid \<in> X"
    and o1: "rests sd p (obj s b)"
  shows "book_rel (X - {tid}) (rest_in_book sd s b)"
    "abs (rest_in_book sd s b) = (abs b)(sd := spec_rest sd p tid (o_remaining (obj s b)) (abs b sd))"
    "same_data (ord b) (ord (rest_in_book sd s b))"
    "i \<in> X - {tid} \<Longrightarrow> ord (rest_in_book sd s b) i = ord b i"
    "order_map (rest_in_book sd s b) = order_map b" "order_id_seq (rest_in_book sd s b) = order_id_seq b"
    "callbacks (rest_in_book sd s b) = callbacks b" "stale_reads (rest_in_book sd s b) = stale_reads b"
    "fst ` set (ladder_of sd (rest_in_book sd s b)) = insert p (fst ` set (ladder_of sd b))"
    "ladder_of (opposite sd) (rest_in_book sd s b) = ladder_of (opposite sd) b"
proof -
  note hi = book_relD(1) [OF rel] and si = book_relD(2) [OF rel, of sd] and so = book_relD(2) [OF rel, of "opposite sd"]
  have inj: "heap_inj b" by (rule heap_invD(2) [OF hi])
  have oid: "o_id (obj s b) = tid" by (rule heap_invD(5) [OF hi tid(1)])
  have t0: "tid \<noteq> 0" using heap_invD(6) [OF hi tid(1)] by simp
  have pr: "o_price (obj s b) = p" using o1 by (simp add: rests_def)
  define ids where "ids = (case sm_find p (ladder_of sd b) of Some l \<Rightarrow> lids (ord b) l | None \<Rightarrow> [])"
  define lvl where "lvl = (case sm_find p (ladder_of sd b) of Some l \<Rightarrow> l | None \<Rightarrow> default_level)\<lparr>l_price := p\<rparr>"
  have lids_abs: "set ids \<subseteq> aids (abs b sd)"
  proof (cases "sm_find p (ladder_of sd b)")
    case (Some l)
    then show ?thesis using aids_abs_level [OF _ sm_find_SomeD [OF Some], of _ "ord b"] by (auto simp: ids_def abs_def)
  qed (simp add: ids_def)
  have out: "tid \<notin> resting b" using tid book_relD(3) [OF rel] by simp
  have tid_ids: "tid \<notin> set ids" using out lids_abs by (auto simp: resting_side [of b sd])
  have lv: "level_links (ord b) lvl ids" "l_price lvl = p" "l_total_qty lvl = i64 (sum_list (map (rem (ord b)) ids))"
    "\<forall>i \<in> set ids. \<exists>o1. ord b i = Some o1 \<and> rests sd p o1"
  proof -
    have "level_links (ord b) lvl ids \<and> l_price lvl = p \<and> l_total_qty lvl = i64 (sum_list (map (rem (ord b)) ids)) \<and>
        (\<forall>i \<in> set ids. \<exists>o1. ord b i = Some o1 \<and> rests sd p o1)"
    proof (cases "sm_find p (ladder_of sd b)")
      case None
      then show ?thesis by (simp add: lvl_def ids_def default_level_def level_links_def)
    next
      case (Some l)
      then have lr: "level_rel (ord b) sd p l (lids (ord b) l)" by (rule side_inv_level [OF si])
      then have "lvl = l" using Some by (simp add: lvl_def level_rel_def)
      then show ?thesis using lr Some by (simp add: ids_def level_rel_def)
    qed
    then show "level_links (ord b) lvl ids" "l_price lvl = p" "l_total_qty lvl = i64 (sum_list (map (rem (ord b)) ids))"
      "\<forall>i \<in> set ids. \<exists>o1. ord b i = Some o1 \<and> rests sd p o1" by blast+
  qed
  have lnk: "distinct (ids @ [tid])" "0 \<notin> set (ids @ [tid])" "dll (ord b) 0 ids" "l_head lvl = hd0 ids"
    "l_tail lvl = last0 ids" "l_order_count lvl = length ids"
    using lv(1) tid_ids t0 by (auto simp: level_links_def)
  obtain b1 where add: "level_add_order lvl s b = (lvl\<lparr>l_head := hd0 (ids @ [tid]), l_tail := tid,
            l_total_qty := i64 (l_total_qty lvl + o_remaining (obj s b)),
            l_order_count := length (ids @ [tid])\<rparr>, b1)"
    and d1: "dll (ord b1) 0 (ids @ [tid])" and sd1: "same_data (ord b) (ord b1)"
    and fr1: "\<And>j. j \<notin> set (ids @ [tid]) \<Longrightarrow> ord b1 j = ord b j" and ho: "heap_only b b1"
    using level_add_links [OF inj tid(1) oid lnk(3,1,2,4,5,6)] by metis
  define lvl1 where "lvl1 = lvl\<lparr>l_head := hd0 (ids @ [tid]), l_tail := tid,
            l_total_qty := i64 (l_total_qty lvl + o_remaining (obj s b)),
            l_order_count := length (ids @ [tid])\<rparr>"
  note H = heap_only_frame [OF ho]
  have eq: "rest_in_book sd s b = put_level sd p lvl1 b1"
    using add by (simp add: rest_in_book_def pr lvl_def [symmetric] lvl1_def Let_def)
  have remt: "rem (ord b) tid = o_remaining (obj s b)" using ord_slot [OF tid(1)] by (simp add: rem_def)
  have rem1: "rem (ord b1) j = rem (ord b) j" for j by (rule same_data_rem [OF sd1])
  have lr1: "level_rel (ord b1) sd p lvl1 (ids @ [tid])"
  proof -
    have "\<exists>o2. ord b1 j = Some o2 \<and> rests sd p o2" if "j \<in> set (ids @ [tid])" for j
      using that lv(4) o1 ord_slot [OF tid(1)] same_data_rests [OF sd1, of j] by auto
    moreover have "i64 (sum_list (map (rem (ord b1)) (ids @ [tid]))) = l_total_qty lvl1"
      using lv(3) remt sum_rem_cong [of ids "ord b1" "ord b"] by (simp add: rem1 lvl1_def)
    ultimately show ?thesis using d1 lnk lv by (simp add: level_rel_def level_links_def lvl1_def)
  qed
  have fr: "ord b1 j = ord b j" if "j \<in> aids (abs_ladder (ord b) (sm_erase p (ladder_of sd b)))" for j
  proof -
    have "side_inv (ord b) sd (sm_erase p (ladder_of sd b))" using side_inv_erase(1) [OF si] by simp
    from aids_rests [OF this that] obtain p' o' where
      o': "ord b j = Some o'" "rests sd p' o'" "p' \<in> fst ` set (sm_erase p (ladder_of sd b))" by auto
    then have "j \<notin> set ids" using lv(4) by (fastforce simp: rests_def set_sm_erase)
    moreover have "j \<in> resting b"
      using that by (force simp: resting_side [of b sd] abs_def aids_def set_sm_erase erase_abs [symmetric])
    then have "j \<noteq> tid" using out by auto
    ultimately show ?thesis using fr1 by simp
  qed
  note sp = side_inv_put [OF si lr1 fr]
  have so1: "side_inv (ord b1) (opposite sd) (ladder_of (opposite sd) b)"
    "abs_ladder (ord b1) (ladder_of (opposite sd) b) = abs b (opposite sd)"
  proof -
    have "ord b1 j = ord b j" if "j \<in> aids (abs_ladder (ord b) (ladder_of (opposite sd) b))" for j
    proof -
      have "j \<notin> aids (abs b sd)" using aids_sides_disjoint [OF si so] that by (auto simp: abs_def)
      moreover have "j \<noteq> tid" using out that by (auto simp: resting_side [of b sd] abs_def)
      ultimately show ?thesis using fr1 lids_abs by auto
    qed
    note sf = side_inv_frame [OF so this]
    show "side_inv (ord b1) (opposite sd) (ladder_of (opposite sd) b)" by (rule sf(1))
    show "abs_ladder (ord b1) (ladder_of (opposite sd) b) = abs b (opposite sd)"
      using sf(2) by (simp add: abs_def)
  qed
  have ent: "entries (ord b1) (ids @ [tid]) = entries (ord b) ids @ [(tid, o_remaining (obj s b))]"
    by (simp add: rem1 remt entries_cong [of ids "ord b1" "ord b"])
  have af: "(case sm_find p (abs b sd) of None \<Rightarrow> [] | Some q \<Rightarrow> q) = entries (ord b) ids"
    by (cases "sm_find p (ladder_of sd b)") (simp_all add: abs_def abs_find ids_def)
  have a_sd: "abs (rest_in_book sd s b) sd = spec_rest sd p tid (o_remaining (obj s b)) (abs b sd)"
    using sp(2) unfolding spec_rest_def af ent [symmetric] by (simp add: abs_def eq heap_simps H)
  have a_o: "abs (rest_in_book sd s b) (opposite sd) = abs b (opposite sd)"
    using so1(2) by (simp add: abs_def eq heap_simps H)
  show a: "abs (rest_in_book sd s b) = (abs b)(sd := spec_rest sd p tid (o_remaining (obj s b)) (abs b sd))"
  proof
    fix sd'
    show "abs (rest_in_book sd s b) sd' = ((abs b)(sd := spec_rest sd p tid (o_remaining (obj s b)) (abs b sd))) sd'"
      using a_sd a_o side_or_opposite [of sd' sd] by auto
  qed
  show "same_data (ord b) (ord (rest_in_book sd s b))" using sd1 by (simp add: eq heap_simps)
  show "ord (rest_in_book sd s b) i = ord b i" if i: "i \<in> X - {tid}"
  proof -
    have "i \<notin> resting b" using i book_relD(3) [OF rel] by simp
    then have "i \<notin> set (ids @ [tid])" using i lids_abs by (auto simp: resting_side [of b sd])
    then show ?thesis using fr1 by (simp add: eq heap_simps)
  qed
  show "order_map (rest_in_book sd s b) = order_map b" "order_id_seq (rest_in_book sd s b) = order_id_seq b"
    "callbacks (rest_in_book sd s b) = callbacks b" "stale_reads (rest_in_book sd s b) = stale_reads b"
    "fst ` set (ladder_of sd (rest_in_book sd s b)) = insert p (fst ` set (ladder_of sd b))"
    "ladder_of (opposite sd) (rest_in_book sd s b) = ladder_of (opposite sd) b"
    by (simp_all add: eq heap_simps H ladder.fst_set_insert)
  show "book_rel (X - {tid}) (rest_in_book sd s b)"
  proof (rule book_relI)
    have "heap_inv b1" by (rule heap_inv_same_data [OF hi ho sd1])
    then show "heap_inv (rest_in_book sd s b)"
      using heap_inv_cong [of "rest_in_book sd s b" b1] by (simp add: eq heap_simps)
    show "side_inv (ord (rest_in_book sd s b)) sd (ladder_of sd (rest_in_book sd s b))"
      using sp(1) by (simp add: eq heap_simps H)
    show "side_inv (ord (rest_in_book sd s b)) (opposite sd) (ladder_of (opposite sd) (rest_in_book sd s b))"
      using so1(1) by (simp add: eq heap_simps H)
    have "aids (spec_rest sd p tid (o_remaining (obj s b)) (abs b sd)) = insert tid (aids (abs b sd))"
      by (rule aids_spec_rest) (use side_inv_ok [OF si] in \<open>simp add: abs_def\<close>)
    then show "resting (rest_in_book sd s b) = dom (order_map (rest_in_book sd s b)) - (X - {tid})"
      using book_relD(3) [OF rel] tid unfolding resting_side [of _ sd] a_sd a_o by (auto simp: eq heap_simps H)
  qed
qed

section \<open>The invariant between operations\<close>

definition unrested :: "book \<Rightarrow> order_id set" where
  "unrested b = {i. \<exists>o1. ord b i = Some o1 \<and> o_type o1 \<noteq> LIMIT}"

definition prices_ok :: "book \<Rightarrow> bool" where
  "prices_ok b \<longleftrightarrow> (\<forall>sd. \<forall>p \<in> fst ` set (ladder_of sd b). 0 < p \<and> p < INT64_MAX)"

definition uncrossed :: "book \<Rightarrow> bool" where
  "uncrossed b \<longleftrightarrow> (\<forall>p \<in> fst ` set (bid_ladder b). \<forall>q \<in> fst ` set (ask_ladder b). p < q)"

text \<open>
  The orders that are in \<open>order_map\<close> and rest nowhere: post-only orders, and market orders, which carry
  a limit outside the range of the resting prices.
\<close>

definition left_over :: "order \<Rightarrow> bool" where
  "left_over o1 \<longleftrightarrow> o_prev o1 = 0 \<and> o_next o1 = 0 \<and> (o_type o1 = POST_ONLY \<or>
     o_type o1 = MARKET \<and> o_price o1 = (if o_side o1 = BUY then INT64_MAX else INT64_MIN))"

definition market_ok :: "book \<Rightarrow> bool" where
  "market_ok b \<longleftrightarrow> (\<forall>i o1. ord b i = Some o1 \<longrightarrow> o_type o1 \<noteq> LIMIT \<longrightarrow> left_over o1)"

definition book_inv :: "book \<Rightarrow> bool" where
  "book_inv b \<longleftrightarrow> book_rel (unrested b) b \<and> prices_ok b \<and> uncrossed b \<and> market_ok b"

lemma uncrossed_blocked:
  "uncrossed b \<longleftrightarrow> (\<forall>p \<in> fst ` set (ladder_of sd b). \<forall>q \<in> fst ` set (ladder_of (opposite sd) b).
     price_blocked sd p q)"
  by (cases sd) (auto simp: uncrossed_def price_blocked_def)

lemma book_rel_unrested:
  assumes "book_rel X b" and "\<And>i o1. i \<in> X \<Longrightarrow> ord b i = Some o1 \<Longrightarrow> o_type o1 \<noteq> LIMIT"
  shows "book_rel (unrested b) b"
proof -
  have "i \<in> dom (order_map b) \<Longrightarrow> i \<in> X \<longleftrightarrow> i \<in> unrested b" for i
  proof
    assume i: "i \<in> dom (order_map b)" "i \<in> unrested b"
    show "i \<in> X"
    proof (rule ccontr)
      assume "i \<notin> X"
      then have "i \<in> aids (abs b BUY) \<or> i \<in> aids (abs b SELL)"
        using i book_relD(3) [OF assms(1)] by (auto simp: resting_def)
      then obtain sd where "i \<in> aids (abs_ladder (ord b) (ladder_of sd b))"
        unfolding abs_def by blast
      from aids_rests [OF book_relD(2) [OF assms(1)] this] i(2) show False
        by (auto simp: unrested_def rests_def)
    qed
  qed (use assms(2) in \<open>auto simp: unrested_def dom_ord [symmetric]\<close>)
  then show ?thesis using assms(1) by (auto simp: book_rel_def)
qed

section \<open>What a fill leaves\<close>

lemma spec_fill_amount:
  assumes "spec_fill n q = (n', q', fs)" and "0 \<le> n" and "\<forall>e \<in> set q. 0 < snd e"
  shows "n' = (if n \<le> queue_qty q then 0 else n - queue_qty q)" "queue_qty q \<le> n \<longleftrightarrow> q' = []"
proof -
  have q: "n' + sum_list (map snd fs) = n" "queue_qty q' + sum_list (map snd fs) = queue_qty q"
    using spec_fill_qty [OF assms(1)] .
  have d: "n' = 0 \<or> q' = []" "0 \<le> n'" using spec_fill_done [OF assms(1,2)] spec_fill_nonneg [OF assms(1,2)] .
  have pos: "q' \<noteq> [] \<Longrightarrow> 0 < queue_qty q'"
  proof -
    assume "q' \<noteq> []"
    then obtain e q2 where e: "q' = e # q2" by (cases q') auto
    have "\<forall>e \<in> set q'. 0 < snd e" using spec_fill_ok [OF assms(1,3)] by simp
    then show ?thesis using sum_list_nonneg [of "map snd q2"] by (fastforce simp: e queue_qty_def)
  qed
  have "q' = [] \<Longrightarrow> queue_qty q' = 0" by (simp add: queue_qty_def)
  then show "n' = (if n \<le> queue_qty q then 0 else n - queue_qty q)" "queue_qty q \<le> n \<longleftrightarrow> q' = []"
    using q d pos by (cases "q' = []"; auto)+
qed

section \<open>Adding an order\<close>

lemma new_order_facts:
  fixes b :: book and s :: nat and pool1 :: "order mpool"
  assumes rel: "book_rel X b" and al: "allocate default_order (order_pool b) = (Some s, pool1)"
    and seq: "order_id_seq b < 2 ^ 64 - 1"
    and b1: "b1 = new_order sd tp p qty exch s (b\<lparr>order_pool := pool1\<rparr>)"
  shows "obj s b1 = init_order (order_id_seq b + 1) (clock b 0) sd tp p qty exch (bk_symbol b) default_order"
    "s' \<noteq> s \<Longrightarrow> obj s' b1 = obj s' b" "order_map b1 = order_map b" "ladder_of sd' b1 = ladder_of sd' b"
    "order_id_seq b1 = order_id_seq b + 1" "free_slots (order_pool b1) = free_slots (order_pool b) - {s}"
    "pool_ok MAX_ORDERS (order_pool b1)" "s \<in> free_slots (order_pool b)" "s < MAX_ORDERS"
    "stale_reads b1 = stale_reads b" "callbacks b1 = callbacks b" "bk_symbol b1 = bk_symbol b"
    "ord b1 = ord b" "order_map b (order_id_seq b + 1) = None" "s \<notin> ran (order_map b)"
    "order_map b j = Some s' \<Longrightarrow> obj s' b1 = obj s' b"
proof -
  note hi = book_relD(1) [OF rel]
  note A = allocate_Some [OF heap_invD(1) [OF hi] al]
  have seq': "Suc (order_id_seq b) mod 18446744073709551616 = Suc (order_id_seq b)" using seq by simp
  show o: "obj s b1 = init_order (order_id_seq b + 1) (clock b 0) sd tp p qty exch (bk_symbol b) default_order"
    by (simp add: b1 new_order_def next_order_id_def now_ns_def Let_def seq' upd_obj_def obj_def A(4))
  show os: "obj s' b1 = obj s' b" if "s' \<noteq> s" for s'
    using that by (simp add: b1 new_order_def next_order_id_def now_ns_def Let_def upd_obj_def obj_def A(4))
  show om: "order_map b1 = order_map b" "ladder_of sd' b1 = ladder_of sd' b"
    "order_id_seq b1 = order_id_seq b + 1" "free_slots (order_pool b1) = free_slots (order_pool b) - {s}"
    "pool_ok MAX_ORDERS (order_pool b1)" "stale_reads b1 = stale_reads b" "callbacks b1 = callbacks b"
    "bk_symbol b1 = bk_symbol b"
    using A(2,3) seq'
    by (simp_all add: b1 new_order_def next_order_id_def now_ns_def Let_def heap_simps)
      (cases sd'; simp)
  show "s \<in> free_slots (order_pool b)" by (rule A(1))
  then show "s < MAX_ORDERS" and out: "s \<notin> ran (order_map b)"
    using heap_invD(1,4) [OF hi] by (auto simp: pool_ok_def ran_def)
  show obj1: "obj s' b1 = obj s' b" if "order_map b j = Some s'" for j s'
    by (rule os) (use out that in \<open>auto simp: ran_def\<close>)
  show "ord b1 = ord b"
    by (auto simp: ord_def fun_eq_iff om(1) map_option_case obj1 split: option.split)
  show "order_map b (order_id_seq b + 1) = None"
    using heap_invD(7) [OF hi, of "order_id_seq b + 1"] by (cases "order_map b (order_id_seq b + 1)") auto
qed

lemma add_started:
  assumes rel: "book_rel X b" and al: "allocate default_order (order_pool b) = (Some s, pool1)"
    and seq: "order_id_seq b < 2 ^ 64 - 1"
    and b1: "b1 = new_order sd tp p qty exch s (b\<lparr>order_pool := pool1\<rparr>)"
    and b3: "b3 = upd_stats f (map_emplace (order_id_seq b + 1) s b1)"
  shows "book_rel (insert (order_id_seq b + 1) X) b3" "abs b3 = abs b"
    "order_map b3 = (order_map b)(order_id_seq b + 1 \<mapsto> s)" "obj s b3 = obj s b1"
    "ladder_of sd' b3 = ladder_of sd' b" "order_id_seq b3 = order_id_seq b + 1"
    "ord b3 = (ord b)(order_id_seq b + 1 \<mapsto> obj s b1)" "stale_reads b3 = stale_reads b"
proof -
  define oid where "oid = order_id_seq b + 1"
  note hi = book_relD(1) [OF rel]
  note N = new_order_facts [OF rel al seq b1]
  define b2 where "b2 = b1\<lparr>order_map := (order_map b)(oid \<mapsto> s)\<rparr>"
  have b3': "b3 = upd_stats f b2"
    using N(3,14) by (simp add: b3 map_emplace_def oid_def b2_def)
  have b2: "order_map b2 = (order_map b)(oid \<mapsto> s)" "ladder_of sd' b2 = ladder_of sd' b1"
    "order_pool b2 = order_pool b1" "order_id_seq b2 = order_id_seq b1" "obj s' b2 = obj s' b1"
    "stale_reads b2 = stale_reads b1" for s' sd'
    by (simp_all add: b2_def obj_def) (cases sd'; simp)
  show om: "order_map b3 = (order_map b)(order_id_seq b + 1 \<mapsto> s)" and os: "obj s b3 = obj s b1"
    and ol: "ladder_of sd' b3 = ladder_of sd' b" and "order_id_seq b3 = order_id_seq b + 1"
    and "stale_reads b3 = stale_reads b" for sd'
    by (simp_all add: b3' heap_simps b2 N(3-12) oid_def)
  show ord3: "ord b3 = (ord b)(order_id_seq b + 1 \<mapsto> obj s b1)"
    by (auto simp: b3' ord_def fun_eq_iff heap_simps b2 oid_def map_option_case N(16) split: option.split)
  have out: "oid \<notin> resting b" using N(14) book_relD(3) [OF rel] by (auto simp: oid_def)
  have frame: "ord b3 j = ord b j" if "j \<in> aids (abs_ladder (ord b) (ladder_of sd b))" for j sd
  proof -
    have "j \<in> resting b" using that by (simp add: resting_side [of b sd] abs_def)
    then show ?thesis using out by (auto simp: ord3 oid_def)
  qed
  note si = side_inv_frame [OF book_relD(2) [OF rel] frame]
  show a: "abs b3 = abs b" using si(2) by (simp add: abs_def ol fun_eq_iff)
  have "resting b3 = dom (order_map b3) - insert oid X"
    using book_relD(3) [OF rel] out by (auto simp: resting_def a om oid_def)
  moreover have "heap_inv b3"
  proof -
    have obj3: "obj s' b3 = obj s' b" if "s' \<noteq> s" for s' using N(2) [OF that] by (simp add: b3' heap_simps b2)
    have "o_id (obj s b3) = oid" by (simp add: os N(1) init_order_def oid_def)
    moreover have "s' \<noteq> s" if "order_map b j = Some s'" for j s' using that N(15) by (auto simp: ran_def)
    moreover have "inj_on (order_map b3) (dom (order_map b3))"
      using heap_invD(2) [OF hi] N(15) by (auto simp: om inj_on_def dom_def ran_def)
    moreover have "free_slots (order_pool b3) = free_slots (order_pool b) - {s}" "pool_ok MAX_ORDERS (order_pool b3)"
      by (simp_all add: b3' heap_simps b2 N)
    moreover have "ran (order_map b3) = insert s (ran (order_map b))" using N(14) by (simp add: om)
    moreover note heap_invD(3-8) [OF hi] N(9)
    ultimately show ?thesis
      unfolding heap_inv_def using obj3 \<open>order_id_seq b3 = order_id_seq b + 1\<close>
      by (auto simp: om oid_def le_Suc_eq split: if_splits)
  qed
  ultimately show "book_rel (insert (order_id_seq b + 1) X) b3"
    using si(1) by (simp add: book_rel_def ol oid_def)
qed

text \<open>Whether the incoming order is still in \<open>order_map\<close> when \<open>add_order\<close> returns.\<close>

definition stays :: "order_type \<Rightarrow> quantity \<Rightarrow> bool \<Rightarrow> bool" where
  "stays tp n filled \<longleftrightarrow>
     (if tp = POST_ONLY \<and> filled then n = 0 else 0 < n \<and> tp \<noteq> IOC \<and> tp \<noteq> FOK)"

lemma book_quiet:
  assumes "ord b' = ord b" "order_map b' = order_map b" "order_id_seq b' = order_id_seq b"
    "order_pool b' = order_pool b" "\<And>sd. ladder_of sd b' = ladder_of sd b" "book_rel X b"
  shows "book_rel X b'" "abs b' = abs b"
proof -
  have "heap_inv b'" using book_relD(1) [OF assms(6)] heap_inv_cong [of b' b] assms by (simp add: obj_def)
  then show "book_rel X b'" using book_rel_frame [OF _ assms(2,5,1,6)] by simp
  show "abs b' = abs b" by (simp add: abs_def assms fun_eq_iff)
qed

lemma after_match_spec:
  assumes rel: "book_rel (insert oid U) b" and U: "oid \<notin> U" and om: "order_map b oid = Some s"
    and o1: "o_id (obj s b) = oid" "o_side (obj s b) = sd" "o_type (obj s b) = tp"
      "is_active (obj s b) \<longleftrightarrow> 0 < n" "o_remaining (obj s b) = n" "0 \<le> n"
    and r: "after_match sd tp s oid trs b = (r, b')"
  shows "abs b' = (if tp = LIMIT \<and> 0 < n
        then (abs b)(sd := spec_rest sd (o_price (obj s b)) oid n (abs b sd)) else abs b)"
    "book_rel (if tp = LIMIT \<and> 0 < n then U else insert oid U) b'"
    "\<And>i. i \<in> U \<Longrightarrow> ord b' i = ord b i" "order_id_seq b' = order_id_seq b" "stale_reads b' = stale_reads b"
    "r = (if tp = POST_ONLY \<and> trs \<noteq> [] then \<lparr>ar_id = oid, ar_accepted = False, ar_fills = []\<rparr>
          else \<lparr>ar_id = oid, ar_accepted = True, ar_fills = trs\<rparr>)"
    "oid \<in> dom (order_map b') \<longleftrightarrow> stays tp n (trs \<noteq> [])"
    "tp \<noteq> LIMIT \<Longrightarrow> ord b' oid = Some o2 \<Longrightarrow> o2 = obj s b"
proof -
  let ?goal = "\<lambda>b'. abs b' = (if tp = LIMIT \<and> 0 < n
        then (abs b)(sd := spec_rest sd (o_price (obj s b)) oid n (abs b sd)) else abs b) \<and>
    book_rel (if tp = LIMIT \<and> 0 < n then U else insert oid U) b' \<and>
    (\<forall>i \<in> U. ord b' i = ord b i) \<and> order_id_seq b' = order_id_seq b \<and> stale_reads b' = stale_reads b \<and>
    (oid \<in> dom (order_map b') \<longleftrightarrow> stays tp n (trs \<noteq> [])) \<and>
    (tp \<noteq> LIMIT \<longrightarrow> (\<forall>o2. ord b' oid = Some o2 \<longrightarrow> o2 = obj s b))"
  have nolimit: "?goal b'" if same: "ord b' = ord b" "order_map b' = order_map b" "order_id_seq b' = order_id_seq b"
      "order_pool b' = order_pool b" "\<And>sd. ladder_of sd b' = ladder_of sd b" "stale_reads b' = stale_reads b"
      and st: "stays tp n (trs \<noteq> [])" and lim: "\<not> (tp = LIMIT \<and> 0 < n)" for b'
  proof -
    note Q = book_quiet [OF same(1-5) rel]
    have "ord b oid = Some (obj s b)" by (rule ord_slot [OF om])
    then show ?thesis using Q st lim om o1(3) by (auto simp: same)
  qed
  have removed: "?goal b'" if b': "order_map b' = (order_map b)(oid := None)" "order_pool b' = deallocate s (order_pool b1)"
      "order_id_seq b' = order_id_seq b" "\<And>sd. ladder_of sd b' = ladder_of sd b" "stale_reads b' = stale_reads b"
      and b1: "heap_inv b1" "order_map b1 = order_map b" "order_id_seq b1 = order_id_seq b"
      "\<And>s'. obj s' b' = obj s' b1" "\<And>s'. s' \<noteq> s \<Longrightarrow> obj s' b1 = obj s' b"
      and st: "\<not> stays tp n (trs \<noteq> [])" and lim: "\<not> (tp = LIMIT \<and> 0 < n)" for b' b1
  proof -
    note R = remove_unrested [OF rel om _ b'(1-4) b1, simplified]
    have "ord b' oid = None" by (simp add: ord_def b')
    moreover have "\<forall>i \<in> U. ord b' i = ord b i" using R(3) U by metis
    ultimately show ?thesis using R(1,2) st lim b'(1,3,5) by auto
  qed
  define st where "st = (\<lambda>o1. o1\<lparr>o_status := FILLED\<rparr> :: order)"
  have hi1: "heap_inv (upd_obj s st b)"
    using book_relD(1) [OF rel] heap_inv_cong [of "upd_obj s st b" b] by (simp add: heap_simps st_def)
  have g: "?goal b' \<and> r = (if tp = POST_ONLY \<and> trs \<noteq> [] then \<lparr>ar_id = oid, ar_accepted = False, ar_fills = []\<rparr>
          else \<lparr>ar_id = oid, ar_accepted = True, ar_fills = trs\<rparr>)"
  proof -
    consider (post) "tp = POST_ONLY" "trs \<noteq> []" "0 < n" | (leak) "tp = POST_ONLY" "trs \<noteq> []" "n = 0"
      | (full) "\<not> (tp = POST_ONLY \<and> trs \<noteq> [])" "n = 0"
      | (ioc) "\<not> (tp = POST_ONLY \<and> trs \<noteq> [])" "0 < n" "tp = IOC \<or> tp = FOK"
      | (rest) "0 < n" "tp = LIMIT"
      | (left) "\<not> (tp = POST_ONLY \<and> trs \<noteq> [])" "0 < n" "tp \<noteq> IOC" "tp \<noteq> FOK" "tp \<noteq> LIMIT"
      using o1(6) by fastforce
    then show ?thesis
    proof cases
      case post
      have "b' = dealloc s (map_erase oid b)"
        using r post o1 by (simp add: after_match_def)
      then have "?goal b'"
        using book_relD(1) [OF rel] by (intro removed [of _ b]) (use post in \<open>simp_all add: heap_simps stays_def\<close>)
      then show ?thesis using r post by (auto simp: after_match_def)
    next
      case leak
      have "b' = b" using r leak o1 by (simp add: after_match_def)
      then have "?goal b'" by (intro nolimit) (use leak in \<open>simp_all add: stays_def\<close>)
      then show ?thesis using r leak by (auto simp: after_match_def)
    next
      case full
      have b': "b' = notify_bbo (dealloc s (notify (On_order_filled (st (obj s b)))
          (upd_stats (\<lambda>st. st\<lparr>orders_filled := orders_filled st + 1\<rparr>) (map_erase oid (upd_obj s st b)))))"
        using r full o1 by (auto simp: after_match_def Let_def st_def heap_simps)
      have "?goal b'"
        unfolding b' by (intro removed [of _ "upd_obj s st b"] hi1) (use full in \<open>simp_all add: heap_simps stays_def\<close>)
      then show ?thesis using r full o1 by (auto simp: after_match_def Let_def)
    next
      case ioc
      have b': "b' = notify_bbo (dealloc s (map_erase oid b))"
        using r ioc o1 by (auto simp: after_match_def Let_def)
      have "?goal b'"
        unfolding b' by (intro removed [of _ b]) (use ioc book_relD(1) [OF rel] in \<open>auto simp: heap_simps stays_def\<close>)
      then show ?thesis using r ioc o1 by (auto simp: after_match_def Let_def)
    next
      case rest
      define b1 where "b1 = rest_in_book sd s b"
      have b': "b' = notify_bbo (notify (On_order_added (obj s b1)) b1)"
        using r rest o1 by (auto simp: after_match_def Let_def b1_def)
      have "rests sd (o_price (obj s b)) (obj s b)" using o1 rest by (simp add: rests_def)
      note R = rest_in_book_spec [OF rel om insertI1 this, folded b1_def]
      have Q: "book_rel U b'" "abs b' = abs b1"
        using book_quiet [of b' b1 U] R(1) U by (simp_all add: b' heap_simps)
      have "\<forall>i \<in> U. ord b' i = ord b i" using R(4) U by (auto simp: b' heap_simps)
      then have "?goal b'"
        using Q rest R o1(5) om by (simp add: b' heap_simps stays_def domIff)
      then show ?thesis using r rest o1 by (auto simp: after_match_def Let_def)
    next
      case left
      have "b' = b" using r left o1 by (auto simp: after_match_def Let_def)
      then have "?goal b'" by (intro nolimit) (use left in \<open>simp_all add: stays_def\<close>)
      then show ?thesis using r left o1 by (auto simp: after_match_def Let_def)
    qed
  qed
  show "abs b' = (if tp = LIMIT \<and> 0 < n
        then (abs b)(sd := spec_rest sd (o_price (obj s b)) oid n (abs b sd)) else abs b)"
    "book_rel (if tp = LIMIT \<and> 0 < n then U else insert oid U) b'"
    "\<And>i. i \<in> U \<Longrightarrow> ord b' i = ord b i" "order_id_seq b' = order_id_seq b" "stale_reads b' = stale_reads b"
    "r = (if tp = POST_ONLY \<and> trs \<noteq> [] then \<lparr>ar_id = oid, ar_accepted = False, ar_fills = []\<rparr>
          else \<lparr>ar_id = oid, ar_accepted = True, ar_fills = trs\<rparr>)"
    "oid \<in> dom (order_map b') \<longleftrightarrow> stays tp n (trs \<noteq> [])"
    "tp \<noteq> LIMIT \<Longrightarrow> ord b' oid = Some o2 \<Longrightarrow> o2 = obj s b"
    using g by blast+
qed

section \<open>What adding an order does to the abstract book\<close>

definition effective_price :: "side \<Rightarrow> order_type \<Rightarrow> price \<Rightarrow> price" where
  "effective_price sd tp p = (if tp = MARKET then if sd = BUY then INT64_MAX else INT64_MIN else p)"

definition spec_take :: "side \<Rightarrow> order_type \<Rightarrow> price \<Rightarrow> quantity \<Rightarrow> order_id \<Rightarrow> (side \<Rightarrow> aladder) \<Rightarrow>
    quantity \<times> (side \<Rightarrow> aladder) \<times> afill list" where
  "spec_take sd tp p qty i A =
     (case spec_sweep sd (effective_price sd tp p) qty (A (opposite sd)) of (n, al, fs) \<Rightarrow>
        (n, (if tp = LIMIT \<and> 0 < n then A(opposite sd := al, sd := spec_rest sd p i n (A sd))
             else A(opposite sd := al)), fs))"

text \<open>The arguments \<open>add_order\<close> does not reject at once, and the bounds on ids and prices.\<close>

definition order_ok :: "order_type \<Rightarrow> price \<Rightarrow> quantity \<Rightarrow> bool" where
  "order_ok tp p qty \<longleftrightarrow> 0 < qty \<and> (tp = LIMIT \<longrightarrow> 0 < p \<and> p < INT64_MAX)"

lemma fst_abs: "fst ` set (abs b sd) = fst ` set (ladder_of sd b)"
  by (simp add: abs_def)

lemma prices_abs: "prices_ok b \<longleftrightarrow> (\<forall>sd. \<forall>p \<in> fst ` set (abs b sd). 0 < p \<and> p < INT64_MAX)"
  by (simp add: prices_ok_def fst_abs)

lemma uncrossed_abs: "uncrossed b \<longleftrightarrow> (\<forall>p \<in> fst ` set (abs b sd). \<forall>q \<in> fst ` set (abs b (opposite sd)).
     price_blocked sd p q)"
  by (simp add: uncrossed_blocked [of b sd] fst_abs)

lemma price_blocked_trans: "price_blocked sd p q \<Longrightarrow> side_lt (opposite sd) q q' \<Longrightarrow> price_blocked sd p q'"
  by (cases sd) (auto simp: price_blocked_def)

lemma spec_take_prices:
  assumes t: "spec_take sd tp p qty i A = (n, A', fs)" and q: "0 \<le> qty"
    and ok: "sm_ok (side_lt (opposite sd)) (A (opposite sd))"
    and un: "\<forall>x \<in> fst ` set (A sd). \<forall>y \<in> fst ` set (A (opposite sd)). price_blocked sd x y"
  shows "fst ` set (A' sd) \<subseteq> (if tp = LIMIT then insert p (fst ` set (A sd)) else fst ` set (A sd))"
    "fst ` set (A' (opposite sd)) \<subseteq> fst ` set (A (opposite sd))"
    "\<forall>x \<in> fst ` set (A' sd). \<forall>y \<in> fst ` set (A' (opposite sd)). price_blocked sd x y"
proof -
  obtain m al gs where s: "spec_sweep sd (effective_price sd tp p) qty (A (opposite sd)) = (m, al, gs)"
    by (metis prod_cases3)
  have A': "n = m" "A' (opposite sd) = al"
    "A' sd = (if tp = LIMIT \<and> 0 < n then spec_rest sd p i n (A sd) else A sd)"
    using t s by (auto simp: spec_take_def split: if_splits)
  have rest: "fst ` set (spec_rest sd p i n (A sd)) = insert p (fst ` set (A sd))"
    by (simp add: spec_rest_def ladder.fst_set_insert)
  show "fst ` set (A' sd) \<subseteq> (if tp = LIMIT then insert p (fst ` set (A sd)) else fst ` set (A sd))"
    using A' rest by auto
  show sub: "fst ` set (A' (opposite sd)) \<subseteq> fst ` set (A (opposite sd))"
    using spec_sweep_sub [OF s] A' by auto
  have new: "price_blocked sd p y" if "tp = LIMIT" "0 < n" "y \<in> fst ` set al" for y
  proof -
    have "price_blocked sd p (fst (hd al))"
      using spec_sweep_done [OF s q] that A'(1) by (auto simp: effective_price_def)
    moreover have "sm_ok (side_lt (opposite sd)) al" by (rule spec_sweep_sm_ok [OF s ok])
    ultimately show ?thesis
      using that(3) price_blocked_trans by (cases al) (fastforce simp: ladder.ok_Cons)+
  qed
  show "\<forall>x \<in> fst ` set (A' sd). \<forall>y \<in> fst ` set (A' (opposite sd)). price_blocked sd x y"
  proof (intro ballI)
    fix x y assume x: "x \<in> fst ` set (A' sd)" and y: "y \<in> fst ` set (A' (opposite sd))"
    show "price_blocked sd x y"
    proof (cases "x \<in> fst ` set (A sd)")
      case True
      then show ?thesis using un sub y by blast
    next
      case False
      then have "x = p" "tp = LIMIT" "0 < n" using x A'(3) rest by (simp_all split: if_splits)
      then show ?thesis using new y A'(2) by simp
    qed
  qed
qed

lemma fills_nonempty: "list_all2 P fs trs \<Longrightarrow> trs \<noteq> [] \<longleftrightarrow> fs \<noteq> []"
  by (cases trs; cases fs) auto

lemma add_order_main:
  assumes inv: "book_inv b" and ok: "order_ok tp p qty" and seq: "order_id_seq b < 2 ^ 64 - 1"
    and al: "allocate default_order (order_pool b) = (Some s, pool1)"
    and fok: "tp = FOK \<Longrightarrow> can_fill_fok sd p qty b"
    and sp: "spec_take sd tp p qty (order_id_seq b + 1) (abs b) = (n, A', fs)"
  shows "\<exists>r b'. add_order sd tp p qty exch b = Some (r, b') \<and> book_inv b' \<and> abs b' = A' \<and>
    ar_id r = order_id_seq b + 1 \<and> (ar_accepted r \<longleftrightarrow> \<not> (tp = POST_ONLY \<and> fs \<noteq> [])) \<and>
    (ar_accepted r \<longrightarrow> list_all2 (trade_is (order_id_seq b + 1) sd) fs (ar_fills r)) \<and>
    (\<not> ar_accepted r \<longrightarrow> ar_fills r = []) \<and> order_id_seq b' = order_id_seq b + 1 \<and>
    (order_id_seq b + 1 \<in> dom (order_map b') \<longleftrightarrow> stays tp n (fs \<noteq> [])) \<and>
    stale_reads b' + length (A' (opposite sd)) = stale_reads b + length (abs b (opposite sd)) \<and>
    (\<forall>i \<in> unrested b. ord b' i = ord b i) \<and>
    (\<forall>o2. tp \<noteq> LIMIT \<longrightarrow> ord b' (order_id_seq b + 1) = Some o2 \<longrightarrow> o_side o2 = sd \<and> o_type o2 = tp \<and>
       o_price o2 = effective_price sd tp p \<and> o_remaining o2 = n \<and> (is_active o2 \<longleftrightarrow> 0 < n))"
proof -
  define oid where "oid = order_id_seq b + 1"
  have rel: "book_rel (unrested b) b" using inv by (simp add: book_inv_def)
  define b1 where "b1 = new_order sd tp p qty exch s (b\<lparr>order_pool := pool1\<rparr>)"
  define b3 where "b3 = upd_stats (\<lambda>st. st\<lparr>orders_added := orders_added st + 1\<rparr>) (map_emplace oid s b1)"
  note N = new_order_facts [OF rel al seq b1_def]
  note S = add_started [OF rel al seq b1_def b3_def [unfolded oid_def], folded oid_def]
  have o1: "o_id (obj s b1) = oid" "o_qty (obj s b1) = qty" "o_remaining (obj s b1) = qty"
    "o_price (obj s b1) = effective_price sd tp p" "o_side (obj s b1) = sd" "o_type (obj s b1) = tp"
    "o_status (obj s b1) = NEW" "o_prev (obj s b1) = 0" "o_next (obj s b1) = 0"
    by (simp_all add: N(1) init_order_def oid_def effective_price_def)
  have q: "0 < qty" using ok by (simp add: order_ok_def)
  obtain m al' gs where s: "spec_sweep sd (effective_price sd tp p) qty (abs b (opposite sd)) = (m, al', gs)"
    by (metis prod_cases3)
  have eq: "n = m" "fs = gs" "A' = (if tp = LIMIT \<and> 0 < m then (abs b)(opposite sd := al', sd := spec_rest sd p oid m (abs b sd))
             else (abs b)(opposite sd := al'))"
    using sp s by (auto simp: spec_take_def oid_def split: if_splits)
  have "\<exists>trs b'. sweep (opposite sd) s [] b3 = Some ([] @ trs, b') \<and>
    list_all2 (trade_is oid (opposite (opposite sd))) gs trs \<and> matched (opposite sd) oid s (insert oid (unrested b)) b3 b' \<and>
    o_remaining (obj s b') = m \<and> abs b' (opposite sd) = al' \<and>
    stale_reads b' + length al' = stale_reads b3 + length (abs b (opposite sd))"
    by (rule sweep_spec [OF S(1)]) (use S(2-4) o1 q s in auto)
  then obtain trs b4 where sw: "sweep (opposite sd) s [] b3 = Some (trs, b4)"
    and trs: "list_all2 (trade_is oid sd) gs trs" and m4: "matched (opposite sd) oid s (insert oid (unrested b)) b3 b4"
    and n4: "o_remaining (obj s b4) = m" and a4: "abs b4 (opposite sd) = al'"
    and st4: "stale_reads b4 + length al' = stale_reads b + length (abs b (opposite sd))"
    using S(8) by auto
  note M = matchedD [OF m4] and T = taker_nowD [OF matchedD(3) [OF m4]]
  have oid_out: "oid \<notin> unrested b" using N(14) by (simp add: unrested_def ord_def oid_def)
  have m0: "0 \<le> m" using spec_sweep_nonneg [OF s] q by simp
  have act: "is_active (obj s b4) \<longleftrightarrow> 0 < m"
    using T(6) m0 o1 q by (auto simp: n4 S(4) fill_status_def is_active_def)
  obtain r b' where am: "after_match sd tp s oid trs b4 = (r, b')" by fastforce
  have o4: "o_id (obj s b4) = oid" "o_side (obj s b4) = sd" "o_type (obj s b4) = tp"
    using T(1,4,5) by (simp_all add: S(4) o1)
  note AM = after_match_spec [OF M(1) oid_out M(2) o4 act n4 m0 am]
  have "(if o_side (obj s b3) = BUY then SELL else BUY) = opposite sd" using o1 by (cases sd) (simp_all add: S(4))
  then have mt: "match_order s b3 = Some (trs, b4)" using sw by (simp add: match_order_def)
  have "tp = FOK \<Longrightarrow> can_fill_fok sd (o_price (obj s b1)) (o_qty (obj s b1)) b1"
    using fok by (simp add: o1 effective_price_def can_fill_fok_def N(4))
  then have "\<not> (tp = FOK \<and> \<not> can_fill_fok sd (o_price (obj s b1)) (o_qty (obj s b1)) b1)" by blast
  moreover have "\<not> qty \<le> 0" "\<not> (tp = LIMIT \<and> p \<le> 0)" using ok by (auto simp: order_ok_def)
  ultimately have ad: "add_order sd tp p qty exch b = Some (r, b')"
    unfolding add_order_def Let_def al prod.case option.case b1_def [symmetric] o1(1) b3_def [symmetric] mt am
    by (simp only: if_False option.case prod.case am)
  have a4': "abs b4 sd = abs b sd" using M(4) by (simp add: S(2))
  have A4: "abs b4 = (abs b)(opposite sd := al')"
  proof
    fix sd' show "abs b4 sd' = ((abs b)(opposite sd := al')) sd'"
      using a4 a4' side_or_opposite [of sd' sd] by auto
  qed
  have p4: "tp = LIMIT \<Longrightarrow> o_price (obj s b4) = p" using T(2) by (simp add: S(4) o1 effective_price_def)
  have A': "abs b' = A'" using AM(1) p4 by (auto simp: A4 eq)
  have keep: "ord b' i = ord b i" if "i \<in> unrested b" for i
    using AM(3) [OF that] M(6) [of i] that oid_out S(7) by auto
  have rel': "book_rel (unrested b') b'"
  proof (rule book_rel_unrested [OF AM(2)])
    fix i o2 assume i: "i \<in> (if tp = LIMIT \<and> 0 < m then unrested b else insert oid (unrested b))" "ord b' i = Some o2"
    show "o_type o2 \<noteq> LIMIT"
    proof (cases "i = oid")
      case False
      then show ?thesis using i keep [of i] by (auto simp: unrested_def split: if_splits)
    next
      case True
      then have "\<not> (tp = LIMIT \<and> 0 < m)" using i oid_out by auto
      moreover have "oid \<in> dom (order_map b')" using i True by (auto simp: dom_ord [symmetric])
      ultimately have "tp \<noteq> LIMIT" using AM(7) by (auto simp: stays_def)
      then show ?thesis using AM(8) [of o2] i True o4(3) by auto
    qed
  qed
  have pr: "\<forall>x \<in> fst ` set (abs b sd). \<forall>y \<in> fst ` set (abs b (opposite sd)). price_blocked sd x y"
    using inv by (simp add: book_inv_def uncrossed_abs [of b sd])
  have "sm_ok (side_lt (opposite sd)) (abs b (opposite sd))"
    using side_inv_ok [OF book_relD(2) [OF rel, of "opposite sd"]] by (simp add: abs_def)
  note P = spec_take_prices [OF sp less_imp_le [OF q] this pr]
  have "prices_ok b'"
    unfolding prices_abs A'
  proof (intro allI ballI)
    fix sd' x assume x: "x \<in> fst ` set (A' sd')"
    have old: "0 < y \<and> y < INT64_MAX" if "y \<in> fst ` set (abs b sd2)" for y sd2
      using inv that by (auto simp: book_inv_def prices_abs)
    have "x \<in> fst ` set (abs b sd) \<or> x = p \<and> tp = LIMIT" if "sd' = sd"
      using subsetD [OF P(1), of x] x unfolding that by (cases "tp = LIMIT") (simp_all add: disj_commute)
    moreover have "x \<in> fst ` set (abs b (opposite sd))" if "sd' = opposite sd"
      using subsetD [OF P(2), of x] x unfolding that by simp
    ultimately consider "x \<in> fst ` set (abs b sd')" | "x = p" "tp = LIMIT"
      using side_or_opposite [of sd' sd] by metis
    then show "0 < x \<and> x < INT64_MAX"
      by cases (use old ok in \<open>simp_all add: order_ok_def\<close>)
  qed
  moreover have "uncrossed b'" unfolding uncrossed_abs [of b' sd] A' using P(3) .
  moreover have "market_ok b'"
    unfolding market_ok_def
  proof (intro allI impI)
    fix i o2 assume i: "ord b' i = Some o2" and mk: "o_type o2 \<noteq> LIMIT"
    then have "i \<in> unrested b'" by (simp add: unrested_def)
    moreover have "i \<in> dom (order_map b')" using i by (auto simp: dom_ord [symmetric])
    ultimately have "i \<notin> resting b'" using book_relD(3) [OF rel'] by simp
    then have "i \<in> insert oid (unrested b)"
      using book_relD(3) [OF AM(2)] \<open>i \<in> dom (order_map b')\<close> by (auto split: if_splits)
    then consider "i = oid" | "i \<in> unrested b" "i \<noteq> oid" by blast
    then show "left_over o2"
    proof cases
      case 1
      then have "tp \<noteq> LIMIT"
        using AM(1) \<open>i \<notin> resting b'\<close> \<open>i \<in> dom (order_map b')\<close> book_relD(3) [OF AM(2)] oid_out AM(7)
        by (auto simp: stays_def split: if_splits)
      moreover from this have "o2 = obj s b4" using AM(8) [of o2] i 1 by simp
      moreover have "tp \<noteq> IOC" "tp \<noteq> FOK" using AM(7) 1 \<open>i \<in> dom (order_map b')\<close> by (auto simp: stays_def split: if_splits)
      ultimately show ?thesis
        using o4 T(2,7,8) by (cases tp) (simp_all add: left_over_def S(4) o1 effective_price_def)
    next
      case 2
      then have "ord b i = Some o2" using i keep by simp
      then show ?thesis using inv mk by (simp add: book_inv_def market_ok_def)
    qed
  qed
  ultimately have "book_inv b'" using rel' by (simp add: book_inv_def)
  moreover have "ar_id r = oid" "ar_accepted r \<longleftrightarrow> \<not> (tp = POST_ONLY \<and> fs \<noteq> [])"
    "ar_accepted r \<longrightarrow> list_all2 (trade_is oid sd) fs (ar_fills r)" "\<not> ar_accepted r \<longrightarrow> ar_fills r = []"
    using AM(6) trs fills_nonempty [OF trs] by (auto simp: eq)
  moreover have "order_id_seq b' = oid" using AM(4) M(5) S(6) by simp
  moreover have "oid \<in> dom (order_map b') \<longleftrightarrow> stays tp n (fs \<noteq> [])"
    using AM(7) fills_nonempty [OF trs] by (simp add: eq)
  moreover have "stale_reads b' + length (A' (opposite sd)) = stale_reads b + length (abs b (opposite sd))"
    using AM(5) st4 by (simp add: eq)
  moreover have "\<forall>o2. tp \<noteq> LIMIT \<longrightarrow> ord b' oid = Some o2 \<longrightarrow> o_side o2 = sd \<and> o_type o2 = tp \<and>
       o_price o2 = effective_price sd tp p \<and> o_remaining o2 = n \<and> (is_active o2 \<longleftrightarrow> 0 < n)"
    using AM(8) o4 T(2) act n4 o1(4) by (auto simp: S(4) eq)
  ultimately show ?thesis using ad A' keep unfolding oid_def by blast
qed

end
