(* ===== verification/Book_Cancel.thy ===== *)
theory Book_Cancel
  imports Book_Add
begin

text \<open>
  \<open>cancel_order\<close>, \<open>modify_order\<close>, \<open>clear\<close>, the rejections of \<open>add_order\<close> and the depth queries, over the
  invariant \<open>book_inv\<close>.
\<close>

section \<open>Cancelling on the abstract book\<close>

lemma spec_cancel_simps [simp]:
  "spec_cancel i [] = []"
  "spec_cancel i ((p, q) # al) =
     (if filter (\<lambda>e. fst e \<noteq> i) q = [] then spec_cancel i al
      else (p, filter (\<lambda>e. fst e \<noteq> i) q) # spec_cancel i al)"
  by (simp_all add: spec_cancel_def)

lemma filter_other: "i \<notin> fst ` set q \<Longrightarrow> filter (\<lambda>e. fst e \<noteq> i) q = q"
  by (induction q) auto

lemma spec_cancel_other: "i \<notin> aids al \<Longrightarrow> aladder_ok al \<Longrightarrow> spec_cancel i al = al"
  by (induction al) (auto simp: filter_other queue_ok_def)

lemma spec_cancel_eq:
  assumes "sm_ok (side_lt sd) al" and "aladder_ok al" and "sm_find p al = Some q"
    and "i \<notin> aids (sm_erase p al)"
  shows "spec_cancel i al = (let q' = filter (\<lambda>e. fst e \<noteq> i) q
    in if q' = [] then sm_erase p al else sm_insert (side_lt sd) p q' al)"
  using assms
proof (induction al)
  case Nil
  then show ?case by simp
next
  case (Cons e al)
  obtain p' q2 where e: "e = (p', q2)" by fastforce
  show ?case
  proof (cases "p = p'")
    case True
    have out: "p \<notin> fst ` set al" using Cons.prems(1) True ladder.lt_irrefl [of sd p] by (auto simp: e ladder.ok_Cons)
    then have "spec_cancel i al = al" using Cons.prems True by (intro spec_cancel_other) (simp_all add: e)
    then show ?thesis using Cons.prems True out by (simp add: e Let_def ladder.lt_irrefl)
  next
    case False
    then have f: "sm_find p al = Some q" using Cons.prems(3) by (simp add: e)
    then have "p \<in> fst ` set al" using sm_find_SomeD by force
    then have lt: "side_lt sd p' p" "\<not> side_lt sd p p'"
      using Cons.prems(1) ladder.lt_asym [of sd p' p] by (auto simp: e ladder.ok_Cons)
    have q2: "filter (\<lambda>e. fst e \<noteq> i) q2 = q2" "q2 \<noteq> []"
      using Cons.prems(2,4) False filter_other [of i q2] by (auto simp: e queue_ok_def)
    have "spec_cancel i al = (let q' = filter (\<lambda>e. fst e \<noteq> i) q
        in if q' = [] then sm_erase p al else sm_insert (side_lt sd) p q' al)"
      by (rule Cons.IH) (use Cons.prems f False in \<open>auto simp: e ladder.ok_Cons\<close>)
    then show ?thesis using False lt q2 by (simp add: e Let_def)
  qed
qed

lemma fst_filter_other: "fst ` set (filter (\<lambda>e. fst e \<noteq> i) q) = fst ` set q - {i}"
  by force

lemma aids_spec_cancel: "aids (spec_cancel i al) = aids al - {i}"
proof (induction al)
  case (Cons e al)
  obtain p q where e: "e = (p, q)" by fastforce
  show ?case
  proof (cases "filter (\<lambda>e. fst e \<noteq> i) q = []")
    case True
    then have "fst ` set q - {i} = {}" using fst_filter_other [of i q] by simp
    then have "aids (e # al) - {i} = aids al - {i}" by (auto simp: e)
    then show ?thesis using True Cons by (simp add: e)
  next
    case False
    then show ?thesis using Cons fst_filter_other [of i q] by (simp add: e Un_Diff)
  qed
qed simp

lemma fst_spec_cancel: "fst ` set (spec_cancel i al) \<subseteq> fst ` set al"
  by (force simp: spec_cancel_def)

section \<open>A level without one of its orders\<close>

lemma level_rel_unlink:
  assumes LR: "level_rel m sd p l (xs @ i # ys)"
    and m': "m' = (unlink m (last0 xs) (hd0 ys))(i := None)"
    and l': "l' = l\<lparr>l_total_qty := i64 (l_total_qty l - rem m i), l_head := hd0 (xs @ ys),
      l_tail := last0 (xs @ ys), l_order_count := length (xs @ ys)\<rparr>"
  shows "xs @ ys \<noteq> [] \<Longrightarrow> level_rel m' sd p l' (xs @ ys)"
    "entries m' (xs @ ys) = filter (\<lambda>e. fst e \<noteq> i) (entries m (xs @ i # ys))"
proof -
  have dist: "distinct (xs @ i # ys)" and nz: "0 \<notin> set (xs @ i # ys)" and d: "dll m 0 (xs @ i # ys)"
    using LR by (auto simp: level_rel_def level_links_def)
  have sd: "same_data m (unlink m (last0 xs) (hd0 ys))" by (rule unlink_same_data)
  have d': "dll m' 0 (xs @ ys)" using dll_unlink [OF d dist nz] dist by (simp add: m')
  have remj: "rem m' j = rem m j" if "j \<in> set (xs @ ys)" for j
    using that dist same_data_rem [OF sd, of j] by (auto simp: m' rem_def)
  have rest: "\<exists>o1. m' j = Some o1 \<and> rests sd p o1" if j: "j \<in> set (xs @ ys)" for j
  proof -
    obtain o1 where "m j = Some o1" "rests sd p o1" using level_rel_rests [OF LR, of j] j by auto
    then show ?thesis using same_data_rests [OF sd, of j o1] j dist by (auto simp: m')
  qed
  have "sum_list (map (rem m') (xs @ ys)) = sum_list (map (rem m) (xs @ ys))" by (rule sum_rem_cong) (rule remj)
  then have "l_total_qty l' = i64 (sum_list (map (rem m') (xs @ ys)))"
    using LR by (simp add: l' level_rel_def)
  then show "xs @ ys \<noteq> [] \<Longrightarrow> level_rel m' sd p l' (xs @ ys)"
    using d' dist nz rest LR by (simp add: level_rel_def level_links_def l')
  have "entries m' (xs @ ys) = entries m (xs @ ys)" by (rule entries_cong) (rule remj)
  moreover have "filter (\<lambda>e. fst e \<noteq> i) (entries m zs) = entries m zs" if "i \<notin> set zs" for zs
    using that by (intro filter_other) simp
  ultimately show "entries m' (xs @ ys) = filter (\<lambda>e. fst e \<noteq> i) (entries m (xs @ i # ys))"
    using dist by simp
qed


section \<open>cancel_order\<close>

lemma resting_level:
  assumes rel: "book_rel X b" and om: "order_map b i = Some s" and res: "i \<in> resting b"
  obtains l xs ys where "sm_find (o_price (obj s b)) (ladder_of (o_side (obj s b)) b) = Some l"
    "level_rel (ord b) (o_side (obj s b)) (o_price (obj s b)) l (xs @ i # ys)"
    "rests (o_side (obj s b)) (o_price (obj s b)) (obj s b)"
    "i \<in> aids (abs b (o_side (obj s b)))"
proof -
  have "i \<in> aids (abs b BUY) \<or> i \<in> aids (abs b SELL)" using res by (simp add: resting_def)
  then obtain sd where a: "i \<in> aids (abs b sd)" by blast
  then obtain e where e: "e \<in> set (ladder_of sd b)" "i \<in> set (lids (ord b) (snd e))"
    by (auto simp: abs_def aids_def abs_ladder_def)
  note si = book_relD(2) [OF rel, of sd]
  have lr: "level_rel (ord b) sd (fst e) (snd e) (lids (ord b) (snd e))" using si e(1) by (simp add: side_inv_def)
  have r: "rests sd (fst e) (obj s b)" using level_rel_rests [OF lr e(2)] ord_slot [OF om] by simp
  then have eq: "o_price (obj s b) = fst e" "o_side (obj s b) = sd" by (simp_all add: rests_def)
  have "sm_find (fst e) (ladder_of sd b) = Some (snd e)"
    using ladder.find_iff [OF side_inv_ok [OF si]] e(1) by simp
  moreover obtain xs ys where "lids (ord b) (snd e) = xs @ i # ys" using e(2) by (meson split_list)
  ultimately show thesis using that lr r a by (simp add: eq)
qed

definition unlinked_level :: "price_level \<Rightarrow> quantity \<Rightarrow> order_id list \<Rightarrow> price_level" where
  "unlinked_level l n ids = l\<lparr>l_total_qty := i64 (l_total_qty l - n), l_head := hd0 ids,
     l_tail := last0 ids, l_order_count := length ids\<rparr>"

lemma cancel_remove_from_eq:
  assumes rel: "book_rel X b" and om: "order_map b i = Some s" and p: "p = o_price (obj s b)"
    and f: "sm_find p (ladder_of sd b) = Some l" and lr: "level_rel (ord b) sd p l (xs @ i # ys)"
  obtains b0 where "heap_only b b0" "ord b0 = unlink (ord b) (last0 xs) (hd0 ys)"
    "cancel_remove_from sd s b =
       (if xs @ ys = [] then erase_level sd p b0
        else put_level sd p (unlinked_level l (o_remaining (obj s b)) (xs @ ys)) b0)"
proof -
  define l1 where "l1 = l\<lparr>l_total_qty := i64 (l_total_qty l - o_remaining (obj s b))\<rparr>"
  have d: "dll (ord b) 0 (xs @ i # ys)" "distinct (xs @ i # ys)" "0 \<notin> set (xs @ i # ys)"
    "l_head l1 = hd0 (xs @ i # ys)" "l_tail l1 = last0 (xs @ i # ys)" "l_order_count l1 = length (xs @ i # ys)"
    using lr by (auto simp: level_rel_def level_links_def l1_def)
  obtain b0 where b0: "level_remove_order_links l1 s b =
       (l1\<lparr>l_head := hd0 (xs @ ys), l_tail := last0 (xs @ ys), l_order_count := length (xs @ ys)\<rparr>, b0)"
    "ord b0 = unlink (ord b) (last0 xs) (hd0 ys)" "heap_only b b0"
    by (rule level_remove_links [OF heap_invD(2) [OF book_relD(1) [OF rel]] om d])
  have "l1\<lparr>l_head := hd0 (xs @ ys), l_tail := last0 (xs @ ys), l_order_count := length (xs @ ys)\<rparr> =
      unlinked_level l (o_remaining (obj s b)) (xs @ ys)" by (simp add: l1_def unlinked_level_def)
  with b0(1) have "level_remove_order_links l1 s b = (unlinked_level l (o_remaining (obj s b)) (xs @ ys), b0)" by simp
  then have "cancel_remove_from sd s b =
       (if xs @ ys = [] then erase_level sd p b0
        else put_level sd p (unlinked_level l (o_remaining (obj s b)) (xs @ ys)) b0)"
    using f by (simp add: cancel_remove_from_def p [symmetric] l1_def [symmetric] level_empty_def Let_def)
      (simp add: unlinked_level_def)
  then show thesis using b0 that by blast
qed


text \<open>The contract of \<open>cancel_order\<close> on an order that rests.\<close>

lemma cancel_resting:
  assumes rel: "book_rel X b" and om: "order_map b i = Some s" and res: "i \<in> resting b"
    and r: "cancel_order i b = (r, b')" and sd: "sd = o_side (obj s b)"
  shows "r = \<lparr>cr_found = True, cr_cancelled = True\<rparr>" "book_rel X b'"
    "abs b' = (abs b)(sd := spec_cancel i (abs b sd))" "order_id_seq b' = order_id_seq b"
    "order_map b' = (order_map b)(i := None)" "stale_reads b' = stale_reads b"
    "j \<in> X \<Longrightarrow> ord b' j = ord b j" "i \<notin> X"
proof -
  define p where "p = o_price (obj s b)"
  obtain l xs ys where f: "sm_find p (ladder_of sd b) = Some l"
    and lr: "level_rel (ord b) sd p l (xs @ i # ys)" and ro: "rests sd p (obj s b)"
    and ia: "i \<in> aids (abs b sd)"
    using resting_level [OF rel om res] unfolding sd p_def by blast
  note hi = book_relD(1) [OF rel] and si = book_relD(2) [OF rel, of sd] and so = book_relD(2) [OF rel, of "opposite sd"]
  obtain b0 where ho: "heap_only b b0" and o0: "ord b0 = unlink (ord b) (last0 xs) (hd0 ys)"
    and cr: "cancel_remove_from sd s b =
       (if xs @ ys = [] then erase_level sd p b0
        else put_level sd p (unlinked_level l (o_remaining (obj s b)) (xs @ ys)) b0)"
    by (rule cancel_remove_from_eq [OF rel om p_def f lr])
  note H = heap_only_frame [OF ho]
  define l' where "l' = unlinked_level l (o_remaining (obj s b)) (xs @ ys)"
  define b1 where "b1 = cancel_remove_from sd s b"
  have b1: "order_map b1 = order_map b" "order_pool b1 = order_pool b0" "order_id_seq b1 = order_id_seq b"
    "stale_reads b1 = stale_reads b" "ord b1 = ord b0" "obj s' b1 = obj s' b0"
    "ladder_of sd b1 = (if xs @ ys = [] then sm_erase p (ladder_of sd b) else sm_insert (side_lt sd) p l' (ladder_of sd b))"
    "ladder_of (opposite sd) b1 = ladder_of (opposite sd) b" for s'
    by (simp_all add: b1_def cr l'_def heap_simps H)
  define b2 where "b2 = upd_obj s (\<lambda>o1. o1\<lparr>o_status := CANCELLED\<rparr>) b1"
  have act: "is_active (obj s b)" using ro by (simp add: rests_def)
  have cb: "cancel_order i b = (\<lparr>cr_found = True, cr_cancelled = True\<rparr>, notify_bbo (dealloc s (notify (On_order_cancelled (obj s b2))
      (upd_stats (\<lambda>st. st\<lparr>orders_cancelled := orders_cancelled st + 1\<rparr>) (map_erase i b2)))))"
    using om act by (simp add: cancel_order_def Let_def b2_def b1_def sd heap_simps)
  then show "r = \<lparr>cr_found = True, cr_cancelled = True\<rparr>" using r by simp
  have b': "b' = notify_bbo (dealloc s (notify (On_order_cancelled (obj s b2))
      (upd_stats (\<lambda>st. st\<lparr>orders_cancelled := orders_cancelled st + 1\<rparr>) (map_erase i b2))))"
    using cb r by simp
  show om': "order_map b' = (order_map b)(i := None)" and "order_id_seq b' = order_id_seq b"
    and "stale_reads b' = stale_reads b"
    by (simp_all add: b' b2_def heap_simps b1)
  have lad': "ladder_of sd' b' = ladder_of sd' b1" for sd' by (simp add: b' b2_def heap_simps)
  have hi0: "heap_inv b0" by (rule heap_inv_same_data [OF hi ho]) (simp add: o0 unlink_same_data)
  have hi2: "heap_inv b2" using hi0 heap_inv_cong [of b2 b0] by (simp add: b2_def heap_simps b1 H)
  have hi': "heap_inv b'"
    using hi2 by (rule heap_inv_retire [of _ i s]) (simp_all add: b' b2_def heap_simps b1 om)
  have ord': "ord b' = (unlink (ord b) (last0 xs) (hd0 ys))(i := None)"
  proof
    fix j
    have "s' \<noteq> s" if "order_map b j = Some s'" "j \<noteq> i" for s'
      using that heap_inj_eq [OF heap_invD(2) [OF hi] om, of j] by auto
    then show "ord b' j = ((unlink (ord b) (last0 xs) (hd0 ys))(i := None)) j"
      unfolding o0 [symmetric]
      by (cases "order_map b j") (auto simp: ord_def b' b2_def heap_simps b1 H)
  qed
  have nz: "0 \<notin> set (xs @ i # ys)" using lr by (simp add: level_rel_def level_links_def)
  have ids: "set (xs @ i # ys) \<subseteq> aids (abs b sd)"
    using aids_abs_level [OF _ sm_find_SomeD [OF f], of _ "ord b"] level_rel_lids [OF lr] by (auto simp: abs_def)
  have zero: "order_map c 0 = None" if "heap_inv c" for c
    using heap_invD(6) [OF that, of 0] by (cases "order_map c 0") auto
  have frame: "ord b' j = ord b j" if "j \<notin> set (xs @ i # ys)" for j
  proof (cases "j = 0")
    case True
    then show ?thesis using zero [OF hi] zero [OF hi'] by (simp add: ord_def)
  next
    case False
    then have "j \<noteq> last0 xs" "j \<noteq> hd0 ys"
      using that last0_in [of xs] hd0_in [of ys] by (cases "xs = []"; cases "ys = []"; auto)+
    then show ?thesis using that by (simp add: ord' unlink_other)
  qed
  have remi: "rem (ord b) i = o_remaining (obj s b)" using ord_slot [OF om] by (simp add: rem_def)
  note LU = level_rel_unlink [OF lr ord', of "unlinked_level l (o_remaining (obj s b)) (xs @ ys)"]
  have fr_lvl: "ord b' j = ord b j" if "j \<in> aids (abs_ladder (ord b) (sm_erase p (ladder_of sd b)))" for j
    using frame aids_level_disjoint [OF si lr] that by blast
  have fr_opp: "ord b' j = ord b j" if "j \<in> aids (abs_ladder (ord b) (ladder_of (opposite sd) b))" for j
  proof -
    have "j \<notin> aids (abs b sd)" using aids_sides_disjoint [OF si so] that by (auto simp: abs_def)
    then show ?thesis using frame [of j] ids by blast
  qed
  have iout: "i \<notin> aids (sm_erase p (abs b sd))"
    using aids_level_disjoint [OF si lr] by (simp add: abs_def erase_abs)
  have fa: "sm_find p (abs b sd) = Some (entries (ord b) (xs @ i # ys))"
    using f level_rel_lids [OF lr] by (simp add: abs_def abs_find)
  have ok: "sm_ok (side_lt sd) (abs b sd)" "aladder_ok (abs b sd)"
    using side_inv_ok [OF si] side_inv_aladder_ok [OF si] by (simp_all add: abs_def)
  have q': "filter (\<lambda>e. fst e \<noteq> i) (entries (ord b) (xs @ i # ys)) = entries (ord b') (xs @ ys)"
    using LU(2) by (simp add: unlinked_level_def remi)
  note SC = spec_cancel_eq [OF ok fa iout, unfolded q' Let_def]
  have new: "side_inv (ord b') sd (ladder_of sd b')" "abs b' sd = spec_cancel i (abs b sd)"
  proof -
    have "side_inv (ord b') sd (ladder_of sd b') \<and> abs b' sd = spec_cancel i (abs b sd)"
    proof (cases "xs @ ys = []")
      case True
      then show ?thesis
        using side_inv_erase [OF si fr_lvl] SC by (simp add: lad' b1 abs_def [of b' sd]) (simp add: abs_def)
    next
      case False
      have "level_rel (ord b') sd p l' (xs @ ys)"
        using LU(1) False by (simp add: l'_def unlinked_level_def remi)
      note SP = side_inv_put [OF si this fr_lvl]
      have "entries (ord b') (xs @ ys) \<noteq> []" using False by simp
      then show ?thesis
        using SP SC False unfolding lad' b1 abs_def by (simp only: if_False)
    qed
    then show "side_inv (ord b') sd (ladder_of sd b')" "abs b' sd = spec_cancel i (abs b sd)" by blast+
  qed
  note old = side_inv_frame [OF so fr_opp]
  have ao: "abs b' (opposite sd) = abs b (opposite sd)" using old(2) by (simp add: abs_def lad' b1)
  show "abs b' = (abs b)(sd := spec_cancel i (abs b sd))"
  proof
    fix sd' show "abs b' sd' = ((abs b)(sd := spec_cancel i (abs b sd))) sd'"
      using new(2) ao side_or_opposite [of sd' sd] by auto
  qed
  show iX: "i \<notin> X" using res book_relD(3) [OF rel] by simp
  show "ord b' j = ord b j" if "j \<in> X"
  proof (rule frame)
    have "j \<notin> resting b" using that book_relD(3) [OF rel] by simp
    then show "j \<notin> set (xs @ i # ys)" using ids by (auto simp: resting_side [of b sd])
  qed
  show "book_rel X b'"
  proof (rule book_relI [OF hi' new(1)])
    show "side_inv (ord b') (opposite sd) (ladder_of (opposite sd) b')" using old(1) by (simp add: lad' b1)
    have "i \<notin> aids (abs b (opposite sd))" using aids_sides_disjoint [OF si so] ia by (auto simp: abs_def)
    then have "resting b' = resting b - {i}"
      unfolding resting_side [of _ sd] new(2) ao aids_spec_cancel by auto
    then show "resting b' = dom (order_map b') - X" using book_relD(3) [OF rel] iX by (auto simp: om')
  qed
qed

section \<open>cancel_order keeps the invariant\<close>

lemma spec_cancel_both:
  assumes rel: "book_rel X b" and i: "i \<notin> aids (abs b (opposite sd))"
  shows "(abs b)(sd := spec_cancel i (abs b sd)) = (\<lambda>sd'. spec_cancel i (abs b sd'))"
proof
  fix sd'
  have "aladder_ok (abs b (opposite sd))"
    using side_inv_aladder_ok [OF book_relD(2) [OF rel]] by (simp add: abs_def)
  then show "((abs b)(sd := spec_cancel i (abs b sd))) sd' = spec_cancel i (abs b sd')"
    using spec_cancel_other [OF i] side_or_opposite [of sd' sd] by auto
qed

lemma spec_cancel_none:
  assumes rel: "book_rel X b" and i: "i \<notin> resting b"
  shows "(\<lambda>sd. spec_cancel i (abs b sd)) = abs b"
proof
  fix sd
  have "aladder_ok (abs b sd)" using side_inv_aladder_ok [OF book_relD(2) [OF rel]] by (simp add: abs_def)
  then show "spec_cancel i (abs b sd) = abs b sd"
    using i by (intro spec_cancel_other) (auto simp: resting_side [of b sd])
qed

lemma cancel_left_over:
  assumes rel: "book_rel X b" and om: "order_map b i = Some s" and iX: "i \<in> X"
    and act: "is_active (obj s b)" and nf: "sm_find (o_price (obj s b)) (ladder_of (o_side (obj s b)) b) = None"
    and r: "cancel_order i b = (r, b')"
  shows "r = \<lparr>cr_found = True, cr_cancelled = True\<rparr>" "book_rel X b'" "abs b' = abs b"
    "order_id_seq b' = order_id_seq b" "order_map b' = (order_map b)(i := None)"
    "stale_reads b' = stale_reads b" "j \<noteq> i \<Longrightarrow> ord b' j = ord b j"
proof -
  define b2 where "b2 = upd_obj s (\<lambda>o1. o1\<lparr>o_status := CANCELLED\<rparr>) b"
  have cb: "cancel_order i b = (\<lparr>cr_found = True, cr_cancelled = True\<rparr>, notify_bbo (dealloc s (notify (On_order_cancelled (obj s b2))
      (upd_stats (\<lambda>st. st\<lparr>orders_cancelled := orders_cancelled st + 1\<rparr>) (map_erase i b2)))))"
    using om act nf by (simp add: cancel_order_def cancel_remove_from_def Let_def b2_def heap_simps)
  then show "r = \<lparr>cr_found = True, cr_cancelled = True\<rparr>" using r by simp
  have b': "b' = notify_bbo (dealloc s (notify (On_order_cancelled (obj s b2))
      (upd_stats (\<lambda>st. st\<lparr>orders_cancelled := orders_cancelled st + 1\<rparr>) (map_erase i b2))))"
    using cb r by simp
  show om': "order_map b' = (order_map b)(i := None)" and "order_id_seq b' = order_id_seq b"
    and "stale_reads b' = stale_reads b"
    by (simp_all add: b' b2_def heap_simps)
  have hi2: "heap_inv b2"
    using book_relD(1) [OF rel] heap_inv_cong [of b2 b] by (simp add: b2_def heap_simps)
  note R = remove_unrested [OF rel om iX, of b' b2]
  show "book_rel X b'" by (rule R(1)) (simp_all add: b' b2_def heap_simps hi2 [unfolded b2_def])
  show "abs b' = abs b" by (rule R(2)) (simp_all add: b' b2_def heap_simps hi2 [unfolded b2_def])
  show "j \<noteq> i \<Longrightarrow> ord b' j = ord b j" by (rule R(3)) (simp_all add: b' b2_def heap_simps hi2 [unfolded b2_def])
qed

text \<open>Which orders \<open>cancel_order\<close> may be called on: not on an active post-only order.\<close>

definition cancellable :: "order_id \<Rightarrow> book \<Rightarrow> bool" where
  "cancellable i b \<longleftrightarrow>
     (\<forall>s. order_map b i = Some s \<longrightarrow> o_type (obj s b) = POST_ONLY \<longrightarrow> \<not> is_active (obj s b))"

lemma market_ok_sub:
  assumes "market_ok b" and "\<And>i o1. ord b' i = Some o1 \<Longrightarrow> o_type o1 \<noteq> LIMIT \<Longrightarrow> ord b i = Some o1"
  shows "market_ok b'"
  using assms unfolding market_ok_def by blast

lemma cancel_main:
  assumes inv: "book_inv b" and c: "cancellable i b" and r: "cancel_order i b = (r, b')"
  shows "book_inv b'" "abs b' = (\<lambda>sd. spec_cancel i (abs b sd))"
    "cr_found r \<longleftrightarrow> i \<in> dom (order_map b)"
    "cr_cancelled r \<longleftrightarrow> (\<exists>s. order_map b i = Some s \<and> is_active (obj s b))"
    "order_map b' = (if cr_cancelled r then (order_map b)(i := None) else order_map b)"
    "order_id_seq b' = order_id_seq b" "stale_reads b' = stale_reads b"
proof -
  have rel: "book_rel (unrested b) b" using inv by (simp add: book_inv_def)
  let ?goal = "book_inv b' \<and> abs b' = (\<lambda>sd. spec_cancel i (abs b sd)) \<and> (cr_found r \<longleftrightarrow> i \<in> dom (order_map b)) \<and>
    (cr_cancelled r \<longleftrightarrow> (\<exists>s. order_map b i = Some s \<and> is_active (obj s b))) \<and>
    order_map b' = (if cr_cancelled r then (order_map b)(i := None) else order_map b) \<and>
    order_id_seq b' = order_id_seq b \<and> stale_reads b' = stale_reads b"
  have finish: "book_inv b'" if rel': "book_rel (unrested b) b'" and a: "abs b' = (\<lambda>sd. spec_cancel i (abs b sd))"
      and keep: "\<And>j. j \<in> unrested b \<Longrightarrow> j \<noteq> i \<Longrightarrow> ord b' j = ord b j" and none: "ord b' i = None" for b'
  proof -
    have "book_rel (unrested b') b'"
    proof (rule book_rel_unrested [OF rel'])
      fix j o1 assume j: "j \<in> unrested b" "ord b' j = Some o1"
      then have "ord b j = Some o1" using keep [of j] none by (cases "j = i") auto
      then show "o_type o1 \<noteq> LIMIT" using j(1) by (auto simp: unrested_def)
    qed
    moreover have sub: "fst ` set (abs b' sd) \<subseteq> fst ` set (abs b sd)" for sd
      unfolding a by (rule fst_spec_cancel)
    then have "prices_ok b'" using inv unfolding book_inv_def prices_abs by blast
    moreover have "uncrossed b'"
      unfolding uncrossed_abs [of _ BUY]
    proof (intro ballI)
      fix x y assume "x \<in> fst ` set (abs b' BUY)" "y \<in> fst ` set (abs b' (opposite BUY))"
      then have "x \<in> fst ` set (abs b BUY)" "y \<in> fst ` set (abs b (opposite BUY))"
        using subsetD [OF sub] by blast+
      then show "price_blocked BUY x y" using inv unfolding book_inv_def uncrossed_abs [of _ BUY] by blast
    qed
    moreover have "market_ok b'"
    proof (rule market_ok_sub)
      show "market_ok b" using inv by (simp add: book_inv_def)
      fix j o1 assume j: "ord b' j = Some o1" "o_type o1 \<noteq> LIMIT"
      have "j \<in> dom (order_map b')" "j \<in> unrested b'" using j by (auto simp: unrested_def dom_ord [symmetric])
      then have "j \<notin> resting b'" using book_relD(3) [OF \<open>book_rel (unrested b') b'\<close>] by simp
      then have "j \<in> unrested b" using book_relD(3) [OF rel'] \<open>j \<in> dom (order_map b')\<close> by simp
      then show "ord b j = Some o1" using j none keep [of j] by (cases "j = i") auto
    qed
    ultimately show ?thesis by (simp add: book_inv_def)
  qed
  have g: ?goal
  proof (cases "order_map b i")
    case None
    then have "i \<notin> resting b" using book_relD(3) [OF rel] by auto
    then show ?thesis
      using r None inv spec_cancel_none [OF rel] by (auto simp: cancel_order_def)
  next
    case (Some s)
    consider (dead) "\<not> is_active (obj s b)" | (rest) "is_active (obj s b)" "i \<in> resting b"
      | (left) "is_active (obj s b)" "i \<notin> resting b" by blast
    then show ?thesis
    proof cases
      case dead
      have "i \<notin> resting b"
      proof
        assume "i \<in> resting b"
        then show False using resting_level [OF rel Some] dead by (auto simp: rests_def)
      qed
      then show ?thesis
        using r Some dead inv spec_cancel_none [OF rel] by (auto simp: cancel_order_def)
    next
      case rest
      note C = cancel_resting [OF rel Some rest(2) r refl]
      have "i \<notin> aids (abs b (opposite (o_side (obj s b))))"
      proof -
        obtain l xs ys where "i \<in> aids (abs b (o_side (obj s b)))" using resting_level [OF rel Some rest(2)] by metis
        then show ?thesis
          using aids_sides_disjoint [OF book_relD(2) [OF rel] book_relD(2) [OF rel], of "o_side (obj s b)"]
          by (auto simp: abs_def)
      qed
      then have a: "abs b' = (\<lambda>sd. spec_cancel i (abs b sd))"
        using C(3) spec_cancel_both [OF rel] by metis
      have "ord b' i = None" by (simp add: ord_def C(5))
      then have "book_inv b'" using finish [OF C(2) a] C(7) by blast
      then show ?thesis using C Some rest a by auto
    next
      case left
      have o: "ord b i = Some (obj s b)" by (rule ord_slot [OF Some])
      have iU: "i \<in> unrested b" using left(2) Some book_relD(3) [OF rel] by auto
      then have t: "o_type (obj s b) \<noteq> LIMIT" using o by (simp add: unrested_def)
      then have "left_over (obj s b)" using inv o unfolding book_inv_def market_ok_def by blast
      moreover have "o_type (obj s b) \<noteq> POST_ONLY" using c Some left(1) by (auto simp: cancellable_def)
      ultimately have pr: "o_price (obj s b) = (if o_side (obj s b) = BUY then INT64_MAX else INT64_MIN)"
        by (simp add: left_over_def)
      have "o_price (obj s b) \<notin> fst ` set (ladder_of (o_side (obj s b)) b)"
      proof
        assume "o_price (obj s b) \<in> fst ` set (ladder_of (o_side (obj s b)) b)"
        then have "0 < o_price (obj s b)" "o_price (obj s b) < INT64_MAX"
          using inv unfolding book_inv_def prices_ok_def by blast+
        then show False unfolding pr by (simp add: int_limits split: if_splits)
      qed
      then have nf: "sm_find (o_price (obj s b)) (ladder_of (o_side (obj s b)) b) = None"
        by (simp add: sm_find_None)
      note C = cancel_left_over [OF rel Some iU left(1) nf r]
      have a: "abs b' = (\<lambda>sd. spec_cancel i (abs b sd))"
        using C(3) spec_cancel_none [OF rel left(2)] by simp
      have "ord b' i = None" by (simp add: ord_def C(5))
      then have "book_inv b'" using finish [OF C(2) a] C(7) by blast
      then show ?thesis using C Some left a by auto
    qed
  qed
  then show "book_inv b'" "abs b' = (\<lambda>sd. spec_cancel i (abs b sd))"
    "cr_found r \<longleftrightarrow> i \<in> dom (order_map b)"
    "cr_cancelled r \<longleftrightarrow> (\<exists>s. order_map b i = Some s \<and> is_active (obj s b))"
    "order_map b' = (if cr_cancelled r then (order_map b)(i := None) else order_map b)"
    "order_id_seq b' = order_id_seq b" "stale_reads b' = stale_reads b" by blast+
qed


section \<open>The branches of add_order that add nothing\<close>

lemma book_inv_quiet:
  assumes "ord b' = ord b" "order_map b' = order_map b" "\<And>sd. ladder_of sd b' = ladder_of sd b" "heap_inv b'"
    "book_inv b"
  shows "book_inv b'" "abs b' = abs b"
proof -
  have u: "unrested b' = unrested b" by (simp add: unrested_def assms(1))
  have "book_rel (unrested b') b'"
    unfolding u by (rule book_rel_frame [OF assms(4,2,3,1)]) (use assms(5) in \<open>simp add: book_inv_def\<close>)
  moreover have "bid_ladder b' = bid_ladder b" "ask_ladder b' = ask_ladder b"
    using assms(3) [of BUY] assms(3) [of SELL] by simp_all
  ultimately show "book_inv b'"
    using assms(5) by (simp add: book_inv_def prices_ok_def assms(3) uncrossed_def market_ok_def assms(1))
  show "abs b' = abs b" by (simp add: abs_def assms fun_eq_iff)
qed

lemma heap_inv_seq:
  assumes "heap_inv b" and "order_map b' = order_map b" "order_id_seq b \<le> order_id_seq b'"
    and "free_slots (order_pool b') = free_slots (order_pool b)"
    and "pool_ok MAX_ORDERS (order_pool b')"
    and "\<And>i s. order_map b i = Some s \<Longrightarrow> obj s b' = obj s b"
  shows "heap_inv b'"
  using assms by (fastforce simp: heap_inv_def)

lemma add_order_fok_fails:
  assumes inv: "book_inv b" and ok: "0 < qty" and seq: "order_id_seq b < 2 ^ 64 - 1"
    and al: "allocate default_order (order_pool b) = (Some s, pool1)"
    and fok: "\<not> can_fill_fok sd p qty b"
  shows "\<exists>b'. add_order sd FOK p qty exch b = Some (reject, b') \<and> book_inv b' \<and> abs b' = abs b \<and>
    order_map b' = order_map b \<and> order_id_seq b' = order_id_seq b + 1 \<and> stale_reads b' = stale_reads b"
proof -
  have rel: "book_rel (unrested b) b" using inv by (simp add: book_inv_def)
  note hi = book_relD(1) [OF rel]
  define b1 where "b1 = new_order sd FOK p qty exch s (b\<lparr>order_pool := pool1\<rparr>)"
  note N = new_order_facts [OF rel al seq b1_def]
  have "\<not> can_fill_fok sd (o_price (obj s b1)) (o_qty (obj s b1)) b1"
    using fok by (simp add: N(1) init_order_def can_fill_fok_def N(4))
  then have ad: "add_order sd FOK p qty exch b = Some (reject, dealloc s b1)"
    using ok al by (simp add: add_order_def b1_def Let_def)
  have "s \<notin> free_slots (order_pool b1)" by (simp add: N)
  note D = deallocate_slots [OF N(7) N(9) this]
  have hi': "heap_inv (dealloc s b1)"
    using hi by (rule heap_inv_seq) (use D N(8) in \<open>auto simp: heap_simps N(3,5,6,16)\<close>)
  have "ord (dealloc s b1) = ord b" by (simp add: heap_simps N)
  note Q = book_inv_quiet [OF this _ _ hi' inv]
  show ?thesis
    using ad Q by (intro exI [of _ "dealloc s b1"]) (simp add: heap_simps N)
qed

lemma add_order_rejects:
  "\<not> 0 < qty \<or> tp = LIMIT \<and> p \<le> 0 \<or> free_top (order_pool b) = 0 \<Longrightarrow> add_order sd tp p qty exch b = Some (reject, b)"
  by (auto simp: add_order_def allocate_def)

text \<open>Every call of \<open>add_order\<close> returns and keeps the invariant.\<close>

lemma add_order_inv:
  assumes inv: "book_inv b" and lim: "tp = LIMIT \<Longrightarrow> p < INT64_MAX" and seq: "order_id_seq b < 2 ^ 64 - 1"
  shows "\<exists>r b'. add_order sd tp p qty exch b = Some (r, b') \<and> book_inv b' \<and>
    order_id_seq b' \<le> order_id_seq b + 1"
proof (cases "\<not> 0 < qty \<or> tp = LIMIT \<and> p \<le> 0 \<or> free_top (order_pool b) = 0")
  case True
  then show ?thesis using add_order_rejects inv by fastforce
next
  case False
  then have ok: "order_ok tp p qty" using lim by (auto simp: order_ok_def)
  obtain s pool1 where al: "allocate default_order (order_pool b) = (Some s, pool1)"
    using False by (auto simp: allocate_def Let_def)
  show ?thesis
  proof (cases "tp = FOK \<and> \<not> can_fill_fok sd p qty b")
    case True
    have "0 < qty" using ok by (simp add: order_ok_def)
    then show ?thesis using add_order_fok_fails [OF inv _ seq al, of qty sd p exch] True by auto
  next
    case False
    obtain n A' fs where sp: "spec_take sd tp p qty (order_id_seq b + 1) (abs b) = (n, A', fs)"
      by (metis prod_cases3)
    show ?thesis using add_order_main [OF inv ok seq al _ sp, of exch] False by auto
  qed
qed

section \<open>modify, clear, a new book\<close>

lemma modify_inv:
  assumes inv: "book_inv b" and c: "cancellable i b"
    and lim: "p < INT64_MAX" and seq: "order_id_seq b < 2 ^ 64 - 1"
  shows "\<exists>r b'. modify_order i p qty b = Some (r, b') \<and> book_inv b'"
proof (cases "order_map b i")
  case None
  then show ?thesis using inv by (simp add: modify_order_def)
next
  case (Some s)
  obtain r1 b1 where r: "cancel_order i b = (r1, b1)" by fastforce
  note C = cancel_main [OF inv c r]
  have "\<exists>r b'. add_order (o_side (obj s b)) (o_type (obj s b)) p qty (o_exchange (obj s b)) b1 = Some (r, b') \<and>
      book_inv b' \<and> order_id_seq b' \<le> order_id_seq b1 + 1"
    by (rule add_order_inv [OF C(1)]) (use lim seq C(6) in simp_all)
  then show ?thesis using Some r by (auto simp: modify_order_def Let_def)
qed

lemma empty_book_inv:
  assumes "order_map b = Map.empty" "bid_ladder b = []" "ask_ladder b = []"
    and "pool_ok MAX_ORDERS (order_pool b)" "free_slots (order_pool b) = {..<MAX_ORDERS}"
  shows "book_inv b" "abs b = (\<lambda>_. [])"
proof -
  have l: "ladder_of sd b = []" for sd using assms by (cases sd) simp_all
  show a: "abs b = (\<lambda>_. [])" by (simp add: abs_def l fun_eq_iff)
  have "heap_inv b" using assms by (simp add: heap_inv_def)
  then have "book_rel (unrested b) b"
    by (simp add: book_rel_def side_inv_def sm_ok_def l resting_def a assms)
  then show "book_inv b"
    by (simp add: book_inv_def prices_ok_def l uncrossed_def assms market_ok_def ord_def)
qed

lemma new_book_inv: "book_inv (new_book symb cb clk keys)" "abs (new_book symb cb clk keys) = (\<lambda>_. [])"
  by (rule empty_book_inv; simp add: new_book_def)+

lemma clear_book_inv: "book_inv (clear_book b)" "abs (clear_book b) = (\<lambda>_. [])"
proof -
  define b0 where "b0 = b\<lparr>bid_ladder := [], ask_ladder := [], order_map := Map.empty,
     order_pool := pool_reset MAX_ORDERS (order_pool b), order_id_seq := 0, trade_id_seq := 0,
     bk_stats := zero_stats\<rparr>"
  have "order_map (clear_book b) = Map.empty" "order_pool (clear_book b) = pool_reset MAX_ORDERS (order_pool b)"
    "ladder_of BUY (clear_book b) = []" "ladder_of SELL (clear_book b) = []"
    by (simp_all only: clear_book_def b0_def [symmetric] heap_simps) (simp_all add: b0_def)
  then show "book_inv (clear_book b)" "abs (clear_book b) = (\<lambda>_. [])"
    using empty_book_inv [of "clear_book b"] by simp_all
qed

section \<open>Depth\<close>

lemma depth_loop_take:
  "length out \<le> nat n \<Longrightarrow> 0 \<le> n \<Longrightarrow> depth_loop n out m =
     out @ map (\<lambda>(p, l). (l_price l, l_total_qty l, l_order_count l)) (take (nat n - length out) m)"
proof (induction n out m rule: depth_loop.induct)
  case (1 n out)
  then show ?case by simp
next
  case (2 n out p l m)
  show ?case
  proof (cases "n \<le> int (length out)")
    case True
    then show ?thesis using 2 by simp
  next
    case False
    then have "nat n - length out = Suc (nat n - Suc (length out))" by simp
    then show ?thesis using 2 False by simp
  qed
qed

lemma length_entries: "length (entries m ids) = length ids"
  by (simp add: entries_def)

lemma depth_spec:
  assumes "book_inv b" and "0 \<le> n"
  shows "depth sd n b = Inr (map (\<lambda>(p, q). (p, i64 (queue_qty q), length q)) (take (nat n) (abs b sd)))"
proof -
  have si: "side_inv (ord b) sd (ladder_of sd b)"
    by (rule book_relD(2)) (use assms(1) in \<open>auto simp: book_inv_def\<close>)
  have "map (\<lambda>(p, l). (l_price l, l_total_qty l, l_order_count l)) (ladder_of sd b) =
      map (\<lambda>(p, q). (p, i64 (queue_qty q), length q)) (abs b sd)"
    using si by (auto simp: abs_def abs_ladder_def side_inv_def level_rel_def level_links_def queue_qty_entries length_entries)
  then show ?thesis
    using assms(2) depth_loop_take [of "[]" n "ladder_of sd b"]
    by (simp add: depth_def take_map [symmetric])
qed

end
