(* ===== verification/Book_Runs.thy ===== *)
theory Book_Runs
  imports Book_Cancel
begin

text \<open>
  Price-time priority and conservation on the abstract book, runs of the public operations
  (\<open>reachable_book\<close>), the account of the pool's slots, the level whose head id is lost, and a few small
  books that the examples of the properties use.
\<close>

section \<open>Price-time priority on the abstract book\<close>

definition queue_order :: "aladder \<Rightarrow> order_id list" where
  "queue_order al = concat (map (map fst \<circ> snd) al)"

lemma queue_order_simps [simp]: "queue_order [] = []" "queue_order ((p, q) # al) = map fst q @ queue_order al"
  by (simp_all add: queue_order_def)

lemma spec_fill_all: "spec_fill n q = (n', [], fs) \<Longrightarrow> map fst fs = map fst q"
  by (induction n q arbitrary: n' fs rule: spec_fill.induct) (auto split: if_splits prod.splits)

lemma spec_sweep_fifo:
  "spec_sweep sd limit n al = (n', al', fs) \<Longrightarrow> \<exists>k. map (fst \<circ> snd) fs = take k (queue_order al)"
proof (induction rule: spec_sweep_induct)
  case (stop n al)
  then show ?case by (auto intro: exI [of _ 0])
next
  case (inside n p q ls n' q' c)
  obtain k where "map fst c = take k (map fst q)" using spec_fill_fifo [OF inside.hyps(3)] by blast
  then have "map (fst \<circ> snd) (map (Pair p) c) = take (min k (length q)) (queue_order ((p, q) # ls))"
    by (simp add: comp_def min_def)
  then show ?case by blast
next
  case (level n p q ls a c n' al' fs)
  obtain k where "map (fst \<circ> snd) fs = take k (queue_order ls)" using level.IH by blast
  moreover have "map fst c = map fst q" by (rule spec_fill_all [OF level.hyps(3)])
  ultimately have "map (fst \<circ> snd) (map (Pair p) c @ fs) = take (length q + k) (queue_order ((p, q) # ls))"
    by (simp add: comp_def)
  then show ?case by blast
qed

text \<open>The open quantity of a ladder, and what a sweep takes from it.\<close>

definition ladder_qty :: "aladder \<Rightarrow> quantity" where
  "ladder_qty al = sum_list (map (queue_qty \<circ> snd) al)"

lemma spec_sweep_ladder_qty:
  "spec_sweep sd limit n al = (n', al', fs) \<Longrightarrow> ladder_qty al' + afill_qty fs = ladder_qty al"
proof (induction rule: spec_sweep_induct)
  case (stop n al)
  then show ?case by simp
next
  case (inside n p q ls n' q' c)
  then show ?case using spec_fill_qty(2) [OF inside.hyps(3)] by (simp add: ladder_qty_def)
next
  case (level n p q ls a c n' al' fs)
  then show ?case using spec_fill_qty(2) [OF level.hyps(3)] by (simp add: ladder_qty_def queue_qty_def)
qed

lemma fills_trades:
  assumes "list_all2 (trade_is oid sd) fs trs"
  shows "map t_price trs = map fst fs" "map t_maker_id trs = map (fst \<circ> snd) fs"
    "map t_qty trs = map (snd \<circ> snd) fs" "sum_list (map t_qty trs) = afill_qty fs"
    "\<forall>t \<in> set trs. t_taker_id t = oid \<and> t_aggressor t = sd"
proof -
  have "map t_price trs = map fst fs \<and> map t_maker_id trs = map (fst \<circ> snd) fs \<and>
      map t_qty trs = map (snd \<circ> snd) fs \<and> (\<forall>t \<in> set trs. t_taker_id t = oid \<and> t_aggressor t = sd)"
    using assms by (induction rule: list_all2_induct) (simp_all add: trade_is_def)
  then show "map t_price trs = map fst fs" "map t_maker_id trs = map (fst \<circ> snd) fs"
    "map t_qty trs = map (snd \<circ> snd) fs" "sum_list (map t_qty trs) = afill_qty fs"
    "\<forall>t \<in> set trs. t_taker_id t = oid \<and> t_aggressor t = sd"
    by (simp_all add: afill_qty_def)
qed

text \<open>\<open>add_order_main\<close> in the form the properties use: what an accepted call has done.\<close>

lemma add_order_cases:
  assumes inv: "book_inv b" and lim: "tp = LIMIT \<Longrightarrow> p < INT64_MAX" and seq: "order_id_seq b < 2 ^ 64 - 1"
    and r: "add_order sd tp p qty exch b = Some (r, b')"
  obtains (reject) "r = reject" "abs b' = abs b" "book_inv b'"
    | (take) n A fs where "order_ok tp p qty" "0 < free_top (order_pool b)" "tp = FOK \<Longrightarrow> can_fill_fok sd p qty b"
      "spec_take sd tp p qty (order_id_seq b + 1) (abs b) = (n, A, fs)" "book_inv b'" "abs b' = A"
      "ar_id r = order_id_seq b + 1" "ar_accepted r \<longleftrightarrow> \<not> (tp = POST_ONLY \<and> fs \<noteq> [])"
      "ar_accepted r \<Longrightarrow> list_all2 (trade_is (order_id_seq b + 1) sd) fs (ar_fills r)"
      "\<not> ar_accepted r \<Longrightarrow> ar_fills r = []"
proof (cases "\<not> 0 < qty \<or> tp = LIMIT \<and> p \<le> 0 \<or> free_top (order_pool b) = 0")
  case True
  then show ?thesis using add_order_rejects r inv reject by fastforce
next
  case False
  then have ok: "order_ok tp p qty" using lim by (auto simp: order_ok_def)
  obtain s pool1 where al: "allocate default_order (order_pool b) = (Some s, pool1)"
    using False by (auto simp: allocate_def Let_def)
  show ?thesis
  proof (cases "tp = FOK \<and> \<not> can_fill_fok sd p qty b")
    case True
    have "0 < qty" using ok by (simp add: order_ok_def)
    then show ?thesis using add_order_fok_fails [OF inv _ seq al, of qty sd p exch] True r reject by auto
  next
    case F: False
    obtain n A' fs where sp: "spec_take sd tp p qty (order_id_seq b + 1) (abs b) = (n, A', fs)"
      by (metis prod_cases3)
    have fok: "tp = FOK \<Longrightarrow> can_fill_fok sd p qty b" using F by blast
    show ?thesis
      using add_order_main [OF inv ok seq al fok sp, of exch] r False fok
      by (intro take [OF ok _ fok sp]) auto
  qed
qed

lemma spec_take_sweep:
  assumes "spec_take sd tp p qty i A = (n, A', fs)"
  obtains al where "spec_sweep sd (effective_price sd tp p) qty (A (opposite sd)) = (n, al, fs)"
    "A' (opposite sd) = al"
    "A' sd = (if tp = LIMIT \<and> 0 < n then spec_rest sd p i n (A sd) else A sd)"
proof -
  obtain m al gs where "spec_sweep sd (effective_price sd tp p) qty (A (opposite sd)) = (m, al, gs)"
    by (metis prod_cases3)
  then show thesis using assms by (intro that [of al]) (auto simp: spec_take_def split: if_splits)
qed

lemma spec_take_aids:
  assumes t: "spec_take sd tp p qty i A = (n, A', fs)" and ok: "\<And>sd. sm_ok (side_lt sd) (A sd)"
  shows "aids (A' sd') \<subseteq> insert i (aids (A sd'))"
proof -
  obtain al where s: "spec_sweep sd (effective_price sd tp p) qty (A (opposite sd)) = (n, al, fs)"
    "A' (opposite sd) = al"
    and r: "A' sd = (if tp = LIMIT \<and> 0 < n then spec_rest sd p i n (A sd) else A sd)"
    by (rule spec_take_sweep [OF t])
  show ?thesis
    using side_or_opposite [of sd' sd]
  proof
    assume "sd' = sd"
    then show ?thesis using r aids_spec_rest [OF ok, where sd = sd] by auto
  next
    assume "sd' = opposite sd"
    then show ?thesis using spec_sweep_sub [OF s(1)] s(2) by auto
  qed
qed

section \<open>The quantity on offer\<close>

text \<open>The quantity the opposite side offers at prices the taker accepts.\<close>

definition available_qty :: "side \<Rightarrow> price \<Rightarrow> aladder \<Rightarrow> quantity" where
  "available_qty sd limit al = ladder_qty (takeWhile (\<lambda>e. \<not> price_blocked sd limit (fst e)) al)"

lemma queue_qty_pos: "queue_ok q \<Longrightarrow> 0 < queue_qty q"
proof -
  assume ok: "queue_ok q"
  then obtain e q2 where e: "q = e # q2" by (cases q) (auto simp: queue_ok_def)
  have "0 \<le> sum_list (map snd q2)" by (rule sum_list_nonneg) (use ok in \<open>auto simp: e queue_ok_def intro: less_imp_le\<close>)
  then show ?thesis using ok by (simp add: e queue_ok_def queue_qty_def)
qed

lemma available_nonneg: "aladder_ok al \<Longrightarrow> 0 \<le> available_qty sd limit al"
proof (induction al)
  case (Cons e al)
  then show ?case
    using queue_qty_pos [of "snd e"] by (cases e) (simp add: available_qty_def ladder_qty_def)
qed (simp add: available_qty_def ladder_qty_def)

lemma spec_sweep_available:
  "spec_sweep sd limit n al = (n', al', fs) \<Longrightarrow> aladder_ok al \<Longrightarrow> 0 \<le> n \<Longrightarrow>
     n' = (if n \<le> available_qty sd limit al then 0 else n - available_qty sd limit al)"
proof (induction rule: spec_sweep_induct)
  case (stop n al)
  show ?case
  proof (cases "al = [] \<or> price_blocked sd limit (fst (hd al))")
    case True
    then have "available_qty sd limit al = 0" by (cases al) (auto simp: available_qty_def ladder_qty_def)
    then show ?thesis using stop by auto
  next
    case False
    then show ?thesis using stop available_nonneg [of al sd limit] by auto
  qed
next
  case (inside n p q ls n' q' c)
  have q: "\<forall>e \<in> set q. 0 < snd e" using inside.prems by (simp add: queue_ok_def)
  have "available_qty sd limit ((p, q) # ls) = queue_qty q + available_qty sd limit ls"
    using inside.hyps by (simp add: available_qty_def ladder_qty_def)
  then show ?case
    using spec_fill_amount [OF inside.hyps(3) inside.prems(2) q] inside.hyps available_nonneg [of ls sd limit] inside.prems
    by auto
next
  case (level n p q ls a c n' al' fs)
  have q: "\<forall>e \<in> set q. 0 < snd e" using level.prems by (simp add: queue_ok_def)
  have "available_qty sd limit ((p, q) # ls) = queue_qty q + available_qty sd limit ls"
    using level.hyps by (simp add: available_qty_def ladder_qty_def)
  moreover have "a = n - queue_qty q" "queue_qty q \<le> n"
    using spec_fill_amount [OF level.hyps(3) level.prems(2) q] by auto
  ultimately show ?case using level.IH level.prems by auto
qed

section \<open>The fill-or-kill test\<close>

text \<open>
  The sums of \<open>can_fill_fok\<close> wrap, so the test succeeds if one of the partial sums, as an
  \<open>int64_t\<close>, reaches the quantity. A wrapped sum is never above the true one.
\<close>

lemma fok_scan_exact:
  assumes "side_inv m sd' lad" and "i64 a < qty"
  shows "fok_scan sd limit qty (i64 a) lad \<longleftrightarrow>
    (\<exists>k. qty \<le> i64 (a + ladder_qty (take k (takeWhile (\<lambda>e. \<not> price_blocked sd limit (fst e)) (abs_ladder m lad)))))"
  using assms
proof (induction lad arbitrary: a)
  case Nil
  then show ?case by (simp add: ladder_qty_def)
next
  case (Cons e lad)
  obtain p l where e: "e = (p, l)" by fastforce
  define offers where "offers = takeWhile (\<lambda>e. \<not> price_blocked sd limit (fst e)) (abs_ladder m lad)"
  define q where "q = entries m (lids m l)"
  have lr: "level_rel m sd' p l (lids m l)" and si: "side_inv m sd' lad"
    using Cons.prems by (simp_all add: e side_inv_Cons)
  have tot: "l_total_qty l = i64 (queue_qty q)" using lr by (simp add: q_def queue_qty_entries level_rel_def)
  have step: "(\<exists>k. qty \<le> i64 (a + ladder_qty (take k ((p, q) # offers)))) \<longleftrightarrow>
      (\<exists>k. qty \<le> i64 ((a + queue_qty q) + ladder_qty (take k offers)))" (is "?L \<longleftrightarrow> ?R")
  proof
    assume ?L
    then obtain k where k: "qty \<le> i64 (a + ladder_qty (take k ((p, q) # offers)))" by blast
    then obtain j where "k = Suc j" using Cons.prems(2) by (cases k) (auto simp: ladder_qty_def)
    then show ?R using k by (auto simp: ladder_qty_def add.assoc)
  next
    assume ?R
    then obtain k where "qty \<le> i64 (a + ladder_qty (take (Suc k) ((p, q) # offers)))" by (auto simp: ladder_qty_def add.assoc)
    then show ?L by blast
  qed
  show ?case
  proof (cases "price_blocked sd limit p")
    case True
    then show ?thesis using Cons.prems(2) by (auto simp: e ladder_qty_def)
  next
    case open_level: False
    show ?thesis
    proof (cases "qty \<le> i64 (a + queue_qty q)")
      case True
      then have "\<exists>k. qty \<le> i64 ((a + queue_qty q) + ladder_qty (take k offers))" by (intro exI [of _ 0]) (simp add: ladder_qty_def)
      then show ?thesis using open_level True step by (simp add: e tot q_def [symmetric] offers_def [symmetric])
    next
      case False
      then show ?thesis
        using open_level step Cons.IH [OF si, of "a + queue_qty q"]
        by (simp add: e tot q_def [symmetric] offers_def [symmetric])
    qed
  qed
qed

lemma ladder_qty_take:
  assumes "aladder_ok al"
  shows "0 \<le> ladder_qty (take k al) \<and> ladder_qty (take k al) \<le> ladder_qty al"
  using assms
proof (induction al arbitrary: k)
  case (Cons e al)
  have "0 < queue_qty (snd e)" using Cons.prems by (cases e) (simp add: queue_qty_pos)
  moreover have "0 \<le> ladder_qty al" using Cons.IH [of 0] Cons.prems by (cases e) (simp add: ladder_qty_def)
  ultimately show ?case using Cons by (cases k; cases e) (fastforce simp: ladder_qty_def)+
qed (simp add: ladder_qty_def)

lemma can_fill_fok_spec:
  assumes "book_rel X b" and "0 < qty"
  shows "can_fill_fok sd p qty b \<Longrightarrow> qty \<le> available_qty sd p (abs b (opposite sd))"
    and "available_qty sd p (abs b (opposite sd)) \<le> INT64_MAX \<Longrightarrow> qty \<le> available_qty sd p (abs b (opposite sd)) \<Longrightarrow>
      can_fill_fok sd p qty b"
proof -
  define offers where "offers = takeWhile (\<lambda>e. \<not> price_blocked sd p (fst e)) (abs b (opposite sd))"
  have "aladder_ok (abs b (opposite sd))" using side_inv_aladder_ok [OF book_relD(2) [OF assms(1)]] by (simp add: abs_def)
  then have ok: "aladder_ok offers" by (auto simp: offers_def aladder_ok_def dest: set_takeWhileD)
  have av: "available_qty sd p (abs b (opposite sd)) = ladder_qty offers" by (simp add: available_qty_def offers_def)
  have scan: "can_fill_fok sd p qty b \<longleftrightarrow> (\<exists>k. qty \<le> i64 (ladder_qty (take k offers)))"
    using fok_scan_exact [OF book_relD(2) [OF assms(1)], of 0 qty sd p "opposite sd"] assms(2)
    by (simp add: can_fill_fok_def offers_def abs_def)
  show "qty \<le> available_qty sd p (abs b (opposite sd))" if fill: "can_fill_fok sd p qty b"
  proof -
    obtain k where k: "qty \<le> i64 (ladder_qty (take k offers))" using fill scan by blast
    have "i64 (ladder_qty (take k offers)) \<le> ladder_qty (take k offers)"
      using ladder_qty_take [OF ok, of k] by (intro i64_le) (simp add: int_limits)
    then show ?thesis using k ladder_qty_take [OF ok, of k] by (simp add: av)
  qed
  show "can_fill_fok sd p qty b" if a: "available_qty sd p (abs b (opposite sd)) \<le> INT64_MAX"
    "qty \<le> available_qty sd p (abs b (opposite sd))"
  proof -
    have "i64 (ladder_qty offers) = ladder_qty offers"
      using a ladder_qty_take [OF ok, of "length offers"] by (intro i64_id) (simp_all add: av int_limits)
    then have "qty \<le> i64 (ladder_qty (take (length offers) offers))" using a by (simp add: av)
    then show ?thesis using scan by blast
  qed
qed

text \<open>One level whose quantity is above \<open>INT64_MAX\<close> counts as negative.\<close>

lemma can_fill_fok_overflow:
  assumes "book_rel X b" and "0 < qty" and "abs b (opposite sd) = [(p0, q)]"
    and "INT64_MAX < queue_qty q" and "queue_qty q < 2 ^ 64"
  shows "\<not> can_fill_fok sd p qty b"
proof -
  have "(queue_qty q + 2 ^ 63) mod 2 ^ 64 = (queue_qty q + 2 ^ 63 - 2 ^ 64) mod 2 ^ 64"
    using mod_add_self2 [of "queue_qty q + 2 ^ 63 - 2 ^ 64" "2 ^ 64"] by (simp add: add.commute)
  also have "\<dots> = queue_qty q + 2 ^ 63 - 2 ^ 64" using assms(4,5) by (intro mod_pos_pos_trivial) (simp_all add: int_limits)
  finally have neg: "i64 (queue_qty q) < 0" using assms(5) by (simp add: i64_def)
  have zero: "\<not> qty \<le> i64 (ladder_qty [])" using assms(2) by (simp add: ladder_qty_def)
  moreover have "\<not> qty \<le> i64 (ladder_qty (take k [(p0, q)]))" for k
    using neg assms(2) zero by (cases k) (auto simp: ladder_qty_def)
  ultimately show ?thesis
    using fok_scan_exact [OF book_relD(2) [OF assms(1)], of 0 qty sd p "opposite sd"] assms(2,3)
    by (simp add: can_fill_fok_def abs_def)
qed

section \<open>Runs of the book\<close>

datatype book_cmd = Add side order_type price quantity exchange | Cancel order_id
  | Modify order_id price quantity | Clear

fun run_cmd :: "book_cmd \<Rightarrow> book \<Rightarrow> book option" where
  "run_cmd (Add sd tp p qty exch) b = map_option snd (add_order sd tp p qty exch b)"
| "run_cmd (Cancel i) b = Some (snd (cancel_order i b))"
| "run_cmd (Modify i p qty) b = map_option snd (modify_order i p qty b)"
| "run_cmd Clear b = Some (clear_book b)"

text \<open>
  The calls the invariant covers: an id is left in the counter, a limit price is below the largest
  \<open>int64_t\<close>, and no active post-only order is cancelled or modified.
\<close>

fun cmd_ok :: "book_cmd \<Rightarrow> book \<Rightarrow> bool" where
  "cmd_ok (Add sd tp p qty exch) b \<longleftrightarrow> (tp = LIMIT \<longrightarrow> p < INT64_MAX) \<and> order_id_seq b < 2 ^ 64 - 1"
| "cmd_ok (Cancel i) b \<longleftrightarrow> cancellable i b"
| "cmd_ok (Modify i p qty) b \<longleftrightarrow> cancellable i b \<and> p < INT64_MAX \<and> order_id_seq b < 2 ^ 64 - 1"
| "cmd_ok Clear b \<longleftrightarrow> True"

inductive reachable_book :: "book \<Rightarrow> bool" where
  start: "reachable_book (new_book symb cb clk keys)"
| command: "reachable_book b \<Longrightarrow> cmd_ok c b \<Longrightarrow> run_cmd c b = Some b' \<Longrightarrow> reachable_book b'"

lemma run_cmd_inv: "book_inv b \<Longrightarrow> cmd_ok c b \<Longrightarrow> \<exists>b'. run_cmd c b = Some b' \<and> book_inv b'"
proof (cases c)
  case (Add sd tp p qty exch)
  assume "book_inv b" "cmd_ok c b"
  then show ?thesis using add_order_inv [of b tp p sd qty exch] Add by auto
next
  case (Cancel i)
  assume "book_inv b" "cmd_ok c b"
  moreover obtain r b' where "cancel_order i b = (r, b')" by fastforce
  ultimately show ?thesis using cancel_main(1) [of b i r b'] Cancel by simp
next
  case (Modify i p qty)
  assume "book_inv b" "cmd_ok c b"
  then show ?thesis using modify_inv [of b i p qty] Modify by auto
next
  case Clear
  then show ?thesis using clear_book_inv by simp
qed

lemma reachable_inv: "reachable_book b \<Longrightarrow> book_inv b"
  by (induction rule: reachable_book.induct) (use new_book_inv run_cmd_inv in fastforce)+

text \<open>Every slot of the pool is free or belongs to exactly one order of the map.\<close>

lemma free_or_owned:
  assumes "heap_inv b" and "s < MAX_ORDERS"
  shows "s \<in> free_slots (order_pool b) \<longleftrightarrow> s \<notin> ran (order_map b)"
  using heap_invD(4,8) [OF assms(1)] assms(2) by (force simp: ran_def)

lemma used_slots:
  assumes "heap_inv b"
  shows "order_count b = card (dom (order_map b))"
proof -
  note D = heap_invD [OF assms]
  have "{..<MAX_ORDERS} = free_slots (order_pool b) \<union> ran (order_map b)"
    using D(8) D(1,3) by (force simp: pool_ok_def ran_def)
  moreover have dj: "free_slots (order_pool b) \<inter> ran (order_map b) = {}" using D(4) by (auto simp: ran_def)
  moreover have "finite (free_slots (order_pool b))" by (simp add: free_slots_def)
  moreover have "ran (order_map b) \<subseteq> {..<MAX_ORDERS}" using D(3) by (auto simp: ran_def)
  then have "finite (ran (order_map b))" by (rule finite_subset) simp
  ultimately have "MAX_ORDERS = card (free_slots (order_pool b)) + card (ran (order_map b))"
    using card_Un_disjoint [of "free_slots (order_pool b)" "ran (order_map b)"] by (metis card_lessThan)
  moreover have "card (ran (order_map b)) = card (dom (order_map b))"
  proof -
    have "ran (order_map b) = (\<lambda>i. the (order_map b i)) ` dom (order_map b)" by (force simp: ran_def dom_def)
    moreover have "inj_on (\<lambda>i. the (order_map b i)) (dom (order_map b))"
      using heap_inj_eq [OF D(2)] by (auto simp: inj_on_def)
    ultimately show ?thesis by (simp add: card_image)
  qed
  ultimately show ?thesis
    using card_free_slots [OF D(1)] by (simp add: order_count_def pool_used_def)
qed

section \<open>A level whose head is lost\<close>

text \<open>
  When the best level is not empty but its \<open>head_id\<close> is 0, \<open>match_order\<close> never ends: the inner loop
  has no order to start from and the clean-up keeps the level.
\<close>

definition headless :: "side \<Rightarrow> nat \<Rightarrow> book \<Rightarrow> bool" where
  "headless sd ts b \<longleftrightarrow> (\<exists>p l lad. ladder_of sd b = (p, l) # lad \<and> l_head l = 0 \<and> \<not> level_empty l \<and>
     \<not> price_blocked (o_side (obj ts b)) (o_price (obj ts b)) p) \<and> 0 < o_remaining (obj ts b)"

lemma sweep_spins:
  assumes "headless sd ts b"
  shows "sweep sd ts out b = None"
proof (rule ccontr)
  assume "sweep sd ts out b \<noteq> None"
  then obtain r where "sweep sd ts out b = Some r" by auto
  then have "\<not> headless sd ts b"
  proof (rule sweep.raw_induct [where P = "\<lambda>sd ts out b r. \<not> headless sd ts b", rotated])
    fix swp sd ts out b r
    assume IH: "\<And>sd ts out b r. swp sd ts out b = Some r \<Longrightarrow> \<not> headless sd ts b"
      and eq: "(case ladder_of sd b of [] \<Rightarrow> Some (out, b)
        | e # _ \<Rightarrow>
          if 0 < o_remaining (obj ts b) then
            if price_blocked (o_side (obj ts b)) (o_price (obj ts b)) (fst e) then Some (out, b)
            else (case walk_level ts (l_head (snd e)) out b of None \<Rightarrow> None
               | Some r \<Rightarrow> swp sd ts (fst r) (sweep_cleanup sd (fst e) (snd r)))
          else Some (out, b)) = Some r"
    show "\<not> headless sd ts b"
    proof
      assume h: "headless sd ts b"
      then obtain p l lad where l: "ladder_of sd b = (p, l) # lad" "l_head l = 0" "\<not> level_empty l"
        "\<not> price_blocked (o_side (obj ts b)) (o_price (obj ts b)) p" "0 < o_remaining (obj ts b)"
        by (auto simp: headless_def)
      have "sweep_cleanup sd p b = b" using l by (simp add: sweep_cleanup_def cleanup_at_def)
      moreover have "walk_level ts (l_head l) out b = Some (out, b)" using l by (intro walk_level_stop) simp
      ultimately have "swp sd ts out b = Some r" using eq l by simp
      then show False using IH h by blast
    qed
  qed
  then show False using assms by blast
qed

text \<open>What cancelling an active post-only order does to the level of its price.\<close>

lemma cancel_post_only:
  assumes inv: "book_inv b" and o: "ord b i = Some o1" "o_type o1 = POST_ONLY" "is_active o1"
    and l: "ladder_of (o_side o1) b = (o_price o1, l) # lad" and cnt: "2 \<le> l_order_count l"
    and b': "b' = snd (cancel_order i b)"
  shows "\<exists>l'. ladder_of (o_side o1) b' = (o_price o1, l') # lad \<and> l_head l' = 0 \<and> \<not> level_empty l' \<and>
    order_id_seq b' = order_id_seq b \<and> 0 < free_top (order_pool b')"
proof -
  obtain s where om: "order_map b i = Some s" and s: "obj s b = o1" using o(1) by (rule ord_SomeE)
  have "o_type o1 \<noteq> LIMIT" using o(2) by simp
  then have "left_over o1" using inv o(1) unfolding book_inv_def market_ok_def by blast
  then have lnk: "o_prev o1 = 0" "o_next o1 = 0" by (simp_all add: left_over_def)
  define l' where "l' = l\<lparr>l_total_qty := i64 (l_total_qty l - o_remaining o1), l_head := 0, l_tail := 0,
    l_order_count := l_order_count l - 1\<rparr>"
  have rm: "level_remove_order_links (l\<lparr>l_total_qty := i64 (l_total_qty l - o_remaining o1)\<rparr>) s b = (l', b)"
    using cnt lnk by (simp add: level_remove_split s Let_def l'_def)
  have ne: "\<not> level_empty l'" using cnt by (simp add: level_empty_def l'_def)
  have cr: "cancel_remove_from (o_side o1) s b = put_level (o_side o1) (o_price o1) l' b"
    using l rm ne by (simp add: cancel_remove_from_def s)
  have b'': "ladder_of (o_side o1) b' = (o_price o1, l') # lad" "order_id_seq b' = order_id_seq b"
    "free_top (order_pool b') = Suc (free_top (order_pool b))"
    using om s o l cr by (simp_all add: b' cancel_order_def Let_def heap_simps ladder.lt_irrefl)
      (simp_all add: deallocate_def upd_obj_def heap_simps put_level_def)
  then show ?thesis using ne by (simp add: l'_def)
qed


section \<open>Small books\<close>

definition two_sides :: "aladder \<Rightarrow> aladder \<Rightarrow> side \<Rightarrow> aladder" where
  "two_sides bids asks sd = (case sd of BUY \<Rightarrow> bids | SELL \<Rightarrow> asks)"

lemma two_sides_simps [simp]:
  "two_sides x y BUY = x" "two_sides x y SELL = y"
  "(two_sides x y)(BUY := z) = two_sides z y" "(two_sides x y)(SELL := z) = two_sides x z"
  by (auto simp: two_sides_def fun_eq_iff split: side.split)

lemma slots_left:
  assumes inv: "book_inv b" and "order_id_seq b < MAX_ORDERS"
  shows "0 < free_top (order_pool b)"
proof -
  have hi: "heap_inv b" using inv by (simp add: book_inv_def book_rel_def)
  have "dom (order_map b) \<subseteq> {1..order_id_seq b}" using heap_invD(6,7) [OF hi] by (force simp: dom_def Suc_le_eq)
  then have "card (dom (order_map b)) \<le> card {1..order_id_seq b}" by (rule card_mono [rotated]) simp
  then have "card (dom (order_map b)) < MAX_ORDERS" using assms(2) by simp
  then show ?thesis using used_slots [OF hi] by (simp add: order_count_def pool_used_def)
qed

text \<open>One more order on a book whose abstract state is known.\<close>

lemma add_step:
  assumes rb: "reachable_book b" and A: "abs b = A" and k: "order_id_seq b = k" "k < 1000"
    and ok: "order_ok tp p qty" and tp: "tp \<noteq> FOK" and sp: "spec_take sd tp p qty (k + 1) A = (n, A', fs)"
  obtains r b' where "add_order sd tp p qty exch b = Some (r, b')" "reachable_book b'" "abs b' = A'"
    "order_id_seq b' = k + 1" "\<And>i. i \<in> unrested b \<Longrightarrow> ord b' i = ord b i"
    "k + 1 \<in> dom (order_map b') \<longleftrightarrow> stays tp n (fs \<noteq> [])"
    "\<And>o2. tp \<noteq> LIMIT \<Longrightarrow> ord b' (k + 1) = Some o2 \<Longrightarrow> o_side o2 = sd \<and> o_type o2 = tp \<and>
       o_price o2 = effective_price sd tp p \<and> (is_active o2 \<longleftrightarrow> 0 < n)"
proof -
  have inv: "book_inv b" by (rule reachable_inv [OF rb])
  have seq: "order_id_seq b < 2 ^ 64 - 1" using k by simp
  have "0 < free_top (order_pool b)" using k by (intro slots_left [OF inv]) (simp add: MAX_ORDERS_def)
  then obtain s pool1 where al: "allocate default_order (order_pool b) = (Some s, pool1)"
    by (auto simp: allocate_def Let_def)
  have fok: "tp = FOK \<Longrightarrow> can_fill_fok sd p qty b" using tp by blast
  obtain r b' where M: "add_order sd tp p qty exch b = Some (r, b')" "abs b' = A'" "order_id_seq b' = k + 1"
    "\<forall>i \<in> unrested b. ord b' i = ord b i" "k + 1 \<in> dom (order_map b') \<longleftrightarrow> stays tp n (fs \<noteq> [])"
    "\<forall>o2. tp \<noteq> LIMIT \<longrightarrow> ord b' (k + 1) = Some o2 \<longrightarrow> o_side o2 = sd \<and> o_type o2 = tp \<and>
       o_price o2 = effective_price sd tp p \<and> o_remaining o2 = n \<and> (is_active o2 \<longleftrightarrow> 0 < n)"
    using add_order_main [OF inv ok seq al fok sp [folded A k(1)], of exch] unfolding k(1) by blast
  have "cmd_ok (Add sd tp p qty exch) b" using ok seq by (simp add: order_ok_def)
  then have "reachable_book b'" by (rule reachable_book.command [OF rb]) (simp add: M(1))
  then show thesis using M by (intro that [of r b']) blast+
qed

lemmas small_book = order_ok_def int_limits spec_take_def spec_rest_def effective_price_def price_blocked_def
  stays_def

lemma empty_reachable: "reachable_book (new_book [] False (\<lambda>_. 0) keys)" "order_id_seq (new_book [] False (\<lambda>_. 0) keys) = 0"
  "abs (new_book [] False (\<lambda>_. 0) keys) = two_sides [] []"
  by (auto simp: reachable_book.start new_book_inv two_sides_def fun_eq_iff split: side.split)
    (simp add: new_book_def)

definition asks_3 :: aladder where
  "asks_3 = [(100, [(1, 5), (2, 3)]), (101, [(3, 4)])]"

text \<open>Two asks at 100, one at 101, one bid at 90.\<close>

lemma book_3_1:
  obtains b where "reachable_book b" "order_id_seq b = 4" "abs b = two_sides [(90, [(4, 7)])] asks_3"
proof -
  obtain r1 b1 where 1: "reachable_book b1" "abs b1 = two_sides [] [(100, [(1, 5)])]" "order_id_seq b1 = 1"
    by (rule add_step [OF empty_reachable(1,3,2), of LIMIT 100 5 SELL 5 "two_sides [] [(100, [(1, 5)])]" "[]" GENERIC])
      (simp_all add: small_book)
  obtain r2 b2 where 2: "reachable_book b2" "abs b2 = two_sides [] [(100, [(1, 5), (2, 3)])]" "order_id_seq b2 = 2"
    by (rule add_step [OF 1, of LIMIT 100 3 SELL 3 "two_sides [] [(100, [(1, 5), (2, 3)])]" "[]" GENERIC])
      (simp_all add: small_book numeral_2_eq_2)
  obtain r3 b3 where 3: "reachable_book b3" "abs b3 = two_sides [] asks_3" "order_id_seq b3 = 3"
    by (rule add_step [OF 2, of LIMIT 101 4 SELL 4 "two_sides [] asks_3" "[]" GENERIC])
      (simp_all add: small_book asks_3_def)
  obtain r4 b4 where 4: "reachable_book b4" "abs b4 = two_sides [(90, [(4, 7)])] asks_3" "order_id_seq b4 = 4"
    by (rule add_step [OF 3, of LIMIT 90 7 BUY 7 "two_sides [(90, [(4, 7)])] asks_3" "[]" GENERIC])
      (simp_all add: small_book asks_3_def)
  show thesis using that 4 by blast
qed

end
