(* ===== verification/Book_Props.thy ===== *)
theory Book_Props
  imports Book_Runs
begin

text \<open>
  The properties of the matching engine. Each is followed by a witness that applies it to a book built
  by a few calls of \<open>add_order\<close>.
\<close>

text \<open>C1. Matching refines price-time priority. On a book that satisfies the invariant, a call of
  \<open>add_order\<close> with a positive quantity, a slot left in the pool and (for fill-or-kill) a book that can
  fill it returns; the new book represents exactly what the specification \<open>spec_take\<close> says, the
  trades reported are the fills of the specification in order, and the invariant holds again.\<close>

theorem add_order_refines:
  assumes "book_inv b" and "order_ok tp p qty" and "order_id_seq b < 2 ^ 64 - 1"
    and "0 < free_top (order_pool b)" and "tp = FOK \<Longrightarrow> can_fill_fok sd p qty b"
    and "spec_take sd tp p qty (order_id_seq b + 1) (abs b) = (n, A, fs)"
  shows "\<exists>r b'. add_order sd tp p qty exch b = Some (r, b') \<and> book_inv b' \<and> abs b' = A \<and>
    ar_id r = order_id_seq b + 1 \<and> (ar_accepted r \<longleftrightarrow> \<not> (tp = POST_ONLY \<and> fs \<noteq> [])) \<and>
    (ar_accepted r \<longrightarrow> list_all2 (trade_is (order_id_seq b + 1) sd) fs (ar_fills r)) \<and>
    (order_id_seq b + 1 \<in> dom (order_map b') \<longleftrightarrow> stays tp n (fs \<noteq> []))"
proof -
  obtain s pool1 where al: "allocate default_order (order_pool b) = (Some s, pool1)"
    using assms(4) by (auto simp: allocate_def Let_def)
  show ?thesis using add_order_main [OF assms(1-3) al assms(5,6), of exch] by blast
qed

text \<open>A buy of 10 at 101 against two asks at 100 and one at 101.\<close>

lemma add_order_refines_witness:
  "\<exists>b r b'. abs b = two_sides [(90, [(4, 7)])] asks_3 \<and>
     add_order BUY LIMIT 101 10 GENERIC b = Some (r, b') \<and> book_inv b' \<and>
     abs b' = two_sides [(90, [(4, 7)])] [(101, [(3, 2)])] \<and>
     list_all2 (trade_is 5 BUY) [(100, 1, 5), (100, 2, 3), (101, 3, 2)] (ar_fills r)"
proof -
  obtain b where b: "reachable_book b" "order_id_seq b = 4" "abs b = two_sides [(90, [(4, 7)])] asks_3"
    by (rule book_3_1)
  have "0 < free_top (order_pool b)"
    using slots_left [OF reachable_inv [OF b(1)]] b(2) by (simp add: MAX_ORDERS_def)
  then show ?thesis
    using add_order_refines [OF reachable_inv [OF b(1)], of LIMIT 101 10 BUY 0
        "two_sides [(90, [(4, 7)])] [(101, [(3, 2)])]" "[(100, 1, 5), (100, 2, 3), (101, 3, 2)]" GENERIC] b
    by (auto simp: small_book asks_3_def)
qed

text \<open>C2. The invariant of the order book. Call an operation admissible (\<open>cmd_ok\<close>) if it does not cancel or
  modify a post-only order that is still active, if its limit price is below \<open>INT64_MAX\<close> and if fewer than
  \<open>2 ^ 64 - 1\<close> ids have been given. The invariant holds in every state that admissible operations reach
  from a new book, and every further admissible operation returns, that is the two loops of
  \<open>match_order\<close> end, and keeps the invariant. (Cancelling an active post-only order is a real exception:
  after it \<open>match_order\<close> can loop for ever, see \<open>post_only_cancel_hangs\<close>.)\<close>

theorem book_runs:
  assumes "reachable_book b" and "cmd_ok c b"
  shows "book_inv b \<and> (\<exists>b'. run_cmd c b = Some b' \<and> book_inv b')"
  using reachable_inv [OF assms(1)] run_cmd_inv [OF reachable_inv [OF assms(1)] assms(2)] by blast

lemma book_runs_witness:
  "\<exists>b b'. abs b = two_sides [(90, [(4, 7)])] asks_3 \<and> run_cmd (Modify 2 103 1) b = Some b' \<and> book_inv b'"
proof -
  obtain b where b: "reachable_book b" "order_id_seq b = 4" "abs b = two_sides [(90, [(4, 7)])] asks_3"
    by (rule book_3_1)
  have rel: "book_rel (unrested b) b" using reachable_inv [OF b(1)] by (simp add: book_inv_def)
  have "2 \<in> resting b" by (simp add: resting_def b(3) asks_3_def)
  moreover from this obtain s where om: "order_map b 2 = Some s" using book_relD(3) [OF rel] by auto
  ultimately have "o_type (obj s b) = LIMIT" using resting_level [OF rel om] by (metis rests_def)
  then have "cancellable 2 b" using om by (simp add: cancellable_def)
  then show ?thesis using book_runs [OF b(1), of "Modify 2 103 1"] b(2,3) by (auto simp: int_limits)
qed

text \<open>C3. The book is never crossed: in every reachable state the best bid is below the best ask when
  both sides have orders.\<close>

theorem never_crossed:
  assumes "reachable_book b" and "bid_ladder b \<noteq> []" and "ask_ladder b \<noteq> []"
  shows "best_bid b < best_ask b"
  using assms reachable_inv [OF assms(1)]
  by (auto simp: book_inv_def uncrossed_def best_bid_def best_ask_def neq_Nil_conv)

lemma never_crossed_witness: "\<exists>b. best_bid b = 90 \<and> best_ask b = 100 \<and> best_bid b < best_ask b"
proof -
  obtain b where b: "reachable_book b" "abs b = two_sides [(90, [(4, 7)])] asks_3"
    by (rule book_3_1)
  have "abs b BUY = [(90, [(4, 7)])]" "abs b SELL = asks_3" by (simp_all add: b(2))
  then obtain l l' lad where "bid_ladder b = [(90, l)]" "ask_ladder b = (100, l') # lad"
    by (auto simp: abs_def abs_ladder_def asks_3_def map_eq_Cons_conv)
  then show ?thesis
    using never_crossed [OF b(1)] by (intro exI [of _ b]) (simp add: best_bid_def best_ask_def)
qed

text \<open>C4. Price-time priority of the trades. The makers of an accepted order are taken in the order of
  the opposite book, best price first and oldest first within a price, with none skipped, and no trade is
  at a price the taker does not accept.\<close>

theorem priority:
  assumes "book_inv b" and "tp = LIMIT \<Longrightarrow> p < INT64_MAX" and "order_id_seq b < 2 ^ 64 - 1"
    and "add_order sd tp p qty exch b = Some (r, b')"
  shows "(\<exists>k. map t_maker_id (ar_fills r) = take k (queue_order (abs b (opposite sd)))) \<and>
    (\<forall>t \<in> set (ar_fills r). \<not> price_blocked sd (effective_price sd tp p) (t_price t) \<and> t_taker_id t = ar_id r)"
proof (rule add_order_cases [OF assms])
  assume "r = reject"
  then show ?thesis by (auto simp: reject_def intro: exI [of _ 0])
next
  fix n A fs
  assume t: "spec_take sd tp p qty (order_id_seq b + 1) (abs b) = (n, A, fs)" and i: "ar_id r = order_id_seq b + 1"
    and a: "ar_accepted r \<Longrightarrow> list_all2 (trade_is (order_id_seq b + 1) sd) fs (ar_fills r)"
    and na: "\<not> ar_accepted r \<Longrightarrow> ar_fills r = []"
  obtain al where s: "spec_sweep sd (effective_price sd tp p) qty (abs b (opposite sd)) = (n, al, fs)"
    by (rule spec_take_sweep [OF t])
  show ?thesis
  proof (cases "ar_accepted r")
    case True
    note F = fills_trades [OF a [OF True]]
    have "\<not> price_blocked sd (effective_price sd tp p) (t_price t)" if "t \<in> set (ar_fills r)" for t
    proof -
      have "t_price t \<in> set (map fst fs)" using that by (simp add: F(1) [symmetric])
      then show ?thesis using spec_sweep_limit [OF s] by auto
    qed
    then show ?thesis using spec_sweep_fifo [OF s] F(2,5) i by auto
  qed (simp add: na exI [of _ 0])
qed

lemma priority_witness:
  "\<exists>b r b'. abs b = two_sides [(90, [(4, 7)])] asks_3 \<and> add_order BUY IOC 100 10 GENERIC b = Some (r, b') \<and>
     (\<exists>k. map t_maker_id (ar_fills r) = take k [1, 2, 3])"
proof -
  obtain b where b: "reachable_book b" "order_id_seq b = 4" "abs b = two_sides [(90, [(4, 7)])] asks_3"
    by (rule book_3_1)
  obtain r b' where "add_order BUY IOC 100 10 GENERIC b = Some (r, b')"
    using add_order_inv [OF reachable_inv [OF b(1)], of IOC 100 BUY 10 GENERIC] b(2) by auto
  then show ?thesis
    using priority [OF reachable_inv [OF b(1)], of IOC 100 BUY 10 GENERIC r b'] b(2,3)
    by (auto simp: asks_3_def)
qed

text \<open>C5. No quantity is lost or made. For an accepted order, what the trades filled and what the book
  keeps or drops of the order adds up to its quantity, and the opposite side has lost exactly the filled
  quantity.\<close>

theorem conservation:
  assumes "book_inv b" and "tp = LIMIT \<Longrightarrow> p < INT64_MAX" and "order_id_seq b < 2 ^ 64 - 1"
    and "add_order sd tp p qty exch b = Some (r, b')" and "ar_accepted r"
  shows "sum_list (map t_qty (ar_fills r)) \<le> qty \<and> (\<forall>t \<in> set (ar_fills r). 0 < t_qty t) \<and>
    ladder_qty (abs b' (opposite sd)) + sum_list (map t_qty (ar_fills r)) = ladder_qty (abs b (opposite sd)) \<and>
    abs b' sd = (if tp = LIMIT \<and> sum_list (map t_qty (ar_fills r)) < qty
      then spec_rest sd p (ar_id r) (qty - sum_list (map t_qty (ar_fills r))) (abs b sd) else abs b sd)"
proof (rule add_order_cases [OF assms(1-4)])
  assume "r = reject"
  then show ?thesis using assms(5) by (simp add: reject_def)
next
  fix n A fs
  assume t: "spec_take sd tp p qty (order_id_seq b + 1) (abs b) = (n, A, fs)" and i: "ar_id r = order_id_seq b + 1"
    and a: "ar_accepted r \<Longrightarrow> list_all2 (trade_is (order_id_seq b + 1) sd) fs (ar_fills r)"
    and A: "abs b' = A" and ok: "order_ok tp p qty"
  obtain al where s: "spec_sweep sd (effective_price sd tp p) qty (abs b (opposite sd)) = (n, al, fs)"
    and al: "A (opposite sd) = al" and Asd: "A sd = (if tp = LIMIT \<and> 0 < n then spec_rest sd p (order_id_seq b + 1) n (abs b sd) else abs b sd)"
    by (rule spec_take_sweep [OF t])
  note F = fills_trades [OF a [OF assms(5)]]
  have n: "n + sum_list (map t_qty (ar_fills r)) = qty" using spec_sweep_qty [OF s] F(4) by simp
  have n0: "0 \<le> n" using spec_sweep_nonneg [OF s] ok by (simp add: order_ok_def)
  have "aladder_ok (abs b (opposite sd))"
    using side_inv_aladder_ok [OF book_relD(2)] assms(1) by (auto simp: book_inv_def abs_def)
  then have "\<forall>f \<in> set fs. 0 < snd (snd f)" using spec_sweep_ok [OF s] by blast
  then have "\<forall>q \<in> set (map (snd \<circ> snd) fs). 0 < q" by simp
  then have pos: "\<forall>t \<in> set (ar_fills r). 0 < t_qty t" unfolding F(3) [symmetric] by simp
  have "ladder_qty (abs b' (opposite sd)) + sum_list (map t_qty (ar_fills r)) = ladder_qty (abs b (opposite sd))"
    using spec_sweep_ladder_qty [OF s] F(4) by (simp add: A al)
  then show ?thesis using pos n0 Asd unfolding n [symmetric] by (simp add: A i)
qed

lemma conservation_witness:
  "\<exists>b r b'. add_order BUY IOC 100 10 GENERIC b = Some (r, b') \<and>
     ladder_qty (abs b' SELL) + sum_list (map t_qty (ar_fills r)) = 12"
proof -
  obtain b where b: "reachable_book b" "order_id_seq b = 4" "abs b = two_sides [(90, [(4, 7)])] asks_3"
    by (rule book_3_1)
  have "0 < free_top (order_pool b)"
    using slots_left [OF reachable_inv [OF b(1)]] b(2) by (simp add: MAX_ORDERS_def)
  then obtain s q where al: "allocate default_order (order_pool b) = (Some s, q)" by (auto simp: allocate_def Let_def)
  obtain n A fs where sp: "spec_take BUY IOC 100 10 (order_id_seq b + 1) (abs b) = (n, A, fs)"
    by (metis prod_cases3)
  obtain r b' where r: "add_order BUY IOC 100 10 GENERIC b = Some (r, b')" "ar_accepted r"
    using add_order_main [OF reachable_inv [OF b(1)] _ _ al _ sp, of GENERIC] b(2) by (auto simp: order_ok_def)
  show ?thesis
    using conservation [OF reachable_inv [OF b(1)] _ _ r] r(1) b(2,3)
    by (auto simp: asks_3_def ladder_qty_def queue_qty_def)
qed

text \<open>C6. Fill-or-kill is all or nothing. An accepted fill-or-kill order was on offer within its limit and
  is filled completely; a rejected one leaves every level as it was. The test is exact as long as the
  quantity on offer within the limit fits in an \<open>int64_t\<close>: then the order is accepted if and only if its
  quantity is on offer. (\<open>can_fill_fok\<close> sums in \<open>int64_t\<close>; without the bound an order can be rejected
  although it could be filled, see \<open>fok_overflow\<close>.)\<close>

theorem fok_all_or_nothing:
  assumes "book_inv b" and "0 < qty" and "order_id_seq b < 2 ^ 64 - 1" and "0 < free_top (order_pool b)"
    and "add_order sd FOK p qty exch b = Some (r, b')"
  shows "(available_qty sd p (abs b (opposite sd)) \<le> INT64_MAX \<longrightarrow>
      (ar_accepted r \<longleftrightarrow> qty \<le> available_qty sd p (abs b (opposite sd)))) \<and>
    (if ar_accepted r then qty \<le> available_qty sd p (abs b (opposite sd)) \<and> sum_list (map t_qty (ar_fills r)) = qty
     else ar_fills r = [] \<and> abs b' = abs b)"
proof -
  obtain s pool1 where al: "allocate default_order (order_pool b) = (Some s, pool1)"
    using assms(4) by (auto simp: allocate_def Let_def)
  have rel: "book_rel (unrested b) b" using assms(1) by (simp add: book_inv_def)
  have ok: "aladder_ok (abs b (opposite sd))"
    using side_inv_aladder_ok [OF book_relD(2) [OF rel]] by (simp add: abs_def)
  obtain n l fs where s: "spec_sweep sd p qty (abs b (opposite sd)) = (n, l, fs)" by (metis prod_cases3)
  have n: "n = (if qty \<le> available_qty sd p (abs b (opposite sd)) then 0 else qty - available_qty sd p (abs b (opposite sd)))"
    by (rule spec_sweep_available [OF s ok]) (use assms(2) in simp)
  note fok = can_fill_fok_spec [OF rel assms(2), of sd p]
  show ?thesis
  proof (cases "can_fill_fok sd p qty b")
    case False
    then have "r = reject" "abs b' = abs b"
      using add_order_fok_fails [OF assms(1,2,3) al False, of exch] assms(5) by auto
    then show ?thesis using False fok(2) by (auto simp: reject_def)
  next
    case True
    have n0: "n = 0" using fok(1) [OF True] n by simp
    have t: "spec_take sd FOK p qty (order_id_seq b + 1) (abs b) = (n, (abs b)(opposite sd := l), fs)"
      using s by (simp add: spec_take_def effective_price_def)
    obtain a: "ar_accepted r" and tr: "list_all2 (trade_is (order_id_seq b + 1) sd) fs (ar_fills r)"
      using add_order_main [OF assms(1) _ assms(3) al _ t, of exch] True assms(2,5) by (auto simp: order_ok_def)
    then have "sum_list (map t_qty (ar_fills r)) = qty"
      using fills_trades(4) [OF tr] spec_sweep_qty [OF s] n0 by simp
    then show ?thesis using a True fok(1) by simp
  qed
qed

lemma fok_all_or_nothing_witness:
  "\<exists>b r b' r2 b2. add_order BUY FOK 100 8 GENERIC b = Some (r, b') \<and> ar_accepted r \<and>
     add_order BUY FOK 100 9 GENERIC b = Some (r2, b2) \<and> \<not> ar_accepted r2 \<and> abs b2 = abs b"
proof -
  obtain b where b: "reachable_book b" "order_id_seq b = 4" "abs b = two_sides [(90, [(4, 7)])] asks_3"
    by (rule book_3_1)
  have fr: "0 < free_top (order_pool b)"
    using slots_left [OF reachable_inv [OF b(1)]] b(2) by (simp add: MAX_ORDERS_def)
  obtain r b1 where 1: "add_order BUY FOK 100 8 GENERIC b = Some (r, b1)"
    using add_order_inv [OF reachable_inv [OF b(1)], of FOK 100 BUY 8 GENERIC] b(2) by auto
  obtain r2 b2 where 2: "add_order BUY FOK 100 9 GENERIC b = Some (r2, b2)"
    using add_order_inv [OF reachable_inv [OF b(1)], of FOK 100 BUY 9 GENERIC] b(2) by auto
  have av: "available_qty BUY 100 asks_3 = 8"
    by (simp add: available_qty_def asks_3_def price_blocked_def ladder_qty_def queue_qty_def)
  have "ar_accepted r \<and> \<not> ar_accepted r2 \<and> abs b2 = abs b"
    using fok_all_or_nothing [OF reachable_inv [OF b(1)] _ _ fr 1] fok_all_or_nothing [OF reachable_inv [OF b(1)] _ _ fr 2] b(2,3) av
    by (auto simp: if_split_asm int_limits)
  then show ?thesis using 1 2 by blast
qed

text \<open>The overflow of the fill-or-kill test. If the only level of the opposite side holds more than
  \<open>INT64_MAX\<close>, \<open>total_qty\<close> is negative and every fill-or-kill order is rejected, whatever its quantity.\<close>

theorem fok_overflow:
  assumes "book_inv b" and "0 < qty" and "order_id_seq b < 2 ^ 64 - 1" and "0 < free_top (order_pool b)"
    and "abs b (opposite sd) = [(p0, q)]" and "INT64_MAX < queue_qty q" and "queue_qty q < 2 ^ 64"
  shows "\<exists>b'. add_order sd FOK p qty exch b = Some (reject, b') \<and> abs b' = abs b"
proof -
  obtain s pool1 where al: "allocate default_order (order_pool b) = (Some s, pool1)"
    using assms(4) by (auto simp: allocate_def Let_def)
  have "\<not> can_fill_fok sd p qty b"
    using can_fill_fok_overflow [OF _ assms(2,5,6,7), of "unrested b" p] assms(1) by (simp add: book_inv_def)
  then show ?thesis using add_order_fok_fails [OF assms(1,2,3) al, of sd p exch] by auto
qed

text \<open>Three asks of \<open>4 * 10 ^ 18\<close> at 100: a fill-or-kill buy of 1 is rejected.\<close>

lemma fok_overflow_witness:
  "\<exists>b b'. reachable_book b \<and> available_qty BUY 100 (abs b SELL) = 3 * (4 * 10 ^ 18) \<and>
     add_order BUY FOK 100 1 GENERIC b = Some (reject, b')"
proof -
  obtain r1 b1 where 1: "reachable_book b1" "abs b1 = two_sides [] [(100, [(1, 4 * 10 ^ 18)])]" "order_id_seq b1 = 1"
    by (rule add_step [OF empty_reachable(1,3,2), of LIMIT 100 "4 * 10 ^ 18" SELL "4 * 10 ^ 18" "two_sides [] [(100, [(1, 4 * 10 ^ 18)])]" "[]" GENERIC])
      (simp_all add: small_book)
  obtain r2 b2 where 2: "reachable_book b2" "abs b2 = two_sides [] [(100, [(1, 4 * 10 ^ 18), (2, 4 * 10 ^ 18)])]" "order_id_seq b2 = 2"
    by (rule add_step [OF 1, of LIMIT 100 "4 * 10 ^ 18" SELL "4 * 10 ^ 18" "two_sides [] [(100, [(1, 4 * 10 ^ 18), (2, 4 * 10 ^ 18)])]" "[]" GENERIC])
      (simp_all add: small_book numeral_2_eq_2)
  obtain r3 b3 where 3: "reachable_book b3" "order_id_seq b3 = 3"
    "abs b3 = two_sides [] [(100, [(1, 4 * 10 ^ 18), (2, 4 * 10 ^ 18), (3, 4 * 10 ^ 18)])]"
    by (rule add_step [OF 2, of LIMIT 100 "4 * 10 ^ 18" SELL "4 * 10 ^ 18"
          "two_sides [] [(100, [(1, 4 * 10 ^ 18), (2, 4 * 10 ^ 18), (3, 4 * 10 ^ 18)])]" "[]" GENERIC])
      (simp_all add: small_book)
  have fr: "0 < free_top (order_pool b3)"
    using slots_left [OF reachable_inv [OF 3(1)]] 3(2) by (simp add: MAX_ORDERS_def)
  have "available_qty BUY 100 (abs b3 SELL) = 3 * (4 * 10 ^ 18)"
    by (simp add: 3(3) available_qty_def price_blocked_def ladder_qty_def queue_qty_def)
  then show ?thesis
    using fok_overflow [OF reachable_inv [OF 3(1)] _ _ fr, of 1 BUY 100 "[(1, 4 * 10 ^ 18), (2, 4 * 10 ^ 18), (3, 4 * 10 ^ 18)]" 100 GENERIC] 3
    by (auto simp: queue_qty_def int_limits)
qed

text \<open>C7. Cancelling, for any id but that of a post-only order that is still active (\<open>cancellable\<close>).
  \<open>cancel_order\<close> reports an unknown id as not found, takes a live order out of its queue and out of the
  map and nothing else, drops the level with its last order, and keeps the invariant. (For the excluded
  orders it does not, see \<open>post_only_cancel_hangs\<close>.)\<close>

theorem cancel_refines:
  assumes "book_inv b" and "cancellable i b" and "cancel_order i b = (r, b')"
  shows "book_inv b' \<and> abs b' = (\<lambda>sd. spec_cancel i (abs b sd)) \<and> (cr_found r \<longleftrightarrow> i \<in> dom (order_map b)) \<and>
    (cr_cancelled r \<longleftrightarrow> (\<exists>s. order_map b i = Some s \<and> is_active (obj s b))) \<and>
    order_map b' = (if cr_cancelled r then (order_map b)(i := None) else order_map b)"
  using cancel_main [OF assms] by blast

lemma cancel_refines_witness:
  "\<exists>b. abs b = two_sides [(90, [(4, 7)])] asks_3 \<and>
     abs (snd (cancel_order 1 b)) = two_sides [(90, [(4, 7)])] [(100, [(2, 3)]), (101, [(3, 4)])]"
proof -
  obtain b where b: "reachable_book b" "order_id_seq b = 4" "abs b = two_sides [(90, [(4, 7)])] asks_3"
    by (rule book_3_1)
  have rel: "book_rel (unrested b) b" using reachable_inv [OF b(1)] by (simp add: book_inv_def)
  have r1: "1 \<in> resting b" by (simp add: resting_def b(3) asks_3_def)
  then obtain s where om: "order_map b 1 = Some s" using book_relD(3) [OF rel] by auto
  have "o_type (obj s b) = LIMIT" using resting_level [OF rel om r1] by (metis rests_def)
  then have c: "cancellable 1 b" using om by (simp add: cancellable_def)
  obtain r b' where r: "cancel_order 1 b = (r, b')" by fastforce
  have "abs b' sd = two_sides [(90, [(4, 7)])] [(100, [(2, 3)]), (101, [(3, 4)])] sd" for sd
    using cancel_refines [OF reachable_inv [OF b(1)] c r] by (cases sd) (simp_all add: b(3) asks_3_def)
  then show ?thesis using r b(3) by (intro exI [of _ b]) (simp add: fun_eq_iff)
qed


text \<open>Modifying is cancelling and adding. For a resting order, \<open>modify_order\<close> with a valid price and
  quantity leaves the book that cancelling the order and adding the new one gives, under a new id; with
  an invalid quantity or price it reports failure and the old order is nevertheless gone.\<close>

theorem modify_is_cancel_add:
  assumes "book_inv b" and "i \<in> resting b" and "order_map b i = Some s" and "p < INT64_MAX"
    and "order_id_seq b < 2 ^ 64 - 1" and "sd = o_side (obj s b)"
    and "spec_take sd LIMIT p qty (order_id_seq b + 1) (\<lambda>sd. spec_cancel i (abs b sd)) = (n, A, fs)"
  shows "\<exists>r b'. modify_order i p qty b = Some (r, b') \<and> book_inv b' \<and> i \<notin> resting b' \<and>
    (if 0 < qty \<and> 0 < p
     then mr_success r \<and> mr_new_id r = order_id_seq b + 1 \<and> abs b' = A \<and>
       list_all2 (trade_is (order_id_seq b + 1) sd) fs (mr_fills r)
     else \<not> mr_success r \<and> abs b' = (\<lambda>sd. spec_cancel i (abs b sd)))"
proof -
  have rel: "book_rel (unrested b) b" using assms(1) by (simp add: book_inv_def)
  have ro: "rests sd (o_price (obj s b)) (obj s b)" using resting_level [OF rel assms(3,2)] assms(6) by metis
  then have tp: "o_type (obj s b) = LIMIT" and act: "is_active (obj s b)" by (simp_all add: rests_def)
  have c: "cancellable i b" using assms(3) tp by (simp add: cancellable_def)
  obtain r1 b1 where r1: "cancel_order i b = (r1, b1)" by fastforce
  note C = cancel_main [OF assms(1) c r1]
  have can: "cr_cancelled r1" using C(4) assms(3) act by blast
  then have om1: "order_map b1 = (order_map b)(i := None)" using C(5) by simp
  have mo: "modify_order i p qty b = (case add_order sd LIMIT p qty (o_exchange (obj s b)) b1 of None \<Rightarrow> None
     | Some (r, b2) \<Rightarrow> Some (\<lparr>mr_success = ar_accepted r, mr_new_id = ar_id r, mr_fills = ar_fills r\<rparr>, b2))"
    using assms(3,6) r1 tp by (simp add: modify_order_def Let_def)
  have fr: "0 < free_top (order_pool b1)"
  proof -
    have hi: "heap_inv b" "heap_inv b1" using assms(1) C(1) by (simp_all add: book_inv_def book_rel_def)
    have "dom (order_map b) \<subseteq> {..order_id_seq b}" by (auto dest: heap_invD(7) [OF hi(1)])
    then have "finite (dom (order_map b))" by (rule finite_subset) simp
    then have "card (dom (order_map b1)) < card (dom (order_map b))"
      using assms(3) by (intro psubset_card_mono) (auto simp: om1)
    then show ?thesis
      using used_slots [OF hi(1)] used_slots [OF hi(2)] by (simp add: order_count_def pool_used_def)
  qed
  have out: "i \<notin> aids (abs b1 sd')" for sd' by (simp add: C(2) aids_spec_cancel)
  have iseq: "i \<le> order_id_seq b" using heap_invD(7) [OF book_relD(1) [OF rel] assms(3)] .
  show ?thesis
  proof (cases "0 < qty \<and> 0 < p")
    case False
    then have "add_order sd LIMIT p qty (o_exchange (obj s b)) b1 = Some (reject, b1)"
      by (intro add_order_rejects) auto
    then show ?thesis using mo C(1,2) out False by (auto simp: reject_def resting_def)
  next
    case True
    then have ok: "order_ok LIMIT p qty" using assms(4) by (simp add: order_ok_def)
    obtain s' q where al: "allocate default_order (order_pool b1) = (Some s', q)"
      using fr by (auto simp: allocate_def Let_def)
    have seq: "order_id_seq b1 < 2 ^ 64 - 1" using assms(5) C(6) by simp
    obtain r b2 where ad: "add_order sd LIMIT p qty (o_exchange (obj s b)) b1 = Some (r, b2)" "book_inv b2"
      "abs b2 = A" "ar_id r = order_id_seq b + 1" "ar_accepted r"
      "list_all2 (trade_is (order_id_seq b + 1) sd) fs (ar_fills r)"
      using add_order_main [OF C(1) ok seq al _ assms(7) [folded C(2) C(6)], of "o_exchange (obj s b)"] C(6) by auto
    have "aids (abs b2 sd') \<subseteq> insert (order_id_seq b + 1) (aids (abs b1 sd'))" for sd'
      unfolding ad(3)
      by (rule spec_take_aids [OF assms(7) [folded C(2)]])
        (use C(1) side_inv_ok [OF book_relD(2)] in \<open>auto simp: book_inv_def abs_def\<close>)
    then have "i \<notin> resting b2" using out iseq unfolding resting_def by fastforce
    then show ?thesis using mo ad True by auto
  qed
qed

lemma modify_is_cancel_add_witness:
  "\<exists>b r b' r2 b2. abs b = two_sides [(90, [(4, 7)])] asks_3 \<and>
     modify_order 1 100 2 b = Some (r, b') \<and> abs b' SELL = [(100, [(2, 3), (5, 2)]), (101, [(3, 4)])] \<and>
     modify_order 1 100 0 b = Some (r2, b2) \<and> \<not> mr_success r2 \<and> abs b2 SELL = [(100, [(2, 3)]), (101, [(3, 4)])]"
proof -
  obtain b where b: "reachable_book b" "order_id_seq b = 4" "abs b = two_sides [(90, [(4, 7)])] asks_3"
    by (rule book_3_1)
  have inv: "book_inv b" by (rule reachable_inv [OF b(1)])
  then have rel: "book_rel (unrested b) b" by (simp add: book_inv_def)
  have r1: "1 \<in> resting b" by (simp add: resting_def b(3) asks_3_def)
  then obtain s where om: "order_map b 1 = Some s" using book_relD(3) [OF rel] by auto
  obtain l xs ys where lr: "1 \<in> aids (abs b (o_side (obj s b)))" using resting_level [OF rel om r1] by metis
  have sd: "SELL = o_side (obj s b)" using lr by (cases "o_side (obj s b)") (simp_all add: b(3))
  have sc: "(\<lambda>sd. spec_cancel 1 (abs b sd)) = two_sides [(90, [(4, 7)])] [(100, [(2, 3)]), (101, [(3, 4)])]"
    by (auto simp: b(3) asks_3_def two_sides_def fun_eq_iff split: side.split)
  have t: "spec_take SELL LIMIT 100 2 (order_id_seq b + 1) (\<lambda>sd. spec_cancel 1 (abs b sd)) =
      (2, two_sides [(90, [(4, 7)])] [(100, [(2, 3), (5, 2)]), (101, [(3, 4)])], [])"
    unfolding sc b(2) by (simp add: small_book)
  obtain n A fs where t0: "spec_take SELL LIMIT 100 0 (order_id_seq b + 1) (\<lambda>sd. spec_cancel 1 (abs b sd)) = (n, A, fs)"
    by (metis prod_cases3)
  have seq: "order_id_seq b < 2 ^ 64 - 1" "100 < INT64_MAX" using b(2) by (simp_all add: int_limits)
  show ?thesis
    using modify_is_cancel_add [OF inv r1 om seq(2,1) sd t] modify_is_cancel_add [OF inv r1 om seq(2,1) sd t0] b(3)
    unfolding sc by auto
qed

text \<open>C8. No slot of the pool leaks unnoticed. In every reachable state a slot of the pool is free or is
  the one of exactly one order of \<open>order_map\<close>, never both; such an order rests on a level or is a post-only
  or market order that \<open>add_order\<close> left over. So the number of slots in use is the number of registered
  orders.\<close>

theorem slots_accounted:
  assumes "reachable_book b"
  shows "order_count b = card (dom (order_map b)) \<and>
    (\<forall>s < MAX_ORDERS. (s \<in> free_slots (order_pool b) \<longleftrightarrow> s \<notin> ran (order_map b)) \<and>
      (\<forall>i. order_map b i = Some s \<longrightarrow> (\<forall>j. order_map b j = Some s \<longrightarrow> j = i) \<and>
         (i \<in> resting b \<or> o_type (obj s b) = POST_ONLY \<or> o_type (obj s b) = MARKET)))"
proof -
  have inv: "book_inv b" by (rule reachable_inv [OF assms])
  have rel: "book_rel (unrested b) b" using inv by (simp add: book_inv_def)
  note hi = book_relD(1) [OF rel]
  have kind: "i \<in> resting b \<or> o_type (obj s b) = POST_ONLY \<or> o_type (obj s b) = MARKET" if om: "order_map b i = Some s" for i s
  proof (cases "i \<in> resting b")
    case False
    then have "i \<in> unrested b" using om book_relD(3) [OF rel] by auto
    then have "left_over (obj s b)" using ord_slot [OF om] inv by (auto simp: unrested_def book_inv_def market_ok_def)
    then show ?thesis by (auto simp: left_over_def)
  qed simp
  have one: "j = i" if "order_map b i = Some s" "order_map b j = Some s" for i j s
    using heap_inj_eq [OF heap_invD(2) [OF hi]] that by blast
  show ?thesis using used_slots [OF hi] free_or_owned [OF hi] kind one by blast
qed

lemma slots_accounted_witness:
  "\<exists>b. abs b = two_sides [(90, [(4, 7)])] asks_3 \<and> order_count b = card (dom (order_map b)) \<and>
     0 \<in> free_slots (order_pool b) \<union> ran (order_map b)"
proof -
  obtain b where b: "reachable_book b" "abs b = two_sides [(90, [(4, 7)])] asks_3" by (rule book_3_1)
  have "0 < MAX_ORDERS" by (simp add: MAX_ORDERS_def)
  then show ?thesis using slots_accounted [OF b(1)] b(2) by blast
qed

text \<open>A market order that finds no liquidity is never given back. On an empty opposite side it is
  reported as accepted with no fills; it rests on no level, but it stays in \<open>order_map\<close> and keeps its
  slot of the pool.\<close>

theorem market_order_left_over:
  assumes "book_inv b" and "0 < qty" and "order_id_seq b < 2 ^ 64 - 1" and "0 < free_top (order_pool b)"
    and "abs b (opposite sd) = []"
  shows "\<exists>r b'. add_order sd MARKET p qty exch b = Some (r, b') \<and> ar_accepted r \<and> ar_fills r = [] \<and>
    abs b' = abs b \<and> order_id_seq b + 1 \<in> dom (order_map b') \<and> order_id_seq b + 1 \<notin> resting b'"
proof -
  obtain s pool1 where al: "allocate default_order (order_pool b) = (Some s, pool1)"
    using assms(4) by (auto simp: allocate_def Let_def)
  have A: "(abs b)(opposite sd := []) = abs b" using assms(5) by (auto simp: fun_eq_iff)
  have t: "spec_take sd MARKET p qty (order_id_seq b + 1) (abs b) = (qty, abs b, [])"
    using assms(5) A by (simp add: spec_take_def)
  obtain r b' where M: "add_order sd MARKET p qty exch b = Some (r, b')" "book_inv b'" "abs b' = abs b"
    "ar_accepted r" "ar_fills r = []" "order_id_seq b + 1 \<in> dom (order_map b')"
    using add_order_main [OF assms(1) _ assms(3) al _ t, of exch] assms(2) by (auto simp: order_ok_def stays_def)
  have "order_id_seq b + 1 \<notin> resting b'"
  proof
    assume "order_id_seq b + 1 \<in> resting b'"
    then have "order_id_seq b + 1 \<in> resting b" using M(3) by (simp add: resting_def)
    then have "order_id_seq b + 1 \<in> dom (order_map b)"
      using assms(1) by (auto simp: book_inv_def dest: book_relD(3))
    then show False
      using assms(1) heap_invD(7) [of b "order_id_seq b + 1"] by (auto simp: book_inv_def book_rel_def)
  qed
  then show ?thesis using M by blast
qed

lemma market_order_left_over_witness:
  "\<exists>r b'. add_order BUY MARKET 0 5 GENERIC (new_book [] False (\<lambda>_. 0) (\<lambda>_. 0)) = Some (r, b') \<and> ar_accepted r \<and>
     1 \<in> dom (order_map b') \<and> 1 \<notin> resting b'"
proof -
  have "0 < free_top (order_pool (new_book [] False (\<lambda>_. 0) (\<lambda>_. 0)))"
    by (simp add: new_book_def pool_init_def MAX_ORDERS_def)
  then show ?thesis
    using market_order_left_over [OF new_book_inv(1) [of "[]" False "\<lambda>_. 0" "\<lambda>_. 0"], of 5 BUY 0 GENERIC] empty_reachable(2) [of "\<lambda>_. 0"]
    by (auto simp: new_book_inv(2))
qed

text \<open>A crossing post-only order trades all the same. It is reported as not accepted with no fills,
  but the opposite side has been swept: the makers it met have been filled.\<close>

theorem post_only_trades:
  assumes "book_inv b" and "0 < qty" and "order_id_seq b < 2 ^ 64 - 1" and "0 < free_top (order_pool b)"
    and "spec_sweep sd p qty (abs b (opposite sd)) = (n, al, fs)" and "fs \<noteq> []"
  shows "\<exists>r b'. add_order sd POST_ONLY p qty exch b = Some (r, b') \<and> \<not> ar_accepted r \<and> ar_fills r = [] \<and>
    abs b' (opposite sd) = al \<and> ladder_qty (abs b' (opposite sd)) < ladder_qty (abs b (opposite sd)) \<and>
    (n = 0 \<longrightarrow> order_id_seq b + 1 \<in> dom (order_map b'))"
proof -
  obtain s pool1 where a: "allocate default_order (order_pool b) = (Some s, pool1)"
    using assms(4) by (auto simp: allocate_def Let_def)
  have t: "spec_take sd POST_ONLY p qty (order_id_seq b + 1) (abs b) = (n, (abs b)(opposite sd := al), fs)"
    using assms(5) by (simp add: spec_take_def effective_price_def)
  have rel: "book_rel (unrested b) b" using assms(1) by (simp add: book_inv_def)
  have "aladder_ok (abs b (opposite sd))" using side_inv_aladder_ok [OF book_relD(2) [OF rel]] by (simp add: abs_def)
  then have "\<forall>f \<in> set fs. 0 < snd (snd f)" using spec_sweep_ok [OF assms(5)] by blast
  then have "0 < afill_qty fs"
  proof -
    assume pos: "\<forall>f \<in> set fs. 0 < snd (snd f)"
    obtain f gs where f: "fs = f # gs" using assms(6) by (cases fs) auto
    have "0 \<le> afill_qty gs" unfolding afill_qty_def
      by (rule sum_list_nonneg) (use pos in \<open>auto simp: f intro: less_imp_le\<close>)
    then show ?thesis using pos by (simp add: f afill_qty_def)
  qed
  then have "ladder_qty al < ladder_qty (abs b (opposite sd))" using spec_sweep_ladder_qty [OF assms(5)] by simp
  then show ?thesis
    using add_order_main [OF assms(1) _ assms(3) a _ t, of exch] assms(2,6) by (auto simp: order_ok_def stays_def)
qed

lemma post_only_trades_witness:
  "\<exists>b r b'. abs b SELL = asks_3 \<and> add_order BUY POST_ONLY 100 2 GENERIC b = Some (r, b') \<and> \<not> ar_accepted r \<and>
     abs b' SELL = [(100, [(1, 3), (2, 3)]), (101, [(3, 4)])]"
proof -
  obtain b where b: "reachable_book b" "order_id_seq b = 4" "abs b = two_sides [(90, [(4, 7)])] asks_3"
    by (rule book_3_1)
  have fr: "0 < free_top (order_pool b)"
    using slots_left [OF reachable_inv [OF b(1)]] b(2) by (simp add: MAX_ORDERS_def)
  have "abs b SELL = asks_3" by (simp add: b(3))
  moreover have "\<exists>r b'. add_order BUY POST_ONLY 100 2 GENERIC b = Some (r, b') \<and> \<not> ar_accepted r \<and>
      abs b' SELL = [(100, [(1, 3), (2, 3)]), (101, [(3, 4)])]"
    using post_only_trades [OF reachable_inv [OF b(1)] _ _ fr, of 2 BUY 100 0 "[(100, [(1, 3), (2, 3)]), (101, [(3, 4)])]" "[(100, 1, 2)]" GENERIC] b(2,3)
    by (auto simp: asks_3_def price_blocked_def)
  ultimately show ?thesis by blast
qed


text \<open>C9. Cancelling an unmatched post-only order can hang the engine. It rests on no level, but
  \<open>cancel_order\<close> unlinks it from the level of its price: if that level is the best one and has two or
  more orders, its head id becomes 0 while it stays in the ladder, and the next order that crosses it
  makes \<open>match_order\<close> loop for ever.\<close>

theorem post_only_cancel_hangs:
  assumes "book_inv b" and "ord b i = Some o1" "o_type o1 = POST_ONLY" "is_active o1"
    and "abs b (o_side o1) = (o_price o1, q) # al" and "2 \<le> length q"
    and "0 < qty" and "\<not> price_blocked (opposite (o_side o1)) p (o_price o1)" and "0 < p"
  shows "add_order (opposite (o_side o1)) LIMIT p qty exch (snd (cancel_order i b)) = None"
proof -
  define sd where "sd = o_side o1"
  define b' where "b' = snd (cancel_order i b)"
  have rel: "book_rel (unrested b) b" using assms(1) by (simp add: book_inv_def)
  obtain l lad where l: "ladder_of sd b = (o_price o1, l) # lad" "level_rel (ord b) sd (o_price o1) l (lids (ord b) l)"
    "q = entries (ord b) (lids (ord b) l)"
    by (rule abs_head [OF rel assms(5) [folded sd_def]])
  have "l_order_count l = length q" using l(2,3) by (simp add: level_rel_def level_links_def length_entries)
  then obtain l' where l': "ladder_of sd b' = (o_price o1, l') # lad" "l_head l' = 0" "\<not> level_empty l'"
    "0 < free_top (order_pool b')"
    using cancel_post_only [OF assms(1-4) l(1) [unfolded sd_def] _ b'_def] assms(6) unfolding sd_def by auto
  obtain s pool1 where al: "allocate default_order (order_pool b') = (Some s, pool1)"
    using l'(4) by (auto simp: allocate_def Let_def)
  define b1 where "b1 = new_order (opposite sd) LIMIT p qty exch s (b'\<lparr>order_pool := pool1\<rparr>)"
  define b3 where "b3 = upd_stats (\<lambda>st. st\<lparr>orders_added := orders_added st + 1\<rparr>) (map_emplace (o_id (obj s b1)) s b1)"
  have "obj s b3 = obj s b1 \<and> ladder_of sd b3 = ladder_of sd b1"
    by (cases sd) (simp_all add: b3_def heap_simps map_emplace_def obj_def split: option.split)
  moreover have "o_side (obj s b1) = opposite sd" "o_price (obj s b1) = p" "o_remaining (obj s b1) = qty"
    by (simp_all add: b1_def new_order_def next_order_id_def now_ns_def Let_def upd_obj_def obj_def init_order_def)
  moreover have "ladder_of sd b1 = ladder_of sd b'"
    by (cases sd) (simp_all add: b1_def new_order_def next_order_id_def now_ns_def Let_def upd_obj_def)
  ultimately have "headless sd s b3"
    using l' assms(7,8) by (simp add: headless_def sd_def)
  then have "match_order s b3 = None"
    using sweep_spins [of sd s b3] \<open>obj s b3 = obj s b1 \<and> ladder_of sd b3 = ladder_of sd b1\<close> \<open>o_side (obj s b1) = opposite sd\<close>
    by (cases sd) (simp_all add: match_order_def)
  then have "add_order (opposite sd) LIMIT p qty exch b' = None"
    using assms(7,9) al by (simp add: add_order_def b1_def [symmetric] b3_def [symmetric] Let_def)
  then show ?thesis by (simp add: sd_def b'_def)
qed

text \<open>A post-only ask at 100 behind two resting ones, cancelled, and a buy of 1 at 100.\<close>

lemma post_only_cancel_hangs_witness:
  "\<exists>b. reachable_book b \<and> abs b = two_sides [(90, [(4, 7)])] asks_3 \<and>
     add_order BUY LIMIT 100 1 GENERIC (snd (cancel_order 5 b)) = None"
proof -
  obtain b where b: "reachable_book b" "order_id_seq b = 4" "abs b = two_sides [(90, [(4, 7)])] asks_3"
    by (rule book_3_1)
  have ok: "order_ok POST_ONLY 100 1" by (simp add: order_ok_def)
  have sp: "spec_take SELL POST_ONLY 100 1 (4 + 1) (two_sides [(90, [(4, 7)])] asks_3) =
      (1, two_sides [(90, [(4, 7)])] asks_3, [])"
    by (simp add: small_book)
  obtain r b' where b': "reachable_book b'" "abs b' = two_sides [(90, [(4, 7)])] asks_3" "4 + 1 \<in> dom (order_map b')"
    and o: "\<And>o2. ord b' (4 + 1) = Some o2 \<Longrightarrow> o_side o2 = SELL \<and> o_type o2 = POST_ONLY \<and> o_price o2 = 100 \<and> is_active o2"
    by (rule add_step [OF b(1,3,2) _ ok _ sp, of GENERIC]) (auto simp: stays_def effective_price_def)
  from b'(3) obtain o2 where o2: "ord b' 5 = Some o2" by (auto simp: dom_ord [symmetric])
  then have d: "o_side o2 = SELL" "o_type o2 = POST_ONLY" "o_price o2 = 100" "is_active o2" using o [of o2] by simp_all
  have "add_order (opposite (o_side o2)) LIMIT 100 1 GENERIC (snd (cancel_order 5 b')) = None"
    by (rule post_only_cancel_hangs [OF reachable_inv [OF b'(1)] o2 d(2,4), of "[(1, 5), (2, 3)]" "[(101, [(3, 4)])]"])
      (simp_all add: d b'(2) asks_3_def price_blocked_def)
  then show ?thesis using b' d(1) by auto
qed

text \<open>Reads of an erased map node. Every price level that an order takes completely makes
  \<open>match_order\<close> read \<open>it->first\<close> once after \<open>fill_order\<close> has erased that node of the \<open>std::map\<close>: the
  number of such reads is the number of levels that disappear from the opposite side.\<close>

theorem reads_after_erase:
  assumes "book_inv b" and "order_ok tp p qty" and "order_id_seq b < 2 ^ 64 - 1"
    and "0 < free_top (order_pool b)" and "tp \<noteq> FOK" and "add_order sd tp p qty exch b = Some (r, b')"
  shows "stale_reads b' + length (abs b' (opposite sd)) = stale_reads b + length (abs b (opposite sd))"
proof -
  obtain s pool1 where al: "allocate default_order (order_pool b) = (Some s, pool1)"
    using assms(4) by (auto simp: allocate_def Let_def)
  obtain n A' fs where sp: "spec_take sd tp p qty (order_id_seq b + 1) (abs b) = (n, A', fs)"
    by (metis prod_cases3)
  show ?thesis using add_order_main [OF assms(1-3) al _ sp, of exch] assms(5,6) by auto
qed

lemma reads_after_erase_witness:
  "\<exists>b r b'. add_order BUY IOC 101 12 GENERIC b = Some (r, b') \<and> abs b' SELL = [] \<and>
     stale_reads b' = stale_reads b + 2"
proof -
  obtain b where b: "reachable_book b" "order_id_seq b = 4" "abs b = two_sides [(90, [(4, 7)])] asks_3"
    by (rule book_3_1)
  have fr: "0 < free_top (order_pool b)"
    using slots_left [OF reachable_inv [OF b(1)]] b(2) by (simp add: MAX_ORDERS_def)
  have sp: "spec_take BUY IOC 101 12 (4 + 1) (two_sides [(90, [(4, 7)])] asks_3) =
      (0, two_sides [(90, [(4, 7)])] [], [(100, 1, 5), (100, 2, 3), (101, 3, 4)])"
    by (simp add: small_book asks_3_def)
  obtain r b' where r: "add_order BUY IOC 101 12 GENERIC b = Some (r, b')" "abs b' = two_sides [(90, [(4, 7)])] []"
    by (rule add_step [OF b(1,3,2) _ _ _ sp, of GENERIC]) (auto simp: order_ok_def)
  have "stale_reads b' + length (abs b' SELL) = stale_reads b + length (abs b SELL)"
    using reads_after_erase [OF reachable_inv [OF b(1)] _ _ fr _ r(1)] b(2) by (simp add: order_ok_def)
  then show ?thesis using r b(3) by (intro exI [of _ b] exI [of _ r] exI [of _ b']) (simp add: asks_3_def)
qed

text \<open>The depth query. For a non-negative number of levels it returns the price, the total open
  quantity (as an \<open>int64_t\<close> holds it) and the number of orders of the best levels of the side, in the order of the ladder; for a
  negative number the call of \<open>reserve\<close> throws.\<close>

theorem depth_correct:
  assumes "book_inv b"
  shows "depth sd k b = (if k < 0 then Inl (Throw ''vector::reserve'')
    else Inr (map (\<lambda>(p, q). (p, i64 (queue_qty q), length q)) (take (nat k) (abs b sd))))"
proof (cases "k < 0")
  case False
  then show ?thesis using depth_spec [OF assms, of k sd] by simp
qed (simp add: depth_def)

lemma depth_correct_witness:
  "\<exists>b. abs b = two_sides [(90, [(4, 7)])] asks_3 \<and> depth SELL 1 b = Inr [(100, 8, 2)] \<and>
     depth SELL (-1) b = Inl (Throw ''vector::reserve'')"
proof -
  obtain b where b: "reachable_book b" "abs b = two_sides [(90, [(4, 7)])] asks_3" by (rule book_3_1)
  show ?thesis
    using depth_correct [OF reachable_inv [OF b(1)], of SELL 1] depth_correct [OF reachable_inv [OF b(1)], of SELL "-1"] b(2)
    by (intro exI [of _ b]) (simp add: asks_3_def queue_qty_def i64_def)
qed

end
