(* ===== verification/SQL_Token.thy ===== *)
theory SQL_Token
  imports Nano_Prelude
begin

text \<open>
  The token types of the SQL dialect and the tables of \<open>SQL_LEXER.hpp\<close>. The enumerators of
  \<open>TokenType\<close> are grouped the way the enum's comments group them and carry the prefix \<open>T_\<close>.
\<close>

datatype keyword_tok =
  K_SELECT | K_MEMORY | K_TTL | K_FROM | K_USE | K_WHERE | K_INSERT | K_INTO | K_VALUES | K_GET |
  K_CREATE | K_TABLE | K_DELETE | K_UPDATE | K_SET | K_AND | K_OR | K_NOT | K_ORDER | K_BY |
  K_DROP | K_DATABASE | K_ORDERBY | K_AUTO_INCREMENT | K_NULL_T | K_UNIQUE | K_STATISTICS |
  K_INT | K_VARCHAR | K_PRIMARY | K_KEY

datatype literal_tok =
  K_IDENTIFIER | K_STRING | K_NUMBER | K_STAR

datatype operator_tok =
  K_PLUS | K_MINUS | K_MULTIPLY | K_SLASH | K_PERCENT | K_EQUAL | K_GREATER | K_LESS |
  K_GREATER_EQUAL | K_LESS_EQUAL | K_NOT_EQUAL | K_DOUBLE_EQUAL

datatype punct_tok =
  K_COMMA | K_SEMICOLON | K_DOT | K_OPEN_PAREN | K_CLOSE_PAREN

datatype hft_tok =
  K_FETCH | K_DOUBLE | K_PRECISION | K_TICKS | K_HFT | K_TICK_SIDE | K_SYMBOL | K_TOP | K_ADD |
  K_INDICATOR | K_FILE | K_ON | K_COLUMN_NO | K_LIST | K_STRATEGY | K_ENABLE | K_BATCH |
  K_WRITING | K_AGGREGATES | K_MEAN | K_MEAN_N | K_MAX | K_MAX_N | K_MIN | K_MIN_N | K_COUNT |
  K_COUNT_N | K_STDDEV | K_APPLY | K_STDDEV_N | K_WEBSOCKET | K_URL | K_API_KEY | K_ORDER_BOOK |
  K_BINANCE | K_DATA | K_FEED | K_OHLC | K_LIVE | K_ORDERS

datatype token_type = Keyword keyword_tok | Literal literal_tok | Operator operator_tok | Punct punct_tok | T_END_OF_FILE | Hft hft_tok

text \<open>The enumerators under their own names.\<close>

abbreviation T_SELECT :: token_type where "T_SELECT \<equiv> Keyword K_SELECT"
abbreviation T_MEMORY :: token_type where "T_MEMORY \<equiv> Keyword K_MEMORY"
abbreviation T_TTL :: token_type where "T_TTL \<equiv> Keyword K_TTL"
abbreviation T_FROM :: token_type where "T_FROM \<equiv> Keyword K_FROM"
abbreviation T_USE :: token_type where "T_USE \<equiv> Keyword K_USE"
abbreviation T_WHERE :: token_type where "T_WHERE \<equiv> Keyword K_WHERE"
abbreviation T_INSERT :: token_type where "T_INSERT \<equiv> Keyword K_INSERT"
abbreviation T_INTO :: token_type where "T_INTO \<equiv> Keyword K_INTO"
abbreviation T_VALUES :: token_type where "T_VALUES \<equiv> Keyword K_VALUES"
abbreviation T_GET :: token_type where "T_GET \<equiv> Keyword K_GET"
abbreviation T_CREATE :: token_type where "T_CREATE \<equiv> Keyword K_CREATE"
abbreviation T_TABLE :: token_type where "T_TABLE \<equiv> Keyword K_TABLE"
abbreviation T_DELETE :: token_type where "T_DELETE \<equiv> Keyword K_DELETE"
abbreviation T_UPDATE :: token_type where "T_UPDATE \<equiv> Keyword K_UPDATE"
abbreviation T_SET :: token_type where "T_SET \<equiv> Keyword K_SET"
abbreviation T_AND :: token_type where "T_AND \<equiv> Keyword K_AND"
abbreviation T_OR :: token_type where "T_OR \<equiv> Keyword K_OR"
abbreviation T_NOT :: token_type where "T_NOT \<equiv> Keyword K_NOT"
abbreviation T_ORDER :: token_type where "T_ORDER \<equiv> Keyword K_ORDER"
abbreviation T_BY :: token_type where "T_BY \<equiv> Keyword K_BY"
abbreviation T_DROP :: token_type where "T_DROP \<equiv> Keyword K_DROP"
abbreviation T_DATABASE :: token_type where "T_DATABASE \<equiv> Keyword K_DATABASE"
abbreviation T_ORDERBY :: token_type where "T_ORDERBY \<equiv> Keyword K_ORDERBY"
abbreviation T_AUTO_INCREMENT :: token_type where "T_AUTO_INCREMENT \<equiv> Keyword K_AUTO_INCREMENT"
abbreviation T_NULL_T :: token_type where "T_NULL_T \<equiv> Keyword K_NULL_T"
abbreviation T_UNIQUE :: token_type where "T_UNIQUE \<equiv> Keyword K_UNIQUE"
abbreviation T_STATISTICS :: token_type where "T_STATISTICS \<equiv> Keyword K_STATISTICS"
abbreviation T_INT :: token_type where "T_INT \<equiv> Keyword K_INT"
abbreviation T_VARCHAR :: token_type where "T_VARCHAR \<equiv> Keyword K_VARCHAR"
abbreviation T_PRIMARY :: token_type where "T_PRIMARY \<equiv> Keyword K_PRIMARY"
abbreviation T_KEY :: token_type where "T_KEY \<equiv> Keyword K_KEY"
abbreviation T_IDENTIFIER :: token_type where "T_IDENTIFIER \<equiv> Literal K_IDENTIFIER"
abbreviation T_STRING :: token_type where "T_STRING \<equiv> Literal K_STRING"
abbreviation T_NUMBER :: token_type where "T_NUMBER \<equiv> Literal K_NUMBER"
abbreviation T_STAR :: token_type where "T_STAR \<equiv> Literal K_STAR"
abbreviation T_PLUS :: token_type where "T_PLUS \<equiv> Operator K_PLUS"
abbreviation T_MINUS :: token_type where "T_MINUS \<equiv> Operator K_MINUS"
abbreviation T_MULTIPLY :: token_type where "T_MULTIPLY \<equiv> Operator K_MULTIPLY"
abbreviation T_SLASH :: token_type where "T_SLASH \<equiv> Operator K_SLASH"
abbreviation T_PERCENT :: token_type where "T_PERCENT \<equiv> Operator K_PERCENT"
abbreviation T_EQUAL :: token_type where "T_EQUAL \<equiv> Operator K_EQUAL"
abbreviation T_GREATER :: token_type where "T_GREATER \<equiv> Operator K_GREATER"
abbreviation T_LESS :: token_type where "T_LESS \<equiv> Operator K_LESS"
abbreviation T_GREATER_EQUAL :: token_type where "T_GREATER_EQUAL \<equiv> Operator K_GREATER_EQUAL"
abbreviation T_LESS_EQUAL :: token_type where "T_LESS_EQUAL \<equiv> Operator K_LESS_EQUAL"
abbreviation T_NOT_EQUAL :: token_type where "T_NOT_EQUAL \<equiv> Operator K_NOT_EQUAL"
abbreviation T_DOUBLE_EQUAL :: token_type where "T_DOUBLE_EQUAL \<equiv> Operator K_DOUBLE_EQUAL"
abbreviation T_COMMA :: token_type where "T_COMMA \<equiv> Punct K_COMMA"
abbreviation T_SEMICOLON :: token_type where "T_SEMICOLON \<equiv> Punct K_SEMICOLON"
abbreviation T_DOT :: token_type where "T_DOT \<equiv> Punct K_DOT"
abbreviation T_OPEN_PAREN :: token_type where "T_OPEN_PAREN \<equiv> Punct K_OPEN_PAREN"
abbreviation T_CLOSE_PAREN :: token_type where "T_CLOSE_PAREN \<equiv> Punct K_CLOSE_PAREN"
abbreviation T_FETCH :: token_type where "T_FETCH \<equiv> Hft K_FETCH"
abbreviation T_DOUBLE :: token_type where "T_DOUBLE \<equiv> Hft K_DOUBLE"
abbreviation T_PRECISION :: token_type where "T_PRECISION \<equiv> Hft K_PRECISION"
abbreviation T_TICKS :: token_type where "T_TICKS \<equiv> Hft K_TICKS"
abbreviation T_HFT :: token_type where "T_HFT \<equiv> Hft K_HFT"
abbreviation T_TICK_SIDE :: token_type where "T_TICK_SIDE \<equiv> Hft K_TICK_SIDE"
abbreviation T_SYMBOL :: token_type where "T_SYMBOL \<equiv> Hft K_SYMBOL"
abbreviation T_TOP :: token_type where "T_TOP \<equiv> Hft K_TOP"
abbreviation T_ADD :: token_type where "T_ADD \<equiv> Hft K_ADD"
abbreviation T_INDICATOR :: token_type where "T_INDICATOR \<equiv> Hft K_INDICATOR"
abbreviation T_FILE :: token_type where "T_FILE \<equiv> Hft K_FILE"
abbreviation T_ON :: token_type where "T_ON \<equiv> Hft K_ON"
abbreviation T_COLUMN_NO :: token_type where "T_COLUMN_NO \<equiv> Hft K_COLUMN_NO"
abbreviation T_LIST :: token_type where "T_LIST \<equiv> Hft K_LIST"
abbreviation T_STRATEGY :: token_type where "T_STRATEGY \<equiv> Hft K_STRATEGY"
abbreviation T_ENABLE :: token_type where "T_ENABLE \<equiv> Hft K_ENABLE"
abbreviation T_BATCH :: token_type where "T_BATCH \<equiv> Hft K_BATCH"
abbreviation T_WRITING :: token_type where "T_WRITING \<equiv> Hft K_WRITING"
abbreviation T_AGGREGATES :: token_type where "T_AGGREGATES \<equiv> Hft K_AGGREGATES"
abbreviation T_MEAN :: token_type where "T_MEAN \<equiv> Hft K_MEAN"
abbreviation T_MEAN_N :: token_type where "T_MEAN_N \<equiv> Hft K_MEAN_N"
abbreviation T_MAX :: token_type where "T_MAX \<equiv> Hft K_MAX"
abbreviation T_MAX_N :: token_type where "T_MAX_N \<equiv> Hft K_MAX_N"
abbreviation T_MIN :: token_type where "T_MIN \<equiv> Hft K_MIN"
abbreviation T_MIN_N :: token_type where "T_MIN_N \<equiv> Hft K_MIN_N"
abbreviation T_COUNT :: token_type where "T_COUNT \<equiv> Hft K_COUNT"
abbreviation T_COUNT_N :: token_type where "T_COUNT_N \<equiv> Hft K_COUNT_N"
abbreviation T_STDDEV :: token_type where "T_STDDEV \<equiv> Hft K_STDDEV"
abbreviation T_APPLY :: token_type where "T_APPLY \<equiv> Hft K_APPLY"
abbreviation T_STDDEV_N :: token_type where "T_STDDEV_N \<equiv> Hft K_STDDEV_N"
abbreviation T_WEBSOCKET :: token_type where "T_WEBSOCKET \<equiv> Hft K_WEBSOCKET"
abbreviation T_URL :: token_type where "T_URL \<equiv> Hft K_URL"
abbreviation T_API_KEY :: token_type where "T_API_KEY \<equiv> Hft K_API_KEY"
abbreviation T_ORDER_BOOK :: token_type where "T_ORDER_BOOK \<equiv> Hft K_ORDER_BOOK"
abbreviation T_BINANCE :: token_type where "T_BINANCE \<equiv> Hft K_BINANCE"
abbreviation T_DATA :: token_type where "T_DATA \<equiv> Hft K_DATA"
abbreviation T_FEED :: token_type where "T_FEED \<equiv> Hft K_FEED"
abbreviation T_OHLC :: token_type where "T_OHLC \<equiv> Hft K_OHLC"
abbreviation T_LIVE :: token_type where "T_LIVE \<equiv> Hft K_LIVE"
abbreviation T_ORDERS :: token_type where "T_ORDERS \<equiv> Hft K_ORDERS"

definition keyword_table :: "(string \<times> token_type) list" where
  "keyword_table = [
    (''double'', T_DOUBLE), (''tick_side'', T_TICK_SIDE), (''precision'', T_PRECISION),
    (''ticks'', T_TICKS), (''hft'', T_HFT), (''symbol'', T_SYMBOL), (''top'', T_TOP),
    (''add'', T_ADD), (''indicator'', T_INDICATOR), (''file'', T_FILE), (''on'', T_ON),
    (''column_no'', T_COLUMN_NO), (''list'', T_LIST), (''strategy'', T_STRATEGY),
    (''enable'', T_ENABLE), (''batch'', T_BATCH), (''writing'', T_WRITING),
    (''statistics'', T_STATISTICS), (''fetch'', T_FETCH), (''apply'', T_APPLY),
    (''websocket'', T_WEBSOCKET), (''url'', T_URL), (''api_key'', T_API_KEY),
    (''binance'', T_BINANCE), (''order_book'', T_ORDER_BOOK), (''data'', T_DATA),
    (''feed'', T_FEED), (''ohlc'', T_OHLC), (''live'', T_LIVE), (''orders'', T_ORDERS),
    (''mean'', T_MEAN), (''mean_n'', T_MEAN_N), (''max'', T_MAX), (''max_n'', T_MAX_N),
    (''min'', T_MIN), (''min_n'', T_MIN_N), (''count'', T_COUNT), (''count_n'', T_COUNT_N),
    (''stddev'', T_STDDEV), (''stddev_n'', T_STDDEV_N), (''select'', T_SELECT), (''use'', T_USE),
    (''from'', T_FROM), (''where'', T_WHERE), (''insert'', T_INSERT), (''into'', T_INTO),
    (''values'', T_VALUES), (''get'', T_GET), (''memory'', T_MEMORY), (''ttl'', T_TTL),
    (''create'', T_CREATE), (''table'', T_TABLE), (''delete'', T_DELETE), (''update'', T_UPDATE),
    (''set'', T_SET), (''and'', T_AND), (''or'', T_OR), (''not'', T_NOT), (''order'', T_ORDER),
    (''by'', T_BY), (''drop'', T_DROP), (''database'', T_DATABASE), (''orderby'', T_ORDERBY),
    (''table'', T_TABLE), (''int'', T_INT), (''varchar'', T_VARCHAR), (''primary'', T_PRIMARY),
    (''key'', T_KEY), (''auto_increment'', T_AUTO_INCREMENT), (''null'', T_NULL_T),
    (''unique'', T_UNIQUE)]"

definition single_char_tokens :: "(char \<times> token_type) list" where
  "single_char_tokens = [
    (CHR ''+'', T_PLUS), (CHR ''-'', T_MINUS), (CHR ''*'', T_MULTIPLY), (CHR ''/'', T_SLASH),
    (CHR ''%'', T_PERCENT), (CHR ''('', T_OPEN_PAREN), (CHR '')'', T_CLOSE_PAREN),
    (CHR '','', T_COMMA), (CHR '';'', T_SEMICOLON), (CHR ''.'', T_DOT)]"

definition type_to_string :: "token_type \<Rightarrow> string" where
  "type_to_string t = (case t of
     T_DATA \<Rightarrow> ''data'' | T_FEED \<Rightarrow> ''feed'' |
     T_OHLC \<Rightarrow> ''ohlc'' | T_LIVE \<Rightarrow> ''live'' |
     T_ORDERS \<Rightarrow> ''orders'' | T_BINANCE \<Rightarrow> ''binance'' |
     T_API_KEY \<Rightarrow> ''api_key'' | T_ORDER_BOOK \<Rightarrow> ''order_book'' |
     T_APPLY \<Rightarrow> ''apply'' | T_DOUBLE \<Rightarrow> ''DOUBLE'' |
     T_TICKS \<Rightarrow> ''TICKS'' | T_PRECISION \<Rightarrow> ''PRECISION'' |
     T_TICK_SIDE \<Rightarrow> ''TICK_SIDE'' | T_HFT \<Rightarrow> ''HFT'' |
     T_SYMBOL \<Rightarrow> ''SYMBOL'' | T_TOP \<Rightarrow> ''TOP'' |
     T_ADD \<Rightarrow> ''ADD'' | T_INDICATOR \<Rightarrow> ''indicator'' |
     T_FILE \<Rightarrow> ''file'' | T_ON \<Rightarrow> ''on'' |
     T_COLUMN_NO \<Rightarrow> ''column_no'' | T_LIST \<Rightarrow> ''list'' |
     T_STRATEGY \<Rightarrow> ''strategy'' | T_ENABLE \<Rightarrow> ''enable'' |
     T_BATCH \<Rightarrow> ''batch'' | T_WRITING \<Rightarrow> ''writing'' |
     T_STATISTICS \<Rightarrow> ''statistics'' | T_AGGREGATES \<Rightarrow> ''AGGREGATES'' |
     T_MEAN \<Rightarrow> ''MEAN'' | T_MEAN_N \<Rightarrow> ''MEAN_N'' |
     T_MAX \<Rightarrow> ''MAX'' | T_MAX_N \<Rightarrow> ''MAX_N'' |
     T_MIN \<Rightarrow> ''MIN'' | T_MIN_N \<Rightarrow> ''MIN_N'' |
     T_COUNT \<Rightarrow> ''COUNT'' | T_COUNT_N \<Rightarrow> ''COUNT_N'' |
     T_STDDEV \<Rightarrow> ''STDDEV'' | T_STDDEV_N \<Rightarrow> ''STDDEV_N'' |
     T_FETCH \<Rightarrow> ''fetch'' | T_WEBSOCKET \<Rightarrow> ''websocket'' |
     T_URL \<Rightarrow> ''url'' | T_SELECT \<Rightarrow> ''SELECT'' |
     T_FROM \<Rightarrow> ''FROM'' | T_USE \<Rightarrow> ''USE'' |
     T_WHERE \<Rightarrow> ''WHERE'' | T_INSERT \<Rightarrow> ''INSERT'' |
     T_INTO \<Rightarrow> ''INTO'' | T_GET \<Rightarrow> ''GET'' |
     T_VALUES \<Rightarrow> ''VALUES'' | T_MEMORY \<Rightarrow> ''MEMORY'' |
     T_TTL \<Rightarrow> ''TTL'' | T_CREATE \<Rightarrow> ''CREATE'' |
     T_TABLE \<Rightarrow> ''TABLE'' | T_DELETE \<Rightarrow> ''DELETE'' |
     T_UPDATE \<Rightarrow> ''UPDATE'' | T_SET \<Rightarrow> ''SET'' |
     T_AND \<Rightarrow> ''AND'' | T_OR \<Rightarrow> ''OR'' | T_NOT \<Rightarrow> ''NOT'' |
     T_ORDER \<Rightarrow> ''ORDER'' | T_BY \<Rightarrow> ''BY'' |
     T_DROP \<Rightarrow> ''DROP'' | T_DATABASE \<Rightarrow> ''DATABASE'' |
     T_ORDERBY \<Rightarrow> ''ORDERBY'' | T_AUTO_INCREMENT \<Rightarrow> ''AUTO_INCREMENT'' |
     T_NULL_T \<Rightarrow> ''NULL'' | T_UNIQUE \<Rightarrow> ''UNIQUE'' |
     T_INT \<Rightarrow> ''INT'' | T_VARCHAR \<Rightarrow> ''VARCHAR'' |
     T_PRIMARY \<Rightarrow> ''PRIMARY'' | T_KEY \<Rightarrow> ''KEY'' |
     T_IDENTIFIER \<Rightarrow> ''IDENTIFIER'' | T_STRING \<Rightarrow> ''STRING'' |
     T_NUMBER \<Rightarrow> ''NUMBER'' | T_STAR \<Rightarrow> ''STAR'' |
     T_PLUS \<Rightarrow> ''PLUS'' | T_MINUS \<Rightarrow> ''MINUS'' |
     T_MULTIPLY \<Rightarrow> ''MULTIPLY'' | T_SLASH \<Rightarrow> ''SLASH'' |
     T_PERCENT \<Rightarrow> ''PERCENT'' | T_EQUAL \<Rightarrow> ''EQUAL'' |
     T_GREATER \<Rightarrow> ''GREATER'' | T_LESS \<Rightarrow> ''LESS'' |
     T_GREATER_EQUAL \<Rightarrow> ''GREATER_EQUAL'' |
     T_LESS_EQUAL \<Rightarrow> ''LESS_EQUAL'' | T_NOT_EQUAL \<Rightarrow> ''NOT_EQUAL'' |
     T_DOUBLE_EQUAL \<Rightarrow> ''DOUBLE_EQUAL'' | T_COMMA \<Rightarrow> ''COMMA'' |
     T_SEMICOLON \<Rightarrow> ''SEMICOLON'' | T_DOT \<Rightarrow> ''DOT'' |
     T_OPEN_PAREN \<Rightarrow> ''OPEN_PAREN'' | T_CLOSE_PAREN \<Rightarrow> ''CLOSE_PAREN'' |
     T_END_OF_FILE \<Rightarrow> ''END_OF_FILE'')"

record token =
  tk_type :: token_type
  tk_value :: string

end
