(* ===== verification/Std_Text.thy ===== *)
theory Std_Text
  imports Nano_Prelude
begin

text \<open>
  The parts of the C++ library that turn text into numbers and back: the character classes of the "C"
  locale, \<open>std::to_string\<close>, \<open>std::stoi\<close>, \<open>std::stoll\<close> and \<open>std::from_chars\<close> for decimal integers.
\<close>

section \<open>Character classes\<close>

definition is_alpha :: "char \<Rightarrow> bool" where
  "is_alpha c \<longleftrightarrow> (let n = (of_char c :: nat) in 65 \<le> n \<and> n \<le> 90 \<or> 97 \<le> n \<and> n \<le> 122)"

definition is_digit :: "char \<Rightarrow> bool" where
  "is_digit c \<longleftrightarrow> (let n = (of_char c :: nat) in 48 \<le> n \<and> n \<le> 57)"

definition to_lower :: "char \<Rightarrow> char" where
  "to_lower c = (let n = (of_char c :: nat) in if 65 \<le> n \<and> n \<le> 90 then char_of (n + 32) else c)"

text \<open>\<open>isspace\<close>, which \<open>strtol\<close> skips.\<close>

definition is_cspace :: "char \<Rightarrow> bool" where
  "is_cspace c \<longleftrightarrow> (let n = (of_char c :: nat) in n = 32 \<or> 9 \<le> n \<and> n \<le> 13)"

section \<open>Numbers\<close>

definition digit_value :: "char \<Rightarrow> int" where
  "digit_value c = int (of_char c) - 48"

definition digits_value :: "string \<Rightarrow> int" where
  "digits_value ds = foldl (\<lambda>v c. 10 * v + digit_value c) 0 ds"

text \<open>An optional sign and the longest run of digits; \<open>None\<close> when there is no digit.\<close>

definition signed_digits :: "bool \<Rightarrow> string \<Rightarrow> int option" where
  "signed_digits sg s =
     (let (neg, r) = (case s of [] \<Rightarrow> (False, s)
                      | c # cs \<Rightarrow> if c = CHR ''-'' then (True, cs) else if sg \<and> c = CHR ''+'' then (False, cs) else (False, s));
          ds = takeWhile is_digit r
      in if ds = [] then None else Some (if neg then - digits_value ds else digits_value ds))"

text \<open>
  \<open>std::stoi\<close> and \<open>std::stoll\<close>: leading white space, a sign, digits; what follows is ignored. Without a
  digit they throw \<open>std::invalid_argument\<close>, out of range \<open>std::out_of_range\<close>, both with the function's name.
\<close>

definition sto_range :: "string \<Rightarrow> int \<Rightarrow> int \<Rightarrow> string \<Rightarrow> int result" where
  "sto_range name lo hi s =
     (case signed_digits True (dropWhile is_cspace s) of
        None \<Rightarrow> Inl (Throw name)
      | Some v \<Rightarrow> if lo \<le> v \<and> v \<le> hi then Inr v else Inl (Throw name))"

definition stoi :: "string \<Rightarrow> int result" where
  "stoi = sto_range ''stoi'' INT32_MIN INT32_MAX"

definition stoll :: "string \<Rightarrow> int result" where
  "stoll = sto_range ''stoll'' INT64_MIN INT64_MAX"

text \<open>
  \<open>std::from_chars\<close> into an \<open>int64_t\<close>: a minus sign is allowed, a plus sign and white space are not. On an
  error, \<open>None\<close> here, the variable keeps its old value.
\<close>

definition from_chars :: "string \<Rightarrow> int option" where
  "from_chars s =
     (case signed_digits False s of
        None \<Rightarrow> None
      | Some v \<Rightarrow> if INT64_MIN \<le> v \<and> v \<le> INT64_MAX then Some v else None)"

text \<open>\<open>std::to_string\<close> of a signed number.\<close>

definition show_int :: "int \<Rightarrow> string" where
  "show_int n = (if n < 0 then CHR ''-'' # show_nat (nat (- n)) else show_nat (nat n))"

section \<open>Facts\<close>

lemma of_char_of_small: "n < 256 \<Longrightarrow> of_char (char_of n :: char) = (n :: nat)"
  by (simp add: of_char_of)

lemma digits_value_simps [simp]:
  "digits_value [] = 0" "digits_value (ds @ [c]) = 10 * digits_value ds + digit_value c"
  by (simp_all add: digits_value_def)

lemma digits_value_nonneg: "list_all is_digit ds \<Longrightarrow> 0 \<le> digits_value ds"
  by (induction ds rule: rev_induct) (auto simp: digit_value_def is_digit_def Let_def)

lemma show_nat_digits: "list_all is_digit (show_nat n)"
proof (induction n rule: show_nat.induct)
  case (1 n)
  have d: "is_digit (char_of (48 + k))" if "k < 10" for k :: nat
    using that by (simp add: is_digit_def of_char_of_small)
  show ?case using 1 d [of n] d [of "n mod 10"] by (subst show_nat.simps) auto
qed

lemma show_nat_nonempty [simp]: "show_nat n \<noteq> []"
  by (subst show_nat.simps) simp

lemma digits_value_show_nat [simp]: "digits_value (show_nat n) = int n"
proof (induction n rule: show_nat.induct)
  case (1 n)
  have d: "digit_value (char_of (48 + k)) = int k" if "k < 10" for k :: nat
    using that by (simp add: digit_value_def of_char_of_small)
  show ?case
  proof (cases "n < 10")
    case True
    then have "digits_value [char_of (48 + n)] = int n" using d digits_value_simps(2) [of "[]"] by simp
    then show ?thesis using True by (subst show_nat.simps) simp
  next
    case False
    have "10 * int (n div 10) + int (n mod 10) = int n" by (simp add: zdiv_int zmod_int)
    then show ?thesis using False 1 d [of "n mod 10"] by (subst show_nat.simps) simp
  qed
qed

lemma takeWhile_all: "list_all P xs \<Longrightarrow> takeWhile P xs = xs"
  by (simp add: list_all_iff takeWhile_eq_all_conv)

lemma takeWhile_all_append: "list_all P xs \<Longrightarrow> (ys = [] \<or> \<not> P (hd ys)) \<Longrightarrow> takeWhile P (xs @ ys) = xs"
  by (cases ys) (auto simp: list_all_iff takeWhile_tail)

lemma digit_not_sign: "is_digit c \<Longrightarrow> c \<noteq> CHR ''-'' \<and> c \<noteq> CHR ''+'' \<and> \<not> is_cspace c"
  by (auto simp: is_digit_def is_cspace_def Let_def)

lemma signed_digits_number:
  assumes "ds \<noteq> []" and "list_all is_digit ds" and "r = [] \<or> \<not> is_digit (hd r)"
  shows "signed_digits sg (ds @ r) = Some (digits_value ds)"
  using assms takeWhile_all_append [OF assms(2,3)] digit_not_sign
  by (cases ds) (auto simp: signed_digits_def)

lemma signed_digits_minus:
  assumes "ds \<noteq> []" and "list_all is_digit ds"
  shows "signed_digits sg (CHR ''-'' # ds) = Some (- digits_value ds)"
  using assms by (simp add: signed_digits_def Let_def takeWhile_all)

lemma digits_no_space: "ds \<noteq> [] \<Longrightarrow> list_all is_digit ds \<Longrightarrow> dropWhile is_cspace (ds @ r) = ds @ r"
  by (cases ds) (auto dest: digit_not_sign)

lemma sto_range_number:
  assumes "ds \<noteq> []" and "list_all is_digit ds" and "r = [] \<or> \<not> is_digit (hd r)"
  shows "sto_range name lo hi (ds @ r) =
    (if lo \<le> digits_value ds \<and> digits_value ds \<le> hi then Inr (digits_value ds) else Inl (Throw name))"
  by (simp add: sto_range_def digits_no_space [OF assms(1,2)] signed_digits_number [OF assms])

lemma stoi_show_nat [simp]: "int n \<le> INT32_MAX \<Longrightarrow> stoi (show_nat n) = Inr (int n)"
  using sto_range_number [OF show_nat_nonempty show_nat_digits, of "[]" "''stoi''" INT32_MIN INT32_MAX n]
  by (simp add: stoi_def int_limits)

lemma from_chars_show_nat [simp]: "int n \<le> INT64_MAX \<Longrightarrow> from_chars (show_nat n) = Some (int n)"
  using signed_digits_number [OF show_nat_nonempty show_nat_digits, of "[]" False n]
  by (simp add: from_chars_def int_limits)

lemma stoll_show_int [simp]:
  assumes "INT64_MIN \<le> n" and "n \<le> INT64_MAX"
  shows "stoll (show_int n) = Inr n"
proof (cases "n < 0")
  case True
  have "dropWhile is_cspace (show_int n) = show_int n"
    using True by (simp add: show_int_def is_cspace_def Let_def)
  then show ?thesis
    using True assms signed_digits_minus [OF show_nat_nonempty show_nat_digits, of True "nat (- n)"]
    by (simp add: stoll_def sto_range_def show_int_def)
next
  case False
  then show ?thesis
    using assms sto_range_number [OF show_nat_nonempty show_nat_digits, of "[]" "''stoll''" INT64_MIN INT64_MAX "nat n"]
    by (simp add: stoll_def show_int_def)
qed

end
