(* ===== verification/SQL_Lexer.thy ===== *)
theory SQL_Lexer
  imports SQL_Token Std_Text
begin

text \<open>
  The lexer of the SQL dialect (\<open>SQL_LEXER.hpp\<close>). Tokens are values (the code allocates each and frees
  them in the destructor). The result of \<open>tokenize\<close> is the vector of tokens, or the exception thrown
  with its text.
\<close>

section \<open>Characters\<close>

definition is_space :: "char \<Rightarrow> bool" where
  "is_space c \<longleftrightarrow> c = CHR '' '' \<or> c = CHR 0x09 \<or> c = CHR 0x0D \<or> c = CHR 0x0A"

definition word_char :: "char \<Rightarrow> bool" where
  "word_char c \<longleftrightarrow> is_alpha c \<or> is_digit c \<or> c = CHR ''_''"

definition word_start :: "char \<Rightarrow> bool" where
  "word_start c \<longleftrightarrow> is_alpha c \<or> c = CHR ''_''"

section \<open>The state of the lexer\<close>

text \<open>
  \<open>lx_rest\<close> is the source from \<open>cursor\<close> on, so \<open>cursor\<close> is the length of what has been consumed, and
  the member \<open>current\<close>, which every method keeps equal to \<open>source[cursor]\<close> or \<open>'\0'\<close> at the end, is a
  function of it.
\<close>

record lexer =
  lx_rest :: string
  lx_line :: nat
  lx_char :: nat

definition mk_lexer :: "string \<Rightarrow> lexer" where
  "mk_lexer src = \<lparr>lx_rest = src, lx_line = 1, lx_char = 1\<rparr>"

definition current :: "lexer \<Rightarrow> char" where
  "current lx = (case lx_rest lx of [] \<Rightarrow> NUL | c # _ \<Rightarrow> c)"

definition seek :: "nat \<Rightarrow> lexer \<Rightarrow> char" where
  "seek offset lx = (if length (lx_rest lx) \<le> offset then NUL else lx_rest lx ! offset)"

definition advance :: "lexer \<Rightarrow> char \<times> lexer" where
  "advance lx =
     (case lx_rest lx of
        [] \<Rightarrow> (NUL, lx)
      | c # cs \<Rightarrow>
          (c, if c = CHR 0x0A then \<lparr>lx_rest = cs, lx_line = lx_line lx + 1, lx_char = 1\<rparr>
              else \<lparr>lx_rest = cs, lx_line = lx_line lx, lx_char = lx_char lx + 1\<rparr>))"

text \<open>
  The loop \<open>while (P(current)) buffer << advance();\<close>. Every \<open>P\<close> of the code is false on \<open>'\0'\<close>, so the
  loop ends at the end of the source at the latest; the test for it is written out here.
\<close>

function span :: "(char \<Rightarrow> bool) \<Rightarrow> string \<Rightarrow> lexer \<Rightarrow> string \<times> lexer" where
  "span P buf lx =
     (if lx_rest lx \<noteq> [] \<and> P (current lx) then
        (case advance lx of (c, lx1) \<Rightarrow> span P (buf @ [c]) lx1)
      else (buf, lx))"
  by pat_completeness auto

termination span
  by (relation "measure (\<lambda>(P, buf, lx). length (lx_rest lx))")
    (auto simp: advance_def neq_Nil_conv split: list.splits if_splits)

definition skip_whitespace :: "lexer \<Rightarrow> lexer" where
  "skip_whitespace lx = snd (span is_space [] lx)"

definition add_token :: "token_type \<Rightarrow> string \<Rightarrow> token" where
  "add_token ty v = \<lparr>tk_type = ty, tk_value = v\<rparr>"

section \<open>Tokens\<close>

definition classify :: "string \<Rightarrow> token_type" where
  "classify w = (case map_of keyword_table w of Some ty \<Rightarrow> ty | None \<Rightarrow> T_IDENTIFIER)"

definition tokenize_keyword :: "lexer \<Rightarrow> token \<times> lexer" where
  "tokenize_keyword lx =
     (let (buf, lx1) = (if word_start (current lx) then (case advance lx of (c, l) \<Rightarrow> ([c], l)) else ([], lx));
          (buf2, lx2) = span word_char buf lx1;
          v = map to_lower buf2
      in (add_token (classify v) v, lx2))"

definition tokenize_number :: "lexer \<Rightarrow> token \<times> lexer" where
  "tokenize_number lx =
     (let (buf, lx1) = span is_digit [] lx
      in if current lx1 = CHR ''.'' then
           (let (c, lx2) = advance lx1; (buf3, lx3) = span is_digit (buf @ [c]) lx2
            in (add_token T_NUMBER buf3, lx3))
         else (add_token T_NUMBER buf, lx1))"

definition unterminated :: "lexer \<Rightarrow> fault" where
  "unterminated lx = Throw (''Unterminated string at line '' @ show_nat (lx_line lx))"

text \<open>The loop of \<open>tokenizeString\<close> stops at the quote, at \<open>'\0'\<close>, or (throwing) at a newline.\<close>

definition tokenize_string :: "lexer \<Rightarrow> (token \<times> lexer) result" where
  "tokenize_string lx =
     (let (quote, lx1) = advance lx;
          (buf, lx2) = span (\<lambda>c. c \<noteq> quote \<and> c \<noteq> NUL \<and> c \<noteq> CHR 0x0A) [] lx1
      in if current lx2 \<noteq> quote \<and> current lx2 \<noteq> NUL then Inl (unterminated lx2)
         else if current lx2 = quote then Inr (add_token T_STRING buf, snd (advance lx2))
         else Inl (unterminated lx2))"

definition parsing_error :: "lexer \<Rightarrow> string" where
  "parsing_error lx =
     ''Parsing error at line '' @ show_nat (lx_line lx) @ '' at character '' @ show_nat (lx_char lx)"

definition take_op :: "nat \<Rightarrow> token_type \<Rightarrow> string \<Rightarrow> lexer \<Rightarrow> (token list \<times> lexer) result" where
  "take_op n ty v lx = Inr ([add_token ty v], (((snd \<circ> advance) ^^ n) lx))"

definition check_single_char_token :: "lexer \<Rightarrow> (token \<times> lexer) option" where
  "check_single_char_token lx =
     (case map_of single_char_tokens (current lx) of
        Some ty \<Rightarrow> Some (add_token ty [current lx], snd (advance lx))
      | None \<Rightarrow> None)"

definition tokenize_operator :: "lexer \<Rightarrow> (token list \<times> lexer) result" where
  "tokenize_operator lx =
     (let c = current lx; d = seek 1 lx
      in if c = CHR ''!'' then
           (if d = CHR ''='' then take_op 2 T_NOT_EQUAL ''!='' lx else Inl (Throw (parsing_error lx)))
         else if c = CHR ''='' then
           (if d = CHR ''='' then take_op 2 T_DOUBLE_EQUAL ''=='' lx else take_op 1 T_EQUAL ''='' lx)
         else if c = CHR ''<'' then
           (if d = CHR ''='' then take_op 2 T_LESS_EQUAL ''<='' lx
            else if d = CHR ''>'' then take_op 2 T_NOT_EQUAL ''<>'' lx
            else take_op 1 T_LESS ''<'' lx)
         else if c = CHR ''>'' then
           (if d = CHR ''='' then take_op 2 T_GREATER_EQUAL ''>='' lx else take_op 1 T_GREATER ''>'' lx)
         else
           (case check_single_char_token lx of
              Some (t, lx1) \<Rightarrow> Inr ([t], lx1)
            | None \<Rightarrow> Inl (Throw (parsing_error lx @ '' - unexpected character: '' @ [c]))))"

text \<open>One round of the loop of \<open>tokenize\<close>.\<close>

definition lex_step :: "lexer \<Rightarrow> (token list \<times> lexer) result" where
  "lex_step lx0 =
     (let lx = skip_whitespace lx0
      in if lx_rest lx = [] then Inr ([], lx)
         else if word_start (current lx) then (case tokenize_keyword lx of (t, lx1) \<Rightarrow> Inr ([t], lx1))
         else if current lx = CHR 0x27 \<or> current lx = CHR 0x22 then
           bindE (tokenize_string lx) (\<lambda>(t, lx1). Inr ([t], lx1))
         else if is_digit (current lx) then (case tokenize_number lx of (t, lx1) \<Rightarrow> Inr ([t], lx1))
         else tokenize_operator lx)"

section \<open>Moving through the source\<close>

text \<open>The state after \<open>n\<close> calls of \<open>advance\<close>; every state of a run is one of these.\<close>

definition skip :: "nat \<Rightarrow> lexer \<Rightarrow> lexer" where
  "skip n lx = ((snd \<circ> advance) ^^ n) lx"

definition newlines :: "string \<Rightarrow> nat" where
  "newlines s = length (filter (\<lambda>c. c = CHR 0x0A) s)"

lemma current_simps [lex_simps]:
  "lx_rest lx = c # cs \<Longrightarrow> current lx = c" "lx_rest lx = [] \<Longrightarrow> current lx = NUL"
  by (simp_all add: current_def)

lemma advance_rest [simp]: "lx_rest (snd (advance lx)) = tl (lx_rest lx)"
  by (simp add: advance_def split: list.split)

lemma fst_advance: "fst (advance lx) = current lx"
  by (simp add: advance_def current_def split: list.split)

lemma advance_line: "lx_line (snd (advance lx)) = lx_line lx + newlines (take 1 (lx_rest lx))"
  by (simp add: advance_def newlines_def split: list.split)

lemma skip_0 [simp]: "skip 0 lx = lx"
  by (simp add: skip_def)

lemma skip_Suc: "skip (Suc n) lx = skip n (snd (advance lx))"
  by (simp add: skip_def funpow_swap1)

lemma skip_skip [simp]: "skip m (skip n lx) = skip (n + m) lx"
  by (simp add: skip_def funpow_add [symmetric, THEN fun_cong, simplified] add.commute)

lemma skip_rest [simp]: "lx_rest (skip n lx) = drop n (lx_rest lx)"
  by (induction n arbitrary: lx) (simp_all add: skip_Suc drop_Suc)

lemma newlines_append [simp]: "newlines (xs @ ys) = newlines xs + newlines ys"
  by (simp add: newlines_def)

lemma skip_line: "lx_line (skip n lx) = lx_line lx + newlines (take n (lx_rest lx))"
proof (induction n arbitrary: lx)
  case (Suc n)
  then show ?case
    by (cases "lx_rest lx") (simp_all add: skip_Suc advance_line newlines_def)
qed (simp add: newlines_def)

lemma advance_skip: "snd (advance lx) = skip 1 lx"
  by (simp add: skip_Suc)

declare span.simps [simp del]

lemma span_skip:
  "span P buf lx = (buf @ takeWhile P (lx_rest lx), skip (length (takeWhile P (lx_rest lx))) lx)"
proof (induction P buf lx rule: span.induct)
  case (1 P buf lx)
  show ?case
  proof (cases "lx_rest lx")
    case Nil
    then show ?thesis by (simp add: span.simps)
  next
    case (Cons c cs)
    show ?thesis
    proof (cases "P c")
      case True
      have c: "current lx = c" using Cons by (rule current_simps)
      obtain l1 where adv: "advance lx = (c, l1)" using fst_advance [of lx] c by (cases "advance lx") simp
      then have l1: "l1 = skip 1 lx" "lx_rest l1 = cs" using advance_skip [of lx] advance_rest [of lx] Cons by simp_all
      have "span P buf lx = span P (buf @ [c]) l1" by (subst span.simps) (simp add: Cons c True adv)
      also have "\<dots> = ((buf @ [c]) @ takeWhile P cs, skip (length (takeWhile P cs)) l1)"
        using 1 [OF _ adv [symmetric]] Cons c True l1 by (simp add: adv)
      finally show ?thesis using True Cons by (simp add: l1(1))
    next
      case False
      then show ?thesis using Cons by (simp add: span.simps current_simps(1))
    qed
  qed
qed

lemma skip_whitespace_skip:
  "skip_whitespace lx = skip (length (takeWhile is_space (lx_rest lx))) lx"
  by (simp add: skip_whitespace_def span_skip)

lemma seek_eq: "seek n lx = current (skip n lx)"
  by (auto simp: seek_def current_def neq_Nil_conv hd_drop_conv_nth [symmetric] split: list.split)

section \<open>Each round moves forward\<close>

text \<open>What a round does to the position: it stops some characters further on, never past the end.\<close>

definition moves :: "lexer \<Rightarrow> lexer \<Rightarrow> bool" where
  "moves lx lx' \<longleftrightarrow> (\<exists>k. 0 < k \<and> k \<le> length (lx_rest lx) \<and> lx' = skip k lx)"

lemma skip_all: "length (lx_rest lx) \<le> k \<Longrightarrow> skip k lx = skip (length (lx_rest lx)) lx"
proof (induction k arbitrary: lx)
  case (Suc k)
  show ?case
  proof (cases "lx_rest lx")
    case Nil
    have "snd (advance lx) = lx" using Nil by (simp add: advance_def)
    then show ?thesis using Suc.IH [of lx] Nil by (simp add: skip_Suc)
  next
    case (Cons c cs)
    then show ?thesis using Suc.IH [of "snd (advance lx)"] Suc.prems by (simp add: skip_Suc)
  qed
qed simp

lemma movesI:
  assumes "lx_rest lx \<noteq> []" and "0 < k" and "lx' = skip k lx"
  shows "moves lx lx'"
proof (cases "k \<le> length (lx_rest lx)")
  case False
  then have "lx' = skip (length (lx_rest lx)) lx" using skip_all [of lx k] assms(3) by simp
  then show ?thesis using assms(1) by (auto simp: moves_def)
qed (use assms in \<open>auto simp: moves_def\<close>)

lemma moves_less: "moves lx lx' \<Longrightarrow> length (lx_rest lx') < length (lx_rest lx)"
  by (auto simp: moves_def)

lemma tokenize_keyword_skip:
  assumes "lx_rest lx = c # cs" and "word_start c"
  shows "tokenize_keyword lx =
    (let w = map to_lower (c # takeWhile word_char cs)
     in (add_token (classify w) w, skip (Suc (length (takeWhile word_char cs))) lx))"
proof -
  have c: "current lx = c" using assms(1) by (rule current_simps)
  obtain l1 where adv: "advance lx = (c, l1)" using fst_advance [of lx] c by (cases "advance lx") simp
  then have l1: "l1 = skip 1 lx" using advance_skip [of lx] by simp
  show ?thesis
    using assms by (simp add: tokenize_keyword_def c adv span_skip l1 Let_def)
qed

lemma tokenize_number_skip:
  "tokenize_number lx =
    (let ds = takeWhile is_digit (lx_rest lx); r = dropWhile is_digit (lx_rest lx)
     in if r \<noteq> [] \<and> hd r = CHR ''.''
        then (add_token T_NUMBER (ds @ CHR ''.'' # takeWhile is_digit (tl r)),
              skip (Suc (length ds + length (takeWhile is_digit (tl r)))) lx)
        else (add_token T_NUMBER ds, skip (length ds) lx))"
proof -
  define ds where "ds = takeWhile is_digit (lx_rest lx)"
  define r where "r = dropWhile is_digit (lx_rest lx)"
  have r: "lx_rest (skip (length ds) lx) = r" by (simp add: ds_def r_def dropWhile_eq_drop)
  define dot where "dot \<longleftrightarrow> r \<noteq> [] \<and> hd r = CHR ''.''"
  have cur: "current (skip (length ds) lx) = CHR ''.'' \<longleftrightarrow> dot"
    using r by (cases r) (simp_all add: current_def NUL_def dot_def)
  note defs = tokenize_number_def span_skip Let_def ds_def [symmetric] r_def [symmetric] dot_def [symmetric]
  show ?thesis
  proof (cases dot)
    case True
    obtain l1 where adv: "advance (skip (length ds) lx) = (CHR ''.'', l1)"
      using fst_advance [of "skip (length ds) lx"] cur True by (cases "advance (skip (length ds) lx)") simp
    then have l1: "l1 = skip (Suc (length ds)) lx" using advance_skip [of "skip (length ds) lx"] by simp
    then have "lx_rest l1 = tl (lx_rest (skip (length ds) lx))" by (simp add: drop_Suc tl_drop)
    then have "lx_rest l1 = tl r" using r by simp
    then show ?thesis using True cur adv l1 by (simp add: defs)
  qed (use cur in \<open>simp add: defs\<close>)
qed

text \<open>The characters of a string literal, and the two ways the loop of \<open>tokenizeString\<close> fails.\<close>

definition string_char :: "char \<Rightarrow> char \<Rightarrow> bool" where
  "string_char q c \<longleftrightarrow> c \<noteq> q \<and> c \<noteq> NUL \<and> c \<noteq> CHR 0x0A"

lemma tokenize_string_skip:
  assumes "lx_rest lx = q # cs" and "q \<noteq> NUL"
  shows "tokenize_string lx =
    (let body = takeWhile (string_char q) cs; r = dropWhile (string_char q) cs
     in if r \<noteq> [] \<and> hd r = q then Inr (add_token T_STRING body, skip (Suc (Suc (length body))) lx)
        else Inl (unterminated (skip (Suc (length body)) lx)))"
proof -
  have c: "current lx = q" using assms(1) by (rule current_simps)
  obtain l1 where adv: "advance lx = (q, l1)" using fst_advance [of lx] c by (cases "advance lx") simp
  then have l1: "l1 = skip 1 lx" "lx_rest l1 = cs" using advance_skip [of lx] advance_rest [of lx] assms by simp_all
  define body where "body = takeWhile (string_char q) cs"
  define r where "r = dropWhile (string_char q) cs"
  define l2 where "l2 = skip (Suc (length body)) lx"
  have l2: "lx_rest l2 = r" by (simp add: l2_def body_def r_def assms dropWhile_eq_drop)
  have adv2: "snd (advance l2) = skip (Suc (Suc (length body))) lx" by (simp add: advance_skip l2_def)
  have sp: "span (\<lambda>c. c \<noteq> q \<and> c \<noteq> NUL \<and> c \<noteq> CHR 0x0A) [] l1 = (body, l2)"
  proof -
    have "(\<lambda>c. c \<noteq> q \<and> c \<noteq> NUL \<and> c \<noteq> CHR 0x0A) = string_char q" by (simp add: string_char_def fun_eq_iff)
    then show ?thesis using l1 by (simp add: span_skip body_def l2_def)
  qed
  have cur: "current l2 = q \<longleftrightarrow> r \<noteq> [] \<and> hd r = q"
    using l2 assms(2) by (cases r) (auto simp: current_def)
  show ?thesis
    unfolding tokenize_string_def adv Let_def prod.case sp adv2 cur body_def [symmetric] r_def [symmetric]
      l2_def [symmetric]
    by simp
qed

lemma single_chars: "map_of single_char_tokens NUL = None"
  by (simp add: single_char_tokens_def NUL_def)

lemma take_op_skip: "take_op n ty v lx = Inr ([add_token ty v], skip n lx)"
  by (simp add: take_op_def skip_def)

lemma tokenize_operator_moves:
  assumes "lx_rest lx \<noteq> []" and "tokenize_operator lx = Inr (ts, lx')"
  shows "moves lx lx'" "length ts = 1"
proof -
  define P where "P r \<longleftrightarrow> (\<forall>ts l. r = Inr (ts, l) \<longrightarrow> moves lx l \<and> length ts = 1)"
    for r :: "(token list \<times> lexer) result"
  have mv: "moves lx (skip n lx)" if "0 < n" for n by (rule movesI [OF assms(1) that refl])
  have P: "P (Inl e)" "0 < n \<Longrightarrow> P (take_op n ty v lx)" "P (Inr ([t], skip (Suc 0) lx))" for e n ty v t
    using mv by (simp_all add: P_def take_op_skip)
  have "P (tokenize_operator lx)"
    by (simp add: tokenize_operator_def check_single_char_token_def Let_def P advance_skip split: option.split)
  then show "moves lx lx'" "length ts = 1" using assms(2) by (simp_all add: P_def)
qed

lemma moves_after_skip:
  assumes "moves (skip k lx) lx'" and "k \<le> length (lx_rest lx)"
  shows "moves lx lx'"
proof -
  obtain j where "0 < j" "j \<le> length (lx_rest lx) - k" "lx' = skip (k + j) lx"
    using assms(1) by (auto simp: moves_def)
  then show ?thesis using assms(2) unfolding moves_def by (intro exI [of _ "k + j"]) simp
qed

lemma lex_step_moves:
  assumes "lx_rest lx \<noteq> []" and "lex_step lx = Inr (ts, lx')"
  shows "moves lx lx'"
proof -
  define l1 where "l1 = skip_whitespace lx"
  have l1: "l1 = skip (length (takeWhile is_space (lx_rest lx))) lx" by (simp add: l1_def skip_whitespace_skip)
  show ?thesis
  proof (cases "lx_rest l1")
    case Nil
    then have lx': "lx' = l1" using assms(2) by (simp add: lex_step_def l1_def [symmetric] Let_def)
    have "takeWhile is_space (lx_rest lx) \<noteq> []"
      using Nil assms(1) by (cases "lx_rest lx") (auto simp: l1 split: if_splits)
    then show ?thesis using l1 lx' assms(1) by (intro movesI) auto
  next
    case (Cons c cs)
    have c: "current l1 = c" using Cons by (rule current_simps)
    have mv: "moves l1 l'" if "l' = skip (Suc k) l1" for l' k using Cons that by (intro movesI) auto
    have "moves l1 lx'"
    proof (cases "word_start c")
      case True
      then show ?thesis
        using assms(2) Cons c mv
        by (auto simp: lex_step_def l1_def [symmetric] Let_def tokenize_keyword_skip [OF Cons True])
    next
      case w: False
      show ?thesis
      proof (cases "c = CHR 0x27 \<or> c = CHR 0x22")
        case True
        then have "c \<noteq> NUL" by (auto simp: NUL_def)
        then show ?thesis
          using assms(2) Cons c mv w True tokenize_string_skip [OF Cons]
          by (auto simp: lex_step_def l1_def [symmetric] Let_def bindE_Inr split: if_splits)
      next
        case q: False
        show ?thesis
        proof (cases "is_digit c")
          case True
          then have "takeWhile is_digit (lx_rest l1) = c # takeWhile is_digit cs" using Cons by simp
          then show ?thesis
            using assms(2) Cons c mv w q True
            by (auto simp: lex_step_def l1_def [symmetric] Let_def tokenize_number_skip split: if_splits)
        next
          case False
          then show ?thesis
            using assms(2) Cons c w q tokenize_operator_moves [of l1 ts lx']
            by (simp add: lex_step_def l1_def [symmetric] Let_def)
        qed
      qed
    qed
    then show ?thesis using moves_after_skip [OF _ length_takeWhile_le] l1 by metis
  qed
qed

section \<open>tokenize\<close>

function tokenize_loop :: "token list \<Rightarrow> lexer \<Rightarrow> token list result" where
  "tokenize_loop toks lx =
     (if lx_rest lx = [] then Inr (toks @ [add_token T_END_OF_FILE []])
      else (case lex_step lx of
              Inl e \<Rightarrow> Inl e
            | Inr (ts, lx1) \<Rightarrow> tokenize_loop (toks @ ts) lx1))"
  by pat_completeness auto

termination tokenize_loop
  by (relation "measure (\<lambda>(toks, lx). length (lx_rest lx))") (auto dest: lex_step_moves moves_less)

definition tokenize :: "string \<Rightarrow> token list result" where
  "tokenize src = tokenize_loop [] (mk_lexer src)"

section \<open>The tokens the lexer produces\<close>

definition operator_texts :: "(token_type \<times> string) list" where
  "operator_texts = [(T_NOT_EQUAL, ''!=''), (T_NOT_EQUAL, ''<>''), (T_DOUBLE_EQUAL, ''==''),
    (T_EQUAL, ''=''), (T_LESS_EQUAL, ''<=''), (T_LESS, ''<''), (T_GREATER_EQUAL, ''>=''),
    (T_GREATER, ''>'')] @ map (\<lambda>(c, ty). (ty, [c])) single_char_tokens"

definition word_text :: "string \<Rightarrow> bool" where
  "word_text w \<longleftrightarrow> w \<noteq> [] \<and> word_start (hd w) \<and> list_all word_char w"

definition number_text :: "string \<Rightarrow> bool" where
  "number_text v \<longleftrightarrow> (\<exists>ds es. ds \<noteq> [] \<and> list_all is_digit ds \<and> list_all is_digit es \<and>
     (v = ds \<and> es = [] \<or> v = ds @ CHR ''.'' # es))"

definition string_text :: "string \<Rightarrow> bool" where
  "string_text v \<longleftrightarrow> list_all (string_char (CHR 0x22)) v \<or> list_all (string_char (CHR 0x27)) v"

definition token_ok :: "token \<Rightarrow> bool" where
  "token_ok t \<longleftrightarrow>
     tk_type t = T_STRING \<and> string_text (tk_value t) \<or>
     tk_type t = T_NUMBER \<and> number_text (tk_value t) \<or>
     word_text (tk_value t) \<and> map to_lower (tk_value t) = tk_value t \<and> tk_type t = classify (tk_value t) \<or>
     (tk_type t, tk_value t) \<in> set operator_texts"

lemma token_sel [simp]: "tk_type (add_token ty v) = ty" "tk_value (add_token ty v) = v"
  by (simp_all add: add_token_def)

lemma add_token_collapse: "add_token (tk_type t) (tk_value t) = t"
  by (simp add: add_token_def)

lemma lower_word_char: "word_char c \<Longrightarrow> word_char (to_lower c)"
  by (auto simp: word_char_def is_alpha_def is_digit_def to_lower_def Let_def of_char_of_small)

lemma lower_word_start: "word_start c \<Longrightarrow> word_start (to_lower c)"
  by (auto simp: word_start_def is_alpha_def to_lower_def Let_def of_char_of_small)

lemma lower_lower [simp]: "to_lower (to_lower c) = to_lower c"
  by (auto simp: to_lower_def Let_def of_char_of_small)

lemma word_start_char: "word_start c \<Longrightarrow> word_char c"
  by (auto simp: word_start_def word_char_def)

lemma word_text_lower: "word_text w \<Longrightarrow> word_text (map to_lower w)"
  by (auto simp: word_text_def list_all_iff lower_word_char lower_word_start hd_map)

lemma list_all_takeWhile: "list_all P (takeWhile P xs)"
  by (auto simp: list_all_iff dest: set_takeWhileD)

lemma token_ok_word: "word_text w \<Longrightarrow> token_ok (add_token (classify (map to_lower w)) (map to_lower w))"
  using word_text_lower [of w] by (simp add: token_ok_def comp_def)

lemma token_ok_operator: "(ty, v) \<in> set operator_texts \<Longrightarrow> token_ok (add_token ty v)"
  by (simp add: token_ok_def)

lemma single_char_text: "map_of single_char_tokens c = Some ty \<Longrightarrow> (ty, [c]) \<in> set operator_texts"
  by (auto simp: operator_texts_def dest!: map_of_SomeD)

lemma tokenize_operator_ok:
  assumes "tokenize_operator lx = Inr (ts, lx')"
  shows "list_all token_ok ts"
proof -
  define P where "P r \<longleftrightarrow> (\<forall>ts l. r = Inr (ts, l) \<longrightarrow> list_all token_ok ts)"
    for r :: "(token list \<times> lexer) result"
  have P: "P (Inl e)" "P (take_op n ty v lx) = token_ok (add_token ty v)" "P (Inr ([t], l)) = token_ok t"
    for e n ty v t l
    by (simp_all add: P_def take_op_skip)
  have "P (tokenize_operator lx)"
    by (simp add: tokenize_operator_def check_single_char_token_def Let_def P token_ok_operator single_char_text
        split: option.split) (simp add: operator_texts_def token_ok_def)
  then show ?thesis using assms by (simp add: P_def)
qed

lemma number_token_ok: "is_digit c \<Longrightarrow> lx_rest lx = c # cs \<Longrightarrow> token_ok (fst (tokenize_number lx))"
proof -
  assume c: "is_digit c" "lx_rest lx = c # cs"
  define ds where "ds = takeWhile is_digit (lx_rest lx)"
  have ds: "ds \<noteq> []" "list_all is_digit ds" using c by (simp_all add: ds_def list_all_takeWhile)
  define es where "es = takeWhile is_digit (tl (dropWhile is_digit (lx_rest lx)))"
  have es: "list_all is_digit es" by (simp add: es_def list_all_takeWhile)
  have "number_text ds" "number_text (ds @ CHR ''.'' # es)"
    using ds es unfolding number_text_def by fastforce+
  then show ?thesis
    by (simp add: tokenize_number_skip Let_def ds_def [symmetric] es_def [symmetric] token_ok_def)
qed

lemma lex_step_ok:
  assumes "lex_step lx0 = Inr (ts, lx')"
  shows "list_all token_ok ts"
proof -
  define lx where "lx = skip_whitespace lx0"
  show ?thesis
  proof (cases "lx_rest lx")
    case Nil
    then show ?thesis using assms by (auto simp: lex_step_def lx_def [symmetric] Let_def)
  next
    case (Cons c cs)
    have c: "current lx = c" using Cons by (rule current_simps)
    consider (word) "word_start c" | (quote) "\<not> word_start c" "c = CHR 0x27 \<or> c = CHR 0x22"
      | (digit) "\<not> word_start c" "\<not> (c = CHR 0x27 \<or> c = CHR 0x22)" "is_digit c"
      | (op) "\<not> word_start c" "\<not> (c = CHR 0x27 \<or> c = CHR 0x22)" "\<not> is_digit c" by blast
    then show ?thesis
    proof cases
      case word
      have "word_text (c # takeWhile word_char cs)"
        using word by (simp add: word_text_def list_all_takeWhile word_start_char)
      then show ?thesis
        using assms Cons c word token_ok_word [of "c # takeWhile word_char cs"]
        by (auto simp: lex_step_def lx_def [symmetric] Let_def tokenize_keyword_skip [OF Cons word])
    next
      case quote
      have "string_text (takeWhile (string_char c) cs)"
        using quote(2) list_all_takeWhile [of "string_char c" cs] by (auto simp: string_text_def)
      then have "token_ok (add_token T_STRING (takeWhile (string_char c) cs))" by (simp add: token_ok_def)
      moreover have "c \<noteq> NUL" using quote by (auto simp: NUL_def)
      ultimately show ?thesis
        using assms Cons c quote tokenize_string_skip [OF Cons]
        by (auto simp: lex_step_def lx_def [symmetric] Let_def bindE_Inr split: if_splits)
    next
      case digit
      then show ?thesis
        using assms Cons c number_token_ok [OF digit(3) Cons]
        by (cases "tokenize_number lx") (auto simp: lex_step_def lx_def [symmetric] Let_def)
    next
      case op
      then show ?thesis
        using assms Cons c tokenize_operator_ok [of lx ts lx'] by (auto simp: lex_step_def lx_def [symmetric] Let_def)
    qed
  qed
qed

declare tokenize_loop.simps [simp del]

lemma tokenize_loop_ok:
  "tokenize_loop toks lx = Inr res \<Longrightarrow> list_all token_ok toks \<Longrightarrow>
     \<exists>ts. res = ts @ [add_token T_END_OF_FILE []] \<and> list_all token_ok ts"
proof (induction toks lx rule: tokenize_loop.induct)
  case (1 toks lx)
  show ?case
  proof (cases "lx_rest lx = []")
    case True
    then show ?thesis using 1 by (auto simp: tokenize_loop.simps)
  next
    case False
    then obtain ts lx1 where s: "lex_step lx = Inr (ts, lx1)" "tokenize_loop (toks @ ts) lx1 = Inr res"
      using "1.prems"(1) by (auto simp: tokenize_loop.simps [of toks lx] split: sum.splits)
    then show ?thesis using "1.IH" [OF False s(1) refl s(2)] lex_step_ok [OF s(1)] "1.prems"(2) by simp
  qed
qed

text \<open>The types no token has: the lexer has no rule for \<open>STAR\<close> and no keyword for \<open>AGGREGATES\<close>.\<close>

definition never_lexed :: "token_type \<Rightarrow> bool" where
  "never_lexed ty \<longleftrightarrow> ty = T_END_OF_FILE \<or> ty = T_STAR \<or> ty = T_AGGREGATES"

lemma keyword_types: "list_all (\<lambda>e. \<not> never_lexed (snd e)) keyword_table"
  by (simp add: keyword_table_def never_lexed_def)

lemma operator_types: "list_all (\<lambda>e. \<not> never_lexed (fst e)) operator_texts"
  by (simp add: operator_texts_def single_char_tokens_def never_lexed_def)

lemma classify_lexed: "\<not> never_lexed (classify w)"
proof (cases "map_of keyword_table w")
  case None
  then show ?thesis by (simp add: classify_def never_lexed_def)
next
  case (Some ty)
  then show ?thesis
    using keyword_types map_of_SomeD [OF Some] by (fastforce simp: classify_def list_all_iff)
qed

lemma token_ok_types: "token_ok t \<Longrightarrow> \<not> never_lexed (tk_type t)"
proof -
  assume "token_ok t"
  then consider "tk_type t = T_STRING" | "tk_type t = T_NUMBER" | "tk_type t = classify (tk_value t)"
    | "(tk_type t, tk_value t) \<in> set operator_texts"
    unfolding token_ok_def by blast
  then show ?thesis
  proof cases
    case 4
    then show ?thesis using operator_types by (fastforce simp: list_all_iff)
  qed (simp_all add: classify_lexed, simp_all add: never_lexed_def)
qed

section \<open>Printing tokens and reading them back\<close>

definition print_token :: "token \<Rightarrow> string" where
  "print_token t =
     (if tk_type t = T_STRING then
        (let q = (if list_all (string_char (CHR 0x22)) (tk_value t) then CHR 0x22 else CHR 0x27)
         in q # tk_value t @ [q])
      else tk_value t)"

definition print_tokens :: "token list \<Rightarrow> string" where
  "print_tokens ts = concat (map (\<lambda>t. print_token t @ '' '') ts)"

lemma print_tokens_simps [simp]:
  "print_tokens [] = []" "print_tokens (t # ts) = print_token t @ CHR '' '' # print_tokens ts"
  by (simp_all add: print_tokens_def)

lemma space_facts: "\<not> word_char (CHR '' '')" "\<not> is_digit (CHR '' '')" "is_space (CHR '' '')"
  "\<not> word_start (CHR '' '')"
  by (simp_all add: word_char_def is_alpha_def is_digit_def is_space_def word_start_def)

lemma takeWhile_stop: "list_all P xs \<Longrightarrow> \<not> P c \<Longrightarrow> takeWhile P (xs @ c # ys) = xs \<and> dropWhile P (xs @ c # ys) = c # ys"
  by (induction xs) auto

lemma not_space: "word_start c \<Longrightarrow> \<not> is_space c" "is_digit c \<Longrightarrow> \<not> is_space c"
  by (auto simp: word_start_def is_alpha_def is_digit_def is_space_def)

lemma digit_facts: "is_digit c \<Longrightarrow> \<not> word_start c \<and> c \<noteq> CHR 0x27 \<and> c \<noteq> CHR 0x22"
  by (auto simp: word_start_def is_alpha_def is_digit_def Let_def)

lemma word_start_facts: "word_start c \<Longrightarrow> c \<noteq> CHR 0x27 \<and> c \<noteq> CHR 0x22"
  by (auto simp: word_start_def is_alpha_def)

lemma skip_whitespace_id: "lx_rest lx = c # cs \<Longrightarrow> \<not> is_space c \<Longrightarrow> skip_whitespace lx = lx"
  by (simp add: skip_whitespace_skip)

lemma skip_whitespace_one:
  "lx_rest lx = CHR '' '' # cs \<Longrightarrow> (cs = [] \<or> \<not> is_space (hd cs)) \<Longrightarrow> skip_whitespace lx = skip 1 lx"
  by (cases cs) (simp_all add: skip_whitespace_skip space_facts)

lemma operators_lex:
  "list_all (\<lambda>(ty, v). \<forall>lx r. lx_rest lx = v @ CHR '' '' # r \<longrightarrow>
     tokenize_operator lx = Inr ([add_token ty v], skip (length v) lx)) operator_texts"
  by (simp add: operator_texts_def single_char_tokens_def tokenize_operator_def check_single_char_token_def
      Let_def take_op_skip advance_skip current_simps seek_def numeral_2_eq_2)

lemma operators_start:
  "list_all (\<lambda>(ty, v). v \<noteq> [] \<and> \<not> word_start (hd v) \<and> hd v \<noteq> CHR 0x27 \<and> hd v \<noteq> CHR 0x22 \<and>
     \<not> is_digit (hd v) \<and> \<not> is_space (hd v) \<and> ty \<noteq> T_STRING \<and> ty \<noteq> T_NUMBER) operator_texts"
  by (simp add: operator_texts_def single_char_tokens_def word_start_def is_alpha_def is_digit_def is_space_def)

lemma keyword_not_literal: "list_all (\<lambda>e. snd e \<noteq> T_STRING \<and> snd e \<noteq> T_NUMBER) keyword_table"
  by (simp add: keyword_table_def)

lemma classify_not_literal: "classify w \<noteq> T_STRING \<and> classify w \<noteq> T_NUMBER"
proof (cases "map_of keyword_table w")
  case (Some ty)
  then show ?thesis
    using keyword_not_literal map_of_SomeD [OF Some] by (fastforce simp: classify_def list_all_iff)
qed (simp add: classify_def)

text \<open>One round on the text of a token and the blank after it.\<close>

lemma lex_printed:
  assumes ok: "token_ok t" and r: "lx_rest lx = print_token t @ CHR '' '' # rest"
  shows "lex_step lx = Inr ([t], skip (length (print_token t)) lx) \<and> print_token t \<noteq> [] \<and>
    \<not> is_space (hd (print_token t))"
proof -
  obtain ty v where t: "t = add_token ty v" using add_token_collapse [of t] by metis
  consider (string) "ty = T_STRING" "string_text v" | (number) "ty = T_NUMBER" "number_text v"
    | (word) "word_text v" "map to_lower v = v" "ty = classify v" | (op) "(ty, v) \<in> set operator_texts"
    using ok unfolding token_ok_def t by auto
  then show ?thesis
  proof cases
    case string
    define q where "q = (if list_all (string_char (CHR 0x22)) v then CHR 0x22 else CHR 0x27)"
    have q: "list_all (string_char q) v" "q = CHR 0x22 \<or> q = CHR 0x27"
      using string(2) by (auto simp: q_def string_text_def)
    have pr: "print_token t = q # v @ [q]" using string by (simp add: t print_token_def q_def Let_def)
    have rest: "lx_rest lx = q # v @ q # CHR '' '' # rest" using r by (simp add: pr)
    have qq: "\<not> string_char q q" "q \<noteq> NUL" "\<not> is_space q" "\<not> word_start q"
      using q(2) by (auto simp: string_char_def NUL_def is_space_def word_start_def is_alpha_def)
    have "tokenize_string lx = Inr (t, skip (Suc (Suc (length v))) lx)"
      using tokenize_string_skip [OF rest qq(2)] takeWhile_stop [OF q(1) qq(1), of "CHR '' '' # rest"] string
      by (simp add: t)
    then show ?thesis
      using q(2) qq(3,4) skip_whitespace_id [OF rest qq(3)] rest
      by (auto simp: lex_step_def Let_def current_simps(1) [OF rest] pr)
  next
    case number
    then obtain ds es where n: "ds \<noteq> []" "list_all is_digit ds" "list_all is_digit es"
      "v = ds \<and> es = [] \<or> v = ds @ CHR ''.'' # es" unfolding number_text_def by blast
    have pr: "print_token t = v" using number by (simp add: t print_token_def)
    obtain d ds' where d: "ds = d # ds'" "is_digit d" using n by (cases ds) auto
    have dot: "\<not> is_digit (CHR ''.'')" by (simp add: is_digit_def)
    have v: "v = d # tl v" using n d by auto
    then have rest: "lx_rest lx = d # tl v @ CHR '' '' # rest" using r pr by (metis append_Cons)
    have "tokenize_number lx = (t, skip (length v) lx)"
    proof (cases "v = ds")
      case True
      then show ?thesis
        using r pr takeWhile_stop [OF n(2) space_facts(2), of rest] number by (simp add: tokenize_number_skip Let_def t)
    next
      case False
      then have v: "v = ds @ CHR ''.'' # es" using n by blast
      then have "lx_rest lx = ds @ CHR ''.'' # es @ CHR '' '' # rest" using r pr by simp
      then show ?thesis
        using takeWhile_stop [OF n(2) dot, of "es @ CHR '' '' # rest"] takeWhile_stop [OF n(3) space_facts(2), of rest] number
        by (simp add: tokenize_number_skip Let_def t v)
    qed
    then show ?thesis
      using digit_facts [OF d(2)] d(2) skip_whitespace_id [OF rest not_space(2) [OF d(2)]] rest v not_space(2) [OF d(2)]
      by (auto simp: lex_step_def Let_def current_simps(1) [OF rest] pr) (metis list.sel(1))
  next
    case word
    have pr: "print_token t = v" using word classify_not_literal [of v] by (simp add: t print_token_def)
    obtain c cs where v: "v = c # cs" "word_start c" "list_all word_char cs" using word(1) by (cases v) (auto simp: word_text_def)
    have rest: "lx_rest lx = c # cs @ CHR '' '' # rest" using r by (simp add: pr v)
    have "tokenize_keyword lx = (t, skip (length v) lx)"
      using tokenize_keyword_skip [OF rest v(2)] takeWhile_stop [OF v(3) space_facts(1), of rest] word
      by (simp add: t v Let_def)
    then show ?thesis
      using v skip_whitespace_id [OF rest not_space(1) [OF v(2)]] rest not_space(1) [OF v(2)]
      by (simp add: lex_step_def Let_def current_simps(1) [OF rest] pr)
  next
    case op
    have o: "v \<noteq> []" "\<not> word_start (hd v)" "hd v \<noteq> CHR 0x27" "hd v \<noteq> CHR 0x22" "\<not> is_digit (hd v)" "\<not> is_space (hd v)"
      "ty \<noteq> T_STRING"
      using operators_start op by (auto simp: list_all_iff)
    have pr: "print_token t = v" using o by (simp add: t print_token_def)
    obtain c cs where v: "v = c # cs" using o(1) by (cases v) auto
    have rest: "lx_rest lx = c # cs @ CHR '' '' # rest" using r by (simp add: pr v)
    have "tokenize_operator lx = Inr ([t], skip (length v) lx)"
      using operators_lex op r pr by (auto simp: list_all_iff t)
    then show ?thesis
      using o skip_whitespace_id [OF rest] rest by (simp add: lex_step_def Let_def current_simps(1) [OF rest] pr v)
  qed
qed

lemma lex_step_space:
  assumes "lx_rest lx = CHR '' '' # cs" and "cs = [] \<or> \<not> is_space (hd cs)"
  shows "lex_step lx = lex_step (skip 1 lx)"
proof -
  have "skip_whitespace (skip 1 lx) = skip 1 lx"
    using assms by (cases cs) (simp_all add: skip_whitespace_skip)
  then show ?thesis using skip_whitespace_one [OF assms] by (simp add: lex_step_def)
qed

lemma print_tokens_start: "list_all token_ok ts \<Longrightarrow> print_tokens ts = [] \<or> \<not> is_space (hd (print_tokens ts))"
proof (cases ts)
  case (Cons t us)
  assume "list_all token_ok ts"
  then show ?thesis using lex_printed [of t "mk_lexer (print_tokens ts)" "print_tokens us"] Cons by (simp add: mk_lexer_def)
qed simp

lemma loop_print:
  assumes "list_all token_ok ts" and "lx_rest lx = print_tokens ts \<or> lx_rest lx = CHR '' '' # print_tokens ts"
  shows "tokenize_loop toks lx = Inr (toks @ ts @ [add_token T_END_OF_FILE []])"
  using assms
proof (induction ts arbitrary: toks lx)
  case Nil
  show ?case
  proof (cases "lx_rest lx = []")
    case False
    then have s: "lx_rest lx = CHR '' '' # []" using Nil by auto
    have "lex_step lx = Inr ([], skip 1 lx)"
      using skip_whitespace_one [OF s] s by (simp add: lex_step_def Let_def)
    then show ?thesis using False s by (simp add: tokenize_loop.simps [of toks lx] tokenize_loop.simps)
  qed (simp add: tokenize_loop.simps)
next
  case (Cons t ts)
  have ok: "token_ok t" "list_all token_ok ts" using Cons.prems by simp_all
  obtain l0 where l0: "lx_rest l0 = print_token t @ CHR '' '' # print_tokens ts" "lex_step lx = lex_step l0"
  proof (cases "lx_rest lx = print_tokens (t # ts)")
    case True
    then show ?thesis by (intro that [of lx]) simp_all
  next
    case False
    then have s: "lx_rest lx = CHR '' '' # print_tokens (t # ts)" using Cons.prems(2) by auto
    then show ?thesis using lex_step_space [OF s print_tokens_start [OF Cons.prems(1)]] by (intro that [of "skip 1 lx"]) simp_all
  qed
  have st: "lex_step lx = Inr ([t], skip (length (print_token t)) l0)" using lex_printed [OF ok(1) l0(1)] l0(2) by simp
  have ne: "lx_rest lx \<noteq> []" using Cons.prems(2) by auto
  have "tokenize_loop (toks @ [t]) (skip (length (print_token t)) l0) = Inr ((toks @ [t]) @ ts @ [add_token T_END_OF_FILE []])"
    by (rule Cons.IH [OF ok(2)]) (simp add: l0)
  then show ?case using st ne by (simp add: tokenize_loop.simps [of toks lx])
qed

section \<open>Where an error is reported\<close>

definition line_of :: "string \<Rightarrow> nat \<Rightarrow> nat" where
  "line_of src k = 1 + newlines (take k src)"

definition column_of :: "string \<Rightarrow> nat \<Rightarrow> nat" where
  "column_of src k = 1 + length (takeWhile (\<lambda>c. c \<noteq> CHR 0x0A) (rev (take k src)))"

lemma advance_char:
  "lx_rest lx = c # cs \<Longrightarrow> lx_char (snd (advance lx)) = (if c = CHR 0x0A then 1 else lx_char lx + 1)"
  by (simp add: advance_def)

lemma skip_position:
  assumes "k \<le> length src"
  shows "lx_line (skip k (mk_lexer src)) = line_of src k" "lx_char (skip k (mk_lexer src)) = column_of src k"
proof -
  show "lx_line (skip k (mk_lexer src)) = line_of src k"
    by (simp add: skip_line mk_lexer_def line_of_def)
  show "lx_char (skip k (mk_lexer src)) = column_of src k"
    using assms
  proof (induction k)
    case 0
    then show ?case by (simp add: mk_lexer_def column_of_def)
  next
    case (Suc k)
    then have d: "drop k src = src ! k # drop (Suc k) src" by (simp add: Cons_nth_drop_Suc)
    have "skip (Suc k) (mk_lexer src) = snd (advance (skip k (mk_lexer src)))"
      by (simp add: advance_skip)
    moreover have "lx_rest (skip k (mk_lexer src)) = src ! k # drop (Suc k) src" by (simp add: mk_lexer_def d)
    ultimately have "lx_char (skip (Suc k) (mk_lexer src)) = (if src ! k = CHR 0x0A then 1 else column_of src k + 1)"
      using Suc advance_char by simp
    also have "\<dots> = column_of src (Suc k)"
      using Suc.prems by (simp add: column_of_def take_Suc_conv_app_nth)
    finally show ?case .
  qed
qed

text \<open>The four errors, at the position of a state.\<close>

definition error_at :: "lexer \<Rightarrow> fault \<Rightarrow> bool" where
  "error_at lx e \<longleftrightarrow> e = unterminated lx \<or> e = Throw (parsing_error lx) \<and> current lx = CHR ''!'' \<or>
     (e = Throw (parsing_error lx @ '' - unexpected character: '' @ [current lx]) \<and> \<not> word_char (current lx))"

lemma lex_step_error:
  assumes "lx_rest lx0 \<noteq> []" and "lex_step lx0 = Inl e"
  shows "\<exists>k \<le> length (lx_rest lx0). error_at (skip k lx0) e"
proof -
  define n where "n = length (takeWhile is_space (lx_rest lx0))"
  define lx where "lx = skip n lx0"
  have n: "n \<le> length (lx_rest lx0)" by (simp add: n_def length_takeWhile_le)
  have ws: "skip_whitespace lx0 = lx" by (simp add: lx_def n_def skip_whitespace_skip)
  obtain c cs where Cons: "lx_rest lx = c # cs"
    using assms(2) by (cases "lx_rest lx") (auto simp: lex_step_def ws Let_def)
  have len: "length (lx_rest lx0) = n + Suc (length cs)"
    using arg_cong [OF Cons, of length] n by (simp add: lx_def)
  have c: "current lx = c" using Cons by (rule current_simps)
  have "\<not> word_start c"
    using assms(2) c Cons by (auto simp: lex_step_def ws Let_def split: prod.splits)
  moreover have "\<not> (\<not> (c = CHR 0x27 \<or> c = CHR 0x22) \<and> is_digit c)"
    using assms(2) c Cons calculation by (auto simp: lex_step_def ws Let_def split: prod.splits)
  ultimately consider (quote) "c = CHR 0x27 \<or> c = CHR 0x22" "\<not> word_start c"
    | (op) "\<not> (c = CHR 0x27 \<or> c = CHR 0x22)" "\<not> is_digit c" "\<not> word_start c" by blast
  then show ?thesis
  proof cases
    case quote
    then have "c \<noteq> NUL" by (auto simp: NUL_def)
    then have "e = unterminated (skip (Suc (length (takeWhile (string_char c) cs))) lx)"
      using assms(2) quote c Cons tokenize_string_skip [OF Cons]
      by (auto simp: lex_step_def ws Let_def bindE_Inl split: if_splits)
    then show ?thesis
      using length_takeWhile_le [of "string_char c" cs] len
      by (intro exI [of _ "n + Suc (length (takeWhile (string_char c) cs))"]) (simp add: lx_def error_at_def)
  next
    case op
    then have "tokenize_operator lx = Inl e" using assms(2) c Cons by (simp add: lex_step_def ws Let_def)
    moreover have "\<not> word_char c" using op by (auto simp: word_char_def word_start_def)
    ultimately have "error_at lx e"
      using c by (auto simp: tokenize_operator_def Let_def error_at_def take_op_skip split: if_splits option.splits)
    then show ?thesis using n lx_def by blast
  qed
qed

lemma tokenize_loop_error:
  "tokenize_loop toks lx = Inl e \<Longrightarrow> \<exists>k \<le> length (lx_rest lx). error_at (skip k lx) e"
proof (induction toks lx rule: tokenize_loop.induct)
  case (1 toks lx)
  have ne: "lx_rest lx \<noteq> []" using "1.prems" by (auto simp: tokenize_loop.simps [of toks lx] split: if_splits)
  show ?case
  proof (cases "lex_step lx")
    case (Inl e')
    then show ?thesis using lex_step_error [OF ne] "1.prems" ne by (simp add: tokenize_loop.simps [of toks lx])
  next
    case (Inr r)
    obtain ts lx1 where r: "r = (ts, lx1)" by fastforce
    then have l: "tokenize_loop (toks @ ts) lx1 = Inl e"
      using "1.prems" ne Inr by (simp add: tokenize_loop.simps [of toks lx])
    obtain k where k: "k \<le> length (lx_rest lx)" "lx1 = skip k lx"
      using lex_step_moves [OF ne] Inr r by (auto simp: moves_def)
    obtain j where j: "j \<le> length (lx_rest lx1)" "error_at (skip j lx1) e"
      using "1.IH" [OF ne Inr r [symmetric] l] by blast
    then show ?thesis using k by (intro exI [of _ "k + j"]) auto
  qed
qed

section \<open>The properties\<close>

text \<open>C10. The lexer is total and what it produces is well formed. \<open>tokenize\<close> either throws or returns a
  vector that ends with the one \<open>END_OF_FILE\<close> token; every other token is a string literal with a
  closing quote, a number, a lower-case word with the type the keyword table gives it, or an operator with
  its own text, and none has the type \<open>STAR\<close> or \<open>AGGREGATES\<close>, which the parser tests for.\<close>

theorem tokenize_well_formed:
  assumes "tokenize src = Inr toks"
  shows "\<exists>ts. toks = ts @ [add_token T_END_OF_FILE []] \<and> list_all token_ok ts \<and>
    (\<forall>t \<in> set ts. \<not> never_lexed (tk_type t))"
  using tokenize_loop_ok [OF assms [unfolded tokenize_def]] token_ok_types by (auto simp: list_all_iff)


lemma tokenize_well_formed_witness:
  "\<exists>ts. tokenize ''Select x9 >= 1.5 from T;'' = Inr (ts @ [add_token T_END_OF_FILE []]) \<and> list_all token_ok ts \<and>
     length ts = 7"
proof -
  have run: "tokenize ''Select x9 >= 1.5 from T;'' = Inr [add_token T_SELECT ''select'', add_token T_IDENTIFIER ''x9'',
      add_token T_GREATER_EQUAL ''>='', add_token T_NUMBER ''1.5'', add_token T_FROM ''from'',
      add_token T_IDENTIFIER ''t'', add_token T_SEMICOLON '';'', add_token T_END_OF_FILE []]"
    by code_simp
  show ?thesis using tokenize_well_formed [OF run] run by auto
qed

text \<open>C11. Lexing inverts printing. The text of any well-formed tokens, each followed by a blank and
  string literals in a quote they do not contain, lexes to these tokens and the end-of-file token. With
  C10, printing what \<open>tokenize\<close> returned and lexing again gives the same tokens.\<close>

theorem tokenize_print:
  assumes "list_all token_ok ts"
  shows "tokenize (print_tokens ts) = Inr (ts @ [add_token T_END_OF_FILE []])"
  using loop_print [OF assms, of "mk_lexer (print_tokens ts)" "[]"] by (simp add: tokenize_def mk_lexer_def)

lemma tokenize_print_witness:
  "tokenize ''insert \"it's\" ( 12. ) '' = Inr [add_token T_INSERT ''insert'', add_token T_STRING ''it's'',
     add_token T_OPEN_PAREN ''('', add_token T_NUMBER ''12.'', add_token T_CLOSE_PAREN '')'', add_token T_END_OF_FILE []]"
proof -
  have "number_text ''12.''" unfolding number_text_def
    by (rule exI [of _ "''12''"], rule exI [of _ "[]"]) (simp add: is_digit_def)
  then have "list_all token_ok [add_token T_INSERT ''insert'', add_token T_STRING ''it's'',
     add_token T_OPEN_PAREN ''('', add_token T_NUMBER ''12.'', add_token T_CLOSE_PAREN '')'']"
    by (simp add: token_ok_def string_text_def string_char_def NUL_def word_text_def word_start_def word_char_def
        is_alpha_def to_lower_def classify_def keyword_table_def operator_texts_def single_char_tokens_def)
  from tokenize_print [OF this] show ?thesis
    by (simp add: print_token_def string_char_def NUL_def Let_def)
qed

text \<open>Errors name the place. When \<open>tokenize\<close> throws, it throws a \<open>std::runtime_error\<close> whose text
  carries the line (and, except for an unterminated string, the column) of a position inside the source,
  both counted from 1 with the line breaks before that position; an "unexpected character" is the
  character at the position and no part of a word or number.\<close>

theorem tokenize_error_position:
  assumes "tokenize src = Inl e"
  shows "\<exists>k \<le> length src.
    e = Throw (''Unterminated string at line '' @ show_nat (line_of src k)) \<or>
    e = Throw (''Parsing error at line '' @ show_nat (line_of src k) @ '' at character '' @ show_nat (column_of src k)) \<or>
    (\<exists>c. \<not> word_char c \<and> (k < length src \<longrightarrow> c = src ! k) \<and>
      e = Throw (''Parsing error at line '' @ show_nat (line_of src k) @ '' at character '' @
        show_nat (column_of src k) @ '' - unexpected character: '' @ [c]))"
proof -
  obtain k where k: "k \<le> length src" "error_at (skip k (mk_lexer src)) e"
    using tokenize_loop_error [OF assms [unfolded tokenize_def]] by (auto simp: mk_lexer_def)
  have "k < length src \<Longrightarrow> current (skip k (mk_lexer src)) = src ! k"
    by (simp add: current_def mk_lexer_def Cons_nth_drop_Suc [symmetric])
  then show ?thesis
    using k skip_position [OF k(1)]
    by (intro exI [of _ k]) (auto simp: error_at_def unterminated_def parsing_error_def)
qed

lemma tokenize_error_position_witness:
  "\<exists>k \<le> 24. line_of (''select '' @ [CHR 0x0A] @ ''x9 from t ^ 1.5 a'') k = 2 \<and>
     tokenize (''select '' @ [CHR 0x0A] @ ''x9 from t ^ 1.5 a'') =
       Inl (Throw (''Parsing error at line '' @ ''2'' @ '' at character '' @ ''11'' @ '' - unexpected character: '' @ ''^''))"
proof -
  have run: "tokenize (''select '' @ [CHR 0x0A] @ ''x9 from t ^ 1.5 a'') =
       Inl (Throw (''Parsing error at line '' @ ''2'' @ '' at character '' @ ''11'' @ '' - unexpected character: '' @ ''^''))"
    by code_simp
  have "\<exists>k \<le> length (''select '' @ [CHR 0x0A] @ ''x9 from t ^ 1.5 a''). True"
    using tokenize_error_position [OF run] by blast
  then show ?thesis
    using run by (intro exI [of _ 18]) (simp add: line_of_def newlines_def)
qed

text \<open>Keywords in any case. A word (a letter or underscore, then letters, digits and underscores)
  lexes to one token, whose value is the word in lower case and whose type depends on that value alone:
  the keyword's type, or \<open>IDENTIFIER\<close>.\<close>

theorem tokenize_word:
  assumes "word_text w"
  shows "tokenize w = Inr [add_token (classify (map to_lower w)) (map to_lower w), add_token T_END_OF_FILE []]"
proof -
  obtain c cs where w: "w = c # cs" "word_start c" "list_all word_char cs"
    using assms by (cases w) (auto simp: word_text_def)
  have r: "lx_rest (mk_lexer w) = c # cs" by (simp add: mk_lexer_def w)
  have all: "takeWhile word_char cs = cs" using w(3) by (simp add: list_all_iff takeWhile_eq_all_conv)
  have ws: "skip_whitespace (mk_lexer w) = mk_lexer w" by (rule skip_whitespace_id [OF r not_space(1) [OF w(2)]])
  have kw: "tokenize_keyword (mk_lexer w) =
      (add_token (classify (map to_lower w)) (map to_lower w), skip (length w) (mk_lexer w))"
    using tokenize_keyword_skip [OF r w(2)] all w(1) by (simp add: Let_def)
  have "lex_step (mk_lexer w) = Inr ([add_token (classify (map to_lower w)) (map to_lower w)], skip (length w) (mk_lexer w))"
    unfolding lex_step_def ws Let_def using w(2) r by (simp add: current_simps(1) [OF r] kw)
  then show ?thesis
    using w(1) r by (simp add: tokenize_def tokenize_loop.simps [of "[]" "mk_lexer w"] tokenize_loop.simps)
qed

lemma tokenize_word_witness:
  "tokenize ''Api_KEY'' = Inr [add_token T_API_KEY ''api_key'', add_token T_END_OF_FILE []]"
proof -
  have "map to_lower ''Api_KEY'' = ''api_key''" "classify ''api_key'' = T_API_KEY" "word_text ''Api_KEY''"
    by code_simp+
  then show ?thesis using tokenize_word [of "''Api_KEY''"] by simp
qed

end
