(* ===== verification/SQL_AST.thy ===== *)
theory SQL_AST
  imports Nano_Prelude
begin

text \<open>
  The abstract syntax of \<open>global.hpp\<close>: expressions, the \<open>Value\<close> variant and one record per statement. A
  \<open>std::unique_ptr\<close> to an expression is the expression; the parser never builds a null one. An optional
  clause is an \<open>option\<close>. Members no parser function sets (\<open>WebSocketCommand::symbol\<close>) are left out.
\<close>

section \<open>Node types and expressions\<close>

datatype ast_expr_type = AT_IDENTIFIER | AT_INT_LITERAL | AT_STRING_LITERAL | AT_BOOLEAN_LITERAL
  | AT_COMPARISON_EXPRESSION | AT_LOGICAL_EXPRESSION | AT_PARENTHESIZED_EXPRESSION

datatype logical_operator = L_AND | L_OR

datatype comparison_operator = C_EQUAL | C_NOT_EQUAL | C_GREATER | C_LESS | C_GREATER_EQUAL | C_LESS_EQUAL

datatype column_constraint = NO_CONSTRAINT | NOT_NULL | PRIMARY_KEY | UNIQUE | AUTO_INCREMENT

datatype expr =
    Identifier string
  | IntLiteral int
  | StringLiteral string
  | BoolLiteral bool
  | Comparison expr comparison_operator expr
  | Logical expr logical_operator expr
  | Paren expr

fun get_type :: "expr \<Rightarrow> ast_expr_type" where
  "get_type (Identifier _) = AT_IDENTIFIER"
| "get_type (IntLiteral _) = AT_INT_LITERAL"
| "get_type (StringLiteral _) = AT_STRING_LITERAL"
| "get_type (BoolLiteral _) = AT_BOOLEAN_LITERAL"
| "get_type (Comparison _ _ _) = AT_COMPARISON_EXPRESSION"
| "get_type (Logical _ _ _) = AT_LOGICAL_EXPRESSION"
| "get_type (Paren _) = AT_PARENTHESIZED_EXPRESSION"

text \<open>\<open>Value\<close>, a \<open>std::variant<int64_t, std::string, bool>\<close>, and \<open>Row\<close>.\<close>

datatype val = V_int int | V_string string | V_bool bool

type_synonym row = "string \<rightharpoonup> val"

fun val_index :: "val \<Rightarrow> nat" where
  "val_index (V_int _) = 0"
| "val_index (V_string _) = 1"
| "val_index (V_bool _) = 2"

section \<open>Statements\<close>

record select_statement =
  sel_columns :: "string list"
  sel_table :: string
  sel_where :: "expr option"
  sel_limit :: "nat option"

record update_statement =
  upd_table :: string
  upd_assignments :: "(string \<times> string) list"
  upd_where :: expr

record drop_statement =
  drop_istable :: bool
  drop_name :: string

record statistics_statement =
  st_type :: string
  st_table :: string
  st_column :: string
  st_where :: "expr option"

record column_definition =
  col_name :: string
  col_type :: string
  col_precision :: int
  col_constraints :: "column_constraint list"

record delete_statement =
  del_table :: string
  del_where :: "expr option"

record aggregates =
  ag_type :: string
  ag_time :: int
  ag_col_idx :: int
  ag_threshold :: int

record create_statement =
  cr_isDatabase :: bool
  cr_name :: string
  cr_symbol :: int
  cr_top :: bool
  cr_aggregates :: "aggregates list"
  cr_columns :: "column_definition list"

definition new_create :: create_statement where
  "new_create = \<lparr>cr_isDatabase = False, cr_name = [], cr_symbol = -1, cr_top = False, cr_aggregates = [],
     cr_columns = []\<rparr>"

record insert_statement =
  ins_table :: string
  ins_columns :: "string list"
  ins_values :: "string list"

record file_statement =
  fs_file_path :: string

record indicator_on_table =
  iot_indicator :: string
  iot_params :: "string list"
  iot_column_no :: int
  iot_symbol :: int
  iot_ticks :: int

record strategy_on_table =
  sot_strategy :: string
  sot_params :: "string list"
  sot_symbol :: int
  sot_ticks :: int

record list_statement =
  ls_isStrategy :: bool
  ls_message :: string

record enable_statement =
  en_ticks :: int
  en_table :: string

record fetch_indicator_statement =
  fi_symbol :: int

record web_socket_command =
  ws_url :: string
  ws_strategy :: string

record binance_order_book_statement =
  bob_tableSymbol :: int
  bob_binance_symbol :: string

record binance_api_key_statement =
  bak_key :: string

record binance_live_orders_statement =
  blo_tableSymbol :: int
  blo_tradeSymbol :: string

record binance_live_ohlc_statement =
  bll_tableSymbol :: int
  bll_time :: string
  bll_trade_symbol :: string

section \<open>Well-formed expressions\<close>

text \<open>
  The grammar of the parser: a logical chain associates to the left, its right operands are comparisons
  or primaries, and the operands of a comparison are primaries; anything else needs a \<open>Paren\<close> node.
\<close>

fun is_primary :: "expr \<Rightarrow> bool" where
  "is_primary (Comparison _ _ _) = False"
| "is_primary (Logical _ _ _) = False"
| "is_primary _ = True"

fun is_comparison :: "expr \<Rightarrow> bool" where
  "is_comparison (Logical _ _ _) = False"
| "is_comparison _ = True"

text \<open>\<open>true\<close> and \<open>false\<close> are lexed as identifiers and become \<open>BoolLiteral\<close>; literals are \<open>int\<close> and have no sign.\<close>

fun expr_ok :: "expr \<Rightarrow> bool" where
  "expr_ok (Identifier s) = (s \<noteq> ''true'' \<and> s \<noteq> ''false'')"
| "expr_ok (IntLiteral n) = (0 \<le> n \<and> n \<le> INT32_MAX)"
| "expr_ok (StringLiteral s) = True"
| "expr_ok (BoolLiteral b) = True"
| "expr_ok (Comparison l c r) = (is_primary l \<and> is_primary r \<and> expr_ok l \<and> expr_ok r)"
| "expr_ok (Logical l c r) = (is_comparison r \<and> expr_ok l \<and> expr_ok r)"
| "expr_ok (Paren e) = expr_ok e"

lemma primary_is_comparison: "is_primary e \<Longrightarrow> is_comparison e"
  by (cases e) simp_all

end
