(* ===== verification/SQL_Parser.thy ===== *)
theory SQL_Parser
  imports SQL_Lexer SQL_AST
begin

text \<open>
  The recursive descent parser (\<open>SQL_PARSER.hpp\<close>): the token cursor, the expression grammar and one
  function per statement, up to the point where the statement is handed to the engine. The dispatcher
  \<open>parse()\<close> and the calls of the engine are in \<open>SQL_Dispatch\<close>.
\<close>

section \<open>The token cursor\<close>

text \<open>
  \<open>tokens\<close> and \<open>position\<close> are kept as a zipper: \<open>ps_back\<close> holds the tokens before \<open>position\<close>, last first,
  and \<open>ps_rest\<close> those from it on. A null \<open>Token *\<close> is \<open>None\<close>.
\<close>

record parser =
  ps_back :: "token list"
  ps_rest :: "token list"
  ps_currentDb :: string

definition mk_parser :: "string \<Rightarrow> token list \<Rightarrow> parser" where
  "mk_parser db toks = \<lparr>ps_back = [], ps_rest = toks, ps_currentDb = db\<rparr>"

definition peek :: "nat \<Rightarrow> parser \<Rightarrow> token option" where
  "peek k p = (if k < length (ps_rest p) then Some (ps_rest p ! k) else None)"

definition previous :: "parser \<Rightarrow> token option" where
  "previous p = (case ps_back p of [] \<Rightarrow> None | t # _ \<Rightarrow> Some t)"

definition step :: "parser \<Rightarrow> parser" where
  "step p = (case ps_rest p of [] \<Rightarrow> p | t # ts \<Rightarrow> p\<lparr>ps_back := t # ps_back p, ps_rest := ts\<rparr>)"

definition advance_token :: "parser \<Rightarrow> token option \<times> parser" where
  "advance_token p = (let p1 = step p in (previous p1, p1))"

definition rewind :: "parser \<Rightarrow> parser" where
  "rewind p = (case ps_back p of [] \<Rightarrow> p | t # ts \<Rightarrow> p\<lparr>ps_back := ts, ps_rest := t # ps_rest p\<rparr>)"

definition match_token :: "token_type \<Rightarrow> parser \<Rightarrow> bool \<times> parser" where
  "match_token ty p =
     (case peek 0 p of
        None \<Rightarrow> (False, p)
      | Some t \<Rightarrow> if tk_type t = ty then (True, snd (advance_token p)) else (False, p))"

text \<open>\<open>match(A) || match(B) || ...\<close>\<close>

fun match_any :: "token_type list \<Rightarrow> parser \<Rightarrow> bool \<times> parser" where
  "match_any [] p = (False, p)"
| "match_any (ty # tys) p =
     (case match_token ty p of (True, p1) \<Rightarrow> (True, p1) | (False, p1) \<Rightarrow> match_any tys p1)"

text \<open>Following a pointer that may be null.\<close>

definition deref :: "token option \<Rightarrow> token result" where
  "deref t = (case t of None \<Rightarrow> Inl (Undefined ''null Token'') | Some x \<Rightarrow> Inr x)"

type_synonym 'a parse = "parser \<Rightarrow> ('a \<times> parser) result"

definition expect :: "token_type \<Rightarrow> string \<Rightarrow> token parse" where
  "expect ty msg p =
     (case match_token ty p of
        (True, p1) \<Rightarrow> bindE (deref (previous p1)) (\<lambda>t. Inr (t, p1))
      | (False, p1) \<Rightarrow> Inl (Throw (''Parse error: '' @ msg)))"

text \<open>Sequences of calls of \<open>expect\<close>, with or without the token in what follows.\<close>

definition need :: "token_type \<Rightarrow> string \<Rightarrow> (token \<Rightarrow> 'a parse) \<Rightarrow> 'a parse" where
  "need ty msg k p = bindE (expect ty msg p) (\<lambda>(t, p1). k t p1)"

fun needs :: "(token_type \<times> string) list \<Rightarrow> 'a parse \<Rightarrow> 'a parse" where
  "needs [] k = k"
| "needs ((ty, msg) # es) k = need ty msg (\<lambda>_. needs es k)"

definition yields :: "'a \<Rightarrow> 'a parse" where
  "yields x p = Inr (x, p)"

definition throws :: "string \<Rightarrow> 'a parse" where
  "throws msg p = Inl (Throw msg)"

definition quoted :: "string \<Rightarrow> string" where
  "quoted w = CHR 0x27 # w @ [CHR 0x27]"

definition newline :: string where
  "newline = [CHR 0x0A]"

text \<open>\<open>do { item } while (match(COMMA));\<close>. Each round consumes a token, so the length of the input is fuel
  enough.\<close>

fun comma_rounds :: "nat \<Rightarrow> 'a parse \<Rightarrow> 'a list \<Rightarrow> 'a list parse" where
  "comma_rounds 0 item acc p = Inl Out_of_fuel"
| "comma_rounds (Suc n) item acc p =
     bindE (item p) (\<lambda>(x, p1).
       case match_token T_COMMA p1 of
         (True, p2) \<Rightarrow> comma_rounds n item (acc @ [x]) p2
       | (False, p2) \<Rightarrow> Inr (acc @ [x], p2))"

definition comma_loop :: "'a parse \<Rightarrow> 'a list parse" where
  "comma_loop item p = comma_rounds (Suc (length (ps_rest p))) item [] p"

text \<open>\<open>while (!match(CLOSE_PAREN)) { body }\<close>\<close>

fun close_rounds :: "nat \<Rightarrow> 'a parse \<Rightarrow> 'a list \<Rightarrow> 'a list parse" where
  "close_rounds 0 body acc p = Inl Out_of_fuel"
| "close_rounds (Suc n) body acc p =
     (case match_token T_CLOSE_PAREN p of
        (True, p1) \<Rightarrow> Inr (acc, p1)
      | (False, p1) \<Rightarrow> bindE (body p1) (\<lambda>(x, p2). close_rounds n body (acc @ [x]) p2))"

definition close_loop :: "'a parse \<Rightarrow> 'a list parse" where
  "close_loop body p = close_rounds (Suc (length (ps_rest p))) body [] p"

definition bindP :: "'a parse \<Rightarrow> ('a \<Rightarrow> 'b parse) \<Rightarrow> 'b parse" where
  "bindP m k p = bindE (m p) (\<lambda>(x, p1). k x p1)"

text \<open>One of several tokens, or an exception with the text \<open>msg\<close>.\<close>

definition one_of :: "token_type list \<Rightarrow> string \<Rightarrow> token parse" where
  "one_of tys msg p =
     (case match_any tys p of
        (True, p1) \<Rightarrow> bindE (deref (previous p1)) (\<lambda>t. Inr (t, p1))
      | (False, p1) \<Rightarrow> Inl (Throw msg))"

section \<open>Expressions\<close>

fun logical_of :: "token_type \<Rightarrow> logical_operator" where
  "logical_of ty = (if ty = T_AND then L_AND else L_OR)"

definition comparison_tokens :: "token_type list" where
  "comparison_tokens = [T_EQUAL, T_NOT_EQUAL, T_GREATER, T_LESS, T_GREATER_EQUAL, T_LESS_EQUAL]"

definition comparison_of :: "token_type \<Rightarrow> comparison_operator result" where
  "comparison_of ty =
     (if ty = T_EQUAL then Inr C_EQUAL
      else if ty = T_NOT_EQUAL then Inr C_NOT_EQUAL
      else if ty = T_GREATER then Inr C_GREATER
      else if ty = T_LESS then Inr C_LESS
      else if ty = T_GREATER_EQUAL then Inr C_GREATER_EQUAL
      else if ty = T_LESS_EQUAL then Inr C_LESS_EQUAL
      else Inl (Throw ''Invalid comparison operator''))"

text \<open>The leaves of \<open>parsePrimary\<close>: everything but the parenthesised expression.\<close>

definition parse_leaf :: "expr parse" where
  "parse_leaf p =
     (case match_token T_IDENTIFIER p of
        (True, p1) \<Rightarrow>
          bindE (deref (previous p1)) (\<lambda>t.
            if tk_value t = ''true'' \<or> tk_value t = ''false'' then Inr (BoolLiteral (tk_value t = ''true''), p1)
            else Inr (Identifier (tk_value t), p1))
      | (False, p1) \<Rightarrow>
          (case match_token T_NUMBER p1 of
             (True, p2) \<Rightarrow>
               bindE (deref (previous p2)) (\<lambda>t. bindE (stoi (tk_value t)) (\<lambda>n. Inr (IntLiteral n, p2)))
           | (False, p2) \<Rightarrow>
               (case match_token T_STRING p2 of
                  (True, p3) \<Rightarrow> bindE (deref (previous p3)) (\<lambda>t. Inr (StringLiteral (tk_value t), p3))
                | (False, p3) \<Rightarrow> Inl (Throw ''Unexpected token in expression''))))"

fun parse_logical :: "nat \<Rightarrow> expr parse"
  and logical_loop :: "nat \<Rightarrow> expr \<Rightarrow> expr parse"
  and parse_comparison :: "nat \<Rightarrow> expr parse"
  and parse_primary :: "nat \<Rightarrow> expr parse" where
  "parse_logical 0 p = Inl Out_of_fuel"
| "parse_logical (Suc n) p = bindE (parse_comparison n p) (\<lambda>(l, p1). logical_loop n l p1)"
| "logical_loop 0 l p = Inl Out_of_fuel"
| "logical_loop (Suc n) l p =
     (case match_any [T_AND, T_OR] p of
        (True, p1) \<Rightarrow>
          bindE (deref (previous p1)) (\<lambda>t.
            bindE (parse_comparison n p1) (\<lambda>(r, p2).
              logical_loop n (Logical l (logical_of (tk_type t)) r) p2))
      | (False, p1) \<Rightarrow> Inr (l, p1))"
| "parse_comparison 0 p = Inl Out_of_fuel"
| "parse_comparison (Suc n) p =
     bindE (parse_primary n p) (\<lambda>(l, p1).
       case match_any comparison_tokens p1 of
         (True, p2) \<Rightarrow>
           bindE (deref (previous p2)) (\<lambda>t.
             bindE (comparison_of (tk_type t)) (\<lambda>c.
               bindE (parse_primary n p2) (\<lambda>(r, p3). Inr (Comparison l c r, p3))))
       | (False, p2) \<Rightarrow> Inr (l, p2))"
| "parse_primary 0 p = Inl Out_of_fuel"
| "parse_primary (Suc n) p =
     (case match_token T_OPEN_PAREN p of
        (True, p1) \<Rightarrow>
          bindE (parse_logical n p1) (\<lambda>(e, p2).
            bindE (expect T_CLOSE_PAREN (''Expected '' @ quoted '')'') p2) (\<lambda>(_, p3). Inr (Paren e, p3)))
      | (False, p1) \<Rightarrow> parse_leaf p1)"

definition parse_expression :: "expr parse" where
  "parse_expression p = parse_logical (4 * length (ps_rest p) + 4) p"

text \<open>The optional clause \<open>if (match(WHERE)) ...\<close>\<close>

definition optional_where :: "expr option parse" where
  "optional_where p =
     (case match_token T_WHERE p of
        (True, p1) \<Rightarrow> bindE (parse_expression p1) (\<lambda>(e, p2). Inr (Some e, p2))
      | (False, p1) \<Rightarrow> Inr (None, p1))"

section \<open>INSERT, UPDATE, DELETE, SELECT, STATISTICS\<close>

definition ident_item :: "string parse" where
  "ident_item = need T_IDENTIFIER ''Expected column name'' (\<lambda>t. yields (tk_value t))"

definition value_item :: "string parse" where
  "value_item =
     bindP (one_of [T_STRING, T_NUMBER] ''Expected a STRING in quotes or a NUMBER'') (\<lambda>t. yields (tk_value t))"

definition parse_insert_syntax :: "insert_statement parse" where
  "parse_insert_syntax =
     needs [(T_INSERT, ''Expected '' @ quoted ''INSERT''), (T_INTO, ''Expected '' @ quoted ''INTO'')]
    (need T_IDENTIFIER ''Expected table name'' (\<lambda>tab.
     needs [(T_OPEN_PAREN, ''Expected '' @ quoted ''('' @ '' before column list'')]
    (bindP (comma_loop ident_item) (\<lambda>cols.
     needs [(T_CLOSE_PAREN, ''Expected '' @ quoted '')'' @ '' after column list''),
            (T_VALUES, ''Expected '' @ quoted ''VALUES''),
            (T_OPEN_PAREN, ''Expected '' @ quoted ''('' @ '' before values'')]
    (bindP (comma_loop value_item) (\<lambda>vals.
     needs [(T_CLOSE_PAREN, ''Expected '' @ quoted '')'' @ '' after values''),
            (T_SEMICOLON, ''Expected '' @ quoted '';'' @ '' at end'')]
    (if length cols \<noteq> length vals then
       throws ''Number of columns and values do not match make sure you does not pass the primary key column''
     else yields \<lparr>ins_table = tk_value tab, ins_columns = cols, ins_values = vals\<rparr>)))))))"

definition assignment_item :: "(string \<times> string) parse" where
  "assignment_item =
     need T_IDENTIFIER ''Expected column name'' (\<lambda>col.
     needs [(T_EQUAL, ''Expected '' @ quoted ''='' @ '' in SET clause'')]
    (bindP (one_of [T_STRING, T_NUMBER, T_IDENTIFIER] ''Invalid value in UPDATE SET clause'') (\<lambda>v.
     yields (tk_value col, tk_value v))))"

definition parse_update_statement :: "update_statement parse" where
  "parse_update_statement =
     needs [(T_UPDATE, ''Expected UPDATE keyword'')]
    (need T_IDENTIFIER ''Expected table name'' (\<lambda>tab.
     needs [(T_SET, ''Expected SET keyword'')]
    (bindP (comma_loop assignment_item) (\<lambda>asg p.
     case match_token T_WHERE p of
       (True, p1) \<Rightarrow>
         bindP parse_expression (\<lambda>c.
         needs [(T_SEMICOLON, ''Expected '' @ quoted '';'' @ '' after UPDATE statement'')]
        (yields \<lparr>upd_table = tk_value tab, upd_assignments = asg, upd_where = c\<rparr>)) p1
     | (False, p1) \<Rightarrow> Inl (Throw ''UPDATE without WHERE is not allowed'')))))"

definition parse_delete_syntax :: "delete_statement parse" where
  "parse_delete_syntax =
     needs [(T_DELETE, ''Expected DELETE keyword''), (T_FROM, ''Expected FROM keyword'')]
    (need T_IDENTIFIER ''Expected table name'' (\<lambda>tab.
     bindP optional_where (\<lambda>c.
     needs [(T_SEMICOLON, ''Expected '' @ quoted '';'' @ '' after DELETE statement'')]
    (yields \<lparr>del_table = tk_value tab, del_where = c\<rparr>))))"

definition no_database :: "'a parse \<Rightarrow> 'a parse" where
  "no_database k p =
     (if ps_currentDb p = [] then Inl (Throw ''No database selected. Use USE <db_name>;'') else k p)"

text \<open>\<open>LIMIT n\<close>. The word is an identifier: any other identifier here is consumed and has no effect. The
  \<open>int\<close> is converted to \<open>size_t\<close>.\<close>

definition optional_limit :: "nat option parse" where
  "optional_limit p =
     (case match_token T_IDENTIFIER p of
        (True, p1) \<Rightarrow>
          bindE (deref (previous p1)) (\<lambda>t.
            if tk_value t = ''limit'' then
              need T_NUMBER ''Expected number after LIMIT'' (\<lambda>v p2.
                bindE (stoi (tk_value v)) (\<lambda>n. Inr (Some (nat (n mod 2 ^ 64)), p2))) p1
            else Inr (None, p1))
      | (False, p1) \<Rightarrow> Inr (None, p1))"

definition select_columns :: "string list parse" where
  "select_columns p =
     (case match_token T_MULTIPLY p of
        (True, p1) \<Rightarrow> Inr ([''*''], p1)
      | (False, p1) \<Rightarrow> comma_loop ident_item p1)"

definition parse_select_statement :: "select_statement parse" where
  "parse_select_statement =
     needs [(T_SELECT, ''Expected SELECT keyword'')]
    (no_database
    (bindP select_columns (\<lambda>cols.
     needs [(T_FROM, ''Expected FROM keyword'')]
    (need T_IDENTIFIER ''Expected table name'' (\<lambda>tab.
     bindP optional_where (\<lambda>c.
     bindP optional_limit (\<lambda>l.
     yields \<lparr>sel_columns = cols, sel_table = tk_value tab, sel_where = c, sel_limit = l\<rparr>)))))))"

definition parse_statistics_statement :: "statistics_statement parse" where
  "parse_statistics_statement =
     needs [(T_STATISTICS, ''Expected statistics keyword'')]
    (bindP (one_of [T_MEAN, T_COUNT, T_MAX, T_MIN] ''Unexpected Keyword'') (\<lambda>k.
     needs [(T_FROM, ''Expected from keyword'')]
    (need T_IDENTIFIER ''Expected table name'' (\<lambda>tab.
     needs [(T_ON, ''Expected ON Keyword'')]
    (need T_IDENTIFIER ''Expected column name'' (\<lambda>col.
     bindP optional_where (\<lambda>c.
     yields \<lparr>st_type = (if tk_type k = T_MEAN then ''mean'' else if tk_type k = T_COUNT then ''count''
                        else if tk_type k = T_MAX then ''max'' else ''min''),
             st_table = tk_value tab, st_column = tk_value col, st_where = c\<rparr>)))))))"

section \<open>USE, DROP, CREATE\<close>

definition parse_use_syntax :: "string parse" where
  "parse_use_syntax =
     needs [(T_USE, ''Expected USE keyword'')]
    (need T_IDENTIFIER ''Expected database name after USE'' (\<lambda>db.
     needs [(T_SEMICOLON, ''Expected '' @ quoted '';'' @ '' after USE statement'')]
    (yields (tk_value db))))"

definition parse_drop_syntax :: "drop_statement parse" where
  "parse_drop_syntax =
     needs [(T_DROP, ''Expected drop keyword'')]
    (no_database (\<lambda>p.
       case advance_token p of (tok, p1) \<Rightarrow>
         bindE (deref tok) (\<lambda>t.
           if tk_type t = T_TABLE then
             need T_IDENTIFIER (''not a identifier'' @ newline) (\<lambda>i.
               yields \<lparr>drop_istable = True, drop_name = tk_value i\<rparr>) p1
           else if tk_type t = T_DATABASE then
             need T_IDENTIFIER (''not a identifier'' @ newline) (\<lambda>i.
               yields \<lparr>drop_istable = False, drop_name = tk_value i\<rparr>) p1
           else Inl (Throw ''error in drop ''))))"

text \<open>\<open>match(COMMA)\<close> or \<open>peek()->TYPE == CLOSE_PAREN\<close>, the end of a column definition.\<close>

definition column_end :: "unit parse" where
  "column_end p =
     (case match_token T_COMMA p of
        (True, p1) \<Rightarrow> Inr ((), p1)
      | (False, p1) \<Rightarrow>
          bindE (deref (peek 0 p1)) (\<lambda>t.
            if tk_type t = T_CLOSE_PAREN then Inr ((), p1)
            else Inl (Throw (''Expected '' @ quoted '','' @ '' or '' @ quoted '')'' @ '' in column list''))))"

fun constraint_rounds :: "nat \<Rightarrow> column_constraint list \<Rightarrow> column_constraint list parse" where
  "constraint_rounds 0 acc p = Inl Out_of_fuel"
| "constraint_rounds (Suc n) acc p =
     (case match_token T_NOT p of
        (True, p1) \<Rightarrow> need T_NULL_T ''Expected NULL after NOT'' (\<lambda>_. constraint_rounds n (acc @ [NOT_NULL])) p1
      | (False, p1) \<Rightarrow>
     (case match_token T_PRIMARY p1 of
        (True, p2) \<Rightarrow> need T_KEY ''Expected KEY after PRIMARY'' (\<lambda>_. constraint_rounds n (acc @ [PRIMARY_KEY])) p2
      | (False, p2) \<Rightarrow>
     (case match_token T_AUTO_INCREMENT p2 of
        (True, p3) \<Rightarrow> constraint_rounds n (acc @ [AUTO_INCREMENT]) p3
      | (False, p3) \<Rightarrow>
     (case match_token T_UNIQUE p3 of
        (True, p4) \<Rightarrow> constraint_rounds n (acc @ [UNIQUE]) p4
      | (False, p4) \<Rightarrow> Inr (acc, p4)))))"

definition constraint_loop :: "column_constraint list parse" where
  "constraint_loop p = constraint_rounds (Suc (length (ps_rest p))) [] p"

definition varchar_size :: "token \<Rightarrow> string parse" where
  "varchar_size ty p =
     (if tk_type ty = T_VARCHAR then
        (case match_token T_OPEN_PAREN p of
           (True, p1) \<Rightarrow>
             need T_NUMBER ''Expected size in VARCHAR()'' (\<lambda>size.
             needs [(T_CLOSE_PAREN, ''Expected '' @ quoted '')'' @ '' after VARCHAR size'')]
            (yields (tk_value ty @ ''('' @ tk_value size @ '')''))) p1
         | (False, p1) \<Rightarrow> Inr (tk_value ty, p1))
      else Inr (tk_value ty, p))"

definition column_item :: "column_definition parse" where
  "column_item =
     need T_IDENTIFIER ''Expected column name'' (\<lambda>col.
     bindP (one_of [T_INT, T_VARCHAR] ''Parse error: Expected column type (int or varchar)'') (\<lambda>ty.
     bindP (varchar_size ty) (\<lambda>tyname.
     bindP constraint_loop (\<lambda>cs.
     bindP column_end (\<lambda>_.
     yields \<lparr>col_name = tk_value col, col_type = tyname, col_precision = 0, col_constraints = cs\<rparr>)))))"

definition parse_create_syntax :: "create_statement parse" where
  "parse_create_syntax =
     needs [(T_CREATE, ''Expected CREATE keyword'')] (\<lambda>p.
       case match_token T_TABLE p of
         (True, p1) \<Rightarrow>
           no_database
          (need T_IDENTIFIER ''Expected table name'' (\<lambda>tab.
           needs [(T_OPEN_PAREN, ''Expected '' @ quoted ''('' @ '' after table name'')]
          (bindP (close_loop column_item) (\<lambda>cols.
           yields (new_create\<lparr>cr_name := tk_value tab, cr_columns := cols\<rparr>))))) p1
       | (False, p1) \<Rightarrow>
           (case match_token T_DATABASE p1 of
              (True, p2) \<Rightarrow>
                need T_IDENTIFIER ''Expected database name'' (\<lambda>db.
                yields (new_create\<lparr>cr_isDatabase := True, cr_name := tk_value db\<rparr>)) p2
            | (False, p2) \<Rightarrow> Inl (Throw ''Expected TABLE or DATABASE keyword'')))"

section \<open>CREATE HFT TABLE\<close>

text \<open>\<open>static_cast<int16_t>\<close>\<close>

definition to_int16 :: "int \<Rightarrow> int" where
  "to_int16 n = sint (word_of_int n :: 16 word)"

definition hft_column_item :: "column_definition parse" where
  "hft_column_item =
     need T_IDENTIFIER ''Expected column name'' (\<lambda>col.
     need T_DOUBLE ''ONLY SUPPORT DOUBLE'' (\<lambda>ty.
     needs [(T_PRECISION, ''use keyword precision after double'')]
    (need T_NUMBER ''expected bit precision to be a number'' (\<lambda>bit p.
     bindE (stoi (tk_value bit)) (\<lambda>n.
       bindP column_end (\<lambda>_.
       yields \<lparr>col_name = tk_value col, col_type = tk_value ty, col_precision = to_int16 n,
               col_constraints = []\<rparr>) p)))))"

text \<open>A number token read with \<open>std::stoi\<close>.\<close>

definition need_int :: "string \<Rightarrow> (int \<Rightarrow> 'a parse) \<Rightarrow> 'a parse" where
  "need_int msg k = need T_NUMBER msg (\<lambda>t p. bindE (stoi (tk_value t)) (\<lambda>n. k n p))"

text \<open>
  The branches of the AGGREGATES clause in the order of the code: the keyword, the stored name, the
  messages for the first and the second number, and the message for the threshold where there is one.
\<close>

definition aggregate_table :: "(token_type \<times> string \<times> string \<times> string \<times> string option) list" where
  "aggregate_table =
    [(T_MEAN, ''mean'', ''expected time value after mean'', ''expected column index after time'', None),
     (T_STDDEV, ''stddev'', ''expected time value after stddev'', ''expected column index after time'', None),
     (T_MAX, ''max'', ''expected time value after max'', ''expected column index after time'', None),
     (T_MIN, ''min'', ''expected time value after min'', ''expected column index after time'', None),
     (T_COUNT, ''count'', ''expected time value after count'', ''expected column index after time'',
        Some ''expected threshold value after column index''),
     (T_MEAN_N, ''mean_n'', ''Expect n after mean_n'', ''Expect column index after n'', None),
     (T_STDDEV_N, ''stddev_n'', ''Expect n after stddev_n'', ''Expect column index after n'', None),
     (T_MAX_N, ''max_n'', ''Expect n after max_n'', ''Expect column index after n'', None),
     (T_MIN_N, ''min_n'', ''Expect n after min_n'', ''Expect column index after n'', None),
     (T_COUNT_N, ''count_n'', ''EXpected n after count_n'', ''Expect column index after n'',
        Some ''Expect threshold value after column index'')]"

fun aggregate_branch :: "(token_type \<times> string \<times> string \<times> string \<times> string option) list \<Rightarrow> aggregates parse" where
  "aggregate_branch [] p = Inl (Throw ''Unexpected keyword found'')"
| "aggregate_branch ((ty, name, m1, m2, m3) # bs) p =
     (case match_token ty p of
        (True, p1) \<Rightarrow>
          need_int m1 (\<lambda>time. need_int m2 (\<lambda>idx.
            case m3 of
              None \<Rightarrow> yields \<lparr>ag_type = name, ag_time = time, ag_col_idx = idx, ag_threshold = -1\<rparr>
            | Some m \<Rightarrow> need_int m (\<lambda>th.
                yields \<lparr>ag_type = name, ag_time = time, ag_col_idx = idx, ag_threshold = th\<rparr>))) p1
      | (False, p1) \<Rightarrow> aggregate_branch bs p1)"

definition optional_aggregates :: "aggregates list parse" where
  "optional_aggregates p =
     (case match_token T_AGGREGATES p of
        (True, p1) \<Rightarrow>
          needs [(T_OPEN_PAREN, ''Expected '' @ quoted ''('' @ '' after AGGREGATES'')]
            (close_loop (aggregate_branch aggregate_table)) p1
      | (False, p1) \<Rightarrow> Inr ([], p1))"

text \<open>For a symbol above \<open>MAXHFTSYMBOL - 1\<close> the code builds an exception and does not throw it, so there is
  no check of the symbol here.\<close>

definition parse_hft_create_syntax :: "create_statement parse" where
  "parse_hft_create_syntax =
     no_database
    (needs [(T_HFT, ''Expected HFT KEYWORD''), (T_TABLE, ''Expected TABLE KEYWORD'')]
    (need T_IDENTIFIER ''Expected table name'' (\<lambda>tab.
     needs [(T_OPEN_PAREN, ''Expected '' @ quoted ''('' @ '' after table name'')]
    (bindP (close_loop hft_column_item) (\<lambda>cols.
     needs [(T_SYMBOL, ''use the symbol keyword'' @ newline)]
    (need_int ''the symbol should be a number'' (\<lambda>sy.
     bindP optional_aggregates (\<lambda>ags p.
       bindE (deref (peek 0 p)) (\<lambda>t.
         let stmt = new_create\<lparr>cr_name := tk_value tab, cr_columns := cols, cr_symbol := sy, cr_aggregates := ags\<rparr>
         in if tk_type t \<noteq> T_SEMICOLON then
              needs [(T_TOP, ''expected top variable for best bid and best ask price'')]
                (yields (stmt\<lparr>cr_top := True\<rparr>)) p
            else yields stmt p)))))))))"

section \<open>MEMORY\<close>

text \<open>The state of the loop of \<open>parseMemoryStatement\<close>: key, value and time to live.\<close>

type_synonym memory_args = "string \<times> string \<times> int"

definition memory_operand :: "string \<Rightarrow> string parse" where
  "memory_operand msg =
     bindP (one_of [T_IDENTIFIER, T_STRING, T_NUMBER] msg) (\<lambda>t. yields (tk_value t))"

definition memory_clause :: "memory_args \<Rightarrow> memory_args parse" where
  "memory_clause a p =
     (case a of (key, v, ttl) \<Rightarrow>
     (case match_token T_KEY p of
        (True, p1) \<Rightarrow>
          needs [(T_EQUAL, ''Expected '' @ quoted ''='' @ '' after KEY'')]
         (bindP (memory_operand ''Expected identifier or string after KEY='') (\<lambda>k. yields (k, v, ttl))) p1
      | (False, p1) \<Rightarrow>
     (case match_token T_VALUES p1 of
        (True, p2) \<Rightarrow>
          needs [(T_EQUAL, ''Expected '' @ quoted ''='' @ '' after VALUE'')]
         (bindP (memory_operand ''Expected identifier or string after VALUE='') (\<lambda>x. yields (key, x, ttl))) p2
      | (False, p2) \<Rightarrow>
     (case match_token T_TTL p2 of
        (True, p3) \<Rightarrow>
          needs [(T_EQUAL, ''Expected '' @ quoted ''='' @ '' after TTL'')]
         (need_int ''Expected number after TTL='' (\<lambda>n. yields (key, v, n))) p3
      | (False, p3) \<Rightarrow>
          bindE (deref (peek 0 p3)) (\<lambda>t.
            Inl (Throw (''Unexpected token in MEMORY statement: '' @ type_to_string (tk_type t))))))))"

fun memory_rounds :: "nat \<Rightarrow> memory_args \<Rightarrow> memory_args parse" where
  "memory_rounds 0 a p = Inl Out_of_fuel"
| "memory_rounds (Suc n) a p =
     (case match_token T_SEMICOLON p of
        (True, p1) \<Rightarrow> Inr (a, p1)
      | (False, p1) \<Rightarrow> bindE (memory_clause a p1) (\<lambda>(a1, p2). memory_rounds n a1 p2))"

definition parse_memory_syntax :: "memory_args parse" where
  "parse_memory_syntax =
     needs [(T_MEMORY, ''Expected MEMORY keyword'')]
    (bindP (\<lambda>p. memory_rounds (Suc (length (ps_rest p))) ([], [], -1) p) (\<lambda>(key, v, ttl).
     if key = [] then throws ''MEMORY command missing KEY''
     else if v = [] then throws ''MEMORY command missing VALUE''
     else yields (key, v, ttl)))"

text \<open>\<open>None\<close>: the statement is not \<open>MEMORY GET\<close> and nothing happens.\<close>

definition parse_get_memory_syntax :: "string option parse" where
  "parse_get_memory_syntax =
     needs [(T_MEMORY, ''Expected MEMORY keyword'')] (\<lambda>p.
       case match_token T_GET p of
         (True, p1) \<Rightarrow>
           needs [(T_KEY, ''Expected KEY after MEMORY GET''), (T_EQUAL, ''Expected '' @ quoted ''='' @ '' after KEY'')]
          (bindP (memory_operand ''Expected identifier/string/number after KEY='') (\<lambda>k.
           needs [(T_SEMICOLON, ''Expected '' @ quoted '';'')]
          (yields (Some k)))) p1
       | (False, p1) \<Rightarrow> Inr (None, p1))"

section \<open>Indicators, strategies and the exchange statements\<close>

text \<open>An \<open>int64_t\<close> that was declared without a value, given to \<open>std::from_chars\<close>, and is now read.\<close>

definition read_int :: "string \<Rightarrow> (int \<Rightarrow> 'a parse) \<Rightarrow> 'a parse" where
  "read_int s k p =
     (case from_chars s of None \<Rightarrow> Inl (Undefined ''uninitialised int64_t'') | Some n \<Rightarrow> k n p)"

definition parse_fetch_indicator :: "fetch_indicator_statement parse" where
  "parse_fetch_indicator =
     needs [(T_FETCH, ''expect token type fetch''), (T_INDICATOR, ''expect token type indicator''),
            (T_FROM, ''expect token type from''), (T_HFT, ''expect token type hft''),
            (T_SYMBOL, ''expect token type symbol'')]
    (need T_NUMBER ''the symbol should be no'' (\<lambda>t.
     read_int (tk_value t) (\<lambda>sy. yields \<lparr>fi_symbol = sy\<rparr>)))"

definition parse_enable_statement :: "enable_statement parse" where
  "parse_enable_statement =
     needs [(T_ENABLE, ''expect token type enable''), (T_BATCH, ''expect token type batch''),
            (T_WRITING, ''expect token type writing''), (T_ON, ''expect token type on''),
            (T_TABLE, ''expect token type table'')]
    (need T_STRING ''expect table name to be string'' (\<lambda>tab.
     needs [(T_TICKS, ''expect tokens ticks'')]
    (need T_NUMBER ''expect ticks to be a number'' (\<lambda>t.
     read_int (tk_value t) (\<lambda>n. yields \<lparr>en_ticks = n, en_table = tk_value tab\<rparr>)))))"

definition param_item :: "string parse" where
  "param_item =
     need T_STRING ''expect argument to be string'' (\<lambda>v p.
       case match_token T_COMMA p of
         (True, p1) \<Rightarrow> Inr (tk_value v, p1)
       | (False, p1) \<Rightarrow>
           (case peek 0 p1 of
              Some t \<Rightarrow> if tk_type t = T_CLOSE_PAREN then Inr (tk_value v, p1)
                else Inl (Throw (''Parse error: expect '' @ quoted '','' @ '' or '' @ quoted '')'' @ '' in parameter list''))
            | None \<Rightarrow> Inl (Throw (''Parse error: expect '' @ quoted '','' @ '' or '' @ quoted '')'' @ '' in parameter list''))))"

definition optional_params :: "string list parse" where
  "optional_params p =
     (case match_token T_OPEN_PAREN p of
        (True, p1) \<Rightarrow> close_loop param_item p1
      | (False, p1) \<Rightarrow> Inr ([], p1))"

text \<open>\<open>column\<close> is filled by \<open>std::from_chars\<close> as well, but never read.\<close>

definition parse_add_strategy_on_table :: "strategy_on_table parse" where
  "parse_add_strategy_on_table =
     needs [(T_ENABLE, ''expect token type enable''), (T_STRATEGY, ''expect token type strategy'')]
    (need T_STRING ''the strategy name should be string'' (\<lambda>name.
     bindP optional_params (\<lambda>params.
     needs [(T_ON, ''expect token type ON''), (T_SYMBOL, ''expect token type symbol'')]
    (need T_NUMBER ''expect token type number'' (\<lambda>sy.
     needs [(T_COLUMN_NO, ''expect toekn type column_no''), (T_NUMBER, ''expect column type number''),
            (T_TICKS, ''expect token type ticks'')]
    (need T_NUMBER ''token type tick should be number'' (\<lambda>ti.
     needs [(T_SEMICOLON, ''expect token type semi colon'')]
    (read_int (tk_value sy) (\<lambda>s.
     read_int (tk_value ti) (\<lambda>n.
     yields \<lparr>sot_strategy = tk_value name, sot_params = params, sot_symbol = s, sot_ticks = n\<rparr>))))))))))"

definition parse_web_socket_command :: "web_socket_command parse" where
  "parse_web_socket_command =
     needs [(T_APPLY, ''expect token type Apply''), (T_WEBSOCKET, ''expect token webscoket''),
            (T_ON, ''expect token type on''), (T_STRATEGY, ''expect token type strategy '')]
    (need T_STRING ''expect token type string '' (\<lambda>name.
     needs [(T_URL, ''expect token type url'')]
    (need T_STRING ''expect the websocket url to be string'' (\<lambda>url.
     yields \<lparr>ws_url = tk_value url, ws_strategy = tk_value name\<rparr>))))"

text \<open>The column number: \<open>- n\<close> is -1 whatever \<open>n\<close> is; otherwise the number is read when the statement is
  filled, as the other two.\<close>

definition indicator_column :: "string option parse" where
  "indicator_column p =
     (case match_token T_MINUS p of
        (True, p1) \<Rightarrow> need T_NUMBER ''expect a number'' (\<lambda>_. yields None) p1
      | (False, p1) \<Rightarrow> need T_NUMBER ''expect a number'' (\<lambda>t. yields (Some (tk_value t))) p1)"

definition read_column :: "string option \<Rightarrow> (int \<Rightarrow> 'a parse) \<Rightarrow> 'a parse" where
  "read_column col k = (case col of None \<Rightarrow> k (-1) | Some c \<Rightarrow> read_int c k)"

text \<open>The members are assigned before the last \<open>expect\<close>.\<close>

definition parse_add_indicator_on_table :: "indicator_on_table parse" where
  "parse_add_indicator_on_table =
     needs [(T_ADD, ''expect Token type add''), (T_INDICATOR, ''expect token type indictor'')]
    (need T_STRING ''expect indicator name as string'' (\<lambda>name.
     bindP optional_params (\<lambda>params.
     needs [(T_ON, ''expect token ON after indicator''), (T_SYMBOL, ''expect token type symbol'')]
    (need T_NUMBER ''expect symbol to be int'' (\<lambda>sy.
     needs [(T_COLUMN_NO, ''expect token COLUMN_NO'')]
    (bindP indicator_column (\<lambda>col.
     needs [(T_TICKS, ''expect token type ticks '')]
    (need T_NUMBER (''expect tick number'' @ newline) (\<lambda>ti.
     read_int (tk_value sy) (\<lambda>s.
     read_column col (\<lambda>c.
     read_int (tk_value ti) (\<lambda>n.
     needs [(T_SEMICOLON, ''expect token ;'')]
    (yields \<lparr>iot_indicator = tk_value name, iot_params = params, iot_column_no = c, iot_symbol = s,
             iot_ticks = n\<rparr>)))))))))))))"

definition parse_add_hft_strategy :: "file_statement parse" where
  "parse_add_hft_strategy =
     needs [(T_ADD, ''expect token type add''), (T_STRATEGY, ''expect token type strategy''),
            (T_FROM, ''expect token type from''), (T_FILE, ''expect token type file'')]
    (need T_STRING ''expect file name to be string'' (\<lambda>f. yields \<lparr>fs_file_path = tk_value f\<rparr>))"

definition parse_add_hft_indicator :: "file_statement parse" where
  "parse_add_hft_indicator =
     needs [(T_ADD, ''expected token type add''), (T_HFT, ''expect token type HFT'')] (\<lambda>p.
       case match_token T_INDICATOR p of
         (True, p1) \<Rightarrow>
           needs [(T_FROM, ''expect token type from''), (T_FILE, ''expect token type file'')]
          (need T_STRING ''expect a file path in string '' (\<lambda>f.
           needs [(T_SEMICOLON, ''expected token ;'')]
          (yields \<lparr>fs_file_path = tk_value f\<rparr>))) p1
       | (False, p1) \<Rightarrow> Inl (Throw ''Expected INDICATOR keyword''))"

definition parse_binance_order_book :: "binance_order_book_statement parse" where
  "parse_binance_order_book =
     needs [(T_SET, ''expect token type set''), (T_BINANCE, ''expect token type binance''),
            (T_ORDER_BOOK, ''expect token type binance order book''), (T_ON, ''expect token type on''),
            (T_SYMBOL, ''expect token type symbol'')]
    (need T_NUMBER ''the table symbol should be a number'' (\<lambda>n.
     needs [(T_SYMBOL, ''expect token type symbol'')]
    (need T_STRING ''expect biance symbol to be a token'' (\<lambda>s.
     read_int (tk_value n) (\<lambda>sy.
     yields \<lparr>bob_tableSymbol = sy, bob_binance_symbol = tk_value s\<rparr>)))))"

definition parse_binance_api_key :: "binance_api_key_statement parse" where
  "parse_binance_api_key =
     needs [(T_SET, ''expect token type set''), (T_BINANCE, ''expect token type binance''),
            (T_API_KEY, ''exepect token type api key'' @ newline)]
    (need T_STRING (''expect api key '' @ newline) (\<lambda>k.
     needs [(T_SEMICOLON, ''expect token type semi colon'')]
    (yields \<lparr>bak_key = tk_value k\<rparr>)))"

definition parse_binance_live_ohlc :: "binance_live_ohlc_statement parse" where
  "parse_binance_live_ohlc =
     needs [(T_SET, ''expect token type set''), (T_BINANCE, ''expect token type binance''),
            (T_DATA, ''expect token type data''), (T_FEED, ''expect token type feed''),
            (T_OHLC, ''expect token type ohlc'')]
    (need T_STRING ''expect time to be string'' (\<lambda>time.
     needs [(T_ON, ''expect token type on''), (T_SYMBOL, ''expect token type symbol'')]
    (need T_NUMBER ''expect token type number'' (\<lambda>n.
     needs [(T_SYMBOL, ''expect TokeTypeSymbol'')]
    (need T_STRING ''binance symbol should be string'' (\<lambda>s.
     read_int (tk_value n) (\<lambda>sy.
     yields \<lparr>bll_tableSymbol = sy, bll_time = tk_value time, bll_trade_symbol = tk_value s\<rparr>)))))))"

definition parse_binance_live_orders :: "binance_live_orders_statement parse" where
  "parse_binance_live_orders =
     needs [(T_SET, ''expect token type set''), (T_BINANCE, ''expect token type binance''),
            (T_DATA, ''expect token type data''), (T_FEED, ''expect token type feed''),
            (T_LIVE, ''expect token type live''), (T_ORDERS, ''expect token type orders''),
            (T_ON, ''expect token type on''), (T_SYMBOL, ''expect token type symbol'')]
    (need T_NUMBER ''expect token type number'' (\<lambda>n.
     needs [(T_SYMBOL, ''expect token type symbol for binance'' @ newline)]
    (need T_STRING ''expect symbol to be a string'' (\<lambda>s.
     read_int (tk_value n) (\<lambda>sy.
     yields \<lparr>blo_tableSymbol = sy, blo_tradeSymbol = tk_value s\<rparr>)))))"

text \<open>
  \<open>LIST STRATEGY;\<close> prints the table of indicators, here the list of its entries in iteration order. After
  \<open>LIST TABLE\<close> the code has an empty block and throws as for any other word.
\<close>

definition indicator_line :: "string \<times> string \<Rightarrow> string" where
  "indicator_line = (\<lambda>(name, path).
     ''indicator '' @ CHR 0x1B # ''[1;32m'' @ name @ CHR 0x1B # ''[0m'' @ '' file path is '' @
     CHR 0x1B # ''[1;32m'' @ path @ CHR 0x1B # ''[0m'' @ newline)"

definition parse_list_statement :: "(string \<times> string) list \<Rightarrow> list_statement parse" where
  "parse_list_statement indicators p0 =
     needs [(T_LIST, ''expect key word list'')] (\<lambda>p.
       case match_token T_STRATEGY p of
         (True, p1) \<Rightarrow>
           needs [(T_SEMICOLON, ''epect token type semi colon at end'')]
             (yields \<lparr>ls_isStrategy = True, ls_message = concat (map indicator_line indicators)\<rparr>) p1
       | (False, p1) \<Rightarrow> Inl (Throw ''error expect either strategy or TABLE TABLE_NAME with LIST'')) (rewind p0)"

end
