(* ===== verification/SQL_Dispatch.thy ===== *)
theory SQL_Dispatch
  imports SQL_Parser
begin

text \<open>
  \<open>Parser::parse()\<close>: the dispatcher over the first token, the calls of the engine and what becomes of
  their exceptions, and \<open>execute_sql\<close> of \<open>db_engine.cpp\<close> on top of it. The engine is a parameter: a record
  of functions on a state \<open>'w\<close>, with one command for every function the parser calls.
\<close>

section \<open>The engine as the parser uses it\<close>

datatype db_call =
    Generate_insert insert_statement
  | Handle_update update_statement
  | Handle_delete delete_statement
  | Handle_select select_statement
  | Exec_statistics statistics_statement
  | Generate_create_table create_statement
  | Generate_hft_create create_statement
  | Generate_drop drop_statement
  | Create_file string string
  | Set_current_database string
  | Change_current_db string
  | Clear_caches
  | Initial_database_load
  | Memory_set string string int
  | Memory_get string
  | Parse_indicators file_statement
  | Parsing_add_indicator indicator_on_table
  | Parsing_fetch_indicator fetch_indicator_statement
  | Parse_strategy file_statement
  | Parsing_add_strategy strategy_on_table
  | Parse_enable_batch enable_statement
  | Handle_websocket web_socket_command
  | Update_api_keys string string
  | Handle_binance_order_book binance_order_book_statement
  | Handle_binance_live_orders binance_live_orders_statement
  | Handle_binance_ohlc binance_live_ohlc_statement

text \<open>\<open>bk_run\<close> gives the text the function returns, empty for a \<open>void\<close> function.\<close>

record 'w backend =
  bk_run :: "db_call \<Rightarrow> 'w \<Rightarrow> string result \<times> 'w"
  bk_check_table :: "string \<Rightarrow> 'w \<Rightarrow> (bool \<times> string) result"
  bk_file_exists :: "string \<Rightarrow> 'w \<Rightarrow> bool"
  bk_indicators :: "'w \<Rightarrow> (string \<times> string) list"

type_synonym 'w answer = "string result \<times> 'w"

definition success_json :: string where
  "success_json = ''{\"suceess\" : true}''"

definition error_json :: "string \<Rightarrow> string" where
  "error_json m = ''{\"success\": false, \"error\": \"'' @ CHR 0x1B # ''[31m'' @ m @ CHR 0x1B # ''[0m\"}''"

text \<open>\<open>try { ... } catch (const std::exception &err) { return <the error as JSON>; }\<close>\<close>

fun caught :: "'w answer \<Rightarrow> 'w answer" where
  "caught (Inl (Throw m), w) = (Inr (error_json m), w)"
| "caught a = a"

text \<open>Calls of the engine one after the other, then \<open>return r\<close>.\<close>

fun run_all :: "'w backend \<Rightarrow> db_call list \<Rightarrow> 'w \<Rightarrow> 'w answer" where
  "run_all bk [] w = (Inr success_json, w)"
| "run_all bk (c # cs) w =
     (case bk_run bk c w of
        (Inl e, w1) \<Rightarrow> (Inl e, w1)
      | (Inr _, w1) \<Rightarrow> run_all bk cs w1)"

text \<open>A statement is parsed, then executed.\<close>

definition then_run :: "('a \<times> parser) result \<Rightarrow> ('a \<Rightarrow> 'w \<Rightarrow> 'w answer) \<Rightarrow> 'w \<Rightarrow> 'w answer" where
  "then_run r k w = (case r of Inl e \<Rightarrow> (Inl e, w) | Inr (s, _) \<Rightarrow> k s w)"

section \<open>Statements with checks between parsing and execution\<close>

definition parse_insert_statement :: "'w backend \<Rightarrow> parser \<Rightarrow> 'w \<Rightarrow> 'w answer" where
  "parse_insert_statement bk p =
     then_run (parse_insert_syntax p) (\<lambda>stmt w.
       case bk_check_table bk (ins_table stmt) w of
         Inl e \<Rightarrow> (Inl e, w)
       | Inr (ok, msg) \<Rightarrow> if \<not> ok then (Inl (Throw msg), w) else run_all bk [Generate_insert stmt] w)"

definition database_file :: "string \<Rightarrow> string" where
  "database_file db = ''./db/'' @ db @ ''.shivam.db''"

definition database_json :: "string \<Rightarrow> string" where
  "database_json db =
     newline @ ''{'' @ newline @ ''  \"name\": \"'' @ db @ ''\",'' @ newline @ ''  \"tables\": []'' @ newline @
     ''}'' @ newline"

definition parse_use_statement :: "'w backend \<Rightarrow> parser \<Rightarrow> 'w \<Rightarrow> 'w answer" where
  "parse_use_statement bk p =
     then_run (parse_use_syntax p) (\<lambda>db w.
       if \<not> bk_file_exists bk (database_file db) w then (Inl (Throw (''Database does not exist: '' @ db)), w)
       else run_all bk [Clear_caches, Set_current_database db, Change_current_db db, Initial_database_load] w)"

definition parse_drop_statement :: "'w backend \<Rightarrow> parser \<Rightarrow> 'w \<Rightarrow> 'w answer" where
  "parse_drop_statement bk p =
     then_run (parse_drop_syntax p) (\<lambda>stmt.
       if drop_istable stmt then run_all bk [Generate_drop stmt]
       else run_all bk [Generate_drop stmt, Clear_caches, Change_current_db [], Set_current_database []])"

definition parse_create_statement :: "'w backend \<Rightarrow> parser \<Rightarrow> 'w \<Rightarrow> 'w answer" where
  "parse_create_statement bk p =
     then_run (parse_create_syntax p) (\<lambda>stmt w.
       if \<not> cr_isDatabase stmt then run_all bk [Generate_create_table stmt] w
       else if bk_file_exists bk (database_file (cr_name stmt)) w then (Inl (Throw ''Database already exists''), w)
       else run_all bk [Create_file (database_file (cr_name stmt)) (database_json (cr_name stmt)),
              Set_current_database (cr_name stmt), Change_current_db (cr_name stmt)] w)"

definition parse_memory :: "'w backend \<Rightarrow> parser \<Rightarrow> 'w \<Rightarrow> 'w answer" where
  "parse_memory bk p =
     (if (case peek 1 p of Some t \<Rightarrow> tk_type t = T_GET | None \<Rightarrow> False) then
        then_run (parse_get_memory_syntax p) (\<lambda>k. case k of None \<Rightarrow> run_all bk [] | Some key \<Rightarrow> run_all bk [Memory_get key])
      else
        then_run (parse_memory_syntax p) (\<lambda>(key, v, ttl). run_all bk [Memory_set key v ttl]))"

section \<open>The branches of parse()\<close>

text \<open>Each branch gets the parser after its keyword has been matched, as in the code.\<close>

definition rewinds :: "nat \<Rightarrow> parser \<Rightarrow> parser" where
  "rewinds n p = (rewind ^^ n) p"

definition branch_create :: "'w backend \<Rightarrow> parser \<Rightarrow> 'w \<Rightarrow> 'w answer" where
  "branch_create bk p w =
     (case match_token T_HFT p of
        (True, p1) \<Rightarrow> then_run (parse_hft_create_syntax (rewind p1)) (\<lambda>s. run_all bk [Generate_hft_create s]) w
      | (False, p1) \<Rightarrow> caught (parse_create_statement bk (rewind p1) w))"

text \<open>\<open>match(A) && match(B) && ...\<close>: what has matched stays consumed when a later one fails.\<close>

fun match_seq :: "token_type list \<Rightarrow> parser \<Rightarrow> bool \<times> parser" where
  "match_seq [] p = (True, p)"
| "match_seq (ty # tys) p = (case match_token ty p of (True, p1) \<Rightarrow> match_seq tys p1 | (False, p1) \<Rightarrow> (False, p1))"

definition branch_binance :: "'w backend \<Rightarrow> parser \<Rightarrow> 'w \<Rightarrow> 'w answer" where
  "branch_binance bk p w =
     (case match_token T_API_KEY p of
        (True, p1) \<Rightarrow>
          then_run (parse_binance_api_key (rewinds 3 p1)) (\<lambda>s. run_all bk [Update_api_keys ''binance'' (bak_key s)]) w
      | (False, p1) \<Rightarrow>
     (case match_token T_ORDER_BOOK p1 of
        (True, p2) \<Rightarrow>
          then_run (parse_binance_order_book (rewinds 3 p2)) (\<lambda>s. run_all bk [Handle_binance_order_book s]) w
      | (False, p2) \<Rightarrow>
     (case match_seq [T_DATA, T_FEED, T_LIVE] p2 of
        (True, p3) \<Rightarrow>
          then_run (parse_binance_live_orders (rewinds 6 p3)) (\<lambda>s. run_all bk [Handle_binance_live_orders s]) w
      | (False, p3) \<Rightarrow>
     (case match_token T_OHLC p3 of
        (True, p4) \<Rightarrow>
          then_run (parse_binance_live_ohlc (rewinds 6 p4)) (\<lambda>s. run_all bk [Handle_binance_ohlc s]) w
      | (False, p4) \<Rightarrow> (Inr (error_json ''no such command exist''), w)))))"

definition branch_set :: "'w backend \<Rightarrow> parser \<Rightarrow> 'w \<Rightarrow> 'w answer" where
  "branch_set bk p w =
     (case match_token T_BINANCE p of
        (True, p1) \<Rightarrow> branch_binance bk p1 w
      | (False, p1) \<Rightarrow> (Inr (error_json ''no such command exist''), w))"

definition branch_statistics :: "'w backend \<Rightarrow> parser \<Rightarrow> 'w \<Rightarrow> 'w answer" where
  "branch_statistics bk p w =
     caught (then_run (parse_statistics_statement (rewind p)) (\<lambda>s. bk_run bk (Exec_statistics s)) w)"

definition branch_enable :: "'w backend \<Rightarrow> parser \<Rightarrow> 'w \<Rightarrow> 'w answer" where
  "branch_enable bk p w =
     (case match_token T_STRATEGY p of
        (True, p1) \<Rightarrow>
          then_run (parse_add_strategy_on_table (rewinds 2 p1)) (\<lambda>s. run_all bk [Parsing_add_strategy s]) w
      | (False, p1) \<Rightarrow>
          caught (then_run (parse_enable_statement (rewinds 2 p1)) (\<lambda>s. run_all bk [Parse_enable_batch s]) w))"

definition branch_list :: "'w backend \<Rightarrow> parser \<Rightarrow> 'w \<Rightarrow> 'w answer" where
  "branch_list bk p w =
     caught (then_run (parse_list_statement (bk_indicators bk w) p) (\<lambda>s w. (Inr (ls_message s), w)) w)"

text \<open>Without \<open>INDICATOR\<close> the branch has no \<open>return\<close>: control reaches the end of a function with a result.\<close>

definition branch_fetch :: "'w backend \<Rightarrow> parser \<Rightarrow> 'w \<Rightarrow> 'w answer" where
  "branch_fetch bk p w =
     (case match_token T_INDICATOR p of
        (True, p1) \<Rightarrow> then_run (parse_fetch_indicator (rewinds 2 p1)) (\<lambda>s. bk_run bk (Parsing_fetch_indicator s)) w
      | (False, p1) \<Rightarrow> (Inl (Undefined ''parse() ends without return''), w))"

definition branch_apply :: "'w backend \<Rightarrow> parser \<Rightarrow> 'w \<Rightarrow> 'w answer" where
  "branch_apply bk p w =
     then_run (parse_web_socket_command (rewind p)) (\<lambda>s. run_all bk [Handle_websocket s]) w"

definition branch_insert :: "'w backend \<Rightarrow> parser \<Rightarrow> 'w \<Rightarrow> 'w answer" where
  "branch_insert bk p w = caught (parse_insert_statement bk (rewind p) w)"

definition branch_select :: "'w backend \<Rightarrow> parser \<Rightarrow> 'w \<Rightarrow> 'w answer" where
  "branch_select bk p w =
     caught (then_run (parse_select_statement (rewind p)) (\<lambda>s. bk_run bk (Handle_select s)) w)"

definition branch_drop :: "'w backend \<Rightarrow> parser \<Rightarrow> 'w \<Rightarrow> 'w answer" where
  "branch_drop bk p w = caught (parse_drop_statement bk (rewind p) w)"

definition branch_use :: "'w backend \<Rightarrow> parser \<Rightarrow> 'w \<Rightarrow> 'w answer" where
  "branch_use bk p w = caught (parse_use_statement bk (rewind p) w)"

definition branch_delete :: "'w backend \<Rightarrow> parser \<Rightarrow> 'w \<Rightarrow> 'w answer" where
  "branch_delete bk p w =
     caught (then_run (parse_delete_syntax (rewind p)) (\<lambda>s. run_all bk [Handle_delete s]) w)"

definition branch_update :: "'w backend \<Rightarrow> parser \<Rightarrow> 'w \<Rightarrow> 'w answer" where
  "branch_update bk p w =
     caught (then_run (parse_update_statement (rewind p)) (\<lambda>s. run_all bk [Handle_update s]) w)"

definition branch_memory :: "'w backend \<Rightarrow> parser \<Rightarrow> 'w \<Rightarrow> 'w answer" where
  "branch_memory bk p w = caught (parse_memory bk (rewind p) w)"

definition branch_add :: "'w backend \<Rightarrow> parser \<Rightarrow> 'w \<Rightarrow> 'w answer" where
  "branch_add bk p w =
     (case match_token T_INDICATOR p of
        (True, p1) \<Rightarrow>
          then_run (parse_add_indicator_on_table (rewinds 2 p1)) (\<lambda>s. run_all bk [Parsing_add_indicator s]) w
      | (False, p1) \<Rightarrow>
     (case match_token T_STRATEGY p1 of
        (True, p2) \<Rightarrow> then_run (parse_add_hft_strategy (rewinds 2 p2)) (\<lambda>s. run_all bk [Parse_strategy s]) w
      | (False, p2) \<Rightarrow>
          caught (then_run (parse_add_hft_indicator (rewinds 2 p2)) (\<lambda>s. run_all bk [Parse_indicators s]) w)))"

section \<open>parse()\<close>

text \<open>The chain of \<open>if (match(...)) ... else if (match(...))\<close>, in the order of the code.\<close>

type_synonym 'w branch = "token_type \<times> ('w backend \<Rightarrow> parser \<Rightarrow> 'w \<Rightarrow> 'w answer)"

definition branches :: "'w branch list" where
  "branches =
    [(T_CREATE, branch_create), (T_SET, branch_set), (T_STATISTICS, branch_statistics),
     (T_ENABLE, branch_enable), (T_LIST, branch_list), (T_FETCH, branch_fetch), (T_APPLY, branch_apply),
     (T_INSERT, branch_insert), (T_SELECT, branch_select), (T_DROP, branch_drop), (T_USE, branch_use),
     (T_DELETE, branch_delete), (T_UPDATE, branch_update), (T_MEMORY, branch_memory), (T_ADD, branch_add)]"

definition unsupported :: string where
  "unsupported =
     ''Unsupported SQL statement or missing statement type (CREATE, INSERT, SELECT, DROP, USE, MEMORY)''"

fun dispatch :: "'w backend \<Rightarrow> 'w branch list \<Rightarrow> parser \<Rightarrow> 'w \<Rightarrow> 'w answer" where
  "dispatch bk [] p w = (Inl (Throw unsupported), w)"
| "dispatch bk ((ty, branch) # bs) p w =
     (case match_token ty p of
        (True, p1) \<Rightarrow> branch bk p1 w
      | (False, p1) \<Rightarrow> dispatch bk bs p1 w)"

definition parse :: "'w backend \<Rightarrow> parser \<Rightarrow> 'w \<Rightarrow> 'w answer" where
  "parse bk p w = dispatch bk branches p w"

text \<open>
  \<open>execute_sql\<close>: lexer, parser and a handler for everything that is a \<open>std::exception\<close>. \<open>db\<close> is the current
  database the constructor of the parser has read. The result is the text or the null pointer (\<open>None\<close>)
  together with the new \<open>last_error\<close>; \<open>strcpy\<close> stops at a zero byte.
\<close>

definition run_sql :: "'w backend \<Rightarrow> string \<Rightarrow> string \<Rightarrow> 'w \<Rightarrow> 'w answer" where
  "run_sql bk db src w =
     (case tokenize src of
        Inl e \<Rightarrow> (Inl e, w)
      | Inr toks \<Rightarrow> parse bk (mk_parser db toks) w)"

definition execute_sql :: "'w backend \<Rightarrow> string \<Rightarrow> string \<Rightarrow> string \<Rightarrow> 'w \<Rightarrow>
    (string option \<times> string) result \<times> 'w" where
  "execute_sql bk db last_error src w =
     (case run_sql bk db src w of
        (Inr out, w1) \<Rightarrow> (Inr (Some (takeWhile (\<lambda>c. c \<noteq> NUL) out), last_error), w1)
      | (Inl (Throw m), w1) \<Rightarrow> (Inr (None, m), w1)
      | (Inl e, w1) \<Rightarrow> (Inl e, w1))"

end
