(* ===== verification/Parse_Safety.thy ===== *)
theory Parse_Safety
  imports SQL_Dispatch
begin

text \<open>
  What every parse function keeps: on a token vector that ends with \<open>END_OF_FILE\<close> it neither follows a
  null \<open>Token *\<close> nor runs out of fuel, it only moves forward, and it leaves the end of the vector in place.
  The rules below are syntax directed, one per combinator; each statement is then one application of them.
\<close>

section \<open>The contract\<close>

definition live :: "parser \<Rightarrow> bool" where
  "live p \<longleftrightarrow> ps_rest p \<noteq> [] \<and> tk_type (last (ps_rest p)) = T_END_OF_FILE"

text \<open>A number token that \<open>from_chars\<close> cannot store.\<close>

definition too_big :: "token \<Rightarrow> bool" where
  "too_big t \<longleftrightarrow> tk_type t = T_NUMBER \<and> from_chars (tk_value t) = None"

definition benign :: "token set \<Rightarrow> fault \<Rightarrow> bool" where
  "benign N e \<longleftrightarrow> (\<exists>m. e = Throw m) \<or> e = Undefined ''uninitialised int64_t'' \<and> (\<exists>t \<in> N. too_big t)"

text \<open>
  \<open>ran N m Q r\<close>: a parse function ended in a benign fault, or with a result that satisfies \<open>Q\<close> and a live
  parser over tokens of \<open>N\<close> with at most \<open>m\<close> tokens left. \<open>runs N k f Q\<close>: from every live parser over tokens
  of \<open>N\<close>, \<open>f\<close> ends that way and consumes at least \<open>k\<close> tokens.
\<close>

definition ran :: "token set \<Rightarrow> nat \<Rightarrow> ('a \<Rightarrow> bool) \<Rightarrow> ('a \<times> parser) result \<Rightarrow> bool" where
  "ran N m Q r \<longleftrightarrow> (case r of Inl e \<Rightarrow> benign N e
     | Inr (x, p) \<Rightarrow> Q x \<and> live p \<and> set (ps_rest p) \<subseteq> N \<and> length (ps_rest p) \<le> m)"

definition runs :: "token set \<Rightarrow> nat \<Rightarrow> 'a parse \<Rightarrow> ('a \<Rightarrow> bool) \<Rightarrow> bool" where
  "runs N k f Q \<longleftrightarrow> (\<forall>p m. live p \<longrightarrow> set (ps_rest p) \<subseteq> N \<longrightarrow> length (ps_rest p) \<le> m + k \<longrightarrow> ran N m Q (f p))"

lemma benign_Throw [simp, intro]: "benign N (Throw m)"
  by (simp add: benign_def)

lemma ran_simps [simp]:
  "ran N m Q (Inl e) = benign N e"
  "ran N m Q (Inr (x, p)) = (Q x \<and> live p \<and> set (ps_rest p) \<subseteq> N \<and> length (ps_rest p) \<le> m)"
  by (simp_all add: ran_def)

lemma ran_bind:
  assumes "ran N m1 R r"
    and "\<And>x p1. R x \<Longrightarrow> live p1 \<Longrightarrow> set (ps_rest p1) \<subseteq> N \<Longrightarrow> length (ps_rest p1) \<le> m1 \<Longrightarrow> ran N m Q (g x p1)"
  shows "ran N m Q (bindE r (\<lambda>(x, p1). g x p1))"
  using assms by (cases r) (auto simp: ran_def)

lemma ran_weaken: "ran N m Q r \<Longrightarrow> m \<le> m' \<Longrightarrow> (\<And>x. Q x \<Longrightarrow> R x) \<Longrightarrow> ran N m' R r"
  unfolding ran_def by (auto split: sum.splits)

lemma runsI:
  assumes "\<And>p m. live p \<Longrightarrow> set (ps_rest p) \<subseteq> N \<Longrightarrow> length (ps_rest p) \<le> m + k \<Longrightarrow> ran N m Q (f p)"
  shows "runs N k f Q"
  using assms by (simp add: runs_def)

lemma runsD: "runs N k f Q \<Longrightarrow> live p \<Longrightarrow> set (ps_rest p) \<subseteq> N \<Longrightarrow> length (ps_rest p) \<le> m + k \<Longrightarrow> ran N m Q (f p)"
  by (simp add: runs_def)

lemma runs_weaken:
  assumes "runs N k f Q" and "j \<le> k" and "\<And>x. Q x \<Longrightarrow> R x"
  shows "runs N j f R"
proof (rule runsI)
  fix p m assume "live p" "set (ps_rest p) \<subseteq> N" "length (ps_rest p) \<le> m + j"
  then have "ran N m Q (f p)" using assms(2) by (intro runsD [OF assms(1)]) auto
  then show "ran N m R (f p)" by (rule ran_weaken) (use assms(3) in auto)
qed

lemma live_length: "live p \<Longrightarrow> 0 < length (ps_rest p)"
  by (simp add: live_def)

section \<open>The cursor\<close>

lemma match_token_cases:
  obtains (yes) t ts where "ps_rest p = t # ts" "tk_type t = ty"
      "match_token ty p = (True, p\<lparr>ps_back := t # ps_back p, ps_rest := ts\<rparr>)"
  | (no) "match_token ty p = (False, p)" "\<And>t ts. ps_rest p = t # ts \<Longrightarrow> tk_type t \<noteq> ty"
  by (cases "ps_rest p") (auto simp: match_token_def peek_def advance_token_def step_def Let_def split: if_splits)

text \<open>One step over a token that is not the last.\<close>

lemma live_step:
  assumes "live p" and "ps_rest p = t # ts" and "tk_type t \<noteq> T_END_OF_FILE"
  shows "live (p\<lparr>ps_back := b, ps_rest := ts\<rparr>)"
  using assms by (cases ts) (auto simp: live_def)

lemma live_peek: "live p \<Longrightarrow> \<exists>t. peek 0 p = Some t \<and> t \<in> set (ps_rest p)"
  by (cases "ps_rest p") (auto simp: live_def peek_def)

text \<open>The rule for a test with \<open>match\<close>.\<close>

lemma ran_match:
  assumes "live p" and "set (ps_rest p) \<subseteq> N" and "ty \<noteq> T_END_OF_FILE"
    and "\<And>t p1. live p1 \<Longrightarrow> set (ps_rest p1) \<subseteq> N \<Longrightarrow> Suc (length (ps_rest p1)) = length (ps_rest p) \<Longrightarrow>
        previous p1 = Some t \<Longrightarrow> t \<in> N \<Longrightarrow> tk_type t = ty \<Longrightarrow> ran N m Q (f p1)"
    and "ran N m Q (g p)"
  shows "ran N m Q (case match_token ty p of (True, p1) \<Rightarrow> f p1 | (False, p1) \<Rightarrow> g p1)"
proof (cases rule: match_token_cases [of p ty])
  case (yes t ts)
  have "live (p\<lparr>ps_back := t # ps_back p, ps_rest := ts\<rparr>)"
    by (rule live_step [OF assms(1) yes(1)]) (use yes(2) assms(3) in simp)
  then have "ran N m Q (f (p\<lparr>ps_back := t # ps_back p, ps_rest := ts\<rparr>))"
    by (rule assms(4)) (use yes(1,2) assms(2) in \<open>auto simp: previous_def\<close>)
  then show ?thesis using yes by simp
next
  case no
  then show ?thesis using assms by simp
qed

section \<open>Rules for the combinators\<close>

lemma runs_yields: "Q x \<Longrightarrow> runs N 0 (yields x) Q"
  by (rule runsI) (simp add: yields_def)

lemma runs_throws: "runs N k (throws m) Q"
  by (rule runsI) (simp add: throws_def)

lemma runs_fail: "runs N k (\<lambda>p. Inl (Throw m)) Q"
  by (rule runsI) simp

lemma runs_stay: "Q x \<Longrightarrow> runs N 0 (\<lambda>p. Inr (x, p)) Q"
  by (rule runsI) simp

lemma runs_match:
  assumes "ty \<noteq> T_END_OF_FILE" and "runs N k1 f Q" and "runs N k2 g Q" and "k \<le> Suc k1" and "k \<le> k2"
  shows "runs N k (\<lambda>p. case match_token ty p of (True, p1) \<Rightarrow> f p1 | (False, p1) \<Rightarrow> g p1) Q"
  by (rule runsI, rule ran_match [OF _ _ assms(1)])
    (use assms(4,5) in \<open>auto intro: runsD [OF assms(2)] runsD [OF assms(3)]\<close>)

lemma runs_match_deref:
  assumes "ty \<noteq> T_END_OF_FILE" and "\<And>t. t \<in> N \<Longrightarrow> tk_type t = ty \<Longrightarrow> runs N k1 (f t) Q" and "runs N k2 g Q"
    and "k \<le> Suc k1" "k \<le> k2"
  shows "runs N k (\<lambda>p. case match_token ty p of
      (True, p1) \<Rightarrow> bindE (deref (previous p1)) (\<lambda>t. f t p1) | (False, p1) \<Rightarrow> g p1) Q"
  by (rule runsI, rule ran_match [OF _ _ assms(1)])
    (use assms(4,5) in \<open>auto simp: deref_def intro: runsD [OF assms(2)] runsD [OF assms(3)]\<close>)

lemma runs_bindE:
  assumes "runs N k1 f R" and "\<And>x. R x \<Longrightarrow> runs N k2 (g x) Q" and "k \<le> k1 + k2"
  shows "runs N k (\<lambda>p. bindE (f p) (\<lambda>(x, p1). g x p1)) Q"
proof (rule runsI)
  fix p m assume p: "live p" "set (ps_rest p) \<subseteq> N" "length (ps_rest p) \<le> m + k"
  show "ran N m Q (bindE (f p) (\<lambda>(x, p1). g x p1))"
    by (rule ran_bind, rule runsD [OF assms(1) p(1,2), where m = "m + k2"])
      (use p(3) assms(3) in \<open>auto intro: runsD [OF assms(2)]\<close>)
qed

lemma runs_bindP: "runs N k1 f R \<Longrightarrow> (\<And>x. R x \<Longrightarrow> runs N k2 (g x) Q) \<Longrightarrow> k \<le> k1 + k2 \<Longrightarrow> runs N k (bindP f g) Q"
  unfolding bindP_def [abs_def] by (rule runs_bindE)

text \<open>\<open>peek(0)->...\<close>\<close>

lemma runs_peek:
  assumes "\<And>t. t \<in> N \<Longrightarrow> runs N k (f t) Q"
  shows "runs N k (\<lambda>p. bindE (deref (peek 0 p)) (\<lambda>t. f t p)) Q"
proof (rule runsI)
  fix p m assume p: "live p" "set (ps_rest p) \<subseteq> N" "length (ps_rest p) \<le> m + k"
  obtain t where t: "peek 0 p = Some t" "t \<in> N" using live_peek [OF p(1)] p(2) by auto
  show "ran N m Q (bindE (deref (peek 0 p)) (\<lambda>t. f t p))"
    using runsD [OF assms [OF t(2)] p] by (simp add: t(1) deref_def)
qed

lemma runs_expect:
  assumes "ty \<noteq> T_END_OF_FILE"
  shows "runs N 1 (expect ty msg) (\<lambda>t. t \<in> N \<and> tk_type t = ty)"
  unfolding expect_def [abs_def]
  by (rule runs_match_deref [OF assms, of N 0 "\<lambda>t p1. Inr (t, p1)" _ 1])
    (auto intro: runs_stay runs_fail)

lemma runs_need:
  assumes "ty \<noteq> T_END_OF_FILE" and "\<And>t. t \<in> N \<Longrightarrow> tk_type t = ty \<Longrightarrow> runs N k (f t) Q" and "j \<le> Suc k"
  shows "runs N j (need ty msg f) Q"
  unfolding need_def [abs_def]
  by (rule runs_bindE [where ?k2.0 = k, OF runs_expect [OF assms(1)]]) (use assms(2,3) in auto)

lemma runs_needs:
  assumes "T_END_OF_FILE \<notin> fst ` set es" and "runs N k f Q" and "j \<le> length es + k"
  shows "runs N j (needs es f) Q"
proof -
  have "runs N (length es + k) (needs es f) Q" using assms(1,2)
  proof (induction es)
    case (Cons e es)
    then show ?case by (cases e) (auto intro!: runs_need)
  qed simp
  then show ?thesis by (rule runs_weaken) (use assms(3) in auto)
qed

lemma runs_one_of:
  assumes "T_END_OF_FILE \<notin> set tys"
  shows "runs N 1 (one_of tys msg) (\<lambda>t. t \<in> N \<and> tk_type t \<in> set tys)"
  using assms
proof (induction tys)
  case Nil
  show ?case by (rule runsI) (simp add: one_of_def)
next
  case (Cons ty tys)
  have ty: "ty \<noteq> T_END_OF_FILE" and IH: "runs N 1 (one_of tys msg) (\<lambda>t. t \<in> N \<and> tk_type t \<in> set (ty # tys))"
    using Cons by (auto intro: runs_weaken)
  have eq: "one_of (ty # tys) msg = (\<lambda>p. case match_token ty p of
      (True, p1) \<Rightarrow> bindE (deref (previous p1)) (\<lambda>t. Inr (t, p1)) | (False, p1) \<Rightarrow> one_of tys msg p1)"
    by (auto simp: one_of_def fun_eq_iff split: prod.splits bool.splits)
  show ?case unfolding eq
    by (rule runs_match_deref [OF ty, of N 0 "\<lambda>t p1. Inr (t, p1)" _ 1]) (use IH in \<open>auto intro: runs_stay\<close>)
qed

text \<open>The two loops.\<close>

lemma ran_comma_rounds:
  assumes "runs N 1 item R" and "list_all R acc" and "live p" and "set (ps_rest p) \<subseteq> N" and "length (ps_rest p) < n"
    and "length (ps_rest p) \<le> Suc m"
  shows "ran N m (list_all R) (comma_rounds n item acc p)"
  using assms(2-)
proof (induction n arbitrary: acc p m)
  case (Suc n)
  have it: "ran N m R (item p)" by (rule runsD [OF assms(1)]) (use Suc.prems in auto)
  have less: "ran N (length (ps_rest p) - 1) R (item p)" by (rule runsD [OF assms(1)]) (use Suc.prems in auto)
  show ?case unfolding comma_rounds.simps
  proof (rule ran_bind [OF less])
    fix x p1 assume x: "R x" and p1: "live p1" "set (ps_rest p1) \<subseteq> N" "length (ps_rest p1) \<le> length (ps_rest p) - 1"
    have acc: "list_all R (acc @ [x])" using x Suc.prems(1) by simp
    show "ran N m (list_all R) (case match_token T_COMMA p1 of
          (True, p2) \<Rightarrow> comma_rounds n item (acc @ [x]) p2 | (False, p2) \<Rightarrow> Inr (acc @ [x], p2))"
      by (rule ran_match [OF p1(1,2)]) (use acc p1 Suc.prems in \<open>auto intro!: Suc.IH\<close>)
  qed
qed simp

lemma runs_comma_loop: "runs N 1 item R \<Longrightarrow> runs N 1 (comma_loop item) (list_all R)"
  unfolding comma_loop_def [abs_def] by (rule runsI, rule ran_comma_rounds) auto

lemma ran_close_rounds:
  assumes "runs N 1 body R" and "list_all R acc" and "live p" and "set (ps_rest p) \<subseteq> N" and "length (ps_rest p) < n"
    and "length (ps_rest p) \<le> Suc m"
  shows "ran N m (list_all R) (close_rounds n body acc p)"
  using assms(2-)
proof (induction n arbitrary: acc p m)
  case (Suc n)
  have less: "ran N (length (ps_rest p) - 1) R (body p)" by (rule runsD [OF assms(1)]) (use Suc.prems in auto)
  show ?case unfolding close_rounds.simps
  proof (rule ran_match [OF Suc.prems(2,3)])
    show "ran N m (list_all R) (bindE (body p) (\<lambda>(x, p2). close_rounds n body (acc @ [x]) p2))"
    proof (rule ran_bind [OF less])
      fix x p2 assume "R x" "live p2" "set (ps_rest p2) \<subseteq> N" "length (ps_rest p2) \<le> length (ps_rest p) - 1"
      moreover have "0 < length (ps_rest p)" by (rule live_length [OF Suc.prems(2)])
      moreover have "length (ps_rest p2) < n" "length (ps_rest p2) \<le> Suc m"
        using calculation Suc.prems(4,5) by linarith+
      ultimately show "ran N m (list_all R) (close_rounds n body (acc @ [x]) p2)"
        by (intro Suc.IH) (use Suc.prems(1) in auto)
    qed
  qed (use Suc.prems in auto)
qed simp

lemma runs_close_loop: "runs N 1 body R \<Longrightarrow> runs N 1 (close_loop body) (list_all R)"
  unfolding close_loop_def [abs_def] by (rule runsI, rule ran_close_rounds) auto

section \<open>Expressions\<close>

text \<open>The lexer only makes number tokens that start with a digit, so \<open>stoi\<close> of one is not negative.\<close>

definition numbers :: "token set \<Rightarrow> bool" where
  "numbers N \<longleftrightarrow> (\<forall>t \<in> N. tk_type t = T_NUMBER \<longrightarrow> number_text (tk_value t))"

lemma stoi_number_text:
  assumes "number_text v"
  shows "(\<exists>n. stoi v = Inr n \<and> 0 \<le> n \<and> n \<le> INT32_MAX) \<or> stoi v = Inl (Throw ''stoi'')"
proof -
  obtain ds es where d: "ds \<noteq> []" "list_all is_digit ds" "v = ds \<or> v = ds @ CHR ''.'' # es"
    using assms by (auto simp: number_text_def)
  have "\<not> is_digit CHR ''.''" by (simp add: is_digit_def)
  then obtain r where "v = ds @ r" "r = [] \<or> \<not> is_digit (hd r)" using d(3) by auto
  then show ?thesis
    using sto_range_number [OF d(1,2), of r] digits_value_nonneg [OF d(2)] by (simp add: stoi_def int_limits)
qed

lemma ran_leaf:
  assumes "numbers N" and "live p" "set (ps_rest p) \<subseteq> N" "length (ps_rest p) \<le> Suc m"
  shows "ran N m (\<lambda>e. expr_ok e \<and> is_primary e) (parse_leaf p)"
  unfolding parse_leaf_def
proof (rule ran_match [OF assms(2,3)], goal_cases)
  case (2 t p1)
  then show ?case using assms(4) by (auto simp: deref_def)
next
  case 3
  show ?case
  proof (rule ran_match [OF assms(2,3)], goal_cases)
    case (2 t p1)
    then have "number_text (tk_value t)" using assms(1) by (auto simp: numbers_def)
    then show ?case using 2 assms(4) stoi_number_text [of "tk_value t"] by (auto simp: deref_def)
  next
    case 3
    show ?case by (rule ran_match [OF assms(2,3)]) (use assms(4) in \<open>auto simp: deref_def\<close>)
  qed simp
qed simp

lemma ran_one_of_rule:
  assumes "live p" "set (ps_rest p) \<subseteq> N" and "T_END_OF_FILE \<notin> set tys"
    and "\<And>t p1. live p1 \<Longrightarrow> set (ps_rest p1) \<subseteq> N \<Longrightarrow> Suc (length (ps_rest p1)) = length (ps_rest p) \<Longrightarrow>
        previous p1 = Some t \<Longrightarrow> t \<in> N \<Longrightarrow> tk_type t \<in> set tys \<Longrightarrow> ran N m Q (f p1)"
    and "ran N m Q (g p)"
  shows "ran N m Q (case match_any tys p of (True, p1) \<Rightarrow> f p1 | (False, p1) \<Rightarrow> g p1)"
  using assms(3,4)
proof (induction tys)
  case Nil
  then show ?case using assms(5) by simp
next
  case (Cons ty tys)
  have "ran N m Q (case match_token ty p of (True, p1) \<Rightarrow> f p1
      | (False, p1) \<Rightarrow> (case match_any tys p1 of (True, p1) \<Rightarrow> f p1 | (False, p1) \<Rightarrow> g p1))"
    by (rule ran_match [OF assms(1,2)]) (use Cons in auto)
  then show ?case by (simp split: prod.splits bool.splits)
qed

lemma comparison_of_tokens: "ty \<in> set comparison_tokens \<Longrightarrow> \<exists>c. comparison_of ty = Inr c"
  by (auto simp: comparison_tokens_def comparison_of_def)

lemma ran_expr:
  assumes "numbers N"
  shows "(\<forall>p m. live p \<longrightarrow> set (ps_rest p) \<subseteq> N \<longrightarrow> 4 * length (ps_rest p) + 4 \<le> n \<longrightarrow> length (ps_rest p) \<le> Suc m \<longrightarrow>
        ran N m expr_ok (parse_logical n p)) \<and>
    (\<forall>p m l. live p \<longrightarrow> set (ps_rest p) \<subseteq> N \<longrightarrow> 4 * length (ps_rest p) + 3 \<le> n \<longrightarrow> length (ps_rest p) \<le> m \<longrightarrow>
        expr_ok l \<longrightarrow> ran N m expr_ok (logical_loop n l p)) \<and>
    (\<forall>p m. live p \<longrightarrow> set (ps_rest p) \<subseteq> N \<longrightarrow> 4 * length (ps_rest p) + 2 \<le> n \<longrightarrow> length (ps_rest p) \<le> Suc m \<longrightarrow>
        ran N m (\<lambda>e. expr_ok e \<and> is_comparison e) (parse_comparison n p)) \<and>
    (\<forall>p m. live p \<longrightarrow> set (ps_rest p) \<subseteq> N \<longrightarrow> 4 * length (ps_rest p) + 1 \<le> n \<longrightarrow> length (ps_rest p) \<le> Suc m \<longrightarrow>
        ran N m (\<lambda>e. expr_ok e \<and> is_primary e) (parse_primary n p))"
proof (induction n)
  case (Suc n)
  note lg = Suc.IH [THEN conjunct1, rule_format]
  note lp = Suc.IH [THEN conjunct2, THEN conjunct1, rule_format]
  note cm = Suc.IH [THEN conjunct2, THEN conjunct2, THEN conjunct1, rule_format]
  note pr = Suc.IH [THEN conjunct2, THEN conjunct2, THEN conjunct2, rule_format]
  show ?case
  proof (intro conjI allI impI)
    fix p m assume p: "live p" "set (ps_rest p) \<subseteq> N" "4 * length (ps_rest p) + 4 \<le> Suc n" "length (ps_rest p) \<le> Suc m"
    show "ran N m expr_ok (parse_logical (Suc n) p)" unfolding parse_logical.simps
      by (rule ran_bind [OF cm [OF p(1,2), of "length (ps_rest p) - 1"]]) (use p in \<open>auto intro!: lp\<close>)
  next
    fix p m l assume p: "live p" "set (ps_rest p) \<subseteq> N" "4 * length (ps_rest p) + 3 \<le> Suc n" "length (ps_rest p) \<le> m" "expr_ok l"
    show "ran N m expr_ok (logical_loop (Suc n) l p)" unfolding logical_loop.simps
    proof (rule ran_one_of_rule [OF p(1,2)], goal_cases)
      case (2 t p1)
      have "ran N (length (ps_rest p1) - 1) (\<lambda>e. expr_ok e \<and> is_comparison e) (parse_comparison n p1)"
        using 2 p by (intro cm) auto
      then have "ran N m expr_ok (bindE (parse_comparison n p1)
          (\<lambda>(r, p2). logical_loop n (Logical l (logical_of (tk_type t)) r) p2))"
        by (rule ran_bind) (use 2 p in \<open>auto intro!: lp\<close>)
      then show ?case using 2(4) by (simp add: deref_def)
    qed (use p in auto)
  next
    fix p m assume p: "live p" "set (ps_rest p) \<subseteq> N" "4 * length (ps_rest p) + 2 \<le> Suc n" "length (ps_rest p) \<le> Suc m"
    have "ran N (length (ps_rest p) - 1) (\<lambda>e. expr_ok e \<and> is_primary e) (parse_primary n p)" using p by (intro pr) auto
    then show "ran N m (\<lambda>e. expr_ok e \<and> is_comparison e) (parse_comparison (Suc n) p)"
      unfolding parse_comparison.simps
    proof (rule ran_bind)
      fix l p1 assume l: "expr_ok l \<and> is_primary l" and p1: "live p1" "set (ps_rest p1) \<subseteq> N"
        "length (ps_rest p1) \<le> length (ps_rest p) - 1"
      show "ran N m (\<lambda>e. expr_ok e \<and> is_comparison e) (case match_any comparison_tokens p1 of
         (True, p2) \<Rightarrow> bindE (deref (previous p2)) (\<lambda>t. bindE (comparison_of (tk_type t)) (\<lambda>c.
               bindE (parse_primary n p2) (\<lambda>(r, p3). Inr (Comparison l c r, p3))))
       | (False, p2) \<Rightarrow> Inr (l, p2))"
      proof (rule ran_one_of_rule [OF p1(1,2)], goal_cases)
        case 1
        show ?case by (simp add: comparison_tokens_def)
      next
        case (2 t p2)
        obtain c where c: "comparison_of (tk_type t) = Inr c" using comparison_of_tokens [OF 2(6)] by blast
        have "ran N m (\<lambda>e. expr_ok e \<and> is_primary e) (parse_primary n p2)" using 2 p p1 by (intro pr) auto
        then have "ran N m (\<lambda>e. expr_ok e \<and> is_comparison e) (bindE (parse_primary n p2) (\<lambda>(r, p3). Inr (Comparison l c r, p3)))"
          by (rule ran_bind) (use l in auto)
        then show ?case using 2(4) c by (simp add: deref_def)
      next
        case 3
        then show ?case using l p1 p by (auto simp: primary_is_comparison)
      qed
    qed
  next
    fix p m assume p: "live p" "set (ps_rest p) \<subseteq> N" "4 * length (ps_rest p) + 1 \<le> Suc n" "length (ps_rest p) \<le> Suc m"
    show "ran N m (\<lambda>e. expr_ok e \<and> is_primary e) (parse_primary (Suc n) p)" unfolding parse_primary.simps
    proof (rule ran_match [OF p(1,2)], goal_cases)
      case (2 t p1)
      have "ran N (length (ps_rest p1) - 1) expr_ok (parse_logical n p1)" using 2 p by (intro lg) auto
      then show ?case
      proof (rule ran_bind)
        fix e p2 assume e: "expr_ok e" and p2: "live p2" "set (ps_rest p2) \<subseteq> N" "length (ps_rest p2) \<le> length (ps_rest p1) - 1"
        have "ran N m (\<lambda>t. t \<in> N \<and> tk_type t = T_CLOSE_PAREN) (expect T_CLOSE_PAREN (''Expected '' @ quoted '')'') p2)"
          by (rule runsD [OF runs_expect]) (use p2 2 p in auto)
        then show "ran N m (\<lambda>e. expr_ok e \<and> is_primary e)
           (bindE (expect T_CLOSE_PAREN (''Expected '' @ quoted '')'') p2) (\<lambda>(_, p3). Inr (Paren e, p3)))"
          by (rule ran_bind) (use e in auto)
      qed
    qed (use p ran_leaf [OF assms] in auto)
  qed
qed (auto simp: live_def)

lemma runs_parse_expression: "numbers N \<Longrightarrow> runs N 1 parse_expression expr_ok"
  unfolding parse_expression_def [abs_def] by (rule runsI) (use ran_expr in \<open>auto\<close>)

section \<open>Statements\<close>

definition any :: "'a \<Rightarrow> bool" where
  "any x = True"

lemma anyI [intro!]: "any x"
  by (simp add: any_def)

text \<open>The rules at \<open>k = 0\<close>, with which the body of a statement is taken apart.\<close>

lemma runs0: "runs N 1 f Q \<Longrightarrow> runs N 0 f Q"
  by (erule runs_weaken) auto

lemma runs0_need:
  "ty \<noteq> T_END_OF_FILE \<Longrightarrow> (\<And>t. t \<in> N \<and> tk_type t = ty \<Longrightarrow> runs N 0 (f t) Q) \<Longrightarrow> runs N 0 (need ty msg f) Q"
  by (rule runs_need) auto

lemma runs1_need:
  "ty \<noteq> T_END_OF_FILE \<Longrightarrow> (\<And>t. t \<in> N \<and> tk_type t = ty \<Longrightarrow> runs N 0 (f t) Q) \<Longrightarrow> runs N 1 (need ty msg f) Q"
  by (rule runs_need) auto

lemma runs0_needs:
  "T_END_OF_FILE \<notin> fst ` set es \<Longrightarrow> runs N 0 f Q \<Longrightarrow> runs N 0 (needs es f) Q"
  by (rule runs_needs) auto

lemma runs1_needs:
  "T_END_OF_FILE \<notin> fst ` set (e # es) \<Longrightarrow> runs N 0 f Q \<Longrightarrow> runs N 1 (needs (e # es) f) Q"
  by (rule runs_needs) auto

lemma runs0_bindP:
  "runs N 0 f R \<Longrightarrow> (\<And>x. R x \<Longrightarrow> runs N 0 (g x) Q) \<Longrightarrow> runs N 0 (bindP f g) Q"
  by (rule runs_bindP [where ?k1.0 = 0 and ?k2.0 = 0 and R = R]) auto

lemma runs1_bindP:
  "runs N 1 f R \<Longrightarrow> (\<And>x. R x \<Longrightarrow> runs N 0 (g x) Q) \<Longrightarrow> runs N 1 (bindP f g) Q"
  by (rule runs_bindP [where ?k1.0 = 1 and ?k2.0 = 0 and R = R]) auto

lemma runs0_match:
  "ty \<noteq> T_END_OF_FILE \<Longrightarrow> runs N 0 f Q \<Longrightarrow> runs N 0 g Q \<Longrightarrow>
    runs N 0 (\<lambda>p. case match_token ty p of (True, p1) \<Rightarrow> f p1 | (False, p1) \<Rightarrow> g p1) Q"
  by (rule runs_match) auto

lemma runs0_match_deref:
  "ty \<noteq> T_END_OF_FILE \<Longrightarrow> (\<And>t. t \<in> N \<and> tk_type t = ty \<Longrightarrow> runs N 0 (f t) Q) \<Longrightarrow> runs N 0 g Q \<Longrightarrow>
    runs N 0 (\<lambda>p. case match_token ty p of
      (True, p1) \<Rightarrow> bindE (deref (previous p1)) (\<lambda>t. f t p1) | (False, p1) \<Rightarrow> g p1) Q"
  by (rule runs_match_deref) auto

lemma runs0_one_of: "T_END_OF_FILE \<notin> set tys \<Longrightarrow> runs N 0 (one_of tys msg) (\<lambda>t. t \<in> N \<and> tk_type t \<in> set tys)"
  by (rule runs0 [OF runs_one_of])

lemma runs_no_database: "runs N k f Q \<Longrightarrow> runs N k (no_database f) Q"
  by (rule runsI) (auto simp: no_database_def dest: runsD)

lemma runs_if: "(b \<Longrightarrow> runs N k f Q) \<Longrightarrow> (\<not> b \<Longrightarrow> runs N k g Q) \<Longrightarrow> runs N k (if b then f else g) Q"
  by auto

lemma runs_lift: "(\<And>m. r \<noteq> Inl (Undefined m) \<and> r \<noteq> Inl Out_of_fuel) \<Longrightarrow> (\<And>x. r = Inr x \<Longrightarrow> runs N k (f x) Q) \<Longrightarrow>
    runs N k (\<lambda>p. bindE r (\<lambda>x. f x p)) Q"
  by (rule runsI, cases r, rename_tac e, case_tac e) (auto dest: runsD)

lemma stoi_faults: "stoi s \<noteq> Inl (Undefined m) \<and> stoi s \<noteq> Inl Out_of_fuel"
  by (simp add: stoi_def sto_range_def split: option.split)

lemma runs_stoi: "(\<And>x. runs N k (f x) Q) \<Longrightarrow> runs N k (\<lambda>p. bindE (stoi s) (\<lambda>x. f x p)) Q"
  by (rule runs_lift [OF stoi_faults])

lemma runs0_need_int: "(\<And>n. runs N 0 (f n) Q) \<Longrightarrow> runs N 0 (need_int msg f) Q"
  unfolding need_int_def by (intro runs0_need runs_stoi) auto

lemma runs0_read_int:
  "t \<in> N \<and> tk_type t = T_NUMBER \<Longrightarrow> (\<And>n. runs N 0 (f n) Q) \<Longrightarrow> runs N 0 (read_int (tk_value t) f) Q"
  by (rule runsI) (auto simp: read_int_def benign_def too_big_def split: option.split intro: runsD [where k = 0])

lemmas runs_intros = anyI runs_yields runs_throws runs_fail runs_stay runs_no_database runs_if runs_stoi
  runs0_need runs1_need runs0_needs runs1_needs runs0_bindP runs1_bindP runs0_match runs0_one_of
  runs0_need_int runs0_read_int

lemma runs_optional_where: "numbers N \<Longrightarrow> runs N 0 optional_where (\<lambda>c. case c of None \<Rightarrow> True | Some e \<Rightarrow> expr_ok e)"
  unfolding optional_where_def [abs_def]
  by (rule runs0_match) (auto intro!: runs_stay runs_bindE [OF runs_parse_expression])

lemma runs_ident_item: "runs N 1 ident_item any"
  unfolding ident_item_def by (rule runs_intros | simp)+

lemma runs_value_item: "runs N 1 value_item any"
  unfolding value_item_def by (rule runs_intros runs_one_of | simp)+

lemma runs_assignment_item: "runs N 1 assignment_item any"
  unfolding assignment_item_def by (rule runs_intros | simp)+

lemma runs_column_end: "runs N 0 column_end any"
  unfolding column_end_def [abs_def]
proof (rule runs0_match, goal_cases)
  case 3
  show ?case by (rule runs_peek) (auto simp: runs_def)
qed (auto intro: runs_stay)

lemma ran_constraint_rounds:
  assumes "live p" and "set (ps_rest p) \<subseteq> N" and "length (ps_rest p) < n" and "length (ps_rest p) \<le> m"
  shows "ran N m any (constraint_rounds n acc p)"
  using assms
proof (induction n arbitrary: acc p m)
  case (Suc n)
  note p = Suc.prems(1,2)
  have need: "ran N m any (need ty msg (\<lambda>_. constraint_rounds n acc') p1)"
    if "ty \<noteq> T_END_OF_FILE" "live p1" "set (ps_rest p1) \<subseteq> N" "Suc (length (ps_rest p1)) = length (ps_rest p)"
    for ty msg acc' p1
  proof -
    have "ran N (length (ps_rest p1) - 1) (\<lambda>t. t \<in> N \<and> tk_type t = ty) (expect ty msg p1)"
      by (rule runsD [OF runs_expect]) (use that in auto)
    then show ?thesis unfolding need_def by (rule ran_bind) (rule Suc.IH; use that Suc.prems in auto)
  qed
  show ?case unfolding constraint_rounds.simps
  proof (rule ran_match [OF p], goal_cases)
    case 3
    show ?case
    proof (rule ran_match [OF p], goal_cases)
      case 3
      show ?case
      proof (rule ran_match [OF p], goal_cases)
        case 3
        show ?case by (rule ran_match [OF p]) (use Suc.prems in \<open>auto intro!: Suc.IH\<close>)
      qed (use Suc.prems in \<open>auto intro!: Suc.IH\<close>)
    qed (use need in auto)
  qed (use need in auto)
qed simp

lemma runs_constraint_loop: "runs N 0 constraint_loop any"
  unfolding constraint_loop_def [abs_def] by (rule runsI, rule ran_constraint_rounds) auto

lemma runs_varchar_size: "runs N 0 (varchar_size ty) any"
proof -
  have "runs N 0 (\<lambda>p. case match_token T_OPEN_PAREN p of
           (True, p1) \<Rightarrow> need T_NUMBER ''Expected size in VARCHAR()'' (\<lambda>size.
             needs [(T_CLOSE_PAREN, ''Expected '' @ quoted '')'' @ '' after VARCHAR size'')]
            (yields (tk_value ty @ ''('' @ tk_value size @ '')''))) p1
         | (False, p1) \<Rightarrow> Inr (tk_value ty, p1)) any"
    by (rule runs_intros | simp)+
  then show ?thesis
    by (cases "tk_type ty = T_VARCHAR") (simp_all add: varchar_size_def [abs_def] runs_stay anyI)
qed

lemma runs_column_item: "runs N 1 column_item any"
  unfolding column_item_def
  by (rule runs_intros runs_varchar_size runs_constraint_loop runs_column_end | simp)+

lemma runs_hft_column_item: "runs N 1 hft_column_item any"
  unfolding hft_column_item_def by (rule runs_intros runs_column_end | simp)+

text \<open>The rest of the parse functions that a statement needs.\<close>

lemma runs_select_columns: "runs N 0 select_columns any"
  unfolding select_columns_def [abs_def]
  by (rule runs_intros | (rule runs_weaken [OF runs_comma_loop [OF runs_ident_item]]; (rule anyI)?) | simp)+

lemma runs_optional_limit: "runs N 0 optional_limit any"
  unfolding optional_limit_def [abs_def]
proof (rule runs0_match_deref, goal_cases)
  case (2 t)
  have "runs N 0 (need T_NUMBER ''Expected number after LIMIT'' (\<lambda>v p2.
      bindE (stoi (tk_value v)) (\<lambda>n. Inr (Some (nat (n mod 2 ^ 64)), p2)))) any"
    by (rule runs_intros | simp)+
  then show ?case by (cases "tk_value t = ''limit''") (auto intro: runs_stay)
qed (auto intro: runs_stay)

lemma runs_param_item: "runs N 1 param_item any"
  unfolding param_item_def
proof (rule runs1_need, goal_cases)
  case (2 t)
  show ?case
  proof (rule runs0_match, goal_cases)
    case 3
    show ?case by (rule runsI) (auto split: option.split)
  qed (auto intro: runs_stay)
qed simp

lemma runs_close0: "runs N 1 body R \<Longrightarrow> runs N 0 (close_loop body) any"
  by (rule runs_weaken [OF runs_close_loop]) auto

lemma runs_comma0: "runs N 1 item R \<Longrightarrow> runs N 0 (comma_loop item) any"
  by (rule runs_weaken [OF runs_comma_loop]) auto

lemma runs_optional_params: "runs N 0 optional_params any"
  unfolding optional_params_def [abs_def]
  by (rule runs_intros runs_close0 runs_param_item | simp)+

lemma runs1_need_int: "(\<And>n. runs N 0 (f n) Q) \<Longrightarrow> runs N 1 (need_int msg f) Q"
  unfolding need_int_def by (rule runs_intros | simp)+

lemma runs_aggregate_branch:
  assumes "T_END_OF_FILE \<notin> fst ` set bs"
  shows "runs N 1 (aggregate_branch bs) any"
  using assms
proof (induction bs)
  case Nil
  show ?case by (rule runsI) simp
next
  case (Cons b bs)
  obtain ty name m1 m2 m3 where b: "b = (ty, name, m1, m2, m3)" by (cases b) auto
  have body: "runs N 1 (need_int m1 (\<lambda>time. need_int m2 (\<lambda>idx. case m3 of
        None \<Rightarrow> yields \<lparr>ag_type = name, ag_time = time, ag_col_idx = idx, ag_threshold = -1\<rparr>
      | Some m \<Rightarrow> need_int m (\<lambda>th. yields \<lparr>ag_type = name, ag_time = time, ag_col_idx = idx, ag_threshold = th\<rparr>)))) any"
    by (cases m3) (rule runs1_need_int runs_intros | simp)+
  have eq: "aggregate_branch (b # bs) = (\<lambda>p. case match_token ty p of
      (True, p1) \<Rightarrow> (need_int m1 (\<lambda>time. need_int m2 (\<lambda>idx. case m3 of
        None \<Rightarrow> yields \<lparr>ag_type = name, ag_time = time, ag_col_idx = idx, ag_threshold = -1\<rparr>
      | Some m \<Rightarrow> need_int m (\<lambda>th. yields \<lparr>ag_type = name, ag_time = time, ag_col_idx = idx, ag_threshold = th\<rparr>)))) p1
    | (False, p1) \<Rightarrow> aggregate_branch bs p1)"
    by (simp add: b fun_eq_iff)
  show ?case unfolding eq by (rule runs_match [OF _ body Cons.IH]) (use Cons.prems b in auto)
qed

lemma runs_optional_aggregates: "runs N 0 optional_aggregates any"
  unfolding optional_aggregates_def [abs_def]
  by (rule runs_intros runs_close0 runs_aggregate_branch | simp add: aggregate_table_def)+

lemma runs_memory_operand: "runs N 0 (memory_operand msg) any"
  unfolding memory_operand_def by (rule runs_intros | simp)+

lemma runs_memory_clause: "runs N 1 (memory_clause a) any"
proof (cases a)
  case (fields key v ttl)
  show ?thesis unfolding memory_clause_def [abs_def] fields prod.case
  proof (rule runs_match [where ?k1.0 = 0 and ?k2.0 = 1], goal_cases)
    case 3
    show ?case
    proof (rule runs_match [where ?k1.0 = 0 and ?k2.0 = 1], goal_cases)
      case 3
      show ?case
      proof (rule runs_match [where ?k1.0 = 0 and ?k2.0 = 1], goal_cases)
        case 3
        show ?case by (rule runs_peek, rule runs_fail)
      qed (rule runs_intros | simp)+
    qed (rule runs_intros runs_memory_operand | simp)+
  qed (rule runs_intros runs_memory_operand | simp)+
qed

lemma ran_memory_rounds:
  assumes "live p" and "set (ps_rest p) \<subseteq> N" and "length (ps_rest p) < n" and "length (ps_rest p) \<le> m"
  shows "ran N m any (memory_rounds n a p)"
  using assms
proof (induction n arbitrary: a p m)
  case (Suc n)
  show ?case unfolding memory_rounds.simps
  proof (rule ran_match [OF Suc.prems(1,2)], goal_cases)
    case 3
    have "ran N (length (ps_rest p) - 1) any (memory_clause a p)"
      by (rule runsD [OF runs_memory_clause]) (use Suc.prems in auto)
    then show ?case
    proof (rule ran_bind)
      fix a1 p2 assume p2: "live p2" "set (ps_rest p2) \<subseteq> N" "length (ps_rest p2) \<le> length (ps_rest p) - 1"
      have "length (ps_rest p2) < n" "length (ps_rest p2) \<le> m"
        using p2(3) live_length [OF Suc.prems(1)] Suc.prems(3,4) by linarith+
      then show "ran N m any (memory_rounds n a1 p2)" by (intro Suc.IH p2)
    qed
  qed (use Suc.prems in auto)
qed simp

lemma runs_memory_rounds: "runs N 0 (\<lambda>p. memory_rounds (Suc (length (ps_rest p))) a p) any"
  by (rule runsI, rule ran_memory_rounds) auto

text \<open>One line per statement.\<close>

lemmas item_rules = runs_close0 runs_comma0 runs_ident_item runs_value_item runs_assignment_item runs_column_item
  runs_hft_column_item runs_select_columns runs_optional_limit runs_optional_params runs_optional_aggregates
  runs_memory_operand runs_memory_rounds

lemma runs_parse_insert_syntax: "runs N 0 parse_insert_syntax any"
  unfolding parse_insert_syntax_def [abs_def] by (rule runs_intros item_rules | simp split: prod.split)+

lemma runs_parse_update_statement: "numbers N \<Longrightarrow> runs N 0 parse_update_statement any"
  unfolding parse_update_statement_def [abs_def]
  by (rule runs_intros item_rules runs_optional_where runs0 [OF runs_parse_expression] | assumption | simp)+

lemma runs_parse_delete_syntax: "numbers N \<Longrightarrow> runs N 0 parse_delete_syntax any"
  unfolding parse_delete_syntax_def [abs_def]
  by (rule runs_intros item_rules runs_optional_where runs0 [OF runs_parse_expression] | assumption | simp)+

lemma runs_parse_select_statement: "numbers N \<Longrightarrow> runs N 0 parse_select_statement any"
  unfolding parse_select_statement_def [abs_def]
  by (rule runs_intros item_rules runs_optional_where runs0 [OF runs_parse_expression] | assumption | simp)+

lemma runs_parse_statistics_statement: "numbers N \<Longrightarrow> runs N 0 parse_statistics_statement any"
  unfolding parse_statistics_statement_def [abs_def]
  by (rule runs_intros item_rules runs_optional_where runs0 [OF runs_parse_expression] | assumption | simp)+

lemma runs_parse_use_syntax: "runs N 0 parse_use_syntax any"
  unfolding parse_use_syntax_def [abs_def] by (rule runs_intros item_rules | simp split: prod.split)+

lemma runs_parse_create_syntax: "runs N 0 parse_create_syntax any"
  unfolding parse_create_syntax_def [abs_def] by (rule runs_intros item_rules | simp split: prod.split)+

lemma runs_parse_memory_syntax: "runs N 0 parse_memory_syntax any"
  unfolding parse_memory_syntax_def [abs_def]
  by (rule runs_intros item_rules | simp split: prod.split add: runs_throws runs_yields anyI)+

lemma runs_parse_get_memory_syntax: "runs N 0 parse_get_memory_syntax any"
  unfolding parse_get_memory_syntax_def [abs_def] by (rule runs_intros item_rules | simp split: prod.split)+

lemma runs_parse_fetch_indicator: "runs N 0 parse_fetch_indicator any"
  unfolding parse_fetch_indicator_def [abs_def] by (rule runs_intros item_rules | simp split: prod.split)+

lemma runs_parse_enable_statement: "runs N 0 parse_enable_statement any"
  unfolding parse_enable_statement_def [abs_def] by (rule runs_intros item_rules | simp split: prod.split)+

lemma runs_parse_add_strategy_on_table: "runs N 0 parse_add_strategy_on_table any"
  unfolding parse_add_strategy_on_table_def [abs_def] by (rule runs_intros item_rules | simp split: prod.split)+

lemma runs_parse_web_socket_command: "runs N 0 parse_web_socket_command any"
  unfolding parse_web_socket_command_def [abs_def] by (rule runs_intros item_rules | simp split: prod.split)+

lemma runs_parse_add_hft_strategy: "runs N 0 parse_add_hft_strategy any"
  unfolding parse_add_hft_strategy_def [abs_def] by (rule runs_intros item_rules | simp split: prod.split)+

lemma runs_parse_add_hft_indicator: "runs N 0 parse_add_hft_indicator any"
  unfolding parse_add_hft_indicator_def [abs_def] by (rule runs_intros item_rules | simp split: prod.split)+

lemma runs_parse_binance_order_book: "runs N 0 parse_binance_order_book any"
  unfolding parse_binance_order_book_def [abs_def] by (rule runs_intros item_rules | simp split: prod.split)+

lemma runs_parse_binance_api_key: "runs N 0 parse_binance_api_key any"
  unfolding parse_binance_api_key_def [abs_def] by (rule runs_intros item_rules | simp split: prod.split)+

lemma runs_parse_binance_live_ohlc: "runs N 0 parse_binance_live_ohlc any"
  unfolding parse_binance_live_ohlc_def [abs_def] by (rule runs_intros item_rules | simp split: prod.split)+

lemma runs_parse_binance_live_orders: "runs N 0 parse_binance_live_orders any"
  unfolding parse_binance_live_orders_def [abs_def] by (rule runs_intros item_rules | simp split: prod.split)+

lemma runs_parse_hft_create_syntax: "runs N 0 parse_hft_create_syntax any"
proof -
  have last: "runs N 0 (\<lambda>p. bindE (deref (peek 0 p)) (\<lambda>t.
         let stmt = new_create\<lparr>cr_name := nm, cr_columns := cols, cr_symbol := sy, cr_aggregates := ags\<rparr>
         in if tk_type t \<noteq> T_SEMICOLON then
              needs [(T_TOP, ''expected top variable for best bid and best ask price'')]
                (yields (stmt\<lparr>cr_top := True\<rparr>)) p
            else yields stmt p)) any" for nm cols sy ags
  proof (rule runs_peek)
    fix t
    have "runs N 0 (needs [(T_TOP, ''expected top variable for best bid and best ask price'')] (yields (stmt\<lparr>cr_top := True\<rparr>))) any"
      for stmt :: create_statement by (rule runs_intros | simp)+
    then show "runs N 0 (\<lambda>p. let stmt = new_create\<lparr>cr_name := nm, cr_columns := cols, cr_symbol := sy, cr_aggregates := ags\<rparr>
         in if tk_type t \<noteq> T_SEMICOLON then
              needs [(T_TOP, ''expected top variable for best bid and best ask price'')]
                (yields (stmt\<lparr>cr_top := True\<rparr>)) p
            else yields stmt p) any"
      by (cases "tk_type t = T_SEMICOLON") (simp_all add: Let_def runs_yields anyI)
  qed
  show ?thesis
    unfolding parse_hft_create_syntax_def [abs_def] by (rule last runs_intros item_rules | simp)+
qed

lemma runs_indicator_column:
  "runs N 0 indicator_column (\<lambda>c. case c of None \<Rightarrow> True | Some v \<Rightarrow> \<exists>t. t \<in> N \<and> tk_type t = T_NUMBER \<and> v = tk_value t)"
  unfolding indicator_column_def [abs_def] by (rule runs_intros | simp)+ auto

lemma runs_parse_add_indicator_on_table: "runs N 0 parse_add_indicator_on_table any"
proof -
  have col: "runs N 0 (read_column col k) Q"
    if "case col of None \<Rightarrow> True | Some v \<Rightarrow> \<exists>t. t \<in> N \<and> tk_type t = T_NUMBER \<and> v = tk_value t" "\<And>n. runs N 0 (k n) Q"
    for col Q and k :: "int \<Rightarrow> indicator_on_table parse"
    using that by (auto simp: read_column_def split: option.splits intro: runs0_read_int)
  show ?thesis unfolding parse_add_indicator_on_table_def [abs_def]
    by (rule runs_intros item_rules runs_indicator_column col | assumption | simp)+
qed

lemma runs_parse_drop_syntax: "runs N 0 parse_drop_syntax any"
proof -
  have "runs N 0 (\<lambda>p. case advance_token p of (tok, p1) \<Rightarrow>
         bindE (deref tok) (\<lambda>t.
           if tk_type t = T_TABLE then
             need T_IDENTIFIER (''not a identifier'' @ newline) (\<lambda>i. yields \<lparr>drop_istable = True, drop_name = tk_value i\<rparr>) p1
           else if tk_type t = T_DATABASE then
             need T_IDENTIFIER (''not a identifier'' @ newline) (\<lambda>i. yields \<lparr>drop_istable = False, drop_name = tk_value i\<rparr>) p1
           else Inl (Throw ''error in drop ''))) any"
  proof (rule runsI)
    fix p m assume p: "live p" "set (ps_rest p) \<subseteq> N" "length (ps_rest p) \<le> m + 0"
    obtain t ts where r: "ps_rest p = t # ts" using p(1) by (cases "ps_rest p") (auto simp: live_def)
    define p1 where "p1 = p\<lparr>ps_back := t # ps_back p, ps_rest := ts\<rparr>"
    have adv: "advance_token p = (Some t, p1)"
      by (simp add: advance_token_def step_def r Let_def previous_def p1_def)
    have body: "ran N m any (need T_IDENTIFIER (''not a identifier'' @ newline) (\<lambda>i. yields \<lparr>drop_istable = b, drop_name = tk_value i\<rparr>) p1)"
      if "tk_type t \<noteq> T_END_OF_FILE" for b
    proof -
      have "runs N 0 (need T_IDENTIFIER (''not a identifier'' @ newline) (\<lambda>i. yields \<lparr>drop_istable = b, drop_name = tk_value i\<rparr>)) any"
        by (rule runs_intros | simp)+
      then show ?thesis
        by (rule runsD) (use live_step [OF p(1) r that] p r in \<open>auto simp: p1_def\<close>)
    qed
    show "ran N m any (case advance_token p of (tok, p1) \<Rightarrow>
         bindE (deref tok) (\<lambda>t.
           if tk_type t = T_TABLE then
             need T_IDENTIFIER (''not a identifier'' @ newline) (\<lambda>i. yields \<lparr>drop_istable = True, drop_name = tk_value i\<rparr>) p1
           else if tk_type t = T_DATABASE then
             need T_IDENTIFIER (''not a identifier'' @ newline) (\<lambda>i. yields \<lparr>drop_istable = False, drop_name = tk_value i\<rparr>) p1
           else Inl (Throw ''error in drop '')))"
      using body by (simp add: adv deref_def)
  qed
  then show ?thesis unfolding parse_drop_syntax_def by (intro runs0_needs runs_no_database) auto
qed

section \<open>The dispatcher\<close>

definition inside :: "token set \<Rightarrow> parser \<Rightarrow> bool" where
  "inside N p \<longleftrightarrow> live p \<and> set (ps_rest p) \<subseteq> N \<and> set (ps_back p) \<subseteq> N"

text \<open>
  A fault with which the engine itself answered: a call that left the world \<open>w\<close>, or the check of the table
  of an INSERT, which leaves the world as it is.
\<close>

definition engine_fault :: "'w backend \<Rightarrow> fault \<Rightarrow> 'w \<Rightarrow> bool" where
  "engine_fault bk e w \<longleftrightarrow> (\<exists>c w0. bk_run bk c w0 = (Inl e, w)) \<or> (\<exists>tab. bk_check_table bk tab w = Inl e)"

definition fine :: "'w backend \<Rightarrow> token set \<Rightarrow> 'w answer \<Rightarrow> bool" where
  "fine bk N a \<longleftrightarrow> (\<forall>e. fst a = Inl e \<longrightarrow> benign N e \<or> engine_fault bk e (snd a))"

lemma rewind_inside: "inside N p \<Longrightarrow> inside N (rewind p)"
  by (cases "ps_back p") (auto simp: inside_def rewind_def live_def)

lemma rewinds_inside: "inside N p \<Longrightarrow> inside N (rewinds n p)"
  by (induction n) (auto simp: rewinds_def intro: rewind_inside)

lemma match_inside:
  assumes "inside N p" and "ty \<noteq> T_END_OF_FILE" and "match_token ty p = (r, p')"
  shows "inside N p'"
proof (cases rule: match_token_cases [of p ty])
  case (yes t ts)
  then show ?thesis using assms live_step [OF _ yes(1)] by (auto simp: inside_def)
qed (use assms in auto)

lemma fine_match:
  assumes "inside N p" and "ty \<noteq> T_END_OF_FILE"
    and "\<And>p1. inside N p1 \<Longrightarrow> fine bk N (f p1)" and "fine bk N (g p)"
  shows "fine bk N (case match_token ty p of (True, p1) \<Rightarrow> f p1 | (False, p1) \<Rightarrow> g p1)"
  using match_inside [OF assms(1,2)] assms(3,4) by (cases rule: match_token_cases [of p ty]) auto

lemma fine_caught: "fine bk N a \<Longrightarrow> fine bk N (caught a)"
  by (cases a rule: caught.cases) (auto simp: fine_def)

lemma fine_return [simp]: "fine bk N (Inr x, w)" "fine bk N (Inl (Throw m), w)"
  by (simp_all add: fine_def)

lemma fine_bk_run: "fine bk N (bk_run bk c w)"
  by (cases "bk_run bk c w") (auto simp: fine_def engine_fault_def)

lemma fine_run_all: "fine bk N (run_all bk cs w)"
  by (induction cs arbitrary: w) (auto simp: fine_def engine_fault_def split: prod.splits sum.splits)

lemma fine_then_run:
  assumes "runs N 0 f any" and "inside N p" and "\<And>x w. fine bk N (k x w)"
  shows "fine bk N (then_run (f p) k w)"
proof -
  have "ran N (length (ps_rest p)) any (f p)"
    by (rule runsD [OF assms(1)]) (use assms(2) in \<open>auto simp: inside_def\<close>)
  then show ?thesis using assms(3) by (auto simp: then_run_def fine_def split: sum.split)
qed

lemma fine_parse_list:
  assumes "inside N p" and "\<And>x w. fine bk N (k x w)"
  shows "fine bk N (then_run (parse_list_statement ind p) k w)"
proof -
  have "runs N 0 (needs [(T_LIST, ''expect key word list'')] (\<lambda>p.
       case match_token T_STRATEGY p of
         (True, p1) \<Rightarrow>
           needs [(T_SEMICOLON, ''epect token type semi colon at end'')]
             (yields \<lparr>ls_isStrategy = True, ls_message = concat (map indicator_line ind)\<rparr>) p1
       | (False, p1) \<Rightarrow> Inl (Throw ''error expect either strategy or TABLE TABLE_NAME with LIST''))) any"
    by (rule runs_intros | simp)+
  from fine_then_run [OF this rewind_inside [OF assms(1)], where k = k and w = w] show ?thesis
    using assms(2) by (simp add: parse_list_statement_def)
qed

lemmas statement_rules = runs_parse_insert_syntax runs_parse_update_statement runs_parse_delete_syntax
  runs_parse_select_statement runs_parse_statistics_statement runs_parse_use_syntax runs_parse_create_syntax
  runs_parse_hft_create_syntax runs_parse_memory_syntax runs_parse_get_memory_syntax runs_parse_fetch_indicator
  runs_parse_enable_statement runs_parse_add_strategy_on_table runs_parse_web_socket_command
  runs_parse_add_indicator_on_table runs_parse_add_hft_strategy runs_parse_add_hft_indicator
  runs_parse_binance_order_book runs_parse_binance_api_key runs_parse_binance_live_ohlc
  runs_parse_binance_live_orders runs_parse_drop_syntax

lemmas fine_rules = fine_then_run fine_caught fine_run_all fine_bk_run fine_return rewind_inside rewinds_inside
  statement_rules

lemma fine_branches:
  assumes "numbers N" and "inside N p"
  shows "fine bk N (branch_create bk p w)" "fine bk N (branch_statistics bk p w)" "fine bk N (branch_enable bk p w)"
    "fine bk N (branch_list bk p w)" "fine bk N (branch_apply bk p w)" "fine bk N (branch_insert bk p w)"
    "fine bk N (branch_select bk p w)" "fine bk N (branch_drop bk p w)" "fine bk N (branch_use bk p w)"
    "fine bk N (branch_delete bk p w)" "fine bk N (branch_update bk p w)" "fine bk N (branch_memory bk p w)"
    "fine bk N (branch_add bk p w)"
proof -
  have "fine bk N (case bk_check_table bk (ins_table x) w of Inl e \<Rightarrow> (Inl e, w)
      | Inr (ok, msg) \<Rightarrow> if \<not> ok then (Inl (Throw msg), w) else run_all bk [Generate_insert x] w)" for x w
    using fine_run_all [of bk N "[Generate_insert x]" w]
    by (auto simp: fine_def engine_fault_def split: sum.split)
  then have ins: "fine bk N (parse_insert_statement bk p w)" if "inside N p" for p
    unfolding parse_insert_statement_def by (rule fine_then_run [OF runs_parse_insert_syntax that])
  show "fine bk N (branch_insert bk p w)" unfolding branch_insert_def by (intro fine_caught ins rewind_inside assms)
  show "fine bk N (branch_drop bk p w)" unfolding branch_drop_def parse_drop_statement_def
    by (intro fine_caught fine_then_run runs_parse_drop_syntax rewind_inside assms)
      (simp add: fine_run_all del: run_all.simps)
  show "fine bk N (branch_use bk p w)" unfolding branch_use_def parse_use_statement_def
    by (intro fine_caught fine_then_run runs_parse_use_syntax rewind_inside assms)
      (simp add: fine_run_all del: run_all.simps)
  have get: "fine bk N (then_run (parse_get_memory_syntax (rewind p))
      (\<lambda>k. case k of None \<Rightarrow> run_all bk [] | Some key \<Rightarrow> run_all bk [Memory_get key]) w)"
    by (rule fine_then_run [OF runs_parse_get_memory_syntax rewind_inside [OF assms(2)]])
      (simp add: fine_run_all del: run_all.simps split: option.split)
  have set: "fine bk N (then_run (parse_memory_syntax (rewind p)) (\<lambda>(key, v, ttl). run_all bk [Memory_set key v ttl]) w)"
    by (rule fine_then_run [OF runs_parse_memory_syntax rewind_inside [OF assms(2)]])
      (simp add: fine_run_all del: run_all.simps split: prod.split)
  show "fine bk N (branch_memory bk p w)"
    using get set unfolding branch_memory_def parse_memory_def by (intro fine_caught) (simp split: option.split)
  have crt: "fine bk N (parse_create_statement bk p w)" if "inside N p" for p
    unfolding parse_create_statement_def
    by (rule fine_then_run [OF runs_parse_create_syntax that])
      (simp add: fine_run_all del: run_all.simps)
  show "fine bk N (branch_create bk p w)" unfolding branch_create_def
    by (rule fine_match [OF assms(2)])
      (auto intro!: fine_rules crt assms)
  show "fine bk N (branch_statistics bk p w)" "fine bk N (branch_apply bk p w)" "fine bk N (branch_select bk p w)"
    "fine bk N (branch_delete bk p w)" "fine bk N (branch_update bk p w)"
    unfolding branch_statistics_def branch_apply_def branch_select_def branch_delete_def branch_update_def
    by (intro fine_rules assms)+
  show "fine bk N (branch_list bk p w)" unfolding branch_list_def
    by (intro fine_caught fine_parse_list assms fine_return)
  show "fine bk N (branch_enable bk p w)" "fine bk N (branch_add bk p w)" unfolding branch_enable_def branch_add_def
    by ((rule fine_match [OF assms(2)] | auto intro!: fine_rules assms)+)
qed

lemma fine_match_seq:
  assumes "inside N p" and "T_END_OF_FILE \<notin> set tys" and "match_seq tys p = (r, p')"
  shows "inside N p'"
  using assms
proof (induction tys arbitrary: p)
  case (Cons ty tys)
  obtain r1 p1 where m: "match_token ty p = (r1, p1)" by fastforce
  have "inside N p1" by (rule match_inside [OF Cons.prems(1) _ m]) (use Cons.prems(2) in auto)
  then show ?case using Cons m by (cases r1) auto
qed simp

lemma fine_branch_set:
  assumes "inside N p"
  shows "fine bk N (branch_set bk p w)"
proof -
  note rules = fine_rules
  have "fine bk N (branch_binance bk p1 w)" if p1: "inside N p1" for p1
    unfolding branch_binance_def
  proof (rule fine_match [OF p1], goal_cases)
    case 3
    show ?case
    proof (rule fine_match [OF p1], goal_cases)
      case 3
      obtain r p2 where m: "match_seq [T_DATA, T_FEED, T_LIVE] p1 = (r, p2)" by fastforce
      have p2: "inside N p2" by (rule fine_match_seq [OF p1 _ m]) simp
      show ?case
      proof (cases r)
        case True
        then show ?thesis using m p2 by (simp add: rules del: run_all.simps match_seq.simps)
      next
        case False
        have "fine bk N (case match_token T_OHLC p2 of
          (True, p4) \<Rightarrow> then_run (parse_binance_live_ohlc (rewinds 6 p4)) (\<lambda>s. run_all bk [Handle_binance_ohlc s]) w
        | (False, p4) \<Rightarrow> (Inr (error_json ''no such command exist''), w))"
          by (rule fine_match [OF p2]) (auto intro!: rules)
        then show ?thesis using m False by (simp del: match_seq.simps run_all.simps)
      qed
    qed (auto intro!: rules)
  qed (auto intro!: rules)
  then show ?thesis unfolding branch_set_def by (intro fine_match [OF assms(1)]) auto
qed

text \<open>The branch with a missing \<open>return\<close>.\<close>

lemma fine_branch_fetch:
  assumes "inside N p"
  shows "fine bk N (branch_fetch bk p w) \<or>
    branch_fetch bk p w = (Inl (Undefined ''parse() ends without return''), w) \<and>
    (\<forall>t ts. ps_rest p = t # ts \<longrightarrow> tk_type t \<noteq> T_INDICATOR)"
proof (cases rule: match_token_cases [of p T_INDICATOR])
  case (yes t ts)
  then have "inside N (p\<lparr>ps_back := t # ps_back p, ps_rest := ts\<rparr>)"
    using match_inside [OF assms(1) _ yes(3)] by simp
  then have "fine bk N (branch_fetch bk p w)"
    unfolding branch_fetch_def yes(3) by (simp add: fine_rules)
  then show ?thesis ..
next
  case no
  then show ?thesis by (simp add: branch_fetch_def)
qed

lemma fine_dispatch:
  assumes "numbers N" and "inside N p" and "ps_rest p = t # ts" and "set bs \<subseteq> set branches"
  shows "fine bk N (dispatch bk bs p w) \<or>
    dispatch bk bs p w = (Inl (Undefined ''parse() ends without return''), w) \<and> tk_type t = T_FETCH \<and>
    (\<forall>t' ts'. ts = t' # ts' \<longrightarrow> tk_type t' \<noteq> T_INDICATOR)"
  using assms(4)
proof (induction bs)
  case (Cons b bs)
  obtain ty br where b: "b = (ty, br)" by fastforce
  have ty: "ty \<noteq> T_END_OF_FILE" using Cons.prems by (auto simp: branches_def b)
  show ?case
  proof (cases rule: match_token_cases [of p ty])
    case (yes t0 ts0)
    have t0: "t0 = t" "ts0 = ts" using yes(1) assms(3) by auto
    have p1: "inside N (p\<lparr>ps_back := t # ps_back p, ps_rest := ts\<rparr>)"
      using match_inside [OF assms(2) ty yes(3)] t0 by simp
    have "fine bk N (br bk (p\<lparr>ps_back := t # ps_back p, ps_rest := ts\<rparr>) w) \<or> br = branch_fetch \<and> ty = T_FETCH"
      using Cons.prems fine_branches [OF assms(1) p1, of bk w] fine_branch_set [OF p1, of bk w]
      by (auto simp: branches_def b)
    then show ?thesis
      using yes t0 fine_branch_fetch [OF p1, of bk w] by (auto simp: b)
  next
    case no
    then show ?thesis using Cons by (simp add: b)
  qed
qed (simp add: fine_def)

end
