(* ===== verification/Parse_Calls.thy ===== *)
theory Parse_Calls
  imports Parse_Safety
begin

text \<open>
  Which calls of the engine a text can lead to. \<open>logged bk\<close> behaves as \<open>bk\<close> and keeps the list of its
  calls; the arguments of every call satisfy \<open>call_ok\<close>.
\<close>

section \<open>What the statements satisfy\<close>

definition call_ok :: "db_call \<Rightarrow> bool" where
  "call_ok c = (case c of
     Generate_insert s \<Rightarrow> ins_columns s \<noteq> [] \<and> length (ins_columns s) = length (ins_values s)
   | Handle_update s \<Rightarrow> upd_assignments s \<noteq> [] \<and> expr_ok (upd_where s)
   | Handle_delete s \<Rightarrow> (case del_where s of None \<Rightarrow> True | Some e \<Rightarrow> expr_ok e)
   | Handle_select s \<Rightarrow> sel_columns s \<noteq> [] \<and> (case sel_where s of None \<Rightarrow> True | Some e \<Rightarrow> expr_ok e)
   | Generate_create_table s \<Rightarrow> \<not> cr_isDatabase s
   | Memory_set key v ttl \<Rightarrow> key \<noteq> [] \<and> v \<noteq> []
   | _ \<Rightarrow> True)"

definition filled :: "'a list \<Rightarrow> bool" where
  "filled xs \<longleftrightarrow> xs \<noteq> []"

lemma comma_rounds_filled: "comma_rounds n item acc p = Inr (xs, p') \<Longrightarrow> xs \<noteq> []"
proof (induction n arbitrary: acc p)
  case (Suc n)
  obtain x p1 where i: "item p = Inr (x, p1)" using Suc.prems by (auto simp: bindE_Inr)
  obtain r p2 where m: "match_token T_COMMA p1 = (r, p2)" by fastforce
  show ?case
  proof (cases r)
    case True
    then show ?thesis using Suc i m by simp
  next
    case False
    then show ?thesis using Suc.prems i m by auto
  qed
qed simp

lemma runs_comma_filled:
  assumes "runs N 1 item R"
  shows "runs N 0 (comma_loop item) filled"
proof (rule runsI)
  fix p m assume "live p" "set (ps_rest p) \<subseteq> N" "length (ps_rest p) \<le> m + 0"
  then have "ran N m (list_all R) (comma_loop item p)"
    by (intro runsD [OF runs0 [OF runs_comma_loop [OF assms]]]) auto
  then show "ran N m filled (comma_loop item p)"
    using comma_rounds_filled [of _ item "[]" p]
    by (auto simp: ran_def comma_loop_def filled_def simp del: comma_rounds.simps split: sum.splits)
qed

lemma runs_select_filled: "runs N 0 select_columns filled"
  unfolding select_columns_def [abs_def]
  by (rule runs_intros runs_comma_filled [OF runs_ident_item] | simp add: filled_def)+

lemmas filled_rules = runs_comma_filled [OF runs_ident_item] runs_comma_filled [OF runs_value_item]
  runs_comma_filled [OF runs_assignment_item] runs_select_filled runs_optional_limit runs_optional_where
  runs0 [OF runs_parse_expression]

lemma runs_insert_ok: "runs N 0 parse_insert_syntax (\<lambda>s. call_ok (Generate_insert s))"
  unfolding parse_insert_syntax_def [abs_def]
  by (rule runs_yields runs_throws runs_if runs0_need runs0_needs runs0_bindP filled_rules | simp add: call_ok_def filled_def)+

lemma runs_update_ok: "numbers N \<Longrightarrow> runs N 0 parse_update_statement (\<lambda>s. call_ok (Handle_update s))"
  unfolding parse_update_statement_def [abs_def]
  by (rule runs_yields runs_fail runs0_need runs0_needs runs0_bindP runs0_match filled_rules
      | assumption | simp add: call_ok_def filled_def)+

lemma runs_delete_ok: "numbers N \<Longrightarrow> runs N 0 parse_delete_syntax (\<lambda>s. call_ok (Handle_delete s))"
  unfolding parse_delete_syntax_def [abs_def]
  by (rule runs_yields runs0_need runs0_needs runs0_bindP filled_rules | assumption | simp add: call_ok_def)+

lemma runs_select_ok: "numbers N \<Longrightarrow> runs N 0 parse_select_statement (\<lambda>s. call_ok (Handle_select s))"
  unfolding parse_select_statement_def [abs_def]
  by (rule runs_yields runs_no_database runs0_need runs0_needs runs0_bindP filled_rules
      | assumption | simp add: call_ok_def filled_def)+

lemma runs_memory_ok: "runs N 0 parse_memory_syntax (\<lambda>(key, v, ttl). call_ok (Memory_set key v ttl))"
  unfolding parse_memory_syntax_def [abs_def]
  by (rule runs_intros runs_memory_rounds | simp split: prod.split add: runs_throws runs_yields call_ok_def)+

section \<open>The engine with a log\<close>

definition logged :: "'w backend \<Rightarrow> ('w \<times> db_call list) backend" where
  "logged bk = \<lparr>bk_run = (\<lambda>c (w, log). case bk_run bk c w of (r, w1) \<Rightarrow> (r, w1, log @ [c])),
     bk_check_table = (\<lambda>tab (w, log). bk_check_table bk tab w),
     bk_file_exists = (\<lambda>f (w, log). bk_file_exists bk f w),
     bk_indicators = (\<lambda>(w, log). bk_indicators bk w)\<rparr>"

text \<open>The log has grown by at most four calls, all with good arguments.\<close>

definition grown :: "nat \<Rightarrow> db_call list \<Rightarrow> ('w \<times> db_call list) answer \<Rightarrow> bool" where
  "grown n log a \<longleftrightarrow> (\<exists>cs. snd (snd a) = log @ cs \<and> list_all call_ok cs \<and> length cs \<le> n)"

lemma grown_none [simp]: "grown n log (r, w, log)"
  by (simp add: grown_def)

lemma grown_weaken: "grown m log a \<Longrightarrow> m \<le> n \<Longrightarrow> grown n log a"
  by (auto simp: grown_def)

lemma grown_caught: "grown n log a \<Longrightarrow> grown n log (caught a)"
  by (cases a rule: caught.cases) (auto simp: grown_def)

lemma grown_run: "call_ok c \<Longrightarrow> 0 < n \<Longrightarrow> grown n log (bk_run (logged bk) c (w, log))"
  by (auto simp: grown_def logged_def split: prod.split)

lemma grown_run_all: "list_all call_ok cs \<Longrightarrow> length cs \<le> n \<Longrightarrow> grown n log (run_all (logged bk) cs (w, log))"
proof (induction cs arbitrary: w log n)
  case (Cons c cs)
  obtain r w1 where r: "bk_run bk c w = (r, w1)" by fastforce
  have IH: "grown (n - 1) (log @ [c]) (run_all (logged bk) cs (w1, log @ [c]))"
    by (rule Cons.IH) (use Cons.prems in auto)
  show ?case
  proof (cases r)
    case (Inl e)
    then show ?thesis using Cons.prems r by (auto simp: logged_def grown_def)
  next
    case (Inr x)
    then have "run_all (logged bk) (c # cs) (w, log) = run_all (logged bk) cs (w1, log @ [c])"
      using r by (simp add: logged_def)
    then show ?thesis using IH Cons.prems by (auto simp: grown_def)
  qed
qed (simp add: grown_def)

lemma grown_then_run:
  assumes "runs N 0 f Q" and "inside N p" and "\<And>x. Q x \<Longrightarrow> grown n log (k x (w, log))"
  shows "grown n log (then_run (f p) k (w, log))"
proof -
  have "ran N (length (ps_rest p)) Q (f p)"
    by (rule runsD [OF assms(1)]) (use assms(2) in \<open>auto simp: inside_def\<close>)
  then show ?thesis using assms(3) by (auto simp: then_run_def split: sum.split)
qed

lemma grown_match:
  assumes "inside N p" and "ty \<noteq> T_END_OF_FILE"
    and "\<And>p1. inside N p1 \<Longrightarrow> grown n log (f p1)" and "grown n log (g p)"
  shows "grown n log (case match_token ty p of (True, p1) \<Rightarrow> f p1 | (False, p1) \<Rightarrow> g p1)"
  using match_inside [OF assms(1,2)] assms(3,4) by (cases rule: match_token_cases [of p ty]) auto

text \<open>A statement with one call that has no condition on its argument.\<close>

lemma grown_one:
  assumes "runs N 0 f any" and "inside N p" and "\<And>x. call_ok (c x)"
  shows "grown 4 log (then_run (f p) (\<lambda>s. run_all (logged bk) [c s]) (w, log))"
  by (rule grown_then_run [OF assms(1,2)]) (rule grown_run_all; simp add: assms(3))

lemma grown_branches1:
  assumes "numbers N" and "inside N p"
  shows "grown 4 log (branch_statistics (logged bk) p (w, log))" "grown 4 log (branch_list (logged bk) p (w, log))"
    "grown 4 log (branch_apply (logged bk) p (w, log))" "grown 4 log (branch_select (logged bk) p (w, log))"
    "grown 4 log (branch_drop (logged bk) p (w, log))" "grown 4 log (branch_delete (logged bk) p (w, log))"
    "grown 4 log (branch_update (logged bk) p (w, log))"
proof -
  have rw: "inside N (rewind p)" by (rule rewind_inside [OF assms(2)])
  show "grown 4 log (branch_statistics (logged bk) p (w, log))" unfolding branch_statistics_def
    by (intro grown_caught grown_then_run [OF runs_parse_statistics_statement [OF assms(1)] rw] grown_run) (simp_all add: call_ok_def)
  show "grown 4 log (branch_select (logged bk) p (w, log))" unfolding branch_select_def
    by (intro grown_caught grown_then_run [OF runs_select_ok [OF assms(1)] rw] grown_run) simp_all
  show "grown 4 log (branch_apply (logged bk) p (w, log))" unfolding branch_apply_def
    by (rule grown_one [OF runs_parse_web_socket_command rw]) (simp add: call_ok_def)
  show "grown 4 log (branch_delete (logged bk) p (w, log))" unfolding branch_delete_def
    by (intro grown_caught grown_then_run [OF runs_delete_ok [OF assms(1)] rw] grown_run_all) simp_all
  show "grown 4 log (branch_update (logged bk) p (w, log))" unfolding branch_update_def
    by (intro grown_caught grown_then_run [OF runs_update_ok [OF assms(1)] rw] grown_run_all) simp_all
  show "grown 4 log (branch_drop (logged bk) p (w, log))" unfolding branch_drop_def parse_drop_statement_def
  proof (intro grown_caught grown_then_run [OF runs_parse_drop_syntax rw])
    fix s show "grown 4 log ((if drop_istable s then run_all (logged bk) [Generate_drop s]
       else run_all (logged bk) [Generate_drop s, Clear_caches, Change_current_db [], Set_current_database []]) (w, log))"
      by (simp add: grown_run_all call_ok_def del: run_all.simps)
  qed
  have "grown 4 log (then_run (parse_list_statement ind p) (\<lambda>s w. (Inr (ls_message s), w)) (w, log))" for ind
    by (simp add: then_run_def split: sum.split)
  then show "grown 4 log (branch_list (logged bk) p (w, log))" unfolding branch_list_def by (rule grown_caught)
qed

lemma grown_branches2:
  assumes "inside N p"
  shows "grown 4 log (branch_insert (logged bk) p (w, log))" "grown 4 log (branch_use (logged bk) p (w, log))"
    "grown 4 log (branch_memory (logged bk) p (w, log))" "grown 4 log (branch_create (logged bk) p (w, log))"
proof -
  have rw: "inside N (rewind p)" by (rule rewind_inside [OF assms])
  show "grown 4 log (branch_insert (logged bk) p (w, log))" unfolding branch_insert_def parse_insert_statement_def
  proof (rule grown_caught, rule grown_then_run [OF runs_insert_ok rw])
    fix s assume s: "call_ok (Generate_insert s)"
    have "grown 4 log (run_all (logged bk) [Generate_insert s] (w, log))" by (rule grown_run_all) (simp_all add: s)
    then show "grown 4 log (case bk_check_table (logged bk) (ins_table s) (w, log) of Inl e \<Rightarrow> (Inl e, w, log)
        | Inr (ok, msg) \<Rightarrow> if \<not> ok then (Inl (Throw msg), w, log) else run_all (logged bk) [Generate_insert s] (w, log))"
      by (simp split: sum.split)
  qed
  show "grown 4 log (branch_use (logged bk) p (w, log))" unfolding branch_use_def parse_use_statement_def
    by (rule grown_caught, rule grown_then_run [OF runs_parse_use_syntax rw])
      (simp add: grown_run_all call_ok_def del: run_all.simps)
  have get: "grown 4 log (then_run (parse_get_memory_syntax (rewind p))
      (\<lambda>k. case k of None \<Rightarrow> run_all (logged bk) [] | Some key \<Rightarrow> run_all (logged bk) [Memory_get key]) (w, log))"
    by (rule grown_then_run [OF runs_parse_get_memory_syntax rw])
      (simp add: grown_run_all call_ok_def del: run_all.simps split: option.split)
  have set: "grown 4 log (then_run (parse_memory_syntax (rewind p))
      (\<lambda>(key, v, ttl). run_all (logged bk) [Memory_set key v ttl]) (w, log))"
    by (rule grown_then_run [OF runs_memory_ok rw])
      (simp add: grown_run_all call_ok_def del: run_all.simps split: prod.splits)
  show "grown 4 log (branch_memory (logged bk) p (w, log))"
    using get set unfolding branch_memory_def parse_memory_def by (intro grown_caught) (simp split: option.split)
  have crt: "grown 4 log (parse_create_statement (logged bk) p1 (w, log))" if "inside N p1" for p1
    unfolding parse_create_statement_def
    by (rule grown_then_run [OF runs_parse_create_syntax that])
      (simp add: grown_run_all call_ok_def del: run_all.simps)
  show "grown 4 log (branch_create (logged bk) p (w, log))" unfolding branch_create_def
  proof (rule grown_match [OF assms], goal_cases)
    case (2 p1)
    show ?case by (rule grown_one [OF runs_parse_hft_create_syntax rewind_inside [OF 2]]) (simp add: call_ok_def)
  qed (auto intro!: grown_caught crt rw)
qed

lemma grown_branches3:
  assumes "inside N p"
  shows "grown 4 log (branch_enable (logged bk) p (w, log))" "grown 4 log (branch_add (logged bk) p (w, log))"
    "grown 4 log (branch_fetch (logged bk) p (w, log))" "grown 4 log (branch_set (logged bk) p (w, log))"
proof -
  note one = grown_one [OF _ rewinds_inside]
  note ok = call_ok_def
  show "grown 4 log (branch_enable (logged bk) p (w, log))" unfolding branch_enable_def
    by (rule grown_match [OF assms])
      (auto intro!: grown_caught one assms runs_parse_add_strategy_on_table runs_parse_enable_statement simp: ok)
  show "grown 4 log (branch_add (logged bk) p (w, log))" unfolding branch_add_def
  proof (rule grown_match [OF assms], goal_cases)
    case 3
    show ?case by (rule grown_match [OF assms])
      (auto intro!: grown_caught one assms runs_parse_add_hft_strategy runs_parse_add_hft_indicator simp: ok)
  qed (auto intro!: one runs_parse_add_indicator_on_table simp: ok)
  show "grown 4 log (branch_fetch (logged bk) p (w, log))" unfolding branch_fetch_def
  proof (rule grown_match [OF assms], goal_cases)
    case (2 p1)
    show ?case
      by (rule grown_then_run [OF runs_parse_fetch_indicator rewinds_inside [OF 2]], rule grown_run) (simp_all add: ok)
  qed auto
  have "grown 4 log (branch_binance (logged bk) p1 (w, log))" if p1: "inside N p1" for p1
    unfolding branch_binance_def
  proof (rule grown_match [OF p1], goal_cases)
    case 3
    show ?case
    proof (rule grown_match [OF p1], goal_cases)
      case 3
      obtain r p2 where m: "match_seq [T_DATA, T_FEED, T_LIVE] p1 = (r, p2)" by fastforce
      have p2: "inside N p2" by (rule fine_match_seq [OF p1 _ m]) simp
      have ohlc: "grown 4 log (case match_token T_OHLC p2 of
          (True, p4) \<Rightarrow> then_run (parse_binance_live_ohlc (rewinds 6 p4)) (\<lambda>s. run_all (logged bk) [Handle_binance_ohlc s]) (w, log)
        | (False, p4) \<Rightarrow> (Inr (error_json ''no such command exist''), w, log))"
        by (rule grown_match [OF p2]) (auto intro!: one runs_parse_binance_live_ohlc simp: ok)
      have live: "grown 4 log (then_run (parse_binance_live_orders (rewinds 6 p2))
          (\<lambda>s. run_all (logged bk) [Handle_binance_live_orders s]) (w, log))"
        by (rule one [OF runs_parse_binance_live_orders p2]) (simp add: ok)
      show ?case using m ohlc live by (cases r) (simp_all del: match_seq.simps run_all.simps)
    qed (auto intro!: one runs_parse_binance_order_book simp: ok)
  qed (auto intro!: one runs_parse_binance_api_key simp: ok)
  then show "grown 4 log (branch_set (logged bk) p (w, log))"
    unfolding branch_set_def by (intro grown_match [OF assms]) auto
qed

lemma grown_dispatch:
  assumes "numbers N" and "inside N p" and "set bs \<subseteq> set branches"
  shows "grown 4 log (dispatch (logged bk) bs p (w, log))"
  using assms(3)
proof (induction bs)
  case (Cons b bs)
  obtain ty br where b: "b = (ty, br)" by fastforce
  have ty: "ty \<noteq> T_END_OF_FILE" using Cons.prems by (auto simp: branches_def b)
  have "grown 4 log (br (logged bk) p1 (w, log))" if p1: "inside N p1" for p1
    using Cons.prems grown_branches1 [OF assms(1) p1] grown_branches2 [OF p1] grown_branches3 [OF p1]
    by (auto simp: branches_def b)
  then show ?case unfolding b dispatch.simps
    by (intro grown_match [OF assms(2) ty]) (use Cons in auto)
qed simp

end
