(* ===== verification/Parse_Print.thy ===== *)
theory Parse_Print
  imports SQL_Dispatch
begin

text \<open>
  Printing statements as tokens and reading them back: the parser inverts the printers below, first for
  expressions, then for the statements that carry data. \<open>print_tokens\<close> of the lexer turns the tokens into
  text.
\<close>

section \<open>The cursor on known tokens\<close>

definition cursor :: "token list \<Rightarrow> token list \<Rightarrow> string \<Rightarrow> parser" where
  "cursor b ts d = \<lparr>ps_back = b, ps_rest = ts, ps_currentDb = d\<rparr>"

named_theorems cursor

lemma mk_parser_cursor [cursor]: "mk_parser d toks = cursor [] toks d"
  by (simp add: mk_parser_def cursor_def)

lemma cursor_sel [cursor]:
  "ps_rest (cursor b ts d) = ts" "ps_currentDb (cursor b ts d) = d" "previous (cursor (t # b) ts d) = Some t"
  "peek 0 (cursor b (t # ts) d) = Some t" "rewind (cursor (t # b) ts d) = cursor b (t # ts) d"
  "peek (Suc 0) (cursor b (t # t' # ts) d) = Some t'"
  by (simp_all add: cursor_def previous_def peek_def rewind_def)

lemma match_cursor [cursor]:
  "match_token ty (cursor b (t # ts) d) =
    (if tk_type t = ty then (True, cursor (t # b) ts d) else (False, cursor b (t # ts) d))"
  "match_token ty (cursor b [] d) = (False, cursor b [] d)"
  by (simp_all add: cursor_def match_token_def peek_def advance_token_def step_def Let_def)

lemma deref_Some [cursor]: "deref (Some t) = Inr t"
  by (simp add: deref_def)

lemma expect_cursor [cursor]:
  "expect ty msg (cursor b (t # ts) d) =
    (if tk_type t = ty then Inr (t, cursor (t # b) ts d) else Inl (Throw (''Parse error: '' @ msg)))"
  by (simp add: expect_def cursor)

lemma need_cursor [cursor]:
  "need ty msg k (cursor b (t # ts) d) =
    (if tk_type t = ty then k t (cursor (t # b) ts d) else Inl (Throw (''Parse error: '' @ msg)))"
  by (simp add: need_def cursor)

lemma one_of_cursor [cursor]:
  "one_of tys msg (cursor b (t # ts) d) =
    (if tk_type t \<in> set tys then Inr (t, cursor (t # b) ts d) else Inl (Throw msg))"
  by (induction tys) (auto simp: one_of_def cursor split: prod.splits bool.splits)

lemma bindP_yields [cursor]: "bindP f g p = bindE (f p) (\<lambda>(x, p1). g x p1)" "yields x p = Inr (x, p)"
  by (simp_all add: bindP_def yields_def)

text \<open>What follows does not start with one of the given tokens.\<close>

definition ahead :: "token_type list \<Rightarrow> token list \<Rightarrow> bool" where
  "ahead tys rest \<longleftrightarrow> (case rest of [] \<Rightarrow> True | t # _ \<Rightarrow> tk_type t \<notin> set tys)"

lemma ahead_simps [simp]: "ahead tys []" "ahead tys (t # ts) \<longleftrightarrow> tk_type t \<notin> set tys"
  by (simp_all add: ahead_def)

lemma match_any_ahead: "ahead tys rest \<Longrightarrow> match_any tys (cursor b rest d) = (False, cursor b rest d)"
  by (induction tys) (cases rest; simp add: cursor)+

lemma match_any_hit:
  "tk_type t \<in> set tys \<Longrightarrow> match_any tys (cursor b (t # ts) d) = (True, cursor (t # b) ts d)"
  by (induction tys) (auto simp: cursor)

section \<open>Expressions\<close>

fun logical_token :: "logical_operator \<Rightarrow> token" where
  "logical_token L_AND = add_token T_AND ''and''"
| "logical_token L_OR = add_token T_OR ''or''"

fun comparison_token :: "comparison_operator \<Rightarrow> token" where
  "comparison_token C_EQUAL = add_token T_EQUAL ''=''"
| "comparison_token C_NOT_EQUAL = add_token T_NOT_EQUAL ''!=''"
| "comparison_token C_GREATER = add_token T_GREATER ''>''"
| "comparison_token C_LESS = add_token T_LESS ''<''"
| "comparison_token C_GREATER_EQUAL = add_token T_GREATER_EQUAL ''>=''"
| "comparison_token C_LESS_EQUAL = add_token T_LESS_EQUAL ''<=''"

definition name_token :: "string \<Rightarrow> token" where
  "name_token s = add_token T_IDENTIFIER s"

definition open_paren :: token where "open_paren = add_token T_OPEN_PAREN ''(''"
definition close_paren :: token where "close_paren = add_token T_CLOSE_PAREN '')''"

lemmas token_defs = name_token_def open_paren_def close_paren_def

fun print_expr :: "expr \<Rightarrow> token list" where
  "print_expr (Identifier s) = [name_token s]"
| "print_expr (IntLiteral n) = [add_token T_NUMBER (show_nat (nat n))]"
| "print_expr (StringLiteral s) = [add_token T_STRING s]"
| "print_expr (BoolLiteral b) = [name_token (if b then ''true'' else ''false'')]"
| "print_expr (Comparison l c r) = print_expr l @ comparison_token c # print_expr r"
| "print_expr (Logical l c r) = print_expr l @ logical_token c # print_expr r"
| "print_expr (Paren e) = open_paren # print_expr e @ [close_paren]"

lemma print_expr_nonempty [simp]: "print_expr e \<noteq> []"
  by (cases e) simp_all

text \<open>The number of rounds of the loop of \<open>parseLogical\<close>.\<close>

fun rounds :: "expr \<Rightarrow> nat" where
  "rounds (Logical l c r) = Suc (rounds l)"
| "rounds e = 0"

lemma rounds_less: "rounds e < length (print_expr e)"
  by (induction e) auto

lemma comparison_token_type:
  "tk_type (comparison_token c) \<in> set comparison_tokens" "comparison_of (tk_type (comparison_token c)) = Inr c"
  by (cases c; simp add: comparison_tokens_def comparison_of_def)+

lemma logical_token_type:
  "tk_type (logical_token c) \<in> set [T_AND, T_OR]" "logical_of (tk_type (logical_token c)) = c"
  "tk_type (logical_token c) \<notin> set comparison_tokens"
  by (cases c; simp add: comparison_tokens_def)+

lemma close_ahead [simp]: "ahead comparison_tokens (close_paren # rest)" "ahead [T_AND, T_OR] (close_paren # rest)"
  by (simp_all add: close_paren_def comparison_tokens_def)

lemma parse_leaf_print:
  assumes "expr_ok e" and "is_primary e" and "\<And>e'. e \<noteq> Paren e'"
  shows "parse_leaf (cursor b (print_expr e @ rest) d) = Inr (e, cursor (rev (print_expr e) @ b) rest d)"
    and "tk_type (hd (print_expr e)) \<noteq> T_OPEN_PAREN"
  using assms by (cases e; auto simp: parse_leaf_def cursor token_defs int_limits)+

definition reads_primary :: "string \<Rightarrow> expr \<Rightarrow> bool" where
  "reads_primary d e \<longleftrightarrow> (\<forall>n b rest. 4 * length (print_expr e) + 1 \<le> n \<longrightarrow>
     parse_primary n (cursor b (print_expr e @ rest) d) = Inr (e, cursor (rev (print_expr e) @ b) rest d))"

definition reads_comparison :: "string \<Rightarrow> expr \<Rightarrow> bool" where
  "reads_comparison d e \<longleftrightarrow> (\<forall>n b rest. 4 * length (print_expr e) + 2 \<le> n \<longrightarrow> ahead comparison_tokens rest \<longrightarrow>
     parse_comparison n (cursor b (print_expr e @ rest) d) = Inr (e, cursor (rev (print_expr e) @ b) rest d))"

definition reads_logical :: "string \<Rightarrow> expr \<Rightarrow> bool" where
  "reads_logical d e \<longleftrightarrow> (\<forall>n b rest. 4 * length (print_expr e) + 4 \<le> n \<longrightarrow> ahead comparison_tokens rest \<longrightarrow>
     parse_logical n (cursor b (print_expr e @ rest) d) =
     logical_loop (n - 1 - rounds e) e (cursor (rev (print_expr e) @ b) rest d))"

lemma reads_primary_comparison:
  assumes "reads_primary d e"
  shows "reads_comparison d e"
  unfolding reads_comparison_def
proof (intro allI impI)
  fix n b rest assume n: "4 * length (print_expr e) + 2 \<le> n" and rest: "ahead comparison_tokens rest"
  obtain m where m: "n = Suc m" using n by (cases n) auto
  have "parse_primary m (cursor b (print_expr e @ rest) d) = Inr (e, cursor (rev (print_expr e) @ b) rest d)"
    using assms n m by (simp add: reads_primary_def)
  then show "parse_comparison n (cursor b (print_expr e @ rest) d) = Inr (e, cursor (rev (print_expr e) @ b) rest d)"
    by (simp add: m match_any_ahead [OF rest])
qed

lemma reads_comparison_logical:
  assumes "reads_comparison d e" and "rounds e = 0"
  shows "reads_logical d e"
  unfolding reads_logical_def
proof (intro allI impI)
  fix n b rest assume n: "4 * length (print_expr e) + 4 \<le> n" and rest: "ahead comparison_tokens rest"
  obtain m where m: "n = Suc m" using n by (cases n) auto
  show "parse_logical n (cursor b (print_expr e @ rest) d) =
      logical_loop (n - 1 - rounds e) e (cursor (rev (print_expr e) @ b) rest d)"
    using assms n rest by (simp add: m reads_comparison_def)
qed

lemma reads_leaf:
  assumes "expr_ok e" and "is_primary e" and "\<And>e'. e \<noteq> Paren e'"
  shows "reads_primary d e"
  unfolding reads_primary_def
proof (intro allI impI)
  fix n b rest assume n: "4 * length (print_expr e) + 1 \<le> n"
  obtain m where m: "n = Suc m" using n by (cases n) auto
  obtain t ts where t: "print_expr e = t # ts" by (cases "print_expr e") auto
  have "tk_type t \<noteq> T_OPEN_PAREN" using parse_leaf_print(2) [OF assms] t by simp
  then have "match_token T_OPEN_PAREN (cursor b (print_expr e @ rest) d) = (False, cursor b (print_expr e @ rest) d)"
    by (simp add: t cursor)
  then show "parse_primary n (cursor b (print_expr e @ rest) d) = Inr (e, cursor (rev (print_expr e) @ b) rest d)"
    by (simp add: m parse_leaf_print(1) [OF assms])
qed

lemma reads_Comparison:
  assumes "reads_primary d l" and "reads_primary d r"
  shows "reads_comparison d (Comparison l c r)"
  unfolding reads_comparison_def
proof (intro allI impI)
  fix n b rest
  assume n: "4 * length (print_expr (Comparison l c r)) + 2 \<le> n"
  obtain m where m: "n = Suc m" using n by (cases n) auto
  let ?t = "comparison_token c"
  have l: "parse_primary m (cursor b (print_expr l @ ?t # print_expr r @ rest) d) =
      Inr (l, cursor (rev (print_expr l) @ b) (?t # print_expr r @ rest) d)"
    using assms(1) n m by (simp add: reads_primary_def)
  have r: "parse_primary m (cursor (?t # rev (print_expr l) @ b) (print_expr r @ rest) d) =
      Inr (r, cursor (rev (print_expr r) @ ?t # rev (print_expr l) @ b) rest d)"
    using assms(2) n m by (simp add: reads_primary_def)
  show "parse_comparison n (cursor b (print_expr (Comparison l c r) @ rest) d) =
      Inr (Comparison l c r, cursor (rev (print_expr (Comparison l c r)) @ b) rest d)"
    by (simp add: m l r match_any_hit [OF comparison_token_type(1)] comparison_token_type(2) cursor)
qed

lemma reads_Logical:
  assumes "reads_logical d l" and "reads_comparison d r"
  shows "reads_logical d (Logical l c r)"
  unfolding reads_logical_def
proof (intro allI impI)
  fix n b rest
  assume n: "4 * length (print_expr (Logical l c r)) + 4 \<le> n" and rest: "ahead comparison_tokens rest"
  let ?t = "logical_token c"
  obtain k where k: "n - 1 - rounds l = Suc k" using n rounds_less [of l] by (cases "n - 1 - rounds l") auto
  have "ahead comparison_tokens (?t # print_expr r @ rest)" using logical_token_type(3) by simp
  then have l: "parse_logical n (cursor b (print_expr l @ ?t # print_expr r @ rest) d) =
      logical_loop (Suc k) l (cursor (rev (print_expr l) @ b) (?t # print_expr r @ rest) d)"
    using assms(1) n k by (simp add: reads_logical_def)
  have "4 * length (print_expr r) + 2 \<le> k" using n k rounds_less [of l] by simp
  then have r: "parse_comparison k (cursor (?t # rev (print_expr l) @ b) (print_expr r @ rest) d) =
      Inr (r, cursor (rev (print_expr r) @ ?t # rev (print_expr l) @ b) rest d)"
    using assms(2) rest by (simp add: reads_comparison_def)
  have "n - 1 - rounds (Logical l c r) = k" using k by simp
  then show "parse_logical n (cursor b (print_expr (Logical l c r) @ rest) d) =
      logical_loop (n - 1 - rounds (Logical l c r)) (Logical l c r)
        (cursor (rev (print_expr (Logical l c r)) @ b) rest d)"
    using l r by (cases c) (simp_all add: cursor del: rounds.simps)
qed

text \<open>The loop stops where no \<open>AND\<close> or \<open>OR\<close> follows.\<close>

lemma reads_logical_end:
  assumes "reads_logical d e" and "4 * length (print_expr e) + 4 \<le> n"
    and "ahead comparison_tokens rest" and "ahead [T_AND, T_OR] rest"
  shows "parse_logical n (cursor b (print_expr e @ rest) d) = Inr (e, cursor (rev (print_expr e) @ b) rest d)"
proof -
  obtain k where k: "n - 1 - rounds e = Suc k" using assms(2) rounds_less [of e] by (cases "n - 1 - rounds e") auto
  then show ?thesis using assms(1-3) match_any_ahead [OF assms(4)] by (simp add: reads_logical_def)
qed

lemma reads_Paren:
  assumes "reads_logical d e"
  shows "reads_primary d (Paren e)"
  unfolding reads_primary_def
proof (intro allI impI)
  fix n b rest assume n: "4 * length (print_expr (Paren e)) + 1 \<le> n"
  obtain m where m: "n = Suc m" using n by (cases n) auto
  have "parse_logical m (cursor (open_paren # b) (print_expr e @ close_paren # rest) d) =
      Inr (e, cursor (rev (print_expr e) @ open_paren # b) (close_paren # rest) d)"
    by (rule reads_logical_end [OF assms _ close_ahead]) (use n m in auto)
  moreover have "match_token T_OPEN_PAREN (cursor b (open_paren # print_expr e @ close_paren # rest) d) =
      (True, cursor (open_paren # b) (print_expr e @ close_paren # rest) d)"
    by (simp add: cursor open_paren_def)
  ultimately show "parse_primary n (cursor b (print_expr (Paren e) @ rest) d) =
      Inr (Paren e, cursor (rev (print_expr (Paren e)) @ b) rest d)"
    by (simp add: m cursor close_paren_def)
qed

lemma reads_expr:
  "expr_ok e \<Longrightarrow> reads_logical d e \<and> (is_comparison e \<longrightarrow> reads_comparison d e) \<and> (is_primary e \<longrightarrow> reads_primary d e)"
proof (induction e)
  case (Comparison l c r)
  then show ?case using reads_Comparison [of d l r c] reads_comparison_logical by simp
next
  case (Logical l c r)
  then show ?case using reads_Logical by simp
next
  case (Paren e)
  then show ?case using reads_Paren reads_primary_comparison reads_comparison_logical by simp
qed (use reads_leaf reads_primary_comparison reads_comparison_logical in fastforce)+

lemma parse_expression_print:
  assumes "expr_ok e" and "ahead (T_AND # T_OR # comparison_tokens) rest"
  shows "parse_expression (cursor b (print_expr e @ rest) d) = Inr (e, cursor (rev (print_expr e) @ b) rest d)"
  unfolding parse_expression_def
  by (rule reads_logical_end [OF conjunct1 [OF reads_expr [OF assms(1)]]])
    (use assms(2) in \<open>auto simp: cursor ahead_def split: list.splits\<close>)

section \<open>Comma-separated lists\<close>

definition comma :: token where "comma = add_token T_COMMA '',''"

fun separated :: "token list list \<Rightarrow> token list" where
  "separated [] = []"
| "separated [ts] = ts"
| "separated (ts # us # tss) = ts @ comma # separated (us # tss)"

lemma comma_rounds_print:
  assumes "\<And>x b rest. x \<in> set xs \<Longrightarrow> item (cursor b (pr x @ rest) d) = Inr (x, cursor (rev (pr x) @ b) rest d)"
    and "xs \<noteq> []" and "length xs \<le> n" and "ahead [T_COMMA] rest"
  shows "comma_rounds n item acc (cursor b (separated (map pr xs) @ rest) d) =
    Inr (acc @ xs, cursor (rev (separated (map pr xs)) @ b) rest d)"
  using assms
proof (induction xs arbitrary: n acc b)
  case (Cons x xs)
  obtain m where m: "n = Suc m" using Cons.prems(3) by (cases n) auto
  show ?case
  proof (cases xs)
    case Nil
    have "match_token T_COMMA (cursor b' rest d) = (False, cursor b' rest d)" for b'
      using assms(4) by (cases rest) (simp_all add: cursor)
    then show ?thesis using Cons.prems(1) by (simp add: m Nil)
  next
    case (Cons y ys)
    have "comma_rounds m item (acc @ [x]) (cursor (comma # rev (pr x) @ b) (separated (map pr xs) @ rest) d) =
      Inr ((acc @ [x]) @ xs, cursor (rev (separated (map pr xs)) @ comma # rev (pr x) @ b) rest d)"
      by (rule Cons.IH) (use Cons.prems Cons m in auto)
    moreover have "item (cursor b (pr x @ comma # separated (map pr xs) @ rest) d) =
        Inr (x, cursor (rev (pr x) @ b) (comma # separated (map pr xs) @ rest) d)"
      using Cons.prems(1) by simp
    ultimately show ?thesis by (simp add: m Cons cursor comma_def)
  qed
qed simp

lemma length_separated: "(\<And>x. x \<in> set xs \<Longrightarrow> pr x \<noteq> []) \<Longrightarrow> length xs \<le> length (separated (map pr xs))"
proof (induction xs)
  case (Cons x xs)
  have "Suc 0 \<le> length (pr x)" using Cons.prems [of x] by (cases "pr x") auto
  then show ?case using Cons by (cases xs) auto
qed simp

lemma comma_loop_print:
  assumes "\<And>x b rest. x \<in> set xs \<Longrightarrow> item (cursor b (pr x @ rest) d) = Inr (x, cursor (rev (pr x) @ b) rest d)"
    and "\<And>x. x \<in> set xs \<Longrightarrow> pr x \<noteq> []" and "xs \<noteq> []" and "ahead [T_COMMA] rest"
  shows "comma_loop item (cursor b (separated (map pr xs) @ rest) d) =
    Inr (xs, cursor (rev (separated (map pr xs)) @ b) rest d)"
proof -
  have "length xs \<le> Suc (length (separated (map pr xs) @ rest))"
    using length_separated [of xs pr, OF assms(2)] by simp
  from comma_rounds_print [OF assms(1,3) this assms(4), where acc = "[]"] show ?thesis
    by (simp add: comma_loop_def cursor)
qed

section \<open>Statements\<close>

definition names :: "string list \<Rightarrow> token list" where
  "names xs = separated (map (\<lambda>x. [name_token x]) xs)"

lemma comma_names:
  assumes "xs \<noteq> []" and "ahead [T_COMMA] rest"
  shows "comma_loop ident_item (cursor b (names xs @ rest) d) = Inr (xs, cursor (rev (names xs) @ b) rest d)"
  unfolding names_def
  by (rule comma_loop_print [OF _ _ assms]) (simp_all add: ident_item_def cursor name_token_def)

definition semicolon :: token where "semicolon = add_token T_SEMICOLON '';''"

definition print_where :: "expr option \<Rightarrow> token list" where
  "print_where c = (case c of None \<Rightarrow> [] | Some e \<Rightarrow> add_token T_WHERE ''where'' # print_expr e)"

definition where_ok :: "expr option \<Rightarrow> bool" where
  "where_ok c \<longleftrightarrow> (case c of None \<Rightarrow> True | Some e \<Rightarrow> expr_ok e)"

definition stops :: "token list \<Rightarrow> bool" where
  "stops rest \<longleftrightarrow> ahead (T_WHERE # T_COMMA # T_AND # T_OR # comparison_tokens) rest"

lemma stops_ahead: "stops rest \<Longrightarrow> set tys \<subseteq> set (T_WHERE # T_COMMA # T_AND # T_OR # comparison_tokens) \<Longrightarrow> ahead tys rest"
  unfolding stops_def ahead_def by (auto split: list.splits)

lemma stops_simps [simp]: "stops []" "tk_type t = T_SEMICOLON \<Longrightarrow> stops (t # ts)" "tk_type t = T_IDENTIFIER \<Longrightarrow> stops (t # ts)"
  "tk_type t = T_END_OF_FILE \<Longrightarrow> stops (t # ts)"
  by (simp_all add: stops_def comparison_tokens_def)

lemma optional_where_print:
  assumes "where_ok c" and "stops rest"
  shows "optional_where (cursor b (print_where c @ rest) d) = Inr (c, cursor (rev (print_where c) @ b) rest d)"
proof (cases c)
  case None
  have "match_token T_WHERE (cursor b rest d) = (False, cursor b rest d)"
    using stops_ahead [OF assms(2), of "[T_WHERE]"] by (cases rest) (simp_all add: cursor)
  then show ?thesis by (simp add: None optional_where_def print_where_def)
next
  case (Some e)
  have "ahead (T_AND # T_OR # comparison_tokens) rest" by (rule stops_ahead [OF assms(2)]) auto
  then show ?thesis
    using assms(1) parse_expression_print [of e rest]
    by (simp add: Some optional_where_def print_where_def where_ok_def cursor)
qed

definition value_token :: "string \<Rightarrow> token" where
  "value_token v = add_token T_STRING v"

definition print_insert :: "insert_statement \<Rightarrow> token list" where
  "print_insert s =
     [add_token T_INSERT ''insert'', add_token T_INTO ''into'', name_token (ins_table s), open_paren] @
     names (ins_columns s) @ [close_paren, add_token T_VALUES ''values'', open_paren] @
     separated (map (\<lambda>v. [value_token v]) (ins_values s)) @ [close_paren, semicolon]"

definition insert_ok :: "insert_statement \<Rightarrow> bool" where
  "insert_ok s \<longleftrightarrow> ins_columns s \<noteq> [] \<and> length (ins_columns s) = length (ins_values s)"

definition assignment_tokens :: "string \<times> string \<Rightarrow> token list" where
  "assignment_tokens = (\<lambda>(c, v). [name_token c, add_token T_EQUAL ''='', value_token v])"

definition print_update :: "update_statement \<Rightarrow> token list" where
  "print_update s =
     [add_token T_UPDATE ''update'', name_token (upd_table s), add_token T_SET ''set''] @
     separated (map assignment_tokens (upd_assignments s)) @ print_where (Some (upd_where s)) @ [semicolon]"

definition print_delete :: "delete_statement \<Rightarrow> token list" where
  "print_delete s =
     [add_token T_DELETE ''delete'', add_token T_FROM ''from'', name_token (del_table s)] @
     print_where (del_where s) @ [semicolon]"

definition print_limit :: "nat option \<Rightarrow> token list" where
  "print_limit l = (case l of None \<Rightarrow> [] | Some n \<Rightarrow> [name_token ''limit'', add_token T_NUMBER (show_nat n)])"

definition print_select :: "select_statement \<Rightarrow> token list" where
  "print_select s =
     [add_token T_SELECT ''select''] @
     (if sel_columns s = [''*''] then [add_token T_MULTIPLY ''*''] else names (sel_columns s)) @
     [add_token T_FROM ''from'', name_token (sel_table s)] @
     print_where (sel_where s) @ print_limit (sel_limit s) @ [semicolon]"

definition select_ok :: "select_statement \<Rightarrow> bool" where
  "select_ok s \<longleftrightarrow> sel_columns s \<noteq> [] \<and> where_ok (sel_where s) \<and>
     (case sel_limit s of None \<Rightarrow> True | Some n \<Rightarrow> int n \<le> INT32_MAX)"

lemma types_of_tokens [simp]:
  "tk_type open_paren = T_OPEN_PAREN" "tk_type close_paren = T_CLOSE_PAREN" "tk_type comma = T_COMMA"
  "tk_type semicolon = T_SEMICOLON" "tk_type (name_token s) = T_IDENTIFIER" "tk_value (name_token s) = s"
  "tk_type (value_token v) = T_STRING" "tk_value (value_token v) = v"
  by (simp_all add: token_defs comma_def semicolon_def value_token_def)

lemma parse_print_insert:
  assumes "insert_ok s"
  shows "\<exists>p'. parse_insert_syntax (cursor b (print_insert s @ rest) d) = Inr (s, p')"
proof -
  have vals: "comma_loop value_item (cursor b' (separated (map (\<lambda>v. [value_token v]) (ins_values s)) @ close_paren # r) d) =
      Inr (ins_values s, cursor (rev (separated (map (\<lambda>v. [value_token v]) (ins_values s))) @ b') (close_paren # r) d)" for b' r
    by (rule comma_loop_print) (use assms in \<open>auto simp: value_item_def cursor insert_ok_def\<close>)
  show ?thesis
    using assms by (simp add: parse_insert_syntax_def print_insert_def cursor comma_names vals insert_ok_def)
qed

lemma parse_print_update:
  assumes "upd_assignments s \<noteq> []" and "expr_ok (upd_where s)"
  shows "\<exists>p'. parse_update_statement (cursor b (print_update s @ rest) d) = Inr (s, p')"
proof -
  have asg: "comma_loop assignment_item (cursor b' (separated (map assignment_tokens (upd_assignments s)) @ r) d) =
      Inr (upd_assignments s, cursor (rev (separated (map assignment_tokens (upd_assignments s))) @ b') r d)"
    if "ahead [T_COMMA] r" for b' r
    by (rule comma_loop_print) (use assms that in \<open>auto simp: assignment_item_def assignment_tokens_def cursor\<close>)
  have "ahead (T_AND # T_OR # comparison_tokens) (semicolon # rest)" by (simp add: comparison_tokens_def)
  then show ?thesis
    using assms parse_expression_print [of "upd_where s" "semicolon # rest"]
    by (simp add: parse_update_statement_def print_update_def print_where_def cursor asg)
qed

lemma parse_print_delete:
  assumes "where_ok (del_where s)"
  shows "\<exists>p'. parse_delete_syntax (cursor b (print_delete s @ rest) d) = Inr (s, p')"
  using optional_where_print [OF assms, of "semicolon # rest"]
  by (simp add: parse_delete_syntax_def print_delete_def cursor)

lemma optional_limit_print:
  assumes "case l of None \<Rightarrow> True | Some n \<Rightarrow> int n \<le> INT32_MAX"
  shows "optional_limit (cursor b (print_limit l @ semicolon # rest) d) = Inr (l, cursor (rev (print_limit l) @ b) (semicolon # rest) d)"
  using assms by (auto simp: optional_limit_def print_limit_def cursor int_limits split: option.splits)

lemma parse_print_select:
  assumes "select_ok s" and "d \<noteq> []"
  shows "\<exists>p'. parse_select_statement (cursor b (print_select s @ rest) d) = Inr (s, p')"
proof -
  let ?cols = "if sel_columns s = [''*''] then [add_token T_MULTIPLY ''*''] else names (sel_columns s)"
  have nm: "\<exists>t ts. names (sel_columns s) = t # ts \<and> tk_type t = T_IDENTIFIER"
    using assms(1) by (cases "sel_columns s"; cases "tl (sel_columns s)") (auto simp: select_ok_def names_def)
  have cols: "select_columns (cursor b' (?cols @ add_token T_FROM ''from'' # r) d) =
      Inr (sel_columns s, cursor (rev ?cols @ b') (add_token T_FROM ''from'' # r) d)" for b' r
  proof (cases "sel_columns s = [''*'']")
    case False
    have "match_token T_MULTIPLY (cursor b' (names (sel_columns s) @ add_token T_FROM ''from'' # r) d) =
        (False, cursor b' (names (sel_columns s) @ add_token T_FROM ''from'' # r) d)"
      using nm by (auto simp: cursor)
    then show ?thesis using False assms(1) by (simp add: select_columns_def comma_names select_ok_def)
  qed (simp add: select_columns_def cursor)
  have "stops (print_limit (sel_limit s) @ semicolon # rest)"
    by (cases "sel_limit s") (simp_all add: print_limit_def)
  then have wh: "optional_where (cursor b' (print_where (sel_where s) @ print_limit (sel_limit s) @ semicolon # rest) d) =
      Inr (sel_where s, cursor (rev (print_where (sel_where s)) @ b') (print_limit (sel_limit s) @ semicolon # rest) d)" for b'
    using optional_where_print assms(1) by (simp add: select_ok_def)
  have lim: "optional_limit (cursor b' (print_limit (sel_limit s) @ semicolon # rest) d) =
      Inr (sel_limit s, cursor (rev (print_limit (sel_limit s)) @ b') (semicolon # rest) d)" for b'
    by (rule optional_limit_print) (use assms(1) in \<open>simp add: select_ok_def\<close>)
  show ?thesis
    using assms(2) by (simp add: parse_select_statement_def print_select_def cursor no_database_def cols wh lim)
qed

section \<open>Statements as text\<close>

text \<open>Names that the lexer gives back as one identifier, and values a string literal can carry.\<close>

definition name_ok :: "string \<Rightarrow> bool" where
  "name_ok s \<longleftrightarrow> word_text s \<and> map to_lower s = s \<and> classify s = T_IDENTIFIER"

fun expr_text_ok :: "expr \<Rightarrow> bool" where
  "expr_text_ok (Identifier s) = name_ok s"
| "expr_text_ok (StringLiteral s) = string_text s"
| "expr_text_ok (Comparison l c r) = (expr_text_ok l \<and> expr_text_ok r)"
| "expr_text_ok (Logical l c r) = (expr_text_ok l \<and> expr_text_ok r)"
| "expr_text_ok (Paren e) = expr_text_ok e"
| "expr_text_ok _ = True"

definition where_text_ok :: "expr option \<Rightarrow> bool" where
  "where_text_ok c \<longleftrightarrow> (case c of None \<Rightarrow> True | Some e \<Rightarrow> expr_ok e \<and> expr_text_ok e)"

definition insert_text_ok :: "insert_statement \<Rightarrow> bool" where
  "insert_text_ok s \<longleftrightarrow> insert_ok s \<and> name_ok (ins_table s) \<and> list_all name_ok (ins_columns s) \<and>
     list_all string_text (ins_values s)"

definition update_text_ok :: "update_statement \<Rightarrow> bool" where
  "update_text_ok s \<longleftrightarrow> upd_assignments s \<noteq> [] \<and> name_ok (upd_table s) \<and>
     list_all (\<lambda>(c, v). name_ok c \<and> string_text v) (upd_assignments s) \<and> expr_ok (upd_where s) \<and> expr_text_ok (upd_where s)"

definition delete_text_ok :: "delete_statement \<Rightarrow> bool" where
  "delete_text_ok s \<longleftrightarrow> name_ok (del_table s) \<and> where_text_ok (del_where s)"

definition select_text_ok :: "select_statement \<Rightarrow> bool" where
  "select_text_ok s \<longleftrightarrow> select_ok s \<and> (sel_columns s = [''*''] \<or> list_all name_ok (sel_columns s)) \<and>
     name_ok (sel_table s) \<and> where_text_ok (sel_where s)"

lemma token_ok_name: "name_ok s \<Longrightarrow> token_ok (name_token s)"
  using token_ok_word [of s] by (simp add: name_ok_def name_token_def)

lemma token_ok_value: "string_text v \<Longrightarrow> token_ok (value_token v)"
  by (simp add: token_ok_def value_token_def)

lemma token_ok_number: "token_ok (add_token T_NUMBER (show_nat n))"
proof -
  have "number_text (show_nat n)" unfolding number_text_def
    by (rule exI [of _ "show_nat n"], rule exI [of _ "[]"]) (simp add: show_nat_digits)
  then show ?thesis by (simp add: token_ok_def)
qed

lemma word_tokens_ok:
  "token_ok (add_token T_AND ''and'')" "token_ok (add_token T_OR ''or'')" "token_ok (add_token T_WHERE ''where'')"
  "token_ok (add_token T_INSERT ''insert'')" "token_ok (add_token T_INTO ''into'')"
  "token_ok (add_token T_VALUES ''values'')" "token_ok (add_token T_UPDATE ''update'')"
  "token_ok (add_token T_SET ''set'')" "token_ok (add_token T_DELETE ''delete'')"
  "token_ok (add_token T_FROM ''from'')" "token_ok (add_token T_SELECT ''select'')"
  "token_ok (name_token ''true'')" "token_ok (name_token ''false'')" "token_ok (name_token ''limit'')"
  by (simp_all add: token_ok_def word_text_def word_start_def word_char_def is_alpha_def is_digit_def to_lower_def
      classify_def keyword_table_def name_token_def Let_def)

lemma sign_tokens_ok:
  "token_ok open_paren" "token_ok close_paren" "token_ok comma" "token_ok semicolon"
  "token_ok (add_token T_EQUAL ''='')" "token_ok (add_token T_MULTIPLY ''*'')" "token_ok (comparison_token c)"
  by (cases c; simp add: token_ok_def token_defs comma_def semicolon_def operator_texts_def single_char_tokens_def)+

lemmas tokens_ok = token_ok_name token_ok_value token_ok_number word_tokens_ok sign_tokens_ok

lemma tokens_ok_expr: "expr_text_ok e \<Longrightarrow> list_all token_ok (print_expr e)"
proof (induction e)
  case (Logical l c r)
  then show ?case by (cases c) (simp_all add: tokens_ok)
next
  case (StringLiteral s)
  then show ?case using token_ok_value [of s] by (simp add: value_token_def)
qed (simp_all add: tokens_ok)

lemma tokens_ok_separated:
  "(\<And>x. x \<in> set xs \<Longrightarrow> list_all token_ok (pr x)) \<Longrightarrow> list_all token_ok (separated (map pr xs))"
proof (induction xs)
  case (Cons x xs)
  then show ?case by (cases xs) (simp_all add: tokens_ok)
qed simp

lemma tokens_ok_names: "list_all name_ok xs \<Longrightarrow> list_all token_ok (names xs)"
  unfolding names_def by (rule tokens_ok_separated) (simp add: tokens_ok list_all_iff)

lemma tokens_ok_where: "where_text_ok c \<Longrightarrow> list_all token_ok (print_where c)"
  by (cases c) (simp_all add: where_text_ok_def print_where_def tokens_ok tokens_ok_expr)

lemma tokens_ok_statements:
  "insert_text_ok i \<Longrightarrow> list_all token_ok (print_insert i)"
  "update_text_ok u \<Longrightarrow> list_all token_ok (print_update u)"
  "delete_text_ok x \<Longrightarrow> list_all token_ok (print_delete x)"
  "select_text_ok s \<Longrightarrow> list_all token_ok (print_select s)"
proof -
  show "list_all token_ok (print_insert i)" if "insert_text_ok i"
    using that tokens_ok_names tokens_ok_separated [of "ins_values i" "\<lambda>v. [value_token v]"]
    by (auto simp: print_insert_def insert_text_ok_def tokens_ok list_all_iff)
  show "list_all token_ok (print_update u)" if "update_text_ok u"
  proof -
    have "list_all token_ok (separated (map assignment_tokens (upd_assignments u)))"
      by (rule tokens_ok_separated) (use that in \<open>auto simp: assignment_tokens_def update_text_ok_def list_all_iff tokens_ok\<close>)
    moreover have "list_all token_ok (print_where (Some (upd_where u)))"
      by (rule tokens_ok_where) (use that in \<open>simp add: update_text_ok_def where_text_ok_def\<close>)
    ultimately show ?thesis using that by (simp add: print_update_def update_text_ok_def tokens_ok)
  qed
  show "list_all token_ok (print_delete x)" if "delete_text_ok x"
    using that by (simp add: print_delete_def delete_text_ok_def tokens_ok tokens_ok_where)
  show "list_all token_ok (print_select s)" if "select_text_ok s"
    using that tokens_ok_names [of "sel_columns s"]
    by (auto simp: print_select_def select_text_ok_def tokens_ok tokens_ok_where print_limit_def split: option.split)
qed

text \<open>Lexing the printed statement and running it.\<close>

lemma tokenize_printed: "list_all token_ok ts \<Longrightarrow> tokenize (print_tokens ts) = Inr (ts @ [add_token T_END_OF_FILE []])"
  using loop_print [of ts "mk_lexer (print_tokens ts)" "[]"] by (simp add: tokenize_def mk_lexer_def)

lemma run_printed:
  assumes "list_all token_ok ts"
  shows "run_sql bk d (print_tokens ts) w = dispatch bk branches (cursor [] (ts @ [add_token T_END_OF_FILE []]) d) w"
  by (simp add: run_sql_def tokenize_printed [OF assms] parse_def cursor)

text \<open>The branch of a statement gets the parser behind its keyword and goes back one token.\<close>

lemma dispatch_hit:
  assumes "(ty, br) \<in> set bs" and "distinct (map fst bs)" and "tk_type t = ty"
  shows "dispatch bk bs (cursor [] (t # ts) d) w = br bk (cursor [t] ts d) w"
  using assms by (induction bs) (auto simp: cursor rev_image_eqI)

lemma branches_distinct: "distinct (map fst branches)"
  by (simp add: branches_def)

end
