(* ===== verification/Select_Eval.thy ===== *)
theory Select_Eval
  imports SQL_AST Std_Text
begin

text \<open>
  The evaluation of a WHERE clause on a row (\<open>AstParser\<close> in \<open>selectAstEvaluator.hpp\<close>) and the JSON text of
  a value. A row maps column names to values; rows read from disk hold strings only.
\<close>

section \<open>Values\<close>

text \<open>A null expression cannot occur, see \<open>SQL_AST\<close>.\<close>

fun get_value_from_row :: "expr \<Rightarrow> row \<Rightarrow> val result" where
  "get_value_from_row (Identifier nm) r =
     (case r nm of None \<Rightarrow> Inl (Throw (''Unknown column: '' @ nm)) | Some v \<Rightarrow> Inr v)"
| "get_value_from_row (IntLiteral n) r = Inr (V_int n)"
| "get_value_from_row (StringLiteral s) r = Inr (V_string s)"
| "get_value_from_row (BoolLiteral b) r = Inr (V_bool b)"
| "get_value_from_row (Paren e) r = get_value_from_row e r"
| "get_value_from_row (Comparison _ _ _) r = Inl (Throw ''Invalid expression in getValueFromRow'')"
| "get_value_from_row (Logical _ _ _) r = Inl (Throw ''Invalid expression in getValueFromRow'')"

definition is_numeric_string :: "string \<Rightarrow> bool" where
  "is_numeric_string s \<longleftrightarrow> s \<noteq> [] \<and> list_all (\<lambda>c. is_digit c \<or> c = CHR ''-'') s"

text \<open>The three coercions at the start of \<open>compareValues\<close>, one after the other.\<close>

definition to_number :: "string \<Rightarrow> val result" where
  "to_number s =
     (if is_numeric_string s then bindE (stoll s) (\<lambda>n. Inr (V_int n))
      else Inl (Throw ''Invalid numeric comparison''))"

fun coerce :: "val \<Rightarrow> val \<Rightarrow> (val \<times> val) result" where
  "coerce (V_string s) (V_int n) = bindE (to_number s) (\<lambda>l. Inr (l, V_int n))"
| "coerce (V_int n) (V_string s) = bindE (to_number s) (\<lambda>r. Inr (V_int n, r))"
| "coerce (V_string s) (V_string t) =
     (if is_numeric_string s \<and> is_numeric_string t then
        bindE (stoll s) (\<lambda>a. bindE (stoll t) (\<lambda>b. Inr (V_int a, V_int b)))
      else Inr (V_string s, V_string t))"
| "coerce l r = Inr (l, r)"

text \<open>\<open>operator<\<close> of \<open>std::string\<close>: lexicographic on unsigned characters.\<close>

fun string_less :: "string \<Rightarrow> string \<Rightarrow> bool" where
  "string_less _ [] = False"
| "string_less [] (_ # _) = True"
| "string_less (c # cs) (d # ds) =
     (if (of_char c :: nat) = of_char d then string_less cs ds else (of_char c :: nat) < of_char d)"

fun compare_op :: "comparison_operator \<Rightarrow> ('a \<Rightarrow> 'a \<Rightarrow> bool) \<Rightarrow> 'a \<Rightarrow> 'a \<Rightarrow> bool" where
  "compare_op C_EQUAL lt l r = (l = r)"
| "compare_op C_NOT_EQUAL lt l r = (l \<noteq> r)"
| "compare_op C_GREATER lt l r = lt r l"
| "compare_op C_LESS lt l r = lt l r"
| "compare_op C_GREATER_EQUAL lt l r = (\<not> lt l r)"
| "compare_op C_LESS_EQUAL lt l r = (\<not> lt r l)"

fun compare_same :: "val \<Rightarrow> val \<Rightarrow> comparison_operator \<Rightarrow> bool result" where
  "compare_same (V_int l) (V_int r) c = Inr (compare_op c (<) l r)"
| "compare_same (V_string l) (V_string r) c = Inr (compare_op c string_less l r)"
| "compare_same (V_bool l) (V_bool r) c =
     (if c = C_EQUAL then Inr (l = r) else if c = C_NOT_EQUAL then Inr (l \<noteq> r)
      else Inl (Throw ''Invalid operator for bool''))"
| "compare_same _ _ c = Inl (Throw ''Unsupported comparison type'')"

definition compare_values :: "val \<Rightarrow> val \<Rightarrow> comparison_operator \<Rightarrow> bool result" where
  "compare_values l r c =
     bindE (coerce l r) (\<lambda>(l1, r1).
       if val_index l1 \<noteq> val_index r1 then Inl (Throw ''Type mismatch in comparison'')
       else compare_same l1 r1 c)"

section \<open>Expressions\<close>

text \<open>Both operands of \<open>AND\<close> and \<open>OR\<close> are evaluated, whatever the first one gives.\<close>

fun evaluate_expression :: "expr \<Rightarrow> row \<Rightarrow> bool result" where
  "evaluate_expression (Logical l c r) row =
     bindE (evaluate_expression l row) (\<lambda>a. bindE (evaluate_expression r row) (\<lambda>b.
       Inr (if c = L_AND then a \<and> b else a \<or> b)))"
| "evaluate_expression (Comparison l c r) row =
     bindE (get_value_from_row l row) (\<lambda>a. bindE (get_value_from_row r row) (\<lambda>b. compare_values a b c))"
| "evaluate_expression (Paren e) row = evaluate_expression e row"
| "evaluate_expression e row =
     bindE (get_value_from_row e row) (\<lambda>v.
       case v of V_bool b \<Rightarrow> Inr b | _ \<Rightarrow> Inl (Throw ''Non-boolean expression in WHERE clause''))"

definition evaluate_where :: "expr option \<Rightarrow> row \<Rightarrow> bool result" where
  "evaluate_where c row = (case c of None \<Rightarrow> Inr True | Some e \<Rightarrow> evaluate_expression e row)"

text \<open>\<open>valueToJson\<close>; the text of a string is not escaped.\<close>

fun value_to_json :: "val \<Rightarrow> string" where
  "value_to_json (V_string s) = ''\"'' @ s @ ''\"''"
| "value_to_json (V_bool b) = (if b then ''true'' else ''false'')"
| "value_to_json (V_int n) = show_int n"

section \<open>The order on strings\<close>

lemma string_less_irrefl [simp]: "\<not> string_less s s"
  by (induction s) simp_all

lemma string_less_trans: "string_less a b \<Longrightarrow> string_less b c \<Longrightarrow> string_less a c"
proof (induction a b arbitrary: c rule: string_less.induct)
  case (2 d ds)
  then show ?case by (cases c) (auto split: if_splits)
next
  case (3 x xs y ys)
  then show ?case by (cases c) (auto split: if_splits)
qed simp

lemma string_less_total: "s \<noteq> t \<Longrightarrow> string_less s t \<or> string_less t s"
proof (induction s t rule: string_less.induct)
  case (3 c cs d ds)
  have "(of_char c :: nat) < of_char d \<or> (of_char d :: nat) < of_char c" if "c \<noteq> d"
    using that by (metis linorder_neqE_nat of_char_eq_iff)
  then show ?case using 3 by auto
qed (auto simp: neq_Nil_conv)

section \<open>Numeric strings\<close>

lemma is_numeric_show_int: "is_numeric_string (show_int n)"
  using show_nat_digits by (auto simp: is_numeric_string_def show_int_def list_all_iff)

lemma coerce_ints:
  assumes "INT64_MIN \<le> i" "i \<le> INT64_MAX" "INT64_MIN \<le> j" "j \<le> INT64_MAX"
  shows "coerce (V_string (show_int i)) (V_string (show_int j)) = Inr (V_int i, V_int j)"
  using assms by (simp add: is_numeric_show_int)

lemma coerce_index: "coerce l r = Inr (a, b) \<Longrightarrow> val_index a = val_index b \<Longrightarrow>
    (\<exists>i j. a = V_int i \<and> b = V_int j) \<or> (\<exists>s t. a = V_string s \<and> b = V_string t) \<or> (\<exists>p q. a = V_bool p \<and> b = V_bool q)"
  by (cases a; cases b) simp_all

text \<open>Swapping the operands swaps the coerced values.\<close>

lemma coerce_swap: "coerce l r = Inr (a, b) \<Longrightarrow> coerce r l = Inr (b, a)"
  by (cases l; cases r) (auto simp: bindE_Inr split: if_splits)

lemma compare_values_cases:
  assumes "compare_values l r c = Inr x"
  obtains (ints) i j where "coerce l r = Inr (V_int i, V_int j)" "x = compare_op c (<) i j"
  | (strings) s t where "coerce l r = Inr (V_string s, V_string t)" "x = compare_op c string_less s t"
  | (bools) p q where "coerce l r = Inr (V_bool p, V_bool q)" "c = C_EQUAL \<and> x = (p = q) \<or> c = C_NOT_EQUAL \<and> x = (p \<noteq> q)"
proof -
  obtain a b where ab: "coerce l r = Inr (a, b)" "val_index a = val_index b" "compare_same a b c = Inr x"
    using assms by (auto simp: compare_values_def bindE_Inr split: if_splits)
  show thesis
    using coerce_index [OF ab(1,2)] ab that by (auto split: if_splits)
qed

end
