(* ===== verification/Parse_Props.thy ===== *)
theory Parse_Props
  imports Parse_Calls Parse_Print Select_Eval
begin

text \<open>
  The properties of the parser, of the dispatcher and of the evaluation of WHERE clauses, with their
  witnesses. \<open>log_engine\<close> is an engine for the witnesses: it accepts every call and keeps a list of them.
\<close>

definition log_engine :: "db_call list backend" where
  "log_engine = \<lparr>bk_run = (\<lambda>c w. (Inr ''done'', w @ [c])), bk_check_table = (\<lambda>_ _. Inr (True, [])),
     bk_file_exists = (\<lambda>_ _. True), bk_indicators = (\<lambda>_. [])\<rparr>"

section \<open>Tokens of the lexer\<close>

lemma token_ok_number_text:
  assumes "token_ok t" and "tk_type t = T_NUMBER"
  shows "number_text (tk_value t)"
proof -
  have "\<forall>ty \<in> set (T_IDENTIFIER # map snd keyword_table). ty \<noteq> T_NUMBER" by (simp add: keyword_table_def)
  then have "classify (tk_value t) \<noteq> T_NUMBER"
    by (auto simp: classify_def split: option.split dest!: map_of_SomeD)
  moreover have "(T_NUMBER, v) \<notin> set operator_texts" for v
    by (simp add: operator_texts_def single_char_tokens_def)
  ultimately show ?thesis using assms by (auto simp: token_ok_def)
qed

lemma lexed:
  assumes "tokenize src = Inr toks"
  shows "numbers (set toks)" and "inside (set toks) (mk_parser d toks)"
proof -
  obtain ts where ts: "toks = ts @ [add_token T_END_OF_FILE []]" "list_all token_ok ts"
    using tokenize_loop_ok [OF assms [unfolded tokenize_def]] by auto
  then show "numbers (set toks)" by (auto simp: numbers_def list_all_iff token_ok_number_text)
  show "inside (set toks) (mk_parser d toks)" by (simp add: inside_def live_def mk_parser_def ts(1))
qed

lemma too_big_digits:
  assumes "too_big t" and "number_text (tk_value t)"
  shows "INT64_MAX < digits_value (takeWhile is_digit (tk_value t))"
proof -
  obtain ds es where d: "ds \<noteq> []" "list_all is_digit ds" "tk_value t = ds \<or> tk_value t = ds @ CHR ''.'' # es"
    using assms(2) by (auto simp: number_text_def)
  have nd: "\<not> is_digit CHR ''.''" by (simp add: is_digit_def)
  then obtain r where r: "tk_value t = ds @ r" "r = [] \<or> \<not> is_digit (hd r)" using d(3) by auto
  have "takeWhile is_digit (ds @ r) = ds" by (rule takeWhile_all_append [OF d(2) r(2)])
  moreover have "\<not> (INT64_MIN \<le> digits_value ds \<and> digits_value ds \<le> INT64_MAX)"
    using assms(1) signed_digits_number [OF d(1,2) r(2), of False]
    by (auto simp: too_big_def from_chars_def r(1) split: if_splits)
  ultimately show ?thesis using digits_value_nonneg [OF d(2)] by (simp add: r(1) int_limits)
qed

section \<open>Calls of the engine\<close>

text \<open>What reaches the engine. Whatever the text and however the engine answers, one run makes at most
  four calls, and every statement passed to it is complete: as many values as columns in an INSERT and at
  least one, assignments and a condition in an UPDATE, a grammatical condition wherever there is one, and a
  non-empty key and value for the memory store.\<close>

theorem engine_calls_ok:
  assumes "run_sql (logged bk) d src (w, []) = (r, w', calls)"
  shows "list_all call_ok calls \<and> length calls \<le> 4"
proof (cases "tokenize src")
  case (Inr toks)
  have "grown 4 [] (dispatch (logged bk) branches (mk_parser d toks) (w, []))"
    by (rule grown_dispatch [OF lexed [OF Inr] order_refl])
  then show ?thesis using assms Inr by (auto simp: run_sql_def parse_def grown_def)
qed (use assms in \<open>simp add: run_sql_def\<close>)

lemma engine_calls_ok_witness:
  "\<exists>calls. snd (snd (run_sql (logged log_engine) ''d'' ''update t set a = 1 where b > 2 or c = d;'' ([], []))) = calls \<and>
     length calls = 1 \<and> list_all call_ok calls"
proof -
  obtain r w' calls where r: "run_sql (logged log_engine) ''d'' ''update t set a = 1 where b > 2 or c = d;'' ([], []) = (r, w', calls)"
    by (metis prod_cases3)
  have "length (snd (snd (run_sql (logged log_engine) ''d'' ''update t set a = 1 where b > 2 or c = d;'' ([], [])))) = 1"
    by code_simp
  then show ?thesis using engine_calls_ok [OF r] r by simp
qed

section \<open>Round trips\<close>

text \<open>C13. The expression parser inverts printing. Reading the tokens of any expression of the grammar,
  followed by a token that does not continue it, gives the expression back and stops behind it.\<close>

theorem expression_roundtrip:
  assumes "expr_ok e" and "ahead (T_AND # T_OR # comparison_tokens) rest"
  shows "parse_expression (cursor b (print_expr e @ rest) d) = Inr (e, cursor (rev (print_expr e) @ b) rest d)"
  by (rule parse_expression_print [OF assms])

lemma expression_roundtrip_witness:
  "parse_expression (cursor [] (print_expr (Logical (Comparison (Identifier ''a'') C_LESS (IntLiteral 7)) L_AND
       (Paren (Logical (BoolLiteral True) L_OR (Identifier ''b'')))) @ [semicolon]) ''d'') =
     Inr (Logical (Comparison (Identifier ''a'') C_LESS (IntLiteral 7)) L_AND
       (Paren (Logical (BoolLiteral True) L_OR (Identifier ''b''))),
       cursor (rev (print_expr (Logical (Comparison (Identifier ''a'') C_LESS (IntLiteral 7)) L_AND
       (Paren (Logical (BoolLiteral True) L_OR (Identifier ''b'')))))) [semicolon] ''d'')"
  using expression_roundtrip [of "Logical (Comparison (Identifier ''a'') C_LESS (IntLiteral 7)) L_AND
       (Paren (Logical (BoolLiteral True) L_OR (Identifier ''b'')))" "[semicolon]" "[]" "''d''"]
  by (simp add: comparison_tokens_def int_limits)

lemma run_print_select:
  fixes bk :: "'w backend"
  assumes "select_text_ok s" and "d \<noteq> []"
  shows "run_sql bk d (print_tokens (print_select s)) w = caught (bk_run bk (Handle_select s) w)"
proof -
  let ?t = "add_token T_SELECT ''select''"
  obtain ts where ts: "print_select s = ?t # ts" by (simp add: print_select_def)
  obtain p' where p': "parse_select_statement (cursor [] (print_select s @ [add_token T_END_OF_FILE []]) d) = Inr (s, p')"
    using parse_print_select assms by (metis select_text_ok_def)
  have "(T_SELECT, branch_select) \<in> set (branches :: 'w branch list)" by (simp add: branches_def)
  from dispatch_hit [OF this branches_distinct, of ?t] show ?thesis
    using p' unfolding run_printed [OF tokens_ok_statements(4) [OF assms(1)]] unfolding ts
    by (simp add: branch_select_def cursor then_run_def)
qed

text \<open>A printed SELECT reaches the engine unchanged. Its text is lexed, parsed and dispatched to
  \<open>SelectQueryHandler::handle\<close> with exactly the statement, and the answer is the engine's, with an exception
  turned into the JSON error.\<close>

theorem select_text:
  fixes bk :: "'w backend"
  assumes "select_text_ok s" and "d \<noteq> []"
  shows "run_sql bk d (print_tokens (print_select s)) w = caught (bk_run bk (Handle_select s) w)"
  by (rule run_print_select [OF assms])

lemma name_ok_examples: "name_ok ''t''" "name_ok ''a''" "name_ok ''b''"
  by (simp_all add: name_ok_def word_text_def word_start_def word_char_def is_alpha_def to_lower_def classify_def
      keyword_table_def Let_def)

lemma string_text_example: "string_text ''x y''" "string_text []"
  by (simp_all add: string_text_def string_char_def NUL_def)

lemma select_text_witness:
  "run_sql log_engine ''d'' (print_tokens (print_select \<lparr>sel_columns = [''a'', ''b''], sel_table = ''t'',
       sel_where = Some (Comparison (Identifier ''a'') C_EQUAL (StringLiteral ''x y'')), sel_limit = Some 3\<rparr>)) [] =
     (Inr ''done'', [Handle_select \<lparr>sel_columns = [''a'', ''b''], sel_table = ''t'',
       sel_where = Some (Comparison (Identifier ''a'') C_EQUAL (StringLiteral ''x y'')), sel_limit = Some 3\<rparr>])"
  by (subst select_text) (simp_all add: select_text_ok_def select_ok_def where_ok_def where_text_ok_def name_ok_examples
      string_text_example int_limits log_engine_def)

lemma run_print_insert:
  fixes bk :: "'w backend"
  assumes "insert_text_ok s" and "bk_check_table bk (ins_table s) w = Inr (ok, msg)"
  shows "run_sql bk d (print_tokens (print_insert s)) w =
    (if ok then caught (run_all bk [Generate_insert s] w) else (Inr (error_json msg), w))"
proof -
  let ?t = "add_token T_INSERT ''insert''"
  obtain ts where ts: "print_insert s = ?t # ts" by (simp add: print_insert_def)
  obtain p' where p': "parse_insert_syntax (cursor [] (print_insert s @ [add_token T_END_OF_FILE []]) d) = Inr (s, p')"
    using parse_print_insert assms by (metis insert_text_ok_def)
  have "(T_INSERT, branch_insert) \<in> set (branches :: 'w branch list)" by (simp add: branches_def)
  from dispatch_hit [OF this branches_distinct, of ?t] show ?thesis
    using p' assms(2) unfolding run_printed [OF tokens_ok_statements(1) [OF assms(1)]] unfolding ts
    by (simp add: branch_insert_def cursor then_run_def parse_insert_statement_def del: run_all.simps)
qed

text \<open>A printed INSERT into a table that exists reaches the engine unchanged; for a table that does not
  exist the engine is not called.\<close>

theorem insert_text:
  fixes bk :: "'w backend"
  assumes "insert_text_ok s" and "bk_check_table bk (ins_table s) w = Inr (ok, msg)"
  shows "run_sql bk d (print_tokens (print_insert s)) w =
    (if ok then caught (run_all bk [Generate_insert s] w) else (Inr (error_json msg), w))"
  by (rule run_print_insert [OF assms])

lemma insert_text_witness:
  "run_sql log_engine ''d'' (print_tokens (print_insert \<lparr>ins_table = ''t'', ins_columns = [''a'', ''b''],
       ins_values = [''x y'', []]\<rparr>)) [] =
     (Inr success_json, [Generate_insert \<lparr>ins_table = ''t'', ins_columns = [''a'', ''b''], ins_values = [''x y'', []]\<rparr>])"
  by (subst insert_text [where ok = True and msg = "[]"])
    (simp_all add: insert_text_ok_def insert_ok_def name_ok_examples string_text_example log_engine_def)

text \<open>The same for UPDATE and DELETE.\<close>

theorem update_delete_text:
  fixes bk :: "'w backend"
  assumes "update_text_ok u" and "delete_text_ok x"
  shows "run_sql bk d (print_tokens (print_update u)) w = caught (run_all bk [Handle_update u] w) \<and>
    run_sql bk d (print_tokens (print_delete x)) w = caught (run_all bk [Handle_delete x] w)"
proof -
  let ?u = "add_token T_UPDATE ''update''" and ?x = "add_token T_DELETE ''delete''"
  obtain us where us: "print_update u = ?u # us" by (simp add: print_update_def)
  obtain xs where xs: "print_delete x = ?x # xs" by (simp add: print_delete_def)
  obtain p' where p': "parse_update_statement (cursor [] (print_update u @ [add_token T_END_OF_FILE []]) d) = Inr (u, p')"
    using parse_print_update assms(1) by (metis update_text_ok_def)
  have "where_ok (del_where x)"
    using assms(2) by (auto simp: delete_text_ok_def where_text_ok_def where_ok_def split: option.splits)
  then obtain q' where q': "parse_delete_syntax (cursor [] (print_delete x @ [add_token T_END_OF_FILE []]) d) = Inr (x, q')"
    using parse_print_delete by metis
  have "(T_UPDATE, branch_update) \<in> set (branches :: 'w branch list)" "(T_DELETE, branch_delete) \<in> set (branches :: 'w branch list)" by (simp_all add: branches_def)
  note hit = dispatch_hit [OF this(1) branches_distinct, of ?u] dispatch_hit [OF this(2) branches_distinct, of ?x]
  show ?thesis
    using p' q' hit unfolding run_printed [OF tokens_ok_statements(2) [OF assms(1)]]
      run_printed [OF tokens_ok_statements(3) [OF assms(2)]] unfolding us xs
    by (simp add: branch_update_def branch_delete_def cursor then_run_def del: run_all.simps)
qed

lemma update_delete_text_witness:
  "run_sql log_engine ''d'' (print_tokens (print_update \<lparr>upd_table = ''t'', upd_assignments = [(''a'', ''x y'')],
       upd_where = Comparison (Identifier ''b'') C_LESS_EQUAL (IntLiteral 5)\<rparr>)) [] =
     (Inr success_json, [Handle_update \<lparr>upd_table = ''t'', upd_assignments = [(''a'', ''x y'')],
       upd_where = Comparison (Identifier ''b'') C_LESS_EQUAL (IntLiteral 5)\<rparr>])"
  using update_delete_text [of "\<lparr>upd_table = ''t'', upd_assignments = [(''a'', ''x y'')],
       upd_where = Comparison (Identifier ''b'') C_LESS_EQUAL (IntLiteral 5)\<rparr>" "\<lparr>del_table = ''t'', del_where = None\<rparr>"
       log_engine "''d''" "[]"]
  by (simp add: update_text_ok_def delete_text_ok_def where_text_ok_def name_ok_examples string_text_example int_limits
      log_engine_def)

section \<open>Errors\<close>

definition caught_keywords :: "token_type list" where
  "caught_keywords = [T_STATISTICS, T_LIST, T_INSERT, T_SELECT, T_DROP, T_USE, T_DELETE, T_UPDATE, T_MEMORY]"

definition is_caught :: "('w backend \<Rightarrow> parser \<Rightarrow> 'w \<Rightarrow> 'w answer) \<Rightarrow> bool" where
  "is_caught br \<longleftrightarrow> (\<forall>bk p w. \<exists>a. br bk p w = caught a)"

lemma caught_branches:
  "is_caught branch_statistics" "is_caught branch_list" "is_caught branch_insert" "is_caught branch_select"
  "is_caught branch_drop" "is_caught branch_use" "is_caught branch_delete" "is_caught branch_update"
  "is_caught branch_memory"
  unfolding is_caught_def branch_statistics_def branch_list_def branch_insert_def branch_select_def
    branch_drop_def branch_use_def branch_delete_def branch_update_def branch_memory_def
  by blast+

text \<open>C14. Statements whose errors stay inside. For a text that starts with one of these nine keywords
  \<open>parse()\<close> throws nothing: \<open>execute_sql\<close> returns a text, and \<open>last_error\<close> keeps its old value even when the
  statement failed.\<close>

theorem errors_inside:
  fixes bk :: "'w backend"
  assumes "tokenize src = Inr (t # toks)" and "tk_type t \<in> set caught_keywords"
    and "execute_sql bk d last_error src w = (Inr (out, last_error'), w')"
  shows "out \<noteq> None \<and> last_error' = last_error"
proof -
  have no_throw: "fst (caught a) \<noteq> Inl (Throw m)" for a :: "'w answer" and m
    by (cases a rule: caught.cases) simp_all
  have "\<forall>ty \<in> set caught_keywords. \<exists>br. (ty, br) \<in> set (branches :: 'w branch list) \<and> is_caught br"
    by (simp add: caught_keywords_def branches_def caught_branches)
  then obtain br where br: "(tk_type t, br) \<in> set (branches :: 'w branch list)" "is_caught br"
    using assms(2) by blast
  then have br2: "fst (br bk p w) \<noteq> Inl (Throw m)" for p m
    using no_throw unfolding is_caught_def by metis
  have "run_sql bk d src w = br bk (cursor [t] toks d) w"
    using dispatch_hit [OF br(1) branches_distinct refl] by (simp add: run_sql_def assms(1) parse_def cursor)
  then show ?thesis
    using assms(3) br2 [of "cursor [t] toks d"]
    by (cases "br bk (cursor [t] toks d) w") (auto simp: execute_sql_def split: sum.splits fault.splits)
qed

lemma errors_inside_witness:
  "\<exists>out. execute_sql log_engine ''d'' ''old'' ''SELECT FROM t'' [] =
     (Inr (Some out, ''old''), []) \<and> out = error_json ''Parse error: Expected column name''"
proof -
  have tok: "tokenize ''SELECT FROM t'' = Inr (add_token T_SELECT ''select'' # [add_token T_FROM ''from'',
      add_token T_IDENTIFIER ''t'', add_token T_END_OF_FILE []])"
    by code_simp
  have run: "execute_sql log_engine ''d'' ''old'' ''SELECT FROM t'' [] =
      (Inr (Some (error_json ''Parse error: Expected column name''), ''old''), [])"
    by code_simp
  have "tk_type (add_token T_SELECT ''select'') \<in> set caught_keywords" by (simp add: caught_keywords_def)
  from errors_inside [OF tok this run] run show ?thesis by simp
qed

section \<open>Evaluation\<close>

text \<open>AND and OR have the same precedence. \<open>a OR b AND c\<close> is read as \<open>(a OR b) AND c\<close>, so a row with
  \<open>a\<close> true and \<open>c\<close> false is not selected.\<close>

theorem or_and_precedence:
  assumes "expr_ok a" "expr_ok b" "expr_ok c" and "is_comparison a" "is_comparison b" "is_comparison c"
    and "ahead (T_AND # T_OR # comparison_tokens) rest"
    and "evaluate_expression a row = Inr x" "evaluate_expression b row = Inr y" "evaluate_expression c row = Inr z"
  shows "\<exists>e p'. parse_expression (cursor [] (print_expr a @ logical_token L_OR # print_expr b @
      logical_token L_AND # print_expr c @ rest) d) = Inr (e, p') \<and>
    evaluate_expression e row = Inr ((x \<or> y) \<and> z)"
proof -
  let ?e = "Logical (Logical a L_OR b) L_AND c"
  have "expr_ok ?e" using assms(1-6) by simp
  from parse_expression_print [OF this assms(7), of "[]" d] show ?thesis
    using assms(8-10) by (intro exI [of _ ?e]) simp
qed

lemma or_and_precedence_witness:
  "\<exists>e p'. parse_expression (cursor [] (print_expr (BoolLiteral True) @ logical_token L_OR # print_expr (BoolLiteral True) @
      logical_token L_AND # print_expr (BoolLiteral False) @ [semicolon]) ''d'') = Inr (e, p') \<and>
    evaluate_expression e Map.empty = Inr False"
  using or_and_precedence [of "BoolLiteral True" "BoolLiteral True" "BoolLiteral False" "[semicolon]" Map.empty True True
      False "''d''"]
  by (simp add: comparison_tokens_def)

text \<open>The comparison operators agree with each other. Whenever \<open><\<close> gives an answer, so do the other
  five, and they are its mirror image, negations and the two equalities; of \<open><\<close>, \<open>=\<close> and \<open>></\<close> exactly one
  holds.\<close>

theorem compare_values_laws:
  assumes "compare_values l r C_LESS = Inr x"
  shows "\<exists>y z. compare_values l r C_GREATER = Inr y \<and> compare_values r l C_LESS = Inr y \<and>
    compare_values l r C_EQUAL = Inr z \<and> compare_values l r C_NOT_EQUAL = Inr (\<not> z) \<and>
    compare_values l r C_GREATER_EQUAL = Inr (\<not> x) \<and> compare_values l r C_LESS_EQUAL = Inr (\<not> y) \<and>
    (x \<or> y \<or> z) \<and> \<not> (x \<and> y) \<and> \<not> (x \<and> z) \<and> \<not> (y \<and> z)"
  using assms
proof (cases rule: compare_values_cases)
  case (ints i j)
  then show ?thesis using coerce_swap [OF ints(1)] by (auto simp: compare_values_def)
next
  case (strings s t)
  then show ?thesis
    using coerce_swap [OF strings(1)] string_less_total [of s t] string_less_trans [of s t s] string_less_irrefl [of s]
    by (auto simp: compare_values_def)
qed simp

lemma compare_values_laws_witness:
  "compare_values (V_string ''10'') (V_int 9) C_GREATER = Inr True \<and>
   compare_values (V_string ''10'') (V_int 9) C_LESS_EQUAL = Inr False"
proof -
  have "compare_values (V_string ''10'') (V_int 9) C_LESS = Inr False" by code_simp
  from compare_values_laws [OF this] show ?thesis by code_simp
qed

text \<open>Stored numbers compare as numbers. Two \<open>int64_t\<close> values stored as text compare like the numbers,
  with each other and with an integer literal.\<close>

theorem compare_numbers:
  assumes "INT64_MIN \<le> i" "i \<le> INT64_MAX" "INT64_MIN \<le> j" "j \<le> INT64_MAX"
  shows "compare_values (V_string (show_int i)) (V_string (show_int j)) c = Inr (compare_op c (<) i j) \<and>
    compare_values (V_string (show_int i)) (V_int j) c = Inr (compare_op c (<) i j)"
  using assms by (simp add: compare_values_def coerce_ints to_number_def is_numeric_show_int del: coerce.simps(3))

lemma compare_numbers_witness:
  "compare_values (V_string (show_int (-12))) (V_string (show_int 7)) C_LESS = Inr True \<and>
   compare_values (V_string (show_int (-12))) (V_int 7) C_GREATER = Inr False"
  using compare_numbers [of "-12" 7 C_LESS] compare_numbers [of "-12" 7 C_GREATER] by (simp add: int_limits)

text \<open>Comparison of stored text is not an order. Numeric texts compare as numbers and other pairs as
  strings, which makes a cycle \<open>9 < 10 < 1a < 9\<close>.\<close>

theorem comparison_cycle:
  "compare_values (V_string ''9'') (V_string ''10'') C_LESS = Inr True \<and>
   compare_values (V_string ''10'') (V_string ''1a'') C_LESS = Inr True \<and>
   compare_values (V_string ''1a'') (V_string ''9'') C_LESS = Inr True"
  by code_simp

end
