(* ===== verification/BPlus_Tree.thy ===== *)
theory BPlus_Tree
  imports Std_Map
begin

text \<open>
  The B+ tree of \<open>storageTree.hpp\<close> that keeps the primary and unique indexes. A node is a value: the
  parent pointers are the path of the recursion, the chain of \<open>next\<close> pointers is the list of the
  leaves from left to right. An inner node with the keys \<open>k1, ..., kn\<close> has one child more than keys,
  so it is its first child and the list of the pairs of a key and the child on its right. Keys are
  compared with \<open>lt\<close>, the \<open>operator<\<close> of the key type.

  The mutexes matter in one place: \<open>std::shared_mutex\<close> is not recursive, and a thread that locks one
  it holds has undefined behaviour (in practice it hangs). Where the code does that, or uses a node it
  has freed, the result is \<open>Undefined\<close>.
\<close>

definition DEGREE :: nat where "DEGREE = 100"
definition MAX_KEYS :: nat where "MAX_KEYS = 2 * DEGREE - 1"
definition MIN_KEYS :: nat where "MIN_KEYS = DEGREE - 1"

datatype ('k, 'v) bptree =
    Leaf "('k \<times> 'v) list"
  | Node "('k, 'v) bptree" "('k \<times> ('k, 'v) bptree) list"

type_synonym ('k, 'v) kids = "('k \<times> ('k, 'v) bptree) list"

fun node_keys :: "('k, 'v) bptree \<Rightarrow> nat" where
  "node_keys (Leaf es) = length es"
| "node_keys (Node t kts) = length kts"

definition empty_tree :: "('k, 'v) bptree" where
  "empty_tree = Leaf []"

section \<open>Search and traversal\<close>

text \<open>\<open>find_leaf\<close> passes every key that is not greater than the one it looks for.\<close>

function (sequential) find_leaf :: "('k \<Rightarrow> 'k \<Rightarrow> bool) \<Rightarrow> 'k \<Rightarrow> ('k, 'v) bptree \<Rightarrow> ('k \<times> 'v) list"
  and find_in :: "('k \<Rightarrow> 'k \<Rightarrow> bool) \<Rightarrow> 'k \<Rightarrow> ('k, 'v) bptree \<Rightarrow> ('k, 'v) kids \<Rightarrow> ('k \<times> 'v) list" where
  "find_leaf lt k (Leaf es) = es"
| "find_leaf lt k (Node t kts) = find_in lt k t kts"
| "find_in lt k t [] = find_leaf lt k t"
| "find_in lt k t ((k1, t1) # kts) = (if \<not> lt k k1 then find_in lt k t1 kts else find_leaf lt k t)"
  by pat_completeness auto
termination
  by (relation "measure (case_sum (\<lambda>(_, _, t). 2 * size t) (\<lambda>(_, _, t, kts). 2 * size (Node t kts) - 1))") auto

definition search :: "('k \<Rightarrow> 'k \<Rightarrow> bool) \<Rightarrow> 'k \<Rightarrow> ('k, 'v) bptree \<Rightarrow> 'v option" where
  "search lt k t = map_of (find_leaf lt k t) k"

text \<open>The leaves from left to right, as the \<open>next\<close> pointers chain them.\<close>

fun leaves :: "('k, 'v) bptree \<Rightarrow> ('k \<times> 'v) list list" where
  "leaves (Leaf es) = [es]"
| "leaves (Node t kts) = leaves t @ concat (map (\<lambda>(_, u). leaves u) kts)"

text \<open>\<open>forEachKey\<close>: the keys it calls its argument with, in order.\<close>

definition for_each_key :: "('k, 'v) bptree \<Rightarrow> 'k list" where
  "for_each_key t = concat (map (map fst) (leaves t))"

section \<open>Insertion\<close>

text \<open>
  What an insertion leaves of a subtree: the subtree, and after a split the key promoted to the parent
  with the new node on its right.
\<close>

type_synonym ('k, 'v) grown = "('k, 'v) bptree \<times> ('k \<times> ('k, 'v) bptree) option"

definition insert_into_leaf :: "('k \<Rightarrow> 'k \<Rightarrow> bool) \<Rightarrow> 'k \<Rightarrow> 'v \<Rightarrow> ('k \<times> 'v) list \<Rightarrow> ('k \<times> 'v) list" where
  "insert_into_leaf lt k v es = sm_insert lt k v es"

definition split_leaf :: "('k \<times> 'v) list \<Rightarrow> ('k, 'v) grown" where
  "split_leaf es =
     (let mid = (length es + 1) div 2
      in (Leaf (take mid es), Some (fst (es ! mid), Leaf (drop mid es))))"

definition split_internal :: "('k, 'v) bptree \<Rightarrow> ('k, 'v) kids \<Rightarrow> ('k, 'v) grown" where
  "split_internal t kts =
     (let mid = length kts div 2
      in (Node t (take mid kts), Some (fst (kts ! mid), Node (snd (kts ! mid)) (drop (mid + 1) kts))))"

text \<open>
  \<open>insert_into_parent\<close> puts the promoted key where \<open>lower_bound\<close> finds its place, which is right after the
  child that was split.
\<close>

fun promoted :: "('k \<times> ('k, 'v) bptree) option \<Rightarrow> ('k, 'v) kids" where
  "promoted None = []"
| "promoted (Some p) = [p]"

function (sequential) insert_tree :: "('k \<Rightarrow> 'k \<Rightarrow> bool) \<Rightarrow> 'k \<Rightarrow> 'v \<Rightarrow> ('k, 'v) bptree \<Rightarrow> ('k, 'v) grown"
  and insert_in :: "('k \<Rightarrow> 'k \<Rightarrow> bool) \<Rightarrow> 'k \<Rightarrow> 'v \<Rightarrow> ('k, 'v) bptree \<Rightarrow> ('k, 'v) kids \<Rightarrow> ('k, 'v) bptree \<times> ('k, 'v) kids"
where
  "insert_tree lt k v (Leaf es) =
     (let es1 = insert_into_leaf lt k v es
      in if length es1 > MAX_KEYS then split_leaf es1 else (Leaf es1, None))"
| "insert_tree lt k v (Node t kts) =
     (let (t1, kts1) = insert_in lt k v t kts
      in if length kts1 \<noteq> length kts \<and> length kts1 > MAX_KEYS then split_internal t1 kts1
         else (Node t1 kts1, None))"
| "insert_in lt k v t [] = (let (t1, up) = insert_tree lt k v t in (t1, promoted up))"
| "insert_in lt k v t ((k1, u) # kts) =
     (if \<not> lt k k1 then let (u1, kts1) = insert_in lt k v u kts in (t, (k1, u1) # kts1)
      else let (t1, up) = insert_tree lt k v t in (t1, promoted up @ (k1, u) # kts))"
  by pat_completeness auto
termination
  by (relation "measure (case_sum (\<lambda>(_, _, _, t). 2 * size t) (\<lambda>(_, _, _, t, kts). 2 * size (Node t kts) - 1))") auto

text \<open>A split of the root gives a new root.\<close>

definition bp_insert :: "('k \<Rightarrow> 'k \<Rightarrow> bool) \<Rightarrow> 'k \<Rightarrow> 'v \<Rightarrow> ('k, 'v) bptree \<Rightarrow> ('k, 'v) bptree" where
  "bp_insert lt k v t =
     (case insert_tree lt k v t of
        (t1, None) \<Rightarrow> t1
      | (t1, Some p) \<Rightarrow> Node t1 [p])"

section \<open>Removal\<close>

text \<open>The siblings of a node with the keys of the parent between them and the node.\<close>

type_synonym ('k, 'v) on_left = "(('k, 'v) bptree \<times> 'k) option"
type_synonym ('k, 'v) on_right = "('k \<times> ('k, 'v) bptree) option"

fun borrow_from_left :: "('k, 'v) bptree \<Rightarrow> 'k \<Rightarrow> ('k, 'v) bptree \<Rightarrow> ('k, 'v) bptree \<times> 'k \<times> ('k, 'v) bptree" where
  "borrow_from_left (Leaf ls) pk (Leaf es) = (Leaf (butlast ls), fst (last ls), Leaf (last ls # es))"
| "borrow_from_left (Node l ls) pk (Node t kts) =
     (Node l (butlast ls), fst (last ls), Node (snd (last ls)) ((pk, t) # kts))"
| "borrow_from_left l pk n = (l, pk, n)"

fun borrow_from_right :: "('k, 'v) bptree \<Rightarrow> 'k \<Rightarrow> ('k, 'v) bptree \<Rightarrow> ('k, 'v) bptree \<times> 'k \<times> ('k, 'v) bptree" where
  "borrow_from_right (Leaf es) pk (Leaf rs) = (Leaf (es @ [hd rs]), fst (hd (tl rs)), Leaf (tl rs))"
| "borrow_from_right (Node t kts) pk (Node r rs) =
     (Node t (kts @ [(pk, r)]), fst (hd rs), Node (snd (hd rs)) (tl rs))"
| "borrow_from_right n pk r = (n, pk, r)"

fun merge_nodes :: "('k, 'v) bptree \<Rightarrow> 'k \<Rightarrow> ('k, 'v) bptree \<Rightarrow> ('k, 'v) bptree" where
  "merge_nodes (Leaf es) pk (Leaf rs) = Leaf (es @ rs)"
| "merge_nodes (Node t kts) pk (Node r rs) = Node t (kts @ (pk, r) # rs)"
| "merge_nodes n pk r = n"

text \<open>
  \<open>handle_underflow\<close> for a node between its siblings. The flag of the result says that two nodes were merged.
\<close>

definition handle_underflow ::
  "('k, 'v) on_left \<Rightarrow> ('k, 'v) bptree \<Rightarrow> ('k, 'v) on_right \<Rightarrow>
     (bool \<times> ('k, 'v) on_left \<times> ('k, 'v) bptree \<times> ('k, 'v) on_right) result" where
  "handle_underflow lft n rgt =
     (case lft of
        Some (l, pk) \<Rightarrow>
          if node_keys l > MIN_KEYS then
            (let (l1, pk1, n1) = borrow_from_left l pk n in Inr (False, Some (l1, pk1), n1, rgt))
          else (case rgt of
            Some (qk, r) \<Rightarrow>
              if node_keys r > MIN_KEYS then
                (let (n1, qk1, r1) = borrow_from_right n qk r in Inr (False, lft, n1, Some (qk1, r1)))
              else Inr (True, None, merge_nodes l pk n, rgt)
          | None \<Rightarrow> Inr (True, None, merge_nodes l pk n, None))
      | None \<Rightarrow>
          (case rgt of
            Some (qk, r) \<Rightarrow>
              if node_keys r > MIN_KEYS then
                (let (n1, qk1, r1) = borrow_from_right n qk r in Inr (False, None, n1, Some (qk1, r1)))
              else Inr (True, None, merge_nodes n qk r, None)
          | None \<Rightarrow> Inl (Undefined ''a child beyond the last'')))"

text \<open>\<open>delete_from_leaf\<close> erases the first entry with the key.\<close>

fun erase_key :: "'k \<Rightarrow> ('k \<times> 'v) list \<Rightarrow> ('k \<times> 'v) list" where
  "erase_key k [] = []"
| "erase_key k ((k1, v) # es) = (if k1 = k then es else (k1, v) # erase_key k es)"

datatype removal = Absent | Erased | Merged

text \<open>
  What follows a merge of two children of an inner node, at the end of \<open>merge_with_left\<close> and
  \<open>merge_with_right\<close>. A parent that is short of keys goes to \<open>handle_underflow\<close>, while the first call of
  \<open>handle_underflow\<close> still holds the mutex of this parent; each way through the second call locks that mutex
  again. A root without keys is replaced by its only child and deleted, and the destructor of a node
  deletes its children, here the new root.
\<close>

definition after_merge :: "bool \<Rightarrow> ('k, 'v) kids \<Rightarrow> unit result" where
  "after_merge is_root kts =
     (if \<not> is_root \<and> length kts < MIN_KEYS then Inl (Undefined ''handle_underflow locks a mutex that the thread holds'')
      else if is_root \<and> kts = [] then Inl (Undefined ''the new root is freed with its parent'')
      else Inr ())"

fun is_leaf :: "('k, 'v) bptree \<Rightarrow> bool" where
  "is_leaf (Leaf _) = True"
| "is_leaf (Node _ _) = False"

text \<open>The end of \<open>delete_from_leaf\<close>, once the child \<open>t\<close> of an inner node has lost its entry.\<close>

definition rebalance ::
  "('k, 'v) on_left \<Rightarrow> ('k, 'v) on_right \<Rightarrow> ('k, 'v) bptree \<times> removal \<Rightarrow>
     (('k, 'v) on_left \<times> ('k, 'v) bptree \<times> ('k, 'v) on_right \<times> removal) result" where
  "rebalance lft rgt tr =
     (let (t, r) = tr
      in if r = Erased \<and> is_leaf t \<and> node_keys t < MIN_KEYS then
           bindE (handle_underflow lft t rgt) (\<lambda>(m, l, n, q). Inr (l, n, q, if m then Merged else Erased))
         else Inr (lft, t, rgt, r))"

text \<open>
  \<open>remove_tree\<close> walks down to the leaf; \<open>remove_in\<close> looks for the child of an inner node and carries its left
  sibling along.
\<close>

function (sequential) remove_tree ::
    "('k \<Rightarrow> 'k \<Rightarrow> bool) \<Rightarrow> bool \<Rightarrow> 'k \<Rightarrow> ('k, 'v) bptree \<Rightarrow> (('k, 'v) bptree \<times> removal) result"
  and remove_in ::
    "('k \<Rightarrow> 'k \<Rightarrow> bool) \<Rightarrow> ('k, 'v) on_left \<Rightarrow> 'k \<Rightarrow> ('k, 'v) bptree \<Rightarrow> ('k, 'v) kids \<Rightarrow>
       (('k, 'v) on_left \<times> ('k, 'v) bptree \<times> ('k, 'v) kids \<times> removal) result" where
  "remove_tree lt is_root k (Leaf es) =
     Inr (if k \<in> fst ` set es then (Leaf (erase_key k es), Erased) else (Leaf es, Absent))"
| "remove_tree lt is_root k (Node t kts) =
     bindE (remove_in lt None k t kts) (\<lambda>(_, t1, kts1, r).
       if r = Merged then bindE (after_merge is_root kts1) (\<lambda>_. Inr (Node t1 kts1, Erased))
       else Inr (Node t1 kts1, r))"
| "remove_in lt lft k t [] =
     bindE (bindE (remove_tree lt False k t) (rebalance lft None)) (\<lambda>(l, n, q, r). Inr (l, n, promoted q, r))"
| "remove_in lt lft k t ((k1, u) # kts) =
     (if \<not> lt k k1 then
        bindE (remove_in lt (Some (t, k1)) k u kts) (\<lambda>(l, u1, kts1, r).
          case l of
            Some (t1, k2) \<Rightarrow> Inr (lft, t1, (k2, u1) # kts1, r)
          | None \<Rightarrow> Inr (lft, u1, kts1, r))
      else
        bindE (bindE (remove_tree lt False k t) (rebalance lft (Some (k1, u)))) (\<lambda>(l, n, q, r).
          Inr (l, n, promoted q @ kts, r)))"
  by pat_completeness auto
termination
  by (relation "measure (case_sum (\<lambda>(_, _, _, t). 2 * size t) (\<lambda>(_, _, _, t, kts). 2 * size (Node t kts) - 1))") auto

text \<open>\<open>remove\<close> tells whether the key was there.\<close>

definition bp_remove :: "('k \<Rightarrow> 'k \<Rightarrow> bool) \<Rightarrow> 'k \<Rightarrow> ('k, 'v) bptree \<Rightarrow> (('k, 'v) bptree \<times> bool) result" where
  "bp_remove lt k t = bindE (remove_tree lt True k t) (\<lambda>(t1, r). Inr (t1, r \<noteq> Absent))"

end
