(* ===== verification/BPlus_Inv.thy ===== *)
theory BPlus_Inv
  imports BPlus_Tree
begin

text \<open>
  The invariant of the B+ tree. \<open>ordered\<close> says that the keys of a subtree lie between the separators
  around it; \<open>fits\<close> that all leaves have the same depth and all nodes but the root between \<open>MIN_KEYS\<close> and
  \<open>MAX_KEYS\<close> keys. Below it the operations are those of the sorted list of the entries.
\<close>

section \<open>The invariant\<close>

fun ge_lo :: "('k \<Rightarrow> 'k \<Rightarrow> bool) \<Rightarrow> 'k option \<Rightarrow> 'k \<Rightarrow> bool" where
  "ge_lo lt None k = True"
| "ge_lo lt (Some l) k = (\<not> lt k l)"

fun gt_lo :: "('k \<Rightarrow> 'k \<Rightarrow> bool) \<Rightarrow> 'k option \<Rightarrow> 'k \<Rightarrow> bool" where
  "gt_lo lt None k = True"
| "gt_lo lt (Some l) k = lt l k"

fun lt_hi :: "('k \<Rightarrow> 'k \<Rightarrow> bool) \<Rightarrow> 'k option \<Rightarrow> 'k \<Rightarrow> bool" where
  "lt_hi lt None k = True"
| "lt_hi lt (Some h) k = lt k h"

fun entries_of :: "('k, 'v) bptree \<Rightarrow> ('k \<times> 'v) list" where
  "entries_of (Leaf es) = es"
| "entries_of (Node t kts) = entries_of t @ concat (map (\<lambda>(_, u). entries_of u) kts)"

function (sequential) ordered ::
    "('k \<Rightarrow> 'k \<Rightarrow> bool) \<Rightarrow> 'k option \<Rightarrow> 'k option \<Rightarrow> ('k, 'v) bptree \<Rightarrow> bool"
  and ordered_kids ::
    "('k \<Rightarrow> 'k \<Rightarrow> bool) \<Rightarrow> 'k option \<Rightarrow> 'k option \<Rightarrow> ('k, 'v) bptree \<Rightarrow> ('k, 'v) kids \<Rightarrow> bool" where
  "ordered lt lo hi (Leaf es) = (sm_ok lt es \<and> (\<forall>e \<in> set es. ge_lo lt lo (fst e) \<and> lt_hi lt hi (fst e)))"
| "ordered lt lo hi (Node t kts) = ordered_kids lt lo hi t kts"
| "ordered_kids lt lo hi t [] = ordered lt lo hi t"
| "ordered_kids lt lo hi t ((k, u) # kts) =
     (gt_lo lt lo k \<and> lt_hi lt hi k \<and> ordered lt lo (Some k) t \<and> ordered_kids lt (Some k) hi u kts)"
  by pat_completeness auto
termination
  by (relation "measure (case_sum (\<lambda>(_, _, _, t). 2 * size t) (\<lambda>(_, _, _, t, kts). 2 * size (Node t kts) - 1))") auto

fun fits :: "nat \<Rightarrow> ('k, 'v) bptree \<Rightarrow> bool" where
  "fits h (Leaf es) \<longleftrightarrow> h = 0 \<and> MIN_KEYS \<le> length es \<and> length es \<le> MAX_KEYS"
| "fits h (Node t kts) \<longleftrightarrow> 0 < h \<and> MIN_KEYS \<le> length kts \<and> length kts \<le> MAX_KEYS \<and>
     fits (h - 1) t \<and> (\<forall>(_, u) \<in> set kts. fits (h - 1) u)"

definition kids_fit :: "nat \<Rightarrow> ('k, 'v) bptree \<Rightarrow> ('k, 'v) kids \<Rightarrow> bool" where
  "kids_fit h t kts \<longleftrightarrow> fits h t \<and> (\<forall>(_, u) \<in> set kts. fits h u)"

fun root_fits :: "nat \<Rightarrow> ('k, 'v) bptree \<Rightarrow> bool" where
  "root_fits h (Leaf es) \<longleftrightarrow> h = 0 \<and> length es \<le> MAX_KEYS"
| "root_fits h (Node t kts) \<longleftrightarrow> 0 < h \<and> kts \<noteq> [] \<and> length kts \<le> MAX_KEYS \<and> kids_fit (h - 1) t kts"

definition bp_ok :: "('k \<Rightarrow> 'k \<Rightarrow> bool) \<Rightarrow> ('k, 'v) bptree \<Rightarrow> bool" where
  "bp_ok lt t \<longleftrightarrow> ordered lt None None t \<and> (\<exists>h. root_fits h t)"

lemma degree_values: "MAX_KEYS = 199" "MIN_KEYS = 99"
  by (simp_all add: MAX_KEYS_def MIN_KEYS_def DEGREE_def)

lemma leaves_entries: "concat (leaves t) = entries_of t"
proof (induction t rule: leaves.induct)
  case (2 t kts)
  have "concat (concat (map (\<lambda>(_, u). leaves u) kts)) = concat (map (\<lambda>(_, u). entries_of u) kts)"
    using 2(2) by (induction kts) fastforce+
  then show ?case using 2(1) by simp
qed simp

lemma for_each_key_entries: "for_each_key t = map fst (entries_of t)"
  by (simp add: for_each_key_def map_concat [symmetric] leaves_entries)

text \<open>Induction over a tree together with the children of its nodes.\<close>

lemma tree_kids_induct [case_names leaf node last more]:
  fixes t u :: "('k, 'v) bptree"
  assumes "\<And>es. P (Leaf es)" and "\<And>t kts. Q t kts \<Longrightarrow> P (Node t kts)"
    and "\<And>t. P t \<Longrightarrow> Q t []" and "\<And>t k u kts. P t \<Longrightarrow> Q u kts \<Longrightarrow> Q t ((k, u) # kts)"
  shows "P t" and "Q u kts"
proof -
  fix lt :: "'k \<Rightarrow> 'k \<Rightarrow> bool" and lo hi :: "'k option"
  show "P t" and "Q u kts"
    by (induction lt lo hi t and lt lo hi u kts rule: ordered_ordered_kids.induct) (use assms in blast)+
qed

section \<open>Sorted lists in pieces\<close>

context comparator
begin

lemma insert_append_right:
  "\<forall>e \<in> set ys. lt k (fst e) \<Longrightarrow> sm_insert lt k v (xs @ ys) = sm_insert lt k v xs @ ys"
proof (induction xs)
  case Nil
  then show ?case by (cases ys) auto
next
  case (Cons e xs)
  then show ?case by (cases e) simp
qed

lemma insert_append_left:
  "\<forall>e \<in> set xs. lt (fst e) k \<Longrightarrow> sm_insert lt k v (xs @ ys) = xs @ sm_insert lt k v ys"
proof (induction xs)
  case (Cons e xs)
  then show ?case using lt_asym by (cases e) auto
qed simp

lemma length_insert: "length xs \<le> length (sm_insert lt k v xs) \<and> length (sm_insert lt k v xs) \<le> Suc (length xs)"
  by (induction xs) auto

lemma ok_append:
  "sm_ok lt (xs @ ys) \<longleftrightarrow> sm_ok lt xs \<and> sm_ok lt ys \<and> (\<forall>x \<in> set xs. \<forall>y \<in> set ys. lt (fst x) (fst y))"
  by (auto simp: sm_ok_def sorted_wrt_append)

lemma erase_append: "sm_erase k (xs @ ys) = sm_erase k xs @ sm_erase k ys"
  by (simp add: sm_erase_def)

lemma erase_key_sm: "sm_ok lt es \<Longrightarrow> erase_key k es = sm_erase k es"
proof (induction es)
  case (Cons e es)
  have "sm_erase k es = es" if "\<forall>x \<in> set es. lt k (fst x)"
    using that lt_irrefl by (intro sm_erase_id) auto
  then show ?case using Cons by (cases e) (auto simp: ok_Cons)
qed simp

lemma gt_ge: "gt_lo lt lo k \<Longrightarrow> ge_lo lt lo k"
  by (cases lo) (auto dest: lt_asym)

lemma gt_trans: "gt_lo lt lo k \<Longrightarrow> lt k k' \<Longrightarrow> gt_lo lt lo k'"
  by (cases lo) (auto intro: lt_trans)

lemma not_lt_trans: "\<not> lt y x \<Longrightarrow> lt y z \<Longrightarrow> lt x z"
  by (metis lt_total lt_trans)

lemma ge_gt_trans: "ge_lo lt lo k \<Longrightarrow> lt k k' \<Longrightarrow> gt_lo lt lo k'"
  by (cases lo) (auto intro: not_lt_trans)

lemma gt_ge_trans: "gt_lo lt lo k \<Longrightarrow> \<not> lt k' k \<Longrightarrow> gt_lo lt lo k'"
  by (metis gt_trans lt_total)

lemma hi_trans: "lt_hi lt hi k \<Longrightarrow> lt k' k \<Longrightarrow> lt_hi lt hi k'"
  by (cases hi) (auto intro: lt_trans)

lemma ordered_kids_append:
  "ordered_kids lt lo hi t (xs @ (k, u) # ys) \<longleftrightarrow>
     ordered_kids lt lo (Some k) t xs \<and> gt_lo lt lo k \<and> lt_hi lt hi k \<and> ordered_kids lt (Some k) hi u ys"
proof (induction xs arbitrary: lo t)
  case (Cons x xs)
  obtain k1 u1 where x: "x = (k1, u1)" by fastforce
  show ?case using Cons [of "Some k1" u1] gt_trans hi_trans by (auto simp: x)
qed auto

text \<open>The keys of an ordered tree lie in its range, and its entries are sorted.\<close>

lemma ordered_entries:
  fixes t u :: "('k, 'v) bptree"
  shows
  "ordered lt lo hi t \<Longrightarrow>
     sm_ok lt (entries_of t) \<and> (\<forall>e \<in> set (entries_of t). ge_lo lt lo (fst e) \<and> lt_hi lt hi (fst e))"
  "ordered_kids lt lo hi u kts \<Longrightarrow>
     sm_ok lt (entries_of (Node u kts)) \<and>
     (\<forall>e \<in> set (entries_of (Node u kts)). ge_lo lt lo (fst e) \<and> lt_hi lt hi (fst e))"
proof (induction t and u kts arbitrary: lo hi and lo hi rule: tree_kids_induct)
  case (more t k u kts)
  note o = more.prems
  have t: "sm_ok lt (entries_of t)" "\<And>e. e \<in> set (entries_of t) \<Longrightarrow> ge_lo lt lo (fst e) \<and> lt (fst e) k"
      using more(1) [of lo "Some k"] o by auto
  have u: "sm_ok lt (entries_of (Node u kts))"
        "\<And>e. e \<in> set (entries_of (Node u kts)) \<Longrightarrow> \<not> lt (fst e) k \<and> lt_hi lt hi (fst e)"
      using more(2) [of "Some k" hi] o by auto
  have lo: "ge_lo lt lo (fst e)" if "\<not> lt (fst e) k" for e :: "'k \<times> 'v"
      using o that gt_ge_trans gt_ge by auto
  have hi: "lt_hi lt hi (fst e)" if "lt (fst e) k" for e :: "'k \<times> 'v"
      using o that hi_trans by auto
  have eq: "entries_of (Node t ((k, u) # kts)) = entries_of t @ entries_of (Node u kts)" by simp
  have "lt (fst x) (fst y)" if "x \<in> set (entries_of t)" "y \<in> set (entries_of (Node u kts))" for x y
      using t(2) [OF that(1)] u(2) [OF that(2)] by (metis lt_total lt_trans)
  then show "sm_ok lt (entries_of (Node t ((k, u) # kts))) \<and>
        (\<forall>e \<in> set (entries_of (Node t ((k, u) # kts))). ge_lo lt lo (fst e) \<and> lt_hi lt hi (fst e))"
      unfolding eq ok_append using t u lo hi by (metis Un_iff set_append)
qed auto

lemma entries_sorted: "ordered lt lo hi t \<Longrightarrow> sm_ok lt (entries_of t)"
  using ordered_entries(1) by blast

lemma entries_range: "ordered lt lo hi t \<Longrightarrow> e \<in> set (entries_of t) \<Longrightarrow> ge_lo lt lo (fst e) \<and> lt_hi lt hi (fst e)"
  using ordered_entries(1) by blast

lemma kids_range: "ordered_kids lt lo hi t kts \<Longrightarrow> e \<in> set (entries_of (Node t kts)) \<Longrightarrow>
    ge_lo lt lo (fst e) \<and> lt_hi lt hi (fst e)"
  using ordered_entries(2) by blast

lemma entries_Cons: "entries_of (Node t ((k, u) # kts)) = entries_of t @ entries_of (Node u kts)"
  by simp

lemma entries_append: "entries_of (Node t (xs @ (k, u) # ys)) = entries_of (Node t xs) @ entries_of (Node u ys)"
  by simp

text \<open>With \<open>k\<close> on one side of a separator, the entries on the other side do not matter.\<close>

lemma right_of: "ordered lt lo (Some k1) t \<Longrightarrow> \<not> lt k k1 \<Longrightarrow> \<forall>e \<in> set (entries_of t). lt (fst e) k"
  using entries_range by (metis lt_hi.simps(2) lt_total lt_trans)

lemma left_of: "ordered_kids lt (Some k1) hi u kts \<Longrightarrow> lt k k1 \<Longrightarrow> \<forall>e \<in> set (entries_of (Node u kts)). lt k (fst e)"
  using kids_range by (metis ge_lo.simps(2) lt_total lt_trans)

lemma not_key: "\<forall>e \<in> set es. lt (fst e) k \<Longrightarrow> k \<notin> fst ` set es" "\<forall>e \<in> set es. lt k (fst e) \<Longrightarrow> k \<notin> fst ` set es"
  using lt_irrefl by auto

lemma map_of_left: "k \<notin> fst ` set ys \<Longrightarrow> map_of (xs @ ys) k = map_of xs k"
  by (induction xs) (auto simp: map_of_eq_None_iff)

lemma map_of_right: "k \<notin> fst ` set xs \<Longrightarrow> map_of (xs @ ys) k = map_of ys k"
  by (induction xs) auto

section \<open>Search\<close>

lemma find_entries:
  fixes t u :: "('k, 'v) bptree"
  shows "ordered lt lo hi t \<Longrightarrow> map_of (find_leaf lt k t) k = map_of (entries_of t) k"
    and "ordered_kids lt lo hi u kts \<Longrightarrow> map_of (find_in lt k u kts) k = map_of (entries_of (Node u kts)) k"
proof (induction t and u kts arbitrary: lo hi and lo hi rule: tree_kids_induct)
  case (more t k1 u kts)
  then have o: "ordered lt lo (Some k1) t" "ordered_kids lt (Some k1) hi u kts" by auto
  show ?case
  proof (cases "lt k k1")
    case True
    from not_key(2) [OF left_of [OF o(2) True]] True more(1) [OF o(1)] show ?thesis
      by (simp only: entries_Cons map_of_left find_in.simps not_True_eq_False if_False simp_thms)
  next
    case False
    from not_key(1) [OF right_of [OF o(1) False]] False more(2) [OF o(2)] show ?thesis
      by (simp only: entries_Cons map_of_right find_in.simps if_True simp_thms)
  qed
qed auto

section \<open>Insertion\<close>

lemma split_leaf_spec:
  assumes "ordered lt lo hi (Leaf es)" and "2 \<le> length es"
  shows "ordered_kids lt lo hi (fst (split_leaf es)) (promoted (snd (split_leaf es))) \<and>
    entries_of (Node (fst (split_leaf es)) (promoted (snd (split_leaf es)))) = es"
proof -
  define m where "m = (length es + 1) div 2"
  have m: "0 < m" "m < length es" using assms(2) by (auto simp: m_def)
  have es: "es = take m es @ drop m es" by simp
  have d: "drop m es = es ! m # drop (Suc m) es" using m by (simp add: Cons_nth_drop_Suc)
  have o: "sm_ok lt (take m es)" "sm_ok lt (drop m es)"
      "\<And>x y. x \<in> set (take m es) \<Longrightarrow> y \<in> set (drop m es) \<Longrightarrow> lt (fst x) (fst y)"
    using assms(1) ok_append [of "take m es" "drop m es"] by auto
  have r: "ge_lo lt lo (fst e) \<and> lt_hi lt hi (fst e)" if "e \<in> set es" for e
    using assms(1) that by auto
  have ts: "set (take m es) \<subseteq> set es" "set (drop m es) \<subseteq> set es" by (rule set_take_subset, rule set_drop_subset)
  obtain p v where pv: "es ! m = (p, v)" by fastforce
  have up: "\<not> lt (fst e) p" if "e \<in> set (drop m es)" for e
    using o(2) that lt_irrefl lt_asym unfolding d pv by (auto simp: ok_Cons)
  have low: "lt (fst e) p" if "e \<in> set (take m es)" for e
    using o(3) [OF that, of "(p, v)"] by (simp add: d pv)
  obtain e where e: "e \<in> set (take m es)" using m by (cases "take m es") auto
  have g: "gt_lo lt lo p" using ge_gt_trans low [OF e] r ts(1) e by blast
  have h: "lt_hi lt hi p" using r [of "(p, v)"] pv m nth_mem by fastforce
  have "ordered lt lo (Some p) (Leaf (take m es))" using o(1) r ts(1) low by auto
  moreover have "ordered lt (Some p) hi (Leaf (drop m es))" using o(2) r ts(2) up by auto
  ultimately show ?thesis
    using g h by (simp add: split_leaf_def Let_def m_def [simplified, symmetric] pv del: ordered.simps(1))
qed

lemma split_internal_spec:
  assumes "ordered_kids lt lo hi t kts" and "kts \<noteq> []"
  shows "ordered_kids lt lo hi (fst (split_internal t kts)) (promoted (snd (split_internal t kts))) \<and>
    entries_of (Node (fst (split_internal t kts)) (promoted (snd (split_internal t kts)))) = entries_of (Node t kts)"
proof -
  define m where "m = length kts div 2"
  have m: "m < length kts" using assms(2) by (simp add: m_def)
  obtain p u where pu: "kts ! m = (p, u)" by fastforce
  have eq: "kts = take m kts @ (p, u) # drop (Suc m) kts" using m pu by (metis id_take_nth_drop)
  have "ordered_kids lt lo (Some p) t (take m kts) \<and> gt_lo lt lo p \<and> lt_hi lt hi p \<and>
      ordered_kids lt (Some p) hi u (drop (Suc m) kts)"
    using assms(1) by (subst (asm) eq) (simp add: ordered_kids_append)
  moreover have "entries_of (Node t kts) = entries_of (Node t (take m kts)) @ entries_of (Node u (drop (Suc m) kts))"
    by (subst eq) (rule entries_append)
  ultimately show ?thesis by (simp add: split_internal_def Let_def m_def [symmetric] pu)
qed

text \<open>An insertion below a node: what is left, with the promoted key, are the children of an ordered node.\<close>

lemma insert_leaf_ordered:
  assumes "ordered lt lo hi (Leaf es)" and "ge_lo lt lo k" and "lt_hi lt hi k"
  shows "ordered lt lo hi (Leaf (sm_insert lt k v es))"
proof -
  have s: "sm_ok lt es" using assms(1) by simp
  show ?thesis using assms ok_insert [OF s] unfolding ordered.simps set_insert [OF s] by auto
qed

lemma insert_ordered:
  fixes t u :: "('k, 'v) bptree"
  shows "ordered lt lo hi t \<Longrightarrow> ge_lo lt lo k \<Longrightarrow> lt_hi lt hi k \<Longrightarrow> insert_tree lt k v t = (t1, up) \<Longrightarrow>
      ordered_kids lt lo hi t1 (promoted up) \<and> entries_of (Node t1 (promoted up)) = sm_insert lt k v (entries_of t)"
    and "ordered_kids lt lo hi u kts \<Longrightarrow> ge_lo lt lo k \<Longrightarrow> lt_hi lt hi k \<Longrightarrow> insert_in lt k v u kts = (u1, kts1) \<Longrightarrow>
      ordered_kids lt lo hi u1 kts1 \<and> entries_of (Node u1 kts1) = sm_insert lt k v (entries_of (Node u kts))"
proof (induction t and u kts arbitrary: lo hi t1 up and lo hi u1 kts1 rule: tree_kids_induct)
  case (leaf es)
  define es1 where "es1 = sm_insert lt k v es"
  have o: "ordered lt lo hi (Leaf es1)" unfolding es1_def by (rule insert_leaf_ordered [OF leaf(1-3)])
  show ?case
  proof (cases "length es1 > MAX_KEYS")
    case True
    then have "2 \<le> length es1" by (simp add: degree_values)
    then show ?thesis using split_leaf_spec [OF o] True leaf(4)
      by (simp add: insert_into_leaf_def Let_def es1_def [symmetric])
  next
    case False
    then show ?thesis using o leaf(4) by (auto simp: insert_into_leaf_def Let_def es1_def [symmetric])
  qed
next
  case (node t kts)
  obtain t2 kts2 where r: "insert_in lt k v t kts = (t2, kts2)" by fastforce
  have o: "ordered_kids lt lo hi t2 kts2" "entries_of (Node t2 kts2) = sm_insert lt k v (entries_of (Node t kts))"
    using node.IH [OF _ node.prems(2,3) r] node.prems(1) by auto
  show ?case
  proof (cases "length kts2 \<noteq> length kts \<and> length kts2 > MAX_KEYS")
    case True
    then have "kts2 \<noteq> []" by auto
    then show ?thesis using split_internal_spec [OF o(1)] o(2) True node.prems(4) r
      by (simp add: Let_def del: entries_of.simps)
  next
    case False
    then show ?thesis using o node.prems(4) r by (auto simp: Let_def)
  qed
next
  case (last t)
  then show ?case by (auto simp: Let_def split: prod.splits)
next
  case (more t k1 u kts)
  then have o: "ordered lt lo (Some k1) t" "ordered_kids lt (Some k1) hi u kts" "gt_lo lt lo k1" "lt_hi lt hi k1" by auto
  show ?case
  proof (cases "lt k k1")
    case True
    obtain t2 up where r: "insert_tree lt k v t = (t2, up)" by fastforce
    have s: "ordered_kids lt lo (Some k1) t2 (promoted up)" 
        "entries_of (Node t2 (promoted up)) = sm_insert lt k v (entries_of t)"
      using more.IH(1) [OF o(1) more.prems(2) _ r] True by auto
    have "entries_of (Node t2 (promoted up @ (k1, u) # kts)) = sm_insert lt k v (entries_of t @ entries_of (Node u kts))"
      unfolding entries_append s(2) insert_append_right [OF left_of [OF o(2) True]] ..
    then show ?thesis using True more.prems(4) r s(1) o by (auto simp: ordered_kids_append)
  next
    case False
    obtain u2 kts2 where r: "insert_in lt k v u kts = (u2, kts2)" by fastforce
    have s: "ordered_kids lt (Some k1) hi u2 kts2" "entries_of (Node u2 kts2) = sm_insert lt k v (entries_of (Node u kts))"
      using more.IH(2) [OF o(2) _ more.prems(3) r] False by auto
    have "entries_of (Node t ((k1, u2) # kts2)) = sm_insert lt k v (entries_of t @ entries_of (Node u kts))"
      unfolding entries_Cons s(2) insert_append_left [OF right_of [OF o(1) False]] ..
    then show ?thesis using False more.prems(4) r s(1) o by auto
  qed
qed

lemma split_leaf_fits:
  assumes "length es = Suc MAX_KEYS" and "split_leaf es = (t1, up)"
  shows "kids_fit 0 t1 (promoted up) \<and> length (promoted up) = 1"
  using assms by (auto simp: split_leaf_def Let_def kids_fit_def degree_values)

lemma split_internal_fits:
  assumes "kids_fit h t kts" and "length kts = Suc MAX_KEYS" and "split_internal t kts = (t1, up)"
  shows "kids_fit (Suc h) t1 (promoted up) \<and> length (promoted up) = 1"
proof -
  have "(fst (kts ! 100), snd (kts ! 100)) \<in> set kts" using assms(2) by (simp add: degree_values)
  then have u: "fits h (snd (kts ! 100))" using assms(1) by (fastforce simp: kids_fit_def)
  have f: "\<forall>x \<in> set (take 100 kts) \<union> set (drop 101 kts). case x of (_, x) \<Rightarrow> fits h x"
    using assms(1) by (auto simp: kids_fit_def dest!: in_set_takeD in_set_dropD)
  show ?thesis
    using assms u f by (auto simp: split_internal_def Let_def kids_fit_def degree_values)
qed

lemma kids_fit_append:
  "kids_fit h t (xs @ (k, u) # ys) \<longleftrightarrow> kids_fit h t xs \<and> kids_fit h u ys"
  by (auto simp: kids_fit_def)

lemma insert_fits:
  fixes t u :: "('k, 'v) bptree"
  shows "fits h t \<Longrightarrow> insert_tree lt k v t = (t1, up) \<Longrightarrow> kids_fit h t1 (promoted up) \<and> length (promoted up) \<le> 1"
    and "kids_fit h u kts \<Longrightarrow> insert_in lt k v u kts = (u1, kts1) \<Longrightarrow>
      kids_fit h u1 kts1 \<and> length kts \<le> length kts1 \<and> length kts1 \<le> Suc (length kts)"
proof (induction t and u kts arbitrary: h t1 up and h u1 kts1 rule: tree_kids_induct)
  case (leaf es)
  define es1 where "es1 = sm_insert lt k v es"
  have l: "length es \<le> length es1" "length es1 \<le> Suc (length es)" by (simp_all add: es1_def length_insert)
  show ?case
  proof (cases "length es1 > MAX_KEYS")
    case True
    then have "length es1 = Suc MAX_KEYS" using l leaf(1) by auto
    from split_leaf_fits [OF this] True leaf show ?thesis
      by (auto simp: insert_into_leaf_def Let_def es1_def [symmetric])
  next
    case False
    then show ?thesis using l leaf by (auto simp: insert_into_leaf_def Let_def es1_def [symmetric] kids_fit_def)
  qed
next
  case (node t kts)
  obtain t2 kts2 where r: "insert_in lt k v t kts = (t2, kts2)" by fastforce
  have h: "0 < h" "kids_fit (h - 1) t kts" using node.prems(1) by (auto simp: kids_fit_def)
  have s: "kids_fit (h - 1) t2 kts2" "length kts \<le> length kts2" "length kts2 \<le> Suc (length kts)"
    using node.IH [OF h(2) r] by auto
  show ?case
  proof (cases "length kts2 \<noteq> length kts \<and> length kts2 > MAX_KEYS")
    case True
    then have "length kts2 = Suc MAX_KEYS" using s node.prems(1) by auto
    from split_internal_fits [OF s(1) this] True node.prems(2) r h(1) show ?thesis by (auto simp: Let_def)
  next
    case False
    then show ?thesis using s node.prems r h(1) by (auto simp: Let_def kids_fit_def)
  qed
next
  case (last t)
  obtain t2 up where r: "insert_tree lt k v t = (t2, up)" by fastforce
  then show ?case using last.IH [OF _ r] last.prems by (auto simp: kids_fit_def)
next
  case (more t k1 u kts)
  show ?case
  proof (cases "lt k k1")
    case True
    obtain t2 up where r: "insert_tree lt k v t = (t2, up)" by fastforce
    have f: "fits h t" "kids_fit h u kts" using more.prems(1) by (auto simp: kids_fit_def)
    have "kids_fit h t2 (promoted up)" "length (promoted up) \<le> 1" using more.IH(1) [OF f(1) r] by auto
    then show ?thesis using True r f more.prems(2) by (auto simp: kids_fit_append)
  next
    case False
    obtain u2 kts2 where r: "insert_in lt k v u kts = (u2, kts2)" by fastforce
    have f: "fits h t" "kids_fit h u kts" using more.prems(1) by (auto simp: kids_fit_def)
    show ?thesis using more.IH(2) [OF f(2) r] False r f more.prems(2) by (auto simp: kids_fit_def)
  qed
qed

lemma insert_root_fits:
  assumes "root_fits h t" and "insert_tree lt k v t = (t1, up)"
  shows "up = None \<and> root_fits h t1 \<or> kids_fit h t1 (promoted up) \<and> length (promoted up) = 1"
proof (cases t)
  case (Leaf es)
  define es1 where "es1 = sm_insert lt k v es"
  have l: "length es1 \<le> Suc (length es)" by (simp add: es1_def length_insert)
  show ?thesis
  proof (cases "length es1 > MAX_KEYS")
    case True
    then have "length es1 = Suc MAX_KEYS" using l assms(1) Leaf by auto
    from split_leaf_fits [OF this] True assms Leaf show ?thesis
      by (auto simp: insert_into_leaf_def Let_def es1_def [symmetric])
  next
    case False
    then show ?thesis using assms Leaf by (auto simp: insert_into_leaf_def Let_def es1_def [symmetric])
  qed
next
  case (Node u kts)
  obtain t2 kts2 where r: "insert_in lt k v u kts = (t2, kts2)" by fastforce
  have h: "0 < h" "kids_fit (h - 1) u kts" using assms(1) Node by auto
  have s: "kids_fit (h - 1) t2 kts2" "length kts \<le> length kts2" "length kts2 \<le> Suc (length kts)"
    using insert_fits(2) [OF h(2) r] by auto
  show ?thesis
  proof (cases "length kts2 \<noteq> length kts \<and> length kts2 > MAX_KEYS")
    case True
    then have "length kts2 = Suc MAX_KEYS" using s assms(1) Node by auto
    from split_internal_fits [OF s(1) this] True assms(2) Node r h(1) show ?thesis by (auto simp: Let_def)
  next
    case False
    then show ?thesis using s assms Node r h(1) by (auto simp: Let_def)
  qed
qed

lemma bp_insert_spec:
  assumes "bp_ok lt t"
  shows "bp_ok lt (bp_insert lt k v t) \<and> entries_of (bp_insert lt k v t) = sm_insert lt k v (entries_of t)"
proof -
  obtain h where h: "root_fits h t" and o: "ordered lt None None t" using assms by (auto simp: bp_ok_def)
  obtain t1 up where r: "insert_tree lt k v t = (t1, up)" by fastforce
  have s: "ordered_kids lt None None t1 (promoted up)" 
      "entries_of (Node t1 (promoted up)) = sm_insert lt k v (entries_of t)"
    using insert_ordered(1) [OF o _ _ r] by auto
  show ?thesis
  proof (cases up)
    case None
    then show ?thesis using insert_root_fits [OF h r] s r by (auto simp: bp_ok_def bp_insert_def)
  next
    case (Some p)
    then have "root_fits (Suc h) (Node t1 [p])"
      using insert_root_fits [OF h r] by (auto simp: degree_values)
    then show ?thesis using s r Some by (cases p) (auto simp: bp_ok_def bp_insert_def)
  qed
qed

lemma bp_empty: "bp_ok lt empty_tree \<and> entries_of empty_tree = []"
  by (auto simp: bp_ok_def empty_tree_def sm_ok_def)

lemma bp_sorted: "bp_ok lt t \<Longrightarrow> sm_ok lt (entries_of t)"
  by (auto simp: bp_ok_def dest: entries_sorted)

lemma search_entries: "bp_ok lt t \<Longrightarrow> search lt k t = sm_find k (entries_of t)"
  using find_entries(1) by (auto simp: bp_ok_def search_def sm_find_def)

end

end
