(* ===== verification/BPlus_Remove.thy ===== *)
theory BPlus_Remove
  imports BPlus_Inv
begin

text \<open>
  Removal from the B+ tree: where \<open>remove\<close> returns, it erases the key from the sorted list of the entries and
  keeps the invariant; and where it does not return.
\<close>

section \<open>Children in context\<close>

text \<open>The children of a node, given as the walk of \<open>remove_in\<close> sees them.\<close>

fun whole :: "('k, 'v) on_left \<Rightarrow> ('k, 'v) bptree \<Rightarrow> ('k, 'v) kids \<Rightarrow> ('k, 'v) bptree \<times> ('k, 'v) kids" where
  "whole None t kts = (t, kts)"
| "whole (Some (l, pk)) t kts = (l, (pk, t) # kts)"

abbreviation ordered_all where
  "ordered_all lt lo hi p \<equiv> ordered_kids lt lo hi (fst p) (snd p)"

abbreviation entries_all where
  "entries_all p \<equiv> entries_of (Node (fst p) (snd p))"

abbreviation all_fit where
  "all_fit h p \<equiv> kids_fit h (fst p) (snd p)"

fun next_hi :: "'k option \<Rightarrow> ('k, 'v) kids \<Rightarrow> 'k option" where
  "next_hi hi [] = hi"
| "next_hi hi ((k, u) # kts) = Some k"

fun tail_ok :: "('k \<Rightarrow> 'k \<Rightarrow> bool) \<Rightarrow> 'k option \<Rightarrow> 'k option \<Rightarrow> ('k, 'v) kids \<Rightarrow> bool" where
  "tail_ok lt lo hi [] = True"
| "tail_ok lt lo hi ((k, u) # kts) = (gt_lo lt lo k \<and> lt_hi lt hi k \<and> ordered_kids lt (Some k) hi u kts)"

lemma ordered_kids_first:
  "ordered_kids lt lo hi t kts \<longleftrightarrow> ordered lt lo (next_hi hi kts) t \<and> tail_ok lt lo hi kts"
  by (cases kts) auto

declare entries_of.simps(2) [simp del]

lemma entries_Node_Nil [simp]: "entries_of (Node t []) = entries_of t"
  by (simp add: entries_of.simps)

lemma entries_Node_Cons [simp]: "entries_of (Node t ((k, u) # kts)) = entries_of t @ entries_of (Node u kts)"
  by (simp add: entries_of.simps)

lemma entries_first: "entries_of t = entries_of t' \<Longrightarrow> entries_of (Node t kts) = entries_of (Node t' kts)"
  by (simp add: entries_of.simps)

lemma kids_fit_simps [simp]:
  "kids_fit h t [] \<longleftrightarrow> fits h t"
  "kids_fit h t ((k, u) # kts) \<longleftrightarrow> fits h t \<and> kids_fit h u kts"
  by (auto simp: kids_fit_def)

lemma fits_Node: "fits h (Node t kts) \<longleftrightarrow>
    0 < h \<and> MIN_KEYS \<le> length kts \<and> length kts \<le> MAX_KEYS \<and> kids_fit (h - 1) t kts"
  by (auto simp: kids_fit_def)

declare fits.simps(2) [simp del]

lemma length_erase_key: "k \<in> fst ` set es \<Longrightarrow> Suc (length (erase_key k es)) = length es"
proof (induction es)
  case (Cons e es)
  then show ?case by (cases e) auto
qed simp

lemma fits_leaf: "fits 0 t \<longleftrightarrow> (\<exists>es. t = Leaf es \<and> MIN_KEYS \<le> length es \<and> length es \<le> MAX_KEYS)"
  by (cases t) (auto simp: fits_Node)

fun lo_of :: "'k option \<Rightarrow> ('k, 'v) on_left \<Rightarrow> 'k option" where
  "lo_of lo None = lo"
| "lo_of lo (Some (l, pk)) = Some pk"

fun left_ok :: "('k \<Rightarrow> 'k \<Rightarrow> bool) \<Rightarrow> 'k option \<Rightarrow> 'k option \<Rightarrow> ('k, 'v) on_left \<Rightarrow> bool" where
  "left_ok lt lo hi None = True"
| "left_ok lt lo hi (Some (l, pk)) = (ordered lt lo (Some pk) l \<and> gt_lo lt lo pk \<and> lt_hi lt hi pk)"

fun left_entries :: "('k, 'v) on_left \<Rightarrow> ('k \<times> 'v) list" where
  "left_entries None = []"
| "left_entries (Some (l, pk)) = entries_of l"

definition kids_entries :: "('k, 'v) kids \<Rightarrow> ('k \<times> 'v) list" where
  "kids_entries kts = concat (map (\<lambda>(_, u). entries_of u) kts)"

text \<open>What a removal leaves of a subtree: a leaf may be one key short.\<close>

definition tree_removed ::
  "('k \<Rightarrow> 'k \<Rightarrow> bool) \<Rightarrow> 'k \<Rightarrow> nat \<Rightarrow> 'k option \<Rightarrow> 'k option \<Rightarrow> ('k, 'v) bptree \<Rightarrow> ('k, 'v) bptree \<Rightarrow> removal \<Rightarrow> bool" where
  "tree_removed lt k h lo hi t t1 r \<longleftrightarrow>
     ordered lt lo hi t1 \<and> entries_of t1 = sm_erase k (entries_of t) \<and>
     (r \<noteq> Absent \<longleftrightarrow> k \<in> fst ` set (entries_of t)) \<and> r \<noteq> Merged \<and>
     (fits h t1 \<or> r = Erased \<and> h = 0 \<and> (\<exists>es. t1 = Leaf es \<and> Suc (length es) = MIN_KEYS))"

text \<open>What it leaves of the children of a node.\<close>

definition kids_removed ::
  "('k \<Rightarrow> 'k \<Rightarrow> bool) \<Rightarrow> 'k \<Rightarrow> nat \<Rightarrow> 'k option \<Rightarrow> 'k option \<Rightarrow> ('k, 'v) bptree \<times> ('k, 'v) kids \<Rightarrow>
     ('k, 'v) bptree \<times> ('k, 'v) kids \<Rightarrow> removal \<Rightarrow> bool" where
  "kids_removed lt k h lo hi p q r \<longleftrightarrow>
     ordered_all lt lo hi q \<and> entries_all q = sm_erase k (entries_all p) \<and>
     (r \<noteq> Absent \<longleftrightarrow> k \<in> fst ` set (entries_all p)) \<and> all_fit h q \<and>
     length (snd q) + (if r = Merged then 1 else 0) = length (snd p)"

section \<open>Borrowing and merging\<close>

context comparator
begin

lemma tail_mono: "tail_ok lt (Some pk) hi kts \<Longrightarrow> lt pk1 pk \<Longrightarrow> tail_ok lt (Some pk1) hi kts"
proof (cases kts)
  case (Cons x r)
  assume a: "tail_ok lt (Some pk) hi kts" "lt pk1 pk"
  obtain k u where x: "x = (k, u)" by fastforce
  show ?thesis using a lt_trans [OF a(2), of k] by (simp add: Cons x)
qed simp

lemma tail_below: "tail_ok lt (Some pk) hi kts \<Longrightarrow> gt_lo lt lo pk \<Longrightarrow> tail_ok lt lo hi kts"
  by (cases kts) (auto intro: gt_trans)

lemma next_below: "tail_ok lt (Some pk) hi kts \<Longrightarrow> lt_hi lt hi pk \<Longrightarrow> lt_hi lt (next_hi hi kts) pk"
  by (cases kts) auto

lemma ordered_leaf_append:
  "ordered lt lo hi (Leaf (xs @ ys)) \<longleftrightarrow> ordered lt lo hi (Leaf xs) \<and> ordered lt lo hi (Leaf ys) \<and>
     (\<forall>x \<in> set xs. \<forall>y \<in> set ys. lt (fst x) (fst y))"
  by (auto simp: ok_append)

lemma between: "lt x p \<Longrightarrow> \<not> lt y p \<Longrightarrow> lt x y"
  by (metis lt_total lt_trans)

lemma ordered_lower: "ordered lt (Some pk) hi (Leaf es) \<Longrightarrow> gt_lo lt lo pk \<Longrightarrow> ordered lt lo hi (Leaf es)"
  using gt_ge_trans gt_ge by auto

lemma ordered_upper: "ordered lt lo (Some pk) (Leaf es) \<Longrightarrow> lt_hi lt hi pk \<Longrightarrow> ordered lt lo hi (Leaf es)"
  using hi_trans by auto

lemma merge_ordered:
  assumes "ordered lt lo (Some pk) (Leaf es)" and "gt_lo lt lo pk" and "lt_hi lt hi pk"
    and "ordered_kids lt (Some pk) hi (Leaf rs) kts"
  shows "ordered_kids lt lo hi (Leaf (es @ rs)) kts"
proof -
  have t: "tail_ok lt (Some pk) hi kts" and r: "ordered lt (Some pk) (next_hi hi kts) (Leaf rs)"
    using assms(4) by (auto simp: ordered_kids_first)
  have "lt (fst x) (fst y)" if "x \<in> set es" "y \<in> set rs" for x y
    using assms(1) r that by (auto intro: between)
  then show ?thesis
    using ordered_upper [OF assms(1) next_below [OF t assms(3)]] ordered_lower [OF r assms(2)] tail_below [OF t assms(2)]
    unfolding ordered_kids_first ordered_leaf_append by blast
qed

lemma borrow_left_ordered:
  assumes "ordered lt lo (Some pk) (Leaf ls)" and "gt_lo lt lo pk" and "lt_hi lt hi pk"
    and "ordered_kids lt (Some pk) hi (Leaf es) kts" and "2 \<le> length ls"
  shows "ordered_kids lt lo hi (Leaf (butlast ls)) ((fst (last ls), Leaf (last ls # es)) # kts)"
proof -
  obtain xs e where ls: "ls = xs @ [e]" using assms(5) by (cases ls rule: rev_cases) auto
  obtain x where x: "x \<in> set xs" using assms(5) ls by (cases xs) auto
  have xs: "ordered lt lo (Some pk) (Leaf xs)" and e: "ordered lt lo (Some pk) (Leaf [e])"
      and lt: "\<And>y. y \<in> set xs \<Longrightarrow> lt (fst y) (fst e)"
    using assms(1) unfolding ls ordered_leaf_append by auto
  have p: "lt (fst e) pk" using e by simp
  have t: "tail_ok lt (Some pk) hi kts" and r: "ordered lt (Some pk) (next_hi hi kts) (Leaf es)"
    using assms(4) by (auto simp: ordered_kids_first)
  have g: "gt_lo lt lo (fst e)" using lt [OF x] xs x ge_gt_trans by auto
  have "ordered lt (Some (fst e)) (next_hi hi kts) (Leaf ([e] @ es))"
    unfolding ordered_leaf_append
  proof (intro conjI)
    show "ordered lt (Some (fst e)) (next_hi hi kts) (Leaf [e])"
      using lt_irrefl hi_trans [OF next_below [OF t assms(3)] p] by (cases e) (auto simp: ok_Cons sm_ok_def)
    show "ordered lt (Some (fst e)) (next_hi hi kts) (Leaf es)" using ordered_lower [OF r, of "Some (fst e)"] p by simp
    show "\<forall>x \<in> set [e]. \<forall>y \<in> set es. lt (fst x) (fst y)" using r p by (auto intro: between)
  qed
  moreover have "ordered lt lo (Some (fst e)) (Leaf xs)" using xs lt by auto
  ultimately show ?thesis
    using g hi_trans [OF assms(3) p] tail_mono [OF t p] by (simp add: ls ordered_kids_first)
qed

lemma borrow_right_ordered:
  assumes "ordered lt lo (Some pk) (Leaf es)" and "gt_lo lt lo pk" and "lt_hi lt hi pk"
    and "ordered_kids lt (Some pk) hi (Leaf rs) kts" and "2 \<le> length rs"
  shows "ordered_kids lt lo hi (Leaf (es @ [hd rs])) ((fst (hd (tl rs)), Leaf (tl rs)) # kts)"
proof -
  obtain r r2 rs2 where rs: "rs = r # r2 # rs2" using assms(5) by (cases rs; cases "tl rs") auto
  have t: "tail_ok lt (Some pk) hi kts" and o: "ordered lt (Some pk) (next_hi hi kts) (Leaf rs)"
    using assms(4) by (auto simp: ordered_kids_first)
  have ok: "sm_ok lt (r2 # rs2)" "\<And>y. y \<in> set (r2 # rs2) \<Longrightarrow> lt (fst r) (fst y)" "\<not> lt (fst r) pk"
      "\<And>y. y \<in> set rs2 \<Longrightarrow> lt (fst r2) (fst y)"
    using o by (simp_all add: rs sm_ok_def) auto
  have p2: "lt pk (fst r2)" using not_lt_trans [OF ok(3) ok(2) [of r2]] by simp
  have g: "gt_lo lt lo (fst r2)" using gt_trans [OF assms(2) p2] .
  have n: "lt_hi lt (next_hi hi kts) (fst r2)" using o by (simp add: rs)
  have h: "lt_hi lt hi (fst r2)" using n t by (cases kts) (auto intro: hi_trans)
  have t2: "tail_ok lt (Some (fst r2)) hi kts" using t n by (cases kts) auto
  have "ordered lt (Some (fst r2)) (next_hi hi kts) (Leaf (r2 # rs2))"
    using o ok(1) lt_irrefl lt_asym [OF ok(4)] by (simp add: rs)
  moreover have "ordered lt lo (Some (fst r2)) (Leaf (es @ [r]))"
    unfolding ordered_leaf_append
  proof (intro conjI)
    show "ordered lt lo (Some (fst r2)) (Leaf es)" using ordered_upper [OF assms(1), of "Some (fst r2)"] p2 by simp
    show "ordered lt lo (Some (fst r2)) (Leaf [r])" using ok gt_ge_trans [OF assms(2)] gt_ge by (auto simp: sm_ok_def)
    show "\<forall>x \<in> set es. \<forall>y \<in> set [r]. lt (fst x) (fst y)" using assms(1) ok(3) by (auto intro: between)
  qed
  ultimately show ?thesis using g h t2 by (simp add: rs ordered_kids_first)
qed

lemma fit_leaf_length: "fits 0 (Leaf es) \<longleftrightarrow> MIN_KEYS \<le> length es \<and> length es \<le> MAX_KEYS"
  by simp

lemma handle_underflow_ordered:
  assumes "ordered_all lt lo hi (whole lft (Leaf es) (promoted rgt @ kts))"
    and "\<And>l pk. lft = Some (l, pk) \<Longrightarrow> fits 0 l" and "\<And>qk r. rgt = Some (qk, r) \<Longrightarrow> fits 0 r"
    and "handle_underflow lft (Leaf es) rgt = Inr (m, l, n, q)"
  shows "ordered_all lt lo hi (whole l n (promoted q @ kts)) \<and>
    entries_all (whole l n (promoted q @ kts)) = entries_all (whole lft (Leaf es) (promoted rgt @ kts))"
proof -
  have left: ?thesis
    if lft: "lft = Some (Leaf ls, pk)" and big: "MIN_KEYS < length ls" for ls pk
  proof -
    have r: "m = False" "l = Some (Leaf (butlast ls), fst (last ls))" "n = Leaf (last ls # es)" "q = rgt"
      using assms(4) big by (auto simp: handle_underflow_def lft)
    have "ls = butlast ls @ [last ls]" using big by (cases ls) auto
    then have "entries_of (Leaf ls) @ entries_of (Node (Leaf es) (promoted rgt @ kts)) =
        butlast ls @ entries_of (Node (Leaf (last ls # es)) (promoted rgt @ kts))"
      by (metis append.assoc append_Cons append_Nil entries_of.simps)
    then show ?thesis
      using borrow_left_ordered [of lo pk ls hi es "promoted rgt @ kts"] assms(1) big
      by (simp add: lft r degree_values del: ordered.simps(1))
  qed
  have right: ?thesis
    if rgt: "rgt = Some (qk, Leaf rs)" and big: "MIN_KEYS < length rs"
      and res: "m = False" "l = lft" "n = Leaf (es @ [hd rs])" "q = Some (fst (hd (tl rs)), Leaf (tl rs))" for qk rs
  proof -
    have "rs = hd rs # tl rs" using big by (cases rs) auto
    then have e: "es @ entries_of (Node (Leaf rs) kts) = (es @ [hd rs]) @ entries_of (Node (Leaf (tl rs)) kts)"
      by (metis append.assoc append_Cons append_Nil entries_of.simps)
    show ?thesis
    proof (cases lft)
      case None
      then show ?thesis
        using borrow_right_ordered [of lo qk es hi rs kts] assms(1) big e
        by (simp add: rgt res degree_values del: ordered.simps(1))
    next
      case (Some p)
      then show ?thesis
        using borrow_right_ordered [of "Some (snd p)" qk es hi rs kts] assms(1) big e
        by (cases p) (simp add: rgt res degree_values del: ordered.simps(1))
    qed
  qed
  have merge_left: ?thesis
    if lft: "lft = Some (Leaf ls, pk)" and res: "l = None" "n = Leaf (ls @ es)" "q = rgt" for ls pk
    using merge_ordered [of lo pk ls hi es "promoted rgt @ kts"] assms(1)
    by (simp add: lft res entries_of.simps(2) del: ordered.simps(1))
  have merge_right: ?thesis
    if lft: "lft = None" and rgt: "rgt = Some (qk, Leaf rs)" and res: "l = None" "n = Leaf (es @ rs)" "q = None" for qk rs
    using merge_ordered [of lo qk es hi rs kts] assms(1)
    by (simp add: lft rgt res entries_of.simps(2) del: ordered.simps(1))
  show ?thesis
  proof (cases lft)
    case None
    then show ?thesis
    proof (cases rgt)
      case (Some p)
      then obtain qk rs where p: "rgt = Some (qk, Leaf rs)" using assms(3) fits_leaf by (cases p) auto
      show ?thesis using right [OF p] merge_right [OF None p] assms(4) None p
        by (auto simp: handle_underflow_def split: if_splits)
    qed (use assms(4) in \<open>simp add: handle_underflow_def\<close>)
  next
    case (Some p)
    then obtain ls pk where p: "lft = Some (Leaf ls, pk)" using assms(2) fits_leaf by (cases p) auto
    show ?thesis
    proof (cases rgt)
      case None
      show ?thesis using left [OF p] merge_left [OF p] assms(4) None p
        by (auto simp: handle_underflow_def split: if_splits)
    next
      case (Some q')
      then obtain qk rs where q': "rgt = Some (qk, Leaf rs)" using assms(3) fits_leaf by (cases q') auto
      show ?thesis using left [OF p] merge_left [OF p] right [OF q'] assms(4) p q'
        by (auto simp: handle_underflow_def split: if_splits)
    qed
  qed
qed

lemma handle_underflow_fits:
  assumes "\<And>l pk. lft = Some (l, pk) \<Longrightarrow> fits 0 l" and "\<And>qk r. rgt = Some (qk, r) \<Longrightarrow> fits 0 r"
    and "Suc (length es) = MIN_KEYS" and "handle_underflow lft (Leaf es) rgt = Inr (m, l, n, q)"
  shows "all_fit 0 (whole l n (promoted q)) \<and> (lft = None \<longrightarrow> l = None) \<and>
    length (snd (whole l n (promoted q))) + (if m then 1 else 0) = length (snd (whole lft (Leaf es) (promoted rgt)))"
proof (cases lft)
  case None
  show ?thesis
  proof (cases rgt)
    case (Some p)
    then obtain qk rs where p: "rgt = Some (qk, Leaf rs)" and f: "fits 0 (Leaf rs)"
      using assms(2) fits_leaf by (cases p) auto
    show ?thesis using assms(3,4) None p f by (auto simp: handle_underflow_def degree_values split: if_splits)
  qed (use assms(4) None in \<open>simp add: handle_underflow_def\<close>)
next
  case (Some p)
  then obtain ls pk where p: "lft = Some (Leaf ls, pk)" and f: "fits 0 (Leaf ls)"
    using assms(1) fits_leaf by (cases p) auto
  show ?thesis
  proof (cases rgt)
    case None
    show ?thesis using assms(3,4) None p f by (auto simp: handle_underflow_def degree_values split: if_splits)
  next
    case (Some q')
    then obtain qk rs where q': "rgt = Some (qk, Leaf rs)" and g: "fits 0 (Leaf rs)"
      using assms(2) fits_leaf by (cases q') auto
    show ?thesis using assms(3,4) p q' f g by (auto simp: handle_underflow_def degree_values split: if_splits)
  qed
qed

section \<open>Removal in a subtree\<close>

lemma whole_ordered:
  "ordered_all lt lo hi (whole lft t kts) \<longleftrightarrow>
     left_ok lt lo hi lft \<and> ordered lt (lo_of lo lft) (next_hi hi kts) t \<and> tail_ok lt (lo_of lo lft) hi kts"
  by (cases "(lo, lft)" rule: lo_of.cases) (auto simp: ordered_kids_first)

lemma whole_entries: "entries_all (whole lft t kts) = left_entries lft @ entries_of t @ kids_entries kts"
  by (cases lft rule: left_entries.cases) (auto simp: entries_of.simps(2) kids_entries_def)

lemma whole_fit: "all_fit h (whole lft t kts) \<longleftrightarrow>
    (\<forall>l pk. lft = Some (l, pk) \<longrightarrow> fits h l) \<and> kids_fit h t kts"
  by (cases lft rule: left_entries.cases) auto

lemma whole_append: "kids_fit h t (promoted q @ kts) \<longleftrightarrow> kids_fit h t (promoted q) \<and> (\<forall>(_, u) \<in> set kts. fits h u)"
  by (cases q) (auto simp: kids_fit_def)

lemma rebalance_spec:
  assumes o: "ordered_all lt lo hi (whole lft t (promoted rgt @ kts))"
    and f: "all_fit h (whole lft t (promoted rgt @ kts))"
    and t1: "tree_removed lt k h (lo_of lo lft) (next_hi hi (promoted rgt @ kts)) t t1 r0"
    and out: "k \<notin> fst ` set (left_entries lft)" "k \<notin> fst ` set (kids_entries (promoted rgt @ kts))"
    and r: "rebalance lft rgt (t1, r0) = Inr (l, n, q, r)"
  shows "kids_removed lt k h lo hi (whole lft t (promoted rgt @ kts)) (whole l n (promoted q @ kts)) r \<and>
    (lft = None \<longrightarrow> l = None)"
proof -
  have o1: "ordered_all lt lo hi (whole lft t1 (promoted rgt @ kts))"
    using o t1 by (simp add: whole_ordered tree_removed_def)
  have e1: "entries_all (whole lft t1 (promoted rgt @ kts)) = sm_erase k (entries_all (whole lft t (promoted rgt @ kts)))"
    using t1 out by (simp add: whole_entries erase_append tree_removed_def)
  have m: "r0 \<noteq> Absent \<longleftrightarrow> k \<in> fst ` set (entries_all (whole lft t (promoted rgt @ kts)))" "r0 \<noteq> Merged"
    using t1 out by (auto simp: whole_entries tree_removed_def image_Un)
  show ?thesis
  proof (cases "r0 = Erased \<and> is_leaf t1 \<and> node_keys t1 < MIN_KEYS")
    case False
    then have eq: "l = lft" "n = t1" "q = rgt" "r = r0" using r by (auto simp: rebalance_def)
    have "fits h t1" using False t1 by (auto simp: tree_removed_def)
    then have "all_fit h (whole lft t1 (promoted rgt @ kts))"
      using f unfolding whole_fit by (simp add: kids_fit_def)
    then show ?thesis using o1 e1 m eq
      by (cases lft rule: left_entries.cases) (auto simp: kids_removed_def)
  next
    case True
    then obtain es where es: "t1 = Leaf es" "Suc (length es) = MIN_KEYS" "h = 0"
      using t1 by (cases t1) (auto simp: tree_removed_def)
    obtain mg where u: "handle_underflow lft (Leaf es) rgt = Inr (mg, l, n, q)" "r = (if mg then Merged else Erased)"
      using r True es by (auto simp: rebalance_def bindE_Inr)
    have fl: "\<And>l pk. lft = Some (l, pk) \<Longrightarrow> fits 0 l" and fr: "\<And>qk r. rgt = Some (qk, r) \<Longrightarrow> fits 0 r"
      using f es(3) unfolding whole_fit by (auto simp: kids_fit_def)
    have "all_fit 0 (whole l n (promoted q))" "lft = None \<longrightarrow> l = None"
        "length (snd (whole l n (promoted q))) + (if mg then 1 else 0) = length (snd (whole lft (Leaf es) (promoted rgt)))"
      using handle_underflow_fits [OF fl fr es(2) u(1)] by auto
    moreover have "ordered_all lt lo hi (whole l n (promoted q @ kts))"
        "entries_all (whole l n (promoted q @ kts)) = entries_all (whole lft (Leaf es) (promoted rgt @ kts))"
      using handle_underflow_ordered [OF o1 [unfolded es(1)] fl fr u(1)] by auto
    ultimately show ?thesis
      using e1 m True es u f
      by (cases lft rule: left_entries.cases; cases l rule: left_entries.cases)
        (auto simp: kids_removed_def whole_fit whole_append)
  qed
qed

text \<open>An inner node after \<open>remove_in\<close>.\<close>

lemma node_removed:
  assumes "kids_removed lt k h lo hi (t, kts) (t1, kts1) r" and "fits (Suc h) (Node t kts)"
    and "remove_in lt None k t kts = Inr (None, t1, kts1, r)" and "remove_tree lt False k (Node t kts) = Inr (n, r1)"
  shows "tree_removed lt k (Suc h) lo hi (Node t kts) n r1"
  using assms by (auto simp: kids_removed_def tree_removed_def fits_Node after_merge_def bindE_Inr split: if_splits)

lemma remove_spec:
  fixes t u :: "('k, 'v) bptree"
  shows "ordered lt lo hi t \<Longrightarrow> fits h t \<Longrightarrow> remove_tree lt False k t = Inr (t1, r) \<Longrightarrow> tree_removed lt k h lo hi t t1 r"
    and "ordered_all lt lo hi (whole lft u kts) \<Longrightarrow> all_fit h (whole lft u kts) \<Longrightarrow>
      (\<And>l pk. lft = Some (l, pk) \<Longrightarrow> \<not> lt k pk) \<Longrightarrow> remove_in lt lft k u kts = Inr (l, u1, kts1, r) \<Longrightarrow>
      kids_removed lt k h lo hi (whole lft u kts) (whole l u1 kts1) r \<and> (lft = None \<longrightarrow> l = None)"
proof (induction t and u kts arbitrary: lo hi h t1 r and lo hi h lft l u1 kts1 r rule: tree_kids_induct)
  case (leaf es)
  have s: "sm_ok lt es" using leaf.prems(1) by simp
  have h: "h = 0" "MIN_KEYS \<le> length es" "length es \<le> MAX_KEYS" using leaf.prems(2) by auto
  show ?case
  proof (cases "k \<in> fst ` set es")
    case True
    then have r: "t1 = Leaf (sm_erase k es)" "r = Erased"
      using leaf.prems(3) erase_key_sm [OF s] by auto
    have l: "Suc (length (sm_erase k es)) = length es" using length_erase_key [OF True] erase_key_sm [OF s] by simp
    have "ordered lt lo hi (Leaf (sm_erase k es))"
      using leaf.prems(1) ok_erase [OF s] by (auto simp: set_sm_erase)
    moreover have "MIN_KEYS \<le> length (sm_erase k es) \<or> Suc (length (sm_erase k es)) = MIN_KEYS" using l h(2) by linarith
    ultimately show ?thesis using l h r True by (auto simp: tree_removed_def)
  qed (use leaf in \<open>auto simp: tree_removed_def\<close>)
next
  case (node t kts)
  obtain l t2 kts2 r2 where r: "remove_in lt None k t kts = Inr (l, t2, kts2, r2)"
    using node.prems(3) by (auto simp: bindE_Inr)
  have h: "0 < h" "kids_fit (h - 1) t kts" using node.prems(2) by (auto simp: fits_Node)
  have "kids_removed lt k (h - 1) lo hi (t, kts) (whole l t2 kts2) r2" "l = None"
    using node.IH [where lft = None and h = "h - 1" and lo = lo and hi = hi] node.prems(1) h(2) r by auto
  then show ?case using node_removed [where k = k and h = "h - 1" and lo = lo and hi = hi and t = t and kts = kts and ?t1.0 = t2 and ?kts1.0 = kts2] node.prems h(1) r by simp
next
  case (last t)
  obtain t2 r0 where r: "remove_tree lt False k t = Inr (t2, r0)" and
      b: "\<exists>q. rebalance lft None (t2, r0) = Inr (l, u1, q, r) \<and> kts1 = promoted q"
    using last.prems(4) by (auto simp: bindE_Inr)
  have "ordered lt (lo_of lo lft) hi t" and "fits h t"
    using last.prems(1,2) by (auto simp: whole_ordered whole_fit)
  then have "tree_removed lt k h (lo_of lo lft) hi t t2 r0" using last.IH r by blast
  moreover have "k \<notin> fst ` set (left_entries lft)"
    using last.prems(1,3) by (cases lft rule: left_entries.cases) (auto simp: whole_ordered dest: right_of not_key)
  ultimately show ?case
    using rebalance_spec [where lft = lft and t = t and rgt = None and kts = "[]" and h = h and ?t1.0 = t2 and ?r0.0 = r0 and lo = lo and hi = hi and k = k] last.prems(1,2) b
    by (auto simp: kids_entries_def)
next
  case (more t k1 u kts)
  have o: "left_ok lt lo hi lft" "ordered lt (lo_of lo lft) (Some k1) t" "gt_lo lt (lo_of lo lft) k1" "lt_hi lt hi k1"
      "ordered_kids lt (Some k1) hi u kts"
    using more.prems(1) by (auto simp: whole_ordered)
  have f: "fits h t" "kids_fit h u kts" using more.prems(2) by (auto simp: whole_fit)
  have left: "k \<notin> fst ` set (left_entries lft)"
    using o(1) more.prems(3) by (cases lft rule: left_entries.cases) (auto dest: right_of not_key)
  show ?case
  proof (cases "lt k k1")
    case True
    obtain t2 r0 q where r: "remove_tree lt False k t = Inr (t2, r0)" and
        b: "rebalance lft (Some (k1, u)) (t2, r0) = Inr (l, u1, q, r)" "kts1 = promoted q @ kts"
      using more.prems(4) True by (auto simp: bindE_Inr)
    have "tree_removed lt k h (lo_of lo lft) (Some k1) t t2 r0" using more.IH(1) [OF o(2) f(1) r] .
    moreover have "k \<notin> fst ` set (entries_of (Node u kts))" by (rule not_key(2) [OF left_of [OF o(5) True]])
    ultimately show ?thesis
      using rebalance_spec [where lft = lft and t = t and rgt = "Some (k1, u)" and kts = kts and h = h and ?t1.0 = t2 and ?r0.0 = r0 and lo = lo and hi = hi and k = k] more.prems(1,2) b left
      by (simp add: kids_entries_def entries_of.simps(2))
  next
    case False
    obtain l2 u2 kts2 where r: "remove_in lt (Some (t, k1)) k u kts = Inr (l2, u2, kts2, r)"
        and c: "(case l2 of Some (t1, k2) \<Rightarrow> l = lft \<and> u1 = t1 \<and> kts1 = (k2, u2) # kts2
           | None \<Rightarrow> l = lft \<and> u1 = u2 \<and> kts1 = kts2)"
      using more.prems(4) False by (auto simp: bindE_Inr split: option.splits)
    have w: "kids_removed lt k h (lo_of lo lft) hi (whole (Some (t, k1)) u kts) (whole l2 u2 kts2) r"
      using more.IH(2) [where lft = "Some (t, k1)" and lo = "lo_of lo lft" and hi = hi and h = h] o f r False by auto
    have e: "whole l2 u2 kts2 = (u1, kts1)" and l: "l = lft" using c by (auto split: option.splits prod.splits)
    have n: "ordered_kids lt (lo_of lo lft) hi u1 kts1"
        "entries_of (Node u1 kts1) = sm_erase k (entries_of (Node t ((k1, u) # kts)))"
        "r \<noteq> Absent \<longleftrightarrow> k \<in> fst ` set (entries_of (Node t ((k1, u) # kts)))" "kids_fit h u1 kts1"
        "length kts1 + (if r = Merged then 1 else 0) = length ((k1, u) # kts)"
      using w unfolding kids_removed_def e by simp_all
    show ?thesis
    proof (cases lft rule: left_entries.cases)
      case 1
      then show ?thesis using n l by (simp add: kids_removed_def)
    next
      case (2 t0 pk)
      then show ?thesis using n l o(1) left more.prems(2)
        by (auto simp: kids_removed_def erase_append whole_fit)
    qed
  qed
qed

section \<open>The whole tree\<close>

lemma bp_remove_spec:
  assumes "bp_ok lt t" and "bp_remove lt k t = Inr (t1, b)"
  shows "bp_ok lt t1 \<and> entries_of t1 = sm_erase k (entries_of t) \<and> b = (k \<in> fst ` set (entries_of t)) \<and>
    is_leaf t1 = is_leaf t"
proof -
  obtain h where h: "root_fits h t" and o: "ordered lt None None t" using assms(1) by (auto simp: bp_ok_def)
  obtain r where r: "remove_tree lt True k t = Inr (t1, r)" "b = (r \<noteq> Absent)"
    using assms(2) by (auto simp: bp_remove_def bindE_Inr)
  show ?thesis
  proof (cases t)
    case (Leaf es)
    have s: "sm_ok lt es" using o Leaf by simp
    have "length (sm_erase k es) \<le> length es" by (simp add: sm_erase_def)
    then show ?thesis
      using r h Leaf s ok_erase [OF s] erase_key_sm [OF s] le_trans by (auto simp: bp_ok_def split: if_splits)
  next
    case (Node u kts)
    obtain l u1 kts1 r1 where q: "remove_in lt None k u kts = Inr (l, u1, kts1, r1)"
      using r(1) Node by (auto simp: bindE_Inr)
    have f: "0 < h" "kts \<noteq> []" "length kts \<le> MAX_KEYS" "kids_fit (h - 1) u kts" using h Node by auto
    have w: "kids_removed lt k (h - 1) None None (u, kts) (u1, kts1) r1"
      using remove_spec(2) [where lft = None and h = "h - 1" and lo = None and hi = None] o f q Node by fastforce
    have t1: "t1 = Node u1 kts1" "r \<noteq> Absent \<longleftrightarrow> r1 \<noteq> Absent" "r1 = Merged \<Longrightarrow> kts1 \<noteq> []"
      using r(1) q Node by (auto simp: bindE_Inr after_merge_def split: if_splits)
    have "length kts1 + (if r1 = Merged then 1 else 0) = length kts" using w by (simp add: kids_removed_def)
    then have "kts1 \<noteq> []" "length kts1 \<le> MAX_KEYS" using t1(3) f by (cases "r1 = Merged"; auto)+
    then have "root_fits h t1" using t1 w f by (auto simp: kids_removed_def)
    moreover have "ordered lt None None t1" using t1 w by (simp add: kids_removed_def)
    ultimately show ?thesis using w t1 r(2) Node by (auto simp: bp_ok_def kids_removed_def)
  qed
qed

end

text \<open>A removal that does not return ends in undefined behaviour; it throws no exception.\<close>

lemma handle_underflow_fault: "handle_underflow lft n rgt = Inl e \<Longrightarrow> \<exists>m. e = Undefined m"
  by (auto simp: handle_underflow_def split: option.splits if_splits prod.splits)

lemma after_merge_fault: "after_merge b kts = Inl e \<Longrightarrow> \<exists>m. e = Undefined m"
  by (auto simp: after_merge_def split: if_splits)

lemma rebalance_fault: "rebalance lft rgt p = Inl e \<Longrightarrow> \<exists>m. e = Undefined m"
  by (auto simp: rebalance_def bindE_Inl dest: handle_underflow_fault split: prod.splits if_splits)

lemma remove_fault:
  fixes t u :: "('k, 'v) bptree"
  shows "remove_tree lt is_root k t = Inl e \<Longrightarrow> \<exists>m. e = Undefined m"
    and "remove_in lt lft k u kts = Inl e \<Longrightarrow> \<exists>m. e = Undefined m"
proof (induction t and u kts arbitrary: is_root and lft rule: tree_kids_induct)
  case (node t kts)
  then show ?case by (auto simp: bindE_Inl dest: after_merge_fault split: if_splits)
next
  case (more t k1 u kts)
  then show ?case by (auto simp: bindE_Inl dest: rebalance_fault split: if_splits option.splits)
next
  case (last t)
  then show ?case by (auto simp: bindE_Inl dest: rebalance_fault)
qed simp

text \<open>A tree that is one leaf is below every limit.\<close>

lemma remove_one_leaf: "is_leaf t \<Longrightarrow> \<exists>t1 b. bp_remove lt k t = Inr (t1, b)"
  by (cases t) (auto simp: bp_remove_def)

section \<open>The depth of the tree\<close>

lemma kids_entries_length:
  fixes t :: "('k, 'v) bptree"
  assumes "\<And>u :: ('k, 'v) bptree. fits h u \<Longrightarrow> m \<le> length (entries_of u)" and "kids_fit h t kts"
  shows "Suc (length kts) * m \<le> length (entries_of (Node t kts))"
  using assms(2)
proof (induction kts arbitrary: t)
  case Nil
  then show ?case using assms(1) [of t] by simp
next
  case (Cons x kts)
  obtain k u where x: "x = (k, u)" by fastforce
  have "m \<le> length (entries_of t)" using assms(1) [of t] Cons.prems by (simp add: x)
  moreover have "Suc (length kts) * m \<le> length (entries_of (Node u kts))" using Cons.IH [of u] Cons.prems by (simp add: x)
  ultimately show ?case by (simp add: x)
qed

lemma fits_entries: "fits h t \<Longrightarrow> MIN_KEYS * DEGREE ^ h \<le> length (entries_of t)"
proof (induction h arbitrary: t)
  case 0
  then show ?case by (auto simp: fits_leaf)
next
  case (Suc h)
  then obtain u kts where t: "t = Node u kts" by (cases t) auto
  have f: "MIN_KEYS \<le> length kts" "kids_fit h u kts" using Suc.prems by (auto simp: t fits_Node)
  have "MIN_KEYS * DEGREE ^ Suc h = Suc MIN_KEYS * (MIN_KEYS * DEGREE ^ h)"
    by (simp add: DEGREE_def MIN_KEYS_def)
  also have "\<dots> \<le> Suc (length kts) * (MIN_KEYS * DEGREE ^ h)" using f(1) by (intro mult_le_mono1) simp
  also have "\<dots> \<le> length (entries_of t)" using kids_entries_length [OF Suc.IH f(2)] by (simp add: t)
  finally show ?case .
qed

lemma root_entries:
  assumes "root_fits (Suc h) t" shows "2 * MIN_KEYS * DEGREE ^ h \<le> length (entries_of t)"
proof -
  obtain u kts where t: "t = Node u kts" "kts \<noteq> []" "kids_fit h u kts" using assms by (cases t) auto
  have "2 * (MIN_KEYS * DEGREE ^ h) \<le> Suc (length kts) * (MIN_KEYS * DEGREE ^ h)"
    using t(2) by (intro mult_le_mono1) (cases kts; simp)
  also have "\<dots> \<le> length (entries_of t)" using kids_entries_length [OF fits_entries t(3)] by (simp only: t)
  finally show ?thesis by (simp only: mult.assoc)
qed

lemma inner_entries: "bp_ok lt t \<Longrightarrow> \<not> is_leaf t \<Longrightarrow> 2 * MIN_KEYS \<le> length (entries_of t)"
proof -
  assume a: "bp_ok lt t" "\<not> is_leaf t"
  then obtain h where h: "root_fits h t" by (auto simp: bp_ok_def)
  then obtain g where "h = Suc g" using a(2) by (cases t; cases h) auto
  then have "2 * MIN_KEYS * DEGREE ^ g \<le> length (entries_of t)" using root_entries h by blast
  moreover have "2 * MIN_KEYS * 1 \<le> 2 * MIN_KEYS * DEGREE ^ g" by (intro mult_le_mono2) (simp add: DEGREE_def)
  ultimately show ?thesis by linarith
qed

end
