(* ===== verification/BPlus_Index.thy ===== *)
theory BPlus_Index
  imports BPlus_Remove
begin

text \<open>
  The B+ tree as an index. \<open>ordered_index\<close> is the contract a user of an index relies on; runs of calls are
  analysed in it once, and every comparator makes the tree an instance. The properties of the tree follow.
\<close>

section \<open>The contract\<close>

datatype ('k, 'v) index_op = Put 'k 'v | Del 'k

fun is_put :: "('k, 'v) index_op \<Rightarrow> bool" where
  "is_put (Put k v) = True"
| "is_put (Del k) = False"

fun run_ops :: "('k \<Rightarrow> 'v \<Rightarrow> 't \<Rightarrow> 't) \<Rightarrow> ('k \<Rightarrow> 't \<Rightarrow> ('t \<times> bool) result) \<Rightarrow> ('k, 'v) index_op list \<Rightarrow> 't \<Rightarrow> 't result" where
  "run_ops put del [] t = Inr t"
| "run_ops put del (Put k v # ops) t = run_ops put del ops (put k v t)"
| "run_ops put del (Del k # ops) t = bindE (del k t) (\<lambda>(t1, _). run_ops put del ops t1)"

fun spec_ops :: "('k, 'v) index_op list \<Rightarrow> ('k \<rightharpoonup> 'v) \<Rightarrow> ('k \<rightharpoonup> 'v)" where
  "spec_ops [] m = m"
| "spec_ops (Put k v # ops) m = spec_ops ops (m(k \<mapsto> v))"
| "spec_ops (Del k # ops) m = spec_ops ops (m(k := None))"

locale ordered_index =
  fixes less_key :: "'k \<Rightarrow> 'k \<Rightarrow> bool"
    and put :: "'k \<Rightarrow> 'v \<Rightarrow> 't \<Rightarrow> 't"
    and del :: "'k \<Rightarrow> 't \<Rightarrow> ('t \<times> bool) result"
    and find_key :: "'k \<Rightarrow> 't \<Rightarrow> 'v option"
    and all_keys :: "'t \<Rightarrow> 'k list"
    and ok :: "'t \<Rightarrow> bool"
  assumes put_ok: "ok t \<Longrightarrow> ok (put k v t)"
    and find_put: "ok t \<Longrightarrow> find_key x (put k v t) = (if x = k then Some v else find_key x t)"
    and del_ok: "ok t \<Longrightarrow> del k t = Inr (t1, b) \<Longrightarrow> ok t1"
    and find_del: "ok t \<Longrightarrow> del k t = Inr (t1, b) \<Longrightarrow> find_key x t1 = (if x = k then None else find_key x t)"
    and del_found: "ok t \<Longrightarrow> del k t = Inr (t1, b) \<Longrightarrow> b = (find_key k t \<noteq> None)"
    and keys_sorted: "ok t \<Longrightarrow> sorted_wrt less_key (all_keys t)"
    and set_keys: "ok t \<Longrightarrow> set (all_keys t) = {k. find_key k t \<noteq> None}"
begin

lemma run_ok: "ok t \<Longrightarrow> run_ops put del ops t = Inr t1 \<Longrightarrow> ok t1"
proof (induction ops arbitrary: t)
  case (Cons c ops)
  then show ?case by (cases c) (auto simp: bindE_Inr intro: put_ok dest: del_ok)
qed simp

lemma run_find:
  assumes "ok t" and "run_ops put del ops t = Inr t1"
  shows "(\<lambda>k. find_key k t1) = spec_ops ops (\<lambda>k. find_key k t)"
  using assms
proof (induction ops arbitrary: t)
  case (Cons c ops)
  show ?case
  proof (cases c)
    case (Put k v)
    have "(\<lambda>x. find_key x (put k v t)) = (\<lambda>x. find_key x t)(k \<mapsto> v)" by (auto simp: find_put [OF Cons.prems(1)])
    then show ?thesis using Cons.IH [OF put_ok [OF Cons.prems(1)]] Cons.prems(2) Put by simp
  next
    case (Del k)
    obtain t2 b where d: "del k t = Inr (t2, b)" "run_ops put del ops t2 = Inr t1"
      using Cons.prems(2) Del by (auto simp: bindE_Inr)
    have "(\<lambda>x. find_key x t2) = (\<lambda>x. find_key x t)(k := None)" by (auto simp: find_del [OF Cons.prems(1) d(1)])
    then show ?thesis using Cons.IH [OF del_ok [OF Cons.prems(1) d(1)] d(2)] Del by simp
  qed
qed simp

lemma run_keys:
  assumes "ok t" and "run_ops put del ops t = Inr t1"
  shows "sorted_wrt less_key (all_keys t1) \<and> set (all_keys t1) = dom (spec_ops ops (\<lambda>k. find_key k t))"
  using keys_sorted [OF run_ok [OF assms]] set_keys [OF run_ok [OF assms]] run_find [OF assms, symmetric]
  by (simp add: dom_def)

end

text \<open>Every comparator makes the tree an ordered index.\<close>

sublocale comparator \<subseteq> tree: ordered_index lt "bp_insert lt" "bp_remove lt" "search lt" for_each_key "bp_ok lt"
proof
  fix t t1 :: "('k, 'v) bptree" and k v x b
  assume t: "bp_ok lt t"
  note i = bp_insert_spec [OF t, of k v]
  show "bp_ok lt (bp_insert lt k v t)" using i by blast
  show "search lt x (bp_insert lt k v t) = (if x = k then Some v else search lt x t)"
    using i t by (simp add: search_entries find_insert bp_sorted)
  show "sorted_wrt lt (for_each_key t)" using bp_sorted [OF t] by (simp add: for_each_key_entries sm_ok_def sorted_wrt_map)
  show "set (for_each_key t) = {k. search lt k t \<noteq> None}"
    by (auto simp: for_each_key_entries search_entries [OF t] sm_find_None)
  assume r: "bp_remove lt k t = Inr (t1, b)"
  note d = bp_remove_spec [OF t r]
  show "bp_ok lt t1" using d by blast
  then show "search lt x t1 = (if x = k then None else search lt x t)"
    using d t by (simp add: search_entries sm_find_erase)
  show "b = (search lt k t \<noteq> None)" using d t by (simp add: search_entries sm_find_None)
qed


section \<open>How many entries a run leaves\<close>

context comparator
begin

lemma length_put: "bp_ok lt t \<Longrightarrow> length (entries_of (bp_insert lt k v t)) \<le> Suc (length (entries_of t))"
  using bp_insert_spec [of t k v] by (simp add: length_insert)

text \<open>A tree of one leaf stays one leaf as long as the leaf has room.\<close>

lemma insert_one_leaf:
  assumes "is_leaf t" and "length (entries_of t) < MAX_KEYS"
  shows "is_leaf (bp_insert lt k v t)"
proof (cases t)
  case (Leaf es)
  have "length (sm_insert lt k v es) \<le> Suc (length es)" by (simp add: length_insert)
  then show ?thesis using assms Leaf by (auto simp: bp_insert_def insert_into_leaf_def Let_def)
qed (use assms in simp)

lemma insert_inner: "\<not> is_leaf t \<Longrightarrow> \<not> is_leaf (bp_insert lt k v t)"
proof (cases t)
  case (Node u kts)
  obtain u1 kts1 where "insert_in lt k v u kts = (u1, kts1)" by fastforce
  then show ?thesis using Node by (auto simp: bp_insert_def Let_def split_internal_def)
qed simp

lemma run_one_leaf:
  assumes "bp_ok lt t" and "is_leaf t" and "length (entries_of t) + length (filter is_put ops) \<le> MAX_KEYS"
  shows "\<exists>t1. run_ops (bp_insert lt) (bp_remove lt) ops t = Inr t1"
  using assms
proof (induction ops arbitrary: t)
  case (Cons c ops)
  show ?case
  proof (cases c)
    case (Put k v)
    have "length (entries_of (bp_insert lt k v t)) + length (filter is_put ops) \<le> MAX_KEYS"
      using Cons.prems(3) length_put [OF Cons.prems(1), of k v] Put by simp
    then show ?thesis
      using Cons.IH bp_insert_spec [OF Cons.prems(1)] insert_one_leaf [OF Cons.prems(2)] Cons.prems(3) Put by simp
  next
    case (Del k)
    obtain t1 b where r: "bp_remove lt k t = Inr (t1, b)" using remove_one_leaf [OF Cons.prems(2)] by blast
    note d = bp_remove_spec [OF Cons.prems(1) r]
    have "length (entries_of t1) \<le> length (entries_of t)" using d by (simp add: sm_erase_def)
    then show ?thesis using Cons.IH [of t1] d Cons.prems(2,3) r Del by simp
  qed
qed simp

lemma run_only_puts: "list_all is_put ops \<Longrightarrow> \<exists>t1. run_ops (bp_insert lt) del ops t = Inr t1"
proof (induction ops arbitrary: t)
  case (Cons c ops)
  then show ?case by (cases c) auto
qed simp

lemma run_inner:
  "\<not> is_leaf t \<Longrightarrow> bp_ok lt t \<Longrightarrow> run_ops (bp_insert lt) (bp_remove lt) ops t = Inr t1 \<Longrightarrow> \<not> is_leaf t1"
proof (induction ops arbitrary: t)
  case (Cons c ops)
  show ?case
  proof (cases c)
    case (Put k v)
    then show ?thesis
      using Cons.IH [OF insert_inner [OF Cons.prems(1)], of k v] Cons.prems(3) bp_insert_spec [OF Cons.prems(2)] by simp
  next
    case (Del k)
    then obtain t2 b where "bp_remove lt k t = Inr (t2, b)" "run_ops (bp_insert lt) (bp_remove lt) ops t2 = Inr t1"
      using Cons.prems(3) by (auto simp: bindE_Inr)
    then show ?thesis using Cons.IH [of t2] Cons.prems(1,2) bp_remove_spec [OF Cons.prems(2)] by blast
  qed
qed simp

lemma search_empty: "search lt k empty_tree = None"
  by (simp add: search_def empty_tree_def)

lemma runs_from_empty:
  assumes "run_ops (bp_insert lt) (bp_remove lt) ops empty_tree = Inr t"
  shows "bp_ok lt t \<and> (\<lambda>k. search lt k t) = spec_ops ops (\<lambda>_. None) \<and> sorted_wrt lt (for_each_key t) \<and>
    set (for_each_key t) = dom (spec_ops ops (\<lambda>_. None))"
proof -
  have e: "bp_ok lt empty_tree" using bp_empty by blast
  show ?thesis
    using tree.run_ok [OF e assms] tree.run_find [OF e assms] tree.run_keys [OF e assms] by (simp add: search_empty)
qed

lemma runs_return:
  assumes "list_all is_put ops \<or> length (filter is_put ops) \<le> MAX_KEYS"
  shows "\<exists>t. run_ops (bp_insert lt) (bp_remove lt) ops empty_tree = Inr t"
  using run_one_leaf [of empty_tree ops] run_only_puts [of ops] bp_empty assms by (auto simp: empty_tree_def)

lemma least_removal:
  assumes "bp_ok lt t" and "\<not> is_leaf t" and "length (entries_of t) = 2 * MIN_KEYS" and "k \<in> fst ` set (entries_of t)"
  shows "\<exists>m. bp_remove lt k t = Inl (Undefined m)"
proof (cases "bp_remove lt k t")
  case (Inl e)
  then show ?thesis by (auto simp: bp_remove_def bindE_Inl dest: remove_fault)
next
  case (Inr p)
  then obtain t1 b where r: "bp_remove lt k t = Inr (t1, b)" by (cases p) auto
  note d = bp_remove_spec [OF assms(1) r]
  have "length (sm_erase k (entries_of t)) < length (entries_of t)"
    using assms(4) by (auto simp: sm_erase_def intro!: length_filter_less)
  then show ?thesis using inner_entries [of lt t1] d assms(2,3) by simp
qed

lemma never_below:
  assumes "bp_ok lt t" and "\<not> is_leaf t" and "run_ops (bp_insert lt) (bp_remove lt) ops t = Inr t1"
  shows "2 * MIN_KEYS \<le> length (entries_of t1)"
  using inner_entries [OF tree.run_ok [OF assms(1,3)] run_inner [OF assms(2,1,3)]] .

end

lemma balanced_depth:
  assumes "bp_ok lt t"
  shows "\<exists>d. root_fits d t \<and> (0 < d \<longrightarrow> 198 * 100 ^ (d - 1) \<le> length (for_each_key t))"
proof -
  obtain d where d: "root_fits d t" using assms by (auto simp: bp_ok_def)
  have "198 * 100 ^ (d - 1) \<le> length (for_each_key t)" if "0 < d"
    using root_entries [of "d - 1" t] d that by (simp add: degree_values DEGREE_def for_each_key_entries)
  then show ?thesis using d by blast
qed

lemma ints: "comparator ((<) :: int \<Rightarrow> int \<Rightarrow> bool)"
  by unfold_locales auto

section \<open>Properties\<close>

text \<open>C15. The index refines a finite map. After any run of insertions and removals from the empty tree that
  returns, \<open>search\<close> finds exactly what the map holds, \<open>forEachKey\<close> visits the keys of the map once each in
  increasing order, and the tree is balanced: all leaves have one depth, every node but the root between 99 and
  199 keys, so that a tree of depth \<open>h + 1\<close> has at least \<open>198 * 100 ^ h\<close> entries.\<close>

theorem index_runs:
  assumes "comparator lt" and "run_ops (bp_insert lt) (bp_remove lt) ops empty_tree = Inr t"
  shows "(\<lambda>k. search lt k t) = spec_ops ops (\<lambda>_. None) \<and>
    sorted_wrt lt (for_each_key t) \<and> set (for_each_key t) = dom (spec_ops ops (\<lambda>_. None)) \<and>
    (\<exists>d. root_fits d t \<and> (0 < d \<longrightarrow> 198 * 100 ^ (d - 1) \<le> length (for_each_key t)))"
  using comparator.runs_from_empty [OF assms] balanced_depth by blast

theorem index_runs_witness:
  "run_ops (bp_insert (<)) (bp_remove (<)) [Put 3 ''c'', Put 1 ''a'', Del 3, Put (2 :: int) ''b''] empty_tree =
     Inr (Leaf [(1, ''a''), (2, ''b'')]) \<and>
   (\<lambda>k. search (<) k (Leaf [(1 :: int, ''a''), (2, ''b'')])) = [1 \<mapsto> ''a'', 2 \<mapsto> ''b'']"
proof -
  have r: "run_ops (bp_insert (<)) (bp_remove (<)) [Put 3 ''c'', Put 1 ''a'', Del 3, Put (2 :: int) ''b''] empty_tree =
     Inr (Leaf [(1, ''a''), (2, ''b'')])"
    by (simp add: empty_tree_def bp_insert_def bp_remove_def insert_into_leaf_def Let_def degree_values)
  show ?thesis using index_runs [OF ints r] r by (auto simp: fun_eq_iff)
qed

text \<open>Insertions always return; and so does any run of insertions and removals with at most 199
  insertions, because its tree is one leaf. (A removal throws nothing: what can keep it from returning is C16.)\<close>

theorem index_returns:
  assumes "comparator lt" and "list_all is_put ops \<or> length (filter is_put ops) \<le> 199"
  shows "\<exists>t. run_ops (bp_insert lt) (bp_remove lt) ops empty_tree = Inr t"
  using comparator.runs_return [OF assms(1), of ops] assms(2) by (simp add: degree_values)

theorem index_returns_witness:
  "\<exists>t. run_ops (bp_insert (<)) (bp_remove (<)) (Del 7 # map (\<lambda>i. Put i ()) [0 :: int .. 198]) empty_tree = Inr t"
proof -
  have "filter is_put (map (\<lambda>i. Put i ()) [0 :: int .. 198]) = map (\<lambda>i. Put i ()) [0 .. 198]"
    by (rule filter_True) auto
  then show ?thesis using index_returns [OF ints, of "Del 7 # map (\<lambda>i. Put i ()) [0 .. 198]"] by simp
qed

text \<open>C16. An index that has once split never shrinks below 198 entries again: with 198 entries left, the removal of
  any key that is there ends in undefined behaviour. The two leaves are merged, their parent is the root
  and has no key left; the code makes the merged leaf the root and deletes the old one, whose
  destructor deletes its children, among them the new root (further up, it locks a mutex it holds).\<close>

theorem index_never_shrinks:
  assumes "comparator lt" and "bp_ok lt t" and "\<not> is_leaf t"
  shows "(run_ops (bp_insert lt) (bp_remove lt) ops t = Inr t1 \<longrightarrow> 198 \<le> length (for_each_key t1)) \<and>
    (length (for_each_key t) = 198 \<and> k \<in> set (for_each_key t) \<longrightarrow> (\<exists>m. bp_remove lt k t = Inl (Undefined m)))"
  using comparator.never_below [OF assms, of ops t1] comparator.least_removal [OF assms, of k]
  by (simp add: degree_values for_each_key_entries)

definition units :: "int \<Rightarrow> int \<Rightarrow> (int \<times> unit) list" where
  "units a b = map (\<lambda>i. (i, ())) [a .. b]"

definition two_leaves :: "(int, unit) bptree" where
  "two_leaves = Node (Leaf (units 0 98)) [(99, Leaf (units 99 197))]"

lemma units_facts:
  "sm_ok (<) (units a b)" "length (units a b) = nat (b - a + 1)" "(i, u) \<in> set (units a b) \<longleftrightarrow> a \<le> i \<and> i \<le> b"
  by (auto simp: units_def sm_ok_def sorted_wrt_map sorted_wrt_upto)

lemma two_leaves_ok: "bp_ok (<) two_leaves"
proof -
  have "root_fits 1 two_leaves" by (simp add: two_leaves_def degree_values units_facts)
  moreover have "ordered (<) None None two_leaves" by (auto simp: two_leaves_def units_facts)
  ultimately show ?thesis by (auto simp: bp_ok_def)
qed

theorem index_never_shrinks_witness: "\<exists>m. bp_remove (<) 5 two_leaves = Inl (Undefined m)"
proof -
  have l: "\<not> is_leaf two_leaves" by (simp add: two_leaves_def)
  have "entries_of two_leaves = units 0 98 @ units 99 197" by (simp add: two_leaves_def)
  moreover have "5 \<in> fst ` set (units 0 98)" using units_facts(3) [of 5 "()" 0 98] by force
  ultimately have "length (for_each_key two_leaves) = 198" "5 \<in> set (for_each_key two_leaves)"
    by (auto simp: for_each_key_entries units_facts(2))
  then show ?thesis using index_never_shrinks [OF ints two_leaves_ok l, of "[]" two_leaves 5] by simp
qed

end
