(* ===== verification/Std_Files.thy ===== *)
theory Std_Files
  imports Nano_Prelude
begin

text \<open>
  Binary files of the C++ library: a file is the list of its bytes, a byte is a \<open>char\<close>. An \<open>int64_t\<close> is
  written by \<open>write(reinterpret_cast<char *>(&n), 8)\<close>, which on the machines the code is built for is eight bytes
  in little-endian order.
\<close>

section \<open>Integers as bytes\<close>

fun le_bytes :: "nat \<Rightarrow> int \<Rightarrow> string" where
  "le_bytes 0 n = []"
| "le_bytes (Suc k) n = char_of (nat (n mod 256)) # le_bytes k (n div 256)"

fun le_value :: "string \<Rightarrow> int" where
  "le_value [] = 0"
| "le_value (c # cs) = int (of_char c) + 256 * le_value cs"

definition put64 :: "int \<Rightarrow> string" where
  "put64 n = le_bytes 8 n"

definition get64 :: "string \<Rightarrow> int" where
  "get64 s = (let u = le_value s in if 2 ^ 63 \<le> u then u - 2 ^ 64 else u)"

lemma length_le_bytes [simp]: "length (le_bytes k n) = k"
  by (induction k arbitrary: n) auto

lemma length_put64 [simp]: "length (put64 n) = 8"
  by (simp add: put64_def)

lemma le_value_le_bytes: "le_value (le_bytes k n) = n mod 256 ^ k"
proof (induction k arbitrary: n)
  case (Suc k)
  have "int (of_char (char_of (nat (n mod 256)) :: char)) = n mod 256"
    by (simp add: of_char_of nat_mod_as_int)
  then show ?case using Suc by (simp add: zmod_zmult2_eq)
qed simp

lemma get64_put64:
  assumes "INT64_MIN \<le> n" and "n \<le> INT64_MAX"
  shows "get64 (put64 n) = n"
proof (cases "0 \<le> n")
  case True
  then show ?thesis using assms
    by (simp add: get64_def put64_def le_value_le_bytes int_limits Let_def)
next
  case False
  have "n mod 18446744073709551616 = (n + 18446744073709551616) mod 18446744073709551616" by simp
  also have "\<dots> = n + 18446744073709551616" using assms False by (intro mod_pos_pos_trivial) (auto simp: int_limits)
  finally show ?thesis using assms False
    by (simp add: get64_def put64_def le_value_le_bytes int_limits Let_def)
qed

section \<open>Reading and writing at a position\<close>

text \<open>\<open>seekg(pos)\<close> and \<open>read(buf, len)\<close>; \<open>None\<close> when the file ends before.\<close>

definition read_at :: "int \<Rightarrow> int \<Rightarrow> string \<Rightarrow> string option" where
  "read_at pos len f =
     (if pos < 0 \<or> len < 0 then None
      else if len = 0 then Some []
      else if pos + len \<le> int (length f) then Some (take (nat len) (drop (nat pos) f))
      else None)"

text \<open>\<open>seekp(pos)\<close> and \<open>write(s)\<close>; a gap behind the end of the file is filled with zero bytes. A negative
  position makes the stream fail, and then nothing is written.\<close>

definition write_at :: "int \<Rightarrow> string \<Rightarrow> string \<Rightarrow> string" where
  "write_at pos s f =
     (if pos < 0 then f
      else (let p = nat pos in take p (f @ replicate (p - length f) NUL) @ s @ drop (p + length s) f))"

lemma read_at_append: "read_at p n f = Some s \<Longrightarrow> read_at p n (f @ g) = Some s"
  by (auto simp: read_at_def split: if_splits)

lemma read_at_len: "read_at p n f = Some s \<Longrightarrow> length s = nat n \<and> 0 \<le> n"
  by (auto simp: read_at_def split: if_splits)

lemma read_at_mid:
  assumes "p = int (length f)" and "n = int (length s)"
  shows "read_at p n (f @ s @ g) = Some s"
  using assms by (auto simp: read_at_def)

lemma read_at_end:
  assumes "p = int (length f)" and "n = int (length s)"
  shows "read_at p n (f @ s) = Some s"
  using read_at_mid [OF assms, of "[]"] by simp

lemma length_write_at: "0 \<le> p \<Longrightarrow> length (write_at p s f) = max (length f) (nat p + length s)"
  by (auto simp: write_at_def Let_def)

lemma nth_write_at:
  assumes "0 \<le> p" and "i < length (write_at p [c] f)"
  shows "write_at p [c] f ! i = (if i = nat p then c else if i < length f then f ! i else NUL)"
proof -
  have "i < length f \<or> i \<le> nat p" using assms by (auto simp: length_write_at)
  then show ?thesis using assms(1)
    by (auto simp: write_at_def Let_def nth_append min_def)
qed

lemma read_at_one: "0 \<le> p \<Longrightarrow> read_at p 1 f = (if nat p < length f then Some [f ! nat p] else None)"
  by (auto simp: read_at_def take_Suc_conv_app_nth hd_drop_conv_nth Cons_nth_drop_Suc [symmetric])

end
