(* ===== verification/Table_Store.thy ===== *)
theory Table_Store
  imports SQL_Dispatch Select_Eval BPlus_Index Std_Files
begin

text \<open>
  The table storage: \<open>PagerHandler\<close> in \<open>utility.hpp\<close>, \<open>SelectQueryHandler::handle\<close> in \<open>selectAstEvaluator.hpp\<close> and
  the INSERT, UPDATE and DELETE handlers of \<open>generator.hpp\<close>.

  A table is three files: \<open>.index\<close> has one record per row, the row id and for every column but the primary key
  the two offsets of its text in \<open>.data\<close>, all \<open>int64_t\<close>; \<open>.delete\<close> has one byte per row, 1 for a deleted row.
  The state is the file system, the schema cache and the index trees.

  A read behind the end of a file leaves its variables as they are, uninitialised; it is \<open>Undefined\<close> here.
  The output on \<open>stdout\<close>, the locks and the \<open>.new\<close> files that a failed vacuum leaves behind are left out.
\<close>

section \<open>The state\<close>

text \<open>\<open>TableGlobalColumnNode\<close>.\<close>

record column =
  co_type :: string
  co_name :: string
  co_constraint :: "string list"
  co_precision :: int
  co_autoIncrement :: bool
  co_isUnique :: bool
  co_isPrimary :: bool
  co_createIndex :: bool
  co_length :: int

record index_node =
  in_start :: int
  in_end :: int

datatype index_tree =
    Int_Tree "(int, index_node) bptree"
  | Str_Tree "(string, index_node) bptree"

type_synonym table_meta = "string \<times> column list"

text \<open>The trees of a table are in a hash map, here a list in its order of iteration.\<close>

record store =
  st_files :: "string \<rightharpoonup> string"
  st_db :: string
  st_cache :: "string \<rightharpoonup> (string \<rightharpoonup> table_meta)"
  st_trees :: "string \<Rightarrow> string \<Rightarrow> (string \<times> index_tree) list"

definition tableDirectory :: string where
  "tableDirectory = ''./db/tables''"

definition table_path :: "string \<Rightarrow> string \<Rightarrow> string \<Rightarrow> string" where
  "table_path db t ext = tableDirectory @ ''/'' @ db @ ''/'' @ t @ ext"

text \<open>\<open>checkIfFileExist\<close> drops the line ends of the path it is given.\<close>

definition check_if_file_exist :: "store \<Rightarrow> string \<Rightarrow> bool" where
  "check_if_file_exist s p = (st_files s (filter (\<lambda>c. c \<noteq> CHR 0x0D \<and> c \<noteq> CHR 0x0A) p) \<noteq> None)"

definition content :: "store \<Rightarrow> string \<Rightarrow> string" where
  "content s p = (case st_files s p of None \<Rightarrow> [] | Some f \<Rightarrow> f)"

definition set_file :: "string \<Rightarrow> string \<Rightarrow> store \<Rightarrow> store" where
  "set_file p f s = s\<lparr>st_files := (st_files s)(p \<mapsto> f)\<rparr>"

definition get_file_size :: "store \<Rightarrow> string \<Rightarrow> int" where
  "get_file_size s p = int (length (content s p))"

text \<open>\<open>globalTableCache[db][table]\<close>: the operator inserts an empty entry where there is none.\<close>

definition touch_cache :: "string \<Rightarrow> string \<Rightarrow> store \<Rightarrow> column list \<times> store" where
  "touch_cache db t s =
     (let tables = (case st_cache s db of None \<Rightarrow> Map.empty | Some m \<Rightarrow> m);
          meta = (case tables t of None \<Rightarrow> ([], []) | Some e \<Rightarrow> e)
      in (snd meta, s\<lparr>st_cache := (st_cache s)(db \<mapsto> tables(t \<mapsto> meta))\<rparr>))"

text \<open>\<open>std::sort\<close> by name with the \<open>operator<\<close> of \<open>std::string\<close>; names are distinct where the order matters.\<close>

fun insert_by_name :: "('a \<Rightarrow> string) \<Rightarrow> 'a \<Rightarrow> 'a list \<Rightarrow> 'a list" where
  "insert_by_name f x [] = [x]"
| "insert_by_name f x (y # ys) = (if string_less (f y) (f x) then y # insert_by_name f x ys else x # y # ys)"

definition sort_by_name :: "('a \<Rightarrow> string) \<Rightarrow> 'a list \<Rightarrow> 'a list" where
  "sort_by_name f xs = foldr (insert_by_name f) xs []"

section \<open>Records of the index file\<close>

text \<open>The size of a record and the number of records, for \<open>n\<close> columns. Without columns the size is -8.\<close>

definition row_size :: "nat \<Rightarrow> int" where
  "row_size n = 8 + (int n - 1) * 16"

definition row_count :: "nat \<Rightarrow> int \<Rightarrow> int" where
  "row_count n sz = (if n = 0 then - (sz div 8) else sz div row_size n)"

definition past_end :: "'a result" where
  "past_end = Inl (Undefined ''a read behind the end of a file'')"

definition read64 :: "int \<Rightarrow> string \<Rightarrow> int result" where
  "read64 pos f = (case read_at pos 8 f of None \<Rightarrow> past_end | Some b \<Rightarrow> Inr (get64 b))"

text \<open>The texts of the columns but the first; a negative length makes the constructor of \<open>std::string\<close> throw.\<close>

fun read_columns :: "nat \<Rightarrow> int \<Rightarrow> string \<Rightarrow> string \<Rightarrow> string list result" where
  "read_columns 0 pos idx dat = Inr []"
| "read_columns (Suc n) pos idx dat =
     bindE (read64 pos idx) (\<lambda>st. bindE (read64 (pos + 8) idx) (\<lambda>en.
       if en - st < 0 then Inl (Throw ''basic_string::_M_create'')
       else (case read_at st (en - st) dat of
         None \<Rightarrow> past_end
       | Some v \<Rightarrow> bindE (read_columns n (pos + 16) idx dat) (\<lambda>vs. Inr (v # vs)))))"

definition read_record :: "nat \<Rightarrow> nat \<Rightarrow> string \<Rightarrow> string \<Rightarrow> (int \<times> string list) result" where
  "read_record n r idx dat =
     bindE (read64 (int r * row_size n) idx) (\<lambda>id.
       bindE (read_columns (n - 1) (int r * row_size n + 8) idx dat) (\<lambda>vs. Inr (id, vs)))"

text \<open>The row the handlers build: the id under the name that is first in alphabetical order, then the texts.\<close>

definition row_of :: "string list \<Rightarrow> int \<times> string list \<Rightarrow> row" where
  "row_of names rec =
     foldl (\<lambda>m (c, v). m(c \<mapsto> V_string v)) Map.empty (zip names (show_int (fst rec) # snd rec))"

definition read_flag :: "nat \<Rightarrow> string \<Rightarrow> bool result" where
  "read_flag r del = (case read_at (int r) 1 del of None \<Rightarrow> past_end | Some b \<Rightarrow> Inr (b = [CHR 0x01]))"

definition column_names :: "column list \<Rightarrow> string list" where
  "column_names cols = sort_by_name (\<lambda>c. c) (map co_name cols)"


section \<open>Index trees\<close>

text \<open>\<open>static_cast<int16_t>\<close>: the tree keeps the low 16 bits of the end of the record.\<close>

definition index_node_of :: "int \<Rightarrow> int \<Rightarrow> index_node" where
  "index_node_of st en = \<lparr>in_start = st, in_end = to_int16 en\<rparr>"

fun insert_id :: "int \<Rightarrow> index_node \<Rightarrow> index_tree \<Rightarrow> index_tree" where
  "insert_id rid nd (Int_Tree t) = Int_Tree (bp_insert (<) rid nd t)"
| "insert_id rid nd (Str_Tree t) = Str_Tree (bp_insert string_less (show_int rid) nd t)"

text \<open>A text that is no number is indexed under 0.\<close>

definition number_or_0 :: "string \<Rightarrow> int" where
  "number_or_0 v = (case stoll v of Inl _ \<Rightarrow> 0 | Inr n \<Rightarrow> n)"

fun insert_text :: "string \<Rightarrow> index_node \<Rightarrow> index_tree \<Rightarrow> index_tree" where
  "insert_text v nd (Int_Tree t) = Int_Tree (bp_insert (<) (number_or_0 v) nd t)"
| "insert_text v nd (Str_Tree t) = Str_Tree (bp_insert string_less v nd t)"

text \<open>
  DELETE and UPDATE take the texts of a row out of the trees of its table. The branch for trees of integers is compiled only
  if \<open>std::stoll\<close> gives an \<open>int64_t\<close>; on 64-bit Linux, the platform of the program (\<open>io_uring\<close>), it gives a
  \<open>long long\<close> where \<open>int64_t\<close> is a \<open>long\<close>. So nothing is ever removed from a tree of integers.
\<close>

fun remove_text :: "string \<Rightarrow> index_tree \<Rightarrow> index_tree result" where
  "remove_text v (Int_Tree t) = Inr (Int_Tree t)"
| "remove_text v (Str_Tree t) = bindE (bp_remove string_less v t) (\<lambda>(t1, _). Inr (Str_Tree t1))"

definition upd_tree :: "string \<Rightarrow> (index_tree \<Rightarrow> index_tree) \<Rightarrow> (string \<times> index_tree) list \<Rightarrow> (string \<times> index_tree) list" where
  "upd_tree c f ts = map (\<lambda>(c1, t). if c1 = c then (c1, f t) else (c1, t)) ts"

text \<open>\<open>insertRow\<close> indexes a row in the tree of the primary key and in those of the unique columns.\<close>

definition index_row ::
  "string \<Rightarrow> int \<Rightarrow> index_node \<Rightarrow> (string \<times> string \<times> bool) list \<Rightarrow> (string \<times> index_tree) list \<Rightarrow>
     (string \<times> index_tree) list" where
  "index_row primary rid nd data ts =
     foldl (\<lambda>ts (c, v, u). if u then upd_tree c (insert_text v nd) ts else ts)
       (if primary \<noteq> [] then upd_tree primary (insert_id rid nd) ts else ts) data"

definition set_trees :: "string \<Rightarrow> (string \<times> index_tree) list \<Rightarrow> store \<Rightarrow> store" where
  "set_trees t ts s = s\<lparr>st_trees := (st_trees s)(st_db s := (st_trees s (st_db s))(t := ts))\<rparr>"

text \<open>\<open>valueToStorageString\<close>.\<close>

fun value_to_storage :: "val \<Rightarrow> string" where
  "value_to_storage (V_int n) = show_int n"
| "value_to_storage (V_string v) = v"
| "value_to_storage (V_bool b) = (if b then ''1'' else ''0'')"

text \<open>The trees of a table lose the texts of a row; a fault of one ends the handler.\<close>

fun unindex_row :: "row \<Rightarrow> (string \<times> index_tree) list \<Rightarrow> (string \<times> index_tree) list result" where
  "unindex_row r [] = Inr []"
| "unindex_row r ((c, t) # ts) =
     bindE (remove_text (value_to_storage (case r c of None \<Rightarrow> V_int 0 | Some v \<Rightarrow> v)) t) (\<lambda>t1.
       bindE (unindex_row r ts) (\<lambda>ts1. Inr ((c, t1) # ts1)))"

section \<open>INSERT\<close>

text \<open>The id of a new row is one more than the id of the last record.\<close>

definition new_row_id :: "nat \<Rightarrow> string \<Rightarrow> int result" where
  "new_row_id n idx =
     (if idx = [] then Inr 1
      else (case read_at (int (length idx) - (8 + int n * 16)) 8 idx of
        None \<Rightarrow> Inl (Throw ''Failed to read last row ID from index file'')
      | Some b \<Rightarrow> Inr (get64 b + 1)))"

fun append_columns :: "string list \<Rightarrow> string \<Rightarrow> string \<Rightarrow> string \<times> string" where
  "append_columns [] idx dat = (idx, dat)"
| "append_columns (v # vs) idx dat =
     append_columns vs (idx @ put64 (int (length dat)) @ put64 (int (length (dat @ v)))) (dat @ v)"

definition insert_row :: "string \<Rightarrow> (string \<times> string \<times> bool) list \<Rightarrow> string \<Rightarrow> store \<Rightarrow> unit result \<times> store" where
  "insert_row primary data t s =
     (let pi = table_path (st_db s) t ''.index'';
          pd = table_path (st_db s) t ''.data'';
          px = table_path (st_db s) t ''.delete''
      in if data = [] then (Inl (Throw ''Cannot insert empty row data''), s)
         else if \<not> check_if_file_exist s pi then (Inl (Throw (''Table '' @ t @ '' does not exist. Create it first.'')), s)
         else if \<not> check_if_file_exist s pd then (Inl (Throw (''Data file for table '' @ t @ '' does not exist.'')), s)
         else (case new_row_id (length data) (content s pi) of
           Inl e \<Rightarrow> (Inl e, s)
         | Inr rid \<Rightarrow>
             (let (idx, dat) = append_columns (map (\<lambda>(c, v, u). v) data) (content s pi @ put64 rid) (content s pd);
                  del = write_at (rid - 1) [NUL] (content s px);
                  nd = index_node_of (int (length (content s pi))) (int (length idx));
                  ts = index_row primary rid nd data (st_trees s (st_db s) t)
              in (Inr (), set_trees t ts (set_file pi idx (set_file pd dat (set_file px del s)))))))"

definition find_table :: "store \<Rightarrow> string \<Rightarrow> column list result" where
  "find_table s t =
     (case st_cache s (st_db s) of
        None \<Rightarrow> Inl (Throw (''Database not found: '' @ st_db s @ newline))
      | Some tables \<Rightarrow>
          (case tables t of
             None \<Rightarrow> Inl (Throw (''Table not found: '' @ t @ newline))
           | Some meta \<Rightarrow> Inr (snd meta)))"

text \<open>The given columns are compared with those of the schema but the primary key, both in alphabetical order.\<close>

fun match_columns :: "(string \<times> bool) list \<Rightarrow> (string \<times> string) list \<Rightarrow> (string \<times> string \<times> bool) list result" where
  "match_columns ((a, u) # as) ((c, v) # cs) =
     (if a \<noteq> c then Inl (Throw (''error  get column Name '' @ c @ '' instead of  '' @ a @ newline))
      else bindE (match_columns as cs) (\<lambda>r. Inr ((c, v, u) # r)))"
| "match_columns _ _ = Inr []"

text \<open>The name of the primary key, empty if there is none; INSERT takes the last one, UPDATE the first.\<close>

definition last_primary :: "column list \<Rightarrow> string" where
  "last_primary cols = (case rev (filter co_isPrimary cols) of [] \<Rightarrow> [] | c # _ \<Rightarrow> co_name c)"

definition first_primary :: "column list \<Rightarrow> string" where
  "first_primary cols = (case filter co_isPrimary cols of [] \<Rightarrow> [] | c # _ \<Rightarrow> co_name c)"

definition non_primary :: "column list \<Rightarrow> column list" where
  "non_primary cols = filter (\<lambda>c. \<not> co_isPrimary c) cols"

definition generate_insert :: "insert_statement \<Rightarrow> store \<Rightarrow> unit result \<times> store" where
  "generate_insert stmt s =
     (if length (ins_values stmt) < length (ins_columns stmt) then (Inl (Undefined ''values[i] behind the last value''), s)
      else (case find_table s (ins_table stmt) of
        Inl e \<Rightarrow> (Inl e, s)
      | Inr cols \<Rightarrow>
          (let given = sort_by_name fst (zip (ins_columns stmt) (ins_values stmt));
               actual = sort_by_name fst (map (\<lambda>c. (co_name c, co_isUnique c)) (non_primary cols))
           in if length actual \<noteq> length given then
                (Inl (Throw ''the given column size does not match with the actual column size''), s)
              else (case match_columns actual given of
                Inl e \<Rightarrow> (Inl e, s)
              | Inr data \<Rightarrow> insert_row (last_primary cols) data (ins_table stmt) s))))"


section \<open>SELECT\<close>

fun joined :: "string \<Rightarrow> string list \<Rightarrow> string" where
  "joined sep [] = []"
| "joined sep [x] = x"
| "joined sep (x # xs) = x @ sep @ joined sep xs"

text \<open>
  A row as JSON. The columns are in a hash map; \<open>iter\<close> is the order in which it iterates over its keys. All
  columns are printed, whatever columns the statement lists.
\<close>

definition json_row :: "(string list \<Rightarrow> string list) \<Rightarrow> string list \<Rightarrow> row \<Rightarrow> string" where
  "json_row iter names r =
     ''{'' @ joined '','' (map (\<lambda>c. ''\"'' @ c @ ''\":'' @ value_to_json (the (r c))) (iter names)) @ ''}''"

fun select_rows :: "string list \<Rightarrow> expr option \<Rightarrow> string \<Rightarrow> string \<Rightarrow> string \<Rightarrow> nat list \<Rightarrow> row list result" where
  "select_rows names wh idx dat del [] = Inr []"
| "select_rows names wh idx dat del (r # rs) =
     bindE (read_flag r del) (\<lambda>dead.
       if dead then select_rows names wh idx dat del rs
       else bindE (read_record (length names) r idx dat) (\<lambda>rec.
         bindE (evaluate_where wh (row_of names rec)) (\<lambda>b.
           bindE (select_rows names wh idx dat del rs) (\<lambda>rows.
             Inr (if b then row_of names rec # rows else rows)))))"

definition handle_select :: "(string list \<Rightarrow> string list) \<Rightarrow> select_statement \<Rightarrow> store \<Rightarrow> string result \<times> store" where
  "handle_select iter stmt s =
     (let t = sel_table stmt;
          (cols, s1) = touch_cache (st_db s) t s;
          names = column_names cols;
          pi = table_path (st_db s) t ''.index'';
          pd = table_path (st_db s) t ''.data'';
          px = table_path (st_db s) t ''.delete'';
          n = row_count (length names) (get_file_size s1 pi)
      in if st_files s1 pi = None then (Inl (Throw ''Failed to read primary key  from index file''), s1)
         else if st_files s1 pd = None then (Inl (Throw ''Failed to read data from dataFile file''), s1)
         else if st_files s1 px = None then (Inl (Throw ''Failed to open delete file''), s1)
         else if n < 0 then (Inl (Undefined ''allColumnName[0] of an empty vector''), s1)
         else (bindE (select_rows names (sel_where stmt) (content s1 pi) (content s1 pd) (content s1 px) [0 ..< nat n])
                 (\<lambda>rows. Inr (''['' @ joined '','' (map (json_row iter names) rows) @ '']'')), s1))"

section \<open>DELETE\<close>

text \<open>Marking a row as deleted.\<close>

definition mark_dead :: "string \<Rightarrow> nat \<Rightarrow> store \<Rightarrow> store" where
  "mark_dead t r s =
     (let px = table_path (st_db s) t ''.delete'' in set_file px (write_at (int r) [CHR 0x01] (content s px)) s)"

text \<open>What a handler does with row \<open>r\<close>: \<open>k\<close> for a live row that satisfies the condition.\<close>

definition visit_row ::
  "string list \<Rightarrow> expr option \<Rightarrow> string \<Rightarrow> nat \<Rightarrow> (row \<Rightarrow> store \<Rightarrow> unit result \<times> store) \<Rightarrow> store \<Rightarrow> unit result \<times> store" where
  "visit_row names wh t r k s =
     (case read_flag r (content s (table_path (st_db s) t ''.delete'')) of
        Inl e \<Rightarrow> (Inl e, s)
      | Inr dead \<Rightarrow>
          if dead then (Inr (), s)
          else (case read_record (length names) r (content s (table_path (st_db s) t ''.index''))
                  (content s (table_path (st_db s) t ''.data'')) of
            Inl e \<Rightarrow> (Inl e, s)
          | Inr rec \<Rightarrow>
              (case evaluate_where wh (row_of names rec) of
                 Inl e \<Rightarrow> (Inl e, s)
               | Inr b \<Rightarrow> if b then k (row_of names rec) s else (Inr (), s))))"

fun visit_rows ::
  "string list \<Rightarrow> expr option \<Rightarrow> string \<Rightarrow> (nat \<Rightarrow> row \<Rightarrow> store \<Rightarrow> unit result \<times> store) \<Rightarrow> nat list \<Rightarrow> store \<Rightarrow>
     unit result \<times> store" where
  "visit_rows names wh t k [] s = (Inr (), s)"
| "visit_rows names wh t k (r # rs) s =
     (case visit_row names wh t r (k r) s of
        (Inl e, s1) \<Rightarrow> (Inl e, s1)
      | (Inr _, s1) \<Rightarrow> visit_rows names wh t k rs s1)"

definition delete_row :: "string \<Rightarrow> nat \<Rightarrow> row \<Rightarrow> store \<Rightarrow> unit result \<times> store" where
  "delete_row t r row s =
     (let s1 = mark_dead t r s
      in (case unindex_row row (st_trees s1 (st_db s1) t) of
            Inl e \<Rightarrow> (Inl e, s1)
          | Inr ts \<Rightarrow> (Inr (), set_trees t ts s1)))"

definition handle_delete :: "delete_statement \<Rightarrow> store \<Rightarrow> unit result \<times> store" where
  "handle_delete stmt s =
     (let t = del_table stmt;
          pi = table_path (st_db s) t ''.index''
      in if st_files s (table_path (st_db s) t ''.data'') = None then (Inl (Throw ''Failed to open data file''), s)
         else if st_files s pi = None then (Inl (Throw ''Failed to open index file''), s)
         else if st_files s (table_path (st_db s) t ''.delete'') = None then (Inl (Throw ''Failed to open delete file''), s)
         else (let (cols, s1) = touch_cache (st_db s) t s; names = column_names cols
               in visit_rows names (del_where stmt) t (delete_row t)
                    [0 ..< nat (row_count (length names) (get_file_size s1 pi))] s1))"

section \<open>UPDATE\<close>

definition assign_all :: "(string \<times> string) list \<Rightarrow> row \<Rightarrow> row" where
  "assign_all as r = foldl (\<lambda>m (c, v). m(c \<mapsto> V_string v)) r as"

text \<open>The columns to insert again, in the order of the schema.\<close>

definition reinserted :: "column list \<Rightarrow> row \<Rightarrow> (string \<times> string \<times> bool) list" where
  "reinserted cols r =
     map (\<lambda>c. (co_name c, value_to_storage (case r (co_name c) of None \<Rightarrow> V_int 0 | Some v \<Rightarrow> v), co_isUnique c))
       (non_primary cols)"

definition update_row :: "column list \<Rightarrow> (string \<times> string) list \<Rightarrow> string \<Rightarrow> nat \<Rightarrow> row \<Rightarrow> store \<Rightarrow> unit result \<times> store" where
  "update_row cols as t r row s =
     (let s1 = mark_dead t r s
      in (case unindex_row row (st_trees s1 (st_db s1) t) of
            Inl e \<Rightarrow> (Inl e, s1)
          | Inr ts \<Rightarrow>
              insert_row (first_primary cols) (reinserted cols (assign_all as row)) t (set_trees t ts s1)))"

definition handle_update :: "update_statement \<Rightarrow> store \<Rightarrow> unit result \<times> store" where
  "handle_update stmt s =
     (if st_db s = [] then (Inl (Throw ''No database selected''), s)
      else (let t = upd_table stmt;
                (cols, s1) = touch_cache (st_db s) t s;
                names = column_names cols;
                pi = table_path (st_db s) t ''.index''
            in if list_ex (\<lambda>(c, v). c = first_primary cols) (upd_assignments stmt) then
                 (Inl (Throw ''UPDATE of PRIMARY KEY is not allowed''), s1)
               else if st_files s1 pi = None \<or> st_files s1 (table_path (st_db s) t ''.data'') = None
                    \<or> st_files s1 (table_path (st_db s) t ''.delete'') = None then
                 (Inl (Throw ''Failed to open table files''), s1)
               else visit_rows names (Some (upd_where stmt)) t (update_row cols (upd_assignments stmt) t)
                      [0 ..< nat (row_count (length names) (get_file_size s1 pi))] s1))"

section \<open>Vacuum\<close>

text \<open>The three new files, record by record; deleted rows are left out.\<close>

fun vacuum_rows ::
  "nat \<Rightarrow> string \<Rightarrow> string \<Rightarrow> string \<Rightarrow> nat list \<Rightarrow> string \<times> string \<times> string \<Rightarrow> (string \<times> string \<times> string) result" where
  "vacuum_rows n idx dat del [] new = Inr new"
| "vacuum_rows n idx dat del (r # rs) (idx1, dat1, del1) =
     bindE (read_flag r del) (\<lambda>dead.
       if dead then vacuum_rows n idx dat del rs (idx1, dat1, del1)
       else bindE (read_record n r idx dat) (\<lambda>(id, vs).
         (let (idx2, dat2) = append_columns vs (idx1 @ put64 id) dat1
          in vacuum_rows n idx dat del rs (idx2, dat2, del1 @ [NUL]))))"

definition vacuum_table :: "string \<Rightarrow> string \<Rightarrow> store \<Rightarrow> unit result \<times> store" where
  "vacuum_table db t s =
     (let pi = table_path db t ''.index''; pd = table_path db t ''.data''; px = table_path db t ''.delete''
      in if st_files s pi = None \<or> st_files s pd = None \<or> st_files s px = None then (Inr (), s)
         else (let (cols, s1) = touch_cache db t s; n = length cols
               in (case vacuum_rows n (content s pi) (content s pd) (content s px)
                     [0 ..< nat (row_count n (get_file_size s pi))] ([], [], []) of
                     Inl e \<Rightarrow> (Inl e, s1)
                   | Inr (idx, dat, del) \<Rightarrow> (Inr (), set_file px del (set_file pd dat (set_file pi idx s1))))))"

text \<open>\<open>runVacuum\<close>: every table of the cache.\<close>

fun run_vacuum :: "(string \<times> string) list \<Rightarrow> store \<Rightarrow> unit result \<times> store" where
  "run_vacuum [] s = (Inr (), s)"
| "run_vacuum ((db, t) # ts) s =
     (case vacuum_table db t s of
        (Inl e, s1) \<Rightarrow> (Inl e, s1)
      | (Inr _, s1) \<Rightarrow> run_vacuum ts s1)"

end
