(* ===== verification/Table_Rel.thy ===== *)
theory Table_Rel
  imports Table_Store
begin

text \<open>
  The files of a table as the list of its rows: \<open>table_files\<close> relates the contents of the three files to the rows
  with their ids, texts and deletion flags. Appending a record, marking a row and the vacuum are operations on the
  list of rows.
\<close>

type_synonym stored = "int \<times> string list \<times> bool"

abbreviation row_id :: "stored \<Rightarrow> int" where "row_id x \<equiv> fst x"
abbreviation row_vals :: "stored \<Rightarrow> string list" where "row_vals x \<equiv> fst (snd x)"
abbreviation row_dead :: "stored \<Rightarrow> bool" where "row_dead x \<equiv> snd (snd x)"

definition next_id :: "stored list \<Rightarrow> int" where
  "next_id rows = (if rows = [] then 1 else row_id (last rows) + 1)"

text \<open>
  Ids grow from 1, so the id of row \<open>r\<close> is more than \<open>r\<close>. A new row clears the flag at its id minus one, which
  after a vacuum is not the flag of the row but one behind it; all flags behind the rows are clear.
\<close>

definition ids_ok :: "stored list \<Rightarrow> bool" where
  "ids_ok rows \<longleftrightarrow> sorted_wrt (<) (map row_id rows) \<and> (\<forall>x \<in> set rows. 1 \<le> row_id x \<and> row_id x \<le> INT64_MAX)"

definition flags_ok :: "stored list \<Rightarrow> string \<Rightarrow> bool" where
  "flags_ok rows del \<longleftrightarrow> length rows \<le> length del \<and>
     (\<forall>r < length del. del ! r = (if r < length rows \<and> row_dead (rows ! r) then CHR 0x01 else NUL))"

definition data_bytes :: "stored list \<Rightarrow> nat" where
  "data_bytes rows = sum_list (map (\<lambda>x. length (concat (row_vals x))) rows)"

definition table_files :: "nat \<Rightarrow> stored list \<Rightarrow> string \<Rightarrow> string \<Rightarrow> string \<Rightarrow> bool" where
  "table_files n rows idx dat del \<longleftrightarrow>
     0 < n \<and> int (length idx) = int (length rows) * row_size n \<and> int (length dat) \<le> INT64_MAX \<and>
     data_bytes rows \<le> length dat \<and>
     (\<forall>r < length rows. read_record n r idx dat = Inr (row_id (rows ! r), row_vals (rows ! r))) \<and>
     ids_ok rows \<and> flags_ok rows del"

section \<open>Ids and flags\<close>

lemma ids_length:
  assumes "ids_ok rows" and "rows \<noteq> []"
  shows "int (length rows) \<le> row_id (last rows)"
  using assms
proof (induction rows rule: rev_induct)
  case (snoc x rows)
  show ?case
  proof (cases "rows = []")
    case True
    then show ?thesis using snoc.prems(1) by (simp add: ids_ok_def)
  next
    case False
    then have "row_id (last rows) < row_id x" "ids_ok rows"
      using snoc.prems(1) by (simp_all add: ids_ok_def sorted_wrt_append)
    then show ?thesis using snoc.IH False by simp
  qed
qed simp

lemma next_id_bound: "ids_ok rows \<Longrightarrow> int (length rows) < next_id rows"
  using ids_length [of rows] by (cases "rows = []") (auto simp: next_id_def)

lemma ids_ok_snoc: "ids_ok rows \<Longrightarrow> next_id rows \<le> INT64_MAX \<Longrightarrow> ids_ok (rows @ [(next_id rows, vs, d)])"
proof -
  assume a: "ids_ok rows" "next_id rows \<le> INT64_MAX"
  have "row_id x < next_id rows" if "x \<in> set rows" for x
  proof (cases rows rule: rev_cases)
    case (snoc ys y)
    then have "x = y \<or> row_id x < row_id y" using a(1) that by (auto simp: ids_ok_def sorted_wrt_append)
    then show ?thesis using snoc by (auto simp: next_id_def)
  qed (use that in simp)
  then show ?thesis using a next_id_bound [OF a(1)] by (auto simp: ids_ok_def sorted_wrt_append)
qed

lemma ids_ok_alt: "ids_ok rows \<longleftrightarrow> sorted_wrt (<) (map row_id rows) \<and>
    (\<forall>i \<in> set (map row_id rows). 1 \<le> i \<and> i \<le> INT64_MAX)"
  by (simp add: ids_ok_def)

lemma ids_ok_cong: "map row_id rows' = map row_id rows \<Longrightarrow> ids_ok rows' = ids_ok rows"
  by (simp only: ids_ok_alt)

lemma next_id_cong: "map row_id rows' = map row_id rows \<Longrightarrow> next_id rows' = next_id rows"
proof -
  assume e: "map row_id rows' = map row_id rows"
  then have l: "rows' = [] \<longleftrightarrow> rows = []" by (metis map_is_Nil_conv)
  have "rows \<noteq> [] \<Longrightarrow> row_id (last rows') = row_id (last rows)" using e l by (metis last_map)
  then show ?thesis using l by (simp add: next_id_def)
qed

lemma flags_ok_snoc:
  assumes "flags_ok rows del" and "int (length rows) < i"
  shows "flags_ok (rows @ [(i, vs, False)]) (write_at (i - 1) [NUL] del)"
proof -
  have len: "length (write_at (i - 1) [NUL] del) = max (length del) (nat i)"
    using assms(2) by (auto simp: length_write_at)
  have nth: "write_at (i - 1) [NUL] del ! r = (if r < length del \<and> r \<noteq> nat (i - 1) then del ! r else NUL)"
    if "r < max (length del) (nat i)" for r
    using nth_write_at [of "i - 1" r NUL del] assms(2) that len by auto
  show ?thesis
    unfolding flags_ok_def len
  proof (intro conjI allI impI)
    fix r assume r: "r < max (length del) (nat i)"
    show "write_at (i - 1) [NUL] del ! r =
        (if r < length (rows @ [(i, vs, False)]) \<and> row_dead ((rows @ [(i, vs, False)]) ! r) then CHR 0x01 else NUL)"
      using assms r by (auto simp: flags_ok_def nth nth_append less_Suc_eq)
  qed (use assms in \<open>auto simp: flags_ok_def\<close>)
qed

lemma flags_ok_dead:
  assumes "flags_ok rows del" and "r < length rows"
  shows "flags_ok (rows[r := (i, vs, True)]) (write_at (int r) [CHR 0x01] del)"
proof -
  have l: "r < length del" using assms by (simp add: flags_ok_def)
  have "write_at (int r) [CHR 0x01] del = del[r := CHR 0x01]"
    using l by (simp add: write_at_def Let_def upd_conv_take_nth_drop)
  then show ?thesis using assms by (auto simp: flags_ok_def nth_list_update)
qed

lemma read_flag_row: "flags_ok rows del \<Longrightarrow> r < length rows \<Longrightarrow> read_flag r del = Inr (row_dead (rows ! r))"
  by (auto simp: read_flag_def read_at_one flags_ok_def NUL_def)

section \<open>Records\<close>

fun offsets :: "int \<Rightarrow> string list \<Rightarrow> string" where
  "offsets p [] = []"
| "offsets p (v # vs) = put64 p @ put64 (p + int (length v)) @ offsets (p + int (length v)) vs"

lemma length_offsets [simp]: "length (offsets p vs) = 16 * length vs"
  by (induction vs arbitrary: p) auto

lemma append_columns_eq: "append_columns vs idx dat = (idx @ offsets (int (length dat)) vs, dat @ concat vs)"
  by (induction vs arbitrary: idx dat) auto

lemma read64_append: "read64 p f = Inr x \<Longrightarrow> read64 p (f @ g) = Inr x"
  by (auto simp: read64_def past_end_def read_at_append split: option.splits)

lemma read64_put:
  assumes "p = int (length f)" and "INT64_MIN \<le> n" and "n \<le> INT64_MAX"
  shows "read64 p (f @ put64 n @ g) = Inr n"
  using read_at_mid [of p f 8 "put64 n" g] assms by (simp add: read64_def get64_put64)

lemma read_columns_append:
  "read_columns n p idx dat = Inr vs \<Longrightarrow> read_columns n p (idx @ x) (dat @ y) = Inr vs"
proof (induction n arbitrary: p vs)
  case (Suc n)
  obtain st en v us where r: "read64 p idx = Inr st" "read64 (p + 8) idx = Inr en" "\<not> en - st < 0"
      "read_at st (en - st) dat = Some v" "read_columns n (p + 16) idx dat = Inr us" "vs = v # us"
    using Suc.prems by (auto simp: bindE_Inr past_end_def split: if_splits option.splits)
  show ?case using read64_append [OF r(1)] read64_append [OF r(2)] read_at_append [OF r(4)] Suc.IH [OF r(5)] r(3,6) by simp
qed simp

lemma read_record_append: "read_record n r idx dat = Inr rec \<Longrightarrow> read_record n r (idx @ x) (dat @ y) = Inr rec"
  by (cases rec) (auto simp: read_record_def bindE_Inr dest: read64_append intro: read_columns_append)

lemma read_columns_offsets:
  assumes "int (length (dat @ concat vs)) \<le> INT64_MAX" and "p = int (length pre)"
  shows "read_columns (length vs) p (pre @ offsets (int (length dat)) vs) (dat @ concat vs) = Inr vs"
  using assms
proof (induction vs arbitrary: pre dat p)
  case (Cons v vs)
  let ?idx = "pre @ offsets (int (length dat)) (v # vs)"
  have r1: "read64 p ?idx = Inr (int (length dat))"
    using read64_put [of p pre "int (length dat)"] Cons.prems by (simp add: int_limits)
  have r2: "read64 (p + 8) ?idx = Inr (int (length (dat @ v)))"
    using read64_put [of "p + 8" "pre @ put64 (int (length dat))" "int (length (dat @ v))"] Cons.prems
    by (simp add: int_limits)
  have v: "read_at (int (length dat)) (int (length v)) (dat @ concat (v # vs)) = Some v"
    using read_at_mid [of "int (length dat)" dat "int (length v)" v "concat vs"] by simp
  have "read_columns (length vs) (p + 16) ?idx (dat @ concat (v # vs)) = Inr vs"
    using Cons.IH [of "dat @ v" "p + 16" "pre @ put64 (int (length dat)) @ put64 (int (length (dat @ v)))"] Cons.prems
    by (simp add: add.assoc)
  then show ?case using v r1 r2 by simp
qed simp

lemma row_size_Suc: "row_size (Suc m) = 8 + 16 * int m"
  by (simp add: row_size_def)

lemma read_record_last:
  assumes "int (length idx) = int r * row_size (Suc m)" and "length vs = m"
    and "int (length (dat @ concat vs)) \<le> INT64_MAX" and "1 \<le> i" and "i \<le> INT64_MAX"
  shows "read_record (Suc m) r (idx @ put64 i @ offsets (int (length dat)) vs) (dat @ concat vs) = Inr (i, vs)"
  using read64_put [of "int r * row_size (Suc m)" idx i] assms
    read_columns_offsets [of dat vs "int r * row_size (Suc m) + 8" "idx @ put64 i"]
  by (simp add: read_record_def int_limits)


section \<open>Operations on the files\<close>

lemma table_read: "table_files n rows idx dat del \<Longrightarrow> r < length rows \<Longrightarrow>
    read_record n r idx dat = Inr (row_id (rows ! r), row_vals (rows ! r))"
  by (simp add: table_files_def)

lemma table_flag: "table_files n rows idx dat del \<Longrightarrow> r < length rows \<Longrightarrow> read_flag r del = Inr (row_dead (rows ! r))"
  by (simp add: table_files_def read_flag_row)

lemma read_columns_length: "read_columns n p idx dat = Inr vs \<Longrightarrow> length vs = n"
  by (induction n arbitrary: p vs) (auto simp: bindE_Inr past_end_def split: if_splits option.splits)

lemma table_vals_length: "table_files n rows idx dat del \<Longrightarrow> r < length rows \<Longrightarrow> length (row_vals (rows ! r)) = n - 1"
  using table_read [of n rows idx dat del r] by (auto simp: read_record_def bindE_Inr dest: read_columns_length)

lemma table_rows_length: "table_files n rows idx dat del \<Longrightarrow> x \<in> set rows \<Longrightarrow> length (row_vals x) = n - 1"
  by (metis in_set_conv_nth table_vals_length)

lemma table_count: "table_files n rows idx dat del \<Longrightarrow> nat (row_count n (int (length idx))) = length rows"
  by (cases n) (auto simp: table_files_def row_count_def row_size_def)

lemma table_new_row_id:
  assumes "table_files (Suc m) rows idx dat del"
  shows "new_row_id m idx = Inr (next_id rows)"
proof (cases rows rule: rev_cases)
  case Nil
  then show ?thesis using assms by (simp add: table_files_def new_row_id_def next_id_def)
next
  case (snoc xs x)
  have l: "int (length idx) = int (length xs) * row_size (Suc m) + row_size (Suc m)"
    using assms by (simp add: table_files_def snoc algebra_simps)
  moreover have "0 \<le> int (length xs) * row_size (Suc m)" "0 < row_size (Suc m)" by (simp_all add: row_size_Suc)
  ultimately have ne: "idx \<noteq> []" by (intro notI) simp
  have "read64 (int (length xs) * row_size (Suc m)) idx = Inr (row_id x)"
    using table_read [OF assms, of "length xs"] by (auto simp: snoc read_record_def bindE_Inr)
  moreover have "int (length idx) - (8 + int m * 16) = int (length xs) * row_size (Suc m)"
    using l by (simp add: row_size_Suc)
  ultimately show ?thesis
    using ne by (auto simp: new_row_id_def read64_def past_end_def next_id_def snoc split: option.splits)
qed

lemma table_append:
  assumes "table_files (Suc m) rows idx dat del" and "length vs = m" and "int (length (dat @ concat vs)) \<le> INT64_MAX"
    and "ids_ok (rows @ [(i, vs, False)])" and "flags_ok (rows @ [(i, vs, False)]) del'"
  shows "table_files (Suc m) (rows @ [(i, vs, False)]) (idx @ put64 i @ offsets (int (length dat)) vs) (dat @ concat vs) del'"
proof -
  have i: "1 \<le> i" "i \<le> INT64_MAX" using assms(4) by (auto simp: ids_ok_def)
  have l: "int (length idx) = int (length rows) * row_size (Suc m)" using assms(1) by (simp add: table_files_def)
  have "read_record (Suc m) r (idx @ put64 i @ offsets (int (length dat)) vs) (dat @ concat vs) =
      Inr (row_id ((rows @ [(i, vs, False)]) ! r), row_vals ((rows @ [(i, vs, False)]) ! r))"
    if "r < length (rows @ [(i, vs, False)])" for r
  proof (cases "r < length rows")
    case True
    then show ?thesis using read_record_append [OF table_read [OF assms(1) True]] by (simp add: nth_append)
  next
    case False
    then have "r = length rows" using that by simp
    then show ?thesis using read_record_last [OF l assms(2,3) i] by (simp add: nth_append)
  qed
  moreover have "int (length (idx @ put64 i @ offsets (int (length dat)) vs)) = int (Suc (length rows)) * row_size (Suc m)"
    using l assms(2) by (simp add: row_size_Suc algebra_simps)
  ultimately show ?thesis
    using assms by (simp add: table_files_def data_bytes_def)
qed

lemma table_insert:
  assumes "table_files (Suc m) rows idx dat del" and "length vs = m" and "int (length (dat @ concat vs)) \<le> INT64_MAX"
    and "next_id rows \<le> INT64_MAX"
  shows "table_files (Suc m) (rows @ [(next_id rows, vs, False)]) (idx @ put64 (next_id rows) @ offsets (int (length dat)) vs)
    (dat @ concat vs) (write_at (next_id rows - 1) [NUL] del)"
proof (rule table_append [OF assms(1-3)])
  have "ids_ok rows" "flags_ok rows del" using assms(1) by (simp_all add: table_files_def)
  then show "ids_ok (rows @ [(next_id rows, vs, False)])"
      and "flags_ok (rows @ [(next_id rows, vs, False)]) (write_at (next_id rows - 1) [NUL] del)"
    using ids_ok_snoc assms(4) flags_ok_snoc next_id_bound by auto
qed

text \<open>Rows marked as deleted.\<close>

definition kill :: "nat \<Rightarrow> stored list \<Rightarrow> stored list" where
  "kill r rows = rows[r := (row_id (rows ! r), row_vals (rows ! r), True)]"

lemma length_kill [simp]: "length (kill r rows) = length rows"
  by (simp add: kill_def)

lemma nth_kill: "i < length rows \<Longrightarrow>
    kill r rows ! i = (row_id (rows ! i), row_vals (rows ! i), i = r \<or> row_dead (rows ! i))"
  by (cases "i = r") (simp_all add: kill_def)

lemma map_kill: "(\<And>x. f (row_id x, row_vals x, True) = f x) \<Longrightarrow> map f (kill r rows) = map f rows"
proof (rule nth_equalityI)
  fix i assume f: "\<And>x. f (row_id x, row_vals x, True) = f x" and i: "i < length (map f (kill r rows))"
  then show "map f (kill r rows) ! i = map f rows ! i" by (cases "i = r") (simp_all add: nth_kill)
qed simp

lemma kill_ids: "map row_id (kill r rows) = map row_id rows"
  by (rule map_kill) simp

lemma data_bytes_kill: "data_bytes (kill r rows) = data_bytes rows"
  unfolding data_bytes_def by (subst map_kill) simp_all

lemma table_kill:
  assumes "table_files n rows idx dat del" and "r < length rows"
  shows "table_files n (kill r rows) idx dat (write_at (int r) [CHR 0x01] del)"
proof -
  have "flags_ok (kill r rows) (write_at (int r) [CHR 0x01] del)"
    using flags_ok_dead [of rows del r] assms by (simp add: table_files_def kill_def)
  moreover have "ids_ok (kill r rows)" using ids_ok_cong [OF kill_ids] assms(1) by (simp add: table_files_def)
  moreover have "row_id (kill r rows ! i) = row_id (rows ! i) \<and> row_vals (kill r rows ! i) = row_vals (rows ! i)"
    if "i < length rows" for i
    using that by (simp add: nth_kill)
  ultimately show ?thesis using assms(1) by (simp add: table_files_def data_bytes_kill)
qed

section \<open>Vacuum\<close>

lemma table_empty: "0 < n \<Longrightarrow> table_files n [] [] [] []"
  by (simp add: table_files_def data_bytes_def ids_ok_def flags_ok_def int_limits)

lemma ids_ok_subseq: "ids_ok (xs @ x # ys) \<Longrightarrow> ids_ok (xs @ ys)"
  by (auto simp: ids_ok_def sorted_wrt_append)

lemma vacuum_rows_spec:
  assumes "table_files n rows idx dat del" and "i \<le> length rows"
    and "table_files n live idx1 dat1 del1" and "length del1 = length live"
    and "int (length dat1 + data_bytes (drop i rows)) \<le> INT64_MAX" and "ids_ok (live @ drop i rows)"
  shows "\<exists>idx2 dat2 del2. vacuum_rows n idx dat del [i ..< length rows] (idx1, dat1, del1) = Inr (idx2, dat2, del2) \<and>
    table_files n (live @ filter (\<lambda>x. \<not> row_dead x) (drop i rows)) idx2 dat2 del2"
  using assms(2-)
proof (induction "length rows - i" arbitrary: i live idx1 dat1 del1)
  case 0
  then show ?case by simp
next
  case (Suc k)
  have i: "i < length rows" using Suc.hyps(2) by simp
  have d: "drop i rows = rows ! i # drop (Suc i) rows" using i by (simp add: Cons_nth_drop_Suc)
  have u: "[i ..< length rows] = i # [Suc i ..< length rows]" using i by (simp add: upt_conv_Cons)
  note f = table_flag [OF assms(1) i] and rd = table_read [OF assms(1) i]
  show ?case
  proof (cases "row_dead (rows ! i)")
    case True
    have "ids_ok (live @ drop (Suc i) rows)" using Suc.prems(5) ids_ok_subseq by (simp add: d)
    then show ?thesis
      using Suc.hyps(1) [of "Suc i" live idx1 dat1 del1] Suc.hyps(2) Suc.prems i f True d u by (simp add: data_bytes_def)
  next
    case False
    obtain m where m: "n = Suc m" using assms(1) by (cases n) (auto simp: table_files_def)
    define x where "x = (row_id (rows ! i), row_vals (rows ! i), False)"
    have x: "rows ! i = x" using False by (cases "rows ! i") (simp add: x_def)
    have fl: "flags_ok (live @ [x]) (del1 @ [NUL])"
      using Suc.prems(2,3) by (auto simp: flags_ok_def table_files_def nth_append x_def less_Suc_eq)
    have ids: "ids_ok (live @ [x])" using Suc.prems(5) d x by (simp add: ids_ok_def sorted_wrt_append)
    have l: "length (row_vals x) = m" using table_vals_length [OF assms(1) i] m x by simp
    have b: "int (length (dat1 @ concat (row_vals x))) \<le> INT64_MAX" using Suc.prems(4) d x by (simp add: data_bytes_def)
    have xs: "x = (row_id x, row_vals x, False)" by (simp add: x_def)
    define idx3 where "idx3 = idx1 @ put64 (row_id x) @ offsets (int (length dat1)) (row_vals x)"
    define dat3 where "dat3 = dat1 @ concat (row_vals x)"
    have t: "table_files n (live @ [x]) idx3 dat3 (del1 @ [NUL])"
      using table_append [of m live idx1 dat1 del1 "row_vals x" "row_id x"] Suc.prems(2) l b ids fl m xs
      by (simp add: idx3_def dat3_def)
    have a: "append_columns (row_vals x) (idx1 @ put64 (row_id x)) dat1 = (idx3, dat3)"
      by (simp add: append_columns_eq idx3_def dat3_def)
    have "vacuum_rows n idx dat del [i ..< length rows] (idx1, dat1, del1) =
        vacuum_rows n idx dat del [Suc i ..< length rows] (idx3, dat3, del1 @ [NUL])"
      using f rd False a x by (simp add: u)
    moreover have "ids_ok ((live @ [x]) @ drop (Suc i) rows)" using Suc.prems(5) d x by simp
    moreover have "int (length dat3 + data_bytes (drop (Suc i) rows)) \<le> INT64_MAX"
      using Suc.prems(4) d x by (simp add: data_bytes_def dat3_def)
    moreover have "live @ filter (\<lambda>x. \<not> row_dead x) (drop i rows) =
        (live @ [x]) @ filter (\<lambda>x. \<not> row_dead x) (drop (Suc i) rows)"
      using d x False by simp
    ultimately show ?thesis
      using Suc.hyps(1) [of "Suc i" "live @ [x]" idx3 dat3 "del1 @ [NUL]"] Suc.hyps(2) Suc.prems(3) i t by simp
  qed
qed

end
