(* ===== verification/Table_Ops.thy ===== *)
theory Table_Ops
  imports Table_Rel
begin

text \<open>
  The handlers on a store whose files represent a list of rows (\<open>table_rel\<close>): what INSERT, SELECT, DELETE, UPDATE
  and the vacuum do to the list.
\<close>

section \<open>The relation\<close>

interpretation strings: comparator string_less
  by unfold_locales (auto intro: string_less_trans dest: string_less_total)

definition plain :: "string \<Rightarrow> bool" where
  "plain nm \<longleftrightarrow> CHR 0x0D \<notin> set nm \<and> CHR 0x0A \<notin> set nm"

definition schema_ok :: "column list \<Rightarrow> bool" where
  "schema_ok cols \<longleftrightarrow> distinct (map co_name cols) \<and> length (filter co_isPrimary cols) = 1"

definition cached :: "store \<Rightarrow> string \<Rightarrow> column list \<Rightarrow> bool" where
  "cached s t cols \<longleftrightarrow> (\<exists>m sym. st_cache s (st_db s) = Some m \<and> m t = Some (sym, cols))"

abbreviation path_of :: "store \<Rightarrow> string \<Rightarrow> string \<Rightarrow> string" where
  "path_of s t ext \<equiv> table_path (st_db s) t ext"

definition table_rel :: "store \<Rightarrow> string \<Rightarrow> column list \<Rightarrow> stored list \<Rightarrow> bool" where
  "table_rel s t cols rows \<longleftrightarrow> cached s t cols \<and> schema_ok cols \<and> plain (st_db s) \<and> plain t \<and>
     (\<forall>ext \<in> {''.index'', ''.data'', ''.delete''}. st_files s (path_of s t ext) \<noteq> None) \<and>
     table_files (length cols) rows (content s (path_of s t ''.index'')) (content s (path_of s t ''.data''))
       (content s (path_of s t ''.delete''))"

definition data_size :: "store \<Rightarrow> string \<Rightarrow> int" where
  "data_size s t = get_file_size s (path_of s t ''.data'')"

abbreviation trees_of :: "store \<Rightarrow> string \<Rightarrow> (string \<times> index_tree) list" where
  "trees_of s t \<equiv> st_trees s (st_db s) t"

lemma path_inj [simp]: "table_path d t e = table_path d t e' \<longleftrightarrow> e = e'"
  by (simp add: table_path_def)

lemma content_set_file [simp]: "content (set_file p f s) q = (if q = p then f else content s q)"
  by (simp add: content_def set_file_def)

lemma set_file_sel [simp]:
  "st_db (set_file p f s) = st_db s" "st_cache (set_file p f s) = st_cache s" "st_trees (set_file p f s) = st_trees s"
  "st_files (set_file p f s) q = (if q = p then Some f else st_files s q)"
  by (simp_all add: set_file_def)

lemma set_trees_sel [simp]:
  "st_db (set_trees t ts s) = st_db s" "st_cache (set_trees t ts s) = st_cache s" "st_files (set_trees t ts s) = st_files s"
  "trees_of (set_trees t ts s) t = ts"
  by (simp_all add: set_trees_def)

lemma content_set_trees [simp]: "content (set_trees t ts s) p = content s p"
  by (simp add: content_def)

lemma touch_cached: "cached s t cols \<Longrightarrow> touch_cache (st_db s) t s = (cols, s)"
  by (auto simp: cached_def touch_cache_def Let_def fun_upd_idem)

lemma plain_path: "plain (st_db s) \<Longrightarrow> plain t \<Longrightarrow> ext \<in> {''.index'', ''.data'', ''.delete''} \<Longrightarrow>
    check_if_file_exist s (path_of s t ext) = (st_files s (path_of s t ext) \<noteq> None)"
proof -
  assume a: "plain (st_db s)" "plain t" "ext \<in> {''.index'', ''.data'', ''.delete''}"
  have "filter (\<lambda>c. c \<noteq> CHR 0x0D \<and> c \<noteq> CHR 0x0A) (path_of s t ext) = path_of s t ext"
    using a by (intro filter_True) (auto simp: table_path_def tableDirectory_def plain_def)
  then show ?thesis by (simp add: check_if_file_exist_def)
qed

lemma schema_split:
  assumes "schema_ok cols"
  obtains xs k ys where "cols = xs @ k # ys" "co_isPrimary k" "non_primary cols = xs @ ys"
    "last_primary cols = co_name k" "first_primary cols = co_name k"
proof -
  obtain k where k: "filter co_isPrimary cols = [k]" using assms by (auto simp: schema_ok_def length_Suc_conv)
  obtain xs ys where c: "cols = xs @ k # ys" "\<forall>x \<in> set xs. \<not> co_isPrimary x" "co_isPrimary k" "[] = filter co_isPrimary ys"
    using iffD1 [OF filter_eq_Cons_iff k] by blast
  have "\<forall>x \<in> set ys. \<not> co_isPrimary x" using c(4) [symmetric] by (simp add: filter_empty_conv)
  then have "non_primary cols = xs @ ys" using c(1-3) by (simp add: non_primary_def)
  then show thesis using that c k by (simp add: last_primary_def first_primary_def)
qed

lemma schema_counts:
  assumes "schema_ok cols"
  shows "length cols = Suc (length (non_primary cols))" and "last_primary cols = first_primary cols"
    and "distinct (first_primary cols # map co_name (non_primary cols))"
    and "set (map co_name cols) = insert (first_primary cols) (co_name ` set (non_primary cols))"
proof -
  obtain xs k ys where s: "cols = xs @ k # ys" "non_primary cols = xs @ ys" "last_primary cols = co_name k"
      "first_primary cols = co_name k"
    using assms by (rule schema_split)
  have d: "distinct (map co_name (xs @ k # ys))" using assms s(1) by (simp add: schema_ok_def)
  show "length cols = Suc (length (non_primary cols))" unfolding s(2) by (simp add: s(1))
  show "last_primary cols = first_primary cols" by (simp only: s(3,4))
  show "distinct (first_primary cols # map co_name (non_primary cols))" unfolding s(2,4) using d by auto
  show "set (map co_name cols) = insert (first_primary cols) (co_name ` set (non_primary cols))"
    unfolding s(2,4) by (auto simp: s(1))
qed

section \<open>Index trees of small tables\<close>

text \<open>
  A tree of integers only takes insertions, which never fail. Texts are also removed, which never fails on a tree of at most 199
  entries that has never split: it is one leaf.
\<close>

fun tree_ok :: "nat \<Rightarrow> index_tree \<Rightarrow> bool" where
  "tree_ok m (Int_Tree t) \<longleftrightarrow> bp_ok (<) t"
| "tree_ok m (Str_Tree t) \<longleftrightarrow> bp_ok string_less t \<and> is_leaf t \<and> length (entries_of t) \<le> m"

definition trees_ok :: "nat \<Rightarrow> (string \<times> index_tree) list \<Rightarrow> bool" where
  "trees_ok m ts \<longleftrightarrow> (\<forall>(c, t) \<in> set ts. tree_ok m t)"

context comparator
begin

lemma leaf_insert_ok:
  "bp_ok lt t \<Longrightarrow> is_leaf t \<Longrightarrow> length (entries_of t) \<le> m \<Longrightarrow> m < MAX_KEYS \<Longrightarrow>
     bp_ok lt (bp_insert lt k v t) \<and> is_leaf (bp_insert lt k v t) \<and> length (entries_of (bp_insert lt k v t)) \<le> Suc m"
  using bp_insert_spec [of t k v] insert_one_leaf [of t k v] length_put [of t k v] by auto

lemma leaf_remove_ok:
  "bp_ok lt t \<Longrightarrow> is_leaf t \<Longrightarrow> length (entries_of t) \<le> m \<Longrightarrow>
     \<exists>t1 b. bp_remove lt k t = Inr (t1, b) \<and> bp_ok lt t1 \<and> is_leaf t1 \<and> length (entries_of t1) \<le> m"
proof -
  assume a: "bp_ok lt t" "is_leaf t" "length (entries_of t) \<le> m"
  obtain t1 b where r: "bp_remove lt k t = Inr (t1, b)" using remove_one_leaf [OF a(2)] by blast
  have "length (sm_erase k (entries_of t)) \<le> m" using a(3) by (simp add: sm_erase_def le_trans [OF length_filter_le])
  then show ?thesis using bp_remove_spec [OF a(1) r] a r by auto
qed

end

lemma tree_ok_mono: "tree_ok m t \<Longrightarrow> m \<le> k \<Longrightarrow> tree_ok k t"
  by (cases t) auto

lemma tree_ok_insert:
  "tree_ok m t \<Longrightarrow> m < MAX_KEYS \<Longrightarrow> tree_ok (Suc m) (insert_id i nd t) \<and> tree_ok (Suc m) (insert_text v nd t)"
proof (cases t)
  case (Int_Tree x)
  assume "tree_ok m t" "m < MAX_KEYS"
  then show ?thesis
    using asks.bp_insert_spec [of x] Int_Tree by simp
next
  case (Str_Tree x)
  assume "tree_ok m t" "m < MAX_KEYS"
  then show ?thesis
    using strings.leaf_insert_ok [of x m "show_int i" nd] strings.leaf_insert_ok [of x m v nd] Str_Tree by simp
qed

lemma remove_text_ok: "tree_ok m t \<Longrightarrow> \<exists>t1. remove_text v t = Inr t1 \<and> tree_ok m t1"
proof (cases t)
  case (Int_Tree x1)
  assume "tree_ok m t"
  then show ?thesis using Int_Tree by simp
next
  case (Str_Tree x2)
  assume "tree_ok m t"
  then show ?thesis using strings.leaf_remove_ok [of x2 m v] Str_Tree by auto
qed

lemma unindex_ok: "trees_ok m ts \<Longrightarrow> \<exists>ts1. unindex_row r ts = Inr ts1 \<and> trees_ok m ts1"
proof (induction ts)
  case (Cons x ts)
  obtain c t where x: "x = (c, t)" by fastforce
  obtain ts1 where "unindex_row r ts = Inr ts1" "trees_ok m ts1" using Cons by (auto simp: trees_ok_def)
  moreover obtain t1 where "remove_text (value_to_storage (case r c of None \<Rightarrow> V_int 0 | Some v \<Rightarrow> v)) t = Inr t1" "tree_ok m t1"
    using remove_text_ok Cons.prems x by (fastforce simp: trees_ok_def)
  ultimately show ?case by (auto simp: x trees_ok_def)
qed (simp add: trees_ok_def)

text \<open>The trees of integers stay as they are.\<close>

definition int_trees_kept :: "(string \<times> index_tree) list \<Rightarrow> (string \<times> index_tree) list \<Rightarrow> bool" where
  "int_trees_kept ts ts1 \<longleftrightarrow> (\<forall>c t. map_of ts c = Some (Int_Tree t) \<longrightarrow> map_of ts1 c = Some (Int_Tree t))"

lemma int_trees_kept_refl [simp]: "int_trees_kept ts ts"
  by (simp add: int_trees_kept_def)

lemma int_trees_kept_trans: "int_trees_kept ts ts1 \<Longrightarrow> int_trees_kept ts1 ts2 \<Longrightarrow> int_trees_kept ts ts2"
  by (simp add: int_trees_kept_def)

lemma unindex_kept: "unindex_row r ts = Inr ts1 \<Longrightarrow> int_trees_kept ts ts1"
proof (induction ts arbitrary: ts1)
  case (Cons x ts)
  obtain c t where x: "x = (c, t)" by fastforce
  obtain t1 ts2 where "remove_text (value_to_storage (case r c of None \<Rightarrow> V_int 0 | Some v \<Rightarrow> v)) t = Inr t1"
      "unindex_row r ts = Inr ts2" "ts1 = (c, t1) # ts2"
    using Cons.prems by (auto simp: x bindE_Inr)
  then show ?case using Cons.IH [of ts2] by (cases t) (auto simp: x int_trees_kept_def)
qed simp

text \<open>Each tree gets at most one new entry per row.\<close>

lemma index_row_ok:
  assumes "trees_ok m ts" and "m < MAX_KEYS" and "distinct (primary # map fst data)"
  shows "trees_ok (Suc m) (index_row primary i nd data ts)"
proof -
  define grown where "grown names ts \<longleftrightarrow> (\<forall>(c, t) \<in> set ts. tree_ok (if c \<in> names then Suc m else m) t)"
    for names and ts :: "(string \<times> index_tree) list"
  have step: "grown (insert c names) (upd_tree c f ts1)"
    if "grown names ts1" "c \<notin> names" "\<And>t. tree_ok m t \<Longrightarrow> tree_ok (Suc m) (f t)" for c names f ts1
    unfolding grown_def
  proof clarify
    fix c1 t1 assume "(c1, t1) \<in> set (upd_tree c f ts1)"
    then obtain t0 where t0: "(c1, t0) \<in> set ts1" "t1 = (if c1 = c then f t0 else t0)"
      by (auto simp: upd_tree_def split: if_splits)
    then have "tree_ok (if c1 \<in> names then Suc m else m) t0" using that(1) by (auto simp: grown_def)
    then show "tree_ok (if c1 \<in> insert c names then Suc m else m) t1" using t0(2) that(2,3) by (cases "c1 = c") auto
  qed
  have skip: "grown (insert c names) ts1" if "grown names ts1" for c names ts1
    using that tree_ok_mono [of m _ "Suc m"] by (auto simp: grown_def split: if_splits)
  have fold: "grown (names \<union> set (map fst data))
      (foldl (\<lambda>ts (c, v, u). if u then upd_tree c (insert_text v nd) ts else ts) ts1 data)"
    if "grown names ts1" "distinct (map fst data)" "names \<inter> set (map fst data) = {}" for names ts1
    using that
  proof (induction data arbitrary: names ts1)
    case (Cons d data)
    obtain c v u where d: "d = (c, v, u)" by (cases d) auto
    have "grown (insert c names) (if u then upd_tree c (insert_text v nd) ts1 else ts1)"
      using step [of names ts1 c "insert_text v nd"] skip [of names ts1 c] Cons.prems tree_ok_insert assms(2) d by auto
    from Cons.IH [OF this] Cons.prems show ?case by (simp add: d)
  qed simp
  have "grown {} ts" using assms(1) by (simp add: grown_def trees_ok_def)
  then have "grown {primary} (if primary \<noteq> [] then upd_tree primary (insert_id i nd) ts else ts)"
    using step [of "{}" ts primary "insert_id i nd"] skip [of "{}" ts primary] tree_ok_insert assms(2) by auto
  from fold [OF this] assms(3) show ?thesis
    using tree_ok_mono [of m _ "Suc m"] unfolding index_row_def trees_ok_def grown_def by (fastforce split: if_splits)
qed

end
