(* ===== verification/Table_Handlers.thy ===== *)
theory Table_Handlers
  imports Table_Ops
begin

text \<open>
  What the handlers do to the list of rows. INSERT appends; SELECT reads; DELETE and UPDATE visit the rows in order,
  which \<open>visited\<close> describes without a loop.
\<close>

section \<open>INSERT\<close>

lemma table_relD:
  assumes "table_rel s t cols rows"
  shows "touch_cache (st_db s) t s = (cols, s)" and "schema_ok cols"
    and "table_files (length cols) rows (content s (path_of s t ''.index'')) (content s (path_of s t ''.data''))
       (content s (path_of s t ''.delete''))"
    and "ext \<in> {''.index'', ''.data'', ''.delete''} \<Longrightarrow> check_if_file_exist s (path_of s t ext) \<and>
       st_files s (path_of s t ext) \<noteq> None"
proof -
  show "touch_cache (st_db s) t s = (cols, s)" using assms touch_cached by (simp add: table_rel_def)
  assume "ext \<in> {''.index'', ''.data'', ''.delete''}"
  then show "check_if_file_exist s (path_of s t ext) \<and> st_files s (path_of s t ext) \<noteq> None"
    using assms plain_path [of s t ext] unfolding table_rel_def by blast
qed (use assms in \<open>auto simp: table_rel_def\<close>)

lemma table_rel_count: "table_rel s t cols rows \<Longrightarrow>
    nat (row_count (length cols) (get_file_size s (path_of s t ''.index''))) = length rows"
  using table_count by (auto simp: table_rel_def get_file_size_def)

lemma row_count_nonneg: "0 < n \<Longrightarrow> 0 \<le> sz \<Longrightarrow> 0 \<le> row_count n sz"
  by (simp add: row_count_def row_size_def pos_imp_zdiv_nonneg_iff)

lemma table_rel_trees: "table_rel (set_trees t1 ts s) t cols rows = table_rel s t cols rows"
  by (simp add: table_rel_def cached_def)

text \<open>\<open>s'\<close> differs from \<open>s\<close> in the files and the trees of the table \<open>t\<close> only.\<close>

definition only_table :: "string \<Rightarrow> store \<Rightarrow> store \<Rightarrow> bool" where
  "only_table t s s' \<longleftrightarrow> st_db s' = st_db s \<and> st_cache s' = st_cache s \<and>
     (\<forall>p. p \<notin> path_of s t ` {''.index'', ''.data'', ''.delete''} \<longrightarrow> st_files s' p = st_files s p) \<and>
     (\<forall>db u. (db, u) \<noteq> (st_db s, t) \<longrightarrow> st_trees s' db u = st_trees s db u)"

lemma only_table_refl: "only_table t s s"
  by (simp add: only_table_def)

lemma only_table_trans: "only_table t s s1 \<Longrightarrow> only_table t s1 s2 \<Longrightarrow> only_table t s s2"
  by (auto simp: only_table_def)

lemma only_table_steps:
  "only_table t s (set_trees t ts s)"
  "ext \<in> {''.index'', ''.data'', ''.delete''} \<Longrightarrow> only_table t s (set_file (path_of s t ext) f s)"
  by (auto simp: only_table_def set_trees_def set_file_def)

lemma insert_row_rel:
  assumes "table_rel s t cols rows" and "length cols = Suc (length data)" and "data \<noteq> []"
    and "data_size s t + int (length (concat (map (fst \<circ> snd) data))) \<le> INT64_MAX" and "next_id rows \<le> INT64_MAX"
  shows "\<exists>s'. insert_row primary data t s = (Inr (), s') \<and>
    table_rel s' t cols (rows @ [(next_id rows, map (fst \<circ> snd) data, False)]) \<and>
    data_size s' t = data_size s t + int (length (concat (map (fst \<circ> snd) data))) \<and>
    trees_of s' t = index_row primary (next_id rows)
      (index_node_of (get_file_size s (path_of s t ''.index'')) (get_file_size s' (path_of s t ''.index''))) data (trees_of s t) \<and>
    only_table t s s'"
proof -
  define pi pd px where "pi = path_of s t ''.index''" and "pd = path_of s t ''.data''" and "px = path_of s t ''.delete''"
  define vs where "vs = map (fst \<circ> snd) data"
  define m where "m = length data"
  have d: "pd \<noteq> pi" "px \<noteq> pi" "px \<noteq> pd" by (simp_all add: pi_def pd_def px_def)
  have f: "table_files (Suc m) rows (content s pi) (content s pd) (content s px)"
    using table_relD(3) [OF assms(1)] assms(2) by (simp add: pi_def pd_def px_def m_def)
  have ex: "check_if_file_exist s pi" "check_if_file_exist s pd"
    using table_relD(4) [OF assms(1)] by (auto simp: pi_def pd_def)
  have id: "new_row_id m (content s pi) = Inr (next_id rows)" using table_new_row_id [OF f] .
  define idx dat del where "idx = content s pi @ put64 (next_id rows) @ offsets (int (length (content s pd))) vs"
    and "dat = content s pd @ concat vs" and "del = write_at (next_id rows - 1) [NUL] (content s px)"
  have bytes: "int (length (content s pd @ concat vs)) \<le> INT64_MAX"
    using assms(4) by (simp add: data_size_def get_file_size_def pd_def vs_def)
  have f': "table_files (Suc m) (rows @ [(next_id rows, vs, False)]) idx dat del"
    unfolding idx_def dat_def del_def by (rule table_insert [OF f _ bytes assms(5)]) (simp add: vs_def m_def)
  define ts where "ts = index_row primary (next_id rows) (index_node_of (int (length (content s pi))) (int (length idx))) data (trees_of s t)"
  define s' where "s' = set_trees t ts (set_file pi idx (set_file pd dat (set_file px del s)))"
  have vm: "map (\<lambda>(c, v, u). v) data = vs" by (auto simp: vs_def)
  have "insert_row primary data t s = (Inr (), s')"
    using assms(3) ex id
    by (simp add: insert_row_def Let_def pi_def [symmetric] pd_def [symmetric] px_def [symmetric] m_def [symmetric]
        vm append_columns_eq idx_def dat_def del_def ts_def s'_def)
  moreover have "table_rel s' t cols (rows @ [(next_id rows, vs, False)])"
  proof -
    have c: "content s' pi = idx" "content s' pd = dat" "content s' px = del" "st_db s' = st_db s" "st_cache s' = st_cache s"
        "st_files s' pi = Some idx" "st_files s' pd = Some dat" "st_files s' px = Some del"
      using d by (simp_all add: s'_def)
    show ?thesis
      using assms(1,2) f' c unfolding table_rel_def cached_def pi_def pd_def px_def m_def by simp
  qed
  moreover have "data_size s' t = data_size s t + int (length (concat vs))"
    using d by (simp add: data_size_def get_file_size_def s'_def pd_def [symmetric] dat_def)
  moreover have "trees_of s' t = index_row primary (next_id rows)
      (index_node_of (get_file_size s pi) (get_file_size s' pi)) data (trees_of s t)"
  proof -
    have c: "content s' pi = idx" using d by (simp add: s'_def)
    have "trees_of s' t = ts" by (simp add: s'_def set_trees_def)
    then show ?thesis by (simp add: get_file_size_def c ts_def)
  qed
  moreover have "only_table t s s'"
    by (auto simp: only_table_def s'_def set_trees_def pi_def pd_def px_def)
  ultimately show ?thesis unfolding vs_def pi_def by blast
qed

text \<open>Sorting by name.\<close>

lemma map_insert_by_name: "map f (insert_by_name f x xs) = insert_by_name (\<lambda>c. c) (f x) (map f xs)"
  by (induction xs) auto

lemma map_sort_by_name: "map f (sort_by_name f xs) = sort_by_name (\<lambda>c. c) (map f xs)"
  by (induction xs) (simp_all add: sort_by_name_def map_insert_by_name)

lemma set_insert_by_name [simp]: "set (insert_by_name f x xs) = insert x (set xs)"
  by (induction xs) auto

lemma set_sort_by_name [simp]: "set (sort_by_name f xs) = set xs"
  by (induction xs) (simp_all add: sort_by_name_def)

lemma length_insert_by_name: "length (insert_by_name f x xs) = Suc (length xs)"
  by (induction xs) auto

lemma length_sort_by_name [simp]: "length (sort_by_name f xs) = length xs"
  by (induction xs) (simp_all add: sort_by_name_def length_insert_by_name)

lemma sorted_sort_by_name: "distinct xs \<Longrightarrow> sorted_wrt string_less (sort_by_name (\<lambda>c. c) xs)"
proof (induction xs)
  case (Cons x xs)
  have ins: "sorted_wrt string_less ys \<Longrightarrow> x \<notin> set ys \<Longrightarrow> sorted_wrt string_less (insert_by_name (\<lambda>c. c) x ys)" for ys
  proof (induction ys)
    case (Cons y ys)
    then have "string_less x y \<or> string_less y x" using string_less_total by auto
    then show ?case using Cons by (auto intro: string_less_trans)
  qed simp
  show ?case using ins [of "sort_by_name (\<lambda>c. c) xs"] Cons by (simp add: sort_by_name_def)
      (metis set_sort_by_name sort_by_name_def)
qed (simp add: sort_by_name_def)

lemma sorted_names_unique:
  "sorted_wrt string_less xs \<Longrightarrow> sorted_wrt string_less ys \<Longrightarrow> set xs = set ys \<Longrightarrow> xs = ys"
proof (induction xs arbitrary: ys)
  case (Cons x xs)
  then obtain y zs where y: "ys = y # zs" by (cases ys) auto
  have xy: "x = y" using Cons.prems y strings.lt_asym by (metis insert_iff list.simps(15) sorted_wrt.simps(2))
  have "x \<notin> set xs" "y \<notin> set zs" using Cons.prems y strings.lt_irrefl by auto
  then have "set xs = set zs" using Cons.prems(3) y xy by auto
  then show ?case using Cons.IH [of zs] Cons.prems y xy by simp
qed simp

lemma sort_names_cong: "distinct xs \<Longrightarrow> distinct ys \<Longrightarrow> set xs = set ys \<Longrightarrow>
    sort_by_name (\<lambda>c. c) xs = sort_by_name (\<lambda>c. c) ys"
  by (intro sorted_names_unique sorted_sort_by_name) simp_all


lemma sum_sort_by_name: "sum_list (map g (sort_by_name f xs)) = (sum_list (map g xs) :: nat)"
proof -
  have "sum_list (map g (insert_by_name f x ys)) = g x + sum_list (map g ys)" for x ys
    by (induction ys) auto
  then show ?thesis by (induction xs) (simp_all add: sort_by_name_def)
qed

definition sorted_names :: "column list \<Rightarrow> string list" where
  "sorted_names cols = sort_by_name (\<lambda>c. c) (map co_name (non_primary cols))"

definition given_columns :: "insert_statement \<Rightarrow> (string \<times> string) list" where
  "given_columns stmt = sort_by_name fst (zip (ins_columns stmt) (ins_values stmt))"

text \<open>The values of an INSERT in the order of the sorted columns.\<close>

definition given_values :: "insert_statement \<Rightarrow> string list" where
  "given_values stmt = map snd (given_columns stmt)"

lemma match_columns_ok:
  "map fst as = map fst cs \<Longrightarrow> \<exists>data. match_columns as cs = Inr data \<and> map (fst \<circ> snd) data = map snd cs \<and>
     map fst data = map fst cs"
proof (induction as cs rule: match_columns.induct)
  case (1 a u as c v cs)
  then show ?case by auto
qed auto

lemma match_columns_differ:
  "length as = length cs \<Longrightarrow> map fst as \<noteq> map fst cs \<Longrightarrow> \<exists>m. match_columns as cs = Inl (Throw m)"
proof (induction as cs rule: match_columns.induct)
  case (1 a u as c v cs)
  then show ?case by (cases "a = c") auto
qed auto

lemma given_columns_names:
  "length (ins_columns stmt) = length (ins_values stmt) \<Longrightarrow>
     map fst (given_columns stmt) = sort_by_name (\<lambda>c. c) (ins_columns stmt)"
  by (simp add: given_columns_def map_sort_by_name)

lemma given_values_size:
  assumes "length (ins_columns stmt) = length (ins_values stmt)"
  shows "length (concat (given_values stmt)) = length (concat (ins_values stmt))"
proof -
  have "length (concat (given_values stmt)) = sum_list (map (length \<circ> snd) (given_columns stmt))"
    by (simp add: given_values_def length_concat)
  also have "\<dots> = sum_list (map (length \<circ> snd) (zip (ins_columns stmt) (ins_values stmt)))"
    unfolding given_columns_def by (rule sum_sort_by_name)
  also have "\<dots> = sum_list (map length (map snd (zip (ins_columns stmt) (ins_values stmt))))" by (simp add: comp_def)
  also have "\<dots> = length (concat (ins_values stmt))" using assms by (simp add: length_concat)
  finally show ?thesis .
qed

lemma find_cached: "cached s t cols \<Longrightarrow> find_table s t = Inr cols"
  by (auto simp: cached_def find_table_def)

lemma generate_insert_rel:
  assumes "table_rel s (ins_table stmt) cols rows" and "length (ins_columns stmt) = length (ins_values stmt)"
    and "sort_by_name (\<lambda>c. c) (ins_columns stmt) = sorted_names cols" and "ins_columns stmt \<noteq> []"
    and "data_size s (ins_table stmt) + int (length (concat (ins_values stmt))) \<le> INT64_MAX" and "next_id rows \<le> INT64_MAX"
  shows "\<exists>s' nd data. generate_insert stmt s = (Inr (), s') \<and>
    table_rel s' (ins_table stmt) cols (rows @ [(next_id rows, given_values stmt, False)]) \<and>
    data_size s' (ins_table stmt) = data_size s (ins_table stmt) + int (length (concat (ins_values stmt))) \<and>
    trees_of s' (ins_table stmt) = index_row (first_primary cols) (next_id rows) nd data (trees_of s (ins_table stmt)) \<and>
    map fst data = sorted_names cols \<and> only_table (ins_table stmt) s s'"
proof -
  let ?t = "ins_table stmt"
  define actual where "actual = sort_by_name fst (map (\<lambda>c. (co_name c, co_isUnique c)) (non_primary cols))"
  have an: "map fst actual = sorted_names cols"
    by (simp add: actual_def map_sort_by_name sorted_names_def comp_def)
  have gn: "map fst (given_columns stmt) = sorted_names cols" using given_columns_names assms(2,3) by simp
  obtain data where data: "match_columns actual (given_columns stmt) = Inr data"
      "map (fst \<circ> snd) data = given_values stmt" "map fst data = sorted_names cols"
    using match_columns_ok [of actual "given_columns stmt"] an gn by (auto simp: given_values_def)
  have l: "length actual = length (given_columns stmt)" using arg_cong [OF an [folded gn], of length] by simp
  have sch: "schema_ok cols" and c: "cached s ?t cols" using assms(1) by (simp_all add: table_rel_def)
  have ld: "length cols = Suc (length data)"
    using schema_counts(1) [OF sch] arg_cong [OF data(3), of length] by (simp add: sorted_names_def)
  have "length (ins_columns stmt) = length (sorted_names cols)" using arg_cong [OF assms(3), of length] by simp
  then have ne: "data \<noteq> []" using arg_cong [OF data(3), of length] assms(4) by auto
  have b: "data_size s ?t + int (length (concat (map (fst \<circ> snd) data))) \<le> INT64_MAX"
    unfolding data(2) given_values_size [OF assms(2)] by (rule assms(5))
  obtain s' where s': "insert_row (last_primary cols) data ?t s = (Inr (), s')"
      "table_rel s' ?t cols (rows @ [(next_id rows, map (fst \<circ> snd) data, False)])"
      "data_size s' ?t = data_size s ?t + int (length (concat (map (fst \<circ> snd) data)))"
      "trees_of s' ?t = index_row (last_primary cols) (next_id rows)
        (index_node_of (get_file_size s (path_of s ?t ''.index'')) (get_file_size s' (path_of s ?t ''.index''))) data (trees_of s ?t)"
      "only_table ?t s s'"
    using insert_row_rel [OF assms(1) ld ne b assms(6), of "last_primary cols"] by blast
  have "generate_insert stmt s = (Inr (), s')"
    using assms(2) find_cached [OF c] l data(1) s'(1)
    by (simp add: generate_insert_def Let_def given_columns_def [symmetric] actual_def [symmetric])
  then show ?thesis
    using s'(2-5) data(2,3) given_values_size [OF assms(2)] schema_counts(2) [OF sch] by metis
qed

lemma generate_insert_wrong:
  assumes "table_rel s (ins_table stmt) cols rows" and "length (ins_columns stmt) = length (ins_values stmt)"
    and "sort_by_name (\<lambda>c. c) (ins_columns stmt) \<noteq> sorted_names cols"
  shows "\<exists>m. generate_insert stmt s = (Inl (Throw m), s)"
proof -
  define actual where "actual = sort_by_name fst (map (\<lambda>c. (co_name c, co_isUnique c)) (non_primary cols))"
  have an: "map fst actual = sorted_names cols"
    by (simp add: actual_def map_sort_by_name sorted_names_def comp_def)
  have gn: "map fst (given_columns stmt) \<noteq> map fst actual" using given_columns_names assms(2,3) an by simp
  have c: "cached s (ins_table stmt) cols" using assms(1) by (simp add: table_rel_def)
  show ?thesis
    using assms(2) find_cached [OF c] match_columns_differ [of actual "given_columns stmt"] gn
    by (auto simp: generate_insert_def Let_def given_columns_def [symmetric] actual_def [symmetric] split: sum.splits)
qed

section \<open>SELECT\<close>

text \<open>The live rows that satisfy the condition, or the first error of the condition.\<close>

abbreviation shown :: "string list \<Rightarrow> stored \<Rightarrow> row" where
  "shown names x \<equiv> row_of names (row_id x, row_vals x)"

fun select_spec :: "string list \<Rightarrow> expr option \<Rightarrow> stored list \<Rightarrow> row list result" where
  "select_spec names wh [] = Inr []"
| "select_spec names wh (x # xs) =
     (if row_dead x then select_spec names wh xs
      else bindE (evaluate_where wh (shown names x)) (\<lambda>b.
        bindE (select_spec names wh xs) (\<lambda>rows. Inr (if b then shown names x # rows else rows))))"

lemma select_rows_spec:
  assumes "table_files (length names) rows idx dat del" and "i \<le> length rows"
  shows "select_rows names wh idx dat del [i ..< length rows] = select_spec names wh (drop i rows)"
  using assms(2)
proof (induction "length rows - i" arbitrary: i)
  case (Suc k)
  have i: "i < length rows" using Suc.hyps(2) by simp
  then show ?case
    using Suc.hyps(1) [of "Suc i"] Suc.hyps(2) table_flag [OF assms(1) i] table_read [OF assms(1) i]
    by (simp add: upt_conv_Cons Cons_nth_drop_Suc [symmetric])
qed simp

lemma length_column_names [simp]: "length (column_names cols) = length cols"
  by (simp add: column_names_def)

lemma handle_select_rel:
  assumes "table_rel s (sel_table stmt) cols rows"
  shows "handle_select iter stmt s =
    (bindE (select_spec (column_names cols) (sel_where stmt) rows)
       (\<lambda>rs. Inr (''['' @ joined '','' (map (json_row iter (column_names cols)) rs) @ '']'')), s)"
proof -
  let ?t = "sel_table stmt"
  have n: "0 < length cols" using table_relD(3) [OF assms] by (simp add: table_files_def)
  have c: "0 \<le> row_count (length cols) (get_file_size s (path_of s ?t ''.index''))"
    using row_count_nonneg [OF n] by (simp add: get_file_size_def)
  have f: "table_files (length (column_names cols)) rows (content s (path_of s ?t ''.index''))
      (content s (path_of s ?t ''.data'')) (content s (path_of s ?t ''.delete''))"
    using table_relD(3) [OF assms] by simp
  obtain fi fd fx where ex: "st_files s (path_of s ?t ''.index'') = Some fi" "st_files s (path_of s ?t ''.data'') = Some fd"
      "st_files s (path_of s ?t ''.delete'') = Some fx"
    using table_relD(4) [OF assms, of "''.index''"] table_relD(4) [OF assms, of "''.data''"]
      table_relD(4) [OF assms, of "''.delete''"] by auto
  have sel: "select_rows (column_names cols) (sel_where stmt) (content s (path_of s ?t ''.index''))
      (content s (path_of s ?t ''.data'')) (content s (path_of s ?t ''.delete'')) [0 ..< length rows] =
      select_spec (column_names cols) (sel_where stmt) rows"
    using select_rows_spec [OF f, where i = 0 and wh = "sel_where stmt"] by simp
  have cnt: "nat (row_count (length cols) (get_file_size s (path_of s ?t ''.index''))) = length rows"
    by (rule table_rel_count [OF assms])
  show ?thesis
    unfolding handle_select_def Let_def table_relD(1) [OF assms] prod.case length_column_names cnt sel
    using c by (simp add: ex)
qed


section \<open>Visiting the rows\<close>

text \<open>
  DELETE and UPDATE visit the rows there are when they start. A live row that satisfies the condition is marked as
  deleted, and UPDATE appends the row \<open>g\<close> gives for it.
\<close>

definition replace_row :: "(stored \<Rightarrow> string list option) \<Rightarrow> nat \<Rightarrow> stored list \<Rightarrow> stored list" where
  "replace_row g r rows =
     kill r rows @ (case g (rows ! r) of None \<Rightarrow> [] | Some vs \<Rightarrow> [(next_id rows, vs, False)])"

fun visit_spec ::
  "string list \<Rightarrow> expr option \<Rightarrow> (stored \<Rightarrow> string list option) \<Rightarrow> nat list \<Rightarrow> stored list \<Rightarrow> unit result \<times> stored list" where
  "visit_spec names wh g [] rows = (Inr (), rows)"
| "visit_spec names wh g (r # rs) rows =
     (if row_dead (rows ! r) then visit_spec names wh g rs rows
      else (case evaluate_where wh (shown names (rows ! r)) of
        Inl e \<Rightarrow> (Inl e, rows)
      | Inr b \<Rightarrow> visit_spec names wh g rs (if b then replace_row g r rows else rows)))"

lemma visit_rows_spec:
  assumes rel: "\<And>k s rows. R k s rows \<Longrightarrow> table_rel s t cols rows"
    and less: "\<And>k s rows. R (Suc k) s rows \<Longrightarrow> R k s rows"
    and step: "\<And>k s rows r. R (Suc k) s rows \<Longrightarrow> r < length rows \<Longrightarrow> r \<in> N \<Longrightarrow>
      \<exists>s'. K r (shown (column_names cols) (rows ! r)) s = (Inr (), s') \<and> R k s' (replace_row g r rows)"
    and "R (length rs) s rows" and "\<forall>r \<in> set rs. r < length rows" and "set rs \<subseteq> N"
  shows "\<exists>s'. visit_rows (column_names cols) wh t K rs s = (fst (visit_spec (column_names cols) wh g rs rows), s') \<and>
    R 0 s' (snd (visit_spec (column_names cols) wh g rs rows))"
  using assms(4-)
proof (induction rs arbitrary: s rows)
  case (Cons r rs)
  let ?names = "column_names cols"
  have r: "r < length rows" "r \<in> N" and rt: "table_rel s t cols rows" using Cons.prems rel by auto
  note f = table_relD(3) [OF rt]
  have flag: "read_flag r (content s (path_of s t ''.delete'')) = Inr (row_dead (rows ! r))"
    using table_flag [OF f r(1)] .
  have rec: "read_record (length cols) r (content s (path_of s t ''.index'')) (content s (path_of s t ''.data'')) =
      Inr (row_id (rows ! r), row_vals (rows ! r))"
    using table_read [OF f r(1)] by simp
  have R1: "R (length rs) s rows" using Cons.prems(1) less by simp
  have skip: ?case if "visit_row ?names wh t r (K r) s = (Inr (), s)"
      and "visit_spec ?names wh g (r # rs) rows = visit_spec ?names wh g rs rows"
    using Cons.IH [OF R1] Cons.prems that by simp
  have R0: "R k s rows \<Longrightarrow> R 0 s rows" for k by (induction k) (auto dest: less)
  consider (dead) "row_dead (rows ! r)"
    | (fails) e where "\<not> row_dead (rows ! r)" "evaluate_where wh (shown ?names (rows ! r)) = Inl e"
    | (no) "\<not> row_dead (rows ! r)" "evaluate_where wh (shown ?names (rows ! r)) = Inr False"
    | (yes) "\<not> row_dead (rows ! r)" "evaluate_where wh (shown ?names (rows ! r)) = Inr True"
    by (cases "evaluate_where wh (shown ?names (rows ! r))") (auto split: bool.splits)
  then show ?case
  proof cases
    case dead
    then show ?thesis by (intro skip) (simp_all add: visit_row_def flag)
  next
    case (fails e)
    then show ?thesis using R0 [OF Cons.prems(1)] by (simp add: visit_row_def flag rec)
  next
    case no
    then show ?thesis by (intro skip) (simp_all add: visit_row_def flag rec)
  next
    case yes
    obtain s1 where s1: "K r (shown ?names (rows ! r)) s = (Inr (), s1)" "R (length rs) s1 (replace_row g r rows)"
      using step [of "length rs" s rows r] Cons.prems(1) r by auto
    have "\<forall>r' \<in> set rs. r' < length (replace_row g r rows)" using Cons.prems(2) by (auto simp: replace_row_def)
    then show ?thesis using Cons.IH [OF s1(2)] Cons.prems(3) yes s1(1) by (simp add: visit_row_def flag rec)
  qed
qed simp

subsection \<open>Without a loop\<close>

definition hit :: "string list \<Rightarrow> expr option \<Rightarrow> stored \<Rightarrow> bool" where
  "hit names wh x \<longleftrightarrow> \<not> row_dead x \<and> evaluate_where wh (shown names x) = Inr True"

definition fails :: "string list \<Rightarrow> expr option \<Rightarrow> stored \<Rightarrow> bool" where
  "fails names wh x \<longleftrightarrow> \<not> row_dead x \<and> (\<exists>e. evaluate_where wh (shown names x) = Inl e)"

text \<open>The rows before the first one on which the condition throws.\<close>

definition reached :: "string list \<Rightarrow> expr option \<Rightarrow> stored list \<Rightarrow> stored list" where
  "reached names wh rows = takeWhile (\<lambda>x. \<not> fails names wh x) rows"

definition outcome :: "string list \<Rightarrow> expr option \<Rightarrow> stored list \<Rightarrow> unit result" where
  "outcome names wh rows =
     (case dropWhile (\<lambda>x. \<not> fails names wh x) rows of
        [] \<Rightarrow> Inr ()
      | x # _ \<Rightarrow> bindE (evaluate_where wh (shown names x)) (\<lambda>_. Inr ()))"

definition marked :: "string list \<Rightarrow> expr option \<Rightarrow> stored \<Rightarrow> stored" where
  "marked names wh x = (row_id x, row_vals x, row_dead x \<or> hit names wh x)"

fun fresh_rows :: "int \<Rightarrow> string list list \<Rightarrow> stored list" where
  "fresh_rows i [] = []"
| "fresh_rows i (vs # vss) = (i, vs, False) # fresh_rows (i + 1) vss"

definition visited :: "string list \<Rightarrow> expr option \<Rightarrow> (stored \<Rightarrow> string list option) \<Rightarrow> stored list \<Rightarrow> stored list" where
  "visited names wh g rows =
     (let pre = reached names wh rows
      in map (marked names wh) pre @ drop (length pre) rows @
         fresh_rows (next_id rows) (List.map_filter g (filter (hit names wh) pre)))"

lemma next_id_snoc: "next_id (rows @ [(next_id rows, vs, d)]) = next_id rows + 1"
  by (simp add: next_id_def)

lemma kill_middle: "kill (length xs) (xs @ x # ys) = xs @ (row_id x, row_vals x, True) # ys"
  by (simp add: kill_def)

lemma visit_spec_closed:
  "visit_spec names wh g [length done ..< length done + length todo] (done @ todo @ news) =
    (outcome names wh todo,
     done @ map (marked names wh) (reached names wh todo) @ drop (length (reached names wh todo)) todo @ news @
       fresh_rows (next_id (done @ todo @ news)) (List.map_filter g (filter (hit names wh) (reached names wh todo))))"
proof (induction todo arbitrary: "done" news)
  case Nil
  then show ?case by (simp add: reached_def outcome_def map_filter_simps)
next
  case (Cons x todo)
  have u: "[length done ..< length done + length (x # todo)] =
      length done # [length (done @ [x]) ..< length (done @ [x]) + length todo]"
    by (simp add: upt_conv_Cons del: upt_Suc)
  have l: "length (done @ [y]) = length (done @ [x])" for y :: stored by simp
  have x: "(done @ (x # todo) @ news) ! length done = x" by simp
  have skip: ?case if "\<not> fails names wh x" "\<not> hit names wh x" and
      "visit_spec names wh g (length done # [length (done @ [x]) ..< length (done @ [x]) + length todo]) (done @ (x # todo) @ news) =
       visit_spec names wh g [length (done @ [x]) ..< length (done @ [x]) + length todo] ((done @ [x]) @ todo @ news)"
    using Cons.IH [of "done @ [x]" news] that unfolding u that(3)
    by (simp add: reached_def outcome_def marked_def)
  consider (dead) "row_dead x"
    | (fails) e where "\<not> row_dead x" "evaluate_where wh (shown names x) = Inl e"
    | (no) "\<not> row_dead x" "evaluate_where wh (shown names x) = Inr False"
    | (yes) "\<not> row_dead x" "evaluate_where wh (shown names x) = Inr True"
    by (cases "evaluate_where wh (shown names x)") (auto split: bool.splits)
  then show ?case
  proof cases
    case dead
    then show ?thesis by (intro skip) (simp_all add: fails_def hit_def)
  next
    case (fails e)
    then have "fails names wh x" by (simp add: fails_def)
    then show ?thesis using fails unfolding u
      by (simp add: x reached_def outcome_def map_filter_simps)
  next
    case no
    then show ?thesis by (intro skip) (simp_all add: fails_def hit_def)
  next
    case yes
    define new where "new = (case g x of None \<Rightarrow> [] | Some vs \<Rightarrow> [(next_id (done @ x # todo @ news), vs, False)])"
    define y where "y = marked names wh x"
    have y: "y = (row_id x, row_vals x, True)" using yes by (simp add: y_def marked_def hit_def)
    have f: "\<not> fails names wh x" "hit names wh x" using yes by (simp_all add: fails_def hit_def)
    have rep: "replace_row g (length done) (done @ x # todo @ news) = (done @ [y]) @ todo @ news @ new"
      using kill_middle [of "done" x "todo @ news"] by (simp add: replace_row_def new_def y)
    have ids: "next_id ((done @ [y]) @ todo @ news) = next_id (done @ x # todo @ news)"
      by (rule next_id_cong) (simp add: y)
    have nid: "fresh_rows (next_id (done @ x # todo @ news)) (List.map_filter g (x # zs)) =
        new @ fresh_rows (next_id ((done @ [y]) @ todo @ news @ new)) (List.map_filter g zs)" for zs
    proof (cases "g x")
      case None
      then show ?thesis using ids by (simp add: new_def map_filter_simps)
    next
      case (Some vs)
      have "next_id ((done @ [y]) @ todo @ news @ new) = next_id (done @ x # todo @ news) + 1"
        using next_id_snoc [of "(done @ [y]) @ todo @ news" vs False] Some unfolding ids by (simp add: new_def)
      then show ?thesis using Some by (simp add: new_def map_filter_simps)
    qed
    have "visit_spec names wh g [length done ..< length done + length (x # todo)] (done @ (x # todo) @ news) =
        visit_spec names wh g [length (done @ [y]) ..< length (done @ [y]) + length todo] ((done @ [y]) @ todo @ news @ new)"
      unfolding u using x yes rep by simp
    also have "\<dots> = (outcome names wh todo, (done @ [y]) @ map (marked names wh) (reached names wh todo) @
        drop (length (reached names wh todo)) todo @ (news @ new) @
        fresh_rows (next_id ((done @ [y]) @ todo @ news @ new))
          (List.map_filter g (filter (hit names wh) (reached names wh todo))))"
      using Cons.IH [of "done @ [y]" "news @ new"] by simp
    finally show ?thesis
      using f nid by (simp add: reached_def outcome_def y_def [symmetric])
  qed
qed

lemma visit_spec_visited:
  "visit_spec names wh g [0 ..< length rows] rows = (outcome names wh rows, visited names wh g rows)"
  using visit_spec_closed [of names wh g "[]" rows "[]"] by (simp add: visited_def Let_def)

end
