(* ===== verification/Table_Changes.thy ===== *)
theory Table_Changes
  imports Table_Handlers
begin

text \<open>DELETE, UPDATE and the vacuum on the list of rows, and the columns of a row that is read back.\<close>

lemma trees_set_trees [simp]: "st_trees (set_trees t ts s) d u = (if d = st_db s \<and> u = t then ts else st_trees s d u)"
  by (simp add: set_trees_def)

section \<open>DELETE\<close>

lemma mark_dead_rel:
  assumes "table_rel s t cols rows" and "r < length rows"
  shows "table_rel (mark_dead t r s) t cols (kill r rows)" and "data_size (mark_dead t r s) t = data_size s t"
    and "trees_of (mark_dead t r s) t = trees_of s t" and "only_table t s (mark_dead t r s)" and "st_db (mark_dead t r s) = st_db s"
proof -
  define px where "px = path_of s t ''.delete''"
  have m: "mark_dead t r s = set_file px (write_at (int r) [CHR 0x01] (content s px)) s"
    by (simp add: mark_dead_def px_def Let_def)
  have "table_files (length cols) (kill r rows) (content s (path_of s t ''.index'')) (content s (path_of s t ''.data''))
      (write_at (int r) [CHR 0x01] (content s px))"
    using table_kill [OF table_relD(3) [OF assms(1)] assms(2)] by (simp add: px_def)
  then show "table_rel (mark_dead t r s) t cols (kill r rows)"
    using assms(1) unfolding m table_rel_def cached_def px_def by simp
  show "data_size (mark_dead t r s) t = data_size s t" by (simp add: m data_size_def get_file_size_def px_def)
  show "trees_of (mark_dead t r s) t = trees_of s t" "st_db (mark_dead t r s) = st_db s" by (simp_all add: m)
  show "only_table t s (mark_dead t r s)" unfolding m px_def by (rule only_table_steps) simp
qed

lemma delete_row_rel:
  assumes "table_rel s t cols rows" and "r < length rows" and "trees_ok m (trees_of s t)"
  shows "\<exists>s'. delete_row t r row s = (Inr (), s') \<and> table_rel s' t cols (kill r rows) \<and> trees_ok m (trees_of s' t) \<and>
    int_trees_kept (trees_of s t) (trees_of s' t) \<and> only_table t s s'"
proof -
  note d = mark_dead_rel [OF assms(1,2)]
  obtain ts where ts: "unindex_row row (trees_of s t) = Inr ts" "trees_ok m ts" using unindex_ok [OF assms(3)] by blast
  have "delete_row t r row s = (Inr (), set_trees t ts (mark_dead t r s))"
    using ts(1) d(3) by (simp add: delete_row_def Let_def d(5))
  moreover have "trees_of (set_trees t ts (mark_dead t r s)) t = ts" by simp
  ultimately show ?thesis
    using d(1) ts(2) unindex_kept [OF ts(1)] only_table_trans [OF d(4) only_table_steps(1)] by (auto simp: table_rel_trees)
qed

lemma only_table_db: "only_table t s s' \<Longrightarrow> st_db s' = st_db s"
  by (simp add: only_table_def)

lemma handle_delete_rel:
  assumes "table_rel s (del_table stmt) cols rows" and "trees_ok m (trees_of s (del_table stmt))"
  shows "\<exists>s'. handle_delete stmt s = (outcome (column_names cols) (del_where stmt) rows, s') \<and>
    table_rel s' (del_table stmt) cols (visited (column_names cols) (del_where stmt) (\<lambda>_. None) rows) \<and>
    trees_ok m (trees_of s' (del_table stmt)) \<and> only_table (del_table stmt) s s' \<and>
    int_trees_kept (trees_of s (del_table stmt)) (trees_of s' (del_table stmt))"
proof -
  let ?t = "del_table stmt" and ?names = "column_names cols"
  define R where "R k s1 rows1 \<longleftrightarrow> table_rel s1 ?t cols rows1 \<and> trees_ok m (trees_of s1 ?t) \<and> only_table ?t s s1 \<and>
      int_trees_kept (trees_of s ?t) (trees_of s1 ?t)"
    for k :: nat and s1 rows1
  have step: "\<exists>s2. delete_row ?t r (shown ?names (rows1 ! r)) s1 = (Inr (), s2) \<and> R k s2 (replace_row (\<lambda>_. None) r rows1)"
    if "R (Suc k) s1 rows1" "r < length rows1" for k s1 rows1 r
    using delete_row_rel [of s1 ?t cols rows1 r m] that only_table_trans int_trees_kept_trans unfolding R_def replace_row_def by fastforce
  have R0: "R (length [0 ..< length rows]) s rows" using assms only_table_refl by (simp add: R_def)
  obtain s' where s': "visit_rows ?names (del_where stmt) ?t (delete_row ?t) [0 ..< length rows] s =
        (fst (visit_spec ?names (del_where stmt) (\<lambda>_. None) [0 ..< length rows] rows), s')"
      "R 0 s' (snd (visit_spec ?names (del_where stmt) (\<lambda>_. None) [0 ..< length rows] rows))"
    using visit_rows_spec [of R ?t cols UNIV "delete_row ?t" "\<lambda>_. None", OF _ _ step R0] by (auto simp: R_def)
  obtain fi fd fx where ex: "st_files s (path_of s ?t ''.index'') = Some fi" "st_files s (path_of s ?t ''.data'') = Some fd"
      "st_files s (path_of s ?t ''.delete'') = Some fx"
    using table_relD(4) [OF assms(1), of "''.index''"] table_relD(4) [OF assms(1), of "''.data''"]
      table_relD(4) [OF assms(1), of "''.delete''"] by auto
  have "handle_delete stmt s = visit_rows ?names (del_where stmt) ?t (delete_row ?t) [0 ..< length rows] s"
    unfolding handle_delete_def Let_def table_relD(1) [OF assms(1)] prod.case length_column_names table_rel_count [OF assms(1)]
    by (simp add: ex)
  then show ?thesis using s' unfolding visit_spec_visited R_def by (auto intro: only_table_trans)
qed

section \<open>UPDATE\<close>

text \<open>The texts of the row that UPDATE inserts for a row it replaces.\<close>

definition new_values :: "column list \<Rightarrow> (string \<times> string) list \<Rightarrow> stored \<Rightarrow> string list" where
  "new_values cols as x = map (fst \<circ> snd) (reinserted cols (assign_all as (shown (column_names cols) x)))"

lemma new_values_cong: "row_id x = row_id y \<Longrightarrow> row_vals x = row_vals y \<Longrightarrow> new_values cols as x = new_values cols as y"
  by (simp add: new_values_def)

lemma update_row_rel:
  assumes "table_rel s t cols rows" and "r < length rows" and "trees_ok m (trees_of s t)" and "m < MAX_KEYS"
    and "non_primary cols \<noteq> []" and "next_id rows \<le> INT64_MAX"
    and "data_size s t + int (length (concat (new_values cols as (rows ! r)))) \<le> INT64_MAX"
  shows "\<exists>s'. update_row cols as t r (shown (column_names cols) (rows ! r)) s = (Inr (), s') \<and>
    table_rel s' t cols (replace_row (\<lambda>x. Some (new_values cols as x)) r rows) \<and> trees_ok (Suc m) (trees_of s' t) \<and>
    data_size s' t = data_size s t + int (length (concat (new_values cols as (rows ! r)))) \<and> only_table t s s'"
proof -
  define row where "row = shown (column_names cols) (rows ! r)"
  define data where "data = reinserted cols (assign_all as row)"
  have dv: "map (fst \<circ> snd) data = new_values cols as (rows ! r)" by (simp add: data_def new_values_def row_def)
  note d = mark_dead_rel [OF assms(1,2)]
  obtain ts where ts: "unindex_row row (trees_of s t) = Inr ts" "trees_ok m ts" using unindex_ok [OF assms(3)] by blast
  define s1 where "s1 = set_trees t ts (mark_dead t r s)"
  have sch: "schema_ok cols" using table_relD(2) [OF assms(1)] .
  have s1: "table_rel s1 t cols (kill r rows)" "data_size s1 t = data_size s t" "only_table t s s1" "trees_of s1 t = ts"
    using d only_table_trans [OF d(4) only_table_steps(1)]
    by (simp_all add: s1_def table_rel_trees data_size_def get_file_size_def)
  have names: "map fst data = map co_name (non_primary cols)" by (simp add: data_def reinserted_def comp_def)
  then have "length data = length (non_primary cols)" by (metis length_map)
  then have l: "length cols = Suc (length data)" "data \<noteq> []" using schema_counts(1) [OF sch] assms(5) by auto
  have nid: "next_id (kill r rows) = next_id rows" by (rule next_id_cong [OF kill_ids])
  obtain s' where s': "insert_row (first_primary cols) data t s1 = (Inr (), s')"
      "table_rel s' t cols (kill r rows @ [(next_id rows, new_values cols as (rows ! r), False)])"
      "data_size s' t = data_size s t + int (length (concat (new_values cols as (rows ! r))))"
      "trees_of s' t = index_row (first_primary cols) (next_id rows)
        (index_node_of (get_file_size s1 (path_of s1 t ''.index'')) (get_file_size s' (path_of s1 t ''.index''))) data ts"
      "only_table t s1 s'"
    using insert_row_rel [OF s1(1) l, of "first_primary cols"] assms(6,7) unfolding dv nid s1(2,4) by blast
  have "update_row cols as t r row s = (Inr (), s')"
    using ts(1) d(3) s'(1) by (simp add: update_row_def Let_def d(5) data_def s1_def)
  moreover have "trees_ok (Suc m) (trees_of s' t)"
    unfolding s'(4) using index_row_ok [OF ts(2) assms(4)] schema_counts(3) [OF sch] names by metis
  ultimately show ?thesis using s' only_table_trans [OF s1(3) s'(5)] by (auto simp: row_def replace_row_def)
qed

lemma handle_update_rel:
  assumes "table_rel s (upd_table stmt) cols rows" and "trees_ok m (trees_of s (upd_table stmt))"
    and "m + length rows \<le> MAX_KEYS" and "non_primary cols \<noteq> []" and "st_db s \<noteq> []"
    and "first_primary cols \<notin> fst ` set (upd_assignments stmt)" and "next_id rows + int (length rows) \<le> INT64_MAX"
    and "\<forall>x \<in> set rows. length (concat (new_values cols (upd_assignments stmt) x)) \<le> L"
    and "data_size s (upd_table stmt) + int (length rows * L) \<le> INT64_MAX"
  shows "\<exists>s'. handle_update stmt s = (outcome (column_names cols) (Some (upd_where stmt)) rows, s') \<and>
    table_rel s' (upd_table stmt) cols
      (visited (column_names cols) (Some (upd_where stmt)) (\<lambda>x. Some (new_values cols (upd_assignments stmt) x)) rows) \<and>
    trees_ok (m + length rows) (trees_of s' (upd_table stmt)) \<and> only_table (upd_table stmt) s s'"
proof -
  let ?t = "upd_table stmt" and ?names = "column_names cols" and ?as = "upd_assignments stmt"
    and ?wh = "Some (upd_where stmt)"
  define n where "n = length rows"
  define g where "g x = Some (new_values cols ?as x)" for x
  define R where "R k s1 rows1 \<longleftrightarrow> table_rel s1 ?t cols rows1 \<and> only_table ?t s s1 \<and>
      (\<exists>m1. trees_ok m1 (trees_of s1 ?t) \<and> m1 + k \<le> m + n) \<and> next_id rows1 + int k \<le> INT64_MAX \<and>
      data_size s1 ?t + int (k * L) \<le> INT64_MAX \<and> n \<le> length rows1 \<and>
      (\<forall>r < n. row_id (rows1 ! r) = row_id (rows ! r) \<and> row_vals (rows1 ! r) = row_vals (rows ! r))"
    for k :: nat and s1 rows1
  have step: "\<exists>s2. update_row cols ?as ?t r (shown ?names (rows1 ! r)) s1 = (Inr (), s2) \<and> R k s2 (replace_row g r rows1)"
    if R1: "R (Suc k) s1 rows1" and r: "r < length rows1" "r \<in> {..< n}" for k s1 rows1 r
  proof -
    obtain m1 where m1: "trees_ok m1 (trees_of s1 ?t)" "m1 + Suc k \<le> m + n" using R1 by (auto simp: R_def)
    have nv: "new_values cols ?as (rows1 ! r) = new_values cols ?as (rows ! r)"
      using R1 r by (intro new_values_cong) (auto simp: R_def)
    have "length (concat (new_values cols ?as (rows1 ! r))) \<le> L" using assms(8) r by (simp add: nv n_def)
    then have size: "data_size s1 ?t + int (length (concat (new_values cols ?as (rows1 ! r)))) + int (k * L) \<le> INT64_MAX"
      using R1 by (auto simp: R_def)
    have "m1 < MAX_KEYS" "next_id rows1 \<le> INT64_MAX" 
        "data_size s1 ?t + int (length (concat (new_values cols ?as (rows1 ! r)))) \<le> INT64_MAX"
    proof -
      show "m1 < MAX_KEYS" using m1(2) assms(3) by (simp add: n_def)
      show "next_id rows1 \<le> INT64_MAX" using R1 by (simp add: R_def)
      have "0 \<le> int (k * L)" by simp
      then show "data_size s1 ?t + int (length (concat (new_values cols ?as (rows1 ! r)))) \<le> INT64_MAX"
        using size by linarith
    qed
    then obtain s2 where s2: "update_row cols ?as ?t r (shown ?names (rows1 ! r)) s1 = (Inr (), s2)"
        "table_rel s2 ?t cols (replace_row g r rows1)" "trees_ok (Suc m1) (trees_of s2 ?t)"
        "data_size s2 ?t = data_size s1 ?t + int (length (concat (new_values cols ?as (rows1 ! r))))" "only_table ?t s1 s2"
      using update_row_rel [of s1 ?t cols rows1 r m1 ?as] R1 r(1) m1(1) assms(4) unfolding R_def g_def by blast
    have "next_id (replace_row g r rows1) = next_id rows1 + 1"
      using next_id_snoc [of "kill r rows1"] next_id_cong [OF kill_ids, of r rows1]
      by (simp add: replace_row_def g_def)
    moreover have "row_id (replace_row g r rows1 ! i) = row_id (rows1 ! i) \<and> row_vals (replace_row g r rows1 ! i) = row_vals (rows1 ! i)"
      if "i < length rows1" for i
      using that by (simp add: replace_row_def nth_append nth_kill)
    ultimately have "R k s2 (replace_row g r rows1)"
      unfolding R_def using R1 s2 m1(2) size only_table_trans
      by (intro conjI exI [of _ "Suc m1"] allI impI) (auto simp: R_def replace_row_def)
    then show ?thesis using s2(1) by blast
  qed
  have less: "R k s1 rows1" if "R (Suc k) s1 rows1" for k s1 rows1
    using that unfolding R_def by auto
  have R0: "R (length [0 ..< length rows]) s rows"
    using assms only_table_refl by (auto simp: R_def n_def)
  obtain s' where s': "visit_rows ?names ?wh ?t (update_row cols ?as ?t) [0 ..< length rows] s =
        (fst (visit_spec ?names ?wh g [0 ..< length rows] rows), s')"
      "R 0 s' (snd (visit_spec ?names ?wh g [0 ..< length rows] rows))"
  proof -
    have rel: "R k s1 rows1 \<Longrightarrow> table_rel s1 ?t cols rows1" for k s1 rows1 by (simp add: R_def)
    have N: "\<forall>r \<in> set [0 ..< length rows]. r < length rows" "set [0 ..< length rows] \<subseteq> {..< n}" by (auto simp: n_def)
    have "\<exists>s'. visit_rows ?names ?wh ?t (update_row cols ?as ?t) [0 ..< length rows] s =
        (fst (visit_spec ?names ?wh g [0 ..< length rows] rows), s') \<and>
        R 0 s' (snd (visit_spec ?names ?wh g [0 ..< length rows] rows))"
      by (rule visit_rows_spec [where R = R and N = "{..< n}"], erule rel, erule less, erule (2) step, rule R0, fact N, fact N)
    with that show thesis by blast
  qed
  obtain fi fd fx where ex: "st_files s (path_of s ?t ''.index'') = Some fi" "st_files s (path_of s ?t ''.data'') = Some fd"
      "st_files s (path_of s ?t ''.delete'') = Some fx"
    using table_relD(4) [OF assms(1), of "''.index''"] table_relD(4) [OF assms(1), of "''.data''"]
      table_relD(4) [OF assms(1), of "''.delete''"] by auto
  have np: "\<not> list_ex (\<lambda>(c, v). c = first_primary cols) ?as" using assms(6) by (force simp: list_ex_iff)
  have "handle_update stmt s = visit_rows ?names ?wh ?t (update_row cols ?as ?t) [0 ..< length rows] s"
    unfolding handle_update_def Let_def table_relD(1) [OF assms(1)] prod.case length_column_names table_rel_count [OF assms(1)]
    using np assms(5) by (simp add: ex)
  moreover have "trees_ok (m + n) (trees_of s' ?t)"
    using s'(2) tree_ok_mono by (fastforce simp: R_def trees_ok_def)
  ultimately show ?thesis using s' unfolding visit_spec_visited R_def g_def n_def by auto
qed


section \<open>Vacuum\<close>

abbreviation live_rows :: "stored list \<Rightarrow> stored list" where
  "live_rows rows \<equiv> filter (\<lambda>x. \<not> row_dead x) rows"

lemma vacuum_rel:
  assumes "table_rel s t cols rows"
  shows "\<exists>s'. vacuum_table (st_db s) t s = (Inr (), s') \<and> table_rel s' t cols (live_rows rows) \<and> only_table t s s' \<and>
    trees_of s' t = trees_of s t"
proof -
  define pi pd px where "pi = path_of s t ''.index''" and "pd = path_of s t ''.data''" and "px = path_of s t ''.delete''"
  have d: "pd \<noteq> pi" "px \<noteq> pi" "px \<noteq> pd" by (simp_all add: pi_def pd_def px_def)
  obtain fi fd fx where ex: "st_files s pi = Some fi" "st_files s pd = Some fd" "st_files s px = Some fx"
    using table_relD(4) [OF assms, of "''.index''"] table_relD(4) [OF assms, of "''.data''"]
      table_relD(4) [OF assms, of "''.delete''"] by (auto simp: pi_def pd_def px_def)
  have f: "table_files (length cols) rows (content s pi) (content s pd) (content s px)"
    using table_relD(3) [OF assms] by (simp add: pi_def pd_def px_def)
  have n: "0 < length cols" and b: "int (data_bytes rows) \<le> INT64_MAX" and ids: "ids_ok rows"
    using f by (auto simp: table_files_def)
  obtain idx dat del where v: "vacuum_rows (length cols) (content s pi) (content s pd) (content s px) [0 ..< length rows] ([], [], []) =
      Inr (idx, dat, del)" and f': "table_files (length cols) (live_rows rows) idx dat del"
    using vacuum_rows_spec [OF f _ table_empty [OF n], of 0] b ids by auto
  define s' where "s' = set_file px del (set_file pd dat (set_file pi idx s))"
  have cnt: "nat (row_count (length cols) (get_file_size s pi)) = length rows"
    using table_rel_count [OF assms] by (simp add: pi_def)
  have "vacuum_table (st_db s) t s = (Inr (), s')"
    unfolding vacuum_table_def Let_def pi_def [symmetric] pd_def [symmetric] px_def [symmetric]
      table_relD(1) [OF assms] prod.case cnt v
    by (simp add: ex s'_def)
  moreover have "table_rel s' t cols (live_rows rows)"
  proof -
    have c: "content s' pi = idx" "content s' pd = dat" "content s' px = del" "st_db s' = st_db s" "st_cache s' = st_cache s"
        "st_files s' pi = Some idx" "st_files s' pd = Some dat" "st_files s' px = Some del"
      using d by (simp_all add: s'_def)
    show ?thesis using assms f' c unfolding table_rel_def cached_def pi_def pd_def px_def by simp
  qed
  moreover have "only_table t s s'" by (auto simp: only_table_def s'_def pi_def pd_def px_def)
  moreover have "trees_of s' t = trees_of s t" by (simp add: s'_def)
  ultimately show ?thesis by blast
qed

lemma select_spec_live: "select_spec names wh (live_rows rows) = select_spec names wh rows"
  by (induction rows) simp_all

lemma select_spec_all: "select_spec names None rows = Inr (map (shown names) (live_rows rows))"
  by (induction rows) (simp_all add: evaluate_where_def)

section \<open>A row that is read back\<close>

lemma foldl_assign:
  "distinct (map fst ps) \<Longrightarrow> foldl (\<lambda>m (c, v). m(c \<mapsto> V_string v)) m ps c =
     (case map_of ps c of None \<Rightarrow> m c | Some v \<Rightarrow> Some (V_string v))"
proof (induction ps arbitrary: m)
  case (Cons p ps)
  obtain c1 v1 where p: "p = (c1, v1)" by fastforce
  have "c1 \<notin> fst ` set ps" using Cons.prems by (simp add: p)
  then have "map_of ps c1 = None" by (simp add: map_of_eq_None_iff)
  then show ?case using Cons by (simp add: p split: option.split)
qed simp

lemma shown_nth:
  assumes "distinct names" and "length names = Suc (length (row_vals x))" and "i < length names"
  shows "shown names x (names ! i) = Some (V_string ((show_int (row_id x) # row_vals x) ! i))"
proof -
  let ?ps = "zip names (show_int (row_id x) # row_vals x)"
  have "map_of ?ps (names ! i) = Some ((show_int (row_id x) # row_vals x) ! i)"
    using assms by (intro map_of_zip_nth) simp_all
  then show ?thesis using assms(1,2) by (simp add: row_of_def foldl_assign)
qed

lemma column_names_distinct: "schema_ok cols \<Longrightarrow> distinct (column_names cols)"
  unfolding schema_ok_def column_names_def using distinct_card [of "map co_name cols"] by (intro card_distinct) simp

lemma column_names_sorted: "schema_ok cols \<Longrightarrow> sorted_wrt string_less (column_names cols)"
  by (simp add: schema_ok_def column_names_def sorted_sort_by_name)

lemma sorted_names_facts:
  assumes "schema_ok cols"
  shows "sorted_wrt string_less (sorted_names cols)" and "set (sorted_names cols) = co_name ` set (non_primary cols)"
  using schema_counts(3) [OF assms] by (simp_all add: sorted_names_def sorted_sort_by_name)

text \<open>The sorted columns are the sorted columns but the key, with the key in its place.\<close>

lemma column_names_key:
  assumes "schema_ok cols"
  obtains i where "i < length cols" "column_names cols ! i = first_primary cols"
    "sorted_names cols = take i (column_names cols) @ drop (Suc i) (column_names cols)"
proof -
  let ?ns = "column_names cols" and ?k = "first_primary cols"
  have set: "set ?ns = insert ?k (co_name ` set (non_primary cols))"
    using schema_counts(4) [OF assms] by (simp add: column_names_def)
  then obtain i where i: "i < length ?ns" "?ns ! i = ?k" by (metis in_set_conv_nth insertI1)
  have d: "distinct ?ns" by (rule column_names_distinct [OF assms])
  have split: "?ns = take i ?ns @ ?k # drop (Suc i) ?ns" using i by (metis id_take_nth_drop)
  have k: "?k \<notin> set (take i ?ns @ drop (Suc i) ?ns)" using d by (subst (asm) split) auto
  have "sorted_wrt string_less (take i ?ns @ drop (Suc i) ?ns)"
    using column_names_sorted [OF assms] by (subst (asm) split) (auto simp: sorted_wrt_append)
  moreover have "set (take i ?ns @ drop (Suc i) ?ns) = set ?ns - {?k}"
    using arg_cong [OF split, of set] k by auto
  moreover have "set ?ns - {?k} = co_name ` set (non_primary cols)" using set schema_counts(3) [OF assms] by auto
  ultimately have "take i ?ns @ drop (Suc i) ?ns = sorted_names cols"
    using sorted_names_unique sorted_names_facts [OF assms] by metis
  then show thesis using that i by simp
qed

lemma column_names_first:
  assumes "schema_ok cols" and "\<forall>c \<in> set (non_primary cols). string_less (first_primary cols) (co_name c)"
  shows "column_names cols = first_primary cols # sorted_names cols"
proof (rule sorted_names_unique)
  show "sorted_wrt string_less (column_names cols)" by (rule column_names_sorted [OF assms(1)])
  show "sorted_wrt string_less (first_primary cols # sorted_names cols)"
    using sorted_names_facts [OF assms(1)] assms(2) by auto
  show "set (column_names cols) = set (first_primary cols # sorted_names cols)"
    using schema_counts(4) [OF assms(1)] sorted_names_facts(2) [OF assms(1)] by (simp add: column_names_def)
qed

text \<open>The value an INSERT gives for a column is at the place of the column among the sorted ones.\<close>

lemma given_values_nth:
  assumes "length (ins_columns stmt) = length (ins_values stmt)" and "distinct (ins_columns stmt)"
    and "j < length (ins_columns stmt)"
  shows "map_of (zip (ins_columns stmt) (ins_values stmt)) (sort_by_name (\<lambda>c. c) (ins_columns stmt) ! j) =
    Some (given_values stmt ! j)"
proof -
  have l: "length (given_columns stmt) = length (ins_columns stmt)" using assms(1) by (simp add: given_columns_def)
  have "given_columns stmt ! j \<in> set (zip (ins_columns stmt) (ins_values stmt))"
    using nth_mem [of j "given_columns stmt"] l assms(3) by (simp add: given_columns_def)
  then have "map_of (zip (ins_columns stmt) (ins_values stmt)) (fst (given_columns stmt ! j)) = Some (snd (given_columns stmt ! j))"
    using assms(1,2) by simp
  then show ?thesis
    using assms(3) l by (simp add: given_columns_names [OF assms(1), symmetric] given_values_def)
qed

end
