(* ===== verification/Table_Props.thy ===== *)
theory Table_Props
  imports Table_Changes
begin

text \<open>The properties of the table storage, with witnesses on a table \<open>t\<close> of a database \<open>d\<close>.\<close>

section \<open>Tables for the witnesses\<close>

definition mk_column :: "string \<Rightarrow> bool \<Rightarrow> column" where
  "mk_column nm primary = \<lparr>co_type = ''int'', co_name = nm, co_constraint = [], co_precision = 0, co_autoIncrement = False,
     co_isUnique = False, co_isPrimary = primary, co_createIndex = False, co_length = INT32_MAX\<rparr>"

definition fresh_table :: "column list \<Rightarrow> store" where
  "fresh_table cols = \<lparr>st_files = [table_path ''d'' ''t'' ''.index'' \<mapsto> [], table_path ''d'' ''t'' ''.data'' \<mapsto> [],
       table_path ''d'' ''t'' ''.delete'' \<mapsto> []],
     st_db = ''d'', st_cache = [''d'' \<mapsto> [''t'' \<mapsto> (''-1'', cols)]], st_trees = (\<lambda>_ _. [(''id'', Int_Tree empty_tree)])\<rparr>"

lemma mk_column_sel [simp]: "co_name (mk_column nm p) = nm" "co_isPrimary (mk_column nm p) = p" "co_isUnique (mk_column nm p) = False"
  by (simp_all add: mk_column_def)

lemma fresh_table_rel: "schema_ok cols \<Longrightarrow> table_rel (fresh_table cols) ''t'' cols []"
proof -
  assume s: "schema_ok cols"
  then have "0 < length cols" by (auto simp: schema_ok_def)
  then show ?thesis using s table_empty [of "length cols"]
    by (simp add: table_rel_def cached_def fresh_table_def plain_def content_def)
qed

lemma fresh_table_trees: "trees_ok 0 (trees_of (fresh_table cols) ''t'')"
  using asks.bp_empty by (auto simp: trees_ok_def fresh_table_def empty_tree_def)

lemma fresh_table_size: "data_size (fresh_table cols) ''t'' = 0"
  by (simp add: data_size_def get_file_size_def content_def fresh_table_def)

text \<open>Two schemas: in the first the primary key comes first in alphabetical order, in the second it does not.\<close>

definition people :: "column list" where
  "people = [mk_column ''id'' True, mk_column ''name'' False, mk_column ''mail'' False]"

definition ages :: "column list" where
  "ages = [mk_column ''id'' True, mk_column ''age'' False]"

lemma schemas: "schema_ok people" "schema_ok ages"
  by (simp_all add: schema_ok_def people_def ages_def)

lemma people_names:
  "column_names people = [''id'', ''mail'', ''name'']" "sorted_names people = [''mail'', ''name'']"
  "first_primary people = ''id''" "map co_name (non_primary people) = [''name'', ''mail'']"
  by (simp_all add: people_def column_names_def sorted_names_def sort_by_name_def non_primary_def first_primary_def)

lemma ages_names:
  "column_names ages = [''age'', ''id'']" "sorted_names ages = [''age'']" "first_primary ages = ''id''"
  by (simp_all add: ages_def column_names_def sorted_names_def sort_by_name_def non_primary_def first_primary_def)

definition insert_ann :: insert_statement where
  "insert_ann = \<lparr>ins_table = ''t'', ins_columns = [''name'', ''mail''], ins_values = [''Ann'', ''a@b'']\<rparr>"

definition insert_age :: insert_statement where
  "insert_age = \<lparr>ins_table = ''t'', ins_columns = [''age''], ins_values = [''30'']\<rparr>"

lemma insert_ann_sel [simp]: "ins_table insert_ann = ''t''" "ins_columns insert_ann = [''name'', ''mail'']"
    "ins_values insert_ann = [''Ann'', ''a@b'']" "given_values insert_ann = [''a@b'', ''Ann'']"
  by (simp_all add: insert_ann_def given_values_def given_columns_def sort_by_name_def)

lemma insert_age_sel [simp]: "ins_table insert_age = ''t''" "ins_columns insert_age = [''age'']"
    "ins_values insert_age = [''30'']" "given_values insert_age = [''30'']"
  by (simp_all add: insert_age_def given_values_def given_columns_def sort_by_name_def)

lemma sort_given: "sort_by_name (\<lambda>c. c) [''name'', ''mail''] = sorted_names people" "sort_by_name (\<lambda>c. c) [''age''] = sorted_names ages"
  by (simp_all add: people_names ages_names sort_by_name_def)

lemma after_insert:
  assumes "schema_ok cols" and "ins_table stmt = ''t''" and "length (ins_columns stmt) = length (ins_values stmt)"
    and "sort_by_name (\<lambda>c. c) (ins_columns stmt) = sorted_names cols" and "ins_columns stmt \<noteq> []"
    and "int (length (concat (ins_values stmt))) \<le> INT64_MAX"
  obtains s where "generate_insert stmt (fresh_table cols) = (Inr (), s)" "table_rel s ''t'' cols [(1, given_values stmt, False)]"
    "trees_ok 1 (trees_of s ''t'')" "data_size s ''t'' = int (length (concat (ins_values stmt)))" "st_db s = ''d''"
proof -
  let ?s = "fresh_table cols"
  have n: "next_id [] = 1" by (simp add: next_id_def)
  obtain s nd data where s: "generate_insert stmt ?s = (Inr (), s)" "table_rel s ''t'' cols ([] @ [(next_id [], given_values stmt, False)])"
      "data_size s ''t'' = data_size ?s ''t'' + int (length (concat (ins_values stmt)))"
      "trees_of s ''t'' = index_row (first_primary cols) (next_id []) nd data (trees_of ?s ''t'')"
      "map fst data = sorted_names cols" "only_table ''t'' ?s s"
    using generate_insert_rel [of ?s stmt cols "[]"] fresh_table_rel [OF assms(1)] assms fresh_table_size [of cols]
    by (auto simp: n int_limits)
  have "distinct (first_primary cols # map fst data)"
    using schema_counts(3) [OF assms(1)] sorted_names_facts [OF assms(1)] s(5) strings.lt_irrefl
    by (metis distinct.simps(2) distinct_map length_map length_sort_by_name list.set_map card_distinct distinct_card sorted_names_def)
  then have "trees_ok (Suc 0) (trees_of s ''t'')"
    using index_row_ok [OF fresh_table_trees [of cols], of "first_primary cols" data "next_id []" nd]
    by (simp add: s(4) degree_values)
  moreover have "st_db s = ''d''" using only_table_db [OF s(6)] by (simp add: fresh_table_def)
  ultimately show thesis using that s(1,2,3) by (simp add: n fresh_table_size)
qed

lemma ann_inserted:
  obtains s where "generate_insert insert_ann (fresh_table people) = (Inr (), s)"
    "table_rel s ''t'' people [(1, [''a@b'', ''Ann''], False)]" "trees_ok 1 (trees_of s ''t'')" "data_size s ''t'' = 6"
    "st_db s = ''d''"
proof -
  obtain s where "generate_insert insert_ann (fresh_table people) = (Inr (), s)"
      "table_rel s ''t'' people [(1, given_values insert_ann, False)]" "trees_ok 1 (trees_of s ''t'')"
      "data_size s ''t'' = int (length (concat (ins_values insert_ann)))" "st_db s = ''d''"
    using after_insert [OF schemas(1), of insert_ann] sort_given(1) by (simp add: int_limits) metis
  then show thesis using that by simp
qed

section \<open>INSERT and SELECT\<close>

lemma select_spec_closed:
  "select_spec names wh rows = bindE (outcome names wh rows) (\<lambda>_. Inr (map (shown names) (filter (hit names wh) rows)))"
proof (induction rows)
  case (Cons x rows)
  show ?case
  proof (cases "fails names wh x")
    case True
    then show ?thesis by (auto simp: outcome_def fails_def)
  next
    case False
    then have "outcome names wh (x # rows) = outcome names wh rows" by (simp add: outcome_def)
    moreover have "row_dead x \<or> (\<exists>b. evaluate_where wh (shown names x) = Inr b)"
      using False by (cases "evaluate_where wh (shown names x)") (auto simp: fails_def)
    ultimately show ?thesis using Cons by (cases "outcome names wh rows") (auto simp: hit_def)
  qed
qed (simp add: outcome_def)

definition json_table :: "(string list \<Rightarrow> string list) \<Rightarrow> column list \<Rightarrow> row list \<Rightarrow> string" where
  "json_table iter cols rs = ''['' @ joined '','' (map (json_row iter (column_names cols)) rs) @ '']''"

text \<open>
  C17. An INSERT that names every column but the key, in any order, appends one row to the table: the next id and
  the values in the order of the sorted columns; nothing else of the store changes. With any other columns
  it throws and changes nothing.
\<close>

theorem insert_refines:
  assumes "table_rel s (ins_table stmt) cols rows" and "length (ins_columns stmt) = length (ins_values stmt)"
    and "ins_columns stmt \<noteq> []" and "next_id rows \<le> INT64_MAX"
    and "data_size s (ins_table stmt) + int (length (concat (ins_values stmt))) \<le> INT64_MAX"
  shows "if sort_by_name (\<lambda>c. c) (ins_columns stmt) = sorted_names cols
    then \<exists>s'. generate_insert stmt s = (Inr (), s') \<and> only_table (ins_table stmt) s s' \<and>
      table_rel s' (ins_table stmt) cols (rows @ [(next_id rows, given_values stmt, False)])
    else \<exists>m. generate_insert stmt s = (Inl (Throw m), s)"
  using generate_insert_rel [OF assms(1,2) _ assms(3,5,4)] generate_insert_wrong [OF assms(1,2)] by auto

lemma insert_refines_witness:
  "(\<exists>s'. generate_insert insert_ann (fresh_table people) = (Inr (), s') \<and>
      table_rel s' ''t'' people [(1, [''a@b'', ''Ann''], False)]) \<and>
   (\<exists>m. generate_insert insert_age (fresh_table people) = (Inl (Throw m), fresh_table people))"
proof
  note f = fresh_table_rel [OF schemas(1)]
  have n: "next_id [] = 1" by (simp add: next_id_def)
  show "\<exists>s'. generate_insert insert_ann (fresh_table people) = (Inr (), s') \<and>
      table_rel s' ''t'' people [(1, [''a@b'', ''Ann''], False)]"
    using insert_refines [of "fresh_table people" insert_ann people "[]"] f
    by (auto simp: n sort_given fresh_table_size int_limits)
  show "\<exists>m. generate_insert insert_age (fresh_table people) = (Inl (Throw m), fresh_table people)"
    using insert_refines [of "fresh_table people" insert_age people "[]"] f
    by (auto simp: n sort_given people_names ages_names fresh_table_size int_limits)
qed

text \<open>
  C18. SELECT prints, in the order of insertion, the rows that are not deleted and satisfy the condition, or gives
  the error of the first row on which the condition throws. It changes nothing.
\<close>

theorem select_refines:
  assumes "table_rel s (sel_table stmt) cols rows"
  shows "handle_select iter stmt s =
    (bindE (outcome (column_names cols) (sel_where stmt) rows) (\<lambda>_.
       Inr (json_table iter cols (map (shown (column_names cols)) (filter (hit (column_names cols) (sel_where stmt)) rows)))), s)"
  unfolding handle_select_rel [OF assms] select_spec_closed
  by (cases "outcome (column_names cols) (sel_where stmt) rows") (simp_all add: json_table_def)

definition select_all :: select_statement where
  "select_all = \<lparr>sel_columns = [''*''], sel_table = ''t'', sel_where = None, sel_limit = None\<rparr>"

lemma select_all_sel [simp]: "sel_table select_all = ''t''" "sel_where select_all = None"
  by (simp_all add: select_all_def)

lemma hit_none [simp]: "hit names None x = (\<not> row_dead x)"
  by (simp add: hit_def evaluate_where_def)

lemma outcome_none [simp]: "outcome names None rows = Inr ()"
proof -
  have "\<not> fails names None x" for x by (simp add: fails_def evaluate_where_def)
  then have "dropWhile (\<lambda>x. \<not> fails names None x) rows = []" by simp
  then show ?thesis by (simp only: outcome_def list.case)
qed

lemma show_1: "show_int 1 = ''1''"
  by code_simp

lemma select_refines_witness:
  "\<exists>s. generate_insert insert_ann (fresh_table people) = (Inr (), s) \<and>
     handle_select (\<lambda>names. names) select_all s = (Inr ''[{\"id\":\"1\",\"mail\":\"a@b\",\"name\":\"Ann\"}]'', s)"
proof -
  obtain s where s: "generate_insert insert_ann (fresh_table people) = (Inr (), s)"
      "table_rel s ''t'' people [(1, [''a@b'', ''Ann''], False)]"
    by (rule ann_inserted)
  show ?thesis
    using s select_refines [of s select_all people "[(1, [''a@b'', ''Ann''], False)]" "\<lambda>names. names"]
    by (intro exI [of _ s]) (simp add: json_table_def json_row_def row_of_def people_names show_1)
qed

section \<open>Reading back what was inserted\<close>

lemma inserted_columns_distinct:
  assumes "schema_ok cols" and "sort_by_name (\<lambda>c. c) (ins_columns stmt) = sorted_names cols"
  shows "distinct (ins_columns stmt)"
proof -
  have s: "set (ins_columns stmt) = co_name ` set (non_primary cols)"
    using arg_cong [OF assms(2), of set] sorted_names_facts(2) [OF assms(1)] by simp
  have l: "length (ins_columns stmt) = length (map co_name (non_primary cols))"
    using arg_cong [OF assms(2), of length] by (simp add: sorted_names_def)
  have "distinct (map co_name (non_primary cols))" using schema_counts(3) [OF assms(1)] by simp
  then have "card (set (ins_columns stmt)) = length (ins_columns stmt)"
    using s l distinct_card [of "map co_name (non_primary cols)"] by simp
  then show ?thesis by (rule card_distinct)
qed

text \<open>The row an INSERT stores shows the id under the first name and the value of the \<open>j\<close>-th sorted column under the next one.\<close>

lemma inserted_row_shown:
  fixes rid :: int
  defines "r \<equiv> \<lambda>cols stmt. shown (column_names cols) (rid, given_values stmt, False)"
  assumes "schema_ok cols" and "length (ins_columns stmt) = length (ins_values stmt)"
    and "sort_by_name (\<lambda>c. c) (ins_columns stmt) = sorted_names cols"
  shows "r cols stmt (column_names cols ! 0) = Some (V_string (show_int rid))"
    and "j < length (sorted_names cols) \<Longrightarrow> r cols stmt (column_names cols ! Suc j) =
      map_option V_string (map_of (zip (ins_columns stmt) (ins_values stmt)) (sorted_names cols ! j))"
proof -
  have d: "distinct (column_names cols)" by (rule column_names_distinct [OF assms(2)])
  have l: "length (given_values stmt) = length (ins_columns stmt)"
    using assms(3) by (simp add: given_values_def given_columns_def)
  have ls: "length (ins_columns stmt) = length (sorted_names cols)" using arg_cong [OF assms(4), of length] by simp
  have lc: "length (column_names cols) = Suc (length (sorted_names cols))"
    using schema_counts(1) [OF assms(2)] by (simp add: sorted_names_def)
  have nth: "shown (column_names cols) (rid, given_values stmt, False) (column_names cols ! k) =
      Some (V_string ((show_int rid # given_values stmt) ! k))" if "k < Suc (length (sorted_names cols))" for k
    using shown_nth [where names = "column_names cols" and x = "(rid, given_values stmt, False)" and i = k] d l ls lc that by simp
  show "r cols stmt (column_names cols ! 0) = Some (V_string (show_int rid))" using nth [of 0] by (simp add: r_def)
  assume j: "j < length (sorted_names cols)"
  have "map_of (zip (ins_columns stmt) (ins_values stmt)) (sorted_names cols ! j) = Some (given_values stmt ! j)"
    using given_values_nth [where stmt = stmt and j = j] inserted_columns_distinct [OF assms(2,4)] assms(3,4) ls j by simp
  then show "r cols stmt (column_names cols ! Suc j) =
      map_option V_string (map_of (zip (ins_columns stmt) (ins_values stmt)) (sorted_names cols ! j))"
    using nth [of "Suc j"] j by (simp add: r_def)
qed

lemma insert_then_select:
  assumes "table_rel s (ins_table stmt) cols rows" and "length (ins_columns stmt) = length (ins_values stmt)"
    and "sort_by_name (\<lambda>c. c) (ins_columns stmt) = sorted_names cols" and "ins_columns stmt \<noteq> []"
    and "next_id rows \<le> INT64_MAX"
    and "data_size s (ins_table stmt) + int (length (concat (ins_values stmt))) \<le> INT64_MAX"
    and "sel_table sel = ins_table stmt" and "sel_where sel = None"
  shows "\<exists>s'. generate_insert stmt s = (Inr (), s') \<and> handle_select iter sel s' =
    (Inr (json_table iter cols (map (shown (column_names cols)) (live_rows rows) @
       [shown (column_names cols) (next_id rows, given_values stmt, False)])), s')"
proof -
  obtain s' where s': "generate_insert stmt s = (Inr (), s')"
      "table_rel s' (sel_table sel) cols (rows @ [(next_id rows, given_values stmt, False)])"
    using generate_insert_rel [OF assms(1-4,6,5)] assms(7) by auto
  show ?thesis
    using s'(1) handle_select_rel [OF s'(2), of iter]
    by (simp add: assms(8) select_spec_all json_table_def)
qed

text \<open>
  Round trip: when the key comes first in alphabetical order, a SELECT after an INSERT prints the rows it printed
  before and one more, which has the next id under the key and the value of the INSERT under every other column.
\<close>

theorem insert_select_roundtrip:
  assumes "table_rel s (ins_table stmt) cols rows" and "length (ins_columns stmt) = length (ins_values stmt)"
    and "sort_by_name (\<lambda>c. c) (ins_columns stmt) = sorted_names cols" and "ins_columns stmt \<noteq> []"
    and "next_id rows \<le> INT64_MAX"
    and "data_size s (ins_table stmt) + int (length (concat (ins_values stmt))) \<le> INT64_MAX"
    and "sel_table sel = ins_table stmt" and "sel_where sel = None"
    and "\<forall>c \<in> set (non_primary cols). string_less (first_primary cols) (co_name c)"
  shows "\<exists>s' r. generate_insert stmt s = (Inr (), s') \<and>
    handle_select iter sel s' = (Inr (json_table iter cols (map (shown (column_names cols)) (live_rows rows) @ [r])), s') \<and>
    r (first_primary cols) = Some (V_string (show_int (next_id rows))) \<and>
    (\<forall>c v. (c, v) \<in> set (zip (ins_columns stmt) (ins_values stmt)) \<longrightarrow> r c = Some (V_string v))"
proof -
  let ?r = "shown (column_names cols) (next_id rows, given_values stmt, False)"
  have sch: "schema_ok cols" by (rule table_relD(2) [OF assms(1)])
  have names: "column_names cols = first_primary cols # sorted_names cols" by (rule column_names_first [OF sch assms(9)])
  obtain s' where s': "generate_insert stmt s = (Inr (), s')"
      "handle_select iter sel s' = (Inr (json_table iter cols (map (shown (column_names cols)) (live_rows rows) @ [?r])), s')"
    using insert_then_select [OF assms(1-8), of iter] by blast
  have d: "distinct (ins_columns stmt)" by (rule inserted_columns_distinct [OF sch assms(3)])
  have key: "?r (first_primary cols) = Some (V_string (show_int (next_id rows)))"
    using inserted_row_shown(1) [OF sch assms(2,3), of "next_id rows"] by (simp add: names)
  have val: "?r c = Some (V_string v)" if cv: "(c, v) \<in> set (zip (ins_columns stmt) (ins_values stmt))" for c v
  proof -
    have "c \<in> set (sorted_names cols)" using set_zip_leftD [OF cv] arg_cong [OF assms(3), of set] by simp
    then obtain j where j: "j < length (sorted_names cols)" "sorted_names cols ! j = c" by (metis in_set_conv_nth)
    show ?thesis
      using inserted_row_shown(2) [OF sch assms(2,3) j(1), of "next_id rows"] j(2) cv d assms(2)
      by (simp add: names)
  qed
  show ?thesis using s' key val by blast
qed

lemma insert_select_roundtrip_witness:
  "\<exists>s r. generate_insert insert_ann (fresh_table people) = (Inr (), s) \<and>
     handle_select (\<lambda>names. names) select_all s = (Inr (json_table (\<lambda>names. names) people [r]), s) \<and>
     r ''id'' = Some (V_string ''1'') \<and> r ''mail'' = Some (V_string ''a@b'') \<and> r ''name'' = Some (V_string ''Ann'')"
proof -
  have n: "next_id [] = 1" by (simp add: next_id_def)
  have "\<forall>c \<in> set (non_primary people). string_less (first_primary people) (co_name c)"
    unfolding people_names by (simp add: people_def non_primary_def)
  then obtain s r where sr: "generate_insert insert_ann (fresh_table people) = (Inr (), s)"
      "handle_select (\<lambda>names. names) select_all s = (Inr (json_table (\<lambda>names. names) people [r]), s)"
      "r ''id'' = Some (V_string ''1'')"
      "\<forall>c v. (c, v) \<in> set (zip (ins_columns insert_ann) (ins_values insert_ann)) \<longrightarrow> r c = Some (V_string v)"
    using insert_select_roundtrip [of "fresh_table people" insert_ann people "[]" select_all "\<lambda>names. names"]
      fresh_table_rel [OF schemas(1)]
    by (auto simp: n show_1 sort_given people_names fresh_table_size int_limits)
  have "r ''mail'' = Some (V_string ''a@b'')" "r ''name'' = Some (V_string ''Ann'')" using sr(4) by simp_all
  then show ?thesis using sr(1-3) by blast
qed

text \<open>
  SELECT takes the name that is first in alphabetical order for the key. When it is not, the columns up to the key
  are shifted by one: the first shows the id, and each of the following ones up to the key, the key included, shows the
  value inserted for the column before it.
\<close>

theorem key_shifted:
  assumes "table_rel s (ins_table stmt) cols rows" and "length (ins_columns stmt) = length (ins_values stmt)"
    and "sort_by_name (\<lambda>c. c) (ins_columns stmt) = sorted_names cols" and "ins_columns stmt \<noteq> []"
    and "next_id rows \<le> INT64_MAX"
    and "data_size s (ins_table stmt) + int (length (concat (ins_values stmt))) \<le> INT64_MAX"
    and "sel_table sel = ins_table stmt" and "sel_where sel = None"
    and "i < length cols" and "column_names cols ! i = first_primary cols"
  shows "\<exists>s' r. generate_insert stmt s = (Inr (), s') \<and>
    handle_select iter sel s' = (Inr (json_table iter cols (map (shown (column_names cols)) (live_rows rows) @ [r])), s') \<and>
    r (column_names cols ! 0) = Some (V_string (show_int (next_id rows))) \<and>
    (\<forall>j < i. r (column_names cols ! Suc j) =
       map_option V_string (map_of (zip (ins_columns stmt) (ins_values stmt)) (column_names cols ! j)))"
proof -
  let ?ns = "column_names cols" and ?r = "shown (column_names cols) (next_id rows, given_values stmt, False)"
  have sch: "schema_ok cols" by (rule table_relD(2) [OF assms(1)])
  obtain k where k: "k < length cols" "?ns ! k = first_primary cols" "sorted_names cols = take k ?ns @ drop (Suc k) ?ns"
    by (rule column_names_key [OF sch])
  have ik: "i = k"
    using nth_eq_iff_index_eq [OF column_names_distinct [OF sch], of i k] k assms(9,10) by simp
  obtain s' where s': "generate_insert stmt s = (Inr (), s')"
      "handle_select iter sel s' = (Inr (json_table iter cols (map (shown ?ns) (live_rows rows) @ [?r])), s')"
    using insert_then_select [OF assms(1-8), of iter] by blast
  have "?r (?ns ! Suc j) = map_option V_string (map_of (zip (ins_columns stmt) (ins_values stmt)) (?ns ! j))" if "j < i" for j
  proof -
    have "sorted_names cols ! j = ?ns ! j" "j < length (sorted_names cols)"
      using that k(1) unfolding ik k(3) by (simp_all add: nth_append)
    then show ?thesis using inserted_row_shown(2) [OF sch assms(2,3), of j "next_id rows"] by simp
  qed
  then show ?thesis using s' inserted_row_shown(1) [OF sch assms(2,3), of "next_id rows"] by blast
qed

lemma key_shifted_witness:
  "\<exists>s r. generate_insert insert_age (fresh_table ages) = (Inr (), s) \<and>
     handle_select (\<lambda>names. names) select_all s = (Inr (json_table (\<lambda>names. names) ages [r]), s) \<and>
     r ''age'' = Some (V_string ''1'') \<and> r ''id'' = Some (V_string ''30'')"
proof -
  have n: "next_id [] = 1" by (simp add: next_id_def)
  have l: "Suc 0 < length ages" "sort_by_name (\<lambda>c. c) (ins_columns insert_age) = sorted_names ages"
    using sort_given(2) by (simp_all add: ages_def)
  show ?thesis
    using key_shifted [of "fresh_table ages" insert_age ages "[]" select_all "Suc 0" "\<lambda>names. names"] l
      fresh_table_rel [OF schemas(2)]
    by (auto simp: n show_1 ages_names fresh_table_size int_limits)
qed

section \<open>DELETE and UPDATE\<close>

text \<open>
  C19. DELETE marks the live rows that satisfy the condition, up to the first row on which the condition throws, and
  gives that error; ids, values and the other rows stay. Only the files and the trees of its table change, and of the trees
  only those of texts: a tree of integers keeps the entries of the deleted rows, as its branch of the removal is not compiled
  on the platform of the program (\<open>remove_text\<close>). The hypothesis \<open>trees_ok m\<close> says that the index trees are ordered and
  balanced and that each tree of texts is a single leaf (removal from a larger one can fail, see C16).
\<close>

theorem delete_refines:
  assumes "table_rel s (del_table stmt) cols rows" and "trees_ok m (trees_of s (del_table stmt))" and "del_where stmt = wh"
  shows "let pre = reached (column_names cols) wh rows in
    \<exists>s'. handle_delete stmt s = (outcome (column_names cols) wh rows, s') \<and> only_table (del_table stmt) s s' \<and>
    int_trees_kept (trees_of s (del_table stmt)) (trees_of s' (del_table stmt)) \<and>
    table_rel s' (del_table stmt) cols (map (marked (column_names cols) wh) pre @ drop (length pre) rows)"
proof -
  define pre where "pre = reached (column_names cols) wh rows"
  have "visited (column_names cols) wh (\<lambda>_. None) rows = map (marked (column_names cols) wh) pre @ drop (length pre) rows"
    by (simp add: visited_def Let_def pre_def map_filter_def)
  then show ?thesis using handle_delete_rel [OF assms(1,2)] assms(3) by (auto simp: Let_def pre_def)
qed

definition id_is_1 :: expr where
  "id_is_1 = Comparison (Identifier ''id'') C_EQUAL (IntLiteral 1)"

definition delete_1 :: delete_statement where
  "delete_1 = \<lparr>del_table = ''t'', del_where = Some id_is_1\<rparr>"

lemma delete_1_sel [simp]: "del_table delete_1 = ''t''" "del_where delete_1 = Some id_is_1"
  by (simp_all add: delete_1_def)

lemma ann_hit: "evaluate_where (Some id_is_1) (shown [''id'', ''mail'', ''name''] (1, [''a@b'', ''Ann''], False)) = Inr True"
  by code_simp

lemma ann_reached [simp]:
  "hit (column_names people) (Some id_is_1) (1, [''a@b'', ''Ann''], False)"
  "reached (column_names people) (Some id_is_1) [(1, [''a@b'', ''Ann''], False)] = [(1, [''a@b'', ''Ann''], False)]"
  "outcome (column_names people) (Some id_is_1) [(1, [''a@b'', ''Ann''], False)] = Inr ()"
  using ann_hit by (simp_all add: people_names hit_def reached_def outcome_def fails_def)

lemma delete_refines_witness:
  "\<exists>s s'. generate_insert insert_ann (fresh_table people) = (Inr (), s) \<and> handle_delete delete_1 s = (Inr (), s') \<and>
     table_rel s' ''t'' people [(1, [''a@b'', ''Ann''], True)]"
proof -
  obtain s where s: "generate_insert insert_ann (fresh_table people) = (Inr (), s)"
      "table_rel s ''t'' people [(1, [''a@b'', ''Ann''], False)]" "trees_ok 1 (trees_of s ''t'')"
    by (rule ann_inserted)
  show ?thesis
    using s(1) delete_refines [of s delete_1 people "[(1, [''a@b'', ''Ann''], False)]" 1 "Some id_is_1"] s(2,3)
    by (auto simp: marked_def)
qed

text \<open>
  C20. UPDATE marks the same rows as DELETE would and appends, in their order, one new row for each with the next ids and
  the new values; rows it appends are not visited again. As in C19, the index trees are ordered and balanced and each tree of
  texts is a single leaf, with room for one more entry per row; ids and offsets stay below \<open>2 ^ 63\<close>, the primary key is not
  assigned and there is a column besides it.
\<close>

theorem update_refines:
  assumes "table_rel s (upd_table stmt) cols rows" and "trees_ok m (trees_of s (upd_table stmt))"
    and "m + length rows \<le> MAX_KEYS" and "non_primary cols \<noteq> []" and "st_db s \<noteq> []"
    and "first_primary cols \<notin> fst ` set (upd_assignments stmt)" and "next_id rows + int (length rows) \<le> INT64_MAX"
    and "\<forall>x \<in> set rows. length (concat (new_values cols (upd_assignments stmt) x)) \<le> L"
    and "data_size s (upd_table stmt) + int (length rows * L) \<le> INT64_MAX" and "wh = Some (upd_where stmt)"
  shows "let pre = reached (column_names cols) wh rows in
    \<exists>s'. handle_update stmt s = (outcome (column_names cols) wh rows, s') \<and> only_table (upd_table stmt) s s' \<and>
    table_rel s' (upd_table stmt) cols (map (marked (column_names cols) wh) pre @ drop (length pre) rows @
      fresh_rows (next_id rows)
        (map (new_values cols (upd_assignments stmt)) (filter (hit (column_names cols) wh) pre)))"
proof -
  define pre where "pre = reached (column_names cols) wh rows"
  have "visited (column_names cols) wh (\<lambda>x. Some (new_values cols (upd_assignments stmt) x)) rows =
      map (marked (column_names cols) wh) pre @ drop (length pre) rows @ fresh_rows (next_id rows)
        (map (new_values cols (upd_assignments stmt)) (filter (hit (column_names cols) wh) pre))"
    by (simp add: visited_def Let_def pre_def map_filter_def comp_def)
  then show ?thesis using handle_update_rel [OF assms(1-9)] assms(10) by (auto simp: Let_def pre_def)
qed

definition rename_1 :: update_statement where
  "rename_1 = \<lparr>upd_table = ''t'', upd_assignments = [(''name'', ''Bob'')], upd_where = id_is_1\<rparr>"

lemma rename_1_sel [simp]: "upd_table rename_1 = ''t''" "upd_assignments rename_1 = [(''name'', ''Bob'')]" "upd_where rename_1 = id_is_1"
  by (simp_all add: rename_1_def)

lemma bob_values: "new_values people [(''name'', ''Bob'')] (1, [''a@b'', ''Ann''], False) = [''Bob'', ''a@b'']"
  unfolding new_values_def people_names
  by (simp add: reinserted_def people_def non_primary_def assign_all_def row_of_def)

lemma update_refines_witness:
  "\<exists>s s'. generate_insert insert_ann (fresh_table people) = (Inr (), s) \<and> handle_update rename_1 s = (Inr (), s') \<and>
     table_rel s' ''t'' people [(1, [''a@b'', ''Ann''], True), (2, [''Bob'', ''a@b''], False)]"
proof -
  obtain s where s: "generate_insert insert_ann (fresh_table people) = (Inr (), s)"
      "table_rel s ''t'' people [(1, [''a@b'', ''Ann''], False)]" "trees_ok 1 (trees_of s ''t'')" "data_size s ''t'' = 6" "st_db s = ''d''"
    by (rule ann_inserted)
  have "non_primary people \<noteq> []" by (simp add: people_def non_primary_def)
  moreover have "next_id [(1, [''a@b'', ''Ann''], False)] = 2" by (simp add: next_id_def)
  ultimately show ?thesis
    using s(1) update_refines [of s rename_1 people "[(1, [''a@b'', ''Ann''], False)]" 1 6 "Some id_is_1"] s(2-5)
    by (auto simp: marked_def bob_values people_names(3) int_limits degree_values)
qed

lemma fresh_rows_nth: "j < length vss \<Longrightarrow> fresh_rows i vss ! j = (i + int j, vss ! j, False)"
proof (induction vss arbitrary: i j)
  case (Cons vs vss)
  then show ?case by (cases j) auto
qed simp

lemma length_fresh_rows: "length (fresh_rows i vss) = length vss"
  by (induction vss arbitrary: i) simp_all

lemma assign_all_string:
  assumes "\<exists>v. r c = Some (V_string v)"
  shows "\<exists>v. assign_all as r c = Some (V_string v)"
  using assms
proof (induction as arbitrary: r)
  case (Cons a as)
  obtain c1 v1 where a: "a = (c1, v1)" by fastforce
  have "\<exists>v. (r(c1 \<mapsto> V_string v1)) c = Some (V_string v)" using Cons.prems by simp
  moreover have "assign_all (a # as) r = assign_all as (r(c1 \<mapsto> V_string v1))" by (simp add: a assign_all_def)
  ultimately show ?case using Cons.IH [of "r(c1 \<mapsto> V_string v1)"] by (simp only:)
qed (simp add: assign_all_def)

lemma new_values_nth:
  assumes "schema_ok cols" and "length (row_vals x) = length (non_primary cols)" and "i < length (non_primary cols)"
  shows "Some (V_string (new_values cols as x ! i)) = assign_all as (shown (column_names cols) x) (co_name (non_primary cols ! i))"
proof -
  let ?c = "co_name (non_primary cols ! i)" and ?ns = "column_names cols"
  have "?c \<in> set ?ns" using schema_counts(4) [OF assms(1)] assms(3) by (simp add: column_names_def)
  then obtain k where k: "k < length ?ns" "?ns ! k = ?c" by (metis in_set_conv_nth)
  have "\<exists>v. shown ?ns x ?c = Some (V_string v)"
    using shown_nth [OF column_names_distinct [OF assms(1)] _ k(1), of x] k(2) assms(2) schema_counts(1) [OF assms(1)] by simp
  then obtain v where v: "assign_all as (shown ?ns x) ?c = Some (V_string v)" using assign_all_string by blast
  then show ?thesis using assms(3) by (simp add: new_values_def reinserted_def)
qed

lemma outcome_reached: "outcome names wh rows = Inr () \<Longrightarrow> reached names wh rows = rows"
proof -
  assume o: "outcome names wh rows = Inr ()"
  have "dropWhile (\<lambda>x. \<not> fails names wh x) rows = []"
  proof (rule ccontr)
    assume "dropWhile (\<lambda>x. \<not> fails names wh x) rows \<noteq> []"
    then obtain x xs where x: "dropWhile (\<lambda>x. \<not> fails names wh x) rows = x # xs" by (meson neq_Nil_conv)
    then have "fails names wh x" using hd_dropWhile [of "\<lambda>x. \<not> fails names wh x" rows] by simp
    then show False using o x by (auto simp: outcome_def fails_def)
  qed
  then show ?thesis using takeWhile_dropWhile_id [of "\<lambda>x. \<not> fails names wh x" rows] by (simp add: reached_def)
qed

text \<open>
  UPDATE stores the new values in the order of the schema and SELECT reads them in alphabetical order: in the row
  that replaces \<open>x\<close>, the \<open>i\<close>-th name of the alphabet shows the new value of the \<open>i\<close>-th column of the
  schema, here for a table whose key comes first in both orders.
\<close>

theorem update_column_order:
  assumes "table_rel s (upd_table stmt) cols rows" and "trees_ok m (trees_of s (upd_table stmt))"
    and "m + length rows \<le> MAX_KEYS" and "non_primary cols \<noteq> []" and "st_db s \<noteq> []"
    and "first_primary cols \<notin> fst ` set (upd_assignments stmt)" and "next_id rows + int (length rows) \<le> INT64_MAX"
    and "\<forall>x \<in> set rows. length (concat (new_values cols (upd_assignments stmt) x)) \<le> L"
    and "data_size s (upd_table stmt) + int (length rows * L) \<le> INT64_MAX" and "wh = Some (upd_where stmt)"
    and "outcome (column_names cols) wh rows = Inr ()"
    and "\<forall>c \<in> set (non_primary cols). string_less (first_primary cols) (co_name c)"
  shows "\<exists>s' news. handle_update stmt s = (Inr (), s') \<and>
    table_rel s' (upd_table stmt) cols (map (marked (column_names cols) wh) rows @ news) \<and>
    length news = length (filter (hit (column_names cols) wh) rows) \<and>
    (\<forall>j < length news. \<forall>i < length (sorted_names cols).
       shown (column_names cols) (news ! j) (sorted_names cols ! i) =
         assign_all (upd_assignments stmt) (shown (column_names cols) (filter (hit (column_names cols) wh) rows ! j))
           (co_name (non_primary cols ! i)))"
proof -
  let ?ns = "column_names cols" and ?as = "upd_assignments stmt"
  define hits where "hits = filter (hit ?ns wh) rows"
  define news where "news = fresh_rows (next_id rows) (map (new_values cols ?as) hits)"
  have sch: "schema_ok cols" by (rule table_relD(2) [OF assms(1)])
  have names: "?ns = first_primary cols # sorted_names cols" by (rule column_names_first [OF sch assms(12)])
  have v: "visited ?ns wh (\<lambda>x. Some (new_values cols ?as x)) rows = map (marked ?ns wh) rows @ news"
    by (simp add: visited_def Let_def outcome_reached [OF assms(11)] map_filter_def comp_def news_def hits_def)
  obtain s' where s': "handle_update stmt s = (Inr (), s')" "table_rel s' (upd_table stmt) cols (map (marked ?ns wh) rows @ news)"
    using handle_update_rel [OF assms(1-9)] assms(10,11) v by auto
  have "shown ?ns (news ! j) (sorted_names cols ! i) = assign_all ?as (shown ?ns (hits ! j)) (co_name (non_primary cols ! i))"
    if j: "j < length hits" and i: "i < length (sorted_names cols)" for i j
  proof -
    have nj: "news ! j = (next_id rows + int j, new_values cols ?as (hits ! j), False)"
      using j by (simp add: news_def fresh_rows_nth)
    have l: "length (sorted_names cols) = length (non_primary cols)" by (simp add: sorted_names_def)
    have "hits ! j \<in> set rows" using nth_mem [OF j] by (simp add: hits_def)
    then have lv: "length (row_vals (hits ! j)) = length (non_primary cols)"
      using table_rows_length [OF table_relD(3) [OF assms(1)]] schema_counts(1) [OF sch] by simp
    have lw: "length ?ns = Suc (length (new_values cols ?as (hits ! j)))"
      using schema_counts(1) [OF sch] by (simp add: new_values_def reinserted_def)
    have "shown ?ns (news ! j) (?ns ! Suc i) = Some (V_string (new_values cols ?as (hits ! j) ! i))"
      using shown_nth [OF column_names_distinct [OF sch], of "news ! j" "Suc i"] lw i nj by (simp add: names)
    then show ?thesis using new_values_nth [OF sch lv, of i ?as] i l by (simp add: names)
  qed
  moreover have "length news = length hits" by (simp add: news_def length_fresh_rows)
  ultimately show ?thesis using s' unfolding hits_def by auto
qed

lemma update_column_order_witness:
  "\<exists>s s' y. generate_insert insert_ann (fresh_table people) = (Inr (), s) \<and> handle_update rename_1 s = (Inr (), s') \<and>
     table_rel s' ''t'' people [(1, [''a@b'', ''Ann''], True), y] \<and>
     shown (column_names people) y ''mail'' = Some (V_string ''Bob'') \<and>
     shown (column_names people) y ''name'' = Some (V_string ''a@b'')"
proof -
  let ?x = "(1, [''a@b'', ''Ann''], False) :: stored"
  obtain s where s: "generate_insert insert_ann (fresh_table people) = (Inr (), s)"
      "table_rel s ''t'' people [(1, [''a@b'', ''Ann''], False)]" "trees_ok 1 (trees_of s ''t'')" "data_size s ''t'' = 6" "st_db s = ''d''"
    by (rule ann_inserted)
  have np: "non_primary people = [mk_column ''name'' False, mk_column ''mail'' False]" by (simp add: people_def non_primary_def)
  have n: "next_id [?x] = 2" by (simp add: next_id_def)
  have fin: "assign_all [(''name'', ''Bob'')] (row_of (column_names people) (1, [''a@b'', ''Ann''])) ''name'' = Some (V_string ''Bob'')"
      "assign_all [(''name'', ''Bob'')] (row_of (column_names people) (1, [''a@b'', ''Ann''])) ''mail'' = Some (V_string ''a@b'')"
    by (simp_all add: assign_all_def people_names row_of_def)
  obtain s' news where r: "handle_update rename_1 s = (Inr (), s')" "length news = 1"
      "table_rel s' ''t'' people ((1, [''a@b'', ''Ann''], True) # news)"
      "\<forall>j < length news. \<forall>i < length (sorted_names people). shown (column_names people) (news ! j) (sorted_names people ! i) =
         assign_all [(''name'', ''Bob'')] (shown (column_names people) ([?x] ! j)) (co_name (non_primary people ! i))"
    using update_column_order [of s rename_1 people "[?x]" 1 6 "Some id_is_1"] s(2-5)
    by (auto simp: marked_def bob_values people_names(3) int_limits degree_values np n)
  obtain y where y: "news = [y]" using r(2) by (auto simp: length_Suc_conv)
  have "shown (column_names people) y ''mail'' = Some (V_string ''Bob'')" "shown (column_names people) y ''name'' = Some (V_string ''a@b'')"
    using spec [OF spec [OF r(4), of 0, simplified y, simplified], of 0] spec [OF spec [OF r(4), of 0, simplified y, simplified], of 1]
    by (simp_all add: people_names(2) np fin)
  then show ?thesis using s(1) r(1,3) y by blast
qed

section \<open>Vacuum\<close>

text \<open>
  C21. The vacuum removes the deleted rows from the files and keeps the others with their ids, in order; any SELECT on
  the table gives the same before and after.
\<close>

theorem vacuum_keeps:
  assumes "table_rel s t cols rows"
  shows "\<exists>s'. vacuum_table (st_db s) t s = (Inr (), s') \<and> table_rel s' t cols (live_rows rows) \<and> only_table t s s' \<and>
    (\<forall>iter stmt. sel_table stmt = t \<longrightarrow> fst (handle_select iter stmt s') = fst (handle_select iter stmt s))"
proof -
  obtain s' where s': "vacuum_table (st_db s) t s = (Inr (), s')" "table_rel s' t cols (live_rows rows)" "only_table t s s'"
    using vacuum_rel [OF assms] by blast
  have "fst (handle_select iter stmt s') = fst (handle_select iter stmt s)" if "sel_table stmt = t" for iter stmt
    using handle_select_rel [of s' stmt cols "live_rows rows" iter] handle_select_rel [of s stmt cols rows iter] s'(2) assms that
    by (simp add: select_spec_live)
  then show ?thesis using s' by blast
qed

lemma vacuum_keeps_witness:
  "\<exists>s s'. generate_insert insert_ann (fresh_table people) = (Inr (), s) \<and> vacuum_table ''d'' ''t'' s = (Inr (), s') \<and>
     fst (handle_select (\<lambda>names. names) select_all s') = fst (handle_select (\<lambda>names. names) select_all s)"
proof -
  obtain s where s: "generate_insert insert_ann (fresh_table people) = (Inr (), s)"
      "table_rel s ''t'' people [(1, [''a@b'', ''Ann''], False)]" "st_db s = ''d''"
    by (rule ann_inserted)
  show ?thesis using vacuum_keeps [OF s(2)] s(1,3) select_all_sel(1) by metis
qed

end
