(* ===== verification/Ring_Spsc.thy ===== *)
theory Ring_Spsc
  imports Nano_Prelude
begin

text \<open>
  \<open>SPSCQueue\<close> in \<open>utils/spsc.hpp\<close>, the ring between one producer and one consumer thread. The capacity is \<open>2 ^ k\<close>,
  the two counters are \<open>size_t\<close> and wrap.

  First the queue with one operation at a time, then the two threads. There, every atomic access is a step of
  its own. A counter is written by one thread only; the other one may read an old value, though never one
  older than it has read before (coherence of \<open>std::atomic\<close>), so a counter is the list of the values stored in it.
  The buffer is not atomic: that no two threads are at the same slot is a property to prove
  (\<open>spsc_threads\<close>), and with it the release stores order its contents.
\<close>

section \<open>Positions in a ring\<close>

definition slot_of :: "nat \<Rightarrow> 64 word \<Rightarrow> nat" where
  "slot_of k w = unat (and w (2 ^ k - 1))"

lemma slot_of_nat:
  assumes "k < 64"
  shows "slot_of k (of_nat n) = n mod 2 ^ k"
proof -
  have "slot_of k (of_nat n) = unat (take_bit k (of_nat n :: 64 word))"
    by (simp add: slot_of_def take_bit_eq_mask mask_eq_exp_minus_1)
  also have "\<dots> = take_bit k (take_bit 64 n)" by (simp add: unsigned_take_bit_eq unsigned_of_nat)
  also have "\<dots> = n mod 2 ^ k"
  proof -
    have "(2 :: nat) ^ k dvd 2 ^ 64" using assms by (intro le_imp_power_dvd) simp
    then show ?thesis by (simp only: take_bit_eq_mod mod_mod_cancel)
  qed
  finally show ?thesis .
qed

lemma mod_neq: "(p :: nat) < q \<Longrightarrow> q - p < c \<Longrightarrow> p mod c \<noteq> q mod c"
  using mod_eq_dvd_iff_nat [of p q c] by (auto dest: dvd_imp_le)

lemma of_nat_word_eq:
  "a < 2 ^ 64 \<Longrightarrow> b < 2 ^ 64 \<Longrightarrow> (of_nat a :: 64 word) = of_nat b \<longleftrightarrow> a = b"
  by (simp add: word_of_nat_eq_iff take_bit_nat_eq_self)

lemma distance_word:
  assumes "t \<le> h" and "h - t < 2 ^ 64" and "c < 2 ^ 64"
  shows "(of_nat h :: 64 word) - of_nat t = of_nat c \<longleftrightarrow> h - t = c"
proof -
  have "(of_nat h :: 64 word) - of_nat t = of_nat (h - t)" using assms(1) by (simp add: of_nat_diff)
  then show ?thesis using of_nat_word_eq assms(2,3) by simp
qed

lemma exp_word: "(2 ^ k - 1 :: 64 word) = of_nat (2 ^ k - 1)"
  by (simp add: of_nat_diff)

lemma exp_less: "k < 64 \<Longrightarrow> (2 :: nat) ^ k - 1 < 2 ^ 64"
  using power_strict_increasing [of k 64 "2 :: nat"] by (simp add: less_imp_diff_less)

section \<open>Bounded queues\<close>

text \<open>What a user of a ring relies on when its operations do not overlap.\<close>

locale bounded_fifo =
  fixes ok :: "'q \<Rightarrow> bool" and contents :: "'q \<Rightarrow> 'a list" and room :: nat
    and enq :: "'a \<Rightarrow> 'q \<Rightarrow> bool \<times> 'q" and deq :: "'q \<Rightarrow> 'a option \<times> 'q"
  assumes enq_room: "ok q \<Longrightarrow> length (contents q) < room \<Longrightarrow>
      \<exists>q'. enq x q = (True, q') \<and> ok q' \<and> contents q' = contents q @ [x]"
    and enq_full: "ok q \<Longrightarrow> \<not> length (contents q) < room \<Longrightarrow> enq x q = (False, q)"
    and deq_some: "ok q \<Longrightarrow> contents q = y # ys \<Longrightarrow> \<exists>q'. deq q = (Some y, q') \<and> ok q' \<and> contents q' = ys"
    and deq_none: "ok q \<Longrightarrow> contents q = [] \<Longrightarrow> deq q = (None, q)"

datatype 'a fifo_call = Enq 'a | Deq
datatype 'a fifo_answer = Taken bool | Given "'a option"

fun fifo_run :: "('a \<Rightarrow> 'q \<Rightarrow> bool \<times> 'q) \<Rightarrow> ('q \<Rightarrow> 'a option \<times> 'q) \<Rightarrow> 'a fifo_call list \<Rightarrow> 'q \<Rightarrow> 'a fifo_answer list \<times> 'q" where
  "fifo_run enq deq [] q = ([], q)"
| "fifo_run enq deq (Enq x # cs) q =
     (let (b, q1) = enq x q; (as, q2) = fifo_run enq deq cs q1 in (Taken b # as, q2))"
| "fifo_run enq deq (Deq # cs) q =
     (let (r, q1) = deq q; (as, q2) = fifo_run enq deq cs q1 in (Given r # as, q2))"

text \<open>The same on lists.\<close>

fun list_enq :: "nat \<Rightarrow> 'a \<Rightarrow> 'a list \<Rightarrow> bool \<times> 'a list" where
  "list_enq n x xs = (if length xs < n then (True, xs @ [x]) else (False, xs))"

fun list_deq :: "'a list \<Rightarrow> 'a option \<times> 'a list" where
  "list_deq [] = (None, [])"
| "list_deq (x # xs) = (Some x, xs)"

context bounded_fifo
begin

lemma run_as_list:
  "ok q \<Longrightarrow> \<exists>q'. fifo_run enq deq cs q = (fst (fifo_run (list_enq room) list_deq cs (contents q)), q') \<and> ok q' \<and>
     contents q' = snd (fifo_run (list_enq room) list_deq cs (contents q))"
proof (induction cs arbitrary: q)
  case (Cons c cs)
  have step: ?case if "c = Enq x \<and> enq x q = (b, q1) \<and> list_enq room x (contents q) = (b, contents q1) \<or>
      c = Deq \<and> deq q = (r, q1) \<and> list_deq (contents q) = (r, contents q1)" "ok q1" for x b r q1
    using Cons.IH [OF that(2)] that(1) by (auto split: prod.splits)
  show ?case
  proof (cases c)
    case (Enq x)
    show ?thesis
    proof (cases "length (contents q) < room")
      case True
      then obtain q1 where "enq x q = (True, q1)" "ok q1" "contents q1 = contents q @ [x]" using enq_room Cons.prems by blast
      then show ?thesis using step [of x True q1] Enq True by simp
    next
      case False
      then show ?thesis using step [of x False q] enq_full Cons.prems Enq by simp
    qed
  next
    case Deq
    show ?thesis
    proof (cases "contents q")
      case Nil
      then show ?thesis using step [of _ _ q None] deq_none Cons.prems Deq by simp
    next
      case (Cons y ys)
      then obtain q1 where "deq q = (Some y, q1)" "ok q1" "contents q1 = ys" using deq_some Cons.prems by blast
      then show ?thesis using step [of _ _ q1 "Some y"] Cons Deq by simp
    qed
  qed
qed simp

end

section \<open>One operation at a time\<close>

record 'a spsc =
  sq_head :: "64 word"
  sq_tail :: "64 word"
  sq_buffer :: "'a list"

definition spsc_push :: "nat \<Rightarrow> 'a \<Rightarrow> 'a spsc \<Rightarrow> bool \<times> 'a spsc" where
  "spsc_push k x q =
     (let h = sq_head q; t = sq_tail q
      in if h - t = 2 ^ k - 1 then (False, q)
         else (True, q\<lparr>sq_buffer := (sq_buffer q)[slot_of k h := x], sq_head := h + 1\<rparr>))"

definition spsc_pop :: "nat \<Rightarrow> 'a spsc \<Rightarrow> 'a option \<times> 'a spsc" where
  "spsc_pop k q =
     (let t = sq_tail q; h = sq_head q
      in if t = h then (None, q)
         else (Some (sq_buffer q ! slot_of k t), q\<lparr>sq_tail := t + 1\<rparr>))"

definition spsc_empty :: "'a spsc \<Rightarrow> bool" where
  "spsc_empty q \<longleftrightarrow> sq_head q = sq_tail q"

text \<open>The items between the counters, oldest first.\<close>

definition spsc_items :: "nat \<Rightarrow> 'a spsc \<Rightarrow> 'a list" where
  "spsc_items k q = map (\<lambda>i. sq_buffer q ! slot_of k (sq_tail q + of_nat i)) [0 ..< unat (sq_head q - sq_tail q)]"

definition spsc_ok :: "nat \<Rightarrow> 'a spsc \<Rightarrow> bool" where
  "spsc_ok k q \<longleftrightarrow> k < 64 \<and> length (sq_buffer q) = 2 ^ k \<and> unat (sq_head q - sq_tail q) < 2 ^ k"

text \<open>In terms of unbounded counters.\<close>

lemma spsc_count:
  assumes "k < 64" and "t \<le> h" and "h - t < 2 ^ k"
  shows "unat ((of_nat h :: 64 word) - of_nat t) = h - t"
proof -
  have "(of_nat h :: 64 word) - of_nat t = of_nat (h - t)" using assms(2) by (simp add: of_nat_diff)
  moreover have "h - t < 2 ^ 64" using assms exp_less [of k] by linarith
  ultimately show ?thesis by (simp add: unsigned_of_nat take_bit_nat_eq_self)
qed

lemma spsc_items_nat:
  assumes "k < 64" and "sq_head q = of_nat h" and "sq_tail q = of_nat t" and "t \<le> h" and "h - t < 2 ^ k"
  shows "spsc_items k q = map (\<lambda>p. sq_buffer q ! (p mod 2 ^ k)) [t ..< h]"
proof -
  have "slot_of k (of_nat t + of_nat i) = (t + i) mod 2 ^ k" for i
    using slot_of_nat [OF assms(1), of "t + i"] by simp
  moreover have "[t ..< h] = map (\<lambda>i. t + i) [0 ..< h - t]"
    using map_add_upt [of t "h - t"] assms(4) by (simp add: add.commute)
  ultimately show ?thesis by (simp add: spsc_items_def assms(2,3) spsc_count [OF assms(1,4,5)] comp_def)
qed

lemma spsc_ok_nat:
  assumes "spsc_ok k q"
  obtains h t where "k < 64" "sq_head q = of_nat h" "sq_tail q = of_nat t" "t \<le> h" "h - t < 2 ^ k" "length (sq_buffer q) = 2 ^ k"
proof -
  let ?t = "unat (sq_tail q)" and ?n = "unat (sq_head q - sq_tail q)"
  have "sq_head q = of_nat (?t + ?n)" by simp
  then show thesis using that [of "?t + ?n" ?t] assms by (simp add: spsc_ok_def)
qed

lemma spsc_push_spec:
  assumes "spsc_ok k q"
  shows "if length (spsc_items k q) < 2 ^ k - 1
    then \<exists>q'. spsc_push k x q = (True, q') \<and> spsc_ok k q' \<and> spsc_items k q' = spsc_items k q @ [x]
    else spsc_push k x q = (False, q)"
proof -
  obtain h t where n: "k < 64" "sq_head q = of_nat h" "sq_tail q = of_nat t" "t \<le> h" "h - t < 2 ^ k" "length (sq_buffer q) = 2 ^ k"
    using assms by (rule spsc_ok_nat)
  have items: "spsc_items k q = map (\<lambda>p. sq_buffer q ! (p mod 2 ^ k)) [t ..< h]" by (rule spsc_items_nat [OF n(1-5)])
  have full: "(of_nat h :: 64 word) - of_nat t = 2 ^ k - 1 \<longleftrightarrow> h - t = 2 ^ k - 1"
    unfolding exp_word using n exp_less [OF n(1)] by (intro distance_word) linarith+
  show ?thesis
  proof (cases "h - t < 2 ^ k - 1")
    case True
    define q' where "q' = q\<lparr>sq_buffer := (sq_buffer q)[h mod 2 ^ k := x], sq_head := of_nat (Suc h)\<rparr>"
    have p: "spsc_push k x q = (True, q')"
      using True full by (simp add: spsc_push_def Let_def n(2,3) slot_of_nat [OF n(1)] q'_def add.commute)
    have old: "(sq_buffer q)[h mod 2 ^ k := x] ! (p mod 2 ^ k) = sq_buffer q ! (p mod 2 ^ k)" if "p \<in> {t ..< h}" for p
      proof -
      have "p < h" "h - p < 2 ^ k" using that n(5) by auto
      then show ?thesis using mod_neq [of p h "2 ^ k"] by (metis nth_list_update_neq)
    qed
    have s: "Suc h - t < 2 ^ k" using True by linarith
    have i': "spsc_items k q' = map (\<lambda>p. sq_buffer q' ! (p mod 2 ^ k)) [t ..< Suc h]"
      using n s by (intro spsc_items_nat) (simp_all add: q'_def)
    have "unat (sq_head q' - sq_tail q') = Suc h - t"
      using spsc_count [OF n(1), of t "Suc h"] n(3,4) s by (simp add: q'_def)
    then have "spsc_ok k q'" using n(1,6) s by (simp add: spsc_ok_def) (simp add: q'_def)
    moreover have "spsc_items k q' = spsc_items k q @ [x]"
      unfolding i' items using n(4,6) old by (simp add: q'_def)
    ultimately show ?thesis using True p by (simp add: items)
  next
    case False
    then have "h - t = 2 ^ k - 1" using n(5) by linarith
    then show ?thesis using full False by (simp add: items spsc_push_def Let_def n(2,3))
  qed
qed

lemma spsc_pop_spec:
  assumes "spsc_ok k q"
  shows "case spsc_items k q of [] \<Rightarrow> spsc_pop k q = (None, q)
    | y # ys \<Rightarrow> \<exists>q'. spsc_pop k q = (Some y, q') \<and> spsc_ok k q' \<and> spsc_items k q' = ys"
proof -
  obtain h t where n: "k < 64" "sq_head q = of_nat h" "sq_tail q = of_nat t" "t \<le> h" "h - t < 2 ^ k" "length (sq_buffer q) = 2 ^ k"
    using assms by (rule spsc_ok_nat)
  have items: "spsc_items k q = map (\<lambda>p. sq_buffer q ! (p mod 2 ^ k)) [t ..< h]" by (rule spsc_items_nat [OF n(1-5)])
  have same: "(of_nat t :: 64 word) = of_nat h \<longleftrightarrow> t = h"
  proof -
    have "h - t < 2 ^ 64" using n(5) exp_less [OF n(1)] by linarith
    then have "(of_nat h :: 64 word) - of_nat t = 0 \<longleftrightarrow> h - t = 0" using distance_word [OF n(4), of 0] by simp
    then show ?thesis using n(4) by auto
  qed
  show ?thesis
  proof (cases "t = h")
    case True
    then show ?thesis by (simp add: items spsc_pop_def n(2,3))
  next
    case False
    define q' where "q' = q\<lparr>sq_tail := of_nat (Suc t)\<rparr>"
    have t: "[t ..< h] = t # [Suc t ..< h]" using False n(4) by (simp add: upt_conv_Cons)
    have p: "spsc_pop k q = (Some (sq_buffer q ! (t mod 2 ^ k)), q')"
      using False same by (simp add: spsc_pop_def Let_def n(2,3) slot_of_nat [OF n(1)] q'_def add.commute)
    have s: "Suc t \<le> h" "h - Suc t < 2 ^ k" using False n(4,5) by linarith+
    have i': "spsc_items k q' = map (\<lambda>p. sq_buffer q' ! (p mod 2 ^ k)) [Suc t ..< h]"
      using n s by (intro spsc_items_nat) (simp_all add: q'_def)
    have "unat (sq_head q' - sq_tail q') = h - Suc t"
      using spsc_count [OF n(1) s] n(2) by (simp add: q'_def)
    then have "spsc_ok k q'" using n(1,6) s by (simp add: spsc_ok_def) (simp add: q'_def)
    then show ?thesis using p i' by (simp add: items t) (simp add: q'_def)
  qed
qed

interpretation spsc_q: bounded_fifo "spsc_ok k" "spsc_items k" "2 ^ k - 1" "spsc_push k" "spsc_pop k" for k
proof unfold_locales
  show "spsc_ok k q \<Longrightarrow> spsc_items k q = y # ys \<Longrightarrow> \<exists>q'. spsc_pop k q = (Some y, q') \<and> spsc_ok k q' \<and> spsc_items k q' = ys"
    for q :: "'a spsc" and y ys
    using spsc_pop_spec [of k q] by simp
qed (use spsc_push_spec spsc_pop_spec in \<open>fastforce+\<close>)

section \<open>The two threads\<close>

text \<open>
  Where the producer and the consumer are in \<open>push\<close> and \<open>pop\<close>, with the values of their locals: about to load the
  own counter, about to load the other one, about to test and copy the item, about to store the own counter.
\<close>

datatype 'a producer = P_Idle | P_Head 'a | P_Tail 'a "64 word" | P_Test 'a "64 word" "64 word" | P_Store 'a "64 word"
datatype 'a consumer = C_Idle | C_Tail | C_Head "64 word" | C_Test "64 word" "64 word" | C_Store 'a "64 word"

record 'a spsc_run =
  sr_heads :: "64 word list"
  sr_tails :: "64 word list"
  sr_saw_tail :: nat
  sr_saw_head :: nat
  sr_buffer :: "'a list"
  sr_producer :: "'a producer"
  sr_consumer :: "'a consumer"
  sr_pushed :: "'a list"
  sr_popped :: "'a list"

definition spsc_start :: "'a list \<Rightarrow> 'a spsc_run" where
  "spsc_start buf = \<lparr>sr_heads = [0], sr_tails = [0], sr_saw_tail = 0, sr_saw_head = 0, sr_buffer = buf,
     sr_producer = P_Idle, sr_consumer = C_Idle, sr_pushed = [], sr_popped = []\<rparr>"

inductive spsc_step :: "nat \<Rightarrow> 'a spsc_run \<Rightarrow> 'a spsc_run \<Rightarrow> bool" for k where
  push_call: "sr_producer s = P_Idle \<Longrightarrow> spsc_step k s (s\<lparr>sr_producer := P_Head x\<rparr>)"
| push_head: "sr_producer s = P_Head x \<Longrightarrow> spsc_step k s (s\<lparr>sr_producer := P_Tail x (last (sr_heads s))\<rparr>)"
| push_tail: "sr_producer s = P_Tail x h \<Longrightarrow> sr_saw_tail s \<le> i \<Longrightarrow> i < length (sr_tails s) \<Longrightarrow>
    spsc_step k s (s\<lparr>sr_producer := P_Test x h (sr_tails s ! i), sr_saw_tail := i\<rparr>)"
| push_full: "sr_producer s = P_Test x h t \<Longrightarrow> h - t = 2 ^ k - 1 \<Longrightarrow> spsc_step k s (s\<lparr>sr_producer := P_Idle\<rparr>)"
| push_write: "sr_producer s = P_Test x h t \<Longrightarrow> h - t \<noteq> 2 ^ k - 1 \<Longrightarrow>
    spsc_step k s (s\<lparr>sr_buffer := (sr_buffer s)[slot_of k h := x], sr_producer := P_Store x h\<rparr>)"
| push_store: "sr_producer s = P_Store x h \<Longrightarrow>
    spsc_step k s (s\<lparr>sr_heads := sr_heads s @ [h + 1], sr_producer := P_Idle, sr_pushed := sr_pushed s @ [x]\<rparr>)"
| pop_call: "sr_consumer s = C_Idle \<Longrightarrow> spsc_step k s (s\<lparr>sr_consumer := C_Tail\<rparr>)"
| pop_tail: "sr_consumer s = C_Tail \<Longrightarrow> spsc_step k s (s\<lparr>sr_consumer := C_Head (last (sr_tails s))\<rparr>)"
| pop_head: "sr_consumer s = C_Head t \<Longrightarrow> sr_saw_head s \<le> i \<Longrightarrow> i < length (sr_heads s) \<Longrightarrow>
    spsc_step k s (s\<lparr>sr_consumer := C_Test t (sr_heads s ! i), sr_saw_head := i\<rparr>)"
| pop_empty: "sr_consumer s = C_Test t h \<Longrightarrow> t = h \<Longrightarrow> spsc_step k s (s\<lparr>sr_consumer := C_Idle\<rparr>)"
| pop_read: "sr_consumer s = C_Test t h \<Longrightarrow> t \<noteq> h \<Longrightarrow>
    spsc_step k s (s\<lparr>sr_consumer := C_Store (sr_buffer s ! slot_of k t) t\<rparr>)"
| pop_store: "sr_consumer s = C_Store x t \<Longrightarrow>
    spsc_step k s (s\<lparr>sr_tails := sr_tails s @ [t + 1], sr_consumer := C_Idle, sr_popped := sr_popped s @ [x]\<rparr>)"

inductive spsc_reach :: "nat \<Rightarrow> 'a spsc_run \<Rightarrow> bool" for k where
  start: "length buf = 2 ^ k \<Longrightarrow> spsc_reach k (spsc_start buf)"
| step: "spsc_reach k s \<Longrightarrow> spsc_step k s s' \<Longrightarrow> spsc_reach k s'"

inductive_cases spsc_stepE: "spsc_step k s s'"

section \<open>The invariant of the two threads\<close>

text \<open>\<open>h\<close> and \<open>t\<close> count the stores to the counters.\<close>

definition producer_ok :: "nat \<Rightarrow> nat \<Rightarrow> 'a spsc_run \<Rightarrow> bool" where
  "producer_ok k h s = (case sr_producer s of
      P_Idle \<Rightarrow> True
    | P_Head x \<Rightarrow> True
    | P_Tail x w \<Rightarrow> w = of_nat h
    | P_Test x w v \<Rightarrow> w = of_nat h \<and> v = of_nat (sr_saw_tail s)
    | P_Store x w \<Rightarrow> w = of_nat h \<and> h - sr_saw_tail s < 2 ^ k - 1 \<and> sr_buffer s ! (h mod 2 ^ k) = x)"

definition consumer_ok :: "nat \<Rightarrow> 'a spsc_run \<Rightarrow> bool" where
  "consumer_ok t s = (case sr_consumer s of
      C_Idle \<Rightarrow> True
    | C_Tail \<Rightarrow> True
    | C_Head w \<Rightarrow> w = of_nat t
    | C_Test w v \<Rightarrow> w = of_nat t \<and> v = of_nat (sr_saw_head s)
    | C_Store x w \<Rightarrow> w = of_nat t \<and> t < sr_saw_head s \<and> x = sr_pushed s ! t)"

definition spsc_at :: "nat \<Rightarrow> nat \<Rightarrow> nat \<Rightarrow> 'a spsc_run \<Rightarrow> bool" where
  "spsc_at k h t s \<longleftrightarrow> h = length (sr_pushed s) \<and> t = length (sr_popped s) \<and>
     sr_heads s = map of_nat [0 ..< Suc h] \<and> sr_tails s = map of_nat [0 ..< Suc t] \<and>
     sr_popped s = take t (sr_pushed s) \<and> sr_saw_tail s \<le> t \<and> t \<le> sr_saw_head s \<and> sr_saw_head s \<le> h \<and>
     h - sr_saw_tail s \<le> 2 ^ k - 1 \<and> length (sr_buffer s) = 2 ^ k \<and>
     (\<forall>p. t \<le> p \<and> p < h \<longrightarrow> sr_buffer s ! (p mod 2 ^ k) = sr_pushed s ! p) \<and>
     producer_ok k h s \<and> consumer_ok t s"

definition spsc_inv :: "nat \<Rightarrow> 'a spsc_run \<Rightarrow> bool" where
  "spsc_inv k s \<longleftrightarrow> spsc_at k (length (sr_pushed s)) (length (sr_popped s)) s"

lemma producer_ok_cong:
  "sr_producer s' = sr_producer s \<Longrightarrow> sr_saw_tail s' = sr_saw_tail s \<Longrightarrow> sr_buffer s' = sr_buffer s \<Longrightarrow>
     producer_ok k h s' = producer_ok k h s"
  by (simp add: producer_ok_def split: producer.split)

lemma consumer_ok_cong:
  "sr_consumer s' = sr_consumer s \<Longrightarrow> sr_saw_head s' = sr_saw_head s \<Longrightarrow> sr_pushed s' = sr_pushed s \<Longrightarrow>
     consumer_ok t s' = consumer_ok t s"
  by (simp add: consumer_ok_def split: consumer.split)

lemma map_of_nat_snoc: "map of_nat [0 ..< Suc n] @ [of_nat n + 1] = map (of_nat :: nat \<Rightarrow> 64 word) [0 ..< Suc (Suc n)]"
  by (simp add: add.commute)

lemma last_counter: "last (map (of_nat :: nat \<Rightarrow> 64 word) [0 ..< Suc n]) = of_nat n"
  by simp

lemma nth_counter: "i < Suc n \<Longrightarrow> map (of_nat :: nat \<Rightarrow> 64 word) [0 ..< Suc n] ! i = of_nat i"
  by (simp del: upt_Suc)

lemma spsc_inv_step:
  assumes "k < 64" and "spsc_inv k s" and "spsc_step k s s'"
  shows "spsc_inv k s'"
proof -
  define h t where "h = length (sr_pushed s)" and "t = length (sr_popped s)"
  have i: "sr_heads s = map of_nat [0 ..< Suc h]" "sr_tails s = map of_nat [0 ..< Suc t]"
      "sr_popped s = take t (sr_pushed s)" "sr_saw_tail s \<le> t" "t \<le> sr_saw_head s" "sr_saw_head s \<le> h"
      "h - sr_saw_tail s \<le> 2 ^ k - 1" "length (sr_buffer s) = 2 ^ k"
      "\<And>p. t \<le> p \<Longrightarrow> p < h \<Longrightarrow> sr_buffer s ! (p mod 2 ^ k) = sr_pushed s ! p"
      "producer_ok k h s" "consumer_ok t s"
    using assms(2) unfolding spsc_inv_def spsc_at_def h_def t_def by blast+
  note big = exp_less [OF assms(1)] and slot = slot_of_nat [OF assms(1)]
  have room: "h - t < 2 ^ k" 
  proof -
    have "(1 :: nat) \<le> 2 ^ k" by simp
    then show ?thesis using i(4,7) by linarith
  qed
  have near: "p mod 2 ^ k \<noteq> h mod 2 ^ k" if "t \<le> p" "p < h" for p
    using mod_neq [of p h "2 ^ k"] that room by linarith
  note ht = h_def [symmetric] t_def [symmetric]
  have at: "spsc_inv k s'" if "length (sr_pushed s') = h'" "length (sr_popped s') = t'" "spsc_at k h' t' s'" for h' t'
    using that by (simp add: spsc_inv_def)
  from assms(3) show ?thesis
  proof (cases rule: spsc_step.cases)
    case (push_write x w v)
    have w: "w = of_nat h" "v = of_nat (sr_saw_tail s)" using i(10) push_write by (simp_all add: producer_ok_def)
    have "h - sr_saw_tail s < 2 ^ 64" using i(7) big by linarith
    then have "h - sr_saw_tail s \<noteq> 2 ^ k - 1"
      using push_write(3) i(4,5,6) unfolding w exp_word by (subst (asm) distance_word) (use big in linarith)+
    then have "h - sr_saw_tail s < 2 ^ k - 1" using i(7) by linarith
    moreover have "(sr_buffer s)[h mod 2 ^ k := x] ! (p mod 2 ^ k) = sr_pushed s ! p" if "t \<le> p" "p < h" for p
      using near [OF that] i(9) [OF that] by simp
    moreover have "consumer_ok t s'" using i(11) consumer_ok_cong [of s' s] by (simp add: push_write(1))
    ultimately show ?thesis
      using i(1-8) by (intro at [of h t]) (simp_all add: push_write(1) w slot ht spsc_at_def producer_ok_def del: upt_Suc)
  next
    case (push_store x w)
    then have w: "w = of_nat h" "h - sr_saw_tail s < 2 ^ k - 1" "sr_buffer s ! (h mod 2 ^ k) = x"
      using i(10) by (simp_all add: producer_ok_def)
    have "sr_buffer s ! (p mod 2 ^ k) = (sr_pushed s @ [x]) ! p" if "t \<le> p" "p < Suc h" for p
      using i(9) [of p] that w(3) by (cases "p = h") (simp_all add: nth_append ht)
    moreover have "consumer_ok t s'"
      using i(5,6,11) by (auto simp: push_store(1) consumer_ok_def nth_append ht split: consumer.splits)
    ultimately show ?thesis
      using i(1-8) w by (intro at [of "Suc h" t])
        (simp_all add: push_store(1) ht spsc_at_def producer_ok_def map_of_nat_snoc del: upt_Suc)
  next
    case (push_tail x w j)
    have j: "sr_saw_tail s \<le> j" "j \<le> t" "sr_tails s ! j = of_nat j"
      using push_tail(3,4) nth_counter [of j t] by (simp_all add: i(2) del: upt_Suc)
    then have "h - j \<le> 2 ^ k - 1" using i(7) by linarith
    moreover have "consumer_ok t s'" using i(11) consumer_ok_cong [of s' s] by (simp add: push_tail(1))
    ultimately show ?thesis
      using i(1-6,8-10) push_tail(2) j by (intro at [of h t])
        (simp_all add: push_tail(1) ht spsc_at_def producer_ok_def del: upt_Suc)
  next
    case (pop_head w j)
    have j: "sr_saw_head s \<le> j" "j \<le> h" "sr_heads s ! j = of_nat j"
      using pop_head(3,4) nth_counter [of j h] by (simp_all add: i(1) del: upt_Suc)
    then have "t \<le> j" using i(5) by linarith
    moreover have "producer_ok k h s'" using i(10) producer_ok_cong [of s' s] by (simp add: pop_head(1))
    ultimately show ?thesis
      using i(1-5,7-9,11) pop_head(2) j by (intro at [of h t])
        (simp_all add: pop_head(1) ht spsc_at_def consumer_ok_def del: upt_Suc)
  next
    case (pop_read w v)
    have w: "w = of_nat t" "v = of_nat (sr_saw_head s)" using i(11) pop_read by (simp_all add: consumer_ok_def)
    then have "t < sr_saw_head s" using pop_read(3) i(5) by (cases "t = sr_saw_head s") simp_all
    moreover then have "sr_buffer s ! (t mod 2 ^ k) = sr_pushed s ! t" using i(6,9) by simp
    moreover have "producer_ok k h s'" using i(10) producer_ok_cong [of s' s] by (simp add: pop_read(1))
    ultimately show ?thesis
      using i(1-9) by (intro at [of h t])
        (simp_all add: pop_read(1) w slot ht spsc_at_def consumer_ok_def del: upt_Suc)
  next
    case (pop_store x w)
    then have w: "w = of_nat t" "t < sr_saw_head s" "x = sr_pushed s ! t" using i(11) by (simp_all add: consumer_ok_def)
    have "take t (sr_pushed s) @ [x] = take (Suc t) (sr_pushed s)"
      using w i(6) by (simp add: take_Suc_conv_app_nth ht)
    moreover have "producer_ok k h s'" using i(10) producer_ok_cong [of s' s] by (simp add: pop_store(1))
    ultimately show ?thesis
      using i(1-9) w by (intro at [of h "Suc t"])
        (simp_all add: pop_store(1) ht spsc_at_def consumer_ok_def map_of_nat_snoc del: upt_Suc)
  qed (use i in \<open>auto simp: ht spsc_inv_def spsc_at_def last_counter producer_ok_def consumer_ok_def simp del: upt_Suc split: producer.splits consumer.splits\<close>)
qed

lemma spsc_inv_start: "length buf = 2 ^ k \<Longrightarrow> spsc_inv k (spsc_start buf)"
  by (simp add: spsc_inv_def spsc_at_def spsc_start_def producer_ok_def consumer_ok_def)

lemma spsc_reach_inv: "spsc_reach k s \<Longrightarrow> k < 64 \<Longrightarrow> spsc_inv k s"
  by (induction rule: spsc_reach.induct) (blast intro: spsc_inv_start spsc_inv_step)+

section \<open>Properties\<close>

text \<open>
  C27. Whatever the interleaving of the two threads and however late each sees the counter of the other: the items
  popped are the first items pushed, in order; fewer than the capacity are between them; and
  the producer never writes a slot while the consumer reads it. The counters may wrap any number of times.
\<close>

theorem spsc_threads:
  assumes "spsc_reach k s" and "k < 64"
  shows "sr_popped s = take (length (sr_popped s)) (sr_pushed s) \<and>
    length (sr_pushed s) - length (sr_popped s) < 2 ^ k \<and>
    \<not> (\<exists>x h v t w. sr_producer s = P_Test x h v \<and> h - v \<noteq> 2 ^ k - 1 \<and> sr_consumer s = C_Test t w \<and> t \<noteq> w \<and>
        slot_of k h = slot_of k t)"
proof -
  define h t where "h = length (sr_pushed s)" and "t = length (sr_popped s)"
  have i: "sr_popped s = take t (sr_pushed s)" "sr_saw_tail s \<le> t" "t \<le> sr_saw_head s" "sr_saw_head s \<le> h"
      "h - sr_saw_tail s \<le> 2 ^ k - 1" "producer_ok k h s" "consumer_ok t s"
    using spsc_reach_inv [OF assms] unfolding spsc_inv_def spsc_at_def h_def t_def by blast+
  have "(1 :: nat) \<le> 2 ^ k" by simp
  then have room: "h - t < 2 ^ k" using i(2,5) by linarith
  have "slot_of k w \<noteq> slot_of k u"
    if "sr_producer s = P_Test x w v" "sr_consumer s = C_Test u z" "u \<noteq> z" for x w v u z
  proof -
    have e: "w = of_nat h" "u = of_nat t" "z = of_nat (sr_saw_head s)" using i(6,7) that by (simp_all add: producer_ok_def consumer_ok_def)
    then have "t < h" using that(3) i(3,4) by (cases "t = sr_saw_head s") simp_all
    then show ?thesis using mod_neq [of t h "2 ^ k"] room by (simp add: e slot_of_nat [OF assms(2)])
  qed
  then show ?thesis using i(1) room unfolding h_def t_def by blast
qed

definition run_at :: "64 word list \<Rightarrow> 64 word list \<Rightarrow> nat \<Rightarrow> nat list \<Rightarrow> nat producer \<Rightarrow> nat consumer \<Rightarrow> nat list \<Rightarrow> nat list \<Rightarrow> nat spsc_run" where
  "run_at hs ts sh buf p c xs ys = \<lparr>sr_heads = hs, sr_tails = ts, sr_saw_tail = 0, sr_saw_head = sh, sr_buffer = buf,
     sr_producer = p, sr_consumer = c, sr_pushed = xs, sr_popped = ys\<rparr>"

lemma one_item_run: "spsc_reach 1 (run_at [0, 1] [0, 1] 1 [7, 0] P_Idle C_Idle [7] [7])"
proof -
  note step = spsc_reach.step [where k = 1] and defs = run_at_def slot_of_def
  have "spsc_reach 1 (run_at [0] [0] 0 [0, 0] P_Idle C_Idle [] [])"
    using spsc_reach.start [of "[0, 0]" 1] by (simp add: spsc_start_def run_at_def)
  from step [OF this spsc_step.push_call [where x = 7]] have "spsc_reach 1 (run_at [0] [0] 0 [0, 0] (P_Head 7) C_Idle [] [])"
    by (simp add: defs)
  from step [OF this spsc_step.push_head [where x = 7]] have "spsc_reach 1 (run_at [0] [0] 0 [0, 0] (P_Tail 7 0) C_Idle [] [])"
    by (simp add: defs)
  from step [OF this spsc_step.push_tail [where x = 7 and h = 0 and i = 0]]
  have "spsc_reach 1 (run_at [0] [0] 0 [0, 0] (P_Test 7 0 0) C_Idle [] [])" by (simp add: defs)
  from step [OF this spsc_step.push_write [where x = 7 and h = 0 and t = 0]]
  have "spsc_reach 1 (run_at [0] [0] 0 [7, 0] (P_Store 7 0) C_Idle [] [])" by (simp add: defs)
  from step [OF this spsc_step.push_store [where x = 7 and h = 0]]
  have "spsc_reach 1 (run_at [0, 1] [0] 0 [7, 0] P_Idle C_Idle [7] [])" by (simp add: defs)
  from step [OF this spsc_step.pop_call] have "spsc_reach 1 (run_at [0, 1] [0] 0 [7, 0] P_Idle C_Tail [7] [])"
    by (simp add: defs)
  from step [OF this spsc_step.pop_tail] have "spsc_reach 1 (run_at [0, 1] [0] 0 [7, 0] P_Idle (C_Head 0) [7] [])"
    by (simp add: defs)
  from step [OF this spsc_step.pop_head [where t = 0 and i = 1]]
  have "spsc_reach 1 (run_at [0, 1] [0] 1 [7, 0] P_Idle (C_Test 0 1) [7] [])" by (simp add: defs)
  from step [OF this spsc_step.pop_read [where t = 0 and h = 1]]
  have "spsc_reach 1 (run_at [0, 1] [0] 1 [7, 0] P_Idle (C_Store 7 0) [7] [])" by (simp add: defs)
  from step [OF this spsc_step.pop_store [where x = 7 and t = 0]] show ?thesis by (simp add: defs)
qed

lemma spsc_threads_witness:
  "\<exists>s :: nat spsc_run. spsc_reach 1 s \<and> sr_pushed s = [7] \<and> sr_popped s = [7] \<and>
     sr_popped s = take (length (sr_popped s)) (sr_pushed s) \<and> length (sr_pushed s) - length (sr_popped s) < 2 ^ 1"
  using spsc_threads [OF one_item_run] one_item_run
  by (intro exI [of _ "run_at [0, 1] [0, 1] 1 [7, 0] P_Idle C_Idle [7] [7]"]) (simp add: run_at_def)

text \<open>
  Calls of \<open>push\<close> and \<open>pop\<close> one after the other answer as on a list of at most \<open>2 ^ k - 1\<close> items, from any
  position of the counters.
\<close>

theorem spsc_calls:
  assumes "spsc_ok k q"
  shows "\<exists>q'. fifo_run (spsc_push k) (spsc_pop k) cs q =
      (fst (fifo_run (list_enq (2 ^ k - 1)) list_deq cs (spsc_items k q)), q') \<and>
    spsc_ok k q' \<and> spsc_items k q' = snd (fifo_run (list_enq (2 ^ k - 1)) list_deq cs (spsc_items k q)) \<and>
    (spsc_empty q' \<longleftrightarrow> spsc_items k q' = [])"
  using spsc_q.run_as_list [OF assms, of cs] by (auto simp: spsc_empty_def spsc_items_def unat_eq_0)

text \<open>A ring of four whose counters are about to wrap.\<close>

definition old_ring :: "nat spsc" where
  "old_ring = \<lparr>sq_head = - 1, sq_tail = - 1, sq_buffer = [0, 0, 0, 0]\<rparr>"

lemma spsc_calls_witness:
  "fst (fifo_run (spsc_push 2) (spsc_pop 2) [Enq 1, Enq 2, Enq 3, Enq 4, Deq, Deq, Deq, Deq] old_ring) =
     [Taken True, Taken True, Taken True, Taken False, Given (Some 1), Given (Some 2), Given (Some 3), Given None]"
proof -
  have "spsc_ok 2 old_ring" "spsc_items 2 old_ring = []" by (simp_all add: spsc_ok_def spsc_items_def old_ring_def)
  with spsc_calls [OF this(1), of "[Enq 1, Enq 2, Enq 3, Enq 4, Deq, Deq, Deq, Deq]"] show ?thesis by auto
qed

end
