(* ===== verification/Ring_Mpmc.thy ===== *)
theory Ring_Mpmc
  imports Ring_Spsc
begin

text \<open>
  \<open>MPMCQueue\<close> in \<open>utils/mpmc.hpp\<close>: a ring of \<open>2 ^ k\<close> slots for any number of producers and consumers. Each slot has a
  sequence number that says whose turn it is. Every atomic access is a step of the thread that makes it.

  An atomic variable is the list of the values stored in it, and a plain load gives any of them, however old; only
  a successful compare-and-exchange needs the last one, and the weak one may also fail for no reason. This
  allows more runs than the memory order of the code does. The data of a slot are not atomic;
  \<open>mpmc_threads\<close> shows that no two threads are at the data of the same slot.
\<close>

datatype 'a mpmc_pc =
    M_Idle
  | E_Load 'a | E_Seq 'a "64 word" | E_Cas 'a "64 word" | E_Write 'a "64 word" | E_Publish 'a "64 word"
  | D_Load | D_Seq "64 word" | D_Cas "64 word" | D_Read "64 word" | D_Release 'a "64 word"

text \<open>
  \<open>mp_in\<close> has the items in the order in which their tickets were drawn, \<open>mp_out\<close> what was returned for each
  ticket of a consumer, \<open>None\<close> while the consumer is still at work.
\<close>

record 'a mpmc =
  mp_enqs :: "64 word list"
  mp_deqs :: "64 word list"
  mp_seqs :: "64 word list list"
  mp_data :: "'a list"
  mp_threads :: "nat \<Rightarrow> 'a mpmc_pc"
  mp_in :: "'a list"
  mp_out :: "'a option list"

definition mpmc_start :: "nat \<Rightarrow> 'a list \<Rightarrow> 'a mpmc" where
  "mpmc_start k dat = \<lparr>mp_enqs = [0], mp_deqs = [0], mp_seqs = map (\<lambda>i. [of_nat i]) [0 ..< 2 ^ k], mp_data = dat,
     mp_threads = (\<lambda>_. M_Idle), mp_in = [], mp_out = []\<rparr>"

definition goto :: "nat \<Rightarrow> 'a mpmc_pc \<Rightarrow> 'a mpmc \<Rightarrow> 'a mpmc" where
  "goto i pc s = s\<lparr>mp_threads := (mp_threads s)(i := pc)\<rparr>"

definition store_seq :: "nat \<Rightarrow> 64 word \<Rightarrow> 'a mpmc \<Rightarrow> 'a mpmc" where
  "store_seq sl w s = s\<lparr>mp_seqs := (mp_seqs s)[sl := mp_seqs s ! sl @ [w]]\<rparr>"

text \<open>\<open>(intptr_t)seq - (intptr_t)pos\<close>\<close>

definition seq_diff :: "64 word \<Rightarrow> 64 word \<Rightarrow> int" where
  "seq_diff q w = sint q - sint w"

inductive mpmc_step :: "nat \<Rightarrow> 'a mpmc \<Rightarrow> 'a mpmc \<Rightarrow> bool" for k where
  enq_call: "mp_threads s i = M_Idle \<Longrightarrow> mpmc_step k s (goto i (E_Load x) s)"
| enq_load: "mp_threads s i = E_Load x \<Longrightarrow> w \<in> set (mp_enqs s) \<Longrightarrow> mpmc_step k s (goto i (E_Seq x w) s)"
| enq_turn: "mp_threads s i = E_Seq x w \<Longrightarrow> q \<in> set (mp_seqs s ! slot_of k w) \<Longrightarrow> seq_diff q w = 0 \<Longrightarrow>
    mpmc_step k s (goto i (E_Cas x w) s)"
| enq_full: "mp_threads s i = E_Seq x w \<Longrightarrow> q \<in> set (mp_seqs s ! slot_of k w) \<Longrightarrow> seq_diff q w < 0 \<Longrightarrow>
    mpmc_step k s (goto i M_Idle s)"
| enq_behind: "mp_threads s i = E_Seq x w \<Longrightarrow> q \<in> set (mp_seqs s ! slot_of k w) \<Longrightarrow> 0 < seq_diff q w \<Longrightarrow>
    mpmc_step k s (goto i (E_Load x) s)"
| enq_claim: "mp_threads s i = E_Cas x w \<Longrightarrow> last (mp_enqs s) = w \<Longrightarrow>
    mpmc_step k s (goto i (E_Write x w) (s\<lparr>mp_enqs := mp_enqs s @ [w + 1], mp_in := mp_in s @ [x]\<rparr>))"
| enq_lost: "mp_threads s i = E_Cas x w \<Longrightarrow> v \<in> set (mp_enqs s) \<Longrightarrow> mpmc_step k s (goto i (E_Seq x v) s)"
| enq_write: "mp_threads s i = E_Write x w \<Longrightarrow>
    mpmc_step k s (goto i (E_Publish x w) (s\<lparr>mp_data := (mp_data s)[slot_of k w := x]\<rparr>))"
| enq_publish: "mp_threads s i = E_Publish x w \<Longrightarrow>
    mpmc_step k s (goto i M_Idle (store_seq (slot_of k w) (w + 1) s))"
| deq_call: "mp_threads s i = M_Idle \<Longrightarrow> mpmc_step k s (goto i D_Load s)"
| deq_load: "mp_threads s i = D_Load \<Longrightarrow> w \<in> set (mp_deqs s) \<Longrightarrow> mpmc_step k s (goto i (D_Seq w) s)"
| deq_turn: "mp_threads s i = D_Seq w \<Longrightarrow> q \<in> set (mp_seqs s ! slot_of k w) \<Longrightarrow> seq_diff q (w + 1) = 0 \<Longrightarrow>
    mpmc_step k s (goto i (D_Cas w) s)"
| deq_empty: "mp_threads s i = D_Seq w \<Longrightarrow> q \<in> set (mp_seqs s ! slot_of k w) \<Longrightarrow> seq_diff q (w + 1) < 0 \<Longrightarrow>
    mpmc_step k s (goto i M_Idle s)"
| deq_behind: "mp_threads s i = D_Seq w \<Longrightarrow> q \<in> set (mp_seqs s ! slot_of k w) \<Longrightarrow> 0 < seq_diff q (w + 1) \<Longrightarrow>
    mpmc_step k s (goto i D_Load s)"
| deq_claim: "mp_threads s i = D_Cas w \<Longrightarrow> last (mp_deqs s) = w \<Longrightarrow>
    mpmc_step k s (goto i (D_Read w) (s\<lparr>mp_deqs := mp_deqs s @ [w + 1], mp_out := mp_out s @ [None]\<rparr>))"
| deq_lost: "mp_threads s i = D_Cas w \<Longrightarrow> v \<in> set (mp_deqs s) \<Longrightarrow> mpmc_step k s (goto i (D_Seq v) s)"
| deq_read: "mp_threads s i = D_Read w \<Longrightarrow>
    mpmc_step k s (goto i (D_Release (mp_data s ! slot_of k w) w) s)"
| deq_release: "mp_threads s i = D_Release x w \<Longrightarrow>
    mpmc_step k s (goto i M_Idle (store_seq (slot_of k w) (w + 2 ^ k)
      (s\<lparr>mp_out := (mp_out s)[unat w := Some x]\<rparr>)))"

inductive mpmc_reach :: "nat \<Rightarrow> 'a mpmc \<Rightarrow> bool" for k where
  start: "length dat = 2 ^ k \<Longrightarrow> mpmc_reach k (mpmc_start k dat)"
| step: "mpmc_reach k s \<Longrightarrow> mpmc_step k s s' \<Longrightarrow> mpmc_reach k s'"

section \<open>Sequence numbers\<close>

text \<open>
  The values slot \<open>i\<close> goes through: its position, one more when the item is there, the position of the next lap
  when it has been taken, and so on.
\<close>

definition seq_at :: "nat \<Rightarrow> nat \<Rightarrow> nat \<Rightarrow> nat" where
  "seq_at c i j = i + (j div 2) * c + j mod 2"

lemma seq_at_start: "seq_at c (p mod c) (2 * (p div c)) = p"
  by (simp add: seq_at_def)

lemma seq_at_full: "seq_at c (p mod c) (Suc (2 * (p div c))) = Suc p"
  by (simp add: seq_at_def)

lemma seq_at_next: "seq_at c (p mod c) (Suc (Suc (2 * (p div c)))) = p + c"
proof -
  have "Suc (Suc (2 * (p div c))) = 2 * Suc (p div c)" by simp
  then show ?thesis by (simp add: seq_at_def)
qed

lemma mult_plus_one:
  assumes "2 \<le> (c :: nat)" and "a * c + r = b * c + q" and "r \<le> 1" and "q \<le> 1"
  shows "a = b \<and> r = q"
proof -
  have "r < c" "q < c" using assms by auto
  then have "(a * c + r) div c = a" "(b * c + q) div c = b" by simp_all
  then show ?thesis using assms(2) by simp
qed

lemma seq_at_inj: "2 \<le> c \<Longrightarrow> seq_at c i j = seq_at c i j' \<Longrightarrow> j = j'"
proof -
  assume "2 \<le> c" "seq_at c i j = seq_at c i j'"
  then have "j div 2 = j' div 2 \<and> j mod 2 = j' mod 2"
    by (intro mult_plus_one [of c]) (auto simp: seq_at_def)
  then show ?thesis by (metis div_mult_mod_eq)
qed

section \<open>The invariant\<close>

text \<open>How many values slot \<open>p mod c\<close> has gone through, and the ticket a thread holds.\<close>

definition level :: "nat \<Rightarrow> 'a mpmc \<Rightarrow> nat \<Rightarrow> nat" where
  "level c s p = length (mp_seqs s ! (p mod c))"

abbreviation turn :: "nat \<Rightarrow> nat \<Rightarrow> nat" where
  "turn c p \<equiv> Suc (2 * (p div c))"

fun ticket :: "'a mpmc_pc \<Rightarrow> (bool \<times> 64 word) option" where
  "ticket (E_Write x w) = Some (True, w)"
| "ticket (E_Publish x w) = Some (True, w)"
| "ticket (D_Read w) = Some (False, w)"
| "ticket (D_Release x w) = Some (False, w)"
| "ticket _ = None"

definition enq_at :: "nat \<Rightarrow> 'a mpmc \<Rightarrow> 'a \<Rightarrow> 64 word \<Rightarrow> nat \<Rightarrow> bool" where
  "enq_at c s x w p \<longleftrightarrow> p < length (mp_in s) \<and> w = of_nat p \<and> level c s p = turn c p \<and> mp_in s ! p = x"

definition deq_at :: "nat \<Rightarrow> 'a mpmc \<Rightarrow> 64 word \<Rightarrow> nat \<Rightarrow> bool" where
  "deq_at c s w p \<longleftrightarrow> p < length (mp_out s) \<and> w = of_nat p \<and> level c s p = Suc (turn c p) \<and> mp_out s ! p = None"

fun thread_ok :: "nat \<Rightarrow> 'a mpmc \<Rightarrow> 'a mpmc_pc \<Rightarrow> bool" where
  "thread_ok c s (E_Seq x w) = (\<exists>p \<le> length (mp_in s). w = of_nat p)"
| "thread_ok c s (E_Cas x w) = (\<exists>p \<le> length (mp_in s). w = of_nat p \<and> turn c p \<le> level c s p)"
| "thread_ok c s (E_Write x w) = (\<exists>p. enq_at c s x w p)"
| "thread_ok c s (E_Publish x w) = (\<exists>p. enq_at c s x w p \<and> mp_data s ! (p mod c) = x)"
| "thread_ok c s (D_Seq w) = (\<exists>p \<le> length (mp_out s). w = of_nat p)"
| "thread_ok c s (D_Cas w) = (\<exists>p \<le> length (mp_out s). w = of_nat p \<and> turn c p < level c s p)"
| "thread_ok c s (D_Read w) = (\<exists>p. deq_at c s w p)"
| "thread_ok c s (D_Release x w) = (\<exists>p. deq_at c s w p \<and> x = mp_in s ! p)"
| "thread_ok c s _ = True"

definition global_ok :: "nat \<Rightarrow> 'a mpmc \<Rightarrow> bool" where
  "global_ok c s \<longleftrightarrow> length (mp_out s) \<le> length (mp_in s) \<and>
     mp_enqs s = map of_nat [0 ..< Suc (length (mp_in s))] \<and> mp_deqs s = map of_nat [0 ..< Suc (length (mp_out s))] \<and>
     length (mp_seqs s) = c \<and> length (mp_data s) = c \<and>
     (\<forall>i < c. 0 < length (mp_seqs s ! i) \<and> mp_seqs s ! i = map (\<lambda>j. of_nat (seq_at c i j)) [0 ..< length (mp_seqs s ! i)]) \<and>
     (\<forall>p. turn c p < level c s p \<longrightarrow> p < length (mp_in s)) \<and>
     (\<forall>p. Suc (turn c p) < level c s p \<longrightarrow> p < length (mp_out s)) \<and>
     (\<forall>p. level c s p = Suc (turn c p) \<longrightarrow> mp_data s ! (p mod c) = mp_in s ! p) \<and>
     (\<forall>p < length (mp_out s). mp_out s ! p = None \<or> mp_out s ! p = Some (mp_in s ! p))"

lemma global_okD:
  assumes "global_ok c s"
  shows "length (mp_out s) \<le> length (mp_in s)"
    and "mp_enqs s = map of_nat [0 ..< Suc (length (mp_in s))]" and "mp_deqs s = map of_nat [0 ..< Suc (length (mp_out s))]"
    and "length (mp_seqs s) = c" and "length (mp_data s) = c"
    and "i < c \<Longrightarrow> 0 < length (mp_seqs s ! i)"
    and "i < c \<Longrightarrow> mp_seqs s ! i = map (\<lambda>j. of_nat (seq_at c i j)) [0 ..< length (mp_seqs s ! i)]"
    and "turn c p < level c s p \<Longrightarrow> p < length (mp_in s)" and "Suc (turn c p) < level c s p \<Longrightarrow> p < length (mp_out s)"
    and "level c s p = Suc (turn c p) \<Longrightarrow> mp_data s ! (p mod c) = mp_in s ! p"
    and "p < length (mp_out s) \<Longrightarrow> mp_out s ! p = None \<or> mp_out s ! p = Some (mp_in s ! p)"
  using assms unfolding global_ok_def by blast+

definition mpmc_inv :: "nat \<Rightarrow> 'a mpmc \<Rightarrow> bool" where
  "mpmc_inv c s \<longleftrightarrow> global_ok c s \<and> (\<forall>i. thread_ok c s (mp_threads s i)) \<and>
     (\<forall>i j t. ticket (mp_threads s i) = Some t \<and> ticket (mp_threads s j) = Some t \<longrightarrow> i = j)"

definition holds :: "nat \<Rightarrow> 'a mpmc \<Rightarrow> 'a mpmc_pc \<Rightarrow> bool \<Rightarrow> nat \<Rightarrow> bool" where
  "holds c s pc b p \<longleftrightarrow> ticket pc = Some (b, of_nat p) \<and> p < (if b then length (mp_in s) else length (mp_out s)) \<and>
     level c s p = (if b then turn c p else Suc (turn c p))"

text \<open>What the step of one thread must leave alone for the others.\<close>

definition leaves :: "nat \<Rightarrow> 'a mpmc \<Rightarrow> 'a mpmc \<Rightarrow> 'a mpmc_pc \<Rightarrow> bool" where
  "leaves c s s' pc \<longleftrightarrow> (\<forall>p. level c s p \<le> level c s' p) \<and> length (mp_in s) \<le> length (mp_in s') \<and>
     length (mp_out s) \<le> length (mp_out s') \<and> (\<forall>p < length (mp_in s). mp_in s' ! p = mp_in s ! p) \<and>
     (\<forall>b p. holds c s pc b p \<longrightarrow>
        level c s' p = level c s p \<and> (b \<longrightarrow> mp_data s' ! (p mod c) = mp_data s ! (p mod c)) \<and>
        (\<not> b \<longrightarrow> mp_out s' ! p = mp_out s ! p))"

lemma thread_ok_leaves:
  assumes "thread_ok c s pc" and "leaves c s s' pc" and "length (mp_out s) \<le> length (mp_in s)"
  shows "thread_ok c s' pc"
proof -
  have mono: "level c s p \<le> level c s' p" "length (mp_in s) \<le> length (mp_in s')" "length (mp_out s) \<le> length (mp_out s')"
      "p < length (mp_in s) \<Longrightarrow> mp_in s' ! p = mp_in s ! p" for p
    using assms(2) by (auto simp: leaves_def)
  have kept: "level c s' p = level c s p" "b \<Longrightarrow> mp_data s' ! (p mod c) = mp_data s ! (p mod c)"
      "\<not> b \<Longrightarrow> mp_out s' ! p = mp_out s ! p" if "holds c s pc b p" for b p
    using assms(2) that unfolding leaves_def by blast+
  show ?thesis
  proof (cases pc)
    case (E_Cas x w)
    then obtain p where "p \<le> length (mp_in s)" "w = of_nat p" "turn c p \<le> level c s p" using assms(1) by auto
    then show ?thesis using E_Cas mono(1) [of p] mono(2) by (auto intro!: exI [of _ p])
  next
    case (D_Cas w)
    then obtain p where "p \<le> length (mp_out s)" "w = of_nat p" "turn c p < level c s p" using assms(1) by auto
    then show ?thesis using D_Cas mono(1) [of p] mono(3) by (auto intro!: exI [of _ p])
  next
    case (E_Write x w)
    then obtain p where p: "enq_at c s x w p" using assms(1) by auto
    then have "holds c s pc True p" by (simp add: E_Write holds_def enq_at_def)
    then show ?thesis using p kept [of True p] mono(2,4) by (auto simp: E_Write enq_at_def intro!: exI [of _ p])
  next
    case (E_Publish x w)
    then obtain p where p: "enq_at c s x w p" "mp_data s ! (p mod c) = x" using assms(1) by auto
    then have "holds c s pc True p" by (simp add: E_Publish holds_def enq_at_def)
    then show ?thesis using p kept [of True p] mono(2,4) by (auto simp: E_Publish enq_at_def intro!: exI [of _ p])
  next
    case (D_Read w)
    then obtain p where p: "deq_at c s w p" using assms(1) by auto
    then have "holds c s pc False p" by (simp add: D_Read holds_def deq_at_def)
    then show ?thesis using p kept [of False p] mono(3) by (auto simp: D_Read deq_at_def intro!: exI [of _ p])
  next
    case (D_Release x w)
    then obtain p where p: "deq_at c s w p" "x = mp_in s ! p" using assms(1) by auto
    then have "holds c s pc False p" by (simp add: D_Release holds_def deq_at_def)
    then show ?thesis using p kept [of False p] mono(3,4) assms(3) by (auto simp: D_Release deq_at_def intro!: exI [of _ p])
  qed (use assms(1) mono in \<open>auto intro: le_trans\<close>)
qed

lemma mpmc_inv_step:
  assumes "mpmc_inv c s" and "global_ok c s'" and "mp_threads s' = (mp_threads s)(i := pc)" and "thread_ok c s' pc"
    and "\<And>j. j \<noteq> i \<Longrightarrow> leaves c s s' (mp_threads s j)"
    and "ticket pc = ticket (mp_threads s i) \<or> ticket pc = None \<or> (\<forall>j. ticket (mp_threads s j) \<noteq> ticket pc)"
  shows "mpmc_inv c s'"
  unfolding mpmc_inv_def
proof (intro conjI allI impI)
  fix j show "thread_ok c s' (mp_threads s' j)"
    using assms(1,3,4) thread_ok_leaves [OF _ assms(5)] by (auto simp: mpmc_inv_def global_ok_def)
next
  fix j l t assume t: "ticket (mp_threads s' j) = Some t \<and> ticket (mp_threads s' l) = Some t"
  have u: "ticket (mp_threads s j) = Some v \<Longrightarrow> ticket (mp_threads s l) = Some v \<Longrightarrow> j = l" for j l v
    using assms(1) unfolding mpmc_inv_def by blast
  have "ticket pc = Some t \<Longrightarrow> ticket (mp_threads s j) = Some t \<Longrightarrow> j = i" for j using assms(6) u by (metis option.distinct(1))
  then show "j = l" using t u unfolding assms(3) fun_upd_apply by metis
qed (rule assms(2))

text \<open>A step that changes nothing but the place of its thread.\<close>

lemma goto_sel [simp]:
  "mp_enqs (goto i pc s) = mp_enqs s" "mp_deqs (goto i pc s) = mp_deqs s" "mp_seqs (goto i pc s) = mp_seqs s"
  "mp_data (goto i pc s) = mp_data s" "mp_in (goto i pc s) = mp_in s" "mp_out (goto i pc s) = mp_out s"
  "mp_threads (goto i pc s) = (mp_threads s)(i := pc)"
  by (simp_all add: goto_def)

lemma goto_inv:
  assumes "mpmc_inv c s" and "thread_ok c s pc" and "ticket pc = ticket (mp_threads s i) \<or> ticket pc = None"
  shows "mpmc_inv c (goto i pc s)"
proof (rule mpmc_inv_step [OF assms(1)])
  have l: "level c (goto i q s) = level c s" for q by (simp add: level_def fun_eq_iff)
  have e: "enq_at c (goto i q s) = enq_at c s" "deq_at c (goto i q s) = deq_at c s" for q
    by (simp_all add: enq_at_def deq_at_def l fun_eq_iff)
  show "global_ok c (goto i pc s)" using assms(1) by (simp add: mpmc_inv_def global_ok_def l)
  show "thread_ok c (goto i pc s) pc" using assms(2) by (cases pc) (simp_all add: l e)
  show "leaves c s (goto i pc s) (mp_threads s j)" for j by (simp add: leaves_def l)
qed (use assms(3) in auto)

section \<open>Slots and tickets\<close>

lemma turn_less: "2 \<le> c \<Longrightarrow> q mod c = p mod c \<Longrightarrow> turn c q < Suc (turn c p) \<Longrightarrow> q \<le> p"
  by (metis Suc_less_SucD div_le_mono less_Suc_eq_le linorder_le_cases mod_mult_div_eq mult_le_mono1 mult_le_mono2
      nat_add_left_cancel_le nat_mult_le_cancel_disj zero_less_numeral)

lemma turn_eq: "q mod c = p mod c \<Longrightarrow> turn c q = turn c p \<Longrightarrow> q = p"
  by (metis Suc_inject mod_mult_div_eq mult_cancel1 zero_neq_numeral)

lemma turn_parity: "turn c q \<noteq> Suc (turn c p)"
  using double_not_eq_Suc_double by simp

lemma same_slot_level: "q mod c = p mod c \<Longrightarrow> level c s q = level c s p"
  by (simp add: level_def)

text \<open>Two threads with tickets are at different slots.\<close>

lemma slot_alone:
  assumes "mpmc_inv c s" and "holds c s (mp_threads s i) b p" and "holds c s (mp_threads s j) b' q" and "j \<noteq> i"
  shows "q mod c \<noteq> p mod c"
proof
  assume m: "q mod c = p mod c"
  have l: "level c s q = level c s p" by (rule same_slot_level [OF m])
  have "b = b'" using assms(2,3) l turn_parity by (auto simp: holds_def split: if_splits) metis+
  then have "q = p" using assms(2,3) l turn_eq [OF m] by (auto simp: holds_def split: if_splits)
  then have "ticket (mp_threads s i) = ticket (mp_threads s j)" using assms(2,3) \<open>b = b'\<close> by (simp add: holds_def)
  then show False using assms unfolding mpmc_inv_def holds_def by metis
qed

lemma seq_bound:
  assumes "global_ok c s" and "2 \<le> c" and "i < c" and "j < length (mp_seqs s ! i)"
  shows "seq_at c i j \<le> length (mp_in s) + c"
proof -
  define m where "m = j div 2"
  have pos: "(i + m * c) mod c = i" "(i + m * c) div c = m" for m using assms(3) by simp_all
  have lev: "level c s (i + m * c) = length (mp_seqs s ! i)" for m using assms(3) by (simp add: level_def)
  have jm: "j = 2 * m + j mod 2" by (simp add: m_def)
  show ?thesis
  proof (cases "j mod 2 = 1")
    case True
    then have "j = turn c (i + m * c)" using jm unfolding pos(2) by simp
    then have "i + m * c < length (mp_in s)" using global_okD(8) [OF assms(1), of "i + m * c"] assms(4) lev [of m] by simp
    then show ?thesis using True assms(2) by (simp add: seq_at_def m_def)
  next
    case False
    show ?thesis
    proof (cases m)
      case 0
      then show ?thesis using False assms(3) by (simp add: seq_at_def m_def)
    next
      case (Suc n)
      then have "j = Suc (turn c (i + n * c))" using jm False unfolding pos(2) by simp
      then have "i + n * c < length (mp_out s)" using global_okD(9) [OF assms(1), of "i + n * c"] assms(4) lev [of n] by simp
      moreover have "length (mp_out s) \<le> length (mp_in s)" using assms(1) by (simp add: global_ok_def)
      moreover have "seq_at c i j = i + n * c + c" using False Suc by (simp add: seq_at_def m_def)
      ultimately show ?thesis by linarith
    qed
  qed
qed

text \<open>What a thread knows when the difference it computes is zero.\<close>

lemma seq_diff_0: "seq_diff q w = 0 \<longleftrightarrow> q = w"
  by (auto simp: seq_diff_def intro: signed_word_eqI)

lemma seq_seen:
  assumes "global_ok (2 ^ k) s" and "1 \<le> k" and "k < 62" and "length (mp_in s) \<le> 2 ^ 62" and "p \<le> length (mp_in s)"
    and "of_nat v \<in> set (mp_seqs s ! slot_of k (of_nat p))" and "v \<le> Suc p"
  shows "\<exists>j < level (2 ^ k) s p. seq_at (2 ^ k) (p mod 2 ^ k) j = v"
proof -
  let ?c = "2 ^ k :: nat" and ?i = "p mod 2 ^ k"
  have "2 ^ 1 \<le> ?c" "?c \<le> 2 ^ 62" using assms(2,3) by (intro power_increasing; simp)+
  then have c: "2 \<le> ?c" "?c \<le> 2 ^ 62" by simp_all
  have i: "?i < ?c" by simp
  have sl: "slot_of k (of_nat p) = ?i" using assms(3) by (intro slot_of_nat) simp
  have "mp_seqs s ! ?i = map (\<lambda>j. of_nat (seq_at ?c ?i j)) [0 ..< length (mp_seqs s ! ?i)]"
    by (rule global_okD(7) [OF assms(1) i])
  then have "(of_nat v :: 64 word) \<in> (\<lambda>j. of_nat (seq_at ?c ?i j)) ` set [0 ..< length (mp_seqs s ! ?i)]"
    using assms(6) unfolding sl by (metis set_map)
  then obtain j where j: "j < length (mp_seqs s ! ?i)" "(of_nat v :: 64 word) = of_nat (seq_at ?c ?i j)" by auto
  have "seq_at ?c ?i j \<le> length (mp_in s) + ?c" by (rule seq_bound [OF assms(1) c(1) i j(1)])
  then have "seq_at ?c ?i j < 2 ^ 64" "v < 2 ^ 64" using c(2) assms(4,5,7) by simp_all
  then show ?thesis using j of_nat_word_eq by (auto simp: level_def)
qed

section \<open>The steps that change the queue\<close>

lemma level_cong: "mp_seqs s' = mp_seqs s \<Longrightarrow> level c s' = level c s"
  by (simp add: level_def fun_eq_iff)

lemma mpmc_invD:
  assumes "mpmc_inv c s"
  shows "global_ok c s" and "thread_ok c s (mp_threads s i)"
    and "ticket (mp_threads s i) = Some t \<Longrightarrow> ticket (mp_threads s j) = Some t \<Longrightarrow> i = j"
  using assms unfolding mpmc_inv_def by blast+

lemma last_counter_nat: "last (map (of_nat :: nat \<Rightarrow> 64 word) [0 ..< Suc n]) = of_nat n"
  by simp

text \<open>A ticket that has not been drawn is held by nobody.\<close>

lemma fresh_ticket:
  assumes "mpmc_inv c s" and "n = (if b then length (mp_in s) else length (mp_out s))" and "n < 2 ^ 64"
  shows "ticket (mp_threads s j) \<noteq> Some (b, of_nat n)"
proof
  assume t: "ticket (mp_threads s j) = Some (b, of_nat n)"
  note ok = mpmc_invD(2) [OF assms(1), of j]
  obtain p where "p < n" "(of_nat n :: 64 word) = of_nat p"
    using t ok assms(2) by (cases "mp_threads s j") (auto simp: enq_at_def deq_at_def)
  then show False using of_nat_word_eq [of n p] assms(3) by simp
qed

lemma enq_claim_inv:
  assumes "mpmc_inv c s" and "mp_threads s i = E_Cas x w" and "last (mp_enqs s) = w" and "length (mp_in s) < 2 ^ 64"
  shows "mpmc_inv c (goto i (E_Write x w) (s\<lparr>mp_enqs := mp_enqs s @ [w + 1], mp_in := mp_in s @ [x]\<rparr>))" (is "mpmc_inv c ?s")
proof -
  let ?e = "length (mp_in s)"
  note g = global_okD [OF mpmc_invD(1) [OF assms(1)]]
  have w: "w = of_nat ?e" using assms(3) unfolding g(2) last_counter_nat by simp
  obtain p where p: "p \<le> ?e" "w = of_nat p" "turn c p \<le> level c s p" using mpmc_invD(2) [OF assms(1), of i] assms(2) by auto
  then have "p = ?e" using w of_nat_word_eq [of p ?e] assms(4) by simp
  then have lev: "level c s ?e = turn c ?e" using p(3) g(8) [of ?e] by fastforce
  have l: "level c ?s = level c s" by (rule level_cong) simp
  have nth: "q < ?e \<Longrightarrow> (mp_in s @ [x]) ! q = mp_in s ! q" for q by (simp add: nth_append)
  have known: "q < length (mp_out s) \<Longrightarrow> q < ?e" for q using g(1) by simp
  show ?thesis
  proof (rule mpmc_inv_step [OF assms(1)])
    show "global_ok c ?s"
      unfolding global_ok_def l
    proof (intro conjI)
      show "mp_enqs ?s = map of_nat [0 ..< Suc (length (mp_in ?s))]" by (simp add: g(2) w add.commute)
      show "\<forall>p. level c s p = Suc (turn c p) \<longrightarrow> mp_data ?s ! (p mod c) = mp_in ?s ! p"
        using g(8,10) nth by auto
      show "\<forall>p < length (mp_out ?s). mp_out ?s ! p = None \<or> mp_out ?s ! p = Some (mp_in ?s ! p)"
        using g(11) nth known by auto
    qed (use g less_Suc_eq in \<open>auto simp del: upt_Suc\<close>)
    show "thread_ok c ?s (E_Write x w)" using lev l w by (auto simp: enq_at_def intro!: exI [of _ ?e])
    show "leaves c s ?s (mp_threads s j)" for j by (simp add: leaves_def l nth)
    show "ticket (E_Write x w) = ticket (mp_threads s i) \<or> ticket (E_Write x w) = None \<or>
        (\<forall>j. ticket (mp_threads s j) \<noteq> ticket (E_Write x w))"
      using fresh_ticket [OF assms(1), of ?e True] assms(4) by (simp add: w)
  qed simp
qed

lemma deq_claim_inv:
  assumes "mpmc_inv c s" and "mp_threads s i = D_Cas w" and "last (mp_deqs s) = w" and "length (mp_in s) < 2 ^ 64"
  shows "mpmc_inv c (goto i (D_Read w) (s\<lparr>mp_deqs := mp_deqs s @ [w + 1], mp_out := mp_out s @ [None]\<rparr>))" (is "mpmc_inv c ?s")
proof -
  let ?d = "length (mp_out s)"
  note g = global_okD [OF mpmc_invD(1) [OF assms(1)]]
  have w: "w = of_nat ?d" using assms(3) unfolding g(3) last_counter_nat by simp
  obtain p where p: "p \<le> ?d" "w = of_nat p" "turn c p < level c s p" using mpmc_invD(2) [OF assms(1), of i] assms(2) by auto
  then have "p = ?d" using w of_nat_word_eq [of p ?d] assms(4) g(1) by simp
  then have lev: "level c s ?d = Suc (turn c ?d)" "?d < length (mp_in s)" using p(3) g(8,9) [of ?d] by fastforce+
  have l: "level c ?s = level c s" by (rule level_cong) simp
  have nth: "q < ?d \<Longrightarrow> (mp_out s @ [None]) ! q = mp_out s ! q" for q by (simp add: nth_append)
  show ?thesis
  proof (rule mpmc_inv_step [OF assms(1)])
    show "global_ok c ?s"
      unfolding global_ok_def l
    proof (intro conjI)
      show "length (mp_out ?s) \<le> length (mp_in ?s)" using lev(2) by simp
      show "mp_deqs ?s = map of_nat [0 ..< Suc (length (mp_out ?s))]" by (simp add: g(3) w add.commute)
      show "\<forall>p < length (mp_out ?s). mp_out ?s ! p = None \<or> mp_out ?s ! p = Some (mp_in ?s ! p)"
        using g(11) nth less_Suc_eq by auto
    qed (use g less_Suc_eq in \<open>auto simp del: upt_Suc\<close>)
    show "thread_ok c ?s (D_Read w)" using lev l w by (auto simp: deq_at_def intro!: exI [of _ ?d])
    show "leaves c s ?s (mp_threads s j)" for j by (simp add: leaves_def l nth holds_def)
    show "ticket (D_Read w) = ticket (mp_threads s i) \<or> ticket (D_Read w) = None \<or>
        (\<forall>j. ticket (mp_threads s j) \<noteq> ticket (D_Read w))"
      using fresh_ticket [OF assms(1), of ?d False] assms(4) g(1) by (simp add: w)
  qed simp
qed

lemma enq_write_inv:
  assumes "mpmc_inv c s" and "mp_threads s i = E_Write x w" and "slot_of k (of_nat p) = p mod c" and "0 < c"
    and "enq_at c s x w p"
  shows "mpmc_inv c (goto i (E_Publish x w) (s\<lparr>mp_data := (mp_data s)[slot_of k w := x]\<rparr>))" (is "mpmc_inv c ?s")
proof -
  note g = global_okD [OF mpmc_invD(1) [OF assms(1)]]
  have p: "p < length (mp_in s)" "w = of_nat p" "level c s p = turn c p" "mp_in s ! p = x" using assms(5) by (simp_all add: enq_at_def)
  have sl: "slot_of k w = p mod c" "p mod c < c" using assms(3,4) p(2) by simp_all
  have l: "level c ?s = level c s" by (rule level_cong) simp
  have hi: "holds c s (mp_threads s i) True p" using p by (simp add: holds_def assms(2))
  have nth: "(mp_data s)[p mod c := x] ! (q mod c) = mp_data s ! (q mod c)" if "q mod c \<noteq> p mod c" for q
    using that by (metis nth_list_update_neq)
  have full: "q mod c \<noteq> p mod c" if "level c s q = Suc (turn c q)" for q
    using that same_slot_level [where q = q and c = c and p = p and s = s] p(3) turn_parity by metis
  have data: "(mp_data s)[p mod c := x] ! (q mod c) = mp_in s ! q" if "level c s q = Suc (turn c q)" for q
    using nth [OF full [OF that]] g(10) [OF that] by simp
  show ?thesis
  proof (rule mpmc_inv_step [OF assms(1)])
    show "global_ok c ?s" unfolding global_ok_def l using g(1-9,11) data by (auto simp: sl simp del: upt_Suc)
    show "thread_ok c ?s (E_Publish x w)" using p(1,3,4) l sl(2) g(5) unfolding sl(1) by (auto simp: enq_at_def p(2) intro!: exI [of _ p])
    show "leaves c s ?s (mp_threads s j)" if "j \<noteq> i" for j
      using slot_alone [OF assms(1) hi _ that] unfolding leaves_def l by (auto simp: sl(1) intro!: nth)
  qed (simp_all add: assms(2))
qed

lemma level_store_seq:
  assumes "p mod c < length (mp_seqs s)"
  shows "level c (store_seq (p mod c) v s) q = (if q mod c = p mod c then Suc (level c s p) else level c s q)"
  using assms by (auto simp: level_def store_seq_def)

lemma store_seq_sel [simp]:
  "mp_enqs (store_seq sl v s) = mp_enqs s" "mp_deqs (store_seq sl v s) = mp_deqs s" "mp_data (store_seq sl v s) = mp_data s"
  "mp_in (store_seq sl v s) = mp_in s" "mp_out (store_seq sl v s) = mp_out s" "mp_threads (store_seq sl v s) = mp_threads s"
  "length (mp_seqs (store_seq sl v s)) = length (mp_seqs s)"
  by (simp_all add: store_seq_def)

text \<open>A store of the next value keeps the list of values of its slot.\<close>

lemma store_seq_values:
  assumes "mp_seqs s ! i = map (\<lambda>j. of_nat (seq_at c i j)) [0 ..< length (mp_seqs s ! i)]" and "i < length (mp_seqs s)"
    and "v = of_nat (seq_at c (p mod c) (length (mp_seqs s ! (p mod c))))" and "p mod c < length (mp_seqs s)"
  shows "mp_seqs (store_seq (p mod c) v s) ! i =
    map (\<lambda>j. of_nat (seq_at c i j)) [0 ..< length (mp_seqs (store_seq (p mod c) v s) ! i)]"
proof (cases "i = p mod c")
  case True
  let ?l = "mp_seqs s ! (p mod c)"
  have "?l @ [v] = map (\<lambda>j. of_nat (seq_at c (p mod c) j)) [0 ..< length ?l] @ [v]" using assms(1) True by simp
  then show ?thesis using assms(3,4) True by (simp add: store_seq_def)
next
  case False
  then show ?thesis using assms(1,2) by (simp add: store_seq_def)
qed

lemma turn_le: "q mod c = p mod c \<Longrightarrow> turn c q \<le> turn c p \<Longrightarrow> q \<le> (p :: nat)"
proof -
  assume a: "q mod c = p mod c" "turn c q \<le> turn c p"
  then have "q div c \<le> p div c" by simp
  then have "q div c * c \<le> p div c * c" by (rule mult_le_mono1)
  then have "q div c * c + q mod c \<le> p div c * c + p mod c" unfolding a(1) by (rule add_le_mono1)
  then show ?thesis unfolding div_mult_mod_eq .
qed

lemma enq_publish_inv:
  assumes "mpmc_inv c s" and "mp_threads s i = E_Publish x w" and "slot_of k (of_nat p) = p mod c" and "0 < c"
    and "enq_at c s x w p" and "mp_data s ! (p mod c) = x"
  shows "mpmc_inv c (goto i M_Idle (store_seq (slot_of k w) (w + 1) s))" (is "mpmc_inv c ?s")
proof -
  note g = global_okD [OF mpmc_invD(1) [OF assms(1)]]
  have p: "p < length (mp_in s)" "w = of_nat p" "level c s p = turn c p" "mp_in s ! p = x" using assms(5) by (simp_all add: enq_at_def)
  have sl: "slot_of k w = p mod c" "p mod c < c" "p mod c < length (mp_seqs s)" using assms(3,4) p(2) g(4) by simp_all
  have seqs: "mp_seqs ?s = mp_seqs (store_seq (p mod c) (w + 1) s)" by (simp add: sl(1))
  have l: "level c ?s q = (if q mod c = p mod c then Suc (turn c p) else level c s q)" for q
    using level_store_seq [OF sl(3)] p(3) by (simp add: level_cong [OF seqs])
  have hi: "holds c s (mp_threads s i) True p" using p by (simp add: holds_def assms(2))
  have v: "w + 1 = of_nat (seq_at c (p mod c) (length (mp_seqs s ! (p mod c))))"
    using p(2,3) seq_at_full [of c p] by (simp add: level_def add.commute)
  have vals: "mp_seqs ?s ! j = map (\<lambda>n. of_nat (seq_at c j n)) [0 ..< length (mp_seqs ?s ! j)]" if "j < c" for j
    unfolding seqs using that sl(3) g(4) by (intro store_seq_values [OF g(7) _ v]) simp_all
  have b1: "q < length (mp_in s)" if "turn c q < level c ?s q" for q
  proof (cases "q mod c = p mod c")
    case True
    then show ?thesis using that turn_le [OF True] p(1) by (simp add: l)
  qed (use that g(8) l in simp)
  have b2: "q < length (mp_out s)" if "Suc (turn c q) < level c ?s q" for q
  proof (cases "q mod c = p mod c")
    case True
    then have "Suc (turn c q) < level c s q" using that turn_parity [where c = c and q = p and p = q] same_slot_level [OF True, where s = s] p(3) True by (simp add: l)
    then show ?thesis by (rule g(9))
  qed (use that g(9) l in simp)
  have data: "mp_data s ! (q mod c) = mp_in s ! q" if "level c ?s q = Suc (turn c q)" for q
  proof (cases "q mod c = p mod c")
    case True
    then have "q = p" using that turn_eq [OF True] by (simp add: l)
    then show ?thesis using assms(6) p(4) by simp
  qed (use that g(10) l in simp)
  show ?thesis
  proof (rule mpmc_inv_step [OF assms(1), where i = i and pc = M_Idle])
    show "global_ok c ?s"
      unfolding global_ok_def
    proof (intro conjI allI impI)
      show "0 < length (mp_seqs ?s ! j)" if "j < c" for j
        using g(6) [OF that] that g(4) by (cases "j = p mod c") (simp_all add: sl(1) store_seq_def goto_def)
    qed (use g(1-5,11) vals b1 b2 data in \<open>simp_all del: upt_Suc\<close>)
    show "leaves c s ?s (mp_threads s j)" if "j \<noteq> i" for j
      using slot_alone [OF assms(1) hi _ that] same_slot_level [where c = c and p = p and s = s] p(3) unfolding leaves_def l by auto
  qed simp_all
qed

lemma deq_release_inv:
  assumes "mpmc_inv c s" and "mp_threads s i = D_Release x w" and "slot_of k (of_nat p) = p mod c" and "0 < c"
    and "deq_at c s w p" and "x = mp_in s ! p" and "p < 2 ^ 64" and "c = 2 ^ k"
  shows "mpmc_inv c (goto i M_Idle (store_seq (slot_of k w) (w + 2 ^ k) (s\<lparr>mp_out := (mp_out s)[unat w := Some x]\<rparr>)))"
    (is "mpmc_inv c ?s")
proof -
  note g = global_okD [OF mpmc_invD(1) [OF assms(1)]]
  have p: "p < length (mp_out s)" "w = of_nat p" "level c s p = Suc (turn c p)" "mp_out s ! p = None"
    using assms(5) by (simp_all add: deq_at_def)
  have u: "unat w = p" using assms(7) p(2) by (simp add: unsigned_of_nat take_bit_nat_eq_self)
  have sl: "slot_of k w = p mod c" "p mod c < c" "p mod c < length (mp_seqs s)" using assms(3,4) p(2) g(4) by simp_all
  have seqs: "mp_seqs ?s = mp_seqs (store_seq (p mod c) (w + 2 ^ k) s)" by (simp add: sl(1) store_seq_def)
  have l: "level c ?s q = (if q mod c = p mod c then Suc (Suc (turn c p)) else level c s q)" for q
    using level_store_seq [OF sl(3)] p(3) by (simp add: level_cong [OF seqs])
  have hi: "holds c s (mp_threads s i) False p" using p by (simp add: holds_def assms(2))
  have v: "w + 2 ^ k = of_nat (seq_at c (p mod c) (length (mp_seqs s ! (p mod c))))"
    using p(2,3) seq_at_next [of c p] assms(8) by (simp add: level_def)
  have vals: "mp_seqs ?s ! j = map (\<lambda>n. of_nat (seq_at c j n)) [0 ..< length (mp_seqs ?s ! j)]" if "j < c" for j
    unfolding seqs using that sl(3) g(4) by (intro store_seq_values [OF g(7) _ v]) simp_all
  have b: "q \<le> p" if "q mod c = p mod c" "turn c q \<le> Suc (turn c p)" for q
  proof (rule turn_le [OF that(1)])
    show "turn c q \<le> turn c p" using that(2) turn_parity [where c = c and q = q and p = p] by linarith
  qed
  have b1: "q < length (mp_in s)" if "turn c q < level c ?s q" for q
  proof (cases "q mod c = p mod c")
    case True
    then show ?thesis using that b [OF True] p(1) g(1) by (simp add: l)
  qed (use that g(8) l in simp)
  have b2: "q < length (mp_out s)" if "Suc (turn c q) < level c ?s q" for q
  proof (cases "q mod c = p mod c")
    case True
    then show ?thesis using that b [OF True] p(1) by (simp add: l)
  qed (use that g(9) l in simp)
  have data: "mp_data s ! (q mod c) = mp_in s ! q" if "level c ?s q = Suc (turn c q)" for q
  proof (cases "q mod c = p mod c")
    case True
    then show ?thesis using that turn_parity [where c = c and q = q and p = p] by (simp add: l)
  qed (use that g(10) l in simp)
  have out: "(mp_out s)[p := Some x] ! q = None \<or> (mp_out s)[p := Some x] ! q = Some (mp_in s ! q)" if "q < length (mp_out s)" for q
    using g(11) [OF that] assms(6) that by (cases "q = p") simp_all
  show ?thesis
  proof (rule mpmc_inv_step [OF assms(1), where i = i and pc = M_Idle])
    show "global_ok c ?s"
      unfolding global_ok_def
    proof (intro conjI allI impI)
      show "0 < length (mp_seqs ?s ! j)" if "j < c" for j
        using g(6) [OF that] that g(4) by (cases "j = p mod c") (simp_all add: sl(1) store_seq_def goto_def)
    qed (use g(1-5) vals b1 b2 data out in \<open>simp_all add: u del: upt_Suc\<close>)
    have "(mp_out s)[p := Some x] ! q = mp_out s ! q" if "q mod c \<noteq> p mod c" for q using that by (metis nth_list_update_neq)
    then show "leaves c s ?s (mp_threads s j)" if "j \<noteq> i" for j
      using slot_alone [OF assms(1) hi _ that] same_slot_level [where c = c and p = p and s = s] p(3) unfolding leaves_def l by (auto simp: u)
  qed simp_all
qed

section \<open>Every run\<close>

lemma in_counter: "w \<in> set (map (of_nat :: nat \<Rightarrow> 64 word) [0 ..< Suc n]) \<Longrightarrow> \<exists>p \<le> n. w = of_nat p"
proof -
  assume "w \<in> set (map (of_nat :: nat \<Rightarrow> 64 word) [0 ..< Suc n])"
  then obtain p where "p < Suc n" "w = of_nat p" by (auto simp del: upt_Suc)
  then show ?thesis using less_Suc_eq_le by blast
qed

lemma mpmc_step_inv:
  assumes "mpmc_inv (2 ^ k) s" and "mpmc_step k s s'" and "1 \<le> k" and "k < 62" and "length (mp_in s) \<le> 2 ^ 62"
  shows "mpmc_inv (2 ^ k) s'"
proof -
  let ?c = "2 ^ k :: nat"
  have small: "length (mp_in s) < 2 ^ 64" using assms(5) by simp
  have slot: "slot_of k (of_nat p) = p mod ?c" for p using assms(4) by (intro slot_of_nat) simp
  have c: "0 < ?c" "2 \<le> ?c" using assms(3) power_increasing [of 1 k "2 :: nat"] by simp_all
  note g0 = mpmc_invD(1) [OF assms(1)]
  note g = global_okD [OF g0]
  note th = mpmc_invD(2) [OF assms(1)]
  note seen = seq_seen [OF g0 assms(3,4,5)]
  show ?thesis using assms(2)
  proof (cases rule: mpmc_step.cases)
    case (enq_load i x w)
    then have "\<exists>p \<le> length (mp_in s). w = of_nat p" using g(2) in_counter by metis
    then show ?thesis using enq_load by (auto intro!: goto_inv [OF assms(1)])
  next
    case (enq_turn i x w q)
    then obtain p where p: "p \<le> length (mp_in s)" "w = of_nat p" using th [of i] by auto
    have "q = of_nat p" using enq_turn(4) p(2) by (simp add: seq_diff_0)
    then obtain j where j: "j < level ?c s p" "seq_at ?c (p mod ?c) j = p" using seen [of p p] enq_turn(3) p by auto
    then have "j = 2 * (p div ?c)" using seq_at_inj [OF c(2), of "p mod ?c" j "2 * (p div ?c)"] by (simp add: seq_at_start)
    then have "thread_ok ?c s (E_Cas x w)" using j p by (auto intro!: exI [of _ p])
    then show ?thesis using enq_turn by (simp add: goto_inv [OF assms(1)])
  next
    case (enq_claim i x w)
    then show ?thesis using enq_claim_inv [OF assms(1), of i x w] small by simp
  next
    case (enq_lost i x w v)
    then have "\<exists>p \<le> length (mp_in s). v = of_nat p" using g(2) in_counter by metis
    then show ?thesis using enq_lost by (auto intro!: goto_inv [OF assms(1)])
  next
    case (enq_write i x w)
    then obtain p where "enq_at ?c s x w p" using th [of i] by auto
    then show ?thesis using enq_write enq_write_inv [OF assms(1) enq_write(2) slot c(1)] by simp
  next
    case (enq_publish i x w)
    then obtain p where "enq_at ?c s x w p" "mp_data s ! (p mod ?c) = x" using th [of i] by auto
    then show ?thesis using enq_publish enq_publish_inv [OF assms(1) enq_publish(2) slot c(1)] by simp
  next
    case (deq_load i w)
    then have "\<exists>p \<le> length (mp_out s). w = of_nat p" using g(3) in_counter by metis
    then show ?thesis using deq_load by (auto intro!: goto_inv [OF assms(1)])
  next
    case (deq_turn i w q)
    then obtain p where p: "p \<le> length (mp_out s)" "w = of_nat p" using th [of i] by auto
    have "q = of_nat (Suc p)" using deq_turn(4) p(2) by (simp add: seq_diff_0 add.commute)
    then obtain j where j: "j < level ?c s p" "seq_at ?c (p mod ?c) j = Suc p" using seen [of p "Suc p"] deq_turn(3) p g(1) by auto
    then have "j = turn ?c p" using seq_at_inj [OF c(2), of "p mod ?c" j "turn ?c p"] by (simp add: seq_at_full)
    then have "thread_ok ?c s (D_Cas w)" using j p by (auto intro!: exI [of _ p])
    then show ?thesis using deq_turn by (simp add: goto_inv [OF assms(1)])
  next
    case (deq_claim i w)
    then show ?thesis using deq_claim_inv [OF assms(1), of i w] small by simp
  next
    case (deq_lost i w v)
    then have "\<exists>p \<le> length (mp_out s). v = of_nat p" using g(3) in_counter by metis
    then show ?thesis using deq_lost by (auto intro!: goto_inv [OF assms(1)])
  next
    case (deq_read i w)
    then obtain p where p: "deq_at ?c s w p" using th [of i] by auto
    then have "mp_data s ! slot_of k w = mp_in s ! p" using g(10) [of p] slot by (auto simp: deq_at_def)
    then have "thread_ok ?c s (D_Release (mp_data s ! slot_of k w) w)" using p by auto
    then show ?thesis using deq_read by (simp add: goto_inv [OF assms(1)])
  next
    case (deq_release i x w)
    then obtain p where p: "deq_at ?c s w p" "x = mp_in s ! p" using th [of i] by auto
    then have "p < 2 ^ 64" using g(1) small by (simp add: deq_at_def)
    then show ?thesis using deq_release deq_release_inv [OF assms(1) deq_release(2) slot c(1) p] by simp
  qed (auto intro!: goto_inv [OF assms(1)])
qed

lemma mpmc_step_in: "mpmc_step k s s' \<Longrightarrow> length (mp_in s) \<le> length (mp_in s')"
  by (induction rule: mpmc_step.induct) simp_all

lemma mpmc_start_inv: "length dat = 2 ^ k \<Longrightarrow> mpmc_inv (2 ^ k) (mpmc_start k dat)"
proof -
  assume d: "length dat = 2 ^ k"
  have "level (2 ^ k) (mpmc_start k dat) p = 1" for p by (simp add: level_def mpmc_start_def)
  then show ?thesis using d by (simp add: mpmc_inv_def global_ok_def) (simp add: mpmc_start_def seq_at_def)
qed

lemma mpmc_reach_inv:
  assumes "mpmc_reach k s" and "1 \<le> k" and "k < 62" and "length (mp_in s) \<le> 2 ^ 62"
  shows "mpmc_inv (2 ^ k) s"
  using assms
proof (induction rule: mpmc_reach.induct)
  case (step s s')
  then show ?case using mpmc_step_in [OF step.hyps(2)] mpmc_step_inv [OF _ step.hyps(2)] by (meson le_trans)
qed (rule mpmc_start_inv)

text \<open>A ticket of a consumer that has not returned is held by a thread.\<close>

definition pending_held :: "'a mpmc \<Rightarrow> bool" where
  "pending_held s \<longleftrightarrow> (\<forall>p < length (mp_out s). mp_out s ! p = None \<longrightarrow>
     (\<exists>i. ticket (mp_threads s i) = Some (False, of_nat p)))"

lemma pending_goto:
  assumes "pending_held s" and "ticket pc = ticket (mp_threads s i) \<or> ticket (mp_threads s i) = None"
    and "mp_out s' = mp_out s" and "mp_threads s' = (mp_threads s)(i := pc)"
  shows "pending_held s'"
  unfolding pending_held_def
proof (intro allI impI)
  fix p assume "p < length (mp_out s')" "mp_out s' ! p = None"
  then obtain j where j: "ticket (mp_threads s j) = Some (False, of_nat p)" using assms(1,3) by (auto simp: pending_held_def)
  then have "ticket (mp_threads s' j) = Some (False, of_nat p)" using assms(2,4) by (cases "j = i") auto
  then show "\<exists>j. ticket (mp_threads s' j) = Some (False, of_nat p)" by blast
qed

lemma pending_enq:
  assumes "pending_held s" and "ticket (mp_threads s i) = Some (True, w)"
    and "mp_out s' = mp_out s" and "mp_threads s' = (mp_threads s)(i := pc)"
  shows "pending_held s'"
  unfolding pending_held_def
proof (intro allI impI)
  fix p assume "p < length (mp_out s')" "mp_out s' ! p = None"
  then obtain j where j: "ticket (mp_threads s j) = Some (False, of_nat p)" using assms(1,3) by (auto simp: pending_held_def)
  then have "j \<noteq> i" using assms(2) by auto
  then show "\<exists>j. ticket (mp_threads s' j) = Some (False, of_nat p)" using j assms(4) by (intro exI [of _ j]) simp
qed

lemma mpmc_step_pending:
  assumes "pending_held s" and "mpmc_step k s s'" and "length (mp_deqs s) = Suc (length (mp_out s))"
    and "mp_deqs s = map of_nat [0 ..< Suc (length (mp_out s))]" and "length (mp_out s) < 2 ^ 64"
  shows "pending_held s'"
  using assms(2)
proof (cases rule: mpmc_step.cases)
  case (enq_publish i x w)
  then show ?thesis using pending_enq [OF assms(1), of i w s' M_Idle] by simp
next
  case (deq_claim i w)
  have w: "w = of_nat (length (mp_out s))" using deq_claim(3) unfolding assms(4) last_counter_nat by simp
  show ?thesis
    unfolding pending_held_def
  proof (intro allI impI)
    fix p assume p: "p < length (mp_out s')" "mp_out s' ! p = None"
    show "\<exists>j. ticket (mp_threads s' j) = Some (False, of_nat p)"
    proof (cases "p = length (mp_out s)")
      case True
      then show ?thesis using deq_claim(1) w by (intro exI [of _ i]) simp
    next
      case False
      then have "p < length (mp_out s)" "mp_out s ! p = None" using p by (simp_all add: deq_claim(1) nth_append)
      then obtain j where j: "ticket (mp_threads s j) = Some (False, of_nat p)" using assms(1) by (auto simp: pending_held_def)
      then have "j \<noteq> i" using deq_claim(2) by auto
      then show ?thesis using j deq_claim(1) by (intro exI [of _ j]) simp
    qed
  qed
next
  case (deq_release i x w)
  show ?thesis
    unfolding pending_held_def
  proof (intro allI impI)
    fix p assume p: "p < length (mp_out s')" "mp_out s' ! p = None"
    then have "p \<noteq> unat w" by (auto simp: deq_release(1))
    then have "p < length (mp_out s)" "mp_out s ! p = None" using p by (simp_all add: deq_release(1))
    then obtain j where j: "ticket (mp_threads s j) = Some (False, of_nat p)" using assms(1) by (auto simp: pending_held_def)
    have "p < 2 ^ 64" using \<open>p < length (mp_out s)\<close> assms(5) by simp
    then have "j \<noteq> i" using j deq_release(2) \<open>p \<noteq> unat w\<close> by (auto simp: unsigned_of_nat take_bit_nat_eq_self)
    then show "\<exists>j. ticket (mp_threads s' j) = Some (False, of_nat p)" using j deq_release(1) by (intro exI [of _ j]) simp
  qed
qed (rule pending_goto [OF assms(1)]; simp)+

lemma mpmc_reach_pending:
  assumes "mpmc_reach k s" and "1 \<le> k" and "k < 62" and "length (mp_in s) \<le> 2 ^ 62"
  shows "pending_held s"
  using assms
proof (induction rule: mpmc_reach.induct)
  case (start dat)
  then show ?case by (simp add: pending_held_def mpmc_start_def)
next
  case (step s s')
  have l: "length (mp_in s) \<le> 2 ^ 62" using mpmc_step_in [OF step.hyps(2)] step.prems(3) by simp
  note g = global_okD [OF mpmc_invD(1) [OF mpmc_reach_inv [OF step.hyps(1) step.prems(1,2) l]]]
  have "length (mp_deqs s) = Suc (length (mp_out s))" "length (mp_out s) < 2 ^ 64" using g(1,3) l by simp_all
  then show ?case using step.IH step.prems(1,2) l mpmc_step_pending [OF _ step.hyps(2) _ g(3)] by blast
qed

section \<open>Properties\<close>

fun data_slot :: "nat \<Rightarrow> 'a mpmc_pc \<Rightarrow> nat option" where
  "data_slot k (E_Write x w) = Some (slot_of k w)"
| "data_slot k (D_Read w) = Some (slot_of k w)"
| "data_slot k _ = None"

text \<open>
  C28. Any number of threads, any interleaving, fewer than \<open>2 ^ 62\<close> items: the consumers return the items in the order
  of the tickets, each for one ticket, and when no call is running nothing is missing; and no two
  threads are at the data of the same slot.
\<close>

theorem mpmc_threads:
  assumes "mpmc_reach k s" and "1 \<le> k" and "k < 62" and "length (mp_in s) \<le> 2 ^ 62"
  shows "length (mp_out s) \<le> length (mp_in s) \<and>
    (\<forall>p < length (mp_out s). mp_out s ! p = None \<or> mp_out s ! p = Some (mp_in s ! p)) \<and>
    ((\<forall>i. mp_threads s i = M_Idle) \<longrightarrow> mp_out s = map Some (take (length (mp_out s)) (mp_in s))) \<and>
    (\<forall>i j sl. data_slot k (mp_threads s i) = Some sl \<and> data_slot k (mp_threads s j) = Some sl \<longrightarrow> i = j)"
proof -
  note inv = mpmc_reach_inv [OF assms]
  note g = global_okD [OF mpmc_invD(1) [OF inv]]
  have slot: "slot_of k (of_nat p) = p mod 2 ^ k" for p using assms(3) by (intro slot_of_nat) simp
  have idle: "mp_out s = map Some (take (length (mp_out s)) (mp_in s))" if "\<forall>i. mp_threads s i = M_Idle"
  proof (rule nth_equalityI)
    fix p assume p: "p < length (mp_out s)"
    have "mp_out s ! p \<noteq> None" using mpmc_reach_pending [OF assms] that p by (auto simp: pending_held_def)
    then show "mp_out s ! p = map Some (take (length (mp_out s)) (mp_in s)) ! p" using g(1) g(11) [OF p] p by auto
  qed (use g(1) in simp)
  have at: "\<exists>b p. holds (2 ^ k) s (mp_threads s i) b p \<and> sl = p mod 2 ^ k" if "data_slot k (mp_threads s i) = Some sl" for i sl
  proof (cases "mp_threads s i")
    case (E_Write x w)
    then obtain p where p: "enq_at (2 ^ k) s x w p" using mpmc_invD(2) [OF inv, of i] by auto
    then show ?thesis using that E_Write slot [of p] by (intro exI [of _ True] exI [of _ p]) (simp add: holds_def enq_at_def)
  next
    case (D_Read w)
    then obtain p where p: "deq_at (2 ^ k) s w p" using mpmc_invD(2) [OF inv, of i] by auto
    then show ?thesis using that D_Read slot [of p] by (intro exI [of _ False] exI [of _ p]) (simp add: holds_def deq_at_def)
  qed (use that in simp_all)
  have "i = j" if d: "data_slot k (mp_threads s i) = Some sl" "data_slot k (mp_threads s j) = Some sl" for i j sl
  proof -
    obtain b p b' q where "holds (2 ^ k) s (mp_threads s i) b p" "sl = p mod 2 ^ k"
        "holds (2 ^ k) s (mp_threads s j) b' q" "sl = q mod 2 ^ k"
      using at [OF d(1)] at [OF d(2)] by blast
    then show ?thesis using slot_alone [OF inv] by metis
  qed
  then show ?thesis using g(1,11) idle by blast
qed

text \<open>A call that runs alone, here by thread 0.\<close>

definition enqueued :: "nat \<Rightarrow> 64 word \<Rightarrow> 'a \<Rightarrow> 'a mpmc \<Rightarrow> 'a mpmc" where
  "enqueued k w x s = s\<lparr>mp_enqs := mp_enqs s @ [w + 1], mp_in := mp_in s @ [x], mp_data := (mp_data s)[slot_of k w := x],
     mp_seqs := (mp_seqs s)[slot_of k w := mp_seqs s ! slot_of k w @ [w + 1]], mp_threads := (\<lambda>_. M_Idle)\<rparr>"

definition dequeued :: "nat \<Rightarrow> 64 word \<Rightarrow> 'a mpmc \<Rightarrow> 'a mpmc" where
  "dequeued k w s = s\<lparr>mp_deqs := mp_deqs s @ [w + 1], mp_out := (mp_out s @ [None])[unat w := Some (mp_data s ! slot_of k w)],
     mp_seqs := (mp_seqs s)[slot_of k w := mp_seqs s ! slot_of k w @ [w + 2 ^ k]], mp_threads := (\<lambda>_. M_Idle)\<rparr>"

lemma enqueue_alone:
  assumes "mpmc_reach k s" and "mp_threads s = (\<lambda>_. M_Idle)" and "mp_enqs s \<noteq> []" and "last (mp_enqs s) = w"
    and "w \<in> set (mp_seqs s ! slot_of k w)"
  shows "mpmc_reach k (enqueued k w x s)"
proof -
  note step = mpmc_reach.step [where k = k]
  have w: "w \<in> set (mp_enqs s)" using assms(3,4) by auto
  from step [OF assms(1) mpmc_step.enq_call [where i = 0 and x = x]] have "mpmc_reach k (goto 0 (E_Load x) s)"
    using assms(2) by simp
  from step [OF this mpmc_step.enq_load [where i = 0 and w = w]] have "mpmc_reach k (goto 0 (E_Seq x w) s)"
    using w by (simp add: goto_def)
  from step [OF this mpmc_step.enq_turn [where i = 0 and q = w]] have "mpmc_reach k (goto 0 (E_Cas x w) s)"
    using assms(5) by (simp add: goto_def seq_diff_def)
  from step [OF this mpmc_step.enq_claim [where i = 0 and x = x and w = w]]
  have "mpmc_reach k (goto 0 (E_Write x w) (s\<lparr>mp_enqs := mp_enqs s @ [w + 1], mp_in := mp_in s @ [x]\<rparr>))"
    using assms(4) by (simp add: goto_def)
  from step [OF this mpmc_step.enq_write [where i = 0 and x = x and w = w]]
  have "mpmc_reach k (goto 0 (E_Publish x w) (s\<lparr>mp_enqs := mp_enqs s @ [w + 1], mp_in := mp_in s @ [x],
      mp_data := (mp_data s)[slot_of k w := x]\<rparr>))" by (simp add: goto_def)
  from step [OF this mpmc_step.enq_publish [where i = 0 and x = x and w = w]]
  show ?thesis using assms(2) by (simp add: goto_def store_seq_def enqueued_def fun_upd_idem)
qed

lemma dequeue_alone:
  assumes "mpmc_reach k s" and "mp_threads s = (\<lambda>_. M_Idle)" and "mp_deqs s \<noteq> []" and "last (mp_deqs s) = w"
    and "w + 1 \<in> set (mp_seqs s ! slot_of k w)"
  shows "mpmc_reach k (dequeued k w s)"
proof -
  note step = mpmc_reach.step [where k = k]
  have w: "w \<in> set (mp_deqs s)" using assms(3,4) by auto
  from step [OF assms(1) mpmc_step.deq_call [where i = 0]] have "mpmc_reach k (goto 0 D_Load s)"
    using assms(2) by simp
  from step [OF this mpmc_step.deq_load [where i = 0 and w = w]] have "mpmc_reach k (goto 0 (D_Seq w) s)"
    using w by (simp add: goto_def)
  from step [OF this mpmc_step.deq_turn [where i = 0 and w = w and q = "w + 1"]] have "mpmc_reach k (goto 0 (D_Cas w) s)"
    using assms(5) by (simp add: goto_def seq_diff_def)
  from step [OF this mpmc_step.deq_claim [where i = 0 and w = w]]
  have "mpmc_reach k (goto 0 (D_Read w) (s\<lparr>mp_deqs := mp_deqs s @ [w + 1], mp_out := mp_out s @ [None]\<rparr>))"
    using assms(4) by (simp add: goto_def)
  from step [OF this mpmc_step.deq_read [where i = 0 and w = w]]
  have "mpmc_reach k (goto 0 (D_Release (mp_data s ! slot_of k w) w)
      (s\<lparr>mp_deqs := mp_deqs s @ [w + 1], mp_out := mp_out s @ [None]\<rparr>))" by (simp add: goto_def)
  from step [OF this mpmc_step.deq_release [where i = 0 and x = "mp_data s ! slot_of k w" and w = w]]
  show ?thesis using assms(2) by (simp add: goto_def store_seq_def dequeued_def fun_upd_idem)
qed

lemma slots_small: "slot_of (Suc 0) 0 = 0" "slot_of (Suc 0) 1 = 1" "slot_of 0 0 = 0" "slot_of 0 1 = 0" "[0 ..< 2] = [0, 1]"
  by (simp_all add: slot_of_def numeral_2_eq_2)

lemma mpmc_threads_witness:
  "\<exists>s :: nat mpmc. mpmc_reach 1 s \<and> mp_in s = [7, 8] \<and> mp_out s = [Some 7] \<and>
     mp_out s = map Some (take (length (mp_out s)) (mp_in s))"
proof -
  let ?s0 = "mpmc_start 1 [0, 0] :: nat mpmc"
  let ?s1 = "enqueued 1 0 7 ?s0" let ?s2 = "enqueued 1 1 8 ?s1" let ?s3 = "dequeued 1 0 ?s2"
  note defs = enqueued_def dequeued_def mpmc_start_def slots_small
  have "mpmc_reach 1 ?s0" by (rule mpmc_reach.start) simp
  then have "mpmc_reach 1 ?s1" by (rule enqueue_alone) (simp_all add: defs)
  then have "mpmc_reach 1 ?s2" by (rule enqueue_alone) (simp_all add: defs)
  then have r: "mpmc_reach 1 ?s3" by (rule dequeue_alone) (simp_all add: defs)
  have "mp_in ?s3 = [7, 8]" "mp_out ?s3 = [Some 7]" "mp_threads ?s3 = (\<lambda>_. M_Idle)" by (simp_all add: defs)
  then show ?thesis using mpmc_threads [OF r] r by (intro exI [of _ ?s3]) simp
qed

text \<open>
  With one slot, which the static assertion allows, the sequence number of a full slot is the position of the next
  producer: it overwrites the item, and the consumer of the first ticket finds the number ahead of it for ever.
\<close>

lemma mpmc_one_slot:
  "\<exists>s :: nat mpmc. mpmc_reach 0 s \<and> mp_in s = [7, 8] \<and> mp_out s = [] \<and> mp_threads s = (\<lambda>_. M_Idle) \<and> mp_data s = [8] \<and>
     0 < seq_diff (last (mp_seqs s ! 0)) (last (mp_deqs s) + 1)"
proof -
  let ?s0 = "mpmc_start 0 [0] :: nat mpmc"
  let ?s1 = "enqueued 0 0 7 ?s0" let ?s2 = "enqueued 0 1 8 ?s1"
  note defs = enqueued_def mpmc_start_def slots_small
  have "mpmc_reach 0 ?s0" by (rule mpmc_reach.start) simp
  then have "mpmc_reach 0 ?s1" by (rule enqueue_alone) (simp_all add: defs)
  then have r: "mpmc_reach 0 ?s2" by (rule enqueue_alone) (simp_all add: defs)
  then show ?thesis by (intro exI [of _ ?s2]) (simp add: defs seq_diff_def)
qed

end
