(* ===== verification/Ring_Deque.thy ===== *)
theory Ring_Deque
  imports Ring_Spsc "HOL-Library.Multiset"
begin

text \<open>
  \<open>WorkStealingDeque\<close> in \<open>utils/work_stealing_deque.hpp\<close>: the owner pushes and pops at the bottom, any number of thieves
  steal at the top. Every access to a shared variable is a step.

  \<open>pop\<close> stores the new bottom and then loads the top. Nothing in the code keeps a processor from doing the load
  first: the store is relaxed and no fence stands between them. The stores of the owner to \<open>bottom_\<close> are therefore in a
  queue, oldest first, and reach the memory later, in order. With \<open>fenced\<close> the load of \<open>pop\<close> waits until the queue
  is empty, as the sequentially consistent fence of the published algorithm makes it do. The items and the pointer
  to the array are visible at once: a thief reads them after a bottom that was stored later.
\<close>

section \<open>The circular arrays\<close>

text \<open>\<open>CircularArray\<close>; the capacity is the length of the list.\<close>

definition array_slot :: "'a list \<Rightarrow> int \<Rightarrow> nat" where
  "array_slot a i = nat (and i (int (length a) - 1))"

definition array_get :: "'a list \<Rightarrow> int \<Rightarrow> 'a" where
  "array_get a i = a ! array_slot a i"

definition array_put :: "int \<Rightarrow> 'a \<Rightarrow> 'a list \<Rightarrow> 'a list" where
  "array_put i x a = a[array_slot a i := x]"

text \<open>The new array starts with unspecified items, here those of the old one.\<close>

definition array_grow :: "int \<Rightarrow> int \<Rightarrow> 'a list \<Rightarrow> 'a list" where
  "array_grow b t a = foldl (\<lambda>na i. array_put i (array_get a i) na) (a @ a) [t .. b - 1]"

section \<open>The steps\<close>

datatype 'a owner = O_Idle | O_Push 'a int | O_Pop int | O_Popped int int
datatype 'a thief = S_Idle | S_Bottom int | S_Array int | S_Get int nat | S_Cas int 'a

record 'a deque =
  ws_top :: int
  ws_bottom :: int
  ws_stores :: "int list"
  ws_arrays :: "'a list list"
  ws_owner :: "'a owner"
  ws_thieves :: "nat \<Rightarrow> 'a thief"
  ws_pushed :: "'a list"
  ws_taken :: "'a list"

definition deque_start :: "'a list \<Rightarrow> 'a deque" where
  "deque_start a = \<lparr>ws_top = 1, ws_bottom = 1, ws_stores = [], ws_arrays = [a], ws_owner = O_Idle,
     ws_thieves = (\<lambda>_. S_Idle), ws_pushed = [], ws_taken = []\<rparr>"

text \<open>The owner sees its own stores. The current array is the last one; the old ones stay, the code never frees them.\<close>

definition own_bottom :: "'a deque \<Rightarrow> int" where
  "own_bottom s = (if ws_stores s = [] then ws_bottom s else last (ws_stores s))"

definition array_now :: "'a deque \<Rightarrow> 'a list" where
  "array_now s = last (ws_arrays s)"

definition push_arrays :: "int \<Rightarrow> int \<Rightarrow> 'a \<Rightarrow> 'a list list \<Rightarrow> 'a list list" where
  "push_arrays b t x as =
     (let as1 = (if b - t > int (length (last as)) - 1 then as @ [array_grow b t (last as)] else as)
      in butlast as1 @ [array_put b x (last as1)])"

inductive deque_step :: "bool \<Rightarrow> 'a deque \<Rightarrow> 'a deque \<Rightarrow> bool" for fenced where
  push_load: "ws_owner s = O_Idle \<Longrightarrow> deque_step fenced s (s\<lparr>ws_owner := O_Push x (ws_top s)\<rparr>)"
| push_store: "ws_owner s = O_Push x t \<Longrightarrow> deque_step fenced s
    (s\<lparr>ws_arrays := push_arrays (own_bottom s) t x (ws_arrays s), ws_stores := ws_stores s @ [own_bottom s + 1],
       ws_owner := O_Idle, ws_pushed := ws_pushed s @ [x]\<rparr>)"
| pop_store: "ws_owner s = O_Idle \<Longrightarrow> deque_step fenced s
    (s\<lparr>ws_stores := ws_stores s @ [own_bottom s - 1], ws_owner := O_Pop (own_bottom s - 1)\<rparr>)"
| pop_load: "ws_owner s = O_Pop b \<Longrightarrow> (fenced \<longrightarrow> ws_stores s = []) \<Longrightarrow>
    deque_step fenced s (s\<lparr>ws_owner := O_Popped b (ws_top s)\<rparr>)"
| pop_plain: "ws_owner s = O_Popped b t \<Longrightarrow> t < b \<Longrightarrow> deque_step fenced s
    (s\<lparr>ws_owner := O_Idle, ws_taken := ws_taken s @ [array_get (array_now s) b]\<rparr>)"
| pop_last: "ws_owner s = O_Popped b t \<Longrightarrow> t = b \<Longrightarrow> ws_top s = t \<Longrightarrow> deque_step fenced s
    (s\<lparr>ws_top := t + 1, ws_stores := ws_stores s @ [b + 1], ws_owner := O_Idle,
       ws_taken := ws_taken s @ [array_get (array_now s) b]\<rparr>)"
| pop_lost: "ws_owner s = O_Popped b t \<Longrightarrow> t = b \<Longrightarrow> ws_top s \<noteq> t \<Longrightarrow> deque_step fenced s
    (s\<lparr>ws_stores := ws_stores s @ [b + 1], ws_owner := O_Idle\<rparr>)"
| pop_empty: "ws_owner s = O_Popped b t \<Longrightarrow> b < t \<Longrightarrow> deque_step fenced s
    (s\<lparr>ws_stores := ws_stores s @ [b + 1], ws_owner := O_Idle\<rparr>)"
| flush: "ws_stores s = v # vs \<Longrightarrow> deque_step fenced s (s\<lparr>ws_bottom := v, ws_stores := vs\<rparr>)"
| steal_top: "ws_thieves s i = S_Idle \<Longrightarrow> deque_step fenced s
    (s\<lparr>ws_thieves := (ws_thieves s)(i := S_Bottom (ws_top s))\<rparr>)"
| steal_empty: "ws_thieves s i = S_Bottom t \<Longrightarrow> ws_bottom s \<le> t \<Longrightarrow> deque_step fenced s
    (s\<lparr>ws_thieves := (ws_thieves s)(i := S_Idle)\<rparr>)"
| steal_bottom: "ws_thieves s i = S_Bottom t \<Longrightarrow> t < ws_bottom s \<Longrightarrow> deque_step fenced s
    (s\<lparr>ws_thieves := (ws_thieves s)(i := S_Array t)\<rparr>)"
| steal_array: "ws_thieves s i = S_Array t \<Longrightarrow> deque_step fenced s
    (s\<lparr>ws_thieves := (ws_thieves s)(i := S_Get t (length (ws_arrays s) - 1))\<rparr>)"
| steal_get: "ws_thieves s i = S_Get t n \<Longrightarrow> deque_step fenced s
    (s\<lparr>ws_thieves := (ws_thieves s)(i := S_Cas t (array_get (ws_arrays s ! n) t))\<rparr>)"
| steal_cas: "ws_thieves s i = S_Cas t x \<Longrightarrow> ws_top s = t \<Longrightarrow> deque_step fenced s
    (s\<lparr>ws_thieves := (ws_thieves s)(i := S_Idle), ws_top := t + 1, ws_taken := ws_taken s @ [x]\<rparr>)"
| steal_lost: "ws_thieves s i = S_Cas t x \<Longrightarrow> ws_top s \<noteq> t \<Longrightarrow> deque_step fenced s
    (s\<lparr>ws_thieves := (ws_thieves s)(i := S_Idle)\<rparr>)"

inductive deque_reach :: "bool \<Rightarrow> 'a deque \<Rightarrow> bool" for fenced where
  start: "length a = 2 ^ k \<Longrightarrow> deque_reach fenced (deque_start a)"
| step: "deque_reach fenced s \<Longrightarrow> deque_step fenced s s' \<Longrightarrow> deque_reach fenced s'"

section \<open>Slots\<close>

definition sized :: "'a list \<Rightarrow> bool" where
  "sized a \<longleftrightarrow> (\<exists>k. length a = 2 ^ k)"

lemma sized_pos: "sized a \<Longrightarrow> 0 < length a"
  by (auto simp: sized_def)

lemma array_slot_mod: "sized a \<Longrightarrow> array_slot a i = nat (i mod int (length a))"
proof -
  assume "sized a"
  then obtain k where k: "length a = 2 ^ k" by (auto simp: sized_def)
  have "and i (2 ^ k - 1) = i mod 2 ^ k"
    by (metis mask_eq_exp_minus_1 take_bit_eq_mask take_bit_eq_mod)
  then show ?thesis by (simp add: array_slot_def k)
qed

lemma array_slot_less: "sized a \<Longrightarrow> array_slot a i < length a"
  using sized_pos [of a] by (simp add: array_slot_mod nat_less_iff)

lemma array_slot_neq:
  assumes "sized a" and "i < j" and "j - i < int (length a)"
  shows "array_slot a i \<noteq> array_slot a j"
proof
  let ?n = "int (length a)"
  assume "array_slot a i = array_slot a j"
  moreover have n: "0 < ?n" using sized_pos [OF assms(1)] by simp
  moreover have "0 \<le> i mod ?n" "0 \<le> j mod ?n" using n by simp_all
  ultimately have "i mod ?n = j mod ?n" using assms(1) by (simp add: array_slot_mod eq_nat_nat_iff)
  then have "?n dvd j - i" by (metis mod_eq_dvd_iff)
  then show False using assms(2,3) by (auto dest: zdvd_imp_le)
qed

lemma length_array_put [simp]: "length (array_put i x a) = length a"
  by (simp add: array_put_def)

lemma array_get_put:
  assumes "sized a" and "i = j \<or> array_slot a i \<noteq> array_slot a j"
  shows "array_get (array_put j x a) i = (if i = j then x else array_get a i)"
  using assms array_slot_less [OF assms(1), of j] by (auto simp: array_get_def array_put_def array_slot_def)

lemma array_grow_spec:
  assumes "sized a" and "b - t \<le> int (length a)"
  shows "length (array_grow b t a) = 2 * length a" and "t \<le> i \<Longrightarrow> i < b \<Longrightarrow> array_get (array_grow b t a) i = array_get a i"
proof -
  have sz: "sized na" if "length na = 2 * length a" for na :: "'a list"
    using assms(1) that power_Suc by (metis sized_def)
  have len: "length (foldl (\<lambda>na i. array_put i (array_get a i) na) na xs) = length na" for na xs
    by (induction xs arbitrary: na) simp_all
  have keep: "array_get (foldl (\<lambda>na i. array_put i (array_get a i) na) na xs) i = array_get a i"
    if "i \<in> set xs \<or> array_get na i = array_get a i" "set xs \<subseteq> {t ..< b}" "t \<le> i" "i < b" "length na = 2 * length a" for na xs i
    using that
  proof (induction xs arbitrary: na)
    case (Cons j xs)
    have "i = j \<or> array_slot na i \<noteq> array_slot na j"
    proof -
      have "t \<le> j" "j < b" using Cons.prems(2) by auto
      then have "j - i < int (length na)" "i - j < int (length na)" using Cons.prems(3-5) assms(2) by linarith+
      then show ?thesis using array_slot_neq [OF sz [OF Cons.prems(5)], of i j] array_slot_neq [OF sz [OF Cons.prems(5)], of j i]
        by (cases i j rule: linorder_cases) auto
    qed
    then have "array_get (array_put j (array_get a j) na) i = (if i = j then array_get a j else array_get na i)"
      by (rule array_get_put [OF sz [OF Cons.prems(5)]])
    then have "i \<in> set xs \<or> array_get (array_put j (array_get a j) na) i = array_get a i" using Cons.prems(1) by auto
    then have "array_get (foldl (\<lambda>na i. array_put i (array_get a i) na) (array_put j (array_get a j) na) xs) i = array_get a i"
      using Cons.prems(2-5) by (intro Cons.IH) simp_all
    then show ?case by simp
  qed simp
  show "length (array_grow b t a) = 2 * length a" unfolding array_grow_def len by simp
  show "t \<le> i \<Longrightarrow> i < b \<Longrightarrow> array_get (array_grow b t a) i = array_get a i"
    unfolding array_grow_def by (rule keep) auto
qed

section \<open>The invariant of the fenced deque\<close>

text \<open>Where the items that nobody has claimed end, what the owner has claimed and not returned yet, what is left.\<close>

definition limit :: "'a deque \<Rightarrow> int" where
  "limit s = (case ws_owner s of O_Pop b \<Rightarrow> b + 1 | O_Popped b t \<Rightarrow> if t < b then b else b + 1 | _ \<Rightarrow> own_bottom s)"

definition claimed :: "'a deque \<Rightarrow> 'a list" where
  "claimed s = (case ws_owner s of O_Popped b t \<Rightarrow> if t < b then [array_get (array_now s) b] else [] | _ \<Rightarrow> [])"

definition live :: "'a deque \<Rightarrow> 'a list" where
  "live s = map (array_get (array_now s)) [ws_top s .. limit s - 1]"

fun owner_ok :: "'a deque \<Rightarrow> 'a owner \<Rightarrow> bool" where
  "owner_ok s O_Idle = True"
| "owner_ok s (O_Push x t) = (t \<le> ws_top s \<and> own_bottom s - t \<le> int (length (array_now s)))"
| "owner_ok s (O_Pop b) = (own_bottom s = b)"
| "owner_ok s (O_Popped b t) = (ws_stores s = [] \<and> ws_bottom s = b \<and> t \<le> ws_top s)"

fun thief_ok :: "'a deque \<Rightarrow> 'a thief \<Rightarrow> bool" where
  "thief_ok s S_Idle = True"
| "thief_ok s (S_Bottom t) = (t \<le> ws_top s)"
| "thief_ok s (S_Array t) = (t \<le> ws_top s \<and> (t = ws_top s \<longrightarrow> t < limit s))"
| "thief_ok s (S_Get t n) = (t \<le> ws_top s \<and> n < length (ws_arrays s) \<and>
     (t = ws_top s \<longrightarrow> t < limit s \<and> array_get (ws_arrays s ! n) t = array_get (array_now s) t))"
| "thief_ok s (S_Cas t x) = (t \<le> ws_top s \<and> (t = ws_top s \<longrightarrow> t < limit s \<and> x = array_get (array_now s) t))"

definition deque_inv :: "'a deque \<Rightarrow> bool" where
  "deque_inv s \<longleftrightarrow> ws_arrays s \<noteq> [] \<and> (\<forall>a \<in> set (ws_arrays s). sized a) \<and> ws_top s \<le> limit s \<and>
     limit s - ws_top s \<le> int (length (array_now s)) \<and> ws_bottom s \<le> limit s \<and> (\<forall>v \<in> set (ws_stores s). v \<le> limit s) \<and>
     owner_ok s (ws_owner s) \<and> mset (ws_pushed s) = mset (ws_taken s) + mset (claimed s) + mset (live s) \<and>
     (\<forall>i. thief_ok s (ws_thieves s i))"

lemma deque_invD:
  assumes "deque_inv s"
  shows "ws_arrays s \<noteq> []" and "a \<in> set (ws_arrays s) \<Longrightarrow> sized a" and "sized (array_now s)" and "ws_top s \<le> limit s"
    and "limit s - ws_top s \<le> int (length (array_now s))" and "ws_bottom s \<le> limit s" and "v \<in> set (ws_stores s) \<Longrightarrow> v \<le> limit s"
    and "owner_ok s (ws_owner s)" and "mset (ws_pushed s) = mset (ws_taken s) + mset (claimed s) + mset (live s)"
    and "thief_ok s (ws_thieves s i)"
  using assms unfolding deque_inv_def array_now_def by auto

text \<open>What a step must keep for the thieves that take no part in it.\<close>

lemma thief_ok_keeps:
  assumes "thief_ok s pc" and "ws_top s \<le> ws_top s'" and "length (ws_arrays s) \<le> length (ws_arrays s')"
    and "ws_top s' = ws_top s \<Longrightarrow> ws_top s < limit s \<Longrightarrow> ws_top s < limit s' \<and>
      array_get (array_now s') (ws_top s) = array_get (array_now s) (ws_top s)"
    and "\<And>n. ws_top s' = ws_top s \<Longrightarrow> ws_top s < limit s \<Longrightarrow> n < length (ws_arrays s) \<Longrightarrow>
      array_get (ws_arrays s' ! n) (ws_top s) = array_get (ws_arrays s ! n) (ws_top s)"
  shows "thief_ok s' pc"
  using assms by (cases pc) auto

lemma own_bottom_store [simp]: "own_bottom (s\<lparr>ws_stores := vs @ [v], ws_owner := oc\<rparr>) = v"
  by (simp add: own_bottom_def)

lemma live_snoc: "t \<le> l \<Longrightarrow> map f [t .. l] = map f [t .. l - 1] @ [f (l :: int)]"
  by (simp add: upto_rec2)

lemma live_first: "t < l \<Longrightarrow> map f [t .. l - 1] = f (t :: int) # map f [t + 1 .. l - 1]"
  by (simp add: upto_rec1)

text \<open>The owner or a thief steps and changes neither the arrays nor the top nor the limit.\<close>

lemma deque_inv_quiet:
  assumes "deque_inv s" and "ws_top s' = ws_top s" and "ws_arrays s' = ws_arrays s" and "limit s' = limit s"
    and "ws_pushed s' = ws_pushed s" and "ws_taken s' = ws_taken s" and "claimed s' = claimed s"
    and "ws_bottom s' \<le> limit s" and "\<forall>v \<in> set (ws_stores s'). v \<le> limit s" and "owner_ok s' (ws_owner s')"
    and "\<And>i. ws_thieves s' i = ws_thieves s i \<or> thief_ok s' (ws_thieves s' i)"
  shows "deque_inv s'"
proof -
  have now: "array_now s' = array_now s" by (simp add: array_now_def assms(3))
  have "thief_ok s' (ws_thieves s' i)" for i
  proof (cases "ws_thieves s' i = ws_thieves s i")
    case True
    show ?thesis unfolding True
      by (rule thief_ok_keeps [OF deque_invD(10) [OF assms(1)]]) (simp_all add: assms(2-4) now)
  qed (use assms(11) in blast)
  then show ?thesis
    using deque_invD [OF assms(1)] assms(2-10) by (simp add: deque_inv_def now live_def)
qed

text \<open>Pushing an item.\<close>

lemma push_arrays_spec:
  assumes "deque_inv s" and "ws_owner s = O_Push x t" and "b = own_bottom s" and "as = push_arrays b t x (ws_arrays s)"
  shows "as \<noteq> []" and "\<forall>a \<in> set as. sized a" and "length (ws_arrays s) \<le> length as" and "b + 1 - ws_top s \<le> int (length (last as))"
    and "ws_top s \<le> i \<Longrightarrow> i < b \<Longrightarrow> array_get (last as) i = array_get (array_now s) i" and "array_get (last as) b = x"
    and "ws_top s \<le> i \<Longrightarrow> i < b \<Longrightarrow> n < length (ws_arrays s) \<Longrightarrow> array_get (as ! n) i = array_get (ws_arrays s ! n) i"
proof -
  note d = deque_invD [OF assms(1)]
  let ?a = "array_now s"
  have lim: "limit s = b" by (simp add: limit_def assms(2,3))
  have t: "t \<le> ws_top s" "b - t \<le> int (length ?a)" using d(8) by (simp_all add: assms(2,3))
  define grow where "grow \<longleftrightarrow> b - t > int (length ?a) - 1"
  define a1 where "a1 = (if grow then array_grow b t ?a else ?a)"
  have as: "as = (if grow then ws_arrays s else butlast (ws_arrays s)) @ [array_put b x a1]"
    by (simp add: assms(4) push_arrays_def Let_def grow_def a1_def array_now_def)
  have l: "last as = array_put b x a1" by (simp add: as)
  have szg: "sized (array_grow b t ?a)" if grow
  proof -
    have "length (array_grow b t ?a) = 2 * length ?a" using array_grow_spec(1) [OF d(3)] t by simp
    then show ?thesis using d(3) by (metis power_Suc sized_def)
  qed
  have sz: "sized a1" using szg d(3) by (simp add: a1_def)
  have szp: "sized (array_put b x a1)" using sz by (simp add: sized_def)
  have len: "b - t < int (length a1)"
  proof (cases grow)
    case True
    then have "length a1 = 2 * length ?a" using array_grow_spec(1) [OF d(3)] t by (simp add: a1_def)
    moreover have "0 < length ?a" by (rule sized_pos [OF d(3)])
    ultimately show ?thesis using t(2) by linarith
  qed (simp add: a1_def grow_def)
  have a1: "array_get a1 i = array_get ?a i" if "t \<le> i" "i < b" for i
    using array_grow_spec(2) [OF d(3)] t that by (simp add: a1_def)
  have put: "array_get (array_put b x a1) i = array_get a1 i" if "t \<le> i" "i < b" for i
    using array_get_put [OF sz, of i b x] array_slot_neq [OF sz, of i b] that len by simp
  show "as \<noteq> []" by (simp add: as)
  show "\<forall>a \<in> set as. sized a" using d(2) szp by (auto simp: as dest: in_set_butlastD)
  show "length (ws_arrays s) \<le> length as" using d(1) by (simp add: as)
  show "b + 1 - ws_top s \<le> int (length (last as))" using len t by (simp add: l)
  show "array_get (last as) i = array_get ?a i" if "ws_top s \<le> i" "i < b"
    using put a1 that t by (simp add: l)
  show "array_get (last as) b = x" using array_get_put [OF sz, of b b x] by (simp add: l)
  show "array_get (as ! n) i = array_get (ws_arrays s ! n) i" if i: "ws_top s \<le> i" "i < b" and n: "n < length (ws_arrays s)"
  proof (cases "grow \<or> n < length (ws_arrays s) - 1")
    case True
    then show ?thesis using n by (auto simp: as nth_append nth_butlast)
  next
    case False
    then have "n = length (ws_arrays s) - 1" using n by linarith
    then have "as ! n = last as" "ws_arrays s ! n = ?a" using False d(1) by (simp_all add: as nth_append array_now_def last_conv_nth)
    then show ?thesis using put a1 i t by (simp add: l)
  qed
qed

lemma push_inv:
  assumes "deque_inv s" and "ws_owner s = O_Push x t"
  shows "deque_inv (s\<lparr>ws_arrays := push_arrays (own_bottom s) t x (ws_arrays s), ws_stores := ws_stores s @ [own_bottom s + 1],
       ws_owner := O_Idle, ws_pushed := ws_pushed s @ [x]\<rparr>)" (is "deque_inv ?s")
proof -
  note d = deque_invD [OF assms(1)]
  define b as where "b = own_bottom s" and "as = push_arrays b t x (ws_arrays s)"
  note p = push_arrays_spec [OF assms b_def as_def]
  have lim: "limit s = b" "limit ?s = b + 1" by (simp_all add: limit_def assms(2) b_def own_bottom_def)
  have now: "array_now ?s = last as" by (simp add: array_now_def as_def b_def)
  have tl: "ws_top s \<le> b" using d(4) lim(1) by simp
  have "map (array_get (last as)) [ws_top s .. b - 1] = map (array_get (array_now s)) [ws_top s .. b - 1]"
    using p(5) by (intro map_cong) auto
  then have "live ?s = live s @ [x]"
    using live_snoc [OF tl, of "array_get (last as)"] p(6) by (simp add: live_def lim now)
  moreover have "claimed ?s = []" "claimed s = []" by (simp_all add: claimed_def assms(2))
  ultimately have m: "mset (ws_pushed ?s) = mset (ws_taken ?s) + mset (claimed ?s) + mset (live ?s)" using d(9) by simp
  have th: "thief_ok ?s (ws_thieves ?s i)" for i
  proof -
    have "thief_ok ?s (ws_thieves s i)"
      by (rule thief_ok_keeps [OF d(10)]) (use p(3,5,7) lim now in \<open>simp_all add: as_def b_def\<close>)
    then show ?thesis by simp
  qed
  have st: "v \<le> b + 1" if "v \<in> set (ws_stores s)" for v using d(7) [OF that] lim(1) by simp
  show ?thesis
    unfolding deque_inv_def now lim(2)
    using p(1,2,4) tl d(6) lim(1) m th st by (auto simp: as_def [symmetric] b_def [symmetric])
qed

lemma own_bottom_cong: "ws_stores s' = ws_stores s \<Longrightarrow> ws_bottom s' = ws_bottom s \<Longrightarrow> own_bottom s' = own_bottom s"
  by (simp add: own_bottom_def)

lemma own_bottom_flush: "ws_stores s = v # vs \<Longrightarrow> own_bottom (s\<lparr>ws_bottom := v, ws_stores := vs\<rparr>) = own_bottom s"
  by (simp add: own_bottom_def)

lemma limit_cong: "ws_owner s' = ws_owner s \<Longrightarrow> own_bottom s' = own_bottom s \<Longrightarrow> limit s' = limit s"
  by (simp add: limit_def split: owner.split)

lemma claimed_cong: "ws_owner s' = ws_owner s \<Longrightarrow> ws_arrays s' = ws_arrays s \<Longrightarrow> claimed s' = claimed s"
  by (simp add: claimed_def array_now_def split: owner.split)

lemma pop_load_inv:
  assumes "deque_inv s" and "ws_owner s = O_Pop b" and "ws_stores s = []"
  shows "deque_inv (s\<lparr>ws_owner := O_Popped b (ws_top s)\<rparr>)" (is "deque_inv ?s")
proof -
  note d = deque_invD [OF assms(1)]
  have b: "ws_bottom s = b" "limit s = b + 1" "claimed s = []"
    using d(8) by (simp_all add: assms(2,3) own_bottom_def limit_def claimed_def)
  have now: "array_now ?s = array_now s" by (simp add: array_now_def)
  show ?thesis
  proof (cases "ws_top s < b")
    case True
    have lim: "limit ?s = b" and cl: "claimed ?s = [array_get (array_now s) b]" using True by (simp_all add: limit_def claimed_def now)
    have "live s = live ?s @ [array_get (array_now s) b]"
      using live_snoc [of "ws_top s" b] True by (simp add: live_def b(2) lim now)
    then have m: "mset (ws_pushed ?s) = mset (ws_taken ?s) + mset (claimed ?s) + mset (live ?s)" using d(9) by (simp add: b(3) cl)
    have "thief_ok ?s (ws_thieves s i)" for i
      by (rule thief_ok_keeps [OF d(10)]) (use True in \<open>simp_all add: lim now\<close>)
    then show ?thesis
      using d(1,2,5) m True b by (simp add: deque_inv_def lim now assms(3))
  next
    case False
    have "limit ?s = limit s" "claimed ?s = claimed s" using False by (simp_all add: limit_def claimed_def assms(2))
    then show ?thesis
      using d(6) assms(3) b(1) by (intro deque_inv_quiet [OF assms(1)]) simp_all
  qed
qed

lemma pop_plain_inv:
  assumes "deque_inv s" and "ws_owner s = O_Popped b t" and "t < b"
  shows "deque_inv (s\<lparr>ws_owner := O_Idle, ws_taken := ws_taken s @ [array_get (array_now s) b]\<rparr>)" (is "deque_inv ?s")
proof -
  note d = deque_invD [OF assms(1)]
  have b: "ws_stores s = []" "ws_bottom s = b" using d(8) by (simp_all add: assms(2))
  have now: "array_now ?s = array_now s" by (simp add: array_now_def)
  have lim: "limit s = b" "limit ?s = b" using assms(2,3) b by (simp_all add: limit_def own_bottom_def)
  have cl: "claimed s = [array_get (array_now s) b]" "claimed ?s = []" using assms(2,3) by (simp_all add: claimed_def)
  have "live ?s = live s" by (simp add: live_def lim now)
  then have m: "mset (ws_pushed ?s) = mset (ws_taken ?s) + mset (claimed ?s) + mset (live ?s)" using d(9) by (simp add: cl)
  have "thief_ok ?s (ws_thieves s i)" for i
    by (rule thief_ok_keeps [OF d(10)]) (simp_all add: lim now)
  then show ?thesis using d(1,2,4-7) m b by (simp add: deque_inv_def lim now)
qed

text \<open>The last item, or the first one for a thief: the winner of the compare-and-exchange takes it.\<close>

lemma pop_last_inv:
  assumes "deque_inv s" and "ws_owner s = O_Popped b b" and "ws_top s = b"
    and "u = s\<lparr>ws_top := b + 1, ws_stores := ws_stores s @ [b + 1], ws_owner := O_Idle,
       ws_taken := ws_taken s @ [array_get (array_now s) b]\<rparr>"
  shows "deque_inv u"
proof -
  note d = deque_invD [OF assms(1)]
  have b: "ws_stores s = []" "ws_bottom s = b" using d(8) by (simp_all add: assms(2))
  have u: "ws_top u = b + 1" "ws_stores u = [b + 1]" "ws_owner u = O_Idle" "ws_taken u = ws_taken s @ [array_get (array_now s) b]"
      "ws_bottom u = b" "ws_arrays u = ws_arrays s" "ws_thieves u = ws_thieves s" "ws_pushed u = ws_pushed s"
    by (simp_all add: assms(4) b)
  have lim: "limit s = b + 1" "limit u = b + 1" using assms(2) by (simp_all add: limit_def own_bottom_def u)
  have cl: "claimed s = []" "claimed u = []" using assms(2) by (simp_all add: claimed_def u)
  have "live s = [array_get (array_now s) b]" "live u = []" by (simp_all add: live_def lim assms(3) u)
  then have m: "mset (ws_pushed u) = mset (ws_taken u) + mset (claimed u) + mset (live u)" using d(9) by (simp add: cl u)
  have "thief_ok u (ws_thieves u i)" for i
    unfolding u(7) by (rule thief_ok_keeps [OF d(10)]) (simp_all add: assms(3) u)
  then show ?thesis using d(1,2) m by (simp add: deque_inv_def lim u)
qed

lemma steal_cas_inv:
  assumes "deque_inv s" and "ws_thieves s i = S_Cas t x" and "ws_top s = t"
    and "u = s\<lparr>ws_thieves := (ws_thieves s)(i := S_Idle), ws_top := t + 1, ws_taken := ws_taken s @ [x]\<rparr>"
  shows "deque_inv u"
proof -
  note d = deque_invD [OF assms(1)]
  have x: "t < limit s" "x = array_get (array_now s) t" using d(10) [of i] assms(2,3) by simp_all
  have u: "ws_top u = t + 1" "ws_stores u = ws_stores s" "ws_owner u = ws_owner s" "ws_taken u = ws_taken s @ [x]"
      "ws_bottom u = ws_bottom s" "ws_arrays u = ws_arrays s" "ws_thieves u = (ws_thieves s)(i := S_Idle)" "ws_pushed u = ws_pushed s"
    by (simp_all add: assms(4))
  have own: "own_bottom u = own_bottom s" by (rule own_bottom_cong) (simp_all add: u)
  have now: "array_now u = array_now s" by (simp add: array_now_def u)
  have lim: "limit u = limit s" by (rule limit_cong) (simp_all add: own u)
  have cl: "claimed u = claimed s" by (rule claimed_cong) (simp_all add: u)
  have "live s = x # live u" using live_first [OF x(1)] by (simp add: live_def lim now assms(3) x(2) u)
  then have m: "mset (ws_pushed u) = mset (ws_taken u) + mset (claimed u) + mset (live u)" using d(9) by (simp add: cl u)
  have th: "thief_ok u (ws_thieves s j)" for j
    by (rule thief_ok_keeps [OF d(10)]) (simp_all add: assms(3) u)
  have "owner_ok u (ws_owner s)" using d(8) by (cases "ws_owner s") (simp_all add: own now assms(3) u)
  then show ?thesis using d(1,2,5-7) m x(1) th by (simp add: deque_inv_def lim now assms(3) u)
qed

lemma steal_quiet:
  assumes "deque_inv s" and "thief_ok s pc" and "u = s\<lparr>ws_thieves := (ws_thieves s)(i := pc)\<rparr>"
  shows "deque_inv u"
proof -
  note d = deque_invD [OF assms(1)]
  have u: "ws_top u = ws_top s" "ws_stores u = ws_stores s" "ws_owner u = ws_owner s" "ws_taken u = ws_taken s"
      "ws_bottom u = ws_bottom s" "ws_arrays u = ws_arrays s" "ws_thieves u = (ws_thieves s)(i := pc)" "ws_pushed u = ws_pushed s"
    by (simp_all add: assms(3))
  have own: "own_bottom u = own_bottom s" by (rule own_bottom_cong) (simp_all add: u)
  have now: "array_now u = array_now s" by (simp add: array_now_def u)
  have lim: "limit u = limit s" by (rule limit_cong) (simp_all add: own u)
  have cl: "claimed u = claimed s" by (rule claimed_cong) (simp_all add: u)
  have "thief_ok u pc" using assms(2) by (cases pc) (simp_all add: lim now u)
  moreover have "owner_ok u (ws_owner s)" using d(8) by (cases "ws_owner s") (simp_all add: own now u)
  ultimately show ?thesis
    using d(6,7) by (intro deque_inv_quiet [OF assms(1)]) (simp_all add: u lim cl)
qed

lemma deque_step_inv:
  assumes "deque_inv s" and "deque_step True s u"
  shows "deque_inv u"
proof -
  note d = deque_invD [OF assms(1)] and quiet = deque_inv_quiet [OF assms(1)] and thief = steal_quiet [OF assms(1)]
  show ?thesis using assms(2)
  proof (cases rule: deque_step.cases)
    case (push_load x)
    have u: "ws_stores u = ws_stores s" "ws_bottom u = ws_bottom s" "ws_owner u = O_Push x (ws_top s)" "ws_arrays u = ws_arrays s"
      by (simp_all add: push_load(1))
    have own: "own_bottom u = own_bottom s" by (rule own_bottom_cong [OF u(1,2)])
    have now: "array_now u = array_now s" by (simp add: array_now_def u(4))
    have lim: "limit s = own_bottom s" "limit u = limit s" "claimed u = claimed s"
      using push_load(2) by (simp_all add: limit_def claimed_def u own)
    have "owner_ok u (ws_owner u)" using d(5) by (simp add: u(3) own now lim(1)) (simp add: push_load(1))
    then show ?thesis using d(6,7) lim(2,3) by (intro quiet) (simp_all add: push_load(1))
  next
    case (push_store x t)
    then show ?thesis using push_inv [OF assms(1)] by simp
  next
    case pop_store
    have own: "own_bottom u = own_bottom s - 1" by (simp add: pop_store(1))
    have lim: "limit s = own_bottom s" "limit u = limit s" "claimed u = claimed s"
      using pop_store(2) own by (simp_all add: limit_def claimed_def pop_store(1))
    have "ws_stores u = ws_stores s @ [limit s - 1]" by (simp add: pop_store(1) lim(1))
    then have "\<forall>v \<in> set (ws_stores u). v \<le> limit s" using d(7) by auto
    then show ?thesis using d(6) lim(2,3) by (intro quiet) (simp_all add: pop_store(1))
  next
    case (pop_load b)
    then show ?thesis using pop_load_inv [OF assms(1)] by simp
  next
    case (pop_plain b t)
    then show ?thesis using pop_plain_inv [OF assms(1)] by simp
  next
    case (pop_last b t)
    then show ?thesis using pop_last_inv [OF assms(1), of b u] by simp
  next
    case (pop_lost b t)
    have lim: "limit s = b + 1" "limit u = b + 1" "claimed u = claimed s"
      using pop_lost by (simp_all add: limit_def claimed_def)
    have "ws_stores u = ws_stores s @ [b + 1]" by (simp add: pop_lost(1))
    then have "\<forall>v \<in> set (ws_stores u). v \<le> limit s" using d(7) lim(1) by auto
    then show ?thesis using d(6) lim by (intro quiet) (simp_all add: pop_lost(1))
  next
    case (pop_empty b t)
    have lim: "limit s = b + 1" "limit u = b + 1" "claimed u = claimed s"
      using pop_empty by (simp_all add: limit_def claimed_def)
    have "ws_stores u = ws_stores s @ [b + 1]" by (simp add: pop_empty(1))
    then have "\<forall>v \<in> set (ws_stores u). v \<le> limit s" using d(7) lim(1) by auto
    then show ?thesis using d(6) lim by (intro quiet) (simp_all add: pop_empty(1))
  next
    case (flush v vs)
    have own: "own_bottom u = own_bottom s" unfolding flush(1) by (rule own_bottom_flush [OF flush(2)])
    have u: "ws_owner u = ws_owner s" "ws_arrays u = ws_arrays s" "ws_top u = ws_top s" by (simp_all add: flush(1))
    have lim: "limit u = limit s" "claimed u = claimed s"
      by (rule limit_cong [OF u(1) own], rule claimed_cong [OF u(1,2)])
    have now: "array_now u = array_now s" by (simp add: array_now_def u(2))
    have "owner_ok u (ws_owner s)" using d(8) flush(2) by (cases "ws_owner s") (simp_all add: own now u)
    then show ?thesis using d(7) flush(2) lim u by (intro quiet) (simp_all add: flush(1))
  next
    case (steal_cas i t x)
    then show ?thesis using steal_cas_inv [OF assms(1), of i t x u] by simp
  next
    case (steal_top i)
    show ?thesis by (rule thief [OF _ steal_top(1)]) simp
  next
    case (steal_empty i t)
    show ?thesis by (rule thief [OF _ steal_empty(1)]) simp
  next
    case (steal_bottom i t)
    show ?thesis by (rule thief [OF _ steal_bottom(1)]) (use d(6) d(10) [of i] steal_bottom(2,3) in auto)
  next
    case (steal_array i t)
    show ?thesis
      by (rule thief [OF _ steal_array(1)])
        (use d(1) d(10) [of i] steal_array(2) in \<open>auto simp: array_now_def last_conv_nth\<close>)
  next
    case (steal_get i t n)
    show ?thesis by (rule thief [OF _ steal_get(1)]) (use d(10) [of i] steal_get(2) in auto)
  next
    case (steal_lost i t x)
    show ?thesis by (rule thief [OF _ steal_lost(1)]) simp
  qed
qed

lemma deque_start_inv: "length a = 2 ^ k \<Longrightarrow> deque_inv (deque_start a)"
  by (auto simp: deque_inv_def deque_start_def sized_def limit_def own_bottom_def claimed_def live_def)

lemma deque_reach_inv: "deque_reach True s \<Longrightarrow> deque_inv s"
  by (induction rule: deque_reach.induct) (blast intro: deque_start_inv deque_step_inv)+

section \<open>Properties\<close>

text \<open>Calls that run alone.\<close>

lemma flush_all:
  assumes "deque_reach f w" and "ws_stores w = vs" and "vs \<noteq> []"
  shows "deque_reach f (w\<lparr>ws_bottom := last vs, ws_stores := []\<rparr>)"
  using assms
proof (induction vs arbitrary: w)
  case (Cons v vs)
  have r: "deque_reach f (w\<lparr>ws_bottom := v, ws_stores := vs\<rparr>)"
    by (rule deque_reach.step [OF Cons.prems(1) deque_step.flush [OF Cons.prems(2)]])
  show ?case
  proof (cases "vs = []")
    case False
    then show ?thesis using Cons.IH [OF r] by simp
  qed (use r in simp)
qed simp

lemma push_alone:
  assumes "deque_reach f s" and "ws_owner s = O_Idle"
  shows "deque_reach f (s\<lparr>ws_bottom := own_bottom s + 1, ws_stores := [],
    ws_arrays := push_arrays (own_bottom s) (ws_top s) x (ws_arrays s), ws_pushed := ws_pushed s @ [x]\<rparr>)"
proof -
  have b: "own_bottom (s\<lparr>ws_owner := pc\<rparr>) = own_bottom s" for pc by (rule own_bottom_cong) simp_all
  have "deque_reach f (s\<lparr>ws_owner := O_Push x (ws_top s)\<rparr>)"
    by (rule deque_reach.step [OF assms(1) deque_step.push_load [OF assms(2)]])
  then have "deque_reach f (s\<lparr>ws_owner := O_Push x (ws_top s), ws_arrays := push_arrays (own_bottom s) (ws_top s) x (ws_arrays s),
      ws_stores := ws_stores s @ [own_bottom s + 1], ws_owner := O_Idle, ws_pushed := ws_pushed s @ [x]\<rparr>)"
    by (rule deque_reach.step) (use deque_step.push_store [of "s\<lparr>ws_owner := O_Push x (ws_top s)\<rparr>" x "ws_top s" f] in \<open>simp add: b\<close>)
  from flush_all [OF this refl] show ?thesis using assms(2) by (cases s) simp
qed

lemma steal_alone:
  assumes "deque_reach f s" and "ws_thieves s = (\<lambda>_. S_Idle)" and "ws_top s < ws_bottom s" and "ws_arrays s \<noteq> []"
  shows "deque_reach f (s\<lparr>ws_top := ws_top s + 1, ws_taken := ws_taken s @ [array_get (array_now s) (ws_top s)]\<rparr>)"
proof -
  note step = deque_reach.step [where fenced = f]
  let ?at = "\<lambda>pc. s\<lparr>ws_thieves := (\<lambda>_. S_Idle)(0 := pc)\<rparr>"
  from step [OF assms(1) deque_step.steal_top [where i = 0]] have "deque_reach f (?at (S_Bottom (ws_top s)))" using assms(2) by simp
  from step [OF this deque_step.steal_bottom [where i = 0 and t = "ws_top s"]] have "deque_reach f (?at (S_Array (ws_top s)))"
    using assms(3) by simp
  from step [OF this deque_step.steal_array [where i = 0 and t = "ws_top s"]]
  have "deque_reach f (?at (S_Get (ws_top s) (length (ws_arrays s) - 1)))" by simp
  from step [OF this deque_step.steal_get [where i = 0 and t = "ws_top s" and n = "length (ws_arrays s) - 1"]]
  have "deque_reach f (?at (S_Cas (ws_top s) (array_get (array_now s) (ws_top s))))"
    using assms(4) by (simp add: array_now_def last_conv_nth)
  from step [OF this deque_step.steal_cas [where i = 0 and t = "ws_top s" and x = "array_get (array_now s) (ws_top s)"]]
  show ?thesis using assms(2) by (cases s) (simp add: fun_upd_idem)
qed

text \<open>
  With a fence between the store and the load of \<open>pop\<close>, in every run of the owner and any number of thieves each
  item pushed is in exactly one place: returned, claimed by the owner, or still in the deque.
\<close>

theorem deque_fenced:
  assumes "deque_reach True s"
  shows "mset (ws_pushed s) = mset (ws_taken s) + mset (claimed s) + mset (live s)"
  by (rule deque_invD(9) [OF deque_reach_inv [OF assms]])

definition two_items :: "nat deque" where
  "two_items = \<lparr>ws_top = 1, ws_bottom = 3, ws_stores = [], ws_arrays = [[8, 7]], ws_owner = O_Idle,
     ws_thieves = (\<lambda>_. S_Idle), ws_pushed = [7, 8], ws_taken = []\<rparr>"

lemma two_items_reach: "deque_reach f two_items"
proof -
  have "deque_reach f (deque_start [0, 0] :: nat deque)" by (rule deque_reach.start [where k = 1]) simp
  from push_alone [OF this, of 7] have "deque_reach f (\<lparr>ws_top = 1, ws_bottom = 2, ws_stores = [], ws_arrays = [[0, 7]], ws_owner = O_Idle,
     ws_thieves = (\<lambda>_. S_Idle), ws_pushed = [7], ws_taken = []\<rparr> :: nat deque)"
    by (simp add: deque_start_def own_bottom_def push_arrays_def array_put_def array_slot_def)
  from push_alone [OF this, of 8] show ?thesis
    by (simp add: two_items_def own_bottom_def push_arrays_def array_put_def array_slot_def)
qed

lemma deque_fenced_witness:
  "\<exists>s :: nat deque. deque_reach True s \<and> ws_pushed s = [7, 8] \<and> ws_taken s = [7] \<and>
     mset (ws_pushed s) = mset (ws_taken s) + mset (claimed s) + mset (live s)"
proof -
  have "deque_reach True (two_items\<lparr>ws_top := 2, ws_taken := [7]\<rparr>)"
    using steal_alone [OF two_items_reach] by (simp add: two_items_def array_get_def array_now_def array_slot_def)
  from deque_fenced [OF this] this show ?thesis by (intro exI [of _ "two_items\<lparr>ws_top := 2, ws_taken := [7]\<rparr>"]) (simp add: two_items_def)
qed

text \<open>
  C29. As the code is, without a fence, an item can be returned twice: the owner has stored the new bottom 2 and taken
  item 2 because the top was 1, while two thieves still see the bottom 3 and take the items 1 and 2.
\<close>

theorem deque_takes_twice:
  "\<exists>s :: nat deque. deque_reach False s \<and> ws_pushed s = [7, 8] \<and> ws_taken s = [7, 8, 8]"
proof -
  note step = deque_reach.step [where fenced = False]
  note defs = two_items_def own_bottom_def array_get_def array_now_def array_slot_def
  from step [OF two_items_reach deque_step.pop_store]
  have "deque_reach False (two_items\<lparr>ws_stores := [2], ws_owner := O_Pop 2\<rparr>)" by (simp add: defs)
  from step [OF this deque_step.pop_load [where b = 2]]
  have "deque_reach False (two_items\<lparr>ws_stores := [2], ws_owner := O_Popped 2 1\<rparr>)" by (simp add: defs)
  from steal_alone [OF this]
  have "deque_reach False (two_items\<lparr>ws_stores := [2], ws_owner := O_Popped 2 1, ws_top := 2, ws_taken := [7]\<rparr>)" by (simp add: defs)
  from steal_alone [OF this]
  have "deque_reach False (two_items\<lparr>ws_stores := [2], ws_owner := O_Popped 2 1, ws_top := 3, ws_taken := [7, 8]\<rparr>)" by (simp add: defs)
  from step [OF this deque_step.pop_plain [where b = 2 and t = 1]]
  have "deque_reach False (two_items\<lparr>ws_stores := [2], ws_owner := O_Idle, ws_top := 3, ws_taken := [7, 8, 8]\<rparr>)" by (simp add: defs)
  then show ?thesis by (intro exI) (auto simp: two_items_def)
qed

end
