(* ===== verification/Json_Text.thy ===== *)
theory Json_Text
  imports SQL_Parser Select_Eval Std_Map
begin

text \<open>
  \<open>JSONParser\<close> in \<open>json.hpp\<close>: the values, the recursive-descent parser, the printer, and the texts that
  \<open>saveToFile\<close> writes and \<open>loadFromFile\<close> reads.

  A \<open>std::string\<close> and a position in it are the text from that position on. The numbers with a fraction or an exponent
  are of any type \<open>'d\<close>: \<open>rd\<close> stands for \<open>std::stod\<close> and \<open>sh\<close> for \<open>std::to_string(double)\<close>, which rounds to six
  digits. A \<open>JSONObject\<close> is a \<open>std::map\<close>, the list of its entries in the order of the keys.
\<close>

section \<open>Values\<close>

datatype 'd json =
    J_null
  | J_bool bool
  | J_int int
  | J_double 'd
  | J_string string
  | J_array "'d json list"
  | J_object "(string \<times> 'd json) list"

text \<open>The keys of the map are in the order of \<open>std::less<std::string>\<close>.\<close>

interpretation keys: comparator string_less
  by unfold_locales (use string_less_trans string_less_total in auto)

section \<open>The parser\<close>

definition skip_white :: "string \<Rightarrow> string" where
  "skip_white s = dropWhile is_cspace s"

fun escaped :: "char \<Rightarrow> char" where
  "escaped c =
     (if c = CHR ''b'' then CHR 0x08
      else if c = CHR ''f'' then CHR 0x0C
      else if c = CHR ''n'' then CHR 0x0A
      else if c = CHR ''r'' then CHR 0x0D
      else if c = CHR ''t'' then CHR 0x09
      else c)"

text \<open>\<open>parseString\<close>, behind the opening quote.\<close>

fun string_body :: "string \<Rightarrow> (string \<times> string) result" where
  "string_body [] = Inl (Throw ''Unterminated string'')"
| "string_body (c # cs) =
     (if c = CHR 0x22 then Inr ([], cs)
      else if c = CHR 0x5C then
        (case cs of
           [] \<Rightarrow> Inl (Throw ''Unexpected end of string'')
         | d # ds \<Rightarrow> bindE (string_body ds) (\<lambda>(t, r). Inr (escaped d # t, r)))
      else bindE (string_body cs) (\<lambda>(t, r). Inr (c # t, r)))"

text \<open>\<open>jsonStr[pos]\<close> at the end of the string is the terminating zero.\<close>

definition read_string :: "string \<Rightarrow> (string \<times> string) result" where
  "read_string s =
     (case s of
        [] \<Rightarrow> Inl (Throw (''Expected '' @ [CHR 0x27, CHR 0x22, CHR 0x27] @ '' at start of string''))
      | c # cs \<Rightarrow>
          if c = CHR 0x22 then string_body cs
          else Inl (Throw (''Expected '' @ [CHR 0x27, CHR 0x22, CHR 0x27] @ '' at start of string'')))"

definition bad_number :: "'a result" where
  "bad_number = Inl (Throw ''Invalid number'')"

definition some_digits :: "string \<Rightarrow> (string \<times> string) result" where
  "some_digits s = (if takeWhile is_digit s = [] then bad_number else Inr (takeWhile is_digit s, dropWhile is_digit s))"

definition read_fraction :: "string \<Rightarrow> (string \<times> string) result" where
  "read_fraction s =
     (case s of
        [] \<Rightarrow> Inr ([], s)
      | c # cs \<Rightarrow> if c = CHR ''.'' then bindE (some_digits cs) (\<lambda>(ds, r). Inr (c # ds, r)) else Inr ([], s))"

definition read_sign :: "char list \<Rightarrow> string \<Rightarrow> string \<times> string" where
  "read_sign signs s = (case s of [] \<Rightarrow> ([], s) | c # cs \<Rightarrow> if c \<in> set signs then ([c], cs) else ([], s))"

definition read_exponent :: "string \<Rightarrow> (string \<times> string) result" where
  "read_exponent s =
     (case s of
        [] \<Rightarrow> Inr ([], s)
      | c # cs \<Rightarrow>
          if c = CHR ''e'' \<or> c = CHR ''E'' then
            (let (sg, r) = read_sign ''+-'' cs in bindE (some_digits r) (\<lambda>(ds, r1). Inr (c # sg @ ds, r1)))
          else Inr ([], s))"

text \<open>\<open>parseNumber\<close>\<close>

definition read_number :: "(string \<Rightarrow> 'd result) \<Rightarrow> string \<Rightarrow> ('d json \<times> string) result" where
  "read_number rd s =
     (let (sg, r0) = read_sign ''-'' s
      in bindE (some_digits r0) (\<lambda>(ds, r1).
           bindE (read_fraction r1) (\<lambda>(fr, r2).
             bindE (read_exponent r2) (\<lambda>(ex, r3).
               if fr = [] \<and> ex = [] then bindE (stoi (sg @ ds)) (\<lambda>n. Inr (J_int n, r3))
               else bindE (rd (sg @ ds @ fr @ ex)) (\<lambda>d. Inr (J_double d, r3))))))"

definition read_bool :: "string \<Rightarrow> ('d json \<times> string) result" where
  "read_bool s =
     (if take 4 s = ''true'' then Inr (J_bool True, drop 4 s)
      else if take 5 s = ''false'' then Inr (J_bool False, drop 5 s)
      else Inl (Throw ''Invalid boolean value''))"

definition read_null :: "string \<Rightarrow> ('d json \<times> string) result" where
  "read_null s = (if take 4 s = ''null'' then Inr (J_null, drop 4 s) else Inl (Throw ''Invalid null value''))"

text \<open>\<open>parseValue\<close> for what is neither an object nor an array, at its first character.\<close>

definition read_scalar :: "(string \<Rightarrow> 'd result) \<Rightarrow> string \<Rightarrow> ('d json \<times> string) result" where
  "read_scalar rd s =
     (let c = hd s
      in if c = CHR 0x22 then bindE (read_string s) (\<lambda>(t, r). Inr (J_string t, r))
         else if c = CHR ''t'' \<or> c = CHR ''f'' then read_bool s
         else if c = CHR ''n'' then read_null s
         else if c = CHR ''-'' \<or> is_digit c then read_number rd s
         else Inl (Throw (''Invalid JSON character: '' @ [c])))"

text \<open>
  \<open>parseValue\<close> and the loops of \<open>parseObject\<close> and \<open>parseArray\<close>, with fuel. A loop whose text is at its end stops
  without an error, so an object or array may lack its closing bracket.
\<close>

fun json_value :: "(string \<Rightarrow> 'd result) \<Rightarrow> nat \<Rightarrow> string \<Rightarrow> ('d json \<times> string) result"
and json_members :: "(string \<Rightarrow> 'd result) \<Rightarrow> nat \<Rightarrow> (string \<times> 'd json) list \<Rightarrow> string \<Rightarrow>
    ((string \<times> 'd json) list \<times> string) result"
and json_elements :: "(string \<Rightarrow> 'd result) \<Rightarrow> nat \<Rightarrow> string \<Rightarrow> ('d json list \<times> string) result"
where
  "json_value rd 0 s = Inl Out_of_fuel"
| "json_value rd (Suc n) s =
     (case skip_white s of
        [] \<Rightarrow> Inl (Throw ''Unexpected end of JSON'')
      | c # cs \<Rightarrow>
          if c = CHR ''{'' then
            (case skip_white cs of
               [] \<Rightarrow> Inr (J_object [], [])
             | d # ds \<Rightarrow>
                 if d = CHR ''}'' then Inr (J_object [], ds)
                 else bindE (json_members rd n [] (d # ds)) (\<lambda>(m, r). Inr (J_object m, r)))
          else if c = CHR ''['' then
            (case skip_white cs of
               [] \<Rightarrow> Inr (J_array [], [])
             | d # ds \<Rightarrow>
                 if d = CHR '']'' then Inr (J_array [], ds)
                 else bindE (json_elements rd n (d # ds)) (\<lambda>(vs, r). Inr (J_array vs, r)))
          else read_scalar rd (c # cs))"
| "json_members rd 0 m s = Inl Out_of_fuel"
| "json_members rd (Suc n) m s =
     (if s = [] then Inr (m, [])
      else bindE (read_string (skip_white s)) (\<lambda>(k, r1).
        case skip_white r1 of
          [] \<Rightarrow> Inl (Throw (''Expected '' @ [CHR 0x27, CHR '':'', CHR 0x27] @ '' after key''))
        | c # r2 \<Rightarrow>
            if c \<noteq> CHR '':'' then Inl (Throw (''Expected '' @ [CHR 0x27, CHR '':'', CHR 0x27] @ '' after key''))
            else bindE (json_value rd n r2) (\<lambda>(v, r3).
              case skip_white r3 of
                [] \<Rightarrow> Inl (Throw ''Unexpected end of object'')
              | d # r4 \<Rightarrow>
                  if d = CHR ''}'' then Inr (sm_insert string_less k v m, r4)
                  else if d = CHR '','' then json_members rd n (sm_insert string_less k v m) r4
                  else Inl (Throw (''Expected '' @ [CHR 0x27, CHR '','', CHR 0x27] @ '' or '' @
                         [CHR 0x27, CHR ''}'', CHR 0x27] @ '' in object'')))))"
| "json_elements rd 0 s = Inl Out_of_fuel"
| "json_elements rd (Suc n) s =
     (if s = [] then Inr ([], [])
      else bindE (json_value rd n s) (\<lambda>(v, r1).
        case skip_white r1 of
          [] \<Rightarrow> Inl (Throw ''Unexpected end of array'')
        | d # r2 \<Rightarrow>
            if d = CHR '']'' then Inr ([v], r2)
            else if d = CHR '','' then bindE (json_elements rd n r2) (\<lambda>(vs, r3). Inr (v # vs, r3))
            else Inl (Throw (''Expected '' @ [CHR 0x27, CHR '','', CHR 0x27] @ '' or '' @
                   [CHR 0x27, CHR '']'', CHR 0x27] @ '' in array''))))"

text \<open>\<open>size_t pos = 0; parseValue(str, pos)\<close>\<close>

definition parse_json :: "(string \<Rightarrow> 'd result) \<Rightarrow> string \<Rightarrow> ('d json \<times> string) result" where
  "parse_json rd s = json_value rd (2 * length s + 1) s"

section \<open>The printer\<close>

text \<open>\<open>valueToString\<close>. Strings are printed as they are, without escapes.\<close>

definition spaces :: "nat \<Rightarrow> string" where
  "spaces n = replicate n (CHR '' '')"

fun json_text :: "('d \<Rightarrow> string) \<Rightarrow> nat \<Rightarrow> 'd json \<Rightarrow> string"
and element_lines :: "('d \<Rightarrow> string) \<Rightarrow> nat \<Rightarrow> 'd json list \<Rightarrow> string"
and member_lines :: "('d \<Rightarrow> string) \<Rightarrow> nat \<Rightarrow> (string \<times> 'd json) list \<Rightarrow> string"
where
  "json_text sh n J_null = ''null''"
| "json_text sh n (J_bool b) = (if b then ''true'' else ''false'')"
| "json_text sh n (J_int i) = show_int i"
| "json_text sh n (J_double d) = sh d"
| "json_text sh n (J_string t) = CHR 0x22 # t @ [CHR 0x22]"
| "json_text sh n (J_array vs) =
     (if vs = [] then ''[]'' else ''['' @ newline @ element_lines sh (n + 2) vs @ spaces n @ '']'')"
| "json_text sh n (J_object m) =
     (if m = [] then ''{}'' else ''{'' @ newline @ member_lines sh (n + 2) m @ spaces n @ ''}'')"
| "element_lines sh n [] = []"
| "element_lines sh n (v # vs) =
     spaces n @ json_text sh n v @ (if vs = [] then [] else '','') @ newline @ element_lines sh n vs"
| "member_lines sh n [] = []"
| "member_lines sh n ((k, v) # m) =
     spaces n @ CHR 0x22 # k @ [CHR 0x22] @ '': '' @ json_text sh n v @ (if m = [] then [] else '','') @ newline @
       member_lines sh n m"

text \<open>\<open>saveToFile\<close> writes all values as one array; \<open>loadFromFile\<close> takes the elements of an array apart again.\<close>

definition save_text :: "('d \<Rightarrow> string) \<Rightarrow> 'd json list \<Rightarrow> string" where
  "save_text sh vs = ''['' @ newline @ element_lines sh 2 vs @ '']''"

definition load_text :: "(string \<Rightarrow> 'd result) \<Rightarrow> string \<Rightarrow> 'd json list result" where
  "load_text rd s =
     bindE (parse_json rd s) (\<lambda>(v, r). Inr (case v of J_array vs \<Rightarrow> vs | _ \<Rightarrow> [v]))"

end
