(* ===== verification/Json_Props.thy ===== *)
theory Json_Props
  imports Json_Text
begin

text \<open>
  \<open>json.hpp\<close>: the parser always ends, what is printed is read back, and the strings for which it is not.
\<close>

section \<open>The parser ends\<close>

declare escaped.simps [simp del]

lemma skip_white_length: "length (skip_white s) \<le> length s"
  by (simp add: skip_white_def length_dropWhile_le)

lemma skip_white_Cons: "skip_white s = c # cs \<Longrightarrow> length cs < length s"
  using skip_white_length [of s] by simp

lemma string_body_length: "string_body s = Inr (t, r) \<Longrightarrow> length r < length s"
proof (induction s arbitrary: t r rule: string_body.induct)
  case (2 c cs)
  then show ?case by (fastforce split: if_splits list.splits simp: bindE_Inr)
qed simp

lemma read_string_length: "read_string s = Inr (t, r) \<Longrightarrow> length r < length s"
  by (auto simp: read_string_def split: list.splits if_splits dest: string_body_length)

lemma some_digits_length: "some_digits s = Inr (ds, r) \<Longrightarrow> length r < length s"
  by (cases s) (auto simp: some_digits_def bad_number_def length_dropWhile_le less_Suc_eq_le split: if_splits)

lemma read_fraction_length: "read_fraction s = Inr (t, r) \<Longrightarrow> length r \<le> length s"
  by (auto simp: read_fraction_def bindE_Inr split: list.splits if_splits dest!: some_digits_length)

lemma read_sign_length: "read_sign sg s = (t, r) \<Longrightarrow> length r \<le> length s"
  by (auto simp: read_sign_def split: list.splits if_splits)

lemma read_exponent_length: "read_exponent s = Inr (t, r) \<Longrightarrow> length r \<le> length s"
  by (fastforce simp: read_exponent_def bindE_Inr split: list.splits if_splits prod.splits
      dest!: some_digits_length read_sign_length)

lemma read_number_length: "read_number rd s = Inr (v, r) \<Longrightarrow> length r < length s"
  by (fastforce simp: read_number_def bindE_Inr split: prod.splits if_splits
      dest!: some_digits_length read_fraction_length read_exponent_length read_sign_length)

lemma read_word_length: "read_bool s = Inr (v, r) \<Longrightarrow> length r < length s" "read_null s = Inr (v, r) \<Longrightarrow> length r < length s"
  by (cases s; force simp: read_bool_def read_null_def split: if_splits)+

lemma read_scalar_length: "s \<noteq> [] \<Longrightarrow> read_scalar rd s = Inr (v, r) \<Longrightarrow> length r < length s"
  by (auto simp: read_scalar_def Let_def bindE_Inr split: if_splits dest: read_string_length read_number_length read_word_length)

text \<open>\<open>parseValue\<close> by the first character.\<close>

lemma json_value_object:
  "skip_white s = CHR ''{'' # cs \<Longrightarrow> skip_white cs = [] \<Longrightarrow> json_value rd (Suc n) s = Inr (J_object [], [])"
  "skip_white s = CHR ''{'' # cs \<Longrightarrow> skip_white cs = CHR ''}'' # ds \<Longrightarrow> json_value rd (Suc n) s = Inr (J_object [], ds)"
  "skip_white s = CHR ''{'' # cs \<Longrightarrow> skip_white cs = d # ds \<Longrightarrow> d \<noteq> CHR ''}'' \<Longrightarrow>
     json_value rd (Suc n) s = bindE (json_members rd n [] (d # ds)) (\<lambda>(m, r). Inr (J_object m, r))"
  by simp_all

lemma json_value_array:
  "skip_white s = CHR ''['' # cs \<Longrightarrow> skip_white cs = [] \<Longrightarrow> json_value rd (Suc n) s = Inr (J_array [], [])"
  "skip_white s = CHR ''['' # cs \<Longrightarrow> skip_white cs = CHR '']'' # ds \<Longrightarrow> json_value rd (Suc n) s = Inr (J_array [], ds)"
  "skip_white s = CHR ''['' # cs \<Longrightarrow> skip_white cs = d # ds \<Longrightarrow> d \<noteq> CHR '']'' \<Longrightarrow>
     json_value rd (Suc n) s = bindE (json_elements rd n (d # ds)) (\<lambda>(vs, r). Inr (J_array vs, r))"
  by simp_all

lemma json_value_scalar:
  "skip_white s = c # cs \<Longrightarrow> c \<noteq> CHR ''{'' \<Longrightarrow> c \<noteq> CHR ''['' \<Longrightarrow> json_value rd (Suc n) s = read_scalar rd (c # cs)"
  by simp

lemma json_value_empty: "skip_white s = [] \<Longrightarrow> json_value rd (Suc n) s = Inl (Throw ''Unexpected end of JSON'')"
  by simp

lemma json_value_cases:
  obtains (empty) "skip_white s = []"
  | (object) cs where "skip_white s = CHR ''{'' # cs" "skip_white cs = []"
  | (object_end) cs ds where "skip_white s = CHR ''{'' # cs" "skip_white cs = CHR ''}'' # ds"
  | (members) cs d ds where "skip_white s = CHR ''{'' # cs" "skip_white cs = d # ds" "d \<noteq> CHR ''}''"
  | (array) cs where "skip_white s = CHR ''['' # cs" "skip_white cs = []"
  | (array_end) cs ds where "skip_white s = CHR ''['' # cs" "skip_white cs = CHR '']'' # ds"
  | (elements) cs d ds where "skip_white s = CHR ''['' # cs" "skip_white cs = d # ds" "d \<noteq> CHR '']''"
  | (scalar) c cs where "skip_white s = c # cs" "c \<noteq> CHR ''{''" "c \<noteq> CHR ''[''"
proof (cases "skip_white s")
  case (Cons c cs)
  show thesis
  proof (cases "c = CHR ''{'' \<or> c = CHR ''[''")
    case False
    then show thesis using scalar [OF Cons] by blast
  next
    case True
    then show thesis
      using object object_end members array array_end elements Cons by (cases "skip_white cs") metis+
  qed
qed (rule empty)

declare json_value.simps(2) [simp del]
lemmas json_value_simps = json_value_empty json_value_object json_value_array json_value_scalar

lemma json_membersE:
  assumes "json_members rd (Suc n) m s = Inr (m1, r)" and "s \<noteq> []"
  obtains k r1 r2 v r3 d r4 where "read_string (skip_white s) = Inr (k, r1)" "skip_white r1 = CHR '':'' # r2"
    "json_value rd n r2 = Inr (v, r3)" "skip_white r3 = d # r4"
    "r4 = r \<or> json_members rd n (sm_insert string_less k v m) r4 = Inr (m1, r)"
proof -
  obtain k r1 where k: "read_string (skip_white s) = Inr (k, r1)"
    using assms by (cases "read_string (skip_white s)") (auto simp del: json_value.simps)
  obtain r2 where c: "skip_white r1 = CHR '':'' # r2"
    using assms k by (auto split: list.splits if_splits)
  obtain v r3 where v: "json_value rd n r2 = Inr (v, r3)"
    using assms k c by (cases "json_value rd n r2") auto
  obtain d r4 where d: "skip_white r3 = d # r4" using assms k c v by (auto split: list.splits)
  show thesis using that [OF k c v d] assms k c v d by (simp split: if_splits)
qed

lemma json_elementsE:
  assumes "json_elements rd (Suc n) s = Inr (vs, r)" and "s \<noteq> []"
  obtains v r1 d r2 vs1 where "json_value rd n s = Inr (v, r1)" "skip_white r1 = d # r2"
    "r2 = r \<or> json_elements rd n r2 = Inr (vs1, r)"
proof -
  obtain v r1 where v: "json_value rd n s = Inr (v, r1)"
    using assms by (cases "json_value rd n s") auto
  obtain d r2 where d: "skip_white r1 = d # r2" using assms v by (auto split: list.splits)
  show thesis using that [OF v d] assms v d by (auto simp: bindE_Inr split: if_splits)
qed

text \<open>Reading consumes text, and only the loops may find none.\<close>

lemma json_shrinks:
  "json_value rd n s = Inr (v, r) \<Longrightarrow> length r < length s"
  "json_members rd n m s = Inr (m1, r) \<Longrightarrow> length r \<le> length s"
  "json_elements rd n s = Inr (vs, r) \<Longrightarrow> length r \<le> length s"
proof (induction n arbitrary: s v r m m1 vs)
  case (Suc n)
  {
    case 1
    have sk: "length (skip_white s) \<le> length s" by (rule skip_white_length)
    show ?case
    proof (cases s rule: json_value_cases)
      case (object_end cs ds)
      then show ?thesis using 1 sk skip_white_Cons [OF object_end(2)] by (simp add: json_value_simps)
    next
      case (members cs d ds)
      then obtain m1 where "json_members rd n [] (d # ds) = Inr (m1, r)" using 1 by (auto simp: json_value_simps bindE_Inr)
      then show ?thesis using Suc.IH(2) sk members skip_white_Cons [OF members(2)] by fastforce
    next
      case (array_end cs ds)
      then show ?thesis using 1 sk skip_white_Cons [OF array_end(2)] by (simp add: json_value_simps)
    next
      case (elements cs d ds)
      then obtain vs1 where "json_elements rd n (d # ds) = Inr (vs1, r)" using 1 by (auto simp: json_value_simps bindE_Inr)
      then show ?thesis using Suc.IH(3) sk elements skip_white_Cons [OF elements(2)] by fastforce
    next
      case (scalar c cs)
      then show ?thesis using 1 sk read_scalar_length [of "c # cs" rd v r] by (simp add: json_value_simps)
    qed (use 1 sk in \<open>auto simp: json_value_simps\<close>)
  next
    case 2
    show ?case
    proof (cases "s = []")
      case False
      obtain k r1 r2 v1 r3 d r4 m2 where s: "read_string (skip_white s) = Inr (k, r1)" "skip_white r1 = CHR '':'' # r2"
        "json_value rd n r2 = Inr (v1, r3)" "skip_white r3 = d # r4" "r4 = r \<or> json_members rd n m2 r4 = Inr (m1, r)"
        by (rule json_membersE [OF 2 False]) (rule that)
      show ?thesis
        using skip_white_length [of s] read_string_length [OF s(1)] skip_white_Cons [OF s(2)] Suc.IH(1) [OF s(3)]
          skip_white_Cons [OF s(4)] s(5) Suc.IH(2) [where s = r4 and m = m2] by fastforce
    qed (use 2 in simp)
  next
    case 3
    show ?case
    proof (cases "s = []")
      case False
      obtain v1 r1 d r2 vs1 where s: "json_value rd n s = Inr (v1, r1)" "skip_white r1 = d # r2"
        "r2 = r \<or> json_elements rd n r2 = Inr (vs1, r)"
        by (rule json_elementsE [OF 3 False]) (rule that)
      show ?thesis using Suc.IH(1) [OF s(1)] skip_white_Cons [OF s(2)] s(3) Suc.IH(3) [where s = r2] by fastforce
    qed (use 3 in simp)
  }
qed simp_all

text \<open>A result that is no fault but an exception.\<close>

definition returns :: "'a result \<Rightarrow> bool" where
  "returns r \<longleftrightarrow> (\<forall>e. r = Inl e \<longrightarrow> (\<exists>m. e = Throw m))"

lemma returns_simps [simp]: "returns (Inr x)" "returns (Inl (Throw m))" "\<not> returns (Inl Out_of_fuel)"
  by (simp_all add: returns_def)

lemma returns_bindE: "returns r \<Longrightarrow> (\<And>x. r = Inr x \<Longrightarrow> returns (k x)) \<Longrightarrow> returns (bindE r k)"
  by (cases r) (auto simp: returns_def)

lemma string_body_returns: "returns (string_body s)"
proof (induction s rule: length_induct)
  case (1 s)
  show ?case
  proof (cases s)
    case (Cons c cs)
    have "returns (string_body cs)" using 1 Cons by simp
    moreover have "returns (string_body ds)" if "cs = d # ds" for d ds using 1 Cons that by simp
    ultimately show ?thesis by (cases cs) (simp_all add: Cons returns_bindE split_beta)
  qed simp
qed

lemma read_string_returns: "returns (read_string s)"
  by (auto simp: read_string_def string_body_returns split: list.splits)

lemma some_digits_returns: "returns (some_digits s)"
  by (simp add: some_digits_def bad_number_def)

lemma stoi_returns: "returns (stoi s)"
  by (simp add: stoi_def sto_range_def split: option.splits)

lemma read_fraction_returns: "returns (read_fraction s)"
  by (cases s) (auto simp: read_fraction_def some_digits_returns intro!: returns_bindE)

lemma read_exponent_returns: "returns (read_exponent s)"
proof (cases s)
  case (Cons c cs)
  obtain sg r where "read_sign ''+-'' cs = (sg, r)" by fastforce
  then show ?thesis by (auto simp: Cons read_exponent_def some_digits_returns intro!: returns_bindE)
qed (simp add: read_exponent_def)

lemma read_number_returns:
  assumes "\<And>t. returns (rd t)"
  shows "returns (read_number rd s)"
proof -
  obtain sg r where "read_sign ''-'' s = (sg, r)" by fastforce
  then show ?thesis
    by (auto simp: read_number_def assms some_digits_returns stoi_returns read_fraction_returns read_exponent_returns
        intro!: returns_bindE)
qed

lemma read_word_returns: "returns (read_bool s)" "returns (read_null s)"
  by (simp_all add: read_bool_def read_null_def)

lemma read_scalar_returns: "(\<And>t. returns (rd t)) \<Longrightarrow> returns (read_scalar rd s)"
  by (auto simp: read_scalar_def Let_def read_string_returns read_word_returns read_number_returns intro!: returns_bindE)

lemma json_returns:
  assumes rd: "\<And>t. returns (rd t)"
  shows "2 * length s < n \<Longrightarrow> returns (json_value rd n s)"
    and "2 * length s + 1 < n \<Longrightarrow> returns (json_members rd n m s)"
    and "2 * length s + 1 < n \<Longrightarrow> returns (json_elements rd n s)"
proof (induction n arbitrary: s m)
  case (Suc n)
  {
    case 1
    have sk: "length (skip_white s) \<le> length s" by (rule skip_white_length)
    show ?case
    proof (cases s rule: json_value_cases)
      case (members cs d ds)
      then show ?thesis using 1 sk Suc.IH(2) [of "d # ds" "[]"] skip_white_Cons [OF members(2)]
        by (auto simp: json_value_simps intro!: returns_bindE)
    next
      case (elements cs d ds)
      then show ?thesis using 1 sk Suc.IH(3) [of "d # ds"] skip_white_Cons [OF elements(2)]
        by (auto simp: json_value_simps intro!: returns_bindE)
    next
      case (scalar c cs)
      then show ?thesis using read_scalar_returns [OF rd] by (simp add: json_value_simps)
    qed (simp_all add: json_value_simps)
  next
    case 2
    show ?case
    proof (cases "s = []")
      case False
      have "returns (json_value rd n r2)"
        if "read_string (skip_white s) = Inr (k, r1)" "skip_white r1 = c # r2" for k r1 c r2
        using Suc.IH(1) [of r2] read_string_length [OF that(1)] skip_white_Cons [OF that(2)] skip_white_length [of s] 2 by simp
      moreover have "returns (json_members rd n m2 r4)"
        if "read_string (skip_white s) = Inr (k, r1)" "skip_white r1 = c # r2" "json_value rd n r2 = Inr (v, r3)"
          "skip_white r3 = d # r4" for k r1 c r2 v r3 d r4 m2
        using Suc.IH(2) [of r4 m2] read_string_length [OF that(1)] skip_white_Cons [OF that(2)] json_shrinks(1) [OF that(3)]
          skip_white_Cons [OF that(4)] skip_white_length [of s] 2 by simp
      ultimately show ?thesis using False read_string_returns [of "skip_white s"]
        by (auto split: list.splits intro!: returns_bindE)
    qed simp
  next
    case 3
    show ?case
    proof (cases "s = []")
      case False
      then have "returns (json_value rd n s)" using Suc.IH(1) [of s] 3 by simp
      moreover have "returns (json_elements rd n r2)"
        if "json_value rd n s = Inr (v, r1)" "skip_white r1 = d # r2" for v r1 d r2
        using Suc.IH(3) [of r2] json_shrinks(1) [OF that(1)] skip_white_Cons [OF that(2)] 3 by simp
      ultimately show ?thesis using False by (auto split: list.splits intro!: returns_bindE)
    qed simp
  }
qed simp_all

section \<open>Printing and reading back\<close>

text \<open>
  What the printer can write so that the parser understands it: strings without quotes and backslashes, integers of
  32 bits, objects with their keys in order, and numbers with a fraction that \<open>sh\<close> writes in decimal notation and
  \<open>rd\<close> reads back.
\<close>

definition unescaped :: "string \<Rightarrow> bool" where
  "unescaped t \<longleftrightarrow> list_all (\<lambda>c. c \<noteq> CHR 0x22 \<and> c \<noteq> CHR 0x5C) t"

definition decimal :: "string \<Rightarrow> bool" where
  "decimal t \<longleftrightarrow>
     (let (sg, r) = read_sign ''-'' t; fs = dropWhile is_digit r
      in takeWhile is_digit r \<noteq> [] \<and> fs \<noteq> [] \<and> hd fs = CHR ''.'' \<and> tl fs \<noteq> [] \<and> list_all is_digit (tl fs))"

fun printable :: "('d \<Rightarrow> string) \<Rightarrow> (string \<Rightarrow> 'd result) \<Rightarrow> 'd json \<Rightarrow> bool" where
  "printable sh rd (J_int i) = (INT32_MIN \<le> i \<and> i \<le> INT32_MAX)"
| "printable sh rd (J_double d) = (decimal (sh d) \<and> rd (sh d) = Inr d)"
| "printable sh rd (J_string t) = unescaped t"
| "printable sh rd (J_array vs) = list_all (printable sh rd) vs"
| "printable sh rd (J_object m) = (sm_ok string_less m \<and> list_all (\<lambda>(k, v). unescaped k \<and> printable sh rd v) m)"
| "printable sh rd _ = True"

text \<open>What may follow a number.\<close>

definition stops_number :: "string \<Rightarrow> bool" where
  "stops_number r \<longleftrightarrow> r = [] \<or> \<not> (is_digit (hd r) \<or> hd r \<in> set ''.eE'')"

lemma string_body_unescaped: "unescaped t \<Longrightarrow> string_body (t @ CHR 0x22 # r) = Inr (t, r)"
  by (induction t) (auto simp: unescaped_def)

lemma read_string_unescaped: "unescaped t \<Longrightarrow> read_string (CHR 0x22 # t @ CHR 0x22 # r) = Inr (t, r)"
  by (simp add: read_string_def string_body_unescaped)

lemma stoi_show_int:
  assumes "INT32_MIN \<le> i" and "i \<le> INT32_MAX"
  shows "stoi (show_int i) = Inr i"
proof (cases "i < 0")
  case True
  have "dropWhile is_cspace (show_int i) = show_int i"
    using True by (simp add: show_int_def is_cspace_def Let_def)
  then show ?thesis
    using True assms signed_digits_minus [OF show_nat_nonempty show_nat_digits, of True "nat (- i)"]
    by (simp add: stoi_def sto_range_def show_int_def)
next
  case False
  then show ?thesis using assms stoi_show_nat [of "nat i"] by (simp add: show_int_def)
qed

lemma digits_split:
  "list_all is_digit ds \<Longrightarrow> r = [] \<or> \<not> is_digit (hd r) \<Longrightarrow> takeWhile is_digit (ds @ r) = ds \<and> dropWhile is_digit (ds @ r) = r"
  by (metis append_same_eq takeWhile_all_append takeWhile_dropWhile_id same_append_eq)

lemma some_digits_all:
  "ds \<noteq> [] \<Longrightarrow> list_all is_digit ds \<Longrightarrow> r = [] \<or> \<not> is_digit (hd r) \<Longrightarrow> some_digits (ds @ r) = Inr (ds, r)"
  using digits_split [of ds r] by (simp add: some_digits_def)

lemma read_number_int:
  assumes "INT32_MIN \<le> i" and "i \<le> INT32_MAX" and "stops_number r"
  shows "read_number rd (show_int i @ r) = Inr (J_int i, r)"
proof -
  define ds where "ds = show_nat (nat \<bar>i\<bar>)"
  have ds: "ds \<noteq> []" "list_all is_digit ds" by (simp_all add: ds_def show_nat_digits)
  have nosign: "hd ds \<noteq> CHR ''-''" using ds digit_not_sign by (cases ds) auto
  define sg where "sg = (if i < 0 then ''-'' else [])"
  have t: "show_int i = sg @ ds" by (simp add: show_int_def sg_def ds_def)
  have s: "read_sign ''-'' (show_int i @ r) = (sg, ds @ r)"
    using ds(1) nosign by (cases ds) (auto simp: t sg_def read_sign_def)
  have r: "r = [] \<or> \<not> is_digit (hd r)" "read_fraction r = Inr ([], r)" "read_exponent r = Inr ([], r)"
    using assms(3) by (cases r; auto simp: stops_number_def read_fraction_def read_exponent_def)+
  show ?thesis using stoi_show_int [OF assms(1,2)] unfolding read_number_def s
    by (simp add: some_digits_all [OF ds r(1)] r(2,3) t)
qed

lemma read_number_double:
  assumes "decimal t" and "rd t = Inr d" and "stops_number r"
  shows "read_number rd (t @ r) = Inr (J_double d, r)"
proof -
  obtain sg t1 where s: "read_sign ''-'' t = (sg, t1)" by fastforce
  define ds fs where "ds = takeWhile is_digit t1" and "fs = tl (dropWhile is_digit t1)"
  have d: "ds \<noteq> []" "fs \<noteq> []" "list_all is_digit fs" "dropWhile is_digit t1 = CHR ''.'' # fs"
    using assms(1) unfolding decimal_def s ds_def fs_def Let_def by (cases "dropWhile is_digit t1"; auto)+
  have ds: "list_all is_digit ds" by (auto simp: ds_def list_all_iff dest: set_takeWhileD)
  have t1: "t1 = ds @ CHR ''.'' # fs" unfolding ds_def d(4) [symmetric] by simp
  have t: "t = sg @ t1" "read_sign ''-'' (t @ r) = (sg, t1 @ r)"
    using s d(1) by (auto simp: read_sign_def ds_def split: list.splits if_splits)
  have r: "r = [] \<or> \<not> is_digit (hd r)" "read_exponent r = Inr ([], r)"
    using assms(3) by (cases r; auto simp: stops_number_def read_exponent_def)+
  have "some_digits (ds @ CHR ''.'' # fs @ r) = Inr (ds, CHR ''.'' # fs @ r)"
    by (rule some_digits_all [OF d(1) ds]) (simp add: is_digit_def)
  moreover have "read_fraction (CHR ''.'' # fs @ r) = Inr (CHR ''.'' # fs, r)"
    by (simp add: read_fraction_def some_digits_all [OF d(2,3) r(1)])
  ultimately show ?thesis unfolding read_number_def t(2) using assms(2) by (simp add: t(1) t1 r(2))
qed

text \<open>White space.\<close>

lemma skip_white_id: "c \<notin> Collect is_cspace \<Longrightarrow> skip_white (c # s) = c # s"
  by (simp add: skip_white_def)

lemma skip_white_lines [simp]: "skip_white (spaces n @ s) = skip_white s" "skip_white (newline @ s) = skip_white s"
  by (induction n) (simp_all add: spaces_def newline_def skip_white_def is_cspace_def Let_def)

lemma skip_white_idem [simp]: "skip_white (skip_white s) = skip_white s"
  by (simp add: skip_white_def)

lemma json_value_skip: "json_value rd n (skip_white s) = json_value rd n s"
  by (cases n) (simp_all only: json_value.simps skip_white_idem)

lemma marks_not_white:
  "\<not> is_cspace CHR 0x22" "\<not> is_cspace CHR ''{''" "\<not> is_cspace CHR ''}''" "\<not> is_cspace CHR ''[''" "\<not> is_cspace CHR '']''"
  "\<not> is_cspace CHR '',''" "\<not> is_cspace CHR '':''"
  by (simp_all add: is_cspace_def)

lemma skip_white_marks [simp]:
  "skip_white (CHR 0x22 # s) = CHR 0x22 # s" "skip_white (CHR ''{'' # s) = CHR ''{'' # s" "skip_white (CHR ''}'' # s) = CHR ''}'' # s"
  "skip_white (CHR ''['' # s) = CHR ''['' # s" "skip_white (CHR '']'' # s) = CHR '']'' # s"
  "skip_white (CHR '','' # s) = CHR '','' # s" "skip_white (CHR '':'' # s) = CHR '':'' # s"
  by (simp_all add: skip_white_id marks_not_white)

lemma json_text_head:
  assumes "printable sh rd v"
  shows "\<exists>c cs. json_text sh n v = c # cs \<and> \<not> is_cspace c \<and> c \<noteq> CHR '']'' \<and> c \<noteq> CHR ''}''"
proof (cases v)
  case (J_int i)
  obtain c cs where "show_nat (nat i) = c # cs" "is_digit c"
    using show_nat_digits [of "nat i"] by (cases "show_nat (nat i)") auto
  then show ?thesis by (auto simp: J_int show_int_def is_cspace_def is_digit_def Let_def)
next
  case (J_double d)
  then show ?thesis using assms
    by (auto simp: decimal_def read_sign_def Let_def is_cspace_def is_digit_def split: list.splits if_splits)
qed (auto simp: marks_not_white is_cspace_def)

text \<open>The text of the rest of an array or object, as the loops find it.\<close>

lemma sm_insert_last: "sm_ok string_less (m @ (k, v) # m1) \<Longrightarrow> sm_insert string_less k v m = m @ [(k, v)]"
proof (induction m)
  case (Cons e m)
  obtain k1 v1 where e: "e = (k1, v1)" by fastforce
  have "string_less k1 k" using Cons.prems by (simp add: e keys.ok_Cons)
  then show ?case using Cons e keys.lt_asym [of k1 k] by (simp add: keys.ok_Cons)
qed simp

lemma lines_nonempty [simp]: "newline @ s \<noteq> []"
  by (simp add: newline_def)

lemma length_newline [simp]: "length newline = 1"
  by (simp add: newline_def)

lemma newline_stops [simp]: "stops_number (newline @ s)" "stops_number (CHR '','' # s)"
  by (simp_all add: stops_number_def newline_def is_digit_def)

definition array_rest :: "('d \<Rightarrow> string) \<Rightarrow> nat \<Rightarrow> nat \<Rightarrow> 'd json list \<Rightarrow> string \<Rightarrow> string" where
  "array_rest sh n k vs r = element_lines sh n vs @ spaces k @ CHR '']'' # r"

definition object_rest :: "('d \<Rightarrow> string) \<Rightarrow> nat \<Rightarrow> nat \<Rightarrow> (string \<times> 'd json) list \<Rightarrow> string \<Rightarrow> string" where
  "object_rest sh n k m r = member_lines sh n m @ spaces k @ CHR ''}'' # r"

lemma skip_white_text: "printable sh rd v \<Longrightarrow> skip_white (json_text sh n v @ s) = json_text sh n v @ s"
  using json_text_head [of sh rd v n] by (auto intro: skip_white_id)

lemma array_rest_skip:
  "printable sh rd v \<Longrightarrow> skip_white (array_rest sh n k (v # vs) r) =
     json_text sh n v @ (if vs = [] then [] else '','') @ newline @ array_rest sh n k vs r"
  using skip_white_text [of sh rd v n] by (simp add: array_rest_def)

lemma object_rest_skip:
  "skip_white (object_rest sh n k ((x, v) # m) r) =
     CHR 0x22 # x @ CHR 0x22 # '': '' @ json_text sh n v @ (if m = [] then [] else '','') @ newline @ object_rest sh n k m r"
  by (simp add: object_rest_def)

lemma number_head:
  "\<exists>c cs. show_int i = c # cs \<and> (c = CHR ''-'' \<or> is_digit c)"
  "decimal t \<Longrightarrow> \<exists>c cs. t = c # cs \<and> (c = CHR ''-'' \<or> is_digit c)"
proof -
  have "\<exists>c cs. show_nat j = c # cs \<and> is_digit c" for j using show_nat_digits [of j] by (cases "show_nat j") auto
  from this [of "nat i"] show "\<exists>c cs. show_int i = c # cs \<and> (c = CHR ''-'' \<or> is_digit c)" by (auto simp: show_int_def)
  show "decimal t \<Longrightarrow> \<exists>c cs. t = c # cs \<and> (c = CHR ''-'' \<or> is_digit c)"
    by (cases t) (auto simp: decimal_def read_sign_def Let_def split: if_splits)
qed

lemma json_value_number:
  assumes "\<exists>c cs. t = c # cs \<and> (c = CHR ''-'' \<or> is_digit c)"
  shows "json_value rd (Suc n) (t @ r) = read_number rd (t @ r)"
proof -
  obtain c cs where t: "t = c # cs" "c = CHR ''-'' \<or> is_digit c" using assms by blast
  then have "\<not> is_cspace c" "c \<noteq> CHR ''{''" "c \<noteq> CHR ''[''" "c \<noteq> CHR 0x22" "c \<notin> set ''tfn''"
    by (auto simp: is_cspace_def is_digit_def Let_def)
  then show ?thesis using t by (simp add: json_value_scalar skip_white_id read_scalar_def)
qed

lemma json_reads:
  "printable sh rd v \<Longrightarrow> stops_number r \<Longrightarrow> 2 * length (json_text sh n v @ r) < f \<Longrightarrow>
     json_value rd f (json_text sh n v @ r) = Inr (v, r)"
  "list_all (printable sh rd) vs \<Longrightarrow> vs \<noteq> [] \<Longrightarrow> skip_white s = skip_white (array_rest sh n k vs r) \<Longrightarrow>
     2 * length s + 1 < f \<Longrightarrow> json_elements rd f s = Inr (vs, r)"
  "list_all (\<lambda>(k, v). unescaped k \<and> printable sh rd v) m \<Longrightarrow> m \<noteq> [] \<Longrightarrow> sm_ok string_less (m0 @ m) \<Longrightarrow>
     skip_white s = skip_white (object_rest sh n k m r) \<Longrightarrow> 2 * length s + 1 < f \<Longrightarrow>
     json_members rd f m0 s = Inr (m0 @ m, r)"
proof (induction sh n v and sh n vs and sh n m arbitrary: r f and s k r f and m0 s k r f
    rule: json_text_element_lines_member_lines.induct)
  case (1 sh n)
  then show ?case by (cases f) (simp_all add: json_value_scalar skip_white_id is_cspace_def read_scalar_def read_null_def)
next
  case (2 sh n b)
  then show ?case by (cases f) (simp_all add: json_value_scalar skip_white_id is_cspace_def read_scalar_def read_bool_def)
next
  case (3 sh n i)
  then show ?case by (cases f) (simp_all add: json_value_number [OF number_head(1)] read_number_int)
next
  case (4 sh n d)
  then show ?case by (cases f) (simp_all add: json_value_number [OF number_head(2)] read_number_double)
next
  case (5 sh n t)
  then show ?case by (cases f) (simp_all add: json_value_scalar read_scalar_def read_string_unescaped)
next
  case (6 sh n vs)
  show ?case
  proof (cases "vs = []")
    case True
    then show ?thesis using 6(4) by (cases f) (simp_all add: json_value_simps)
  next
    case False
    then obtain v vs1 where vs: "vs = v # vs1" by (cases vs) auto
    obtain f1 where f: "f = Suc f1" using 6(4) by (cases f) simp_all
    have v: "printable sh rd v" using 6(2) by (simp add: vs)
    let ?s = "skip_white (array_rest sh (n + 2) n vs r)"
    obtain c cs where s: "?s = c # cs" "c \<noteq> CHR '']''"
      using array_rest_skip [OF v, of "n + 2" n vs1 r] json_text_head [OF v, of "n + 2"] by (auto simp: vs)
    have t: "json_text sh n (J_array vs) @ r = CHR ''['' # newline @ array_rest sh (n + 2) n vs r"
      using False by (simp add: array_rest_def)
    have "2 * length (c # cs) + 1 < f1"
      using 6(4) skip_white_length [of "array_rest sh (n + 2) n vs r"] unfolding t f s by simp
    moreover have "skip_white (c # cs) = ?s" using s by (metis skip_white_idem)
    ultimately have "json_elements rd f1 (c # cs) = Inr (vs, r)" using 6(1) [OF False _ False, of "c # cs" n r f1] 6(2) by simp
    then show ?thesis unfolding t f
      by (subst json_value_array(3) [where cs = "newline @ array_rest sh (n + 2) n vs r" and d = c and ds = cs]) (use s in auto)
  qed
next
  case (7 sh n m)
  show ?case
  proof (cases "m = []")
    case True
    then show ?thesis using 7(4) by (cases f) (simp_all add: json_value_simps)
  next
    case False
    then obtain x v m1 where m: "m = (x, v) # m1" by (cases m) auto
    obtain f1 where f: "f = Suc f1" using 7(4) by (cases f) simp_all
    let ?s = "skip_white (object_rest sh (n + 2) n m r)"
    obtain c cs where s: "?s = c # cs" "c \<noteq> CHR ''}''" by (simp add: m object_rest_skip)
    have t: "json_text sh n (J_object m) @ r = CHR ''{'' # newline @ object_rest sh (n + 2) n m r"
      using False by (simp add: object_rest_def)
    have "2 * length (c # cs) + 1 < f1"
      using 7(4) skip_white_length [of "object_rest sh (n + 2) n m r"] unfolding t f s by simp
    moreover have "skip_white (c # cs) = ?s" using s by (metis skip_white_idem)
    ultimately have "json_members rd f1 [] (c # cs) = Inr (m, r)" using 7(1) [OF False _ False, of "[]" "c # cs" n r f1] 7(2) by simp
    then show ?thesis unfolding t f
      by (subst json_value_object(3) [where cs = "newline @ object_rest sh (n + 2) n m r" and d = c and ds = cs]) (use s in auto)
  qed
next
  case (9 sh n v vs)
  have v: "printable sh rd v" and vs: "list_all (printable sh rd) vs" using 9(3) by simp_all
  obtain f1 where f: "f = Suc f1" using 9(6) by (cases f) simp_all
  let ?r1 = "(if vs = [] then [] else '','') @ newline @ array_rest sh n k vs r"
  have sk: "skip_white s = json_text sh n v @ ?r1" using 9(5) array_rest_skip [OF v] by simp
  have l: "length (json_text sh n v @ ?r1) \<le> length s" using skip_white_length [of s] unfolding sk .
  have "json_value rd f1 (skip_white s) = Inr (v, ?r1)"
    unfolding sk using l 9(6) by (intro 9(1) [OF v]) (auto simp: f)
  then have val: "json_value rd f1 s = Inr (v, ?r1)" by (simp only: json_value_skip)
  have s: "s \<noteq> []" using l json_text_head [OF v, of n] by auto
  show ?case
  proof (cases "vs = []")
    case True
    then show ?thesis using s val by (simp add: f array_rest_def)
  next
    case False
    have "json_elements rd f1 (newline @ array_rest sh n k vs r) = Inr (vs, r)"
      using False l 9(6) by (intro 9(2) [OF vs False]) (auto simp: f)
    then show ?thesis using s val False by (simp add: f)
  qed
next
  case (11 sh n x v m)
  have v: "printable sh rd v" and x: "unescaped x" and m: "list_all (\<lambda>(k, v). unescaped k \<and> printable sh rd v) m" using 11(3) by simp_all
  obtain f1 where f: "f = Suc f1" using 11(7) by (cases f) simp_all
  let ?r1 = "(if m = [] then [] else '','') @ newline @ object_rest sh n k m r"
  let ?r2 = "'': '' @ json_text sh n v @ ?r1"
  have sk: "skip_white s = CHR 0x22 # x @ CHR 0x22 # ?r2" using 11(6) by (simp add: object_rest_skip)
  have l: "length (CHR 0x22 # x @ CHR 0x22 # ?r2) \<le> length s" using skip_white_length [of s] unfolding sk .
  have "json_value rd f1 (json_text sh n v @ ?r1) = Inr (v, ?r1)"
    using l 11(7) by (intro 11(1) [OF v]) (auto simp: f)
  moreover have "skip_white (CHR '' '' # json_text sh n v @ ?r1) = json_text sh n v @ ?r1"
    using skip_white_text [OF v] by (simp add: skip_white_def is_cspace_def)
  ultimately have val: "json_value rd f1 (CHR '' '' # json_text sh n v @ ?r1) = Inr (v, ?r1)"
    by (metis json_value_skip)
  have s: "s \<noteq> []" using l by auto
  have key: "read_string (skip_white s) = Inr (x, ?r2)" unfolding sk by (rule read_string_unescaped [OF x])
  have ins: "sm_insert string_less x v m0 = m0 @ [(x, v)]" by (rule sm_insert_last [OF 11(5)])
  show ?case
  proof (cases "m = []")
    case True
    then show ?thesis using s val key ins by (simp add: f object_rest_def)
  next
    case False
    have "json_members rd f1 (m0 @ [(x, v)]) (newline @ object_rest sh n k m r) = Inr ((m0 @ [(x, v)]) @ m, r)"
      using False l 11(5,7) by (intro 11(2) [OF m False]) (auto simp: f)
    then show ?thesis using s val key ins False by (simp add: f)
  qed
qed simp_all

lemma load_save_text:
  assumes "list_all (printable sh rd) vs"
  shows "load_text rd (save_text sh vs) = Inr vs"
proof (cases "vs = []")
  case True
  have "parse_json rd (''['' @ newline @ '']'') = Inr (J_array [], [])"
    using json_value_array(2) [of "''['' @ newline @ '']''" "newline @ '']''" "[]" rd 6] by (simp add: parse_json_def)
  then show ?thesis by (simp add: True load_text_def save_text_def)
next
  case False
  then have "save_text sh vs = json_text sh 0 (J_array vs)" by (simp add: save_text_def spaces_def numeral_2_eq_2)
  then show ?thesis using json_reads(1) [of sh rd "J_array vs" "[]" 0] assms
    by (simp add: load_text_def parse_json_def stops_number_def)
qed

section \<open>Properties\<close>

text \<open>
  The parser ends on every text: with the fuel it is given, \<open>parseValue\<close> returns a value and the rest of the
  text, which is shorter, or throws. The same holds for a whole file.
\<close>

theorem json_parser_total:
  assumes "\<And>t. returns (rd t)"
  shows "case parse_json rd s of Inr (v, r) \<Rightarrow> length r < length s | Inl e \<Rightarrow> (\<exists>m. e = Throw m)"
proof -
  have "returns (parse_json rd s)" unfolding parse_json_def by (rule json_returns(1) [OF assms]) simp
  moreover have "length r < length s" if "parse_json rd s = Inr (v, r)" for v r
    using json_shrinks(1) that unfolding parse_json_def by blast
  ultimately show ?thesis by (auto simp: returns_def split: sum.splits)
qed

text \<open>Numbers with a fraction as their texts.\<close>

definition text_double :: "string \<Rightarrow> string result" where
  "text_double t = Inr t"

lemma json_parser_total_witness:
  "parse_json text_double ''{'' = Inr (J_object [], []) \<and> length ([] :: string) < length ''{''"
proof -
  have p: "parse_json text_double ''{'' = Inr (J_object [], [])" by code_simp
  have "returns (text_double t)" for t by (simp add: text_double_def)
  from json_parser_total [OF this, of "''{''"] p show ?thesis by simp
qed

text \<open>
  C30. Reading inverts printing. The text of a printable value, with any indentation, is read back as the
  value, and \<open>loadFromFile\<close> reads back what \<open>saveToFile\<close> wrote.
\<close>

theorem json_roundtrip:
  assumes "printable sh rd v" and "list_all (printable sh rd) vs"
  shows "parse_json rd (json_text sh n v) = Inr (v, []) \<and> load_text rd (save_text sh vs) = Inr vs"
proof
  show "parse_json rd (json_text sh n v) = Inr (v, [])"
    using json_reads(1) [OF assms(1), of "[]" n] by (simp add: parse_json_def stops_number_def)
  show "load_text rd (save_text sh vs) = Inr vs" by (rule load_save_text [OF assms(2)])
qed

lemma json_roundtrip_witness:
  "\<exists>t. t = json_text (\<lambda>d. d) 2 (J_object [(''a'', J_array [J_int (- 7), J_double ''0.5'']), (''b'', J_string ''x y'')]) \<and>
     parse_json text_double t = Inr (J_object [(''a'', J_array [J_int (- 7), J_double ''0.5'']), (''b'', J_string ''x y'')], [])"
proof -
  have "printable (\<lambda>d. d) text_double (J_object [(''a'', J_array [J_int (- 7), J_double ''0.5'']), (''b'', J_string ''x y'')])"
    by code_simp
  from json_roundtrip [OF this, of "[]" 2] show ?thesis by simp
qed

text \<open>
  Strings are printed without escapes, so a string is read back exactly when it has neither a quote nor a
  backslash.
\<close>

theorem json_string_unescaped:
  fixes sh :: "'d \<Rightarrow> string" and rd :: "string \<Rightarrow> 'd result"
  shows "parse_json rd (json_text sh n (J_string t)) = Inr (J_string t, []) \<longleftrightarrow> unescaped t"
proof
  have bound: "length u + length r < length s \<and> (length u + length r + 1 = length s \<longrightarrow> s = u @ CHR 0x22 # r \<and> unescaped u)"
    if "string_body s = Inr (u, r)" for s u r
    using that
  proof (induction s arbitrary: u rule: string_body.induct)
    case (2 c cs)
    then show ?case by (fastforce simp: bindE_Inr unescaped_def split: if_splits list.splits)
  qed simp
  assume "parse_json rd (json_text sh n (J_string t)) = Inr (J_string t, [])"
  then have "string_body (t @ [CHR 0x22]) = Inr (t, [])"
    by (auto simp: parse_json_def json_value_scalar read_scalar_def read_string_def bindE_Inr)
  from bound [OF this] show "unescaped t" by simp
next
  assume "unescaped t"
  then show "parse_json rd (json_text sh n (J_string t)) = Inr (J_string t, [])"
    using json_reads(1) [of sh rd "J_string t" "[]" n] by (simp add: parse_json_def stops_number_def)
qed

end
