(* ===== verification/Hft_Columns.thy ===== *)
theory Hft_Columns
  imports SQL_AST Std_Text Std_Files "HOL-Library.Signed_Division"
begin

text \<open>
  The columns of market ticks: \<open>ColumnRing\<close> and \<open>TableColumn\<close> in \<open>hft.hpp\<close>, the indicators \<open>SMA\<close> and \<open>OBI\<close>
  (\<open>fastindicator\<close>), the strategies (\<open>faststrategy/basic.hpp\<close> and \<open>again.hpp\<close>, which are the same code under two names),
  their registration (\<open>IndicatorHandler.hpp\<close>, \<open>strategyHandler.hpp\<close>), the processing of a packet (\<open>UDPReceiver.hpp\<close>) and the
  batches of \<open>batchWriter.hpp\<close>.

  An entry of the arrays of indicators and strategies is the object it points to, or \<open>None\<close> while its function
  pointers are null. An access to an array goes through \<open>arr_get\<close> and \<open>arr_set\<close>, and a read of the packet through
  \<open>read_be64\<close>: an index or an offset outside is the fault \<open>Undefined\<close>, never a value. The counters and sums of the
  objects are kept at their width with \<open>i64\<close> and \<open>i32\<close>, the wrap of the compiled code.
\<close>

unbundle bit_operations_syntax

definition SCALINGFACTOR :: int where "SCALINGFACTOR = 1000000"
definition MAXHFTSYMBOL :: int where "MAXHFTSYMBOL = 100"
definition MAXCOLUMN :: int where "MAXCOLUMN = 16"
definition MAXRINGSIZE :: nat where "MAXRINGSIZE = 256"
definition MAX_NO_OF_INDICATORS :: int where "MAX_NO_OF_INDICATORS = 128"

text \<open>The bytes of \<open>HFTStorage::Packet\<close>.\<close>

definition PACKET_SIZE :: nat where "PACKET_SIZE = 1024"

section \<open>Arrays\<close>

definition arr_get :: "'a list \<Rightarrow> int \<Rightarrow> 'a result" where
  "arr_get xs i = (if 0 \<le> i \<and> i < int (length xs) then Inr (xs ! nat i) else Inl (Undefined ''a read outside of an array''))"

definition arr_set :: "'a list \<Rightarrow> int \<Rightarrow> 'a \<Rightarrow> 'a list result" where
  "arr_set xs i v = (if 0 \<le> i \<and> i < int (length xs) then Inr (xs[nat i := v]) else Inl (Undefined ''a write outside of an array''))"

text \<open>The value an \<open>int32_t\<close> holds after an assignment of \<open>x\<close>.\<close>

definition i32 :: "int \<Rightarrow> int" where
  "i32 x = (x + 2 ^ 31) mod 2 ^ 32 - 2 ^ 31"

section \<open>Rings of ticks\<close>

record column_ring =
  ring_head :: int
  ring_data :: "int list"

definition new_ring :: column_ring where
  "new_ring = \<lparr>ring_head = 0, ring_data = replicate MAXRINGSIZE 0\<rparr>"

definition ring_slot :: "int \<Rightarrow> int" where
  "ring_slot i = i AND 255"

definition ring_push :: "int \<Rightarrow> column_ring \<Rightarrow> column_ring result" where
  "ring_push v r =
     bindE (arr_set (ring_data r) (ring_head r) v) (\<lambda>d. Inr (r\<lparr>ring_data := d, ring_head := (ring_head r + 1) AND 255\<rparr>))"

definition ring_get :: "int \<Rightarrow> column_ring \<Rightarrow> int result" where
  "ring_get i r = arr_get (ring_data r) (ring_slot i)"

definition ring_latest :: "column_ring \<Rightarrow> int result" where
  "ring_latest r = arr_get (ring_data r) (ring_slot (ring_head r - 1))"

section \<open>Indicators\<close>

record sma =
  sma_running_sum :: int
  sma_tick :: int
  sma_count :: int
  sma_window :: int
  sma_filled :: int
  sma_column :: int

definition new_sma :: "int \<Rightarrow> int \<Rightarrow> sma" where
  "new_sma ticks col = \<lparr>sma_running_sum = 0, sma_tick = ticks, sma_count = 0, sma_window = 1, sma_filled = 0, sma_column = col\<rparr>"

definition sma_set_parameter :: "string list \<Rightarrow> sma \<Rightarrow> sma result" where
  "sma_set_parameter params m =
     (case params of
        [] \<Rightarrow> Inl (Undefined ''win[0] of an empty vector'')
      | p # _ \<Rightarrow>
          (case from_chars p of
             None \<Rightarrow> Inl (Throw ''Invalid SMA parameter'')
           | Some w \<Rightarrow>
               if w \<le> 0 then Inl (Throw ''Invalid SMA parameter'')
               else Inr (m\<lparr>sma_window := w, sma_running_sum := 0, sma_filled := 0\<rparr>)))"

definition sma_result :: "sma \<Rightarrow> int" where
  "sma_result m =
     (let denom = (if sma_filled m < sma_window m then sma_filled m else sma_window m)
      in if denom = 0 then 0 else sma_running_sum m sdiv denom)"

text \<open>\<open>on_tick\<close>; the column is \<open>None\<close> when \<open>column_to_use\<close> is no column.\<close>

definition sma_on_tick :: "column_ring option \<Rightarrow> sma \<Rightarrow> sma result" where
  "sma_on_tick ring m =
     (case ring of
        None \<Rightarrow> Inr m
      | Some r \<Rightarrow>
          let c = i64 (sma_count m + 1)
          in if c \<noteq> sma_tick m then Inr (m\<lparr>sma_count := c\<rparr>)
             else bindE (ring_latest r) (\<lambda>latest.
               let old_idx = (ring_head r - sma_window m - 1) AND 255;
                   m1 = m\<lparr>sma_count := 0, sma_running_sum := i64 (sma_running_sum m + latest)\<rparr>
               in if sma_filled m < sma_window m then Inr (m1\<lparr>sma_filled := sma_filled m + 1\<rparr>)
                  else bindE (ring_get old_idx r) (\<lambda>old.
                    Inr (m1\<lparr>sma_running_sum := i64 (sma_running_sum m1 - old)\<rparr>))))"

record obi =
  obi_tick :: int
  obi_count :: int
  obi_value :: int

definition new_obi :: "int \<Rightarrow> obi" where
  "new_obi ticks = \<lparr>obi_tick = ticks, obi_count = 0, obi_value = 0\<rparr>"

text \<open>
  The order book is ask price, ask quantity, bid price, bid quantity. The division of the least number by -1 has no
  value.
\<close>

definition obi_on_tick :: "bool \<Rightarrow> int list \<Rightarrow> obi \<Rightarrow> obi result" where
  "obi_on_tick isTop book ob =
     (if \<not> isTop then Inr ob
      else let c = i64 (obi_count ob + 1)
           in if c \<noteq> obi_tick ob then Inr (ob\<lparr>obi_count := c\<rparr>)
              else bindE (arr_get book 1) (\<lambda>ask_qty. bindE (arr_get book 3) (\<lambda>bid_qty.
                let denom = i64 (ask_qty + bid_qty); num = i64 (i64 (bid_qty - ask_qty) * SCALINGFACTOR)
                in if denom = 0 then Inr (ob\<lparr>obi_count := 0, obi_value := 0\<rparr>)
                   else if num = INT64_MIN \<and> denom = - 1 then Inl (Undefined ''an overflow of a division'')
                   else Inr (ob\<lparr>obi_count := 0, obi_value := num sdiv denom\<rparr>))))"

section \<open>Strategies\<close>

record strategy =
  sg_tick :: int
  sg_count :: int
  sg_window :: int

definition new_strategy :: "int \<Rightarrow> strategy" where
  "new_strategy ticks = \<lparr>sg_tick = ticks, sg_count = 0, sg_window = 1\<rparr>"

definition strategy_set_parameter :: "string list \<Rightarrow> strategy \<Rightarrow> strategy result" where
  "strategy_set_parameter params g =
     (case params of
        [] \<Rightarrow> Inl (Undefined ''win[0] of an empty vector'')
      | p # _ \<Rightarrow>
          (case from_chars p of
             None \<Rightarrow> Inl (Throw ''Invalid SMA parameter'')
           | Some w \<Rightarrow> if w \<le> 0 then Inl (Throw ''Invalid SMA parameter'') else Inr (g\<lparr>sg_window := w\<rparr>)))"

definition null_call :: "'a result" where
  "null_call = Inl (Undefined ''a call through a null function pointer'')"

text \<open>\<open>result\<close> looks at the first indicator of the table.\<close>

definition strategy_result :: "sma option list \<Rightarrow> strategy \<Rightarrow> (bool \<times> strategy) result" where
  "strategy_result indicators g =
     (let c = i64 (sg_count g + 1)
      in if c \<noteq> sg_tick g then Inr (False, g\<lparr>sg_count := c\<rparr>)
         else bindE (arr_get indicators 0) (\<lambda>x.
           case x of
             None \<Rightarrow> null_call
           | Some m \<Rightarrow> Inr (sma_result m > sg_window g, g\<lparr>sg_count := 0\<rparr>)))"

section \<open>The table of a symbol\<close>

record table_column =
  tc_precisions :: "int list"
  tc_topOrderBook :: "int list"
  tc_isTopOrderBook :: bool
  tc_columnCount :: int
  tc_symbol :: int
  tc_indicatorIndex :: int
  tc_strategyIndex :: int
  tc_indicators :: "sma option list"
  tc_strategys :: "strategy option list"
  tc_history :: "column_ring list"
  tc_storageTicks :: int
  tc_count :: int
  tc_indicator_names :: "(string \<times> int) list"
  tc_strategy_names :: "(string \<times> int) list"

definition new_table_column :: table_column where
  "new_table_column = \<lparr>tc_precisions = replicate 16 0, tc_topOrderBook = replicate 4 0, tc_isTopOrderBook = False, tc_columnCount = 0,
     tc_symbol = -1, tc_indicatorIndex = 0, tc_strategyIndex = 0, tc_indicators = replicate 128 None,
     tc_strategys = replicate 128 None, tc_history = replicate 16 new_ring, tc_storageTicks = -1, tc_count = 0,
     tc_indicator_names = [], tc_strategy_names = []\<rparr>"

text \<open>\<open>init\<close> writes the precision of every column into an array of \<open>MAXCOLUMN\<close>.\<close>

definition init_table :: "int list \<Rightarrow> bool \<Rightarrow> int \<Rightarrow> table_column \<Rightarrow> table_column result" where
  "init_table precisions isBook sy e =
     (if MAXCOLUMN < int (length precisions) then Inl (Undefined ''precisions[i] behind the last column'')
      else Inr (e\<lparr>tc_columnCount := int (length precisions), tc_symbol := sy, tc_isTopOrderBook := isBook,
             tc_precisions := precisions @ drop (length precisions) (tc_precisions e), tc_topOrderBook := replicate 4 (- 1)\<rparr>))"

definition push_history :: "int \<Rightarrow> int \<Rightarrow> table_column \<Rightarrow> table_column result" where
  "push_history col v e =
     bindE (arr_get (tc_history e) col) (\<lambda>r. bindE (ring_push v r) (\<lambda>r1.
       bindE (arr_set (tc_history e) col r1) (\<lambda>hs. Inr (e\<lparr>tc_history := hs\<rparr>))))"

fun latest_values :: "nat list \<Rightarrow> table_column \<Rightarrow> int list result" where
  "latest_values [] e = Inr []"
| "latest_values (i # is) e =
     bindE (arr_get (tc_history e) (int i)) (\<lambda>r. bindE (ring_latest r) (\<lambda>v.
       bindE (latest_values is e) (\<lambda>vs. Inr (v # vs))))"

definition get_writing_data :: "table_column \<Rightarrow> int list result" where
  "get_writing_data e =
     bindE (latest_values [0 ..< nat (tc_columnCount e)] e) (\<lambda>vs.
       Inr (vs @ (if tc_isTopOrderBook e then tc_topOrderBook e else [])))"

section \<open>The feed\<close>

text \<open>
  \<open>symbolAccessArray\<close>, the results pushed to the queue of the strategies, the symbols that have a file of the batch writer
  and the batches written.
\<close>

record hft =
  hf_symbols :: "table_column list"
  hf_signals :: "(bool \<times> int \<times> int) list"
  hf_writers :: "int list"
  hf_batches :: "(int \<times> int list) list"

definition new_hft :: hft where
  "new_hft = \<lparr>hf_symbols = replicate 100 new_table_column, hf_signals = [], hf_writers = [], hf_batches = []\<rparr>"

text \<open>\<open>symbolAccessArray[symbol]\<close>\<close>

definition symbol_entry :: "int \<Rightarrow> hft \<Rightarrow> table_column result" where
  "symbol_entry sy h =
     (if 0 \<le> sy \<and> sy < MAXHFTSYMBOL then Inr (hf_symbols h ! nat sy) else Inl (Undefined ''symbolAccessArray out of range''))"

definition set_symbol :: "int \<Rightarrow> table_column \<Rightarrow> hft \<Rightarrow> hft" where
  "set_symbol sy e h = h\<lparr>hf_symbols := (hf_symbols h)[nat sy := e]\<rparr>"

text \<open>Eight bytes of the packet, whose buffer is \<open>dat\<close>.\<close>

definition read_be64 :: "string \<Rightarrow> nat \<Rightarrow> int result" where
  "read_be64 dat p =
     (if p + 8 \<le> length dat then Inr (get64 (rev (take 8 (drop p dat)))) else Inl (Undefined ''a read behind the buffer''))"

text \<open>The loop over the columns \<open>is\<close> of the table.\<close>

fun push_columns :: "string \<Rightarrow> nat list \<Rightarrow> table_column \<Rightarrow> table_column result" where
  "push_columns dat [] e = Inr e"
| "push_columns dat (i # is) e =
     bindE (read_be64 dat (8 + 8 * i)) (\<lambda>v. bindE (push_history (int i) v e) (push_columns dat is))"

definition read_top :: "string \<Rightarrow> table_column \<Rightarrow> table_column result" where
  "read_top dat e =
     (if tc_isTopOrderBook e then
        let p = 8 + 8 * nat (tc_columnCount e)
        in bindE (read_be64 dat p) (\<lambda>a. bindE (read_be64 dat (p + 8)) (\<lambda>b. bindE (read_be64 dat (p + 16)) (\<lambda>c.
             bindE (read_be64 dat (p + 24)) (\<lambda>d. Inr (e\<lparr>tc_topOrderBook := [a, b, c, d]\<rparr>)))))
      else Inr e)"

text \<open>The column of an indicator: \<open>Inr None\<close> is the null pointer its \<open>on_tick\<close> tests.\<close>

definition ring_of :: "table_column \<Rightarrow> int \<Rightarrow> column_ring option result" where
  "ring_of e col =
     (if 0 \<le> col \<and> col < MAXCOLUMN then bindE (arr_get (tc_history e) col) (\<lambda>r. Inr (Some r)) else Inr None)"

fun run_indicators :: "nat list \<Rightarrow> table_column \<Rightarrow> table_column result" where
  "run_indicators [] e = Inr e"
| "run_indicators (i # is) e =
     bindE (arr_get (tc_indicators e) (int i)) (\<lambda>x.
       case x of
         None \<Rightarrow> null_call
       | Some m \<Rightarrow>
           bindE (ring_of e (sma_column m)) (\<lambda>ring. bindE (sma_on_tick ring m) (\<lambda>m1.
             bindE (arr_set (tc_indicators e) (int i) (Some m1)) (\<lambda>inds.
               run_indicators is (e\<lparr>tc_indicators := inds\<rparr>)))))"

text \<open>The results of the strategies; the loop that retries while the queue is full is left out.\<close>

fun run_strategies :: "nat list \<Rightarrow> table_column \<Rightarrow> ((bool \<times> int) list \<times> table_column) result" where
  "run_strategies [] e = Inr ([], e)"
| "run_strategies (i # is) e =
     bindE (arr_get (tc_strategys e) (int i)) (\<lambda>x.
       case x of
         None \<Rightarrow> null_call
       | Some g \<Rightarrow>
           bindE (strategy_result (tc_indicators e) g) (\<lambda>(b, g1).
             bindE (arr_set (tc_strategys e) (int i) (Some g1)) (\<lambda>sgs.
               bindE (run_strategies is (e\<lparr>tc_strategys := sgs\<rparr>)) (\<lambda>(bs, e1). Inr ((b, int i) # bs, e1)))))"

text \<open>\<open>writeHFTDataToIndexFile\<close>\<close>

definition write_batch :: "int \<Rightarrow> hft \<Rightarrow> hft result" where
  "write_batch sy h =
     bindE (symbol_entry sy h) (\<lambda>e.
       let e1 = e\<lparr>tc_count := i32 (tc_count e + 1)\<rparr>
       in if tc_storageTicks e1 \<le> tc_count e1 \<and> 0 < tc_storageTicks e1 then
            (let e2 = e1\<lparr>tc_count := 0\<rparr>; h1 = set_symbol sy e2 h
             in if sy \<in> set (hf_writers h) then
                  bindE (get_writing_data e2) (\<lambda>d. Inr (h1\<lparr>hf_batches := hf_batches h @ [(sy, d)]\<rparr>))
                else Inr h1)
          else Inr (set_symbol sy e1 h))"

definition expected_size :: "table_column \<Rightarrow> int" where
  "expected_size e = push_bit 3 (tc_columnCount e + 1 + push_bit 2 (if tc_isTopOrderBook e then 1 else 0))"

text \<open>\<open>process_packet\<close>; packets that do not fit are dropped without a word.\<close>

definition process_packet :: "string \<Rightarrow> int \<Rightarrow> hft \<Rightarrow> hft result" where
  "process_packet dat n h =
     bindE (read_be64 dat 0) (\<lambda>tick.
       if tick < 0 \<or> MAXHFTSYMBOL \<le> tick then Inr h
       else bindE (symbol_entry tick h) (\<lambda>e.
         if tc_symbol e = - 1 then Inr h
         else if n \<noteq> expected_size e then Inr h
         else bindE (push_columns dat [0 ..< nat (tc_columnCount e)] e) (\<lambda>e1.
              bindE (read_top dat e1) (\<lambda>e2.
              bindE (run_indicators [0 ..< nat (tc_indicatorIndex e2)] e2) (\<lambda>e3.
              bindE (run_strategies [0 ..< nat (tc_strategyIndex e3)] e3) (\<lambda>(bs, e4).
                write_batch tick
                  (set_symbol tick e4 (h\<lparr>hf_signals := hf_signals h @ map (\<lambda>(b, i). (b, tick, i)) bs\<rparr>))))))))"

section \<open>Adding an indicator or a strategy\<close>

text \<open>
  \<open>parsingAddIndicator\<close> and \<open>parsingAddStrategy\<close>. The files under \<open>fastindicator\<close> and \<open>faststrategy\<close> give the known names, the
  registry has only \<open>sma\<close>, \<open>basic\<close> and \<open>again\<close>. The pool of a hundred objects, whose exhaustion aborts the process, is
  left out. The index of the new entry is counted before the entry is there.
\<close>

definition lower :: "string \<Rightarrow> string" where
  "lower s = map to_lower s"

definition add_indicator :: "string list \<Rightarrow> indicator_on_table \<Rightarrow> hft \<Rightarrow> unit result \<times> hft" where
  "add_indicator known stmt h =
     (let name = lower (iot_indicator stmt); sy = iot_symbol stmt
      in if name \<notin> set known then (Inl (Throw (''the indicator with name '' @ name @ '' does not exist'')), h)
         else (case symbol_entry sy h of
           Inl e \<Rightarrow> (Inl e, h)
         | Inr e \<Rightarrow>
             if tc_symbol e = - 1 then (Inl (Throw (''no table with this symbol exist'' @ [CHR 0x0A])), h)
             else if tc_columnCount e < iot_column_no stmt then
               (Inl (Throw (''there is only '' @ show_int (tc_columnCount e) @ '' columns but you give the no '' @ show_int (iot_column_no stmt))), h)
             else if name \<in> fst ` set (tc_indicator_names e) then
               (Inl (Throw (''the indiator with name '' @ name @ '' already exist'')), h)
             else (let i = tc_indicatorIndex e;
                       e1 = e\<lparr>tc_indicator_names := tc_indicator_names e @ [(name, i)], tc_indicatorIndex := i + 1\<rparr>;
                       h1 = set_symbol sy e1 h
                   in if MAX_NO_OF_INDICATORS \<le> i + 1 then (Inl (Throw ''no of indicator exceeds the limit''), h1)
                      else if name \<noteq> ''sma'' then (Inl (Throw (''Indicator not registered: '' @ name)), h1)
                      else (case sma_set_parameter (iot_params stmt) (new_sma (iot_ticks stmt) (iot_column_no stmt)) of
                              Inl f \<Rightarrow> (Inl f, h1)
                            | Inr m \<Rightarrow>
                                (case arr_set (tc_indicators e1) i (Some m) of
                                   Inl f \<Rightarrow> (Inl f, h1)
                                 | Inr inds \<Rightarrow> (Inr (), set_symbol sy (e1\<lparr>tc_indicators := inds\<rparr>) h1))))))"

definition add_strategy :: "string list \<Rightarrow> strategy_on_table \<Rightarrow> hft \<Rightarrow> unit result \<times> hft" where
  "add_strategy known stmt h =
     (let name = lower (sot_strategy stmt); sy = sot_symbol stmt
      in if name \<notin> set known then (Inl (Throw (''the strategy with name '' @ name @ '' does not exist'')), h)
         else (case symbol_entry sy h of
           Inl e \<Rightarrow> (Inl e, h)
         | Inr e \<Rightarrow>
             if tc_symbol e = - 1 then (Inl (Throw (''no table with this symbol exist'' @ [CHR 0x0A])), h)
             else if name \<in> fst ` set (tc_strategy_names e) then
               (Inl (Throw (''the indiator with name '' @ name @ '' already exist'')), h)
             else (let i = tc_strategyIndex e;
                       e1 = e\<lparr>tc_strategy_names := tc_strategy_names e @ [(name, i)], tc_strategyIndex := i + 1\<rparr>;
                       h1 = set_symbol sy e1 h
                   in if MAX_NO_OF_INDICATORS \<le> i + 1 then (Inl (Throw ''no of indicator exceeds the limit''), h1)
                      else if name \<notin> {''basic'', ''again''} then (Inl (Throw (''strategy not registered: '' @ name)), h1)
                      else (case strategy_set_parameter (sot_params stmt) (new_strategy (sot_ticks stmt)) of
                              Inl f \<Rightarrow> (Inl f, h1)
                            | Inr g \<Rightarrow>
                                (case arr_set (tc_strategys e1) i (Some g) of
                                   Inl f \<Rightarrow> (Inl f, h1)
                                 | Inr sgs \<Rightarrow> (Inr (), set_symbol sy (e1\<lparr>tc_strategys := sgs\<rparr>) h1))))))"

text \<open>\<open>parsingFetchIndicatorStatement\<close>; a negative symbol is not checked. \<open>iter\<close> is the order of the hash map.\<close>

definition fetch_indicators :: "((string \<times> int) list \<Rightarrow> (string \<times> int) list) \<Rightarrow> fetch_indicator_statement \<Rightarrow> hft \<Rightarrow> string result" where
  "fetch_indicators iter stmt h =
     (if MAXHFTSYMBOL \<le> fi_symbol stmt then
        Inl (Throw (''the symbol '' @ show_int (fi_symbol stmt) @ '' is greater than the max limit '' @ [CHR 0x0A]))
      else bindE (symbol_entry (fi_symbol stmt) h) (\<lambda>e.
        if tc_symbol e = - 1 then Inl (Throw (''there is no table registerd with symbol '' @ show_int (fi_symbol stmt) @ '' '' @ [CHR 0x0A]))
        else Inr (''{'' @ concat (map (\<lambda>(j, (nm, i)). (if j = 0 then [] else '', '') @ CHR 0x22 # nm @ [CHR 0x22] @ '': '' @ show_int i)
               (enumerate 0 (iter (tc_indicator_names e)))) @ ''}'')))"

end
