(* ===== verification/Hft_Props.thy ===== *)
theory Hft_Props
  imports Hft_Columns
begin

text \<open>
  The feed of market ticks: the moving average against its definition, which packets change what, and when a packet makes
  the code call a null function.
\<close>

section \<open>Rings\<close>

lemma and_255: "i AND 255 = i mod 256" for i :: int
proof -
  have "i AND 255 = take_bit 8 i" by (simp add: take_bit_eq_mask mask_eq_exp_minus_1)
  then show ?thesis by (simp add: take_bit_eq_mod)
qed

lemma arr_get_nat: "i < length xs \<Longrightarrow> arr_get xs (int i) = Inr (xs ! i)"
  by (simp add: arr_get_def)

lemma arr_set_nat: "i < length xs \<Longrightarrow> arr_set xs (int i) v = Inr (xs[i := v])"
  by (simp add: arr_set_def)

lemma arr_set_Inr: "arr_set xs i v = Inr ys \<Longrightarrow> ys = xs[nat i := v]"
  by (simp add: arr_set_def split: if_splits)

text \<open>A ring in order: its head is one of its places.\<close>

definition ring_ok :: "column_ring \<Rightarrow> bool" where
  "ring_ok r \<longleftrightarrow> length (ring_data r) = 256 \<and> 0 \<le> ring_head r \<and> ring_head r < 256"

text \<open>The ring with \<open>v\<close> behind its newest value.\<close>

definition pushed :: "int \<Rightarrow> column_ring \<Rightarrow> column_ring" where
  "pushed v r = \<lparr>ring_head = (ring_head r + 1) mod 256, ring_data = (ring_data r)[nat (ring_head r) := v]\<rparr>"

lemma new_ring_ok: "ring_ok new_ring"
  by (simp add: ring_ok_def new_ring_def MAXRINGSIZE_def)

lemma pushed_ok: "ring_ok r \<Longrightarrow> ring_ok (pushed v r)"
  by (simp add: ring_ok_def pushed_def)

lemma ring_push_ok: "ring_ok r \<Longrightarrow> ring_push v r = Inr (pushed v r)"
  by (simp add: ring_ok_def ring_push_def arr_set_def pushed_def and_255)

lemma ring_slot_get:
  assumes "ring_ok r"
  shows "arr_get (ring_data r) (ring_slot i) = Inr (ring_data r ! nat (i mod 256))"
  using assms by (simp add: arr_get_def ring_slot_def and_255 ring_ok_def)

lemma ring_latest_ok: "ring_ok r \<Longrightarrow> ring_latest r = Inr (ring_data r ! nat ((ring_head r - 1) mod 256))"
  unfolding ring_latest_def by (rule ring_slot_get)

lemma ring_get_ok: "ring_ok r \<Longrightarrow> ring_get i r = Inr (ring_data r ! nat (i mod 256))"
  unfolding ring_get_def by (rule ring_slot_get)

text \<open>The ring after the values \<open>xs\<close>, oldest first: it has the last 256 of them.\<close>

definition ring_holds :: "column_ring \<Rightarrow> int list \<Rightarrow> bool" where
  "ring_holds r xs \<longleftrightarrow> length (ring_data r) = 256 \<and> ring_head r = int (length xs) mod 256 \<and>
     (\<forall>j < length xs. length xs \<le> j + 256 \<longrightarrow> ring_data r ! (j mod 256) = xs ! j)"

lemma ring_holds_ok: "ring_holds r xs \<Longrightarrow> ring_ok r"
  by (simp add: ring_holds_def ring_ok_def)

lemma new_ring_holds: "ring_holds new_ring []"
  by (simp add: ring_holds_def new_ring_def MAXRINGSIZE_def)

lemma pushed_holds:
  assumes "ring_holds r xs"
  shows "ring_holds (pushed v r) (xs @ [v])"
proof -
  let ?n = "length xs"
  have h: "nat (ring_head r) = ?n mod 256" using assms by (simp add: ring_holds_def nat_mod_distrib)
  have "(ring_head r + 1) mod 256 = int (?n + 1) mod 256"
    using assms by (simp add: ring_holds_def mod_add_right_eq add.commute [of _ 1])
  moreover have "ring_data (pushed v r) ! (j mod 256) = (xs @ [v]) ! j" if "j < ?n + 1" "?n + 1 \<le> j + 256" for j
  proof (cases "j = ?n")
    case True
    then show ?thesis using assms h by (simp add: pushed_def ring_holds_def)
  next
    case False
    then have "j mod 256 \<noteq> ?n mod 256" using that mod_eq_dvd_iff_nat [of j ?n 256] by (auto dest!: dvd_imp_le)
    then show ?thesis using assms h that False by (simp add: pushed_def ring_holds_def nth_append)
  qed
  ultimately show ?thesis using assms by (simp add: ring_holds_def pushed_def)
qed

lemma ring_back:
  assumes "ring_holds r xs" and "k < length xs" and "k < 256"
  shows "ring_data r ! nat ((ring_head r - 1 - int k) mod 256) = xs ! (length xs - 1 - k)"
proof -
  let ?j = "length xs - 1 - k"
  have j: "int ?j = int (length xs) - (1 + int k)" using assms(2) by simp
  have "(ring_head r - 1 - int k) mod 256 = int ?j mod 256"
    using assms(1) mod_diff_left_eq [of "int (length xs)" 256 "1 + int k"] unfolding j by (simp add: ring_holds_def diff_diff_eq)
  then have "nat ((ring_head r - 1 - int k) mod 256) = ?j mod 256" by (simp add: nat_mod_distrib flip: of_nat_mod)
  then show ?thesis using assms by (auto simp: ring_holds_def)
qed

lemma ring_latest_holds: "ring_holds r (xs @ [v]) \<Longrightarrow> ring_latest r = Inr v"
  using ring_back [of r "xs @ [v]" 0] by (simp add: ring_latest_ok [OF ring_holds_ok])

section \<open>The moving average\<close>

text \<open>The values of a column, with the indicator run after each.\<close>

fun sma_feed :: "int list \<Rightarrow> column_ring \<times> sma \<Rightarrow> (column_ring \<times> sma) result" where
  "sma_feed [] s = Inr s"
| "sma_feed (x # xs) (r, m) =
     bindE (ring_push x r) (\<lambda>r1. bindE (sma_on_tick (Some r1) m) (\<lambda>m1. sma_feed xs (r1, m1)))"

lemma sma_feed_append: "sma_feed (xs @ ys) s = bindE (sma_feed xs s) (sma_feed ys)"
proof (induction xs arbitrary: s)
  case (Cons x xs)
  then show ?case by (cases s) (simp add: bindE_assoc)
qed simp

definition averages :: "nat \<Rightarrow> int list \<Rightarrow> sma \<Rightarrow> bool" where
  "averages w xs m \<longleftrightarrow> sma_count m = 0 \<and> sma_tick m = 1 \<and> sma_window m = int w \<and>
     sma_filled m = int (min (length xs) w) \<and> sma_running_sum m = i64 (sum_list (drop (length xs - w) xs))"

lemma i64_1 [simp]: "i64 1 = 1"
  by (simp add: i64_id int_limits)

lemma averages_step:
  assumes "ring_holds r (ys @ xs)" and "averages w xs m" and "1 \<le> w" and "w \<le> 255"
  shows "\<exists>m1. sma_on_tick (Some (pushed x r)) m = Inr m1 \<and> averages w (xs @ [x]) m1"
proof -
  let ?r = "pushed x r" and ?n = "length xs"
  have rh: "ring_holds ?r (ys @ xs @ [x])" using pushed_holds [OF assms(1)] by simp
  have latest: "ring_latest ?r = Inr x" using ring_latest_holds [of ?r "ys @ xs"] rh by simp
  show ?thesis
  proof (cases "?n < w")
    case True
    then show ?thesis using assms(2) latest by (simp add: averages_def sma_on_tick_def)
  next
    case False
    have at: "(ys @ xs @ [x]) ! (length (ys @ xs @ [x]) - 1 - w) = (xs @ [x]) ! (?n - w)"
      using False nth_append_length_plus [of ys "xs @ [x]" "?n - w"] by simp
    have "ring_get ((ring_head ?r - int w - 1) AND 255) ?r = Inr (ring_data ?r ! nat ((ring_head ?r - 1 - int w) mod 256))"
      by (simp add: ring_get_ok [OF ring_holds_ok [OF rh]] and_255 algebra_simps)
    also have "ring_data ?r ! nat ((ring_head ?r - 1 - int w) mod 256) = xs ! (?n - w)"
      using ring_back [OF rh, of w] at False assms(3,4) nth_append_left [of "?n - w" xs "[x]"] by simp
    finally have old: "ring_get ((ring_head ?r - int w - 1) AND 255) ?r = Inr (xs ! (?n - w))" .
    have "sum_list (drop (?n - w) xs) = xs ! (?n - w) + sum_list (drop (Suc ?n - w) xs)"
      using False assms(3) by (metis Cons_nth_drop_Suc Suc_diff_le diff_less not_less less_le_trans sum_list.Cons zero_less_one le_trans)
    then show ?thesis using assms(2,3) latest False old by (simp add: averages_def sma_on_tick_def Let_def algebra_simps)
  qed
qed

lemma sma_feed_averages:
  assumes "ring_holds r ys" and "averages w [] m" and "1 \<le> w" and "w \<le> 255"
  shows "\<exists>r1 m1. sma_feed xs (r, m) = Inr (r1, m1) \<and> ring_holds r1 (ys @ xs) \<and> averages w xs m1"
proof (induction xs rule: rev_induct)
  case (snoc x xs)
  then obtain r1 m1 where s: "sma_feed xs (r, m) = Inr (r1, m1)" "ring_holds r1 (ys @ xs)" "averages w xs m1" by blast
  obtain m2 where "sma_on_tick (Some (pushed x r1)) m1 = Inr m2" "averages w (xs @ [x]) m2"
    using averages_step [OF s(2,3) assms(3,4)] by blast
  then show ?case using s pushed_holds [OF s(2), of x] by (simp add: sma_feed_append ring_push_ok [OF ring_holds_ok [OF s(2)]])
qed (use assms(1,2) in simp)

lemma averages_result:
  assumes "averages w xs m" and "1 \<le> w" and "xs \<noteq> []"
  shows "sma_result m = i64 (sum_list (drop (length xs - w) xs)) sdiv int (length (drop (length xs - w) xs))"
proof -
  have "length (drop (length xs - w) xs) = min (length xs) w" by auto
  then show ?thesis using assms by (auto simp: averages_def sma_result_def Let_def min_def)
qed

lemma averages_empty: "averages w [] m \<Longrightarrow> sma_result m = 0"
  by (simp add: averages_def sma_result_def Let_def)

text \<open>
  C31. The moving average. When the indicator looks at every tick and the window is at most 255, no access leaves the
  ring, and after any values \<open>xs\<close> of the column the indicator gives the sum of the last \<open>w\<close> of them, or of all if there
  are fewer, as the compiled \<open>int64_t\<close> holds it, divided by their number. When that sum is an \<open>int64_t\<close> the result is
  their mean, rounded towards zero; a sum beyond it wraps around (and a sum on the way there is undefined for the
  standard). What the column held before the indicator was added does not count.
\<close>

theorem sma_is_average:
  assumes "ring_holds r ys" and "1 \<le> w" and "w \<le> 255" and "m = (new_sma 1 col)\<lparr>sma_window := int w\<rparr>"
    and "lst = drop (length xs - w) xs"
  shows "\<exists>r1 m1. sma_feed xs (r, m) = Inr (r1, m1) \<and>
    sma_result m1 = (if xs = [] then 0 else i64 (sum_list lst) sdiv int (length lst)) \<and>
    (xs \<noteq> [] \<longrightarrow> INT64_MIN \<le> sum_list lst \<longrightarrow> sum_list lst \<le> INT64_MAX \<longrightarrow>
      sma_result m1 = sum_list lst sdiv int (length lst))"
proof -
  have "averages w [] m" by (simp add: averages_def assms(4) new_sma_def)
  from sma_feed_averages [OF assms(1) this assms(2,3), of xs]
  obtain r1 m1 where s: "sma_feed xs (r, m) = Inr (r1, m1)" "averages w xs m1" by blast
  then show ?thesis using averages_result [OF s(2) assms(2)] averages_empty [of w m1] assms(5) i64_id by (cases "xs = []") auto
qed

lemma sma_is_average_witness:
  "\<exists>r1 m1. sma_feed [10, 20, 40, - 5] (pushed 7 new_ring, (new_sma 1 0)\<lparr>sma_window := int 2\<rparr>) = Inr (r1, m1) \<and> sma_result m1 = 17"
  using sma_is_average [OF pushed_holds [OF new_ring_holds, of 7] _ _ refl refl, where w = 2 and xs = "[10, 20, 40, - 5]" and col = 0]
  by (auto simp: int_limits)

text \<open>With window 2, two values of \<open>INT64_MAX\<close> have the average -1.\<close>

lemma sma_wraps:
  "\<exists>r1 m1. sma_feed [INT64_MAX, INT64_MAX] (new_ring, (new_sma 1 col)\<lparr>sma_window := int 2\<rparr>) = Inr (r1, m1) \<and> sma_result m1 = - 1"
proof -
  have "averages 2 [] ((new_sma 1 col)\<lparr>sma_window := int 2\<rparr>)" by (simp add: averages_def new_sma_def)
  from sma_feed_averages [OF new_ring_holds this, of "[INT64_MAX, INT64_MAX]"]
  obtain r1 m1 where s: "sma_feed [INT64_MAX, INT64_MAX] (new_ring, (new_sma 1 col)\<lparr>sma_window := int 2\<rparr>) = Inr (r1, m1)"
      "averages 2 [INT64_MAX, INT64_MAX] m1" by auto
  have "sma_result m1 = - 1" using averages_result [OF s(2)] by (simp add: i64_def int_limits)
  with s(1) show ?thesis by blast
qed

text \<open>
  When the indicator looks at every second tick only, it adds the ticks it looks at and subtracts ticks it did not
  look at. With window 1 and a column that alternates between 0 and 1 the \<open>average\<close> is the number of looks. With
  window 256 the tick it subtracts is the one it has just added, and the sum never changes again.
\<close>

theorem sma_drifts:
  "(\<exists>r1 m1. sma_feed (concat (replicate n [0, 1])) (new_ring, new_sma 2 col) = Inr (r1, m1) \<and> sma_result m1 = i64 (int n)) \<and>
   (ring_ok r \<longrightarrow> sma_count m = 0 \<longrightarrow> sma_tick m = 1 \<longrightarrow> sma_window m = 256 \<longrightarrow> sma_filled m = 256 \<longrightarrow>
     sma_on_tick (Some r) m = Inr (m\<lparr>sma_running_sum := i64 (sma_running_sum m)\<rparr>))"
proof
  have res: "sma_result ((new_sma 2 col)\<lparr>sma_running_sum := i64 (int n), sma_filled := (if n = 0 then 0 else 1)\<rparr>) = i64 (int n)"
    by (simp add: sma_result_def new_sma_def)
  have "\<exists>r1. sma_feed (concat (replicate n [0, 1])) (new_ring, new_sma 2 col) =
      Inr (r1, (new_sma 2 col)\<lparr>sma_running_sum := i64 (int n), sma_filled := (if n = 0 then 0 else 1)\<rparr>) \<and>
    ring_holds r1 (concat (replicate n [0, 1]))"
  proof (induction n)
    case 0
    then show ?case using new_ring_holds by (auto simp: new_sma_def)
  next
    case (Suc n)
    let ?xs = "concat (replicate n [0, 1 :: int])"
    obtain r where s: "sma_feed ?xs (new_ring, new_sma 2 col) =
        Inr (r, (new_sma 2 col)\<lparr>sma_running_sum := i64 (int n), sma_filled := (if n = 0 then 0 else 1)\<rparr>)" "ring_holds r ?xs"
      using Suc by blast
    have split: "concat (replicate (Suc n) [0, 1]) = ?xs @ [0, 1]"
      using replicate_append_same [of n "[0, 1 :: int]"] by (metis concat.simps concat_append append_Nil2 replicate_Suc)
    have r0: "ring_holds (pushed 0 r) (?xs @ [0])" by (rule pushed_holds [OF s(2)])
    have rh: "ring_holds (pushed 1 (pushed 0 r)) (?xs @ [0, 1])" using pushed_holds [OF r0, of 1] by simp
    have new: "ring_latest (pushed 1 (pushed 0 r)) = Inr 1"
      using ring_latest_holds [of _ "?xs @ [0]"] rh by simp
    have old: "ring_get ((ring_head (pushed 1 (pushed 0 r)) - 1 - 1) AND 255) (pushed 1 (pushed 0 r)) = Inr 0"
      using ring_back [OF rh, of 1] by (simp add: ring_get_ok [OF ring_holds_ok [OF rh]] and_255 nth_append)
    have two: "i64 2 = 2" by (simp add: i64_id int_limits)
    show ?case unfolding split
      using s rh new old two
      by (simp add: sma_feed_append ring_push_ok ring_holds_ok [OF s(2)] ring_holds_ok [OF r0] sma_on_tick_def Let_def new_sma_def add.commute)
  qed
  then show "\<exists>r1 m1. sma_feed (concat (replicate n [0, 1])) (new_ring, new_sma 2 col) = Inr (r1, m1) \<and> sma_result m1 = i64 (int n)"
    using res by blast
  have "(ring_head r - 257) mod 256 = (ring_head r - 1) mod 256" using mod_diff_right_eq [of "ring_head r - 1" 256 256] by simp
  then show "ring_ok r \<longrightarrow> sma_count m = 0 \<longrightarrow> sma_tick m = 1 \<longrightarrow> sma_window m = 256 \<longrightarrow> sma_filled m = 256 \<longrightarrow>
     sma_on_tick (Some r) m = Inr (m\<lparr>sma_running_sum := i64 (sma_running_sum m)\<rparr>)"
    by (simp add: sma_on_tick_def Let_def ring_get_ok ring_latest_ok and_255)
qed

lemma sma_drifts_witness:
  "(\<exists>r1 m1. sma_feed (concat (replicate 3 [0, 1])) (new_ring, new_sma 2 0) = Inr (r1, m1) \<and> sma_result m1 = i64 (int 3)) \<and>
   sma_on_tick (Some new_ring) \<lparr>sma_running_sum = 5, sma_tick = 1, sma_count = 0, sma_window = 256,
     sma_filled = 256, sma_column = 0\<rparr> = Inr \<lparr>sma_running_sum = i64 5, sma_tick = 1, sma_count = 0, sma_window = 256,
     sma_filled = 256, sma_column = 0\<rparr>"
  using sma_drifts [of 3 0 new_ring "\<lparr>sma_running_sum = 5, sma_tick = 1, sma_count = 0, sma_window = 256, sma_filled = 256, sma_column = 0\<rparr>"]
    new_ring_ok by simp

section \<open>The feed\<close>

text \<open>
  The arrays have their size, the head of every ring is a place of it, the tables have at most sixteen columns, and no null
  pointer is in reach: the first entries of the arrays of objects are set, and a strategy finds an indicator.
\<close>

definition filled_up_to :: "int \<Rightarrow> 'a option list \<Rightarrow> bool" where
  "filled_up_to n xs \<longleftrightarrow> length xs = 128 \<and> 0 \<le> n \<and> n < 128 \<and> (\<forall>i < 128. xs ! i = None \<longleftrightarrow> n \<le> int i)"

definition rings_ok :: "table_column \<Rightarrow> bool" where
  "rings_ok e \<longleftrightarrow> length (tc_history e) = 16 \<and> list_all ring_ok (tc_history e)"

definition entry_ok :: "table_column \<Rightarrow> bool" where
  "entry_ok e \<longleftrightarrow> rings_ok e \<and> 0 \<le> tc_columnCount e \<and> tc_columnCount e \<le> 16 \<and>
     filled_up_to (tc_indicatorIndex e) (tc_indicators e) \<and> filled_up_to (tc_strategyIndex e) (tc_strategys e) \<and>
     (0 < tc_strategyIndex e \<longrightarrow> 0 < tc_indicatorIndex e)"

definition hft_ok :: "hft \<Rightarrow> bool" where
  "hft_ok h \<longleftrightarrow> length (hf_symbols h) = 100 \<and> list_all entry_ok (hf_symbols h)"

lemma new_entry_ok: "entry_ok new_table_column"
  by (simp add: entry_ok_def rings_ok_def new_table_column_def filled_up_to_def list_all_length new_ring_ok)

lemma hft_ok_new: "hft_ok new_hft"
  by (simp add: hft_ok_def new_hft_def list_all_length new_entry_ok)

lemma hft_ok_entry: "hft_ok h \<Longrightarrow> 0 \<le> sy \<Longrightarrow> sy < 100 \<Longrightarrow> entry_ok (hf_symbols h ! nat sy)"
  by (simp add: hft_ok_def list_all_length)

lemma hft_ok_set: "hft_ok h \<Longrightarrow> entry_ok e \<Longrightarrow> hft_ok (set_symbol sy e h)"
  by (cases "nat sy < 100") (auto simp: hft_ok_def set_symbol_def list_all_length nth_list_update)

lemma entry_columns: "entry_ok e \<Longrightarrow> nat (tc_columnCount e) \<le> 16"
  unfolding entry_ok_def by (elim conjE) linarith

lemma symbol_entry_in: "0 \<le> sy \<Longrightarrow> sy < 100 \<Longrightarrow> symbol_entry sy h = Inr (hf_symbols h ! nat sy)"
  by (simp add: symbol_entry_def MAXHFTSYMBOL_def)

lemma rings_ok_nth: "rings_ok e \<Longrightarrow> i < 16 \<Longrightarrow> ring_ok (tc_history e ! i)"
  by (simp add: rings_ok_def list_all_length)

lemma rings_ok_more [simp]:
  "rings_ok (e\<lparr>tc_topOrderBook := b\<rparr>) = rings_ok e" "rings_ok (e\<lparr>tc_indicators := inds\<rparr>) = rings_ok e"
  "rings_ok (e\<lparr>tc_strategys := sgs\<rparr>) = rings_ok e" "rings_ok (e\<lparr>tc_count := c\<rparr>) = rings_ok e"
  "rings_ok (e\<lparr>tc_indicator_names := ns, tc_indicatorIndex := i\<rparr>) = rings_ok e"
  "rings_ok (e\<lparr>tc_strategy_names := ns, tc_strategyIndex := i\<rparr>) = rings_ok e"
  by (simp_all add: rings_ok_def)

lemma filled_set: "filled_up_to n xs \<Longrightarrow> i < 128 \<Longrightarrow> xs ! i \<noteq> None \<Longrightarrow> filled_up_to n (xs[i := Some x])"
  by (auto simp: filled_up_to_def nth_list_update)

lemma filled_next: "filled_up_to n xs \<Longrightarrow> n + 1 < 128 \<Longrightarrow> filled_up_to (n + 1) (xs[nat n := Some x])"
  by (auto simp: filled_up_to_def nth_list_update)

lemma filled_some: "filled_up_to n xs \<Longrightarrow> i < nat n \<Longrightarrow> i < length xs \<and> i < 128 \<and> (\<exists>x. xs ! i = Some x)"
  by (cases "xs ! i") (auto simp: filled_up_to_def)

text \<open>No indicator reads outside of its ring.\<close>

lemma ring_of_ok: "rings_ok e \<Longrightarrow> \<exists>ring. ring_of e col = Inr ring \<and> (\<forall>r. ring = Some r \<longrightarrow> ring_ok r)"
  using rings_ok_nth [of e "nat col"] by (auto simp: ring_of_def MAXCOLUMN_def arr_get_def rings_ok_def)

lemma sma_on_tick_ok: "\<forall>r. ring = Some r \<longrightarrow> ring_ok r \<Longrightarrow> \<exists>m1. sma_on_tick ring m = Inr m1"
  by (auto simp: sma_on_tick_def Let_def ring_latest_ok ring_get_ok split: option.splits)

lemma run_indicators_ok:
  "\<forall>i \<in> set is. i < nat n \<Longrightarrow> filled_up_to n (tc_indicators e) \<Longrightarrow> rings_ok e \<Longrightarrow>
     \<exists>inds. run_indicators is e = Inr (e\<lparr>tc_indicators := inds\<rparr>) \<and> filled_up_to n inds"
proof (induction "is" arbitrary: e)
  case Nil
  then show ?case by (intro exI [of _ "tc_indicators e"]) simp
next
  case (Cons i "is")
  obtain m where m: "i < length (tc_indicators e)" "i < 128" "tc_indicators e ! i = Some m"
    using filled_some [OF Cons.prems(2), of i] Cons.prems(1) by auto
  obtain ring where ring: "ring_of e (sma_column m) = Inr ring" "\<forall>r. ring = Some r \<longrightarrow> ring_ok r"
    using ring_of_ok [OF Cons.prems(3)] by blast
  obtain m1 where m1: "sma_on_tick ring m = Inr m1" using sma_on_tick_ok [OF ring(2)] by blast
  show ?case
    using Cons.IH [of "e\<lparr>tc_indicators := (tc_indicators e)[i := Some m1]\<rparr>"] Cons.prems m m1 ring
      filled_set [OF Cons.prems(2) m(2)] by (simp add: arr_get_nat arr_set_nat)
qed

lemma strategy_result_ok: "0 < k \<Longrightarrow> filled_up_to k inds \<Longrightarrow> \<exists>b g1. strategy_result inds g = Inr (b, g1)"
  using filled_some [of k inds 0] by (auto simp: strategy_result_def arr_get_def Let_def)

lemma run_strategies_ok:
  "\<forall>i \<in> set is. i < nat n \<Longrightarrow> filled_up_to n (tc_strategys e) \<Longrightarrow> 0 < n \<longrightarrow> 0 < k \<Longrightarrow> filled_up_to k (tc_indicators e) \<Longrightarrow>
     \<exists>bs sgs. run_strategies is e = Inr (bs, e\<lparr>tc_strategys := sgs\<rparr>) \<and> filled_up_to n sgs"
proof (induction "is" arbitrary: e)
  case Nil
  then show ?case by (intro exI [of _ "[]"] exI [of _ "tc_strategys e"]) simp
next
  case (Cons i "is")
  obtain g where g: "i < length (tc_strategys e)" "i < 128" "tc_strategys e ! i = Some g"
    using filled_some [OF Cons.prems(2), of i] Cons.prems(1) by auto
  have "0 < k" using Cons.prems(1,3) by auto
  then obtain b g1 where r: "strategy_result (tc_indicators e) g = Inr (b, g1)" using strategy_result_ok Cons.prems(4) by blast
  obtain bs sgs where "run_strategies is (e\<lparr>tc_strategys := (tc_strategys e)[i := Some g1]\<rparr>) = Inr (bs, e\<lparr>tc_strategys := sgs\<rparr>)"
      "filled_up_to n sgs"
    using Cons.IH [of "e\<lparr>tc_strategys := (tc_strategys e)[i := Some g1]\<rparr>"] Cons.prems g filled_set [OF Cons.prems(2) g(2), of g1]
    by auto
  then show ?case using g r by (auto simp: arr_get_nat arr_set_nat)
qed

text \<open>The parts of a packet that change the columns and the top of the book.\<close>

definition be64_at :: "string \<Rightarrow> nat \<Rightarrow> int" where
  "be64_at dat p = get64 (rev (take 8 (drop p dat)))"

lemma read_be64_in: "p + 8 \<le> length dat \<Longrightarrow> read_be64 dat p = Inr (be64_at dat p)"
  by (simp add: read_be64_def be64_at_def)

lemma push_columns_append: "push_columns dat (is @ js) e = bindE (push_columns dat is e) (push_columns dat js)"
proof (induction "is" arbitrary: e)
  case (Cons i "is")
  have "push_columns dat (is @ js) = (\<lambda>e1. bindE (push_columns dat is e1) (push_columns dat js))" by (rule ext) (rule Cons)
  then show ?case by (simp add: bindE_assoc)
qed simp

lemma push_history_ok:
  "i < length (tc_history e) \<Longrightarrow> ring_ok (tc_history e ! i) \<Longrightarrow>
     push_history (int i) v e = Inr (e\<lparr>tc_history := (tc_history e)[i := pushed v (tc_history e ! i)]\<rparr>)"
  by (simp add: push_history_def arr_get_nat arr_set_nat ring_push_ok)

definition new_history :: "string \<Rightarrow> nat \<Rightarrow> column_ring list \<Rightarrow> column_ring list" where
  "new_history dat k hs = map (\<lambda>i. pushed (be64_at dat (8 + 8 * i)) (hs ! i)) [0 ..< k] @ drop k hs"

lemma push_columns_ok:
  assumes "rings_ok e" and "length dat = PACKET_SIZE"
  shows "k \<le> 16 \<Longrightarrow> push_columns dat [0 ..< k] e = Inr (e\<lparr>tc_history := new_history dat k (tc_history e)\<rparr>)"
proof (induction k)
  case (Suc k)
  let ?h = "map (\<lambda>i. pushed (be64_at dat (8 + 8 * i)) (tc_history e ! i)) [0 ..< k]"
  let ?v = "be64_at dat (8 + 8 * k)"
  have len: "length (tc_history e) = 16" using assms(1) by (simp add: rings_ok_def)
  have at: "(?h @ drop k (tc_history e)) ! k = tc_history e ! k" using len Suc.prems by (simp add: nth_append)
  have "read_be64 dat (8 + 8 * k) = Inr ?v" using assms(2) Suc.prems by (simp add: read_be64_in PACKET_SIZE_def)
  moreover have "push_history (int k) ?v (e\<lparr>tc_history := ?h @ drop k (tc_history e)\<rparr>) =
      Inr (e\<lparr>tc_history := (?h @ drop k (tc_history e))[k := pushed ?v (tc_history e ! k)]\<rparr>)"
    using push_history_ok [of k "e\<lparr>tc_history := ?h @ drop k (tc_history e)\<rparr>" ?v] rings_ok_nth [OF assms(1), of k] at len Suc.prems by simp
  moreover have "(?h @ drop k (tc_history e))[k := pushed ?v (tc_history e ! k)] = ?h @ pushed ?v (tc_history e ! k) # drop (Suc k) (tc_history e)"
    using len Suc.prems by (simp add: list_update_append Cons_nth_drop_Suc [symmetric])
  ultimately show ?case using Suc by (simp add: push_columns_append new_history_def)
qed (simp add: new_history_def)

lemma new_history_ok:
  assumes "rings_ok e" and "k \<le> 16"
  shows "rings_ok (e\<lparr>tc_history := new_history dat k (tc_history e)\<rparr>)"
  using assms by (auto simp: rings_ok_def new_history_def list_all_length nth_append pushed_ok)

definition packet_entry :: "string \<Rightarrow> table_column \<Rightarrow> table_column" where
  "packet_entry dat e = e\<lparr>tc_history := new_history dat (nat (tc_columnCount e)) (tc_history e),
     tc_topOrderBook := (if tc_isTopOrderBook e then map (\<lambda>j. be64_at dat (8 + 8 * nat (tc_columnCount e) + 8 * j)) [0 ..< 4]
                         else tc_topOrderBook e)\<rparr>"

lemma packet_entry_sels [simp]:
  "tc_indicators (packet_entry dat e) = tc_indicators e" "tc_strategys (packet_entry dat e) = tc_strategys e"
  "tc_indicatorIndex (packet_entry dat e) = tc_indicatorIndex e" "tc_strategyIndex (packet_entry dat e) = tc_strategyIndex e"
  "tc_columnCount (packet_entry dat e) = tc_columnCount e" "tc_symbol (packet_entry dat e) = tc_symbol e"
  by (simp_all add: packet_entry_def)

lemma packet_entry_rings: "entry_ok e \<Longrightarrow> rings_ok (packet_entry dat e)"
  using new_history_ok [of e "nat (tc_columnCount e)" dat] entry_columns [of e] by (simp add: packet_entry_def entry_ok_def rings_ok_def)

lemma packet_entry_ok: "entry_ok e \<Longrightarrow> entry_ok (packet_entry dat e)"
  using packet_entry_rings [of e dat] by (simp add: entry_ok_def)

lemma packet_read:
  assumes "rings_ok e" and k: "nat (tc_columnCount e) \<le> 16" and "length dat = PACKET_SIZE"
  shows "bindE (push_columns dat [0 ..< nat (tc_columnCount e)] e) (read_top dat) = Inr (packet_entry dat e)"
proof -
  have "read_be64 dat (8 + 8 * nat (tc_columnCount e) + 8 * j) = Inr (be64_at dat (8 + 8 * nat (tc_columnCount e) + 8 * j))" if "j < 4" for j
    using assms(3) k that by (intro read_be64_in) (simp add: PACKET_SIZE_def)
  from this [of 0] this [of 1] this [of 2] this [of 3] show ?thesis
    by (simp add: push_columns_ok [OF assms(1,3) k] read_top_def packet_entry_def Let_def upt_conv_Cons)
qed

lemma latest_values_ok: "\<forall>i \<in> set is. i < 16 \<Longrightarrow> rings_ok e \<Longrightarrow> \<exists>vs. latest_values is e = Inr vs"
proof (induction "is")
  case (Cons i "is")
  then show ?case using rings_ok_nth [of e i] by (auto simp: arr_get_nat rings_ok_def ring_latest_ok)
qed simp

text \<open>The end of a packet: only the counter of the table and the batches change.\<close>

lemma write_batch_ok:
  assumes "hft_ok h" and "0 \<le> sy" and "sy < 100"
  shows "\<exists>h1 c. write_batch sy h = Inr h1 \<and> hft_ok h1 \<and> hf_symbols h1 = (hf_symbols h)[nat sy := (hf_symbols h ! nat sy)\<lparr>tc_count := c\<rparr>]"
proof -
  let ?e = "hf_symbols h ! nat sy"
  have e: "entry_ok ?e" by (rule hft_ok_entry [OF assms])
  have set: "hft_ok (set_symbol sy (?e\<lparr>tc_count := n\<rparr>) h)" for n
    by (rule hft_ok_set [OF assms(1)]) (use e in \<open>simp add: entry_ok_def\<close>)
  have keep: "hft_ok (h1\<lparr>hf_batches := bs\<rparr>) = hft_ok h1" for h1 bs by (simp add: hft_ok_def)
  obtain vs where "latest_values [0 ..< nat (tc_columnCount ?e)] (?e\<lparr>tc_count := 0\<rparr>) = Inr vs"
    using latest_values_ok [of "[0 ..< nat (tc_columnCount ?e)]" "?e\<lparr>tc_count := 0\<rparr>"] e entry_columns [OF e] by (auto simp: entry_ok_def)
  then obtain d where "get_writing_data (?e\<lparr>tc_count := 0\<rparr>) = Inr d" by (simp add: get_writing_data_def)
  then show ?thesis using set by (auto simp: write_batch_def symbol_entry_in [OF assms(2,3)] Let_def keep set_symbol_def)
qed

text \<open>The run of a packet that fits, in one step.\<close>

lemma process_packet_fits:
  assumes "hft_ok h" and "length dat = PACKET_SIZE" and "be64_at dat 0 = sy" and "0 \<le> sy" and "sy < 100"
    and "e = hf_symbols h ! nat sy" and "tc_symbol e \<noteq> - 1" and "n = expected_size e"
  shows "\<exists>h1 e1 c inds sgs. process_packet dat n h = Inr h1 \<and> hft_ok h1 \<and> hf_symbols h1 = (hf_symbols h)[nat sy := e1] \<and>
    e1 = (packet_entry dat e)\<lparr>tc_indicators := inds, tc_strategys := sgs, tc_count := c\<rparr>"
proof -
  let ?p = "packet_entry dat e"
  have ok: "entry_ok e" using hft_ok_entry [OF assms(1,4,5)] assms(6) by simp
  obtain inds where i: "run_indicators [0 ..< nat (tc_indicatorIndex e)] ?p = Inr (?p\<lparr>tc_indicators := inds\<rparr>)"
      "filled_up_to (tc_indicatorIndex e) inds"
    using run_indicators_ok [of "[0 ..< nat (tc_indicatorIndex e)]" "tc_indicatorIndex e" ?p] ok packet_entry_rings [OF ok]
    by (auto simp: entry_ok_def)
  let ?q = "?p\<lparr>tc_indicators := inds\<rparr>"
  obtain bs sgs where s: "run_strategies [0 ..< nat (tc_strategyIndex e)] ?q = Inr (bs, ?q\<lparr>tc_strategys := sgs\<rparr>)"
      "filled_up_to (tc_strategyIndex e) sgs"
    using run_strategies_ok [of "[0 ..< nat (tc_strategyIndex e)]" "tc_strategyIndex e" ?q "tc_indicatorIndex e"] ok i(2)
    by (auto simp: entry_ok_def)
  let ?e = "?q\<lparr>tc_strategys := sgs\<rparr>"
  let ?h = "set_symbol sy ?e (h\<lparr>hf_signals := hf_signals h @ map (\<lambda>(b, i). (b, sy, i)) bs\<rparr>)"
  have tick: "read_be64 dat 0 = Inr sy" using assms(2,3) by (simp add: read_be64_in PACKET_SIZE_def)
  have "process_packet dat n h = bindE (bindE (push_columns dat [0 ..< nat (tc_columnCount e)] e) (read_top dat)) (\<lambda>e2.
      bindE (run_indicators [0 ..< nat (tc_indicatorIndex e2)] e2) (\<lambda>e3.
        bindE (run_strategies [0 ..< nat (tc_strategyIndex e3)] e3) (\<lambda>(bs, e4).
          write_batch sy (set_symbol sy e4 (h\<lparr>hf_signals := hf_signals h @ map (\<lambda>(b, i). (b, sy, i)) bs\<rparr>)))))"
    using assms tick by (simp add: process_packet_def MAXHFTSYMBOL_def symbol_entry_in bindE_assoc)
  then have run: "process_packet dat n h = write_batch sy ?h" using i(1) s(1) 
    using ok by (simp add: packet_read [OF _ entry_columns [OF ok] assms(2)] entry_ok_def)
  have "entry_ok ?e" using packet_entry_ok [OF ok, of dat] i(2) s(2) by (simp add: entry_ok_def)
  then have "hft_ok ?h" by (rule hft_ok_set [rotated]) (use assms(1) in \<open>simp add: hft_ok_def\<close>)
  then obtain h1 c where w: "write_batch sy ?h = Inr h1" "hft_ok h1"
      "hf_symbols h1 = (hf_symbols ?h)[nat sy := (hf_symbols ?h ! nat sy)\<lparr>tc_count := c\<rparr>]"
    using write_batch_ok assms(4,5) by blast
  moreover have "hf_symbols ?h ! nat sy = ?e" "hf_symbols ?h = (hf_symbols h)[nat sy := ?e]"
    using assms(1,4,5) by (simp_all add: set_symbol_def hft_ok_def)
  ultimately show ?thesis using run by (intro exI [of _ h1] exI [of _ "?e\<lparr>tc_count := c\<rparr>"]) auto
qed

lemma process_packet_other:
  "\<not> (0 \<le> sy \<and> sy < 100 \<and> tc_symbol (hf_symbols h ! nat sy) \<noteq> - 1 \<and> n = expected_size (hf_symbols h ! nat sy)) \<Longrightarrow>
     read_be64 dat 0 = Inr sy \<Longrightarrow> process_packet dat n h = Inr h"
  by (auto simp: process_packet_def MAXHFTSYMBOL_def symbol_entry_def)

lemma process_packet_ok:
  assumes "hft_ok h" and "length dat = PACKET_SIZE"
  shows "\<exists>h1. process_packet dat n h = Inr h1 \<and> hft_ok h1"
proof -
  define sy where "sy = be64_at dat 0"
  define e where "e = hf_symbols h ! nat sy"
  show ?thesis
  proof (cases "0 \<le> sy \<and> sy < 100 \<and> tc_symbol e \<noteq> - 1 \<and> n = expected_size e")
    case True
    then show ?thesis using process_packet_fits [OF assms sy_def [symmetric] _ _ e_def, of n] by blast
  next
    case False
    have "read_be64 dat 0 = Inr sy" using assms(2) by (simp add: read_be64_in PACKET_SIZE_def sy_def)
    with False have "process_packet dat n h = Inr h" unfolding e_def by (rule process_packet_other)
    then show ?thesis using assms by blast
  qed
qed

lemma set_symbol_twice [simp]: "set_symbol sy e1 (set_symbol sy e h) = set_symbol sy e1 h"
  by (simp add: set_symbol_def)

lemma add_indicator_ok:
  assumes "hft_ok h" and "fst (add_indicator known st h) = Inr ()"
  shows "hft_ok (snd (add_indicator known st h))"
proof -
  define e where "e = hf_symbols h ! nat (iot_symbol st)"
  define i where "i = tc_indicatorIndex e"
  obtain m where m: "0 \<le> iot_symbol st" "iot_symbol st < 100" "i + 1 < 128" "snd (add_indicator known st h) =
      set_symbol (iot_symbol st) (e\<lparr>tc_indicator_names := tc_indicator_names e @ [(lower (iot_indicator st), i)],
        tc_indicatorIndex := i + 1, tc_indicators := (tc_indicators e)[nat i := Some m]\<rparr>) h"
    using assms(2) by (auto simp: add_indicator_def symbol_entry_def MAXHFTSYMBOL_def MAX_NO_OF_INDICATORS_def Let_def e_def i_def
        split: if_splits sum.splits dest!: arr_set_Inr)
  have e: "entry_ok e" using hft_ok_entry [OF assms(1) m(1,2)] by (simp add: e_def)
  then have "filled_up_to (i + 1) ((tc_indicators e)[nat i := Some m])" by (intro filled_next m(3)) (simp add: entry_ok_def i_def)
  then have "entry_ok (e\<lparr>tc_indicator_names := tc_indicator_names e @ [(lower (iot_indicator st), i)],
      tc_indicatorIndex := i + 1, tc_indicators := (tc_indicators e)[nat i := Some m]\<rparr>)"
    using e by (auto simp: entry_ok_def i_def filled_up_to_def)
  then show ?thesis unfolding m(4) by (rule hft_ok_set [OF assms(1)])
qed

lemma add_strategy_ok:
  assumes "hft_ok h" and "fst (add_strategy known st h) = Inr ()" and "0 < tc_indicatorIndex (hf_symbols h ! nat (sot_symbol st))"
  shows "hft_ok (snd (add_strategy known st h))"
proof -
  define e where "e = hf_symbols h ! nat (sot_symbol st)"
  define i where "i = tc_strategyIndex e"
  obtain m where m: "0 \<le> sot_symbol st" "sot_symbol st < 100" "i + 1 < 128" "snd (add_strategy known st h) =
      set_symbol (sot_symbol st) (e\<lparr>tc_strategy_names := tc_strategy_names e @ [(lower (sot_strategy st), i)],
        tc_strategyIndex := i + 1, tc_strategys := (tc_strategys e)[nat i := Some m]\<rparr>) h"
    using assms(2) by (auto simp: add_strategy_def symbol_entry_def MAXHFTSYMBOL_def MAX_NO_OF_INDICATORS_def Let_def e_def i_def
        split: if_splits sum.splits dest!: arr_set_Inr)
  have e: "entry_ok e" using hft_ok_entry [OF assms(1) m(1,2)] by (simp add: e_def)
  then have "filled_up_to (i + 1) ((tc_strategys e)[nat i := Some m])" by (intro filled_next m(3)) (simp add: entry_ok_def i_def)
  then have "entry_ok (e\<lparr>tc_strategy_names := tc_strategy_names e @ [(lower (sot_strategy st), i)],
      tc_strategyIndex := i + 1, tc_strategys := (tc_strategys e)[nat i := Some m]\<rparr>)"
    using e assms(3) by (auto simp: entry_ok_def i_def e_def [symmetric])
  then show ?thesis unfolding m(4) by (rule hft_ok_set [OF assms(1)])
qed

text \<open>
  C32. No packet can make the feed fail, whatever its bytes and its size: while the arrays are in order, the packet in a
  buffer of \<open>PacketSize\<close> bytes is processed without a read behind the buffer, an access outside of an array or a ring and a
  call of a null function, and the arrays stay in order. They are in order at the start, and an ADD INDICATOR that
  succeeds keeps them so, as does an ADD STRATEGY that succeeds for a symbol with an indicator.
\<close>

theorem feed_safe:
  assumes "hft_ok h" and "length dat = PACKET_SIZE"
  shows "hft_ok new_hft \<and> (\<exists>h1. process_packet dat n h = Inr h1 \<and> hft_ok h1) \<and>
    (fst (add_indicator known st h) = Inr () \<longrightarrow> hft_ok (snd (add_indicator known st h))) \<and>
    (fst (add_strategy known sg h) = Inr () \<longrightarrow> 0 < tc_indicatorIndex (hf_symbols h ! nat (sot_symbol sg)) \<longrightarrow>
      hft_ok (snd (add_strategy known sg h)))"
  using assms hft_ok_new process_packet_ok add_indicator_ok add_strategy_ok by blast

lemma feed_safe_witness:
  "\<exists>h1. process_packet (replicate PACKET_SIZE NUL) 16 new_hft = Inr h1 \<and> hft_ok h1"
  using feed_safe [OF hft_ok_new, of "replicate PACKET_SIZE NUL" 16] by simp

text \<open>Packets as a sender writes them.\<close>

definition put_be64 :: "int \<Rightarrow> string" where
  "put_be64 n = rev (put64 n)"

lemma be64_packet:
  assumes "k < length ns" and "\<forall>n \<in> set ns. INT64_MIN \<le> n \<and> n \<le> INT64_MAX"
  shows "be64_at (concat (map put_be64 ns) @ pad) (8 * k) = ns ! k"
  using assms
proof (induction ns arbitrary: k)
  case (Cons n ns)
  then show ?case
    by (cases k) (auto simp: be64_at_def put_be64_def get64_put64)
qed simp

lemma new_history_nth: "i < k \<Longrightarrow> new_history dat k hs ! i = pushed (be64_at dat (8 + 8 * i)) (hs ! i)"
  by (simp add: new_history_def nth_append)

text \<open>
  A packet of the right size for a table pushes its values, in order, to the columns of that table and sets the top
  of its book, and touches no other table; a packet of another size changes nothing.
\<close>

theorem packet_applied:
  assumes "hft_ok h" and "0 \<le> sy" and "sy < 100" and "e = hf_symbols h ! nat sy" and "tc_symbol e \<noteq> - 1"
    and "tc_columnCount e = int (length vs)" and "length tops = (if tc_isTopOrderBook e then 4 else 0)"
    and "\<forall>v \<in> set (vs @ tops). INT64_MIN \<le> v \<and> v \<le> INT64_MAX"
    and "dat = concat (map put_be64 (sy # vs @ tops)) @ pad" and "length dat = PACKET_SIZE"
    and "bytes = 8 * (1 + length vs + length tops)"
  shows "(\<exists>h1. process_packet dat (int bytes) h = Inr h1 \<and>
      (\<forall>i < length vs. tc_history (hf_symbols h1 ! nat sy) ! i = pushed (vs ! i) (tc_history e ! i)) \<and>
      (tc_isTopOrderBook e \<longrightarrow> tc_topOrderBook (hf_symbols h1 ! nat sy) = tops) \<and>
      (\<forall>k. k \<noteq> nat sy \<longrightarrow> hf_symbols h1 ! k = hf_symbols h ! k)) \<and>
    (n \<noteq> int bytes \<longrightarrow> process_packet dat n h = Inr h)"
proof -
  have range: "\<forall>v \<in> set (sy # vs @ tops). INT64_MIN \<le> v \<and> v \<le> INT64_MAX" using assms(2,3,8) by (auto simp: int_limits)
  have word: "be64_at dat (8 * k) = (sy # vs @ tops) ! k" if "k < length (sy # vs @ tops)" for k
    unfolding assms(9) by (rule be64_packet [OF that range])
  have tick: "be64_at dat 0 = sy" using word [of 0] by simp
  have val: "be64_at dat (8 + 8 * i) = vs ! i" if "i < length vs" for i using word [of "Suc i"] that by (simp add: nth_append)
  have tops: "be64_at dat (8 + 8 * length vs + 8 * j) = tops ! j" if "j < length tops" for j
    using word [of "Suc (length vs + j)"] that by (simp add: nth_append algebra_simps)
  have sz: "expected_size e = int bytes" using assms(6,7,11) by (simp add: expected_size_def push_bit_eq_mult)
  obtain h1 e1 c inds sgs where run: "process_packet dat (int bytes) h = Inr h1" "hf_symbols h1 = (hf_symbols h)[nat sy := e1]"
      "e1 = (packet_entry dat e)\<lparr>tc_indicators := inds, tc_strategys := sgs, tc_count := c\<rparr>"
    using process_packet_fits [OF assms(1,10) tick assms(2-5)] sz by metis
  have sym: "hf_symbols h1 ! nat sy = e1" using run(2) assms(1-3) by (simp add: hft_ok_def)
  have "\<forall>i < length vs. tc_history e1 ! i = pushed (vs ! i) (tc_history e ! i)"
    using val assms(6) by (simp add: run(3) packet_entry_def new_history_nth)
  moreover have "tc_topOrderBook e1 = tops" if "tc_isTopOrderBook e"
    using that tops assms(6,7) by (auto simp: run(3) packet_entry_def intro!: nth_equalityI)
  moreover have "\<forall>k. k \<noteq> nat sy \<longrightarrow> hf_symbols h1 ! k = hf_symbols h ! k" by (simp add: run(2))
  moreover have "process_packet dat n h = Inr h" if "n \<noteq> int bytes"
  proof (rule process_packet_other)
    show "read_be64 dat 0 = Inr sy" using tick assms(10) by (simp add: read_be64_in PACKET_SIZE_def)
  qed (use that sz assms(4) in simp)
  ultimately show ?thesis using run(1) sym by auto
qed

lemma run_indicators_append: "run_indicators (is @ js) e = bindE (run_indicators is e) (run_indicators js)"
proof (induction "is" arbitrary: e)
  case (Cons i "is")
  have "run_indicators (is @ js) = (\<lambda>e1. bindE (run_indicators is e1) (run_indicators js))" by (rule ext) (rule Cons)
  then show ?case by (auto simp: bindE_assoc null_call_def split: option.splits intro!: bindE_cong)
qed simp

text \<open>
  An ADD INDICATOR that fails after it has been counted, because its name is known but not registered or its parameter
  is no positive number, leaves a null entry behind: the next packet for that table makes the feed call a null
  function.
\<close>

theorem failed_add_breaks_feed:
  assumes "hft_ok h" and "add_indicator known st h = (Inl f, h1)" and "h1 \<noteq> h"
    and "length dat = PACKET_SIZE" and "be64_at dat 0 = iot_symbol st" and "n = expected_size (hf_symbols h ! nat (iot_symbol st))"
  shows "process_packet dat n h1 = null_call"
proof -
  define sy where "sy = iot_symbol st"
  define e where "e = hf_symbols h ! nat sy"
  define i where "i = tc_indicatorIndex e"
  define e1 where "e1 = e\<lparr>tc_indicator_names := tc_indicator_names e @ [(lower (iot_indicator st), i)], tc_indicatorIndex := i + 1\<rparr>"
  have h1: "h1 = set_symbol sy e1 h" "0 \<le> sy" "sy < 100" "tc_symbol e \<noteq> - 1"
    using assms(2,3) by (auto simp: add_indicator_def symbol_entry_def MAXHFTSYMBOL_def MAX_NO_OF_INDICATORS_def Let_def
        e_def i_def e1_def sy_def split: if_splits sum.splits)
  have ok: "entry_ok e" using hft_ok_entry [OF assms(1) h1(2,3)] by (simp add: e_def)
  then have i: "filled_up_to i (tc_indicators e)" by (simp add: entry_ok_def i_def)
  then have i0: "0 \<le> i" "i < 128" "tc_indicators e ! nat i = None" by (auto simp: filled_up_to_def)
  have sym: "hf_symbols h1 ! nat sy = e1" using h1(1-3) assms(1) by (simp add: set_symbol_def hft_ok_def)
  let ?p = "packet_entry dat e1"
  have rows: "rings_ok e1" "nat (tc_columnCount e1) \<le> 16" using ok entry_columns [OF ok] by (simp_all add: e1_def entry_ok_def)
  have rp: "rings_ok ?p" using new_history_ok [OF rows, of dat] by (simp add: packet_entry_def rings_ok_def)
  have p: "bindE (push_columns dat [0 ..< nat (tc_columnCount e1)] e1) (read_top dat) = Inr ?p"
    by (rule packet_read [OF rows assms(4)])
  obtain inds where r: "run_indicators [0 ..< nat i] ?p = Inr (?p\<lparr>tc_indicators := inds\<rparr>)" "filled_up_to i inds"
    using run_indicators_ok [of "[0 ..< nat i]" i ?p] i rp by (auto simp: e1_def)
  have "inds ! nat i = None" "nat i < length inds" using r(2) i0(1,2) by (auto simp: filled_up_to_def)
  moreover have "[0 ..< nat (i + 1)] = [0 ..< nat i] @ [nat i]" using i0(1) by (simp add: nat_add_distrib)
  ultimately have null: "run_indicators [0 ..< nat (tc_indicatorIndex e1)] ?p = null_call"
    using r(1) arr_get_nat [of "nat i" inds] by (simp add: e1_def run_indicators_append null_call_def)
  have tick: "read_be64 dat 0 = Inr sy" using assms(4,5) by (simp add: read_be64_in PACKET_SIZE_def sy_def)
  have "expected_size e1 = n" using assms(6) by (simp add: expected_size_def e1_def e_def sy_def)
  moreover have "tc_symbol e1 \<noteq> - 1" using h1(4) by (simp add: e1_def)
  ultimately have "process_packet dat n h1 =
      bindE (bindE (push_columns dat [0 ..< nat (tc_columnCount e1)] e1) (read_top dat)) (\<lambda>e2.
      bindE (run_indicators [0 ..< nat (tc_indicatorIndex e2)] e2) (\<lambda>e3.
        bindE (run_strategies [0 ..< nat (tc_strategyIndex e3)] e3) (\<lambda>(bs, e4).
          write_batch sy (set_symbol sy e4 (h1\<lparr>hf_signals := hf_signals h1 @ map (\<lambda>(b, i). (b, sy, i)) bs\<rparr>)))))"
    using h1(2,3) sym tick by (simp add: process_packet_def MAXHFTSYMBOL_def symbol_entry_in bindE_assoc)
  then show ?thesis using null by (simp add: p null_call_def)
qed

text \<open>Symbol 3 has a table of one column.\<close>

definition one_column :: hft where
  "one_column = set_symbol 3 (new_table_column\<lparr>tc_symbol := 3, tc_columnCount := 1\<rparr>) new_hft"

lemma one_column_entry: "hf_symbols one_column ! 3 = new_table_column\<lparr>tc_symbol := 3, tc_columnCount := 1\<rparr>"
  by (simp add: one_column_def set_symbol_def new_hft_def)

lemma one_column_ok: "hft_ok one_column"
  unfolding one_column_def
  using new_entry_ok by (intro hft_ok_set [OF hft_ok_new]) (simp add: entry_ok_def rings_ok_def new_table_column_def)

lemma packet_applied_witness:
  "\<exists>h1. process_packet (put_be64 3 @ put_be64 42 @ replicate 1008 NUL) 16 one_column = Inr h1 \<and>
     tc_history (hf_symbols h1 ! 3) ! 0 = pushed 42 new_ring"
proof -
  let ?e = "hf_symbols one_column ! nat 3"
  have e: "tc_symbol ?e \<noteq> - 1" "tc_columnCount ?e = int (length [42 :: int])" "\<not> tc_isTopOrderBook ?e" "tc_history ?e ! 0 = new_ring"
    using one_column_entry by (simp_all add: new_table_column_def)
  have r: "\<forall>v \<in> set ([42] @ []). INT64_MIN \<le> v \<and> v \<le> INT64_MAX" by (simp add: int_limits)
  have d: "put_be64 3 @ put_be64 42 @ replicate 1008 NUL = concat (map put_be64 (3 # [42] @ [])) @ replicate 1008 NUL" by simp
  have l: "length (put_be64 3 @ put_be64 42 @ replicate 1008 NUL) = PACKET_SIZE" by (simp add: put_be64_def PACKET_SIZE_def)
  have z: "16 = 8 * (1 + length [42 :: int] + length ([] :: int list))" by simp
  have t: "length ([] :: int list) = (if tc_isTopOrderBook ?e then 4 else 0)" using e(3) by simp
  obtain h1 where "process_packet (put_be64 3 @ put_be64 42 @ replicate 1008 NUL) (int 16) one_column = Inr h1"
      "\<forall>i < length [42 :: int]. tc_history (hf_symbols h1 ! nat 3) ! i = pushed ([42] ! i) (tc_history ?e ! i)"
    using packet_applied [OF one_column_ok _ _ refl e(1,2) t r d l z] by auto
  then show ?thesis using e(4) by (intro exI [of _ h1]) simp
qed

lemma failed_add_breaks_feed_witness:
  "\<exists>h1. add_indicator [''sma''] \<lparr>iot_indicator = ''SMA'', iot_params = [''0''], iot_column_no = 0, iot_symbol = 3, iot_ticks = 1\<rparr> one_column =
      (Inl (Throw ''Invalid SMA parameter''), h1) \<and>
     process_packet (put_be64 3 @ put_be64 42 @ replicate 1008 NUL) 16 h1 = null_call"
proof -
  let ?st = "\<lparr>iot_indicator = ''SMA'', iot_params = [''0''], iot_column_no = 0, iot_symbol = 3, iot_ticks = 1\<rparr>"
  define e where "e = (new_table_column\<lparr>tc_symbol := 3, tc_columnCount := 1, tc_indicator_names := [(''sma'', 0)], tc_indicatorIndex := 1\<rparr>)"
  have n: "lower ''SMA'' = ''sma''" "sma_set_parameter [''0''] (new_sma 1 0) = Inl (Throw ''Invalid SMA parameter'')" by code_simp+
  have a: "add_indicator [''sma''] ?st one_column = (Inl (Throw ''Invalid SMA parameter''), set_symbol 3 e one_column)"
    by (simp add: e_def add_indicator_def symbol_entry_def MAXHFTSYMBOL_def MAX_NO_OF_INDICATORS_def Let_def n one_column_entry new_table_column_def)
  have "hf_symbols (set_symbol 3 e one_column) ! 3 = e" by (simp add: set_symbol_def one_column_def new_hft_def)
  then have "set_symbol 3 e one_column \<noteq> one_column" using one_column_entry by (auto simp: e_def new_table_column_def)
  moreover have "be64_at (put_be64 3 @ put_be64 42 @ replicate 1008 NUL) 0 = 3"
    using be64_packet [of 0 "[3, 42]" "replicate 1008 NUL"] by (simp add: int_limits)
  moreover have "length (put_be64 3 @ put_be64 42 @ replicate 1008 NUL) = PACKET_SIZE" by (simp add: put_be64_def PACKET_SIZE_def)
  moreover have "16 = expected_size (hf_symbols one_column ! 3)" by (simp add: one_column_entry expected_size_def new_table_column_def)
  ultimately have "process_packet (put_be64 3 @ put_be64 42 @ replicate 1008 NUL) 16 (set_symbol 3 e one_column) = null_call"
    by (intro failed_add_breaks_feed [OF one_column_ok a]) simp_all
  with a show ?thesis by blast
qed

end
