(* ===== verification/Schema_Store.thy ===== *)
theory Schema_Store
  imports Json_Text Table_Store Hft_Columns
begin

text \<open>
  The schema: CREATE and DROP (\<open>generator.hpp\<close>), the JSON wrappers (\<open>databaseSchemaReader.hpp\<close>), the loading of a database and
  of its index trees (\<open>initialLoad.hpp\<close>), the current database and \<open>checkIfTableExist\<close> (\<open>utility.hpp\<close>).

  The schema of a database is a JSON file, which CREATE and DROP rewrite and loading turns into the cache of the storage and
  the tables of the feed. Files can always be created and written. \<open>rd\<close> and \<open>sh\<close> read and print numbers with a
  fraction, as in \<open>Json_Text\<close>. The locks, \<open>globalJsonCache\<close>, which nothing reads, and the output on \<open>stdout\<close> are left out;
  CREATE TABLE unlocks a lock it does not hold, which this leaves out too.
\<close>

section \<open>JSON as the schema code uses it\<close>

definition object_of :: "(string \<times> 'd json) list \<Rightarrow> (string \<times> 'd json) list" where
  "object_of kvs = foldl (\<lambda>m (k, v). sm_insert string_less k v m) [] kvs"

text \<open>\<open>JSONWrapper::operator[]\<close>\<close>

definition j_key :: "string \<Rightarrow> 'd json \<Rightarrow> 'd json result" where
  "j_key k j =
     (case j of
        J_object m \<Rightarrow>
          (case sm_find k m of
             Some v \<Rightarrow> Inr v
           | None \<Rightarrow> Inl (Throw (''Key '' @ [CHR 0x27] @ k @ [CHR 0x27] @ '' not found in object'')))
      | _ \<Rightarrow> Inl (Throw ''Cannot use string key on non-object type''))"

definition j_array :: "'d json \<Rightarrow> 'd json list result" where
  "j_array j = (case j of J_array vs \<Rightarrow> Inr vs | _ \<Rightarrow> Inl (Throw ''Value is not an array''))"

definition j_has :: "string \<Rightarrow> 'd json \<Rightarrow> bool" where
  "j_has k j = (case j of J_object m \<Rightarrow> sm_find k m \<noteq> None | _ \<Rightarrow> False)"

text \<open>\<open>getString\<close>, \<open>getInt\<close>, the conversions to \<open>int\<close> and \<open>std::string\<close>, and \<open>toStringVector\<close>\<close>

definition j_text :: "'d json \<Rightarrow> string" where
  "j_text j = (case j of J_string t \<Rightarrow> t | _ \<Rightarrow> [])"

definition j_number :: "'d json \<Rightarrow> int" where
  "j_number j = (case j of J_int i \<Rightarrow> i | _ \<Rightarrow> 0)"

definition j_to_int :: "'d json \<Rightarrow> int result" where
  "j_to_int j = (case j of J_int i \<Rightarrow> Inr i | _ \<Rightarrow> Inl (Throw ''Cannot convert to int''))"

definition j_to_string :: "'d json \<Rightarrow> string result" where
  "j_to_string j = (case j of J_string t \<Rightarrow> Inr t | _ \<Rightarrow> Inl (Throw ''Cannot convert to string''))"

definition j_texts :: "'d json list \<Rightarrow> string list" where
  "j_texts vs = map j_text (filter (\<lambda>j. case j of J_string _ \<Rightarrow> True | _ \<Rightarrow> False) vs)"

text \<open>\<open>std::get\<close> on a variant\<close>

definition bad_variant :: "'a result" where
  "bad_variant = Inl (Throw ''std::get: wrong index for variant'')"

definition get_object :: "'d json \<Rightarrow> (string \<times> 'd json) list result" where
  "get_object j = (case j of J_object m \<Rightarrow> Inr m | _ \<Rightarrow> bad_variant)"

text \<open>\<open>JSONParser::loadFromFile\<close>, \<open>None\<close> for \<open>false\<close>, and \<open>saveToFile\<close>\<close>

definition load_file :: "(string \<Rightarrow> 'd result) \<Rightarrow> string \<Rightarrow> store \<Rightarrow> 'd json list option" where
  "load_file rd p s =
     (case st_files s p of
        None \<Rightarrow> None
      | Some t \<Rightarrow> (case load_text rd t of Inl e \<Rightarrow> None | Inr vs \<Rightarrow> Some vs))"

definition save_file :: "('d \<Rightarrow> string) \<Rightarrow> 'd json list \<Rightarrow> string \<Rightarrow> store \<Rightarrow> store" where
  "save_file sh vs p s = set_file p (save_text sh vs) s"

section \<open>CREATE TABLE\<close>

text \<open>\<open>std::string::find\<close> of a text\<close>

fun has_text :: "string \<Rightarrow> string \<Rightarrow> bool" where
  "has_text p s = (take (length p) s = p \<or> (case s of [] \<Rightarrow> False | _ # r \<Rightarrow> has_text p r))"

declare has_text.simps [simp del]

text \<open>The length of a \<open>varchar(n)\<close>, \<open>None\<close> for another type.\<close>

definition varchar_length :: "string \<Rightarrow> int option result" where
  "varchar_length ty =
     (if \<not> has_text ''varchar('' ty then Inr None
      else (let start = length (takeWhile (\<lambda>c. c \<noteq> CHR ''('') ty) + 1;
                stop = length (takeWhile (\<lambda>c. c \<noteq> CHR '')'') ty)
            in if stop < length ty \<and> start < stop then
                 (case stoi (take (stop - start) (drop start ty)) of
                    Inl e \<Rightarrow> Inl (Throw ''Invalid VARCHAR length'')
                  | Inr n \<Rightarrow> Inr (Some n))
               else Inr None))"

fun constraint_text :: "column_constraint \<Rightarrow> string list" where
  "constraint_text NOT_NULL = [''not_null'']"
| "constraint_text PRIMARY_KEY = [''primary_key'']"
| "constraint_text UNIQUE = [''unique'']"
| "constraint_text AUTO_INCREMENT = [''auto_increment'']"
| "constraint_text NO_CONSTRAINT = []"

definition new_column :: "string \<Rightarrow> string \<Rightarrow> column" where
  "new_column nm ty = \<lparr>co_type = ty, co_name = nm, co_constraint = [], co_precision = 0, co_autoIncrement = False,
     co_isUnique = False, co_isPrimary = False, co_createIndex = False, co_length = INT32_MAX\<rparr>"

text \<open>A column of the statement as JSON and as an entry of the cache.\<close>

definition create_column :: "column_definition \<Rightarrow> ('d json \<times> column) result" where
  "create_column c =
     bindE (varchar_length (col_type c)) (\<lambda>len.
       let base = [(''name'', J_string (col_name c)), (''precision'', J_int (col_precision c)), (''type'', J_string (col_type c))];
           with_length = (case len of None \<Rightarrow> [] | Some n \<Rightarrow> [(''length'', J_int n), (''type'', J_string ''varchar'')]);
           texts = concat (map constraint_text (col_constraints c));
           node = new_column (col_name c) (case len of None \<Rightarrow> col_type c | Some n \<Rightarrow> ''varchar'')
       in Inr (J_object (object_of (base @ with_length @ [(''constraints'', J_array (map J_string texts))])),
               node\<lparr>co_autoIncrement := AUTO_INCREMENT \<in> set (col_constraints c), co_isUnique := UNIQUE \<in> set (col_constraints c),
                 co_isPrimary := PRIMARY_KEY \<in> set (col_constraints c),
                 co_length := (case len of None \<Rightarrow> INT32_MAX | Some n \<Rightarrow> n)\<rparr>))"

fun create_columns :: "column_definition list \<Rightarrow> ('d json \<times> column) list result" where
  "create_columns [] = Inr []"
| "create_columns (c # cs) = bindE (create_column c) (\<lambda>x. bindE (create_columns cs) (\<lambda>xs. Inr (x # xs)))"

text \<open>\<open>globalTableCache[currentDatabase]\<close> and its entry for a table\<close>

definition touch_db :: "store \<Rightarrow> (string \<rightharpoonup> table_meta) \<times> store" where
  "touch_db s =
     (let tables = (case st_cache s (st_db s) of None \<Rightarrow> Map.empty | Some m \<Rightarrow> m)
      in (tables, s\<lparr>st_cache := (st_cache s)(st_db s \<mapsto> tables)\<rparr>))"

definition put_table :: "string \<Rightarrow> table_meta \<Rightarrow> store \<Rightarrow> store" where
  "put_table t meta s = (let (tables, s1) = touch_db s in s1\<lparr>st_cache := (st_cache s1)(st_db s \<mapsto> tables(t \<mapsto> meta))\<rparr>)"

text \<open>The JSON of the database with one more table.\<close>

definition add_table :: "'d json \<Rightarrow> (string \<times> 'd json) list \<Rightarrow> (string \<times> 'd json) list" where
  "add_table tbl m =
     sm_insert string_less ''tables''
       (J_array ((case sm_find ''tables'' m of Some (J_array ts) \<Rightarrow> ts | _ \<Rightarrow> []) @ [tbl])) m"

text \<open>Reads the JSON file of the current database, gives its first value to \<open>k\<close> and writes what \<open>k\<close> makes of it.\<close>

definition with_root ::
  "(string \<Rightarrow> 'd result) \<Rightarrow> ('d \<Rightarrow> string) \<Rightarrow> string \<Rightarrow> ('d json \<Rightarrow> (string \<times> 'd json) list result) \<Rightarrow> store \<Rightarrow> unit result \<times> store" where
  "with_root rd sh msg k s =
     (let p = database_file (st_db s)
      in case load_file rd p s of
           None \<Rightarrow> (Inl (Throw (msg @ p)), s)
         | Some [] \<Rightarrow> (Inl (Throw ''Index out of range''), s)
         | Some (root # _) \<Rightarrow>
             (case k root of
                Inl e \<Rightarrow> (Inl e, s)
              | Inr m \<Rightarrow> (Inr (), save_file sh [J_object m] p s)))"

definition create_files :: "string \<Rightarrow> store \<Rightarrow> store" where
  "create_files t s =
     set_file (table_path (st_db s) t ''.delete'') [] (set_file (table_path (st_db s) t ''.data'') []
       (set_file (table_path (st_db s) t ''.index'') [] s))"

section \<open>Loading the index trees\<close>

text \<open>\<open>dbBtrees[db][table][column] = tree\<close>; a new key comes last in the order of the hash map here.\<close>

definition put_tree :: "string \<Rightarrow> string \<Rightarrow> string \<Rightarrow> index_tree \<Rightarrow> store \<Rightarrow> store" where
  "put_tree db t c tr s =
     (let ts = st_trees s db t;
          ts1 = (if c \<in> fst ` set ts then map (\<lambda>(c1, t1). (c1, if c1 = c then tr else t1)) ts else ts @ [(c, tr)])
      in s\<lparr>st_trees := (st_trees s)(db := (st_trees s db)(t := ts1))\<rparr>)"

definition row_node :: "nat \<Rightarrow> nat \<Rightarrow> index_node" where
  "row_node n r = index_node_of (int r * row_size n) (int r * row_size n + row_size n)"

text \<open>\<open>loadAllNodesOfBtreeForPrimaryKey\<close>; the rows that are deleted are loaded too.\<close>

fun load_primary :: "nat \<Rightarrow> string \<Rightarrow> nat list \<Rightarrow> index_tree \<Rightarrow> index_tree result" where
  "load_primary n idx [] tr = Inr tr"
| "load_primary n idx (r # rs) tr =
     bindE (read64 (int r * row_size n) idx) (\<lambda>id. load_primary n idx rs (insert_id id (row_node n r) tr))"

text \<open>
  \<open>loadAllNodesOfBtreeForUniqueKey\<close>, for the column at place \<open>j\<close> of the alphabet, from 0: its offsets are the \<open>j\<close>-th pair
  behind the id. For \<open>j = 0\<close> that is the pair before. A negative length makes the constructor of \<open>std::string\<close>
  throw; the exception is caught, and the row is indexed under 0.
\<close>

fun load_unique :: "nat \<Rightarrow> nat \<Rightarrow> string \<Rightarrow> string \<Rightarrow> nat list \<Rightarrow> index_tree \<Rightarrow> index_tree result" where
  "load_unique n j idx dat [] tr = Inr tr"
| "load_unique n j idx dat (r # rs) tr =
     (let pos = int r * row_size n + 8 + 16 * (int j - 1)
      in bindE (read64 pos idx) (\<lambda>st. bindE (read64 (pos + 8) idx) (\<lambda>en.
           if en - st < 0 then load_unique n j idx dat rs (insert_id 0 (row_node n r) tr)
           else (case read_at st (en - st) dat of
                   None \<Rightarrow> past_end
                 | Some v \<Rightarrow> load_unique n j idx dat rs (insert_text v (row_node n r) tr)))))"

definition place_of :: "string \<Rightarrow> string list \<Rightarrow> nat" where
  "place_of c names = length (takeWhile (\<lambda>c1. c1 \<noteq> c) names)"

definition index_rows :: "nat \<Rightarrow> string \<Rightarrow> nat list" where
  "index_rows n idx = [0 ..< nat (row_count n (int (length idx)))]"

text \<open>A tree is put in its place empty and then filled; an exception leaves it there.\<close>

definition fill_tree :: "string \<Rightarrow> string \<Rightarrow> string \<Rightarrow> index_tree \<Rightarrow> (index_tree \<Rightarrow> index_tree result) \<Rightarrow> store \<Rightarrow> unit result \<times> store" where
  "fill_tree db t c tr fill s =
     (let s1 = put_tree db t c tr s
      in if \<not> check_if_file_exist s (table_path db t ''.index'') then (Inl (Throw ''the table does not exist''), s1)
         else (case fill tr of
                 Inl e \<Rightarrow> (Inl e, s1)
               | Inr tr1 \<Rightarrow> (Inr (), put_tree db t c tr1 s1)))"

definition init_tree :: "string \<Rightarrow> string \<Rightarrow> column list \<Rightarrow> column \<Rightarrow> store \<Rightarrow> unit result \<times> store" where
  "init_tree db t cols c s =
     (let n = length cols;
          idx = content s (table_path db t ''.index'');
          dat = content s (table_path db t ''.data'');
          unique = load_unique n (place_of (co_name c) (column_names cols)) idx dat (index_rows n idx)
      in if co_isPrimary c then
           (if co_type c = ''int'' then
              fill_tree db t (co_name c) (Int_Tree empty_tree) (load_primary n idx (index_rows n idx)) s
            else (Inr (), s))
         else if co_isUnique c then
           (if co_type c = ''int'' then fill_tree db t (co_name c) (Int_Tree empty_tree) unique s
            else if co_type c = ''varchar'' then fill_tree db t (co_name c) (Str_Tree empty_tree) unique s
            else (Inr (), s))
         else (Inr (), s))"

fun init_trees :: "string \<Rightarrow> string \<Rightarrow> column list \<Rightarrow> column list \<Rightarrow> store \<Rightarrow> unit result \<times> store" where
  "init_trees db t cols [] s = (Inr (), s)"
| "init_trees db t cols (c # cs) s =
     (case init_tree db t cols c s of
        (Inl e, s1) \<Rightarrow> (Inl e, s1)
      | (Inr _, s1) \<Rightarrow> init_trees db t cols cs s1)"

text \<open>
  \<open>initializePrimaryIndexBtrees\<close> for the tables \<open>ts\<close>, in the order in which the cache iterates over them: all of
  the cache at the start of the program, those with the new table's name after a CREATE TABLE.
\<close>

fun init_index_trees :: "(string \<times> string) list \<Rightarrow> store \<Rightarrow> unit result \<times> store" where
  "init_index_trees [] s = (Inr (), s)"
| "init_index_trees ((db, t) # ts) s =
     (case (case st_cache s db of None \<Rightarrow> None | Some m \<Rightarrow> m t) of
        None \<Rightarrow> init_index_trees ts s
      | Some (sy, cols) \<Rightarrow>
          if sy \<noteq> ''-1'' then init_index_trees ts s
          else (case init_trees db t cols cols s of
                  (Inl e, s1) \<Rightarrow> (Inl e, s1)
                | (Inr _, s1) \<Rightarrow> init_index_trees ts s1))"

text \<open>\<open>generateCreateTableStatement\<close>; \<open>order\<close> gives the order of the cache.\<close>

definition table_exists :: "string \<Rightarrow> string \<Rightarrow> 'a result" where
  "table_exists t db = Inl (Throw ('' Table '' @ [CHR 0x27] @ t @ [CHR 0x27] @ '' already exists in DB '' @ [CHR 0x27] @ db @ [CHR 0x27]))"

definition generate_create ::
  "(string \<Rightarrow> 'd result) \<Rightarrow> ('d \<Rightarrow> string) \<Rightarrow> ((string \<rightharpoonup> (string \<rightharpoonup> table_meta)) \<Rightarrow> (string \<times> string) list) \<Rightarrow> create_statement \<Rightarrow> store \<Rightarrow>
     unit result \<times> store" where
  "generate_create rd sh order stmt s =
     (case (create_columns (cr_columns stmt) :: ('d json \<times> column) list result) of
        Inl e \<Rightarrow> (Inl e, s)
      | Inr cols \<Rightarrow>
          (let (tables, s1) = touch_db s;
               t = cr_name stmt;
               tbl = J_object (object_of [(''name'', J_string t), (''symbol'', J_int (cr_symbol stmt)), (''top'', J_bool (cr_top stmt)),
                       (''columns'', J_array (map fst cols))])
           in if tables t \<noteq> None then (table_exists t (st_db s), s1)
              else (case with_root rd sh '' Failed to load DB file: ''
                           (\<lambda>root. case root of J_object m \<Rightarrow> Inr (add_table tbl m) | _ \<Rightarrow> Inl (Throw ''Root of DB JSON must be an object'')) s1 of
                      (Inl e, s2) \<Rightarrow> (Inl e, s2)
                    | (Inr _, s2) \<Rightarrow>
                        (let s3 = create_files t (put_table t (show_int (cr_symbol stmt), map snd cols) s2)
                         in init_index_trees (filter (\<lambda>(db, t1). t1 = t) (order (st_cache s3))) s3))))"

end
