(* ===== verification/Schema_Load.thy ===== *)
theory Schema_Load
  imports Schema_Store
begin

text \<open>
  DROP, the current database, loading a database and CREATE HFT TABLE, on the storage together with the feed; and the
  functions of the storage as the engine of the parser.
\<close>

section \<open>DROP\<close>

text \<open>The first table of the JSON array with the given name is left out; every element looked at must be well formed.\<close>

fun drop_from :: "string \<Rightarrow> 'd json list \<Rightarrow> 'd json list result" where
  "drop_from t [] = Inr []"
| "drop_from t (v # vs) =
     bindE (get_object v) (\<lambda>m.
       case sm_find ''name'' m of
         None \<Rightarrow> Inl (Throw ''map::at'')
       | Some (J_string n) \<Rightarrow> if n = t then Inr vs else bindE (drop_from t vs) (\<lambda>us. Inr (v # us))
       | Some _ \<Rightarrow> bad_variant)"

definition drop_table_json :: "string \<Rightarrow> 'd json \<Rightarrow> (string \<times> 'd json) list result" where
  "drop_table_json t root =
     bindE (get_object root) (\<lambda>m.
       case sm_find ''tables'' m of
         None \<Rightarrow> Inr m
       | Some (J_array ts) \<Rightarrow> bindE (drop_from t ts) (\<lambda>us. Inr (sm_insert string_less ''tables'' (J_array us) m))
       | Some _ \<Rightarrow> bad_variant)"

definition remove_file :: "string \<Rightarrow> store \<Rightarrow> store" where
  "remove_file p s = s\<lparr>st_files := (st_files s)(p := None)\<rparr>"

text \<open>\<open>fs::remove_all\<close> of a directory\<close>

definition remove_under :: "string \<Rightarrow> store \<Rightarrow> store" where
  "remove_under dir s = s\<lparr>st_files := (\<lambda>p. if take (length dir + 1) p = dir @ ''/'' then None else st_files s p)\<rparr>"

definition erase_table :: "string \<Rightarrow> store \<Rightarrow> store" where
  "erase_table t s =
     (case st_cache s (st_db s) of
        None \<Rightarrow> s
      | Some m \<Rightarrow> s\<lparr>st_cache := (st_cache s)(st_db s \<mapsto> m(t := None))\<rparr>)"

text \<open>\<open>generateDropStatement\<close>; the trees of the table stay.\<close>

definition generate_drop :: "(string \<Rightarrow> 'd result) \<Rightarrow> ('d \<Rightarrow> string) \<Rightarrow> drop_statement \<Rightarrow> store \<Rightarrow> unit result \<times> store" where
  "generate_drop rd sh stmt s =
     (let nm = drop_name stmt
      in if drop_istable stmt then
           (if st_db s = [] then (Inl (Throw ''No database selected''), s)
            else (case st_cache s (st_db s) of
              None \<Rightarrow> (Inl (Throw (''Database not found: '' @ st_db s)), s)
            | Some m \<Rightarrow>
                if m nm = None then (Inl (Throw (''Table '' @ [CHR 0x27] @ nm @ [CHR 0x27] @ '' does not exist'')), s)
                else with_root rd sh ''Failed to load DB file: '' (drop_table_json nm)
                       (erase_table nm (remove_file (table_path (st_db s) nm ''.index'') (remove_file (table_path (st_db s) nm ''.data'')
                         (remove_file (table_path (st_db s) nm ''.delete'') s))))))
         else if st_files s (database_file nm) = None then
           (Inl (Throw (''Database '' @ [CHR 0x27] @ nm @ [CHR 0x27] @ '' does not exist.'')), s)
         else (let s1 = remove_file (database_file nm) (remove_under (tableDirectory @ ''/'' @ nm) s)
               in (Inr (), s1\<lparr>st_cache := (st_cache s1)(nm := None), st_db := (if st_db s = nm then [] else st_db s)\<rparr>)))"

section \<open>The current database\<close>

definition meta_file :: string where
  "meta_file = ''./db/current_db.meta''"

definition change_current_db :: "string \<Rightarrow> store \<Rightarrow> store" where
  "change_current_db db s = set_file meta_file (''{\"current_db\":\"'' @ db @ ''\"}'') s"

text \<open>\<open>std::string::find\<close>, as the text from the place found\<close>

fun find_text :: "string \<Rightarrow> string \<Rightarrow> string option" where
  "find_text p s = (if take (length p) s = p then Some s else (case s of [] \<Rightarrow> None | _ # r \<Rightarrow> find_text p r))"

declare find_text.simps [simp del]

definition get_current_database :: "store \<Rightarrow> string result" where
  "get_current_database s =
     (case st_files s meta_file of
        None \<Rightarrow> Inl (Throw ''Unable to open meta file'')
      | Some f \<Rightarrow>
          (case find_text ''\"current_db\"'' (takeWhile (\<lambda>c. c \<noteq> CHR 0x0A) f) of
             None \<Rightarrow> Inl (Throw (''Key '' @ [CHR 0x27] @ ''current_db'' @ [CHR 0x27] @ '' not found''))
           | Some l \<Rightarrow>
               (let r = dropWhile (\<lambda>c. c \<noteq> CHR 0x22) (dropWhile (\<lambda>c. c \<noteq> CHR '':'') l)
                in if r = [] \<or> CHR 0x22 \<notin> set (tl r) then Inl (Throw ''Invalid format in meta file'')
                   else Inr (takeWhile (\<lambda>c. c \<noteq> CHR 0x22) (tl r)))))"

section \<open>Loading a database\<close>

record engine =
  en_store :: store
  en_hft :: hft

text \<open>One column of the JSON as an entry of the cache.\<close>

definition load_column :: "'d json \<Rightarrow> column result" where
  "load_column j =
     bindE (j_key ''name'' j) (\<lambda>nm. bindE (j_key ''type'' j) (\<lambda>ty.
       bindE (j_key ''constraints'' j) (\<lambda>cj. bindE (j_array cj) (\<lambda>cs. bindE (j_key ''precision'' j) (\<lambda>pr.
         let texts = map j_text cs
         in bindE (if j_has ''length'' j then bindE (j_key ''length'' j) j_to_int else Inr INT32_MAX) (\<lambda>len.
              Inr \<lparr>co_type = j_text ty, co_name = j_text nm, co_constraint = j_texts cs, co_precision = j_number pr,
                co_autoIncrement = ''auto_increment'' \<in> set texts, co_isUnique = ''unique'' \<in> set texts,
                co_isPrimary = ''primary_key'' \<in> set texts, co_createIndex = ''create_index'' \<in> set texts, co_length = len\<rparr>))))))"

text \<open>The columns of a table; an empty tree of integers is put in place for each key and unique column as it is read.\<close>

fun load_columns :: "string \<Rightarrow> string \<Rightarrow> 'd json list \<Rightarrow> store \<Rightarrow> column list result \<times> store" where
  "load_columns db t [] s = (Inr [], s)"
| "load_columns db t (j # js) s =
     (case load_column j of
        Inl e \<Rightarrow> (Inl e, s)
      | Inr c \<Rightarrow>
          (let s1 = (if co_isPrimary c \<or> co_isUnique c then put_tree db t (co_name c) (Int_Tree empty_tree) s else s)
           in case load_columns db t js s1 of
                (Inl e, s2) \<Rightarrow> (Inl e, s2)
              | (Inr cs, s2) \<Rightarrow> (Inr (c # cs), s2)))"

definition add_writer :: "int \<Rightarrow> hft \<Rightarrow> hft" where
  "add_writer sy h = (if sy \<in> set (hf_writers h) then h else h\<lparr>hf_writers := hf_writers h @ [sy]\<rparr>)"

text \<open>The table of the feed of a loaded HFT table.\<close>

definition load_symbol :: "int \<Rightarrow> int list \<Rightarrow> bool \<Rightarrow> int \<Rightarrow> hft \<Rightarrow> hft result" where
  "load_symbol sy precisions isTop ticks h =
     bindE (symbol_entry sy h) (\<lambda>e. bindE (init_table precisions isTop sy e) (\<lambda>e1.
       Inr (add_writer sy (set_symbol sy (if 0 < ticks then e1\<lparr>tc_storageTicks := ticks\<rparr> else e1) h))))"

text \<open>
  The constructor of \<open>IoUringQueue\<close>: the data file of a table is opened with \<open>O_CREAT\<close>, so one that is missing is there afterwards,
  empty. That the kernel can open the file and set up the ring is taken for granted, as everywhere with files.
\<close>

definition open_writer :: "string \<Rightarrow> string \<Rightarrow> store \<Rightarrow> store" where
  "open_writer db t s =
     (let p = table_path db t ''.data'' in if st_files s p = None then set_file p [] s else s)"

definition load_table :: "string \<Rightarrow> 'd json \<Rightarrow> engine \<Rightarrow> unit result \<times> engine" where
  "load_table db j en =
     (case j_key ''name'' j of
        Inl e \<Rightarrow> (Inl e, en)
      | Inr nm \<Rightarrow>
          (let t = j_text nm; s0 = open_writer db t (en_store en)
           in case bindE (j_key ''symbol'' j) (\<lambda>sy. bindE (j_key ''top'' j) (\<lambda>tp.
                     bindE (j_key ''columns'' j) (\<lambda>cj. bindE (j_array cj) (\<lambda>cs. Inr (j_number sy, j_number tp, cs))))) of
                Inl e \<Rightarrow> (Inl e, en\<lparr>en_store := s0\<rparr>)
              | Inr (sy, tp, cs) \<Rightarrow>
                  (case load_columns db t cs s0 of
                     (Inl e, s1) \<Rightarrow> (Inl e, en\<lparr>en_store := s1\<rparr>)
                   | (Inr cols, s1) \<Rightarrow>
                       (case (if j_has ''ticks'' j then bindE (j_key ''ticks'' j) (\<lambda>v. Inr (j_number v)) else Inr (- 1)) of
                          Inl e \<Rightarrow> (Inl e, en\<lparr>en_store := s1\<rparr>)
                        | Inr ticks \<Rightarrow>
                            (let m = (case st_cache s1 db of None \<Rightarrow> Map.empty | Some m \<Rightarrow> m);
                                 s2 = s1\<lparr>st_cache := (st_cache s1)(db \<mapsto> m(t \<mapsto> (show_int sy, cols)))\<rparr>
                             in if sy = - 1 then (Inr (), en\<lparr>en_store := s2\<rparr>)
                                else (case load_symbol sy (map co_precision cols) (hd (show_int tp) = CHR ''1'') ticks (en_hft en) of
                                        Inl e \<Rightarrow> (Inl e, en\<lparr>en_store := s2\<rparr>)
                                      | Inr h \<Rightarrow> (Inr (), \<lparr>en_store = s2, en_hft = h\<rparr>)))))))"

fun load_tables :: "string \<Rightarrow> 'd json list \<Rightarrow> engine \<Rightarrow> unit result \<times> engine" where
  "load_tables db [] en = (Inr (), en)"
| "load_tables db (j # js) en =
     (case load_table db j en of
        (Inl e, en1) \<Rightarrow> (Inl e, en1)
      | (Inr _, en1) \<Rightarrow> load_tables db js en1)"

text \<open>
  \<open>initialDatabseLoad\<close>. \<open>has_db\<close> tells whether the directory \<open>./db\<close> is there. What goes wrong with the tables is printed and
  forgotten; the tables before stay loaded.
\<close>

definition initial_database_load :: "(string \<Rightarrow> 'd result) \<Rightarrow> bool \<Rightarrow> engine \<Rightarrow> unit result \<times> engine" where
  "initial_database_load rd has_db en =
     (let s0 = (if has_db then en_store en else set_file meta_file ''{\"current_db\":\"\"}'' (en_store en))
      in case get_current_database s0 of
           Inl e \<Rightarrow> (Inl e, en\<lparr>en_store := s0\<rparr>)
         | Inr db \<Rightarrow>
             if db = [] then (Inr (), en\<lparr>en_store := s0\<rparr>)
             else (let s1 = s0\<lparr>st_db := db\<rparr>; en1 = en\<lparr>en_store := s1\<rparr>
                   in if st_files s1 (database_file db) = None then (Inr (), en1)
                      else (case load_file rd (database_file db) s1 of
                              None \<Rightarrow> (Inl (Throw (''Failed to load file: '' @ database_file db)), en1)
                            | Some vs \<Rightarrow>
                                (case (case vs of [] \<Rightarrow> Inl (Throw ''Index out of bounds'') | v # _ \<Rightarrow> bindE (j_key ''tables'' v) j_array) of
                                   Inl e \<Rightarrow> (Inr (), en1)
                                 | Inr ts \<Rightarrow>
                                     (case load_tables db ts en1 of
                                        (Inl (Throw _), en2) \<Rightarrow> (Inr (), en2)
                                      | (Inl e, en2) \<Rightarrow> (Inl e, en2)
                                      | (Inr _, en2) \<Rightarrow> (Inr (), en2))))))"

text \<open>\<open>checkIfTableExist\<close>: the file is read again; a file that cannot be read leaves the parser without values.\<close>

fun named_table :: "string \<Rightarrow> 'd json list \<Rightarrow> bool result" where
  "named_table t [] = Inr False"
| "named_table t (j # js) =
     bindE (j_key ''name'' j) (\<lambda>nm. bindE (j_to_string nm) (\<lambda>n. if n = t then Inr True else named_table t js))"

definition check_table :: "(string \<Rightarrow> 'd result) \<Rightarrow> string \<Rightarrow> store \<Rightarrow> (bool \<times> string) result" where
  "check_table rd t s =
     (let missing = Inr (False, ''the table name '' @ t @ '' not exist'')
      in if \<not> check_if_file_exist s (database_file (st_db s)) then missing
         else (case load_file rd (database_file (st_db s)) s of
                 Some (v # _) \<Rightarrow>
                   bindE (j_key ''tables'' v) (\<lambda>ts. bindE (j_array ts) (\<lambda>js. bindE (named_table t js) (\<lambda>b.
                     if b then Inr (True, []) else missing)))
               | _ \<Rightarrow> Inl (Throw ''Index out of bounds'')))"

section \<open>CREATE HFT TABLE\<close>

definition hft_column :: "column_definition \<Rightarrow> 'd json \<times> column" where
  "hft_column c =
     (J_object (object_of [(''name'', J_string (col_name c)), (''type'', J_string (col_type c)), (''precision'', J_int (col_precision c)),
        (''constraints'', J_array [])]),
      (new_column (col_name c) (col_type c))\<lparr>co_precision := col_precision c\<rparr>)"

definition generate_hft_create :: "(string \<Rightarrow> 'd result) \<Rightarrow> ('d \<Rightarrow> string) \<Rightarrow> create_statement \<Rightarrow> engine \<Rightarrow> unit result \<times> engine" where
  "generate_hft_create rd sh stmt en =
     (let cols = (map hft_column (cr_columns stmt) :: ('d json \<times> column) list);
          (tables, s1) = touch_db (en_store en);
          t = cr_name stmt;
          tbl = J_object (object_of [(''name'', J_string t), (''symbol'', J_int (cr_symbol stmt)),
                  (''top'', J_int (if cr_top stmt then 1 else 0)), (''columns'', J_array (map fst cols))])
      in if tables t \<noteq> None then (table_exists t (st_db s1), en\<lparr>en_store := s1\<rparr>)
         else (case with_root rd sh '' Failed to load DB file: ''
                      (\<lambda>root. case root of J_object m \<Rightarrow> Inr (add_table tbl m) | _ \<Rightarrow> Inl (Throw ''Root of DB JSON must be an object'')) s1 of
                 (Inl e, s2) \<Rightarrow> (Inl e, en\<lparr>en_store := s2\<rparr>)
               | (Inr _, s2) \<Rightarrow>
                   (let s3 = put_table t (show_int (cr_symbol stmt), map snd cols) s2
                    in case bindE (symbol_entry (cr_symbol stmt) (en_hft en))
                              (init_table (map col_precision (cr_columns stmt)) (cr_top stmt) (cr_symbol stmt)) of
                         Inl e \<Rightarrow> (Inl e, en\<lparr>en_store := s3\<rparr>)
                       | Inr e \<Rightarrow> (Inr (), \<lparr>en_store = create_files t s3, en_hft = set_symbol (cr_symbol stmt) e (en_hft en)\<rparr>))))"

end
