(* ===== verification/Nano_Engine.thy ===== *)
theory Nano_Engine
  imports Schema_Load
begin

text \<open>
  STATISTICS over an index tree (\<open>ExecStatStat\<close> in \<open>utility.hpp\<close>), and the engine the parser of \<open>SQL_Dispatch\<close> runs on: the
  storage, the schema and the feed. The functions that reach the network, source files or the memory store are
  the argument \<open>other\<close>.
\<close>

section \<open>STATISTICS\<close>

text \<open>
  The keys of a tree of texts, in order, for which the condition holds of the row that has only this column; the
  largest and the smallest text, which nothing prints, are left out.
\<close>

fun text_loop :: "string \<Rightarrow> expr option \<Rightarrow> string list \<Rightarrow> string list result" where
  "text_loop c wh [] = Inr []"
| "text_loop c wh (k # ks) =
     bindE (evaluate_where wh [c \<mapsto> V_string k]) (\<lambda>b. bindE (text_loop c wh ks) (\<lambda>us. Inr (if b then k # us else us)))"

text \<open>
  The loop over a tree of integers, with the count, the sum, the largest and the smallest key. The overflow of the sum,
  an \<open>int64_t\<close>, is undefined.
\<close>

type_synonym int_stats = "int \<times> int \<times> int \<times> int"

fun int_loop :: "string \<Rightarrow> expr option \<Rightarrow> int list \<Rightarrow> int_stats \<Rightarrow> int_stats result" where
  "int_loop c wh [] st = Inr st"
| "int_loop c wh (k # ks) (n, tot, mx, mn) =
     bindE (evaluate_where wh [c \<mapsto> V_int k]) (\<lambda>b.
       if \<not> b then int_loop c wh ks (n, tot, mx, mn)
       else if tot + k < INT64_MIN \<or> INT64_MAX < tot + k then Inl (Undefined ''overflow of the sum of a column'')
       else int_loop c wh ks (n + 1, tot + k, if k > mx then k else mx, if k < mn then k else mn))"

text \<open>\<open>show_mean\<close> prints the quotient of a sum and a count as the stream prints a \<open>double\<close>.\<close>

definition int_statistics :: "(int \<Rightarrow> int \<Rightarrow> string) \<Rightarrow> string \<Rightarrow> string \<Rightarrow> int_stats \<Rightarrow> string" where
  "int_statistics show_mean ty c st =
     (let (count, tot, maxVal, minVal) = st
      in if count = 0 then ''No data found in column '' @ [CHR 0x27] @ c @ [CHR 0x27]
         else if ty = ''mean'' then
           ''MEAN('' @ c @ '') = '' @ show_mean tot count @ ''  [count='' @ show_int count @ '', sum='' @ show_int tot @ '']''
         else if ty = ''max'' then ''MAX('' @ c @ '') = '' @ show_int maxVal
         else if ty = ''min'' then ''MIN('' @ c @ '') = '' @ show_int minVal
         else if ty = ''count'' then ''COUNT('' @ c @ '') = '' @ show_int count
         else [])"

definition text_statistics :: "string \<Rightarrow> string \<Rightarrow> string list \<Rightarrow> string result" where
  "text_statistics ty c ks =
     (if ks = [] then Inr (''No data found in column '' @ [CHR 0x27] @ c @ [CHR 0x27] @ '' for given query'')
      else if ty = ''mean'' then Inl (Throw ''MEAN is not supported on string columns'')
      else if ty = ''max'' then Inl (Throw ''MAX is not supported on string columns'')
      else if ty = ''min'' then Inl (Throw ''MIN is not supported on string columns'')
      else if ty = ''count'' then Inr (''COUNT('' @ c @ '') = '' @ show_int (int (length ks)))
      else Inr [])"

definition exec_statistics :: "(int \<Rightarrow> int \<Rightarrow> string) \<Rightarrow> statistics_statement \<Rightarrow> store \<Rightarrow> string result" where
  "exec_statistics show_mean stmt s =
     (let t = st_table stmt; c = st_column stmt; wh = st_where stmt
      in case map_of (st_trees s (st_db s) t) c of
           None \<Rightarrow> Inl (Throw (''No index found for column '' @ [CHR 0x27] @ c @ [CHR 0x27] @ '' in table '' @ [CHR 0x27] @ t @ [CHR 0x27] @
             ''. Column must have a PRIMARY KEY or UNIQUE index.''))
         | Some (Int_Tree tr) \<Rightarrow>
             bindE (int_loop c wh (for_each_key tr) (0, 0, INT64_MIN, INT64_MAX)) (\<lambda>st. Inr (int_statistics show_mean (st_type stmt) c st))
         | Some (Str_Tree tr) \<Rightarrow>
             bindE (text_loop c wh (for_each_key tr)) (\<lambda>ks. text_statistics (st_type stmt) c ks))"

section \<open>The engine\<close>

text \<open>A function on the storage or on the feed as one on the engine; \<open>void\<close> functions give the empty text.\<close>

definition on_store :: "(store \<Rightarrow> unit result \<times> store) \<Rightarrow> engine \<Rightarrow> string result \<times> engine" where
  "on_store f en = (case f (en_store en) of (r, s) \<Rightarrow> (bindE r (\<lambda>_. Inr []), en\<lparr>en_store := s\<rparr>))"

definition on_hft :: "(hft \<Rightarrow> unit result \<times> hft) \<Rightarrow> engine \<Rightarrow> string result \<times> engine" where
  "on_hft f en = (case f (en_hft en) of (r, h) \<Rightarrow> (bindE r (\<lambda>_. Inr []), en\<lparr>en_hft := h\<rparr>))"

definition on_engine :: "(engine \<Rightarrow> unit result \<times> engine) \<Rightarrow> engine \<Rightarrow> string result \<times> engine" where
  "on_engine f en = (case f en of (r, en1) \<Rightarrow> (bindE r (\<lambda>_. Inr []), en1))"

text \<open>What the engine takes from outside: the printing of numbers and the orders of hash maps.\<close>

record 'd outside =
  os_stod :: "string \<Rightarrow> 'd result"
  os_to_string :: "'d \<Rightarrow> string"
  os_mean :: "int \<Rightarrow> int \<Rightarrow> string"
  os_tables :: "(string \<rightharpoonup> (string \<rightharpoonup> table_meta)) \<Rightarrow> (string \<times> string) list"
  os_columns :: "string list \<Rightarrow> string list"
  os_names :: "(string \<times> int) list \<Rightarrow> (string \<times> int) list"
  os_indicators :: "(string \<times> string) list"
  os_strategies :: "string list"
  os_other :: "db_call \<Rightarrow> engine \<Rightarrow> string result \<times> engine"

fun engine_call :: "'d outside \<Rightarrow> db_call \<Rightarrow> engine \<Rightarrow> string result \<times> engine" where
  "engine_call x (Generate_insert stmt) en = on_store (generate_insert stmt) en"
| "engine_call x (Handle_update stmt) en = on_store (handle_update stmt) en"
| "engine_call x (Handle_delete stmt) en = on_store (handle_delete stmt) en"
| "engine_call x (Handle_select stmt) en =
     (case handle_select (os_columns x) stmt (en_store en) of (r, s) \<Rightarrow> (r, en\<lparr>en_store := s\<rparr>))"
| "engine_call x (Exec_statistics stmt) en = (exec_statistics (os_mean x) stmt (en_store en), en)"
| "engine_call x (Generate_create_table stmt) en = on_store (generate_create (os_stod x) (os_to_string x) (os_tables x) stmt) en"
| "engine_call x (Generate_hft_create stmt) en = on_engine (generate_hft_create (os_stod x) (os_to_string x) stmt) en"
| "engine_call x (Generate_drop stmt) en = on_store (generate_drop (os_stod x) (os_to_string x) stmt) en"
| "engine_call x (Create_file p f) en = on_store (\<lambda>s. (Inr (), set_file p f s)) en"
| "engine_call x (Set_current_database db) en = on_store (\<lambda>s. (Inr (), s\<lparr>st_db := db\<rparr>)) en"
| "engine_call x (Change_current_db db) en = on_store (\<lambda>s. (Inr (), change_current_db db s)) en"
| "engine_call x Clear_caches en = on_store (\<lambda>s. (Inr (), s\<lparr>st_cache := Map.empty, st_trees := (\<lambda>_ _. [])\<rparr>)) en"
| "engine_call x Initial_database_load en = on_engine (initial_database_load (os_stod x) True) en"
| "engine_call x (Parsing_add_indicator stmt) en = on_hft (add_indicator (map fst (os_indicators x)) stmt) en"
| "engine_call x (Parsing_add_strategy stmt) en = on_hft (add_strategy (os_strategies x) stmt) en"
| "engine_call x (Parsing_fetch_indicator stmt) en = (fetch_indicators (os_names x) stmt (en_hft en), en)"
| "engine_call x c en = os_other x c en"

definition nano_engine :: "'d outside \<Rightarrow> engine backend" where
  "nano_engine x = \<lparr>bk_run = engine_call x, bk_check_table = (\<lambda>t en. check_table (os_stod x) t (en_store en)),
     bk_file_exists = (\<lambda>p en. check_if_file_exist (en_store en) p), bk_indicators = (\<lambda>_. os_indicators x)\<rparr>"

end
