(* ===== verification/Schema_Props.thy ===== *)
theory Schema_Props
  imports Nano_Engine Json_Props Table_Props Parse_Props
begin

text \<open>
  The life of a table: CREATE TABLE, the restart that reads the schema back, DROP TABLE; statistics over an index; and a
  session of SQL texts from the lexer to the files.
\<close>

section \<open>JSON objects of the schema\<close>

lemma object_of_ok: "sm_ok string_less (object_of kvs)"
proof -
  have "sm_ok string_less m \<Longrightarrow> sm_ok string_less (foldl (\<lambda>m (k, v). sm_insert string_less k v m) m kvs)" for m
    by (induction kvs arbitrary: m) (auto simp: keys.ok_insert)
  then show ?thesis by (simp add: object_of_def sm_ok_def)
qed

lemma all_sm_insert:
  assumes "P (k, v)" and "list_all P m"
  shows "list_all P (sm_insert string_less k v m)"
  using assms by (induction m) auto

lemma object_of_all: "list_all P kvs \<Longrightarrow> list_all P (object_of kvs)"
proof -
  have "list_all P m \<Longrightarrow> list_all P kvs \<Longrightarrow> list_all P (foldl (\<lambda>m (k, v). sm_insert string_less k v m) m kvs)" for m
    by (induction kvs arbitrary: m) (auto simp: all_sm_insert)
  then show "list_all P kvs \<Longrightarrow> list_all P (object_of kvs)" by (simp add: object_of_def)
qed

lemma printable_object_of:
  "list_all (\<lambda>(k, v). unescaped k \<and> printable sh rd v) kvs \<Longrightarrow> printable sh rd (J_object (object_of kvs))"
  by (simp add: object_of_ok object_of_all)

lemma unescaped_words:
  "unescaped ''name''" "unescaped ''precision''" "unescaped ''type''" "unescaped ''length''" "unescaped ''constraints''"
  "unescaped ''symbol''" "unescaped ''top''" "unescaped ''columns''" "unescaped ''tables''" "unescaped ''varchar''"
  "unescaped ''not_null''" "unescaped ''primary_key''" "unescaped ''unique''" "unescaped ''auto_increment''"
  by (simp_all add: unescaped_def)

section \<open>Columns\<close>

definition definition_ok :: "column_definition \<Rightarrow> bool" where
  "definition_ok c \<longleftrightarrow> unescaped (col_name c) \<and> unescaped (col_type c) \<and> INT32_MIN \<le> col_precision c \<and> col_precision c \<le> INT32_MAX"

text \<open>What loading makes of a column that CREATE has written.\<close>

definition reloaded :: "column_definition \<Rightarrow> column \<Rightarrow> column" where
  "reloaded c col = col\<lparr>co_constraint := concat (map constraint_text (col_constraints c)), co_precision := col_precision c\<rparr>"

lemma varchar_length_range: "varchar_length ty = Inr (Some n) \<Longrightarrow> INT32_MIN \<le> n \<and> n \<le> INT32_MAX"
  by (auto simp: varchar_length_def Let_def stoi_def sto_range_def split: if_splits sum.splits option.splits)

lemma printable_texts: "list_all (printable sh rd) (map J_string (concat (map constraint_text cs)))"
proof -
  have "list_all (printable sh rd) (map J_string (constraint_text c))" for c by (cases c) (simp_all add: unescaped_words)
  then show ?thesis by (induction cs) (auto simp: list_all_iff)
qed

lemma create_column_printable:
  assumes "create_column c = Inr (j, col)" and "definition_ok c"
  shows "printable sh rd j"
proof -
  obtain len where len: "varchar_length (col_type c) = Inr len" using assms(1) by (auto simp: create_column_def bindE_Inr)
  have "INT32_MIN \<le> n \<and> n \<le> INT32_MAX" if "len = Some n" for n using varchar_length_range len that by blast
  then show ?thesis using assms len printable_texts [of sh rd "col_constraints c"]
    by (auto simp: create_column_def Let_def definition_ok_def unescaped_words simp del: printable.simps(5)
        intro!: printable_object_of split: option.splits)
qed

lemma constraint_in_texts:
  "''primary_key'' \<in> set (concat (map constraint_text cs)) \<longleftrightarrow> PRIMARY_KEY \<in> set cs"
  "''unique'' \<in> set (concat (map constraint_text cs)) \<longleftrightarrow> UNIQUE \<in> set cs"
  "''auto_increment'' \<in> set (concat (map constraint_text cs)) \<longleftrightarrow> AUTO_INCREMENT \<in> set cs"
  "''create_index'' \<notin> set (concat (map constraint_text cs))"
proof -
  have t: "''primary_key'' \<in> set (constraint_text c) \<longleftrightarrow> c = PRIMARY_KEY" "''unique'' \<in> set (constraint_text c) \<longleftrightarrow> c = UNIQUE"
    "''auto_increment'' \<in> set (constraint_text c) \<longleftrightarrow> c = AUTO_INCREMENT" "''create_index'' \<notin> set (constraint_text c)" for c
    by (cases c; simp)+
  show "''primary_key'' \<in> set (concat (map constraint_text cs)) \<longleftrightarrow> PRIMARY_KEY \<in> set cs"
    "''unique'' \<in> set (concat (map constraint_text cs)) \<longleftrightarrow> UNIQUE \<in> set cs"
    "''auto_increment'' \<in> set (concat (map constraint_text cs)) \<longleftrightarrow> AUTO_INCREMENT \<in> set cs"
    "''create_index'' \<notin> set (concat (map constraint_text cs))"
    using t by auto
qed

lemma j_text_map: "map j_text (map J_string ts) = ts" "j_texts (map J_string ts) = ts"
  by (induction ts) (simp_all add: j_text_def j_texts_def)

lemma load_create_column:
  assumes "create_column c = Inr (j, col)"
  shows "load_column j = Inr (reloaded c col)"
proof -
  obtain len where len: "varchar_length (col_type c) = Inr len" using assms by (auto simp: create_column_def bindE_Inr)
  let ?ts = "concat (map constraint_text (col_constraints c))"
  show ?thesis
  proof (cases len)
    case None
    have j: "j = J_object [(''constraints'', J_array (map J_string ?ts)), (''name'', J_string (col_name c)),
        (''precision'', J_int (col_precision c)), (''type'', J_string (col_type c))]"
      using assms len None by (simp add: create_column_def Let_def object_of_def)
    have col: "col = (new_column (col_name c) (col_type c))\<lparr>co_autoIncrement := AUTO_INCREMENT \<in> set (col_constraints c),
        co_isUnique := UNIQUE \<in> set (col_constraints c), co_isPrimary := PRIMARY_KEY \<in> set (col_constraints c), co_length := INT32_MAX\<rparr>"
      using assms len None by (simp add: create_column_def Let_def)
    show ?thesis unfolding j col
      by (simp add: load_column_def j_key_def j_array_def j_has_def Let_def j_text_map(2) reloaded_def new_column_def
          constraint_in_texts j_text_def j_number_def comp_def del: set_concat set_map)
  next
    case (Some n)
    have j: "j = J_object [(''constraints'', J_array (map J_string ?ts)), (''length'', J_int n), (''name'', J_string (col_name c)),
        (''precision'', J_int (col_precision c)), (''type'', J_string ''varchar'')]"
      using assms len Some by (simp add: create_column_def Let_def object_of_def)
    have col: "col = (new_column (col_name c) ''varchar'')\<lparr>co_autoIncrement := AUTO_INCREMENT \<in> set (col_constraints c),
        co_isUnique := UNIQUE \<in> set (col_constraints c), co_isPrimary := PRIMARY_KEY \<in> set (col_constraints c), co_length := n\<rparr>"
      using assms len Some by (simp add: create_column_def Let_def)
    show ?thesis unfolding j col
      by (simp add: load_column_def j_key_def j_array_def j_has_def Let_def j_text_map(2) reloaded_def new_column_def j_to_int_def
          constraint_in_texts j_text_def j_number_def comp_def del: set_concat set_map)
  qed
qed

section \<open>Files and caches\<close>

lemma with_root_ok:
  "load_file rd (database_file (st_db s)) s = Some (root # vs) \<Longrightarrow> k root = Inr m \<Longrightarrow>
     with_root rd sh msg k s = (Inr (), save_file sh [J_object m] (database_file (st_db s)) s)"
  by (simp add: with_root_def Let_def)

lemma load_saved: "printable sh rd j \<Longrightarrow> st_files s p = Some (save_text sh [j]) \<Longrightarrow> load_file rd p s = Some [j]"
  using load_save_text [of sh rd "[j]"] by (simp add: load_file_def)

lemma load_file_cong: "st_files s p = st_files s' p \<Longrightarrow> load_file rd p s = load_file rd p s'"
  by (simp add: load_file_def)

lemma touch_db_sel [simp]:
  "st_db (snd (touch_db s)) = st_db s" "st_files (snd (touch_db s)) = st_files s" "st_trees (snd (touch_db s)) = st_trees s"
  "st_cache (snd (touch_db s)) = (st_cache s)(st_db s \<mapsto> fst (touch_db s))"
  by (simp_all add: touch_db_def Let_def)

lemma put_table_sel [simp]:
  "st_db (put_table t e s) = st_db s" "st_files (put_table t e s) = st_files s" "st_trees (put_table t e s) = st_trees s"
  "st_cache (put_table t e s) = (st_cache s)(st_db s \<mapsto> (fst (touch_db s))(t \<mapsto> e))"
  by (simp_all add: put_table_def touch_db_def Let_def)

lemma save_file_sel [simp]:
  "st_db (save_file sh vs p s) = st_db s" "st_cache (save_file sh vs p s) = st_cache s" "st_trees (save_file sh vs p s) = st_trees s"
  "st_files (save_file sh vs p s) = (st_files s)(p \<mapsto> save_text sh vs)"
  by (simp_all add: save_file_def set_file_def)

lemma create_files_sel [simp]:
  "st_db (create_files t s) = st_db s" "st_cache (create_files t s) = st_cache s" "st_trees (create_files t s) = st_trees s"
  "st_files (create_files t s) p = (if p \<in> path_of s t ` {''.index'', ''.data'', ''.delete''} then Some [] else st_files s p)"
  by (auto simp: create_files_def set_file_def)

lemma database_file_apart: "ext \<in> {''.index'', ''.data'', ''.delete''} \<Longrightarrow> database_file d \<noteq> table_path db t ext"
proof
  assume "ext \<in> {''.index'', ''.data'', ''.delete''}" "database_file d = table_path db t ext"
  then have "last (database_file d) = last ext" by (auto simp: table_path_def)
  then show False using \<open>ext \<in> _\<close> by (auto simp: database_file_def)
qed

section \<open>CREATE TABLE\<close>

lemma create_column_fields:
  assumes "create_column c = Inr (j, col)"
  shows "co_name col = col_name c" and "co_isPrimary col = (PRIMARY_KEY \<in> set (col_constraints c))"
  using assms by (auto simp: create_column_def bindE_Inr Let_def new_column_def)

lemma create_columns_all2: "create_columns cs = Inr xs \<Longrightarrow> list_all2 (\<lambda>c x. create_column c = Inr x) cs xs"
  by (induction cs arbitrary: xs) (auto simp: bindE_Inr)

definition keys_of :: "column_definition list \<Rightarrow> column_definition list" where
  "keys_of cs = filter (\<lambda>c. PRIMARY_KEY \<in> set (col_constraints c)) cs"

lemma create_columns_schema:
  assumes "create_columns cs = Inr xs"
  shows "map co_name (map snd xs) = map col_name cs" and "length (filter co_isPrimary (map snd xs)) = length (keys_of cs)"
proof -
  have "list_all2 (\<lambda>c x. create_column c = Inr x) cs xs" by (rule create_columns_all2 [OF assms])
  then have "map co_name (map snd xs) = map col_name cs \<and> length (filter co_isPrimary (map snd xs)) = length (keys_of cs)"
  proof (induction rule: list_all2_induct)
    case (Cons c cs x xs)
    then show ?case using create_column_fields [of c "fst x" "snd x"] by (simp add: keys_of_def)
  qed (simp add: keys_of_def)
  then show "map co_name (map snd xs) = map col_name cs" "length (filter co_isPrimary (map snd xs)) = length (keys_of cs)" by blast+
qed

lemma create_columns_printable:
  assumes "create_columns cs = Inr xs" and "list_all definition_ok cs"
  shows "list_all (printable sh rd) (map fst xs)"
proof -
  have "list_all2 (\<lambda>c x. create_column c = Inr x) cs xs" by (rule create_columns_all2 [OF assms(1)])
  then show ?thesis using assms(2)
  proof (induction rule: list_all2_induct)
    case (Cons c cs x xs)
    then show ?case using create_column_printable [of c "fst x" "snd x" sh rd] by simp
  qed simp
qed

text \<open>The table as CREATE writes it.\<close>

definition table_json :: "create_statement \<Rightarrow> ('d json \<times> column) list \<Rightarrow> 'd json" where
  "table_json stmt cols = J_object (object_of [(''name'', J_string (cr_name stmt)), (''symbol'', J_int (cr_symbol stmt)),
     (''top'', J_bool (cr_top stmt)), (''columns'', J_array (map fst cols))])"

lemma table_json_eq:
  "table_json stmt cols = J_object [(''columns'', J_array (map fst cols)), (''name'', J_string (cr_name stmt)),
     (''symbol'', J_int (cr_symbol stmt)), (''top'', J_bool (cr_top stmt))]"
  by (simp add: table_json_def object_of_def)

text \<open>
  A statement that can be executed: its columns are well formed, one of them is the key, the names can be written to
  JSON, the database file holds an array \<open>ts\<close> of tables, none of which has the name, and neither has a cached one.
\<close>

definition creatable :: "(string \<Rightarrow> 'd result) \<Rightarrow> ('d \<Rightarrow> string) \<Rightarrow> create_statement \<Rightarrow> ('d json \<times> column) list \<Rightarrow>
    (string \<times> 'd json) list \<Rightarrow> 'd json list \<Rightarrow> store \<Rightarrow> bool" where
  "creatable rd sh stmt cols m ts s \<longleftrightarrow>
     create_columns (cr_columns stmt) = Inr cols \<and> list_all definition_ok (cr_columns stmt) \<and>
     distinct (map col_name (cr_columns stmt)) \<and> length (keys_of (cr_columns stmt)) = 1 \<and>
     unescaped (cr_name stmt) \<and> plain (cr_name stmt) \<and> cr_symbol stmt = - 1 \<and> plain (st_db s) \<and>
     (\<exists>vs. load_file rd (database_file (st_db s)) s = Some (J_object m # vs)) \<and> printable sh rd (J_object m) \<and>
     sm_find ''tables'' m = Some (J_array ts) \<and> named_table (cr_name stmt) ts = Inr False \<and>
     (\<forall>db c. st_cache s db = Some c \<longrightarrow> c (cr_name stmt) = None)"

lemma creatable_facts:
  assumes "creatable rd sh stmt cols m ts s"
  shows "printable sh rd (J_object (add_table (table_json stmt cols) m))"
    and "sm_find ''tables'' (add_table (table_json stmt cols) m) = Some (J_array (ts @ [table_json stmt cols]))"
    and "schema_ok (map snd cols)" and "fst (touch_db s) (cr_name stmt) = None"
proof -
  have c: "create_columns (cr_columns stmt) = Inr cols" "list_all definition_ok (cr_columns stmt)"
      "distinct (map col_name (cr_columns stmt))" "length (keys_of (cr_columns stmt)) = 1"
      "unescaped (cr_name stmt)" "cr_symbol stmt = - 1" "printable sh rd (J_object m)" "sm_find ''tables'' m = Some (J_array ts)"
    using assms by (simp_all add: creatable_def)
  have ok: "sm_ok string_less m" using c(7) by simp
  have t: "printable sh rd (table_json stmt cols)"
    unfolding table_json_def using create_columns_printable [OF c(1,2), of sh rd] c(5,6)
    by (intro printable_object_of) (simp add: unescaped_words int_limits)
  have "(''tables'', J_array ts) \<in> set m" by (rule sm_find_SomeD [OF c(8)])
  then have "list_all (printable sh rd) ts" using c(7) by (fastforce simp: list_all_iff)
  then have "printable sh rd (J_array (ts @ [table_json stmt cols]))" using t by simp
  then show "printable sh rd (J_object (add_table (table_json stmt cols) m))"
    using c(7) by (auto simp: add_table_def c(8) unescaped_words intro: keys.ok_insert all_sm_insert)
  show "sm_find ''tables'' (add_table (table_json stmt cols) m) = Some (J_array (ts @ [table_json stmt cols]))"
    by (simp add: add_table_def c(8) keys.find_insert [OF ok])
  show "schema_ok (map snd cols)" using create_columns_schema [OF c(1)] c(3,4) by (simp add: schema_ok_def)
  show "fst (touch_db s) (cr_name stmt) = None"
    using assms by (auto simp: creatable_def touch_db_def Let_def split: option.splits)
qed

text \<open>The store before the index trees are loaded.\<close>

definition created :: "('d \<Rightarrow> string) \<Rightarrow> create_statement \<Rightarrow> ('d json \<times> column) list \<Rightarrow> (string \<times> 'd json) list \<Rightarrow> store \<Rightarrow> store" where
  "created sh stmt cols m s =
     create_files (cr_name stmt) (put_table (cr_name stmt) (show_int (cr_symbol stmt), map snd cols)
       (save_file sh [J_object (add_table (table_json stmt cols) m)] (database_file (st_db s)) (snd (touch_db s))))"

lemma generate_create_steps:
  assumes "creatable rd sh stmt cols m ts s"
  shows "generate_create rd sh order stmt s =
    init_index_trees (filter (\<lambda>(db, u). u = cr_name stmt) (order (st_cache (created sh stmt cols m s)))) (created sh stmt cols m s)"
proof -
  have c: "create_columns (cr_columns stmt) = Inr cols" using assms by (simp add: creatable_def)
  have "load_file rd (database_file (st_db s)) (snd (touch_db s)) = load_file rd (database_file (st_db s)) s"
    by (simp add: load_file_def)
  then obtain vs where l: "load_file rd (database_file (st_db (snd (touch_db s)))) (snd (touch_db s)) = Some (J_object m # vs)"
    using assms by (auto simp: creatable_def)
  obtain tb s1 where ts: "touch_db s = (tb, s1)" by fastforce
  have n: "tb (cr_name stmt) = None" using creatable_facts(4) [OF assms] ts by simp
  show ?thesis
    using l n by (simp add: generate_create_def c Let_def ts with_root_ok [where vs = vs] table_json_def [symmetric]
        created_def del: split_paired_All) (metis snd_conv touch_db_sel(1) ts)
qed

lemma show_minus_1: "show_int (- 1) = ''-1''"
  by code_simp

lemma created_facts:
  assumes "creatable rd sh stmt cols m ts s"
  defines "s1 \<equiv> created sh stmt cols m s"
  shows "st_db s1 = st_db s" and "st_trees s1 = st_trees s"
    and "st_cache s1 = (st_cache s)(st_db s \<mapsto> (fst (touch_db s))(cr_name stmt \<mapsto> (''-1'', map snd cols)))"
    and "ext \<in> {''.index'', ''.data'', ''.delete''} \<Longrightarrow> st_files s1 (path_of s (cr_name stmt) ext) = Some []"
    and "p \<notin> path_of s (cr_name stmt) ` {''.index'', ''.data'', ''.delete''} \<Longrightarrow> p \<noteq> database_file (st_db s) \<Longrightarrow>
      st_files s1 p = st_files s p"
    and "load_file rd (database_file (st_db s)) s1 = Some [J_object (add_table (table_json stmt cols) m)]"
proof -
  have sy: "show_int (cr_symbol stmt) = ''-1''" using assms(1) by (simp add: creatable_def show_minus_1)
  show "st_db s1 = st_db s" "st_trees s1 = st_trees s" by (simp_all add: s1_def created_def)
  show "st_cache s1 = (st_cache s)(st_db s \<mapsto> (fst (touch_db s))(cr_name stmt \<mapsto> (''-1'', map snd cols)))"
    by (simp add: s1_def created_def sy touch_db_def [of "save_file _ _ _ _"] Let_def)
  show "ext \<in> {''.index'', ''.data'', ''.delete''} \<Longrightarrow> st_files s1 (path_of s (cr_name stmt) ext) = Some []"
    by (simp add: s1_def created_def)
  show "p \<notin> path_of s (cr_name stmt) ` {''.index'', ''.data'', ''.delete''} \<Longrightarrow> p \<noteq> database_file (st_db s) \<Longrightarrow>
      st_files s1 p = st_files s p"
    by (simp add: s1_def created_def)
  have "st_files s1 (database_file (st_db s)) = Some (save_text sh [J_object (add_table (table_json stmt cols) m)])"
    using database_file_apart by (auto simp: s1_def created_def)
  then show "load_file rd (database_file (st_db s)) s1 = Some [J_object (add_table (table_json stmt cols) m)]"
    using creatable_facts(1) [OF assms(1)] by (intro load_saved)
qed

section \<open>The index trees of a new table\<close>

lemma index_rows_empty: "index_rows n [] = []"
  by (simp add: index_rows_def row_count_def)

lemma set_trees_fields [simp]:
  "st_db (set_trees t ts s) = st_db s" "st_files (set_trees t ts s) = st_files s" "st_cache (set_trees t ts s) = st_cache s"
  "trees_of (set_trees t ts s) t = ts"
  by (simp_all add: set_trees_def)

lemma set_trees_twice: "set_trees t us (set_trees t ts s) = set_trees t us s" "set_trees t (trees_of s t) s = s"
  by (simp_all add: set_trees_def)

text \<open>
  The index a column of a new table is to have: an empty tree of integers for a primary key or a unique column of type
  \<open>int\<close>, an empty tree of texts for a unique column of type \<open>varchar\<close>, and no tree otherwise.
\<close>

definition wanted_tree :: "column \<Rightarrow> index_tree option" where
  "wanted_tree c =
     (if co_type c = ''int'' \<and> (co_isPrimary c \<or> co_isUnique c) then Some (Int_Tree empty_tree)
      else if co_type c = ''varchar'' \<and> \<not> co_isPrimary c \<and> co_isUnique c then Some (Str_Tree empty_tree)
      else None)"

definition with_tree :: "string \<Rightarrow> index_tree \<Rightarrow> (string \<times> index_tree) list \<Rightarrow> (string \<times> index_tree) list" where
  "with_tree c tr ts =
     (if c \<in> fst ` set ts then map (\<lambda>(c1, t1). (c1, if c1 = c then tr else t1)) ts else ts @ [(c, tr)])"

fun new_trees :: "column list \<Rightarrow> (string \<times> index_tree) list \<Rightarrow> (string \<times> index_tree) list" where
  "new_trees [] ts = ts"
| "new_trees (c # cs) ts =
     new_trees cs (case wanted_tree c of None \<Rightarrow> ts | Some tr \<Rightarrow> with_tree (co_name c) tr ts)"

lemma map_of_with_tree: "map_of (with_tree c tr ts) = (map_of ts)(c \<mapsto> tr)"
proof (cases "c \<in> fst ` set ts")
  case True
  have "map_of (map (\<lambda>(c1, t1). (c1, if c1 = c then tr else t1)) us) n =
      (if n = c then if c \<in> fst ` set us then Some tr else None else map_of us n)" for us n
    by (induction us) (auto simp: rev_image_eqI)
  then show ?thesis using True by (auto simp: with_tree_def fun_eq_iff)
next
  case False
  then have "map_of ts c = None" by (simp add: map_of_eq_None_iff)
  then show ?thesis using False by (auto simp: with_tree_def fun_eq_iff map_add_def split: option.splits)
qed

lemma with_tree_twice: "with_tree c tr (with_tree c tr ts) = with_tree c tr ts"
proof (cases "c \<in> fst ` set ts")
  case True
  then have "c \<in> fst ` set (with_tree c tr ts)" by (force simp: with_tree_def)
  then have "with_tree c tr (with_tree c tr ts) = map (\<lambda>(c1, t1). (c1, if c1 = c then tr else t1)) (with_tree c tr ts)"
    by (simp add: with_tree_def [of c tr "with_tree c tr ts"])
  then show ?thesis using True by (auto simp: with_tree_def)
next
  case False
  then have "map (\<lambda>(c1, t1). (c1, if c1 = c then tr else t1)) ts = ts" by (intro map_idI) force
  then show ?thesis using False by (simp add: with_tree_def)
qed

lemma map_of_new_trees:
  "distinct (map co_name cs) \<Longrightarrow> c \<in> set cs \<Longrightarrow> wanted_tree c = Some tr \<Longrightarrow> map_of (new_trees cs ts) (co_name c) = Some tr"
  "\<forall>c \<in> set cs. co_name c = n \<longrightarrow> wanted_tree c = None \<Longrightarrow> map_of (new_trees cs ts) n = map_of ts n"
proof -
  have other: "map_of (new_trees cs ts) n = map_of ts n" if "\<forall>c \<in> set cs. co_name c = n \<longrightarrow> wanted_tree c = None" for cs ts n
    using that by (induction cs arbitrary: ts) (auto simp: map_of_with_tree split: option.split)
  show "\<forall>c \<in> set cs. co_name c = n \<longrightarrow> wanted_tree c = None \<Longrightarrow> map_of (new_trees cs ts) n = map_of ts n" by (rule other)
  show "distinct (map co_name cs) \<Longrightarrow> c \<in> set cs \<Longrightarrow> wanted_tree c = Some tr \<Longrightarrow> map_of (new_trees cs ts) (co_name c) = Some tr"
  proof (induction cs arbitrary: ts)
    case (Cons d cs)
    show ?case
    proof (cases "d = c")
      case True
      then have "map_of (new_trees cs (with_tree (co_name c) tr ts)) (co_name c) = map_of (with_tree (co_name c) tr ts) (co_name c)"
        using Cons.prems(1) by (intro other) (force simp: image_iff)
      then show ?thesis using Cons.prems(3) True by (simp add: map_of_with_tree)
    next
      case False
      then show ?thesis using Cons by auto
    qed
  qed simp
qed

lemma empty_trees_ok: "tree_ok 0 (Int_Tree empty_tree)" "tree_ok 0 (Str_Tree empty_tree)"
  using asks.bp_empty strings.bp_empty by (auto simp: empty_tree_def)

lemma new_trees_ok: "trees_ok 0 ts \<Longrightarrow> trees_ok 0 (new_trees cs ts)"
proof (induction cs arbitrary: ts)
  case (Cons c cs)
  have "trees_ok 0 (with_tree (co_name c) tr ts)" if "wanted_tree c = Some tr" for tr
  proof -
    have "tree_ok 0 tr" using that empty_trees_ok by (auto simp: wanted_tree_def simp del: tree_ok.simps split: if_splits)
    then show ?thesis using Cons.prems by (auto simp: with_tree_def trees_ok_def)
  qed
  then show ?case using Cons by (auto split: option.split)
qed simp

lemma put_tree_with: "put_tree (st_db s) t c tr s = set_trees t (with_tree c tr (trees_of s t)) s"
  by (simp add: put_tree_def with_tree_def Let_def set_trees_def)

lemma fill_empty_tree:
  assumes "check_if_file_exist s (path_of s t ''.index'')" and "fill tr = Inr tr"
  shows "fill_tree (st_db s) t c tr fill s = (Inr (), set_trees t (with_tree c tr (trees_of s t)) s)"
proof -
  let ?s = "set_trees t (with_tree c tr (trees_of s t)) s"
  have "put_tree (st_db s) t c tr ?s = ?s"
    using put_tree_with [of ?s t c tr] by (simp add: set_trees_twice with_tree_twice)
  then show ?thesis using assms by (simp add: fill_tree_def Let_def put_tree_with)
qed

lemma init_tree_empty:
  assumes "check_if_file_exist s (path_of s t ''.index'')" and "content s (path_of s t ''.index'') = []"
  shows "init_tree (st_db s) t cols c s =
    (Inr (), set_trees t (case wanted_tree c of None \<Rightarrow> trees_of s t | Some tr \<Rightarrow> with_tree (co_name c) tr (trees_of s t)) s)"
  unfolding init_tree_def Let_def assms(2) index_rows_empty
  by (simp add: fill_empty_tree [OF assms(1)] wanted_tree_def set_trees_twice)

lemma init_trees_empty:
  assumes "check_if_file_exist s (path_of s t ''.index'')" and "content s (path_of s t ''.index'') = []"
  shows "init_trees (st_db s) t cols cs s = (Inr (), set_trees t (new_trees cs (trees_of s t)) s)"
  using assms
proof (induction cs arbitrary: s)
  case Nil
  then show ?case by (simp add: set_trees_twice)
next
  case (Cons c cs)
  let ?ts = "case wanted_tree c of None \<Rightarrow> trees_of s t | Some tr \<Rightarrow> with_tree (co_name c) tr (trees_of s t)"
  have "init_trees (st_db s) t cols cs (set_trees t ?ts s) =
      (Inr (), set_trees t (new_trees cs ?ts) (set_trees t ?ts s))"
    using Cons.IH [of "set_trees t ?ts s"] Cons.prems by (simp add: check_if_file_exist_def content_def)
  then show ?case using init_tree_empty [OF Cons.prems] by (simp add: set_trees_twice)
qed

text \<open>An order of the cache: the names of its tables, each once.\<close>

definition lists_cache :: "((string \<rightharpoonup> (string \<rightharpoonup> table_meta)) \<Rightarrow> (string \<times> string) list) \<Rightarrow>
    (string \<rightharpoonup> (string \<rightharpoonup> table_meta)) \<Rightarrow> bool" where
  "lists_cache order c \<longleftrightarrow> distinct (order c) \<and> set (order c) = {(db, t). \<exists>m. c db = Some m \<and> m t \<noteq> None}"

lemma distinct_only: "distinct xs \<Longrightarrow> set xs = {x} \<Longrightarrow> xs = [x]"
  by (cases xs) (auto simp: subset_singleton_iff)

lemma generate_create_rel:
  assumes "creatable rd sh stmt cols m ts s" and "lists_cache order (st_cache (created sh stmt cols m s))"
  shows "generate_create rd sh order stmt s =
    (Inr (), set_trees (cr_name stmt) (new_trees (map snd cols) (trees_of s (cr_name stmt))) (created sh stmt cols m s))"
proof -
  let ?s = "created sh stmt cols m s" and ?t = "cr_name stmt"
  note f = created_facts [OF assms(1)]
  have n: "db = st_db s" if "st_cache ?s db = Some c" "c ?t \<noteq> None" for db c
    using that assms(1) unfolding creatable_def by (metis f(3) fun_upd_other)
  have "set (order (st_cache ?s)) = {(db, t). \<exists>m. st_cache ?s db = Some m \<and> m t \<noteq> None}"
    using assms(2) unfolding lists_cache_def by blast
  then have "set (filter (\<lambda>(db, u). u = ?t) (order (st_cache ?s))) = {(db, u). u = ?t \<and> (\<exists>m. st_cache ?s db = Some m \<and> m u \<noteq> None)}"
    by auto
  also have "\<dots> = {(st_db s, ?t)}"
  proof -
    have "\<exists>m. st_cache ?s (st_db s) = Some m \<and> m ?t \<noteq> None" by (simp add: f(3))
    then show ?thesis using n by blast
  qed
  finally have "set (filter (\<lambda>(db, u). u = ?t) (order (st_cache ?s))) = {(st_db s, ?t)}" .
  then have o: "filter (\<lambda>(db, u). u = ?t) (order (st_cache ?s)) = [(st_db s, ?t)]"
    using assms(2) by (intro distinct_only) (simp_all add: lists_cache_def)
  have "plain (st_db ?s)" "plain ?t" using assms(1) by (simp_all add: creatable_def f(1))
  then have x: "check_if_file_exist ?s (path_of ?s ?t ''.index'')"
    using plain_path [of ?s ?t "''.index''"] f(4) [of "''.index''"] by (simp add: f(1))
  have c: "content ?s (path_of ?s ?t ''.index'') = []" using f(4) [of "''.index''"] by (simp add: f(1) content_def)
  have "init_trees (st_db s) ?t (map snd cols) (map snd cols) ?s =
      (Inr (), set_trees ?t (new_trees (map snd cols) (trees_of s ?t)) ?s)"
    using init_trees_empty [OF x c, of "map snd cols" "map snd cols"] by (simp add: f(1,2))
  then show ?thesis unfolding generate_create_steps [OF assms(1)] o by (simp add: f(3))
qed

lemma plain_database_file: "plain db \<Longrightarrow> check_if_file_exist s (database_file db) = (st_files s (database_file db) \<noteq> None)"
proof -
  assume "plain db"
  then have "filter (\<lambda>c. c \<noteq> CHR 0x0D \<and> c \<noteq> CHR 0x0A) (database_file db) = database_file db"
    by (intro filter_True) (auto simp: database_file_def plain_def)
  then show ?thesis by (simp add: check_if_file_exist_def)
qed

lemma named_table_append: "named_table t ts = Inr False \<Longrightarrow> named_table t (ts @ us) = named_table t us"
  by (induction ts) (auto simp: bindE_Inr split: if_splits)

lemma named_table_new: "named_table (cr_name stmt) [table_json stmt cols] = Inr True"
  by (simp add: table_json_eq j_key_def j_to_string_def)

lemma check_table_in:
  assumes "plain (st_db s)" and "load_file rd (database_file (st_db s)) s = Some (J_object m # vs)"
    and "sm_find ''tables'' m = Some (J_array ts)" and "named_table t ts = Inr True"
  shows "check_table rd t s = Inr (True, [])"
proof -
  have "check_if_file_exist s (database_file (st_db s))"
    using assms(2) by (auto simp: plain_database_file [OF assms(1)] load_file_def split: option.splits)
  then show ?thesis by (simp add: check_table_def assms j_key_def j_array_def)
qed

lemma generate_create_empty:
  assumes "creatable rd sh stmt cols m ts s" and "lists_cache order (st_cache (created sh stmt cols m s))"
  shows "\<exists>s'. generate_create rd sh order stmt s = (Inr (), s') \<and> st_db s' = st_db s \<and>
    table_rel s' (cr_name stmt) (map snd cols) [] \<and> data_size s' (cr_name stmt) = 0 \<and>
    (\<forall>c \<in> set (map snd cols). \<forall>tr. wanted_tree c = Some tr \<longrightarrow> map_of (trees_of s' (cr_name stmt)) (co_name c) = Some tr) \<and>
    (\<forall>n. (\<forall>c \<in> set (map snd cols). co_name c = n \<longrightarrow> wanted_tree c = None) \<longrightarrow>
       map_of (trees_of s' (cr_name stmt)) n = map_of (trees_of s (cr_name stmt)) n) \<and>
    (trees_ok 0 (trees_of s (cr_name stmt)) \<longrightarrow> trees_ok 0 (trees_of s' (cr_name stmt))) \<and>
    check_table rd (cr_name stmt) s' = Inr (True, []) \<and>
    load_file rd (database_file (st_db s)) s' = Some [J_object (add_table (table_json stmt cols) m)] \<and>
    (\<forall>p. p \<notin> insert (database_file (st_db s)) (path_of s (cr_name stmt) ` {''.index'', ''.data'', ''.delete''}) \<longrightarrow>
       st_files s' p = st_files s p) \<and>
    (\<forall>u. u \<noteq> cr_name stmt \<longrightarrow> fst (touch_db s') u = fst (touch_db s) u) \<and>
    (\<forall>db. db \<noteq> st_db s \<longrightarrow> st_cache s' db = st_cache s db) \<and>
    (\<forall>db u. (db, u) \<noteq> (st_db s, cr_name stmt) \<longrightarrow> st_trees s' db u = st_trees s db u)"
proof -
  let ?s = "created sh stmt cols m s" and ?t = "cr_name stmt"
  note f = created_facts [OF assms(1)]
  define us where "us = new_trees (map snd cols) (trees_of s ?t)"
  have us: "generate_create rd sh order stmt s = (Inr (), set_trees ?t us ?s)"
    using generate_create_rel [OF assms] by (simp add: us_def)
  have pl: "plain (st_db s)" "plain ?t" "named_table ?t ts = Inr False" using assms(1) by (simp_all add: creatable_def)
  have sch: "schema_ok (map snd cols)" by (rule creatable_facts(3) [OF assms(1)])
  then have "0 < length (map snd cols)" by (auto simp: schema_ok_def)
  then have rel: "table_rel (set_trees ?t us ?s) ?t (map snd cols) []"
    unfolding table_rel_trees using table_empty sch pl f(4)
    by (simp add: table_rel_def cached_def f(1,3) content_def)
  have load: "load_file rd (database_file (st_db s)) (set_trees ?t us ?s) = Some [J_object (add_table (table_json stmt cols) m)]"
    using f(6) by (simp add: load_file_def)
  have "named_table ?t (ts @ [table_json stmt cols]) = Inr True"
    by (simp only: named_table_append [OF pl(3)] named_table_new)
  then have "check_table rd ?t (set_trees ?t us ?s) = Inr (True, [])"
    using check_table_in [of "set_trees ?t us ?s"] load pl(1) creatable_facts(2) [OF assms(1)] by (simp add: f(1))
  moreover have "data_size (set_trees ?t us ?s) ?t = 0"
    using f(4) [of "''.data''"] by (simp add: data_size_def get_file_size_def content_def f(1))
  moreover have "fst (touch_db (set_trees ?t us ?s)) u = fst (touch_db s) u" if "u \<noteq> ?t" for u
    using that by (simp add: touch_db_def [of "set_trees _ _ _"] f(1,3) Let_def)
  moreover have "map_of us (co_name c) = Some tr" if "c \<in> set (map snd cols)" "wanted_tree c = Some tr" for c tr
    unfolding us_def by (rule map_of_new_trees(1) [OF _ that]) (use sch in \<open>simp add: schema_ok_def\<close>)
  moreover have "map_of us n = map_of (trees_of s ?t) n"
    if "\<forall>c \<in> set (map snd cols). co_name c = n \<longrightarrow> wanted_tree c = None" for n
    unfolding us_def by (rule map_of_new_trees(2) [OF that])
  moreover have "trees_ok 0 (trees_of s ?t) \<Longrightarrow> trees_ok 0 us" unfolding us_def by (rule new_trees_ok)
  moreover have "st_trees (set_trees ?t us ?s) db u = st_trees s db u" if "(db, u) \<noteq> (st_db s, ?t)" for db u
    using that by (auto simp: set_trees_def f(1,2))
  ultimately show ?thesis using us rel load f(1,3,5) by (intro exI [of _ "set_trees ?t us ?s"]) simp
qed

text \<open>
  C22. CREATE TABLE makes an empty table. Its statement gives a table that stands for no rows, with empty files, that
  \<open>checkIfTableExist\<close> finds. Every column that is to have an index (\<open>wanted_tree\<close>) has an empty tree of its type, whatever was
  there before (DROP leaves the trees of a table behind); under other names the trees of the table are what they were. The JSON file of the database has one
  more table, and no other file, no other table of the cache, of this or another database, and no tree of another table changes.
\<close>

theorem create_refines:
  assumes "creatable rd sh stmt cols m ts s" and "lists_cache order (st_cache (created sh stmt cols m s))"
  shows "\<exists>s'. generate_create rd sh order stmt s = (Inr (), s') \<and> st_db s' = st_db s \<and>
    table_rel s' (cr_name stmt) (map snd cols) [] \<and> data_size s' (cr_name stmt) = 0 \<and>
    (\<forall>c \<in> set (map snd cols). \<forall>tr. wanted_tree c = Some tr \<longrightarrow> map_of (trees_of s' (cr_name stmt)) (co_name c) = Some tr) \<and>
    (\<forall>n. (\<forall>c \<in> set (map snd cols). co_name c = n \<longrightarrow> wanted_tree c = None) \<longrightarrow>
       map_of (trees_of s' (cr_name stmt)) n = map_of (trees_of s (cr_name stmt)) n) \<and>
    (trees_ok 0 (trees_of s (cr_name stmt)) \<longrightarrow> trees_ok 0 (trees_of s' (cr_name stmt))) \<and>
    check_table rd (cr_name stmt) s' = Inr (True, []) \<and>
    load_file rd (database_file (st_db s)) s' = Some [J_object (add_table (table_json stmt cols) m)] \<and>
    (\<forall>p. p \<notin> insert (database_file (st_db s)) (path_of s (cr_name stmt) ` {''.index'', ''.data'', ''.delete''}) \<longrightarrow>
       st_files s' p = st_files s p) \<and>
    (\<forall>u. u \<noteq> cr_name stmt \<longrightarrow> fst (touch_db s') u = fst (touch_db s) u) \<and>
    (\<forall>db. db \<noteq> st_db s \<longrightarrow> st_cache s' db = st_cache s db) \<and>
    (\<forall>db u. (db, u) \<noteq> (st_db s, cr_name stmt) \<longrightarrow> st_trees s' db u = st_trees s db u)"
  by (rule generate_create_empty [OF assms])

text \<open>A database without tables and a statement for the witnesses.\<close>

definition no_tables :: "(string \<times> string json) list" where
  "no_tables = [(''name'', J_string ''d''), (''tables'', J_array [])]"

definition empty_database :: store where
  "empty_database = \<lparr>st_files = [meta_file \<mapsto> ''{\"current_db\":\"d\"}'',
     database_file ''d'' \<mapsto> save_text (\<lambda>d. d) [J_object no_tables]], st_db = ''d'',
     st_cache = Map.empty, st_trees = (\<lambda>_ _. [])\<rparr>"

definition create_people :: create_statement where
  "create_people = new_create\<lparr>cr_name := ''t'', cr_columns :=
     [\<lparr>col_name = ''id'', col_type = ''int'', col_precision = 0, col_constraints = [PRIMARY_KEY]\<rparr>,
      \<lparr>col_name = ''name'', col_type = ''varchar(10)'', col_precision = 0, col_constraints = [NOT_NULL]\<rparr>]\<rparr>"

definition people_columns :: "(string json \<times> column) list" where
  "people_columns = (case create_columns (cr_columns create_people) of Inl e \<Rightarrow> [] | Inr cols \<Rightarrow> cols)"

lemma people_created: "create_columns (cr_columns create_people) = Inr people_columns"
proof -
  have "\<not> (case (create_columns (cr_columns create_people) :: (string json \<times> column) list result) of Inl e \<Rightarrow> True | Inr cols \<Rightarrow> False)"
    by code_simp
  then show ?thesis by (simp add: people_columns_def split: sum.splits)
qed

lemma empty_database_creatable:
  "creatable text_double (\<lambda>d. d) create_people people_columns no_tables [] empty_database"
proof -
  have p: "printable (\<lambda>d. d) text_double (J_object no_tables)" by code_simp
  then have "load_file text_double (database_file ''d'') empty_database = Some [J_object no_tables]"
    by (intro load_saved) (simp_all add: empty_database_def)
  then show ?thesis using p people_created
    by (simp add: creatable_def empty_database_def plain_def no_tables_def)
      (simp add: create_people_def new_create_def definition_ok_def unescaped_def int_limits keys_of_def)
qed

lemma empty_database_ready:
  "lists_cache (\<lambda>_. [(''d'', ''t'')]) (st_cache (created (\<lambda>d. d) create_people people_columns no_tables empty_database))"
  "trees_ok 0 (trees_of empty_database (cr_name create_people))"
  unfolding created_facts(3) [OF empty_database_creatable] lists_cache_def
  by (auto simp: empty_database_def touch_db_def Let_def create_people_def trees_ok_def split: if_splits)

lemma people_created_empty:
  obtains us where
    "generate_create text_double (\<lambda>d. d) (\<lambda>_. [(''d'', ''t'')]) create_people empty_database = (Inr (), us)"
    "table_rel us ''t'' (map snd people_columns) []" "data_size us ''t'' = 0" "check_table text_double ''t'' us = Inr (True, [])"
    "st_db us = ''d''"
    "\<forall>p. p \<notin> insert (database_file ''d'') (path_of empty_database ''t'' ` {''.index'', ''.data'', ''.delete''}) \<longrightarrow>
       st_files us p = st_files empty_database p"
proof -
  have t: "cr_name create_people = ''t''" "st_db empty_database = ''d''" by (simp_all add: create_people_def empty_database_def)
  from generate_create_empty [OF empty_database_creatable empty_database_ready(1), unfolded t]
  show thesis by (elim exE conjE) (rule that; (assumption | simp only: t))
qed

lemma people_indexes:
  "\<exists>c \<in> set (map snd people_columns). co_name c = ''id'' \<and> wanted_tree c = Some (Int_Tree empty_tree)"
  "\<forall>c \<in> set (map snd people_columns). co_name c = ''name'' \<longrightarrow> wanted_tree c = None"
proof -
  have "list_ex (\<lambda>c. co_name c = ''id'' \<and> co_type c = ''int'' \<and> co_isPrimary c) (map snd people_columns) \<and>
      list_all (\<lambda>c. co_name c = ''name'' \<longrightarrow> \<not> co_isPrimary c \<and> \<not> co_isUnique c) (map snd people_columns)"
    by code_simp
  then show "\<exists>c \<in> set (map snd people_columns). co_name c = ''id'' \<and> wanted_tree c = Some (Int_Tree empty_tree)"
    "\<forall>c \<in> set (map snd people_columns). co_name c = ''name'' \<longrightarrow> wanted_tree c = None"
    unfolding list_ex_iff list_all_iff wanted_tree_def by (fastforce simp del: set_map)+
qed

lemma create_refines_witness:
  "\<exists>s. generate_create text_double (\<lambda>d. d) (\<lambda>_. [(''d'', ''t'')]) create_people empty_database = (Inr (), s) \<and>
     table_rel s ''t'' (map snd people_columns) [] \<and> check_table text_double ''t'' s = Inr (True, []) \<and>
     map_of (trees_of s ''t'') ''id'' = Some (Int_Tree empty_tree) \<and> map_of (trees_of s ''t'') ''name'' = None"
proof -
  have t: "cr_name create_people = ''t''" by (simp add: create_people_def)
  obtain c where c: "c \<in> set (map snd people_columns)" "co_name c = ''id''" "wanted_tree c = Some (Int_Tree empty_tree)"
    using people_indexes(1) by blast
  obtain s where s: "generate_create text_double (\<lambda>d. d) (\<lambda>_. [(''d'', ''t'')]) create_people empty_database = (Inr (), s)"
    "table_rel s ''t'' (map snd people_columns) []" "check_table text_double ''t'' s = Inr (True, [])"
    and w: "\<forall>c \<in> set (map snd people_columns). \<forall>tr. wanted_tree c = Some tr \<longrightarrow> map_of (trees_of s ''t'') (co_name c) = Some tr"
    and o: "\<forall>n. (\<forall>c \<in> set (map snd people_columns). co_name c = n \<longrightarrow> wanted_tree c = None) \<longrightarrow>
       map_of (trees_of s ''t'') n = map_of (trees_of empty_database ''t'') n"
    using create_refines [OF empty_database_creatable empty_database_ready(1), unfolded t] by (elim exE conjE) (rule that)
  have "map_of (trees_of s ''t'') ''id'' = Some (Int_Tree empty_tree)" using w c by metis
  moreover have "map_of (trees_of s ''t'') ''name'' = map_of (trees_of empty_database ''t'') ''name''"
    using o people_indexes(2) by blast
  then have "map_of (trees_of s ''t'') ''name'' = None" by (simp add: empty_database_def)
  ultimately show ?thesis using s by blast
qed

section \<open>DROP TABLE after CREATE TABLE\<close>

lemma j_key_Inr: "j_key k j = Inr v \<longleftrightarrow> (\<exists>m. j = J_object m \<and> sm_find k m = Some v)"
  by (simp add: j_key_def split: json.splits option.splits)

lemma j_to_string_Inr: "j_to_string j = Inr t \<longleftrightarrow> j = J_string t"
  by (simp add: j_to_string_def split: json.splits)

lemma drop_from_absent: "named_table t ts = Inr False \<Longrightarrow> drop_from t (ts @ us) = bindE (drop_from t us) (\<lambda>vs. Inr (ts @ vs))"
proof (induction ts)
  case Nil
  then show ?case by (cases "drop_from t us") simp_all
next
  case (Cons j ts)
  then obtain m n where "j = J_object m" "sm_find ''name'' m = Some (J_string n)" "n \<noteq> t" "named_table t ts = Inr False"
    by (auto simp: bindE_Inr j_key_Inr j_to_string_Inr split: if_splits)
  then show ?case using Cons.IH by (cases "drop_from t us") (simp_all add: get_object_def)
qed

lemma drop_from_new: "drop_from (cr_name stmt) [table_json stmt cols] = Inr []"
  by (simp add: table_json_eq get_object_def)

lemma sm_insert_same: "sm_ok string_less m \<Longrightarrow> sm_find k m = Some v \<Longrightarrow> sm_insert string_less k v (sm_insert string_less k w m) = m"
proof (induction m)
  case (Cons e m)
  obtain k1 v1 where e: "e = (k1, v1)" by (cases e)
  have irrefl: "\<not> string_less k k" by (rule keys.lt_irrefl)
  show ?case
  proof (cases "k = k1")
    case True
    then show ?thesis using Cons.prems e irrefl by simp
  next
    case False
    then have f: "sm_find k m = Some v" using Cons.prems(2) e by simp
    then have "k \<in> fst ` set m" using sm_find_None [of k m] by (cases "k \<in> fst ` set m") simp_all
    then have "string_less k1 k" using Cons.prems(1) e by (auto simp: keys.ok_Cons)
    moreover have "\<not> string_less k k1" using keys.lt_asym calculation by blast
    ultimately show ?thesis using Cons.IH f Cons.prems(1) e False by (simp add: keys.ok_Cons)
  qed
qed simp

lemma remove_erase_sel [simp]:
  "st_db (remove_file p s) = st_db s" "st_cache (remove_file p s) = st_cache s" "st_trees (remove_file p s) = st_trees s"
  "st_files (remove_file p s) = (st_files s)(p := None)"
  "st_db (erase_table t s) = st_db s" "st_files (erase_table t s) = st_files s" "st_trees (erase_table t s) = st_trees s"
  by (simp_all add: remove_file_def erase_table_def split: option.splits)

text \<open>
  DROP TABLE undoes CREATE TABLE: the JSON of the database is what it was, the files of the table are gone, every other
  file and the cached tables are as before. The index trees are not removed.
\<close>

theorem drop_undoes_create:
  assumes "creatable rd sh stmt cols m ts s" and "lists_cache order (st_cache (created sh stmt cols m s))"
    and "trees_ok 0 (trees_of s (cr_name stmt))" and "st_db s \<noteq> []"
  shows "\<exists>s1 s2. generate_create rd sh order stmt s = (Inr (), s1) \<and>
    generate_drop rd sh \<lparr>drop_istable = True, drop_name = cr_name stmt\<rparr> s1 = (Inr (), s2) \<and>
    load_file rd (database_file (st_db s)) s2 = Some [J_object m] \<and>
    (\<forall>p. p \<noteq> database_file (st_db s) \<longrightarrow> st_files s2 p =
       (if p \<in> path_of s (cr_name stmt) ` {''.index'', ''.data'', ''.delete''} then None else st_files s p)) \<and>
    st_db s2 = st_db s \<and> fst (touch_db s2) = fst (touch_db s) \<and> st_trees s2 = st_trees s1"
proof -
  let ?s = "created sh stmt cols m s" and ?t = "cr_name stmt" and ?root = "add_table (table_json stmt cols) m"
    and ?d = "\<lparr>drop_istable = True, drop_name = cr_name stmt\<rparr>"
  note f = created_facts [OF assms(1)]
  obtain us where us: "generate_create rd sh order stmt s = (Inr (), set_trees ?t us ?s)"
    using generate_create_rel [OF assms(1,2)] by blast
  let ?s1 = "set_trees ?t us ?s"
  have m: "printable sh rd (J_object m)" "sm_find ''tables'' m = Some (J_array ts)" "named_table ?t ts = Inr False"
    using assms(1) by (simp_all add: creatable_def)
  have "drop_from ?t (ts @ [table_json stmt cols]) = Inr ts"
    unfolding drop_from_absent [OF m(3)] drop_from_new by simp
  moreover have "sm_insert string_less ''tables'' (J_array ts) ?root = m"
    using m(1) unfolding add_table_def m(2) by (simp add: sm_insert_same [OF _ m(2)])
  ultimately have dj: "drop_table_json ?t (J_object ?root) = Inr m"
    using creatable_facts(2) [OF assms(1)] by (simp add: drop_table_json_def get_object_def)
  define r where "r = erase_table ?t (remove_file (path_of s ?t ''.index'') (remove_file (path_of s ?t ''.data'')
      (remove_file (path_of s ?t ''.delete'') ?s1)))"
  have r: "st_db r = st_db s" "st_trees r = st_trees ?s1"
      "st_cache r = (st_cache s)(st_db s \<mapsto> (fst (touch_db s))(?t := None))"
      "st_files r p = (if p \<in> path_of s ?t ` {''.index'', ''.data'', ''.delete''} then None else st_files ?s p)" for p
    by (simp_all add: r_def f(1)) (simp add: erase_table_def f(1,3))
  have "st_files r (database_file (st_db s)) = st_files ?s (database_file (st_db s))"
    using database_file_apart by (auto simp: r(4))
  then have "load_file rd (database_file (st_db s)) r = Some [J_object ?root]"
    using f(6) load_file_cong by metis
  then have w: "with_root rd sh msg (drop_table_json ?t) r = (Inr (), save_file sh [J_object m] (database_file (st_db s)) r)" for msg
    using with_root_ok [of rd r "J_object ?root" "[]" "drop_table_json ?t" m sh msg] dj by (simp add: r(1))
  let ?s2 = "save_file sh [J_object m] (database_file (st_db s)) r"
  have d: "generate_drop rd sh ?d ?s1 = (Inr (), ?s2)"
    using assms(4) w by (simp add: generate_drop_def Let_def f(1,3) r_def)
  have l: "load_file rd (database_file (st_db s)) ?s2 = Some [J_object m]"
    by (rule load_saved [OF m(1)]) simp
  have t: "fst (touch_db ?s2) = fst (touch_db s)"
    using creatable_facts(4) [OF assms(1)] by (auto simp: touch_db_def [of "save_file _ _ _ _"] Let_def r(1,3))
  show ?thesis using us d l t f(5) r(1,2) by (intro exI [of _ ?s1] exI [of _ ?s2]) (simp add: r(4))
qed

lemma drop_undoes_create_witness:
  "\<exists>s1 s2. generate_create text_double (\<lambda>d. d) (\<lambda>_. [(''d'', ''t'')]) create_people empty_database = (Inr (), s1) \<and>
     generate_drop text_double (\<lambda>d. d) \<lparr>drop_istable = True, drop_name = ''t''\<rparr> s1 = (Inr (), s2) \<and>
     load_file text_double (database_file ''d'') s2 = Some [J_object no_tables]"
proof -
  have "cr_name create_people = ''t''" "st_db empty_database = ''d''" by (simp_all add: create_people_def empty_database_def)
  then show ?thesis using drop_undoes_create [OF empty_database_creatable empty_database_ready] by auto
qed

section \<open>Reading the schema back\<close>

lemma current_database_written:
  assumes "plain db" and "CHR 0x22 \<notin> set db"
  shows "get_current_database (change_current_db db s) = Inr db"
proof -
  let ?f = "''{\"current_db\":\"'' @ db @ ''\"}''"
  have "takeWhile (\<lambda>c. c \<noteq> CHR 0x0A) ?f = ?f"
    using assms(1) by (intro takeWhile_eq_all_conv [THEN iffD2]) (auto simp: plain_def)
  moreover have "find_text ''\"current_db\"'' ?f = Some (tl ?f)"
    by (simp add: find_text.simps)
  moreover have "takeWhile (\<lambda>c. c \<noteq> CHR 0x22) (db @ ''\"}'') = db"
    by (subst takeWhile_append2) (use assms(2) in auto)
  ultimately show ?thesis
    by (simp add: get_current_database_def change_current_db_def set_file_def Let_def)
qed

lemma load_tables_append:
  "load_tables db (ts @ us) en = (case load_tables db ts en of
     (Inl e, en1) \<Rightarrow> (Inl e, en1)
   | (Inr _, en1) \<Rightarrow> load_tables db us en1)"
  by (induction ts arbitrary: en) (auto split: prod.splits sum.splits)

lemma put_tree_sel [simp]:
  "st_db (put_tree db t c tr s) = st_db s" "st_files (put_tree db t c tr s) = st_files s" "st_cache (put_tree db t c tr s) = st_cache s"
  by (simp_all add: put_tree_def Let_def)

lemma load_created_columns:
  assumes "list_all2 (\<lambda>c x. create_column c = Inr x) cs xs"
  shows "\<exists>s1. load_columns db t (map fst xs) s = (Inr (map2 reloaded cs (map snd xs)), s1) \<and> st_db s1 = st_db s \<and>
    st_files s1 = st_files s \<and> st_cache s1 = st_cache s"
  using assms
proof (induction arbitrary: s rule: list_all2_induct)
  case (Cons c cs x xs)
  let ?r = "reloaded c (snd x)"
  have l: "load_column (fst x) = Inr ?r" using Cons.hyps load_create_column [of c "fst x" "snd x"] by simp
  let ?s = "if co_isPrimary ?r \<or> co_isUnique ?r then put_tree db t (co_name ?r) (Int_Tree empty_tree) s else s"
  obtain s1 where "load_columns db t (map fst xs) ?s = (Inr (map2 reloaded cs (map snd xs)), s1)" "st_db s1 = st_db ?s"
      "st_files s1 = st_files ?s" "st_cache s1 = st_cache ?s"
    using Cons.IH by blast
  then show ?case by (simp add: l Let_def)
qed simp

lemma load_created_table:
  assumes "create_columns (cr_columns stmt) = Inr cols" and "cr_symbol stmt = - 1"
  defines "c1 \<equiv> \<lambda>s db. case st_cache s db of None \<Rightarrow> Map.empty | Some c \<Rightarrow> c"
  shows "\<exists>en1. load_table db (table_json stmt cols) en = (Inr (), en1) \<and> en_hft en1 = en_hft en \<and>
    st_files (en_store en1) = st_files (open_writer db (cr_name stmt) (en_store en)) \<and> st_db (en_store en1) = st_db (en_store en) \<and>
    st_cache (en_store en1) = (st_cache (en_store en))
      (db \<mapsto> (c1 (en_store en) db)(cr_name stmt \<mapsto> (''-1'', map2 reloaded (cr_columns stmt) (map snd cols))))"
proof -
  let ?s0 = "open_writer db (cr_name stmt) (en_store en)"
  have s0: "st_db ?s0 = st_db (en_store en)" "st_cache ?s0 = st_cache (en_store en)"
    by (simp_all add: open_writer_def set_file_def Let_def)
  obtain s1 where s1: "load_columns db (cr_name stmt) (map fst cols) ?s0 =
      (Inr (map2 reloaded (cr_columns stmt) (map snd cols)), s1)" "st_db s1 = st_db (en_store en)"
      "st_files s1 = st_files ?s0" "st_cache s1 = st_cache (en_store en)"
    using load_created_columns [OF create_columns_all2 [OF assms(1)]] s0 by metis
  then show ?thesis
    by (simp add: load_table_def table_json_eq j_key_def j_array_def j_text_def j_number_def j_has_def assms(2) show_minus_1
        Let_def c1_def)
qed

text \<open>The storage as USE and the start of the program find it: the files are as they were, nothing is cached.\<close>

definition restarted :: "string \<Rightarrow> store \<Rightarrow> store" where
  "restarted db s = change_current_db db (s\<lparr>st_cache := Map.empty, st_trees := (\<lambda>_ _. []), st_db := db\<rparr>)"

lemma restarted_sel:
  "st_db (restarted db s) = db" "st_cache (restarted db s) = Map.empty" "restarted db (set_trees t us s) = restarted db s"
  "st_files (restarted db s) (database_file d) = st_files s (database_file d)"
proof -
  have "meta_file \<noteq> database_file d"
  proof
    assume "meta_file = database_file d"
    then have "last meta_file = last (database_file d)" by simp
    then show False by (simp add: meta_file_def database_file_def)
  qed
  then show "st_files (restarted db s) (database_file d) = st_files s (database_file d)"
    by (auto simp: restarted_def change_current_db_def set_file_def)
qed (simp_all add: restarted_def change_current_db_def set_file_def set_trees_def)

definition use_calls :: "string \<Rightarrow> db_call list" where
  "use_calls db = [Clear_caches, Set_current_database db, Change_current_db db, Initial_database_load]"

lemma run_use_calls:
  "run_all (nano_engine x) (use_calls db) en =
     (case initial_database_load (os_stod x) True (en\<lparr>en_store := restarted db (en_store en)\<rparr>) of
        (Inl e, en1) \<Rightarrow> (Inl e, en1)
      | (Inr _, en1) \<Rightarrow> (Inr success_json, en1))"
proof -
  have "change_current_db db ((en_store en)\<lparr>st_cache := Map.empty, st_trees := (\<lambda>_ _. []), st_db := db\<rparr>) = restarted db (en_store en)"
    by (simp add: restarted_def)
  then show ?thesis
    by (simp add: use_calls_def nano_engine_def on_store_def on_engine_def split: prod.splits sum.splits)
qed

text \<open>
  C23. Round trip through the files: the calls of USE after CREATE TABLE, which forget everything that is cached and read
  the JSON file of the database, bring the table back with the columns of the statement; a column that is read back has
  its constraints and its precision, which CREATE TABLE leaves out of the cache. The other tables are those that
  loading them gives.
\<close>

theorem create_reload:
  assumes "creatable (os_stod x) (os_to_string x) stmt cols m ts s"
    and "lists_cache (os_tables x) (st_cache (created (os_to_string x) stmt cols m s))"
    and "trees_ok 0 (trees_of s (cr_name stmt))" and "st_db s \<noteq> []" and "CHR 0x22 \<notin> set (st_db s)"
    and "load_tables (st_db s) ts \<lparr>en_store = restarted (st_db s) (created (os_to_string x) stmt cols m s), en_hft = h\<rparr> =
      (Inr (), \<lparr>en_store = s2, en_hft = h2\<rparr>)"
  shows "\<exists>s1 en. generate_create (os_stod x) (os_to_string x) (os_tables x) stmt s = (Inr (), s1) \<and>
    run_all (nano_engine x) (use_calls (st_db s)) \<lparr>en_store = s1, en_hft = h\<rparr> = (Inr success_json, en) \<and>
    st_cache (en_store en) = (st_cache s2)(st_db s \<mapsto>
      (case st_cache s2 (st_db s) of None \<Rightarrow> Map.empty | Some c \<Rightarrow> c)
        (cr_name stmt \<mapsto> (''-1'', map2 reloaded (cr_columns stmt) (map snd cols))))"
proof -
  let ?sh = "os_to_string x" and ?rd = "os_stod x" and ?db = "st_db s" and ?tbl = "table_json stmt cols"
  let ?s = "created ?sh stmt cols m s"
  obtain us where us: "generate_create ?rd ?sh (os_tables x) stmt s = (Inr (), set_trees (cr_name stmt) us ?s)"
    using generate_create_rel [OF assms(1,2)] by blast
  have c: "create_columns (cr_columns stmt) = Inr cols" "cr_symbol stmt = - 1" "plain ?db" using assms(1) by (simp_all add: creatable_def)
  have l: "load_file ?rd (database_file ?db) (restarted ?db ?s) = Some [J_object (add_table ?tbl m)]"
    using created_facts(6) [OF assms(1)] by (simp add: load_file_def restarted_sel)
  then obtain f where x: "st_files (restarted ?db ?s) (database_file ?db) = Some f"
    by (auto simp: load_file_def split: option.splits)
  have g: "get_current_database (restarted ?db ?s) = Inr ?db"
    unfolding restarted_def by (rule current_database_written [OF c(3) assms(5)])
  have k: "bindE (j_key ''tables'' (J_object (add_table ?tbl m))) j_array = Inr (ts @ [?tbl])"
    using creatable_facts(2) [OF assms(1)] by (simp add: j_key_def j_array_def)
  obtain en where en: "load_table ?db ?tbl \<lparr>en_store = s2, en_hft = h2\<rparr> = (Inr (), en)" "st_cache (en_store en) = (st_cache s2)(?db \<mapsto>
      (case st_cache s2 ?db of None \<Rightarrow> Map.empty | Some c \<Rightarrow> c)(cr_name stmt \<mapsto> (''-1'', map2 reloaded (cr_columns stmt) (map snd cols))))"
    using load_created_table [OF c(1,2), of ?db "\<lparr>en_store = s2, en_hft = h2\<rparr>"] by auto
  let ?en = "\<lparr>en_store = restarted ?db ?s, en_hft = h\<rparr>"
  have "load_tables ?db (ts @ [?tbl]) ?en = (Inr (), en)" by (simp add: load_tables_append assms(6) en(1))
  moreover have "restarted ?db ?s\<lparr>st_db := ?db\<rparr> = restarted ?db ?s" by (simp add: restarted_def change_current_db_def set_file_def)
  ultimately have "initial_database_load ?rd True ?en = (Inr (), en)"
    using assms(4) g x l k by (simp add: initial_database_load_def Let_def)
  then show ?thesis using us en(2) by (simp add: run_use_calls restarted_sel(3))
qed

definition test_outside :: "string outside" where
  "test_outside = \<lparr>os_stod = text_double, os_to_string = (\<lambda>d. d), os_mean = (\<lambda>a b. show_int a @ ''/'' @ show_int b), os_tables = (\<lambda>_. [(''d'', ''t'')]),
     os_columns = (\<lambda>names. names), os_names = (\<lambda>ns. ns), os_indicators = [], os_strategies = [],
     os_other = (\<lambda>c en. (Inr [], en))\<rparr>"

lemma create_reload_witness:
  "\<exists>s1 en. generate_create text_double (\<lambda>d. d) (\<lambda>_. [(''d'', ''t'')]) create_people empty_database = (Inr (), s1) \<and>
     run_all (nano_engine test_outside) (use_calls ''d'') \<lparr>en_store = s1, en_hft = new_hft\<rparr> = (Inr success_json, en) \<and>
     st_cache (en_store en) = [''d'' \<mapsto> [''t'' \<mapsto> (''-1'', map2 reloaded (cr_columns create_people) (map snd people_columns))]]"
proof -
  have e: "st_db empty_database = ''d''" "cr_name create_people = ''t''" by (simp_all add: empty_database_def create_people_def)
  show ?thesis
    using create_reload [of test_outside create_people people_columns no_tables "[]" empty_database new_hft] empty_database_creatable
      empty_database_ready by (simp add: test_outside_def e restarted_sel)
qed

end
