(* ===== verification/Session_Props.thy ===== *)
theory Session_Props
  imports Schema_Props
begin

text \<open>
  Sessions: texts that are lexed, parsed, dispatched and executed on the storage by \<open>nano_engine\<close>; statistics over an
  index tree.
\<close>

section \<open>Safety of any text\<close>

text \<open>C12. Running a text is safe up to two places of the parser and the faults of the engine. For every
  text and every engine, a run ends in a value, in an exception, or in a fault with which a call of the
  engine answered (\<open>engine_fault\<close>: for \<open>nano_engine\<close> such as the overflow of a sum in STATISTICS or a symbol
  out of range). The lexer, the parser and the dispatcher themselves follow no null \<open>Token *\<close> and all their loops end. The two exceptions are
  a number above \<open>INT64_MAX\<close> (an uninitialised variable is read) and a text that starts with \<open>FETCH\<close>
  without \<open>INDICATOR\<close> (\<open>parse()\<close> ends without a return).\<close>

theorem parse_safe:
  assumes "run_sql bk d src w = (Inl e, w')"
  shows "(\<exists>m. e = Throw m) \<or> engine_fault bk e w' \<or>
    e = Undefined ''uninitialised int64_t'' \<and> (\<exists>toks t. tokenize src = Inr toks \<and> t \<in> set toks \<and>
      tk_type t = T_NUMBER \<and> INT64_MAX < digits_value (takeWhile is_digit (tk_value t))) \<or>
    e = Undefined ''parse() ends without return'' \<and> (\<exists>t toks. tokenize src = Inr (t # toks) \<and>
      tk_type t = T_FETCH \<and> (\<forall>t' ts'. toks = t' # ts' \<longrightarrow> tk_type t' \<noteq> T_INDICATOR))"
proof (cases "tokenize src")
  case (Inl f)
  then show ?thesis using assms tokenize_loop_error [of "[]" "mk_lexer src"]
    by (auto simp: run_sql_def tokenize_def error_at_def unterminated_def)
next
  case (Inr toks)
  note L = lexed [OF Inr]
  obtain t ts where t: "toks = t # ts"
    using L(2) [of d] by (cases toks) (auto simp: inside_def live_def mk_parser_def)
  have run: "dispatch bk branches (mk_parser d toks) w = (Inl e, w')"
    using assms Inr by (simp add: run_sql_def parse_def)
  have rest: "ps_rest (mk_parser d toks) = t # ts" by (simp add: mk_parser_def t)
  from fine_dispatch [OF L rest order_refl, of bk w, unfolded run]
  consider "benign (set toks) e" | "engine_fault bk e w'"
    | "e = Undefined ''parse() ends without return''" "tk_type t = T_FETCH"
      "\<forall>t' ts'. ts = t' # ts' \<longrightarrow> tk_type t' \<noteq> T_INDICATOR"
    by (auto simp: fine_def)
  then show ?thesis
  proof cases
    case 1
    then show ?thesis using Inr too_big_digits L(1) by (fastforce simp: benign_def numbers_def too_big_def)
  qed (use Inr t in blast)+
qed

text \<open>
  The check of the symbol of CREATE HFT TABLE is without effect (the exception is built and not thrown), so the engine indexes
  its array with 200.
\<close>

lemma hft_symbol_run:
  "fst (run_sql (nano_engine test_outside) ''d'' ''create hft table h (a double precision 2) symbol 200;''
     \<lparr>en_store = empty_database, en_hft = h\<rparr>) = Inl (Undefined ''symbolAccessArray out of range'')"
  by code_simp

lemma parse_safe_witness:
  "\<exists>en1. run_sql (nano_engine test_outside) ''d'' ''create hft table h (a double precision 2) symbol 200;''
      \<lparr>en_store = empty_database, en_hft = new_hft\<rparr> = (Inl (Undefined ''symbolAccessArray out of range''), en1) \<and>
    engine_fault (nano_engine test_outside) (Undefined ''symbolAccessArray out of range'') en1"
proof -
  obtain en1 where r: "run_sql (nano_engine test_outside) ''d'' ''create hft table h (a double precision 2) symbol 200;''
      \<lparr>en_store = empty_database, en_hft = new_hft\<rparr> = (Inl (Undefined ''symbolAccessArray out of range''), en1)"
    using hft_symbol_run by (metis prod.collapse)
  then show ?thesis using parse_safe [OF r] by auto
qed

section \<open>A session of SQL texts\<close>

text \<open>
  From the text to the files and back. An INSERT of a printed statement into a table that exists answers with
  success, and the text of a SELECT that follows is answered with the JSON of the rows there were and the new one, as far
  as they are live and satisfy the condition, or with the error of the condition.
\<close>

theorem sql_session:
  assumes "insert_text_ok stmt" and "select_text_ok sel" and "sel_table sel = ins_table stmt" and "d \<noteq> []"
    and "check_table (os_stod x) (ins_table stmt) (en_store en) = Inr (True, [])"
    and "table_rel (en_store en) (ins_table stmt) cols rows" and "length (ins_columns stmt) = length (ins_values stmt)"
    and "sort_by_name (\<lambda>c. c) (ins_columns stmt) = sorted_names cols" and "ins_columns stmt \<noteq> []" and "next_id rows \<le> INT64_MAX"
    and "data_size (en_store en) (ins_table stmt) + int (length (concat (ins_values stmt))) \<le> INT64_MAX"
  defines "ns \<equiv> column_names cols" and "rows1 \<equiv> rows @ [(next_id rows, given_values stmt, False)]"
  shows "\<exists>s1. run_sql (nano_engine x) d (print_tokens (print_insert stmt)) en = (Inr success_json, en\<lparr>en_store := s1\<rparr>) \<and>
    run_sql (nano_engine x) d (print_tokens (print_select sel)) (en\<lparr>en_store := s1\<rparr>) =
      caught (bindE (outcome ns (sel_where sel) rows1) (\<lambda>_.
        Inr (json_table (os_columns x) cols (map (shown ns) (filter (hit ns (sel_where sel)) rows1)))), en\<lparr>en_store := s1\<rparr>) \<and>
    table_rel s1 (ins_table stmt) cols rows1 \<and> only_table (ins_table stmt) (en_store en) s1"
proof -
  obtain s1 where s1: "generate_insert stmt (en_store en) = (Inr (), s1)" "table_rel s1 (sel_table sel) cols rows1"
      "only_table (ins_table stmt) (en_store en) s1"
    using generate_insert_rel [OF assms(6-9,11,10)] assms(3) by (auto simp: rows1_def)
  let ?en = "en\<lparr>en_store := s1\<rparr>"
  have "run_sql (nano_engine x) d (print_tokens (print_insert stmt)) en = (Inr success_json, ?en)"
    using assms(5) s1(1) by (subst run_print_insert [OF assms(1), where ok = True and msg = "[]"])
      (simp_all add: nano_engine_def on_store_def)
  moreover have "handle_select (os_columns x) sel s1 = (bindE (outcome ns (sel_where sel) rows1) (\<lambda>_.
      Inr (json_table (os_columns x) cols (map (shown ns) (filter (hit ns (sel_where sel)) rows1)))), s1)"
    unfolding handle_select_rel [OF s1(2)] select_spec_closed ns_def
    by (cases "outcome (column_names cols) (sel_where sel) rows1") (simp_all add: json_table_def)
  ultimately show ?thesis
    using s1(2,3) assms(3) by (intro exI [of _ s1]) (simp add: run_print_select [OF assms(2,4)] nano_engine_def)
qed

definition insert_name :: insert_statement where
  "insert_name = \<lparr>ins_table = ''t'', ins_columns = [''name''], ins_values = [''Ann'']\<rparr>"

definition select_t :: select_statement where
  "select_t = \<lparr>sel_columns = [''name''], sel_table = ''t'', sel_where = None, sel_limit = None\<rparr>"

lemma people_columns_names:
  "sorted_names (map snd people_columns) = [''name'']" "column_names (map snd people_columns) = [''id'', ''name'']"
  by code_simp+

lemma session_names: "name_ok ''name''" "string_text ''Ann''"
  by (simp_all add: name_ok_def word_text_def word_start_def word_char_def is_alpha_def to_lower_def classify_def
      keyword_table_def Let_def string_text_def string_char_def NUL_def)

lemma sql_session_witness:
  "\<exists>s1 en. generate_create text_double (\<lambda>d. d) (\<lambda>_. [(''d'', ''t'')]) create_people empty_database = (Inr (), s1) \<and>
     run_sql (nano_engine test_outside) ''d'' (print_tokens (print_insert insert_name)) \<lparr>en_store = s1, en_hft = new_hft\<rparr> =
       (Inr success_json, en) \<and>
     run_sql (nano_engine test_outside) ''d'' (print_tokens (print_select select_t)) en =
       (Inr ''[{\"id\":\"1\",\"name\":\"Ann\"}]'', en)"
proof -
  have t: "cr_name create_people = ''t''" by (simp add: create_people_def)
  obtain us where us: "generate_create text_double (\<lambda>d. d) (\<lambda>_. [(''d'', ''t'')]) create_people empty_database = (Inr (), us)"
      "table_rel us ''t'' (map snd people_columns) []" "data_size us ''t'' = 0" "check_table text_double ''t'' us = Inr (True, [])"
    by (rule people_created_empty)
  have i: "insert_text_ok insert_name" "select_text_ok select_t"
    by (simp_all add: insert_text_ok_def insert_ok_def insert_name_def select_text_ok_def select_ok_def select_t_def where_ok_def
        where_text_ok_def name_ok_examples session_names)
  have sel: "ins_table insert_name = ''t''" "ins_columns insert_name = [''name'']" "ins_values insert_name = [''Ann'']"
      "sel_table select_t = ''t''" "sel_where select_t = None" "os_stod test_outside = text_double"
      "os_columns test_outside = (\<lambda>ns. ns)" "next_id [] = 1" "given_values insert_name = [''Ann'']"
      "sort_by_name (\<lambda>c. c) [''name''] = [''name'']"
    by (simp_all add: insert_name_def select_t_def test_outside_def next_id_def given_values_def given_columns_def
        sort_by_name_def)
  have j: "json_table (\<lambda>ns. ns) (map snd people_columns) [shown [''id'', ''name''] (1, [''Ann''], False)] =
      ''[{\"id\":\"1\",\"name\":\"Ann\"}]''"
    by (simp add: json_table_def json_row_def row_of_def people_columns_names show_1)
  obtain en where en: "run_sql (nano_engine test_outside) ''d'' (print_tokens (print_insert insert_name)) \<lparr>en_store = us, en_hft = new_hft\<rparr> =
        (Inr success_json, en)"
      "run_sql (nano_engine test_outside) ''d'' (print_tokens (print_select select_t)) en =
        (Inr ''[{\"id\":\"1\",\"name\":\"Ann\"}]'', en)"
    using sql_session [OF i, of "''d''" test_outside "\<lparr>en_store = us, en_hft = new_hft\<rparr>" "map snd people_columns" "[]"] us j
    by (fastforce simp: sel people_columns_names int_limits)
  then show ?thesis using us(1) by blast
qed

section \<open>Statistics\<close>

lemma extreme_step:
  fixes a k :: int
  shows "Max (insert (if k > a then k else a) (set us)) = Max (insert a (insert k (set us)))"
    and "Min (insert (if k < a then k else a) (set us)) = Min (insert a (insert k (set us)))"
proof -
  have "(if k > a then k else a) = max a k" "(if k < a then k else a) = min a k" by auto
  then show "Max (insert (if k > a then k else a) (set us)) = Max (insert a (insert k (set us)))"
    "Min (insert (if k < a then k else a) (set us)) = Min (insert a (insert k (set us)))"
    by (cases "us = []"; simp add: max.assoc min.assoc)+
qed

lemma int_loop_spec:
  assumes h: "\<And>k. evaluate_where wh [c \<mapsto> V_int k] = h k" and "\<forall>k \<in> set ks. \<exists>b. h k = Inr b"
    and "\<bar>tot\<bar> + sum_list (map abs (filter (\<lambda>k. h k = Inr True) ks)) \<le> INT64_MAX"
  shows "int_loop c wh ks (n, tot, mx, mn) =
    (let us = filter (\<lambda>k. h k = Inr True) ks
     in Inr (n + int (length us), tot + sum_list us, Max (set (mx # us)), Min (set (mn # us))))"
  using assms(2,3)
proof (induction ks arbitrary: n tot mx mn)
  case (Cons k ks)
  let ?us = "filter (\<lambda>k. h k = Inr True) ks"
  obtain b where b: "h k = Inr b" using Cons.prems(1) by auto
  have ev: "\<forall>k \<in> set ks. \<exists>b. h k = Inr b" using Cons.prems(1) by simp
  note step = int_loop.simps(2) [of c wh k ks n tot mx mn, unfolded h b bindE_simps]
  show ?case
  proof (cases b)
    case True
    have le: "\<bar>tot + k\<bar> + sum_list (map abs ?us) \<le> INT64_MAX" using Cons.prems(2) b True by simp
    have "0 \<le> sum_list (map abs ?us)" by (rule sum_list_nonneg) auto
    then have "INT64_MIN \<le> tot + k \<and> tot + k \<le> INT64_MAX" using le by (auto simp: int_limits)
    then show ?thesis using Cons.IH [OF ev le] b True extreme_step(1) [where a = mx and k = k and us = ?us]
        extreme_step(2) [where a = mn and k = k and us = ?us] by (simp add: Let_def step del: int_loop.simps)
  next
    case False
    then show ?thesis using Cons.IH [OF ev] Cons.prems(2) b by (simp add: step del: int_loop.simps)
  qed
qed simp

text \<open>
  C24. STATISTICS over a column of integers with an index. For the keys of the tree that satisfy the condition, COUNT is
  their number, MAX and MIN are the largest and the smallest, and MEAN gives their number and their sum, as long as
  the condition does not throw and the sum stays in 64 bits; without such a key there is no data.
\<close>

theorem statistics_spec:
  assumes "map_of (trees_of s (st_table stmt)) (st_column stmt) = Some (Int_Tree tr)" and "bp_ok (<) tr"
  defines "holds \<equiv> \<lambda>k. evaluate_where (st_where stmt) [st_column stmt \<mapsto> V_int k]"
  assumes "\<forall>k. search (<) k tr \<noteq> None \<longrightarrow> (\<exists>b. holds k = Inr b)"
  defines "K \<equiv> {k. search (<) k tr \<noteq> None \<and> holds k = Inr True}"
  assumes "(\<Sum>k \<in> K. \<bar>k\<bar>) \<le> INT64_MAX"
  shows "exec_statistics show_mean stmt s = Inr
    (let c = st_column stmt; ty = st_type stmt; n = int (card K)
     in if K = {} then ''No data found in column '' @ [CHR 0x27] @ c @ [CHR 0x27]
        else if ty = ''mean'' then ''MEAN('' @ c @ '') = '' @ show_mean (\<Sum>K) n @ ''  [count='' @ show_int n @ '', sum='' @ show_int (\<Sum>K) @ '']''
        else if ty = ''max'' then ''MAX('' @ c @ '') = '' @ show_int (Max K)
        else if ty = ''min'' then ''MIN('' @ c @ '') = '' @ show_int (Min K)
        else if ty = ''count'' then ''COUNT('' @ c @ '') = '' @ show_int n
        else [])"
proof -
  let ?us = "filter (\<lambda>k. holds k = Inr True) (for_each_key tr)"
  have keys: "set (for_each_key tr) = {k. search (<) k tr \<noteq> None}" by (rule asks.tree.set_keys [OF assms(2)])
  have K: "set ?us = K" unfolding K_def by (auto simp: keys)
  have "sorted_wrt (<) (for_each_key tr)" by (rule asks.tree.keys_sorted [OF assms(2)])
  then have d: "distinct ?us" by (simp add: strict_sorted_iff)
  have s: "sum_list ?us = \<Sum>K" "sum_list (map abs ?us) = (\<Sum>k \<in> K. \<bar>k\<bar>)" "int (length ?us) = int (card K)"
    using d K sum_list_distinct_conv_sum_set [OF d, of abs] sum_list_distinct_conv_sum_set [OF d, of "\<lambda>k. k"]
      distinct_card [OF d] by simp_all
  have fin: "finite K" using K by (metis finite_set)
  have range: "INT64_MIN \<le> k \<and> k \<le> INT64_MAX" if "k \<in> K" for k
  proof -
    have "\<bar>k\<bar> \<le> (\<Sum>k \<in> K. \<bar>k\<bar>)" by (rule member_le_sum [OF that _ fin]) auto
    then show ?thesis using assms(6) by (auto simp: int_limits)
  qed
  have h: "evaluate_where (st_where stmt) [st_column stmt \<mapsto> V_int k] = holds k" for k by (simp only: holds_def)
  have loop: "int_loop (st_column stmt) (st_where stmt) (for_each_key tr) (0, 0, INT64_MIN, INT64_MAX) =
      Inr (int (card K), \<Sum>K, Max (insert INT64_MIN K), Min (insert INT64_MAX K))"
    using int_loop_spec [OF h, of "for_each_key tr" 0 0 INT64_MIN INT64_MAX] assms(4,6) s K by (simp add: keys Let_def)
  show ?thesis
  proof (cases "K = {}")
    case True
    then show ?thesis using loop by (simp add: exec_statistics_def assms(1) int_statistics_def)
  next
    case False
    then have "card K \<noteq> 0" "Max (insert INT64_MIN K) = Max K" "Min (insert INT64_MAX K) = Min K"
      using fin range [OF Max_in [OF fin False]] range [OF Min_in [OF fin False]] by simp_all
    then show ?thesis using loop False by (simp add: exec_statistics_def assms(1) int_statistics_def Let_def)
  qed
qed

definition three_keys :: store where
  "three_keys = empty_database\<lparr>st_trees := (\<lambda>_ _. [(''id'', Int_Tree (Leaf [(- 2, index_node_of 0 8), (5, index_node_of 8 16), (9, index_node_of 16 24)]))])\<rparr>"

definition max_below_8 :: statistics_statement where
  "max_below_8 = \<lparr>st_type = ''max'', st_table = ''t'', st_column = ''id'', st_where = Some (Comparison (Identifier ''id'') C_LESS (IntLiteral 8))\<rparr>"

lemma statistics_spec_witness:
  "exec_statistics (\<lambda>a b. []) max_below_8 three_keys = Inr ''MAX(id) = 5''"
proof -
  let ?tr = "Leaf [(- 2, index_node_of 0 8), (5, index_node_of 8 16), (9, index_node_of 16 24)] :: (int, index_node) bptree"
  have t: "map_of (trees_of three_keys (st_table max_below_8)) (st_column max_below_8) = Some (Int_Tree ?tr)"
    by (simp add: three_keys_def max_below_8_def)
  have bp: "bp_ok (<) ?tr" by (auto simp: bp_ok_def sm_ok_def MAX_KEYS_def DEGREE_def intro!: exI [of _ 0])
  have h: "evaluate_where (st_where max_below_8) [st_column max_below_8 \<mapsto> V_int k] = Inr (k < 8)" for k
    by (simp add: max_below_8_def evaluate_where_def compare_values_def)
  have ev: "\<forall>k. search (<) k ?tr \<noteq> None \<longrightarrow>
      (\<exists>b. evaluate_where (st_where max_below_8) [st_column max_below_8 \<mapsto> V_int k] = Inr b)" unfolding h by blast
  have K: "{k. search (<) k ?tr \<noteq> None \<and> evaluate_where (st_where max_below_8) [st_column max_below_8 \<mapsto> V_int k] = Inr True} = {- 2, 5}"
    unfolding h by (auto simp: search_def)
  note st = statistics_spec [OF t bp ev, of "\<lambda>a b. []", unfolded K]
  have "show_int 5 = ''5''" by code_simp
  then show ?thesis using st by (simp add: max_below_8_def int_limits)
qed

section \<open>Statistics after DELETE\<close>

text \<open>
  STATISTICS over a column of integers does not see a DELETE: the rows are marked, but the entries of the tree stay, so every
  statistic is what it was before.
\<close>

theorem statistics_after_delete:
  assumes "table_rel s (del_table stmt) cols rows" and "trees_ok m (trees_of s (del_table stmt))"
    and "map_of (trees_of s (del_table stmt)) (st_column q) = Some (Int_Tree tr)" and "st_table q = del_table stmt"
  shows "\<exists>s'. handle_delete stmt s = (outcome (column_names cols) (del_where stmt) rows, s') \<and>
    exec_statistics show_mean q s' = exec_statistics show_mean q s"
proof -
  obtain s' where s': "handle_delete stmt s = (outcome (column_names cols) (del_where stmt) rows, s')"
    "only_table (del_table stmt) s s'" "int_trees_kept (trees_of s (del_table stmt)) (trees_of s' (del_table stmt))"
    using handle_delete_rel [OF assms(1,2)] by blast
  then have "map_of (trees_of s' (del_table stmt)) (st_column q) = Some (Int_Tree tr)"
    using assms(3) by (simp add: int_trees_kept_def)
  then show ?thesis using s'(1) assms(3,4) by (intro exI [of _ s']) (simp add: exec_statistics_def Let_def)
qed

lemma map_of_upd_tree: "map_of (upd_tree c f ts) n = (if n = c then map_option f (map_of ts n) else map_of ts n)"
  by (induction ts) (auto simp: upd_tree_def)

lemma index_row_primary:
  assumes "primary \<noteq> []" and "primary \<notin> fst ` set data"
  shows "map_of (index_row primary i nd data ts) primary = map_option (insert_id i nd) (map_of ts primary)"
proof -
  have "map_of (foldl (\<lambda>ts (c, v, u). if u then upd_tree c (insert_text v nd) ts else ts) us data) primary = map_of us primary" for us
    using assms(2) by (induction data arbitrary: us) (auto simp: map_of_upd_tree)
  then show ?thesis using assms(1) by (simp add: index_row_def map_of_upd_tree)
qed

definition count_ids :: statistics_statement where
  "count_ids = \<lparr>st_type = ''count'', st_table = ''t'', st_column = ''id'', st_where = None\<rparr>"

text \<open>One row inserted and deleted again: \<open>COUNT(id)\<close> is still 1.\<close>

lemma statistics_after_delete_witness:
  "\<exists>s s'. generate_insert insert_ann (fresh_table people) = (Inr (), s) \<and> handle_delete delete_1 s = (Inr (), s') \<and>
     exec_statistics (\<lambda>a b. []) count_ids s' = Inr ''COUNT(id) = 1''"
proof -
  have n: "next_id [] = 1" by (simp add: next_id_def)
  obtain s nd data where s: "generate_insert insert_ann (fresh_table people) = (Inr (), s)"
      "table_rel s ''t'' people ([] @ [(next_id [], given_values insert_ann, False)])"
      "trees_of s ''t'' = index_row (first_primary people) (next_id []) nd data (trees_of (fresh_table people) ''t'')"
      "map fst data = sorted_names people"
    using generate_insert_rel [of "fresh_table people" insert_ann people "[]"] fresh_table_rel [OF schemas(1)] fresh_table_size [of people]
      sort_given(1) by (auto simp: n int_limits)
  have rel: "table_rel s ''t'' people [(1, [''a@b'', ''Ann''], False)]" using s(2) n by simp
  let ?tr = "bp_insert (<) (1 :: int) nd empty_tree"
  have tr: "map_of (trees_of s ''t'') ''id'' = Some (Int_Tree ?tr)"
    using index_row_primary [of "first_primary people" data "next_id []" nd "trees_of (fresh_table people) ''t''"] s(4)
    by (simp add: s(3) people_names n fresh_table_def flip: set_map)
  have ok: "trees_ok 1 (trees_of s ''t'')" using ann_inserted s(1) by (metis Pair_inject)
  have "for_each_key ?tr = [1]" by (simp add: bp_insert_def empty_tree_def for_each_key_def insert_into_leaf_def degree_values Let_def)
  moreover have one: "show_int 1 = ''1''" by code_simp
  ultimately have e: "exec_statistics (\<lambda>a b. []) count_ids s = Inr ''COUNT(id) = 1''"
    using tr one by (simp add: exec_statistics_def count_ids_def int_statistics_def evaluate_where_def Let_def int_limits)
  obtain s' where "handle_delete delete_1 s = (Inr (), s')" "exec_statistics (\<lambda>a b. []) count_ids s' = exec_statistics (\<lambda>a b. []) count_ids s"
    using statistics_after_delete [of s delete_1 people "[(1, [''a@b'', ''Ann''], False)]" 1 count_ids ?tr "\<lambda>a b. []"] rel ok tr
    by (auto simp: count_ids_def)
  then show ?thesis using s(1) e by auto
qed

end
