(* ===== verification/Market_Data.thy ===== *)
theory Market_Data
  imports Order_Book Std_Text Std_Files
begin

text \<open>
  Market data: the adapters that read the wire formats of two exchanges (\<open>exchange_adapter.cpp\<close>) and the handler that
  applies what they read to the order books (\<open>market_data_handler.cpp\<close>).

  A message is the list of its bytes; a pointer into it is the text from there. \<open>fixed t\<close> stands for
  \<open>to_price(std::strtod(t))\<close>, which is also \<open>to_qty\<close>. \<open>exch_ts\<close>, the time of the machine, which nothing reads, is left
  out, and so are the callbacks of the handler, which do nothing. A symbol is a list of 24 bytes.
\<close>

datatype md_type = SNAPSHOT | DELTA | TRADE

record md_msg =
  mm_type :: md_type
  mm_side :: side
  mm_price :: price
  mm_qty :: quantity
  mm_seq :: int
  mm_exchange :: exchange
  mm_symbol :: symbol

record feed_state =
  fs_symbol :: symbol
  fs_seq :: int

datatype adapter = Binance_Adapter feed_state | Zerodha_Adapter feed_state

definition new_feed :: feed_state where
  "new_feed = \<lparr>fs_symbol = mk_symbol [], fs_seq = 0\<rparr>"

fun exchange_id :: "adapter \<Rightarrow> exchange" where
  "exchange_id (Binance_Adapter f) = BINANCE"
| "exchange_id (Zerodha_Adapter f) = ZERODHA"

fun adapter_symbol :: "adapter \<Rightarrow> symbol" where
  "adapter_symbol (Binance_Adapter f) = fs_symbol f"
| "adapter_symbol (Zerodha_Adapter f) = fs_symbol f"

fun set_adapter_symbol :: "symbol \<Rightarrow> adapter \<Rightarrow> adapter" where
  "set_adapter_symbol sy (Binance_Adapter f) = Binance_Adapter (f\<lparr>fs_symbol := sy\<rparr>)"
| "set_adapter_symbol sy (Zerodha_Adapter f) = Zerodha_Adapter (f\<lparr>fs_symbol := sy\<rparr>)"

fun make_adapter :: "exchange \<Rightarrow> adapter option" where
  "make_adapter BINANCE = Some (Binance_Adapter new_feed)"
| "make_adapter ZERODHA = Some (Zerodha_Adapter new_feed)"
| "make_adapter _ = None"

definition next_seq :: "feed_state \<Rightarrow> int" where
  "next_seq f = (fs_seq f + 1) mod 2 ^ 64"

section \<open>Binance: JSON frames\<close>

definition skip_to :: "char \<Rightarrow> string \<Rightarrow> string" where
  "skip_to ch s = dropWhile (\<lambda>c. c \<noteq> ch) s"

definition skip_ws :: "string \<Rightarrow> string" where
  "skip_ws s = dropWhile (\<lambda>c. c = CHR '' '' \<or> c = CHR 0x09 \<or> c = CHR 0x0D \<or> c = CHR 0x0A) s"

text \<open>\<open>strtoull\<close> with base 10: out of range gives the largest value, a negative number wraps.\<close>

definition strtoull :: "string \<Rightarrow> int" where
  "strtoull s =
     (case signed_digits True (dropWhile is_cspace s) of
        None \<Rightarrow> 0
      | Some v \<Rightarrow> if 2 ^ 64 \<le> \<bar>v\<bar> then 2 ^ 64 - 1 else v mod 2 ^ 64)"

text \<open>
  The search for a key: \<open>for (p = data; p < end - klen; ++p)\<close>. It gives the text behind the key, and does not find a key
  that ends the message.
\<close>

fun find_key :: "string \<Rightarrow> string \<Rightarrow> string option" where
  "find_key key s =
     (case s of
        [] \<Rightarrow> None
      | c # cs \<Rightarrow>
          if length s \<le> length key then None
          else if take (length key) s = key then Some (drop (length key) s)
          else find_key key cs)"

declare find_key.simps [simp del]

text \<open>A text in quotes, copied into a buffer of 32 bytes, and what is behind it.\<close>

definition buffer :: "string \<Rightarrow> string" where
  "buffer t = takeWhile (\<lambda>c. c \<noteq> NUL) (take 31 t)"

definition quoted :: "string \<Rightarrow> (string \<times> string) option" where
  "quoted s =
     (let s1 = skip_to (CHR 0x22) s
      in if s1 = [] then None
         else (let s2 = skip_to (CHR 0x22) (tl s1)
               in if s2 = [] then None
                  else Some (buffer (takeWhile (\<lambda>c. c \<noteq> CHR 0x22) (tl s1)), tl s2)))"

lemma quoted_length: "quoted s = Some (t, r) \<Longrightarrow> length r < length s"
proof -
  assume q: "quoted s = Some (t, r)"
  then have r: "r = tl (skip_to (CHR 0x22) (tl (skip_to (CHR 0x22) s)))" "skip_to (CHR 0x22) s \<noteq> []"
    by (auto simp: quoted_def Let_def split: if_splits)
  have "length (skip_to (CHR 0x22) s) \<le> length s" "length (skip_to (CHR 0x22) (tl (skip_to (CHR 0x22) s))) \<le> length (tl (skip_to (CHR 0x22) s))"
    unfolding skip_to_def by (rule length_dropWhile_le)+
  then show ?thesis using r by (cases "skip_to (CHR 0x22) s") auto
qed

text \<open>The loop over the price levels, as the pairs of texts it passes to \<open>emit_level\<close>.\<close>

function parse_levels :: "string \<Rightarrow> (string \<times> string) list" where
  "parse_levels s =
     (case skip_ws s of
        [] \<Rightarrow> []
      | c # cs \<Rightarrow>
          if c = CHR '']'' then []
          else if c \<noteq> CHR ''['' then parse_levels cs
          else (case quoted cs of
                  None \<Rightarrow> []
                | Some (p, s1) \<Rightarrow>
                    (case quoted s1 of
                       None \<Rightarrow> []
                     | Some (q, s2) \<Rightarrow> (p, q) # parse_levels (tl (skip_to (CHR '']'') s2)))))"
  by pat_completeness auto
termination
proof (relation "measure length", goal_cases)
  case (2 s c cs)
  have "length (skip_ws s) \<le> length s" unfolding skip_ws_def by (rule length_dropWhile_le)
  then show ?case using 2 by simp
next
  case (3 s c cs x1 p s1 x2 q s2)
  have "length (skip_ws s) \<le> length s" unfolding skip_ws_def by (rule length_dropWhile_le)
  moreover have "length (tl (skip_to (CHR '']'') s2)) \<le> length s2"
    unfolding skip_to_def using length_dropWhile_le [of "\<lambda>c. c \<noteq> CHR '']''" s2] by simp
  moreover have "length s1 < length cs" "length s2 < length s1" using 3 quoted_length by (metis prod.collapse)+
  ultimately show ?case using 3 by simp
qed simp

declare parse_levels.simps [simp del]

text \<open>Behind the key the code looks for one more bracket.\<close>

definition parse_side :: "string \<Rightarrow> string \<Rightarrow> (string \<times> string) list" where
  "parse_side key s =
     (case find_key key s of
        None \<Rightarrow> []
      | Some r \<Rightarrow> parse_levels (tl (skip_to (CHR ''['') r)))"

definition binance_level :: "(string \<Rightarrow> int) \<Rightarrow> symbol \<Rightarrow> int \<Rightarrow> side \<Rightarrow> string \<times> string \<Rightarrow> md_msg" where
  "binance_level fixed sy sq sd l = \<lparr>mm_type = DELTA, mm_side = sd, mm_price = fixed (fst l), mm_qty = fixed (snd l),
     mm_seq = sq, mm_exchange = BINANCE, mm_symbol = sy\<rparr>"

definition key_u :: string where "key_u = ''\"u\":''"
definition key_b :: string where "key_b = ''\"b\":[''"
definition key_a :: string where "key_a = ''\"a\":[''"

definition binance_on_message :: "(string \<Rightarrow> int) \<Rightarrow> string \<Rightarrow> feed_state \<Rightarrow> md_msg list \<times> feed_state" where
  "binance_on_message fixed dat f =
     (let sq = (case find_key key_u dat of None \<Rightarrow> next_seq f | Some r \<Rightarrow> strtoull r)
      in (map (binance_level fixed (fs_symbol f) sq BUY) (parse_side key_b dat) @
          map (binance_level fixed (fs_symbol f) sq SELL) (parse_side key_a dat), f\<lparr>fs_seq := next_seq f\<rparr>))"

section \<open>Zerodha: binary packets\<close>

definition be32 :: "nat \<Rightarrow> string \<Rightarrow> int" where
  "be32 p dat = (let u = le_value (rev (take 4 (drop p dat))) in if 2 ^ 31 \<le> u then u - 2 ^ 32 else u)"

definition paise_to_price :: "int \<Rightarrow> price" where
  "paise_to_price paise = paise * 1000000"

text \<open>
  \<open>to_qty(static_cast<double>(qty))\<close> for a \<open>qty\<close> of 32 bits: the product with the scale is exact, the half that is added
  is cut off again for what is not negative, and rounds a negative number up as long as there is a bit for it.
\<close>

definition to_qty_int :: "int \<Rightarrow> quantity" where
  "to_qty_int q = (let x = q * PRICE_SCALE in if 0 \<le> x \<or> x \<le> - (2 ^ 52) then x else x + 1)"

definition zerodha_level :: "string \<Rightarrow> symbol \<Rightarrow> int \<Rightarrow> nat \<Rightarrow> side \<Rightarrow> nat \<Rightarrow> md_msg list" where
  "zerodha_level dat sy sq base sd i =
     (let qty = be32 (base + 12 * i) dat; paise = be32 (base + 12 * i + 4) dat
      in if qty = 0 \<and> paise = 0 then []
         else [\<lparr>mm_type = DELTA, mm_side = sd, mm_price = paise_to_price paise, mm_qty = to_qty_int qty, mm_seq = sq,
                mm_exchange = ZERODHA, mm_symbol = sy\<rparr>])"

definition zerodha_on_message :: "string \<Rightarrow> feed_state \<Rightarrow> md_msg list \<times> feed_state" where
  "zerodha_on_message dat f =
     (if length dat < 44 + 2 * 12 then ([], f)
      else (let levels = min 20 ((length dat - 44) div (2 * 12));
                ask_base = 44 + levels * 12;
                lvl = zerodha_level dat (fs_symbol f) (next_seq f)
            in (concat (map (lvl 44 BUY) [0 ..< levels]) @
                (if ask_base + levels * 12 \<le> length dat then concat (map (lvl ask_base SELL) [0 ..< levels]) else []),
                f\<lparr>fs_seq := next_seq f\<rparr>)))"

fun on_message :: "(string \<Rightarrow> int) \<Rightarrow> string \<Rightarrow> adapter \<Rightarrow> md_msg list \<times> adapter" where
  "on_message fixed dat (Binance_Adapter f) = (case binance_on_message fixed dat f of (ms, f1) \<Rightarrow> (ms, Binance_Adapter f1))"
| "on_message fixed dat (Zerodha_Adapter f) = (case zerodha_on_message dat f of (ms, f1) \<Rightarrow> (ms, Zerodha_Adapter f1))"

section \<open>The handler\<close>

record market_data =
  md_books :: "exchange \<times> symbol \<rightharpoonup> book"
  md_adapters :: "exchange \<times> symbol \<rightharpoonup> adapter"

definition new_market_data :: market_data where
  "new_market_data = \<lparr>md_books = Map.empty, md_adapters = Map.empty\<rparr>"

text \<open>\<open>clk\<close> and \<open>keys\<close> are the clock and the keys in freed memory of a new book.\<close>

definition get_or_create_book :: "(nat \<Rightarrow> nanos) \<Rightarrow> (nat \<Rightarrow> price) \<Rightarrow> exchange \<Rightarrow> symbol \<Rightarrow> market_data \<Rightarrow> market_data" where
  "get_or_create_book clk keys e sy md =
     (case md_books md (e, sy) of
        Some b \<Rightarrow> md
      | None \<Rightarrow> md\<lparr>md_books := (md_books md)((e, sy) \<mapsto> new_book sy True clk keys)\<rparr>)"

definition register_adapter :: "(nat \<Rightarrow> nanos) \<Rightarrow> (nat \<Rightarrow> price) \<Rightarrow> adapter \<Rightarrow> symbol \<Rightarrow> market_data \<Rightarrow> market_data" where
  "register_adapter clk keys ad sy md =
     (let md1 = get_or_create_book clk keys (exchange_id ad) sy md
      in md1\<lparr>md_adapters := (md_adapters md1)((exchange_id ad, sy) \<mapsto> ad)\<rparr>)"

text \<open>\<open>None\<close> when \<open>add_order\<close> does not return. A quantity of 0, which is to delete the level, is ignored.\<close>

definition apply_delta :: "md_msg \<Rightarrow> market_data \<Rightarrow> market_data option" where
  "apply_delta msg md =
     (case md_books md (mm_exchange msg, mm_symbol msg) of
        None \<Rightarrow> Some md
      | Some b \<Rightarrow>
          if mm_qty msg = 0 then Some md
          else (case add_order (mm_side msg) LIMIT (mm_price msg) (mm_qty msg) (mm_exchange msg) b of
                  None \<Rightarrow> None
                | Some (r, b1) \<Rightarrow> Some (md\<lparr>md_books := (md_books md)((mm_exchange msg, mm_symbol msg) \<mapsto> b1)\<rparr>)))"

fun apply_deltas :: "md_msg list \<Rightarrow> market_data \<Rightarrow> market_data option" where
  "apply_deltas [] md = Some md"
| "apply_deltas (msg # msgs) md = (case apply_delta msg md of None \<Rightarrow> None | Some md1 \<Rightarrow> apply_deltas msgs md1)"

definition feed :: "(string \<Rightarrow> int) \<Rightarrow> exchange \<Rightarrow> symbol \<Rightarrow> string \<Rightarrow> market_data \<Rightarrow> market_data option" where
  "feed fixed e sy dat md =
     (case md_adapters md (e, sy) of
        None \<Rightarrow> Some md
      | Some ad \<Rightarrow>
          (case on_message fixed dat ad of
             (msgs, ad1) \<Rightarrow> apply_deltas msgs (md\<lparr>md_adapters := (md_adapters md)((e, sy) \<mapsto> ad1)\<rparr>)))"

end
