(* ===== verification/Market_Props.thy ===== *)
theory Market_Props
  imports Market_Data Book_Cancel
begin

text \<open>
  Properties of the market data: no sequence of registrations and messages breaks an order book, a depth packet of
  Zerodha is read entry by entry, and what becomes of a depth frame of Binance.
\<close>

section \<open>How many messages a text gives\<close>

lemma parse_levels_length: "length (parse_levels s) \<le> length s"
proof (induction s rule: parse_levels.induct)
  case (1 s)
  have ws: "length (skip_ws s) \<le> length s" unfolding skip_ws_def by (rule length_dropWhile_le)
  show ?case
  proof (cases "skip_ws s")
    case (Cons c cs)
    show ?thesis
    proof (cases "c = CHR ''['' \<and> (\<exists>p s1 q s2. quoted cs = Some (p, s1) \<and> quoted s1 = Some (q, s2))")
      case True
      then obtain p s1 q s2 where q: "quoted cs = Some (p, s1)" "quoted s1 = Some (q, s2)" by blast
      have "length (tl (skip_to (CHR '']'') s2)) \<le> length s2"
        unfolding skip_to_def using length_dropWhile_le [of "\<lambda>c. c \<noteq> CHR '']''" s2] by simp
      moreover have "length (parse_levels (tl (skip_to (CHR '']'') s2))) \<le> length (tl (skip_to (CHR '']'') s2))"
        using 1(2) [OF Cons] True q by simp
      ultimately show ?thesis
        using quoted_length [OF q(1)] quoted_length [OF q(2)] ws Cons True q by (subst parse_levels.simps) simp
    next
      case False
      then show ?thesis using 1(1) [OF Cons] ws Cons
        by (subst parse_levels.simps) (auto split: option.splits)
    qed
  qed (subst parse_levels.simps, simp)
qed

lemma find_key_Cons:
  "find_key key (c # cs) =
     (if length cs < length key then None
      else if take (length key) (c # cs) = key then Some (drop (length key) (c # cs))
      else find_key key cs)"
  by (subst find_key.simps) (simp add: less_Suc_eq_le [symmetric] not_less)

lemma find_key_Nil [simp]: "find_key key [] = None"
  by (subst find_key.simps) simp

lemma find_key_length: "find_key key s = Some r \<Longrightarrow> length r \<le> length s"
proof (induction s)
  case (Cons c s)
  have "r = drop (length key) (c # s) \<or> find_key key s = Some r"
    using Cons.prems unfolding find_key_Cons by (metis option.inject option.distinct(1))
  then show ?case using Cons.IH by (metis diff_le_self le_SucI length_Cons length_drop)
qed simp

lemma parse_side_length: "length (parse_side key s) \<le> length s"
proof (cases "find_key key s")
  case (Some r)
  have "length (parse_levels (tl (skip_to (CHR ''['') r))) \<le> length (tl (skip_to (CHR ''['') r))"
    by (rule parse_levels_length)
  also have "\<dots> \<le> length r"
    unfolding skip_to_def using length_dropWhile_le [of "\<lambda>c. c \<noteq> CHR ''[''" r] by simp
  finally show ?thesis using find_key_length [OF Some] Some by (simp add: parse_side_def)
qed (simp add: parse_side_def)

lemma be32_range: "- (2 ^ 31) \<le> be32 p dat" "be32 p dat < 2 ^ 31"
proof -
  have v: "0 \<le> le_value s \<and> le_value s < 256 ^ length s" for s
  proof (induction s)
    case (Cons c s)
    have "of_char c < (256 :: nat)" by (metis of_char_mod_256 mod_less_divisor zero_less_numeral)
    then have "int (of_char c) < 256" by linarith
    moreover have "le_value s + 1 \<le> 256 ^ length s" "0 \<le> le_value s" using Cons by auto
    ultimately show ?case unfolding le_value.simps list.size(4) add_Suc_right add_0_right power_Suc by linarith
  qed simp
  have "256 ^ length (rev (take 4 (drop p dat))) \<le> (256 :: int) ^ 4" by (rule power_increasing) auto
  then have "le_value (rev (take 4 (drop p dat))) < 2 ^ 32" using v [of "rev (take 4 (drop p dat))"] by simp
  then show "- (2 ^ 31) \<le> be32 p dat" "be32 p dat < 2 ^ 31"
    using v [of "rev (take 4 (drop p dat))"] by (auto simp: be32_def Let_def)
qed

lemma zerodha_levels_length: "length (concat (map (zerodha_level dat sy sq base sd) is)) \<le> length is"
  by (induction "is") (auto simp: zerodha_level_def Let_def)

lemma zerodha_messages_length: "length (fst (zerodha_on_message dat f)) \<le> 2 * length dat"
proof (cases "length dat < 44 + 2 * 12")
  case False
  define n where "n = min 20 ((length dat - 44) div 24)"
  have l: "length (concat (map (zerodha_level dat sy sq base sd) [0 ..< n])) \<le> n" for sy sq base sd
    using zerodha_levels_length [of dat sy sq base sd "[0 ..< n]"] by simp
  have "n \<le> length dat" unfolding n_def by (metis (no_types, lifting) diff_le_self div_le_dividend le_trans min.cobounded2)
  moreover have "length (fst (zerodha_on_message dat f)) \<le> 2 * n"
    using False l [of "fs_symbol f" "next_seq f" 44 BUY] l [of "fs_symbol f" "next_seq f" "44 + n * 12" SELL]
    by (simp add: zerodha_on_message_def Let_def n_def [symmetric])
  ultimately show ?thesis by simp
qed (simp add: zerodha_on_message_def)

lemma on_message_length: "on_message fixed dat ad = (msgs, ad1) \<Longrightarrow> length msgs \<le> 2 * length dat"
  using zerodha_messages_length [of dat] parse_side_length [of key_b dat] parse_side_length [of key_a dat]
  by (cases ad, auto simp: binance_on_message_def Let_def split: prod.splits) (metis fst_conv)

lemma zerodha_price: "msg \<in> set (fst (zerodha_on_message dat f)) \<Longrightarrow> mm_price msg < INT64_MAX"
proof -
  assume "msg \<in> set (fst (zerodha_on_message dat f))"
  then obtain base i sd sy sq where "msg \<in> set (zerodha_level dat sy sq base sd i)"
    by (auto simp: zerodha_on_message_def Let_def split: if_splits)
  then show ?thesis
    using be32_range(2) [of "base + 12 * i + 4" dat]
    by (auto simp: zerodha_level_def Let_def paise_to_price_def int_limits split: if_splits)
qed

lemma on_message_price:
  assumes "\<And>t. fixed t < INT64_MAX" and "on_message fixed dat ad = (msgs, ad1)" and "msg \<in> set msgs"
  shows "mm_price msg < INT64_MAX"
proof (cases ad)
  case (Binance_Adapter f)
  then show ?thesis using assms
    by (auto simp: binance_on_message_def binance_level_def Let_def split: prod.splits)
next
  case (Zerodha_Adapter f)
  then have "msg \<in> set (fst (zerodha_on_message dat f))" using assms by (auto split: prod.splits)
  then show ?thesis by (rule zerodha_price)
qed

section \<open>Sessions of registrations and messages\<close>

datatype md_event = Register "nat \<Rightarrow> nanos" "nat \<Rightarrow> price" adapter symbol | Feed exchange symbol string

fun md_step :: "(string \<Rightarrow> int) \<Rightarrow> md_event \<Rightarrow> market_data \<Rightarrow> market_data option" where
  "md_step fixed (Register clk keys ad sy) md = Some (register_adapter clk keys ad sy md)"
| "md_step fixed (Feed e sy dat) md = feed fixed e sy dat md"

fun md_run :: "(string \<Rightarrow> int) \<Rightarrow> md_event list \<Rightarrow> market_data \<Rightarrow> market_data option" where
  "md_run fixed [] md = Some md"
| "md_run fixed (ev # evs) md = (case md_step fixed ev md of None \<Rightarrow> None | Some md1 \<Rightarrow> md_run fixed evs md1)"

fun md_bytes :: "md_event \<Rightarrow> nat" where
  "md_bytes (Register clk keys ad sy) = 0"
| "md_bytes (Feed e sy dat) = length dat"

text \<open>Every book is consistent and has used at most \<open>n\<close> order ids; an adapter has a book.\<close>

definition md_inv :: "nat \<Rightarrow> market_data \<Rightarrow> bool" where
  "md_inv n md \<longleftrightarrow> dom (md_adapters md) \<subseteq> dom (md_books md) \<and>
     (\<forall>k b. md_books md k = Some b \<longrightarrow> book_inv b \<and> order_id_seq b \<le> n)"

lemma new_market_data_inv: "md_inv 0 new_market_data"
  by (simp add: md_inv_def new_market_data_def)

lemma md_inv_mono: "md_inv m md \<Longrightarrow> m \<le> n \<Longrightarrow> md_inv n md"
  unfolding md_inv_def by (meson le_trans)

lemma register_inv: "md_inv n md \<Longrightarrow> md_inv n (register_adapter clk keys ad sy md)"
  using new_book_inv(1) [of sy True clk keys]
  by (auto simp: md_inv_def register_adapter_def get_or_create_book_def Let_def new_book_def split: option.splits)

lemma apply_delta_inv:
  assumes inv: "md_inv n md" and p: "mm_price msg < INT64_MAX" and n: "Suc n < 2 ^ 64"
  shows "\<exists>md1. apply_delta msg md = Some md1 \<and> md_inv (Suc n) md1"
proof (cases "md_books md (mm_exchange msg, mm_symbol msg)")
  case None
  then show ?thesis using md_inv_mono [OF inv, of "Suc n"] by (simp add: apply_delta_def)
next
  case (Some b)
  have b: "book_inv b" "order_id_seq b \<le> n" using inv Some by (auto simp: md_inv_def)
  then have "order_id_seq b < 2 ^ 64 - 1" using n by simp
  then obtain r b1 where "add_order (mm_side msg) LIMIT (mm_price msg) (mm_qty msg) (mm_exchange msg) b = Some (r, b1)"
      and "book_inv b1" "order_id_seq b1 \<le> order_id_seq b + 1"
    using add_order_inv [OF b(1), of LIMIT "mm_price msg" "mm_side msg" "mm_qty msg" "mm_exchange msg"] p by blast
  then show ?thesis
    using Some b md_inv_mono [OF inv, of "Suc n"] by (auto simp: apply_delta_def md_inv_def)
qed

lemma apply_deltas_inv:
  assumes "md_inv n md" and "\<And>msg. msg \<in> set msgs \<Longrightarrow> mm_price msg < INT64_MAX" and "n + length msgs < 2 ^ 64"
  shows "\<exists>md1. apply_deltas msgs md = Some md1 \<and> md_inv (n + length msgs) md1"
  using assms
proof (induction msgs arbitrary: n md)
  case (Cons msg msgs)
  then obtain md1 where "apply_delta msg md = Some md1" "md_inv (Suc n) md1"
    using apply_delta_inv [of n md msg] by auto
  moreover have "\<exists>md2. apply_deltas msgs md1 = Some md2 \<and> md_inv (Suc n + length msgs) md2"
    using Cons.prems by (intro Cons.IH [OF \<open>md_inv (Suc n) md1\<close>]) auto
  ultimately show ?case by auto
qed simp

lemma feed_inv:
  assumes inv: "md_inv n md" and fixed: "\<And>t. fixed t < INT64_MAX" and n: "n + 2 * length dat < 2 ^ 64"
  shows "\<exists>md1. feed fixed e sy dat md = Some md1 \<and> md_inv (n + 2 * length dat) md1"
proof (cases "md_adapters md (e, sy)")
  case None
  then show ?thesis using md_inv_mono [OF inv] by (simp add: feed_def)
next
  case (Some ad)
  obtain msgs ad1 where m: "on_message fixed dat ad = (msgs, ad1)" by fastforce
  have l: "length msgs \<le> 2 * length dat" by (rule on_message_length [OF m])
  have "md_inv n (md\<lparr>md_adapters := (md_adapters md)((e, sy) \<mapsto> ad1)\<rparr>)"
    using inv Some by (auto simp: md_inv_def)
  then obtain md1 where "apply_deltas msgs (md\<lparr>md_adapters := (md_adapters md)((e, sy) \<mapsto> ad1)\<rparr>) = Some md1"
      and "md_inv (n + length msgs) md1"
    using apply_deltas_inv on_message_price [OF fixed m] l n by (meson add_le_cancel_left le_less_trans)
  then show ?thesis using Some m md_inv_mono l by (auto simp: feed_def)
qed

lemma md_run_inv:
  assumes "md_inv n md" and "\<And>t. fixed t < INT64_MAX" and "n + 2 * sum_list (map md_bytes evs) < 2 ^ 64"
  shows "\<exists>md1. md_run fixed evs md = Some md1 \<and> md_inv (n + 2 * sum_list (map md_bytes evs)) md1"
  using assms
proof (induction evs arbitrary: n md)
  case (Cons ev evs)
  have "\<exists>md1. md_step fixed ev md = Some md1 \<and> md_inv (n + 2 * md_bytes ev) md1"
  proof (cases ev)
    case (Feed e sy dat)
    then show ?thesis using feed_inv [OF Cons.prems(1,2), where dat = dat and e = e and sy = sy] Cons.prems(3) by simp
  qed (use register_inv [OF Cons.prems(1)] in simp)
  then obtain md1 where md1: "md_step fixed ev md = Some md1" "md_inv (n + 2 * md_bytes ev) md1" by blast
  have "\<exists>md2. md_run fixed evs md1 = Some md2 \<and> md_inv (n + 2 * md_bytes ev + 2 * sum_list (map md_bytes evs)) md2"
    using Cons.prems by (intro Cons.IH [OF md1(2)]) auto
  then show ?case using md1(1) by (simp add: algebra_simps)
qed simp

text \<open>
  C33. Any sequence of registrations and of messages of any content, short enough for the order ids of 64 bits, is
  processed to its end, provided that the number \<open>fixed t\<close> that \<open>strtod\<close> and the conversion give is below the largest
  \<open>int64_t\<close> for every text \<open>t\<close>. It leaves a book for every adapter and every book consistent (\<open>book_inv\<close>): its ladders
  sorted, not crossed, its queues linked, its pool without a slot lost, and the total of each level the sum of its orders
  as an \<open>int64_t\<close> holds it, that is, modulo \<open>2 ^ 64\<close>: some forty levels of the largest 32-bit quantity at one price make it
  overflow. The prices that \<open>match_order\<close> reads from freed nodes (\<open>keys\<close> of \<open>Register\<close>) may be any.
\<close>

theorem feeds_safe:
  assumes "\<And>t. fixed t < INT64_MAX" and "2 * sum_list (map md_bytes evs) < 2 ^ 64"
  shows "\<exists>md. md_run fixed evs new_market_data = Some md \<and> dom (md_adapters md) \<subseteq> dom (md_books md) \<and>
    (\<forall>b \<in> ran (md_books md). book_inv b \<and> order_id_seq b \<le> 2 * sum_list (map md_bytes evs))"
proof -
  have "0 + 2 * sum_list (map md_bytes evs) < 2 ^ 64" using assms(2) by simp
  from md_run_inv [OF new_market_data_inv assms(1) this] show ?thesis
    unfolding md_inv_def by (force simp: ran_def)
qed

text \<open>A book of one symbol, a level for it, and a message for a symbol nobody registered.\<close>

definition fed :: "md_event list" where
  "fed = [Register (\<lambda>n. n) (\<lambda>n. 0) (set_adapter_symbol (mk_symbol ''INFY'') (Zerodha_Adapter new_feed)) (mk_symbol ''INFY''),
     Feed ZERODHA (mk_symbol ''INFY'') (replicate 47 NUL @ [CHR 0x05] @ replicate 3 NUL @ [CHR 0x07] @ replicate 16 NUL),
     Feed BINANCE (mk_symbol ''BTC'') ''{}'']"

theorem feeds_safe_witness:
  "\<exists>md. md_run (\<lambda>t. 1) fed new_market_data = Some md \<and> dom (md_adapters md) \<subseteq> dom (md_books md)"
proof -
  have "2 * sum_list (map md_bytes fed) < 2 ^ 64" by (simp add: fed_def)
  from feeds_safe [OF _ this, of "\<lambda>t. 1"] show ?thesis by (auto simp: int_limits)
qed

section \<open>A packet of Zerodha\<close>

text \<open>An entry of the depth: quantity, price in paise, and four bytes nobody reads.\<close>

definition depth_entry :: "int \<times> int \<times> string \<Rightarrow> string" where
  "depth_entry x = rev (le_bytes 4 (fst x)) @ rev (le_bytes 4 (fst (snd x))) @ snd (snd x)"

definition entry_ok :: "int \<times> int \<times> string \<Rightarrow> bool" where
  "entry_ok x \<longleftrightarrow> - (2 ^ 31) \<le> fst x \<and> fst x < 2 ^ 31 \<and> - (2 ^ 31) \<le> fst (snd x) \<and> fst (snd x) < 2 ^ 31 \<and>
     length (snd (snd x)) = 4"

definition depth_packet :: "string \<Rightarrow> (int \<times> int \<times> string) list \<Rightarrow> (int \<times> int \<times> string) list \<Rightarrow> string \<Rightarrow> string" where
  "depth_packet hdr bids asks rest = hdr @ concat (map depth_entry bids) @ concat (map depth_entry asks) @ rest"

definition entry_messages :: "symbol \<Rightarrow> int \<Rightarrow> side \<Rightarrow> (int \<times> int \<times> string) list \<Rightarrow> md_msg list" where
  "entry_messages sy sq sd es =
     map (\<lambda>x. \<lparr>mm_type = DELTA, mm_side = sd, mm_price = fst (snd x) * 1000000, mm_qty = to_qty_int (fst x), mm_seq = sq,
        mm_exchange = ZERODHA, mm_symbol = sy\<rparr>) (filter (\<lambda>x. \<not> (fst x = 0 \<and> fst (snd x) = 0)) es)"

lemma be32_entry:
  assumes "- (2 ^ 31) \<le> v" "v < 2 ^ 31"
  shows "be32 (length a) (a @ rev (le_bytes 4 v) @ r) = v"
proof -
  have "v mod 256 ^ 4 = (if v < 0 then v + 2 ^ 32 else v)"
  proof (cases "v < 0")
    case True
    have "v mod 2 ^ 32 = (v + 2 ^ 32) mod 2 ^ 32" by simp
    also have "\<dots> = v + 2 ^ 32" using assms True by (intro mod_pos_pos_trivial) auto
    finally show ?thesis using True by simp
  qed (use assms in simp)
  then show ?thesis using assms by (simp add: be32_def le_value_le_bytes Let_def)
qed

lemma length_depth: "list_all entry_ok es \<Longrightarrow> length (concat (map depth_entry es)) = 12 * length es"
  by (induction es) (auto simp: depth_entry_def entry_ok_def)

lemma zerodha_level_entry:
  assumes "entry_ok x" and "length a = base + 12 * i"
  shows "zerodha_level (a @ depth_entry x @ r) sy sq base sd i = entry_messages sy sq sd [x]"
proof -
  have q: "be32 (base + 12 * i) (a @ depth_entry x @ r) = fst x"
    using be32_entry [of "fst x" a "rev (le_bytes 4 (fst (snd x))) @ snd (snd x) @ r"] assms
    by (simp add: depth_entry_def entry_ok_def)
  have "be32 (length (a @ rev (le_bytes 4 (fst x)))) ((a @ rev (le_bytes 4 (fst x))) @ rev (le_bytes 4 (fst (snd x))) @ snd (snd x) @ r) =
      fst (snd x)"
    by (rule be32_entry) (use assms in \<open>auto simp: entry_ok_def\<close>)
  then have p: "be32 (base + 12 * i + 4) (a @ depth_entry x @ r) = fst (snd x)"
    using assms by (simp add: depth_entry_def)
  show ?thesis by (simp only: zerodha_level_def p q) (simp add: Let_def entry_messages_def paise_to_price_def)
qed

lemma zerodha_levels_entries:
  assumes "list_all entry_ok es" and "length a = base"
  shows "concat (map (zerodha_level (a @ concat (map depth_entry es) @ r) sy sq base sd) [0 ..< length es]) = entry_messages sy sq sd es"
  using assms
proof (induction es arbitrary: r rule: rev_induct)
  case (snoc x es)
  have e: "a @ concat (map depth_entry (es @ [x])) @ r = a @ concat (map depth_entry es) @ (depth_entry x @ r)" by simp
  have "zerodha_level (a @ concat (map depth_entry (es @ [x])) @ r) sy sq base sd (length es) = entry_messages sy sq sd [x]"
    using zerodha_level_entry [of x "a @ concat (map depth_entry es)" base "length es" r] snoc.prems length_depth [of es] by simp
  moreover have "concat (map (zerodha_level (a @ concat (map depth_entry (es @ [x])) @ r) sy sq base sd) [0 ..< length es]) =
      entry_messages sy sq sd es"
    unfolding e using snoc.prems by (intro snoc.IH) auto
  ultimately show ?case by (simp add: entry_messages_def)
qed (simp add: entry_messages_def)

text \<open>
  A packet of up to 20 levels on each side in the documented layout, a header of 44 bytes and 12 bytes for every
  entry, is read entry by entry: the messages are the bids and then the asks, in their order, with the price and the
  quantity that were written, without the entries that are zero in both. Fewer than 24 bytes may follow, or any number
  behind 20 levels.
\<close>

theorem zerodha_feed:
  assumes "length hdr = 44" and "list_all entry_ok bids" and "list_all entry_ok asks"
    and "length bids = n" and "length asks = n" and "1 \<le> n" and "n \<le> 20" and "length rest < 24 \<or> n = 20"
  shows "zerodha_on_message (depth_packet hdr bids asks rest) f =
    (entry_messages (fs_symbol f) (next_seq f) BUY bids @ entry_messages (fs_symbol f) (next_seq f) SELL asks,
     f\<lparr>fs_seq := next_seq f\<rparr>)"
proof -
  define dat where "dat = depth_packet hdr bids asks rest"
  have len: "length dat = 44 + 24 * n + length rest"
    using assms length_depth by (simp add: dat_def depth_packet_def)
  have n: "min 20 ((length dat - 44) div (2 * 12)) = n"
  proof (cases "n = 20")
    case False
    then have "(24 * n + length rest) div 24 = n" using assms(8) by simp
    then show ?thesis using len assms(7) by simp
  qed (simp add: len)
  have "concat (map (zerodha_level dat sy sq 44 BUY) [0 ..< n]) = entry_messages sy sq BUY bids" for sy sq
    using zerodha_levels_entries [of bids hdr 44 "concat (map depth_entry asks) @ rest"] assms
    by (simp add: dat_def depth_packet_def)
  moreover have "concat (map (zerodha_level dat sy sq (44 + n * 12) SELL) [0 ..< n]) = entry_messages sy sq SELL asks" for sy sq
    using zerodha_levels_entries [of asks "hdr @ concat (map depth_entry bids)" "44 + n * 12" rest] assms length_depth [of bids]
    by (simp add: dat_def depth_packet_def)
  ultimately show ?thesis
    unfolding dat_def [symmetric] zerodha_on_message_def n Let_def using len assms(6) by simp
qed

theorem zerodha_feed_witness:
  "zerodha_on_message (depth_packet (replicate 44 NUL) [(5, 7, ''abcd''), (0, 0, ''abcd'')] [(-1, 9, ''abcd''), (2, 3, ''abcd'')] ''x'') new_feed =
    (entry_messages (fs_symbol new_feed) (next_seq new_feed) BUY [(5, 7, ''abcd''), (0, 0, ''abcd'')] @
     entry_messages (fs_symbol new_feed) (next_seq new_feed) SELL [(-1, 9, ''abcd''), (2, 3, ''abcd'')],
     new_feed\<lparr>fs_seq := next_seq new_feed\<rparr>)"
  by (rule zerodha_feed [where n = 2]) (simp_all add: entry_ok_def)


section \<open>A depth frame of Binance\<close>

definition level_text :: "string \<times> string \<Rightarrow> string" where
  "level_text l = ''[\"'' @ fst l @ ''\",\"'' @ snd l @ ''\"]''"

fun levels_text :: "(string \<times> string) list \<Rightarrow> string" where
  "levels_text [] = ''''"
| "levels_text [l] = level_text l"
| "levels_text (l # ls) = level_text l @ '', '' @ levels_text ls"

definition decimal :: "string \<Rightarrow> bool" where
  "decimal t \<longleftrightarrow> list_all (\<lambda>c. is_digit c \<or> c = CHR ''.'') t \<and> length t \<le> 31"

definition level_ok :: "string \<times> string \<Rightarrow> bool" where
  "level_ok l \<longleftrightarrow> decimal (fst l) \<and> decimal (snd l)"

lemma decimal_chars:
  assumes "decimal t"
  shows "CHR 0x22 \<notin> set t \<and> CHR ''['' \<notin> set t \<and> CHR '']'' \<notin> set t \<and> NUL \<notin> set t"
proof -
  have d: "\<not> (is_digit c \<or> c = CHR ''.'')" if "c \<in> {CHR 0x22, CHR ''['', CHR '']'', NUL}" for c
    using that by (elim insertE emptyE; hypsubst) code_simp+
  then show ?thesis using assms unfolding decimal_def list_all_iff by blast
qed

lemma skip_to_append: "c \<notin> set a \<Longrightarrow> skip_to c (a @ c # r) = c # r"
  by (induction a) (auto simp: skip_to_def)

lemma skip_to_here [simp]: "skip_to c (c # r) = c # r" and skip_to_Nil [simp]: "skip_to c [] = []"
  by (simp_all add: skip_to_def)

lemma skip_to_there: "d \<noteq> c \<Longrightarrow> skip_to c (d # r) = skip_to c r"
  by (simp add: skip_to_def)

lemma quoted_text:
  assumes "decimal t"
  shows "quoted (CHR 0x22 # t @ CHR 0x22 # r) = Some (t, r)"
proof -
  have "takeWhile (\<lambda>c. c \<noteq> CHR 0x22) (t @ CHR 0x22 # r) = t"
    using decimal_chars [OF assms] by (induction t) auto
  moreover have "buffer t = t"
    using decimal_chars [OF assms] assms unfolding buffer_def by (simp add: decimal_def takeWhile_eq_all_conv) metis
  ultimately show ?thesis
    using skip_to_append [of "CHR 0x22" t r] decimal_chars [OF assms] by (simp add: quoted_def Let_def)
qed

lemma parse_levels_other:
  assumes "c \<noteq> CHR ''[''" and "c \<noteq> CHR '']''"
  shows "parse_levels (c # s) = parse_levels s"
proof (cases "skip_ws (c # s) = c # s")
  case True
  then show ?thesis using assms by (subst parse_levels.simps) simp
next
  case False
  then have "skip_ws (c # s) = skip_ws s" by (auto simp: skip_ws_def split: if_splits)
  then show ?thesis by (subst (1 2) parse_levels.simps) simp
qed

lemma parse_levels_close: "CHR ''['' \<notin> set t \<Longrightarrow> CHR '']'' \<notin> set t \<Longrightarrow> parse_levels (t @ CHR '']'' # r) = []"
proof (induction t)
  case Nil
  show ?case by (subst parse_levels.simps) (simp add: skip_ws_def)
qed (auto simp: parse_levels_other)

lemma parse_levels_level:
  assumes "level_ok l"
  shows "parse_levels (level_text l @ r) = l # parse_levels r"
proof -
  have p: "quoted (CHR 0x22 # fst l @ CHR 0x22 # CHR '','' # CHR 0x22 # snd l @ CHR 0x22 # CHR '']'' # r) =
      Some (fst l, CHR '','' # CHR 0x22 # snd l @ CHR 0x22 # CHR '']'' # r)"
    by (rule quoted_text) (use assms in \<open>simp add: level_ok_def\<close>)
  have "quoted (CHR 0x22 # snd l @ CHR 0x22 # CHR '']'' # r) = Some (snd l, CHR '']'' # r)"
    by (rule quoted_text) (use assms in \<open>simp add: level_ok_def\<close>)
  then have q: "quoted (CHR '','' # CHR 0x22 # snd l @ CHR 0x22 # CHR '']'' # r) = Some (snd l, CHR '']'' # r)"
    by (simp add: quoted_def skip_to_there)
  have w: "skip_ws (CHR ''['' # s) = CHR ''['' # s" for s by (simp add: skip_ws_def)
  show ?thesis using p q w by (subst parse_levels.simps) (simp add: level_text_def)
qed

lemma parse_levels_text: "list_all level_ok ls \<Longrightarrow> parse_levels (levels_text ls @ CHR '']'' # r) = ls"
proof (induction ls rule: levels_text.induct)
  case 1
  show ?case using parse_levels_close [of "[]" r] by simp
next
  case (2 l)
  then show ?case using parse_levels_level [of l "CHR '']'' # r"] parse_levels_close [of "[]" r] by simp
next
  case (3 l l2 ls)
  then show ?case by (simp add: parse_levels_level parse_levels_other)
qed

lemma levels_text_Cons: "\<exists>t. levels_text (l # ls) = level_text l @ t"
  by (cases ls) auto

text \<open>Behind the bracket of a side that is not empty the code reads nothing.\<close>

lemma parse_side_full:
  assumes "find_key key dat = Some (levels_text (l # ls) @ r)" and "level_ok l"
  shows "parse_side key dat = []"
proof -
  obtain t where t: "levels_text (l # ls) = level_text l @ t" using levels_text_Cons by blast
  have "tl (skip_to (CHR ''['') (levels_text (l # ls) @ r)) =
      (CHR 0x22 # fst l @ ''\",\"'' @ snd l @ [CHR 0x22]) @ CHR '']'' # (t @ r)"
    unfolding t by (simp add: level_text_def)
  moreover have "parse_levels \<dots> = []"
    by (rule parse_levels_close) (use assms(2) decimal_chars in \<open>auto simp: level_ok_def\<close>)
  ultimately show ?thesis using assms(1) by (simp add: parse_side_def)
qed

lemma parse_side_end:
  assumes "find_key key dat = Some r" and "CHR ''['' \<notin> set r"
  shows "parse_side key dat = []"
proof -
  have "skip_to (CHR ''['') r = []" using assms(2) by (auto simp: skip_to_def dropWhile_eq_Nil_conv)
  then show ?thesis using assms(1) by (simp add: parse_side_def) (subst parse_levels.simps, simp add: skip_ws_def)
qed

text \<open>
  C34. A depth frame in the documented layout (behind the key of the bids their levels, a bracket, the key of the asks,
  their levels and a bracket) is never read as it is meant: when both sides have levels no message is sent at all, since
  the bracket of the first level is taken for the one of the array; when there are only bids none is sent either; and
  when there are only asks, they are sent as bids.
\<close>

theorem binance_frames:
  assumes "find_key key_b dat = Some (levels_text bids @ ''],'' @ key_a @ levels_text asks @ '']'' @ rest)"
    and "find_key key_a dat = Some (levels_text asks @ '']'' @ rest)"
    and "list_all level_ok bids" and "list_all level_ok asks" and "CHR ''['' \<notin> set rest"
  shows "fst (binance_on_message fixed dat f) =
    (if bids = [] \<and> asks \<noteq> [] then
       map (binance_level fixed (fs_symbol f) (case find_key key_u dat of None \<Rightarrow> next_seq f | Some r \<Rightarrow> strtoull r) BUY) asks
     else [])"
proof -
  have b: "parse_side key_b dat = (if bids = [] then asks else [])"
  proof (cases bids)
    case Nil
    have "tl (skip_to (CHR ''['') (''],'' @ key_a @ levels_text asks @ '']'' @ rest)) = levels_text asks @ CHR '']'' # rest"
      by (simp add: key_a_def skip_to_there)
    then show ?thesis using assms(1) Nil parse_levels_text [OF assms(4)] by (simp add: parse_side_def)
  next
    case (Cons l ls)
    then show ?thesis using parse_side_full [of key_b dat l ls] assms(1,3) by simp
  qed
  have "parse_side key_a dat = []"
  proof (cases asks)
    case Nil
    then show ?thesis using parse_side_end [OF assms(2)] assms(5) by simp
  next
    case (Cons l ls)
    then show ?thesis using parse_side_full [of key_a dat l ls] assms(2,4) by simp
  qed
  then show ?thesis using b by (simp add: binance_on_message_def Let_def)
qed

text \<open>The frame of the comment, and the same frame without bids.\<close>

definition depth_frame :: "(string \<times> string) list \<Rightarrow> (string \<times> string) list \<Rightarrow> string" where
  "depth_frame bids asks =
     ''{\"e\":\"depthUpdate\",\"E\":123456789,\"s\":\"BTCUSDT\",\"U\":100,\"u\":105,'' @
     key_b @ levels_text bids @ ''],'' @ key_a @ levels_text asks @ '']}''"

theorem binance_frames_witness:
  "fst (binance_on_message (\<lambda>t. int (length t)) (depth_frame [(''50000.0'', ''0.5'')] [(''50100.0'', ''0.8'')]) new_feed) = [] \<and>
   fst (binance_on_message (\<lambda>t. int (length t)) (depth_frame [] [(''50100.0'', ''0.8''), (''9.1'', ''2'')]) new_feed) =
     [binance_level (\<lambda>t. int (length t)) (mk_symbol []) 105 BUY (''50100.0'', ''0.8''),
      binance_level (\<lambda>t. int (length t)) (mk_symbol []) 105 BUY (''9.1'', ''2'')]"
proof -
  have ok: "level_ok (''50000.0'', ''0.5'')" "level_ok (''50100.0'', ''0.8'')" "level_ok (''9.1'', ''2'')"
    by (simp_all add: level_ok_def decimal_def is_digit_def)
  have "fst (binance_on_message (\<lambda>t. int (length t)) (depth_frame [(''50000.0'', ''0.5'')] [(''50100.0'', ''0.8'')]) new_feed) = []"
    by (subst binance_frames [where bids = "[(''50000.0'', ''0.5'')]" and asks = "[(''50100.0'', ''0.8'')]" and rest = "''}''"])
      (simp_all add: depth_frame_def find_key_Cons key_a_def key_b_def level_text_def ok)
  moreover have "fst (binance_on_message (\<lambda>t. int (length t)) (depth_frame [] [(''50100.0'', ''0.8''), (''9.1'', ''2'')]) new_feed) =
      map (binance_level (\<lambda>t. int (length t)) (fs_symbol new_feed)
        (case find_key key_u (depth_frame [] [(''50100.0'', ''0.8''), (''9.1'', ''2'')]) of None \<Rightarrow> next_seq new_feed | Some r \<Rightarrow> strtoull r) BUY)
        [(''50100.0'', ''0.8''), (''9.1'', ''2'')]"
    by (subst binance_frames [where bids = "[]" and asks = "[(''50100.0'', ''0.8''), (''9.1'', ''2'')]" and rest = "''}''"])
      (simp_all add: depth_frame_def find_key_Cons key_a_def key_b_def level_text_def ok)
  then have "fst (binance_on_message (\<lambda>t. int (length t)) (depth_frame [] [(''50100.0'', ''0.8''), (''9.1'', ''2'')]) new_feed) =
     [binance_level (\<lambda>t. int (length t)) (mk_symbol []) 105 BUY (''50100.0'', ''0.8''),
      binance_level (\<lambda>t. int (length t)) (mk_symbol []) 105 BUY (''9.1'', ''2'')]"
    by (simp add: depth_frame_def find_key_Cons key_u_def key_a_def key_b_def level_text_def new_feed_def strtoull_def signed_digits_def
      is_cspace_def is_digit_def digits_value_def digit_value_def)
  ultimately show ?thesis by blast
qed

end
