(* ===== verification/Memory_Store.thy ===== *)
theory Memory_Store
  imports Nano_Prelude
begin

text \<open>
  The memory store (\<open>memorySet\<close>, \<open>memoryGet\<close> and \<open>memoryScheduler\<close> in \<open>generator.hpp\<close>, \<open>MemoryEntry\<close> and
  \<open>ExpiryNode\<close> in \<open>global.hpp\<close>): keys with a value and a time to live, a heap of the times at which entries expire, and the
  thread that erases them.

  A time point is the number of nanoseconds of the steady clock, unbounded here: it stays below \<open>TIME_MAX\<close> for
  centuries. The heap is the list of its nodes in the order in which they leave it.
\<close>

record mem_entry =
  me_value :: string
  me_expiry :: int

type_synonym expiry_node = "int \<times> string"

record mem =
  mem_store :: "string \<rightharpoonup> mem_entry"
  exp_heap :: "expiry_node list"

definition empty_mem :: mem where
  "empty_mem = \<lparr>mem_store = Map.empty, exp_heap = []\<rparr>"

definition TIME_MAX :: int where "TIME_MAX = INT64_MAX"

section \<open>The critical sections\<close>

definition expiry_at :: "int \<Rightarrow> int \<Rightarrow> int" where
  "expiry_at now ttl = (if ttl < 0 then TIME_MAX else now + ttl * 1000000000)"

definition mem_put :: "string \<Rightarrow> string \<Rightarrow> int \<Rightarrow> mem \<Rightarrow> mem" where
  "mem_put k v e m = m\<lparr>mem_store := (mem_store m)(k \<mapsto> \<lparr>me_value = v, me_expiry = e\<rparr>)\<rparr>"

definition heap_push :: "int \<Rightarrow> string \<Rightarrow> mem \<Rightarrow> mem" where
  "heap_push e k m = m\<lparr>exp_heap := insort_key fst (e, k) (exp_heap m)\<rparr>"

datatype mem_lookup = Absent | Fresh string | Stale

definition mem_check :: "int \<Rightarrow> string \<Rightarrow> mem \<Rightarrow> mem_lookup" where
  "mem_check now k m =
     (case mem_store m k of
        None \<Rightarrow> Absent
      | Some en \<Rightarrow> if now < me_expiry en then Fresh (me_value en) else Stale)"

definition mem_erase :: "string \<Rightarrow> mem \<Rightarrow> mem" where
  "mem_erase k m = m\<lparr>mem_store := (mem_store m)(k := None)\<rparr>"

definition expire_node :: "expiry_node \<Rightarrow> mem \<Rightarrow> mem" where
  "expire_node nd m =
     (case mem_store m (snd nd) of
        None \<Rightarrow> m
      | Some en \<Rightarrow> if me_expiry en = fst nd then mem_erase (snd nd) m else m)"

section \<open>The operations\<close>

definition memorySet :: "int \<Rightarrow> string \<Rightarrow> string \<Rightarrow> int \<Rightarrow> mem \<Rightarrow> mem" where
  "memorySet now k v ttl m =
     (let m1 = mem_put k v (expiry_at now ttl) m
      in if 0 \<le> ttl then heap_push (expiry_at now ttl) k m1 else m1)"

definition memoryGet :: "int \<Rightarrow> string \<Rightarrow> mem \<Rightarrow> string option \<times> mem" where
  "memoryGet now k m =
     (case mem_check now k m of
        Absent \<Rightarrow> (None, m)
      | Fresh v \<Rightarrow> (Some v, m)
      | Stale \<Rightarrow> (None, mem_erase k m))"

lemma exp_heap_simps [simp]:
  "exp_heap (expire_node nd m) = exp_heap m" "exp_heap (mem_erase k m) = exp_heap m" "exp_heap (mem_put k v e m) = exp_heap m"
  "exp_heap (heap_push e k m) = insort_key fst (e, k) (exp_heap m)" "mem_store (heap_push e k m) = mem_store m"
  by (auto simp: expire_node_def mem_erase_def mem_put_def heap_push_def split: option.splits)

text \<open>The inner loop of \<open>memoryScheduler\<close>.\<close>

function mem_drain :: "int \<Rightarrow> mem \<Rightarrow> mem" where
  "mem_drain now m =
     (case exp_heap m of
        [] \<Rightarrow> m
      | nd # nds \<Rightarrow> if fst nd \<le> now then mem_drain now (expire_node nd (m\<lparr>exp_heap := nds\<rparr>)) else m)"
  by pat_completeness auto

termination
  by (relation "measure (\<lambda>(now, m). length (exp_heap m))") auto

declare mem_drain.simps [simp del]

section \<open>A map with times to live\<close>

datatype mem_op = Set_Op string string int | Get_Op string | Sweep_Op

fun mem_run :: "(int \<times> mem_op) list \<Rightarrow> mem \<Rightarrow> string option list" where
  "mem_run [] m = []"
| "mem_run ((t, Set_Op k v ttl) # ops) m = mem_run ops (memorySet t k v ttl m)"
| "mem_run ((t, Get_Op k) # ops) m = (case memoryGet t k m of (r, m1) \<Rightarrow> r # mem_run ops m1)"
| "mem_run ((t, Sweep_Op) # ops) m = mem_run ops (mem_drain t m)"

text \<open>The specification: the last value that was set for the key, with the time until which it is seen.\<close>

fun ttl_run :: "(int \<times> mem_op) list \<Rightarrow> (string \<rightharpoonup> string \<times> int) \<Rightarrow> string option list" where
  "ttl_run [] f = []"
| "ttl_run ((t, Set_Op k v ttl) # ops) f = ttl_run ops (f(k \<mapsto> (v, expiry_at t ttl)))"
| "ttl_run ((t, Get_Op k) # ops) f =
     (case f k of None \<Rightarrow> None | Some (v, e) \<Rightarrow> if t < e then Some v else None) # ttl_run ops f"
| "ttl_run ((t, Sweep_Op) # ops) f = ttl_run ops f"

text \<open>What is stored is what was set last; what is missing was never set or has expired by now.\<close>

definition ttl_rel :: "int \<Rightarrow> mem \<Rightarrow> (string \<rightharpoonup> string \<times> int) \<Rightarrow> bool" where
  "ttl_rel now m f \<longleftrightarrow>
     (\<forall>k. case mem_store m k of
        None \<Rightarrow> (case f k of None \<Rightarrow> True | Some (v, e) \<Rightarrow> e \<le> now)
      | Some en \<Rightarrow> f k = Some (me_value en, me_expiry en))"

lemma ttl_rel_None: "ttl_rel now m f \<Longrightarrow> mem_store m k = None \<Longrightarrow> f k = Some (v, e) \<Longrightarrow> e \<le> now"
  by (auto simp: ttl_rel_def dest: spec [of _ k])

lemma ttl_rel_Some: "ttl_rel now m f \<Longrightarrow> mem_store m k = Some en \<Longrightarrow> f k = Some (me_value en, me_expiry en)"
  by (auto simp: ttl_rel_def dest: spec [of _ k])

lemma ttl_relI:
  assumes "\<And>k v e. mem_store m k = None \<Longrightarrow> f k = Some (v, e) \<Longrightarrow> e \<le> now"
    and "\<And>k en. mem_store m k = Some en \<Longrightarrow> f k = Some (me_value en, me_expiry en)"
  shows "ttl_rel now m f"
  using assms by (auto simp: ttl_rel_def split: option.splits)

lemma ttl_rel_later: "ttl_rel t m f \<Longrightarrow> t \<le> u \<Longrightarrow> ttl_rel u m f"
  by (auto intro!: ttl_relI dest: ttl_rel_None ttl_rel_Some)

lemma ttl_rel_erase:
  assumes "ttl_rel t m f" and "\<And>en. mem_store m k = Some en \<Longrightarrow> me_expiry en \<le> t"
  shows "ttl_rel t (mem_erase k m) f"
proof (rule ttl_relI)
  fix k1 v e
  assume "mem_store (mem_erase k m) k1 = None" "f k1 = Some (v, e)"
  then show "e \<le> t" using assms ttl_rel_None [OF assms(1), of k1 v e] ttl_rel_Some [OF assms(1), of k1]
    by (cases "mem_store m k1") (auto simp: mem_erase_def split: if_splits)
qed (use ttl_rel_Some [OF assms(1)] in \<open>auto simp: mem_erase_def split: if_splits\<close>)

lemma ttl_rel_set: "ttl_rel t m f \<Longrightarrow> ttl_rel t (memorySet now k v ttl m) (f(k \<mapsto> (v, expiry_at now ttl)))"
  by (rule ttl_relI) (auto simp: memorySet_def Let_def mem_put_def split: if_splits dest: ttl_rel_None ttl_rel_Some)

lemma ttl_rel_node:
  assumes "ttl_rel t m f" and "fst nd \<le> t"
  shows "ttl_rel t (expire_node nd m) f"
  using assms ttl_rel_erase [OF assms(1), of "snd nd"] by (auto simp: expire_node_def split: option.splits)

lemma ttl_rel_heap [simp]: "ttl_rel t (m\<lparr>exp_heap := h\<rparr>) f = ttl_rel t m f"
  by (simp add: ttl_rel_def)

lemma ttl_rel_drain: "ttl_rel t m f \<Longrightarrow> ttl_rel t (mem_drain t m) f"
proof (induction t m rule: mem_drain.induct)
  case (1 t m)
  show ?case
  proof (cases "exp_heap m")
    case (Cons nd nds)
    then show ?thesis using 1(1) [OF Cons] 1(2) ttl_rel_node [of t "m\<lparr>exp_heap := nds\<rparr>" f nd]
      by (subst mem_drain.simps) simp
  qed (use 1(2) in \<open>subst mem_drain.simps, simp\<close>)
qed

lemma ttl_rel_run:
  "ttl_rel t m f \<Longrightarrow> sorted (map fst ops) \<Longrightarrow> (\<And>u. u \<in> fst ` set ops \<Longrightarrow> t \<le> u) \<Longrightarrow> mem_run ops m = ttl_run ops f"
proof (induction ops arbitrary: t m f)
  case (Cons x ops)
  obtain u oper where x: "x = (u, oper)" by fastforce
  have rel: "ttl_rel u m f" using Cons.prems(1,3) by (auto simp: x intro: ttl_rel_later)
  have rest: "sorted (map fst ops)" "\<And>w. w \<in> fst ` set ops \<Longrightarrow> u \<le> w" using Cons.prems(2) by (auto simp: x)
  show ?case
  proof (cases oper)
    case (Set_Op k v ttl)
    then show ?thesis using Cons.IH [OF ttl_rel_set [OF rel] rest] x by (simp add: fun_upd_def)
  next
    case (Get_Op k)
    have e: "mem_check u k m = Stale \<Longrightarrow> ttl_rel u (mem_erase k m) f"
      using rel by (intro ttl_rel_erase) (auto simp: mem_check_def split: if_splits)
    have "fst (memoryGet u k m) = (case f k of None \<Rightarrow> None | Some (v, e) \<Rightarrow> if u < e then Some v else None)"
      using ttl_rel_None [OF rel, of k] ttl_rel_Some [OF rel, of k]
      by (auto simp: memoryGet_def mem_check_def split: option.splits)
    moreover have "ttl_rel u (snd (memoryGet u k m)) f"
      using rel e by (auto simp: memoryGet_def split: mem_lookup.splits)
    ultimately show ?thesis using Cons.IH [OF _ rest, of "snd (memoryGet u k m)" f] x Get_Op by (simp add: case_prod_beta)
  next
    case Sweep_Op
    then show ?thesis using Cons.IH [OF ttl_rel_drain [OF rel] rest] x by simp
  qed
qed simp

text \<open>
  C35. When one operation runs at a time, the memory store is a map with times to live: whatever values are set, read
  and swept at whatever times, a read gives the value that was set last for the key, until its time to live has passed,
  and nothing from then on; neither the sweeps of the scheduler nor the erasing reads change what later reads give.
\<close>

theorem ttl_store:
  assumes "sorted (map fst ops)"
  shows "mem_run ops empty_mem = ttl_run ops Map.empty"
proof (cases ops)
  case (Cons x rest)
  have "ttl_rel (fst x) empty_mem Map.empty" by (simp add: ttl_rel_def empty_mem_def)
  then show ?thesis using assms by (rule ttl_rel_run) (use assms Cons in auto)
qed simp

theorem ttl_store_witness:
  "mem_run [(1, Set_Op ''a'' ''x'' 5), (2, Set_Op ''a'' ''y'' (-1)), (3, Set_Op ''b'' ''z'' 0), (4, Get_Op ''b''), (6000000000, Sweep_Op),
     (6000000001, Get_Op ''a'')] empty_mem = [None, Some ''y'']"
  by (subst ttl_store) (simp_all add: expiry_at_def TIME_MAX_def int_limits)


section \<open>Threads\<close>

text \<open>
  Every critical section is one step. A thread that sets has computed the expiry before it takes the first mutex, and takes
  the mutex of the heap after it has released the one of the store; a thread that gets has released the shared lock before
  it erases. The scheduler holds the mutex of the heap while it drains, takes the mutex of the store for every node, and
  may wake up at any time.
\<close>

datatype mem_pc = P_Idle | P_Store string string int bool | P_Push int string | P_Erase string

datatype sched_pc = S_Test | S_Wait | S_Until int | S_Drain int | S_Node int expiry_node | S_End

record mem_sys =
  ms_mem :: mem
  ms_now :: int
  ms_threads :: "nat \<Rightarrow> mem_pc"
  ms_sched :: sched_pc
  ms_running :: bool
  ms_sets :: "(string \<times> string \<times> int) list"

definition mem_start :: "int \<Rightarrow> mem_sys" where
  "mem_start now = \<lparr>ms_mem = empty_mem, ms_now = now, ms_threads = (\<lambda>_. P_Idle), ms_sched = S_Test, ms_running = True, ms_sets = []\<rparr>"

definition mem_goto :: "nat \<Rightarrow> mem_pc \<Rightarrow> mem_sys \<Rightarrow> mem_sys" where
  "mem_goto i pc s = s\<lparr>ms_threads := (ms_threads s)(i := pc)\<rparr>"

fun draining :: "sched_pc \<Rightarrow> bool" where
  "draining (S_Drain t) = True"
| "draining (S_Node t nd) = True"
| "draining _ = False"

inductive mem_step :: "mem_sys \<Rightarrow> mem_sys \<Rightarrow> bool" where
  tick: "ms_now s \<le> t \<Longrightarrow> mem_step s (s\<lparr>ms_now := t\<rparr>)"
| set_call: "ms_threads s i = P_Idle \<Longrightarrow>
    mem_step s (mem_goto i (P_Store k v (expiry_at (ms_now s) ttl) (0 \<le> ttl)) s)"
| set_put: "ms_threads s i = P_Store k v e timed \<Longrightarrow>
    mem_step s (mem_goto i (if timed then P_Push e k else P_Idle)
      (s\<lparr>ms_mem := mem_put k v e (ms_mem s), ms_sets := ms_sets s @ [(k, v, e)]\<rparr>))"
| set_push: "ms_threads s i = P_Push e k \<Longrightarrow> \<not> draining (ms_sched s) \<Longrightarrow>
    mem_step s (mem_goto i P_Idle (s\<lparr>ms_mem := heap_push e k (ms_mem s)\<rparr>))"
| get_check: "ms_threads s i = P_Idle \<Longrightarrow>
    mem_step s (mem_goto i (if mem_check (ms_now s) k (ms_mem s) = Stale then P_Erase k else P_Idle) s)"
| get_erase: "ms_threads s i = P_Erase k \<Longrightarrow>
    mem_step s (mem_goto i P_Idle (s\<lparr>ms_mem := mem_erase k (ms_mem s)\<rparr>))"
| sched_test: "ms_sched s = S_Test \<Longrightarrow> ms_running s \<Longrightarrow>
    mem_step s (s\<lparr>ms_sched := (case exp_heap (ms_mem s) of [] \<Rightarrow> S_Wait | nd # nds \<Rightarrow> S_Until (fst nd))\<rparr>)"
| sched_end: "ms_sched s = S_Test \<Longrightarrow> \<not> ms_running s \<Longrightarrow> mem_step s (s\<lparr>ms_sched := S_End\<rparr>)"
| sched_wake: "ms_sched s = S_Wait \<Longrightarrow> mem_step s (s\<lparr>ms_sched := S_Test\<rparr>)"
| sched_time: "ms_sched s = S_Until e \<Longrightarrow> mem_step s (s\<lparr>ms_sched := S_Drain (ms_now s)\<rparr>)"
| sched_pop: "ms_sched s = S_Drain t \<Longrightarrow> exp_heap (ms_mem s) = nd # nds \<Longrightarrow> fst nd \<le> t \<Longrightarrow>
    mem_step s (s\<lparr>ms_sched := S_Node t nd, ms_mem := (ms_mem s)\<lparr>exp_heap := nds\<rparr>\<rparr>)"
| sched_node: "ms_sched s = S_Node t nd \<Longrightarrow>
    mem_step s (s\<lparr>ms_sched := S_Drain t, ms_mem := expire_node nd (ms_mem s)\<rparr>)"
| sched_done: "ms_sched s = S_Drain t \<Longrightarrow> list_all (\<lambda>nd. t < fst nd) (take 1 (exp_heap (ms_mem s))) \<Longrightarrow>
    mem_step s (s\<lparr>ms_sched := S_Test\<rparr>)"
| stop: "mem_step s (s\<lparr>ms_running := False\<rparr>)"

inductive mem_reach :: "mem_sys \<Rightarrow> bool" where
  start: "mem_reach (mem_start now)"
| step: "mem_reach s \<Longrightarrow> mem_step s s1 \<Longrightarrow> mem_reach s1"


inductive_cases mem_stepE: "mem_step s s1"

text \<open>
  The heap is sorted, and every entry that can expire has its node in the heap, or in the hands of the thread that is about to
  push it or of the scheduler.
\<close>

definition node_somewhere :: "mem_sys \<Rightarrow> int \<Rightarrow> string \<Rightarrow> bool" where
  "node_somewhere s e k \<longleftrightarrow> (e, k) \<in> set (exp_heap (ms_mem s)) \<or> (\<exists>i. ms_threads s i = P_Push e k) \<or>
     (\<exists>t. ms_sched s = S_Node t (e, k))"

definition mem_inv :: "mem_sys \<Rightarrow> bool" where
  "mem_inv s \<longleftrightarrow> sorted (map fst (exp_heap (ms_mem s))) \<and>
     (\<forall>i k v e. ms_threads s i = P_Store k v e False \<longrightarrow> e = TIME_MAX) \<and>
     (\<forall>k en. mem_store (ms_mem s) k = Some en \<longrightarrow> me_expiry en = TIME_MAX \<or> node_somewhere s (me_expiry en) k)"

lemma mem_goto_simps [simp]:
  "ms_mem (mem_goto i pc s) = ms_mem s" "ms_sched (mem_goto i pc s) = ms_sched s" "ms_now (mem_goto i pc s) = ms_now s"
  "ms_threads (mem_goto i pc s) = (ms_threads s)(i := pc)" "ms_sets (mem_goto i pc s) = ms_sets s"
  by (simp_all add: mem_goto_def)

lemma node_goto:
  "(\<And>e k. ms_threads s i \<noteq> P_Push e k) \<Longrightarrow> node_somewhere s e k \<Longrightarrow> node_somewhere (mem_goto i pc s) e k"
  by (auto simp: node_somewhere_def) metis

lemma store_expire_node:
  "mem_store (expire_node nd m) k = Some en \<Longrightarrow> mem_store m k = Some en \<and> (k = snd nd \<longrightarrow> me_expiry en \<noteq> fst nd)"
  by (auto simp: expire_node_def mem_erase_def split: option.splits if_splits)

lemma mem_invI:
  assumes "mem_inv s" and "sorted (map fst (exp_heap (ms_mem s1)))"
    and "\<And>i k v e. ms_threads s1 i = P_Store k v e False \<Longrightarrow> ms_threads s i = P_Store k v e False \<or> e = TIME_MAX"
    and "\<And>k en. mem_store (ms_mem s1) k = Some en \<Longrightarrow>
      mem_store (ms_mem s) k = Some en \<and> (node_somewhere s (me_expiry en) k \<longrightarrow> node_somewhere s1 (me_expiry en) k) \<or>
      me_expiry en = TIME_MAX \<or> node_somewhere s1 (me_expiry en) k"
  shows "mem_inv s1"
  using assms unfolding mem_inv_def by blast

lemma mem_inv_sorted: "mem_inv s \<Longrightarrow> sorted (map fst (exp_heap (ms_mem s)))"
  by (simp add: mem_inv_def)

lemma mem_inv_goto:
  assumes "mem_inv s" and "\<And>e k. ms_threads s i \<noteq> P_Push e k" and "\<And>k v e. pc = P_Store k v e False \<Longrightarrow> e = TIME_MAX"
  shows "mem_inv (mem_goto i pc s)"
  by (rule mem_invI [OF assms(1)])
    (use mem_inv_sorted [OF assms(1)] node_goto [OF assms(2)] assms(3) in \<open>auto split: if_splits\<close>)

lemma mem_inv_erase: "mem_inv s \<Longrightarrow> mem_inv (s\<lparr>ms_mem := mem_erase k (ms_mem s)\<rparr>)"
  unfolding mem_inv_def node_somewhere_def mem_erase_def by simp

lemma mem_inv_sched:
  assumes "mem_inv s" and "\<And>t nd. ms_sched s \<noteq> S_Node t nd"
  shows "mem_inv (s\<lparr>ms_sched := pc\<rparr>)"
  by (rule mem_invI [OF assms(1)]) (use mem_inv_sorted [OF assms(1)] assms(2) in \<open>auto simp: node_somewhere_def\<close>)

lemma mem_inv_put:
  assumes inv: "mem_inv s" and th: "ms_threads s i = P_Store k v e timed"
  shows "mem_inv (mem_goto i (if timed then P_Push e k else P_Idle)
    (s\<lparr>ms_mem := mem_put k v e (ms_mem s), ms_sets := ms_sets s @ [(k, v, e)]\<rparr>))" (is "mem_inv ?s")
proof (rule mem_invI [OF inv])
  have "node_somewhere s e1 k1 \<Longrightarrow> node_somewhere ?s e1 k1" for e1 k1
    using th by (auto simp: node_somewhere_def) (metis mem_pc.distinct(7))+
  moreover have "timed \<Longrightarrow> node_somewhere ?s e k" by (auto simp: node_somewhere_def)
  moreover have "\<not> timed \<Longrightarrow> e = TIME_MAX" using inv th by (auto simp: mem_inv_def)
  ultimately show "mem_store (ms_mem ?s) k1 = Some en \<Longrightarrow>
      mem_store (ms_mem s) k1 = Some en \<and> (node_somewhere s (me_expiry en) k1 \<longrightarrow> node_somewhere ?s (me_expiry en) k1) \<or>
      me_expiry en = TIME_MAX \<or> node_somewhere ?s (me_expiry en) k1" for k1 en
    by (auto simp: mem_put_def split: if_splits)
qed (use mem_inv_sorted [OF inv] in \<open>auto split: if_splits\<close>)

lemma mem_inv_push:
  assumes inv: "mem_inv s" and th: "ms_threads s i = P_Push e k"
  shows "mem_inv (mem_goto i P_Idle (s\<lparr>ms_mem := heap_push e k (ms_mem s)\<rparr>))" (is "mem_inv ?s")
proof (rule mem_invI [OF inv])
  have "node_somewhere s e1 k1 \<Longrightarrow> node_somewhere ?s e1 k1" for e1 k1
  proof (cases "(e1, k1) = (e, k)")
    case False
    then show "node_somewhere s e1 k1 \<Longrightarrow> ?thesis"
      using th by (auto simp: node_somewhere_def set_insort_key) (metis mem_pc.inject(2))+
  qed (simp add: node_somewhere_def set_insort_key)
  then show "mem_store (ms_mem ?s) k1 = Some en \<Longrightarrow>
      mem_store (ms_mem s) k1 = Some en \<and> (node_somewhere s (me_expiry en) k1 \<longrightarrow> node_somewhere ?s (me_expiry en) k1) \<or>
      me_expiry en = TIME_MAX \<or> node_somewhere ?s (me_expiry en) k1" for k1 en
    by simp
qed (use mem_inv_sorted [OF inv] in \<open>auto simp: sorted_insort_key split: if_splits\<close>)

lemma mem_inv_pop:
  assumes inv: "mem_inv s" and pc: "ms_sched s = S_Drain t" and h: "exp_heap (ms_mem s) = nd # nds"
  shows "mem_inv (s\<lparr>ms_sched := S_Node t nd, ms_mem := (ms_mem s)\<lparr>exp_heap := nds\<rparr>\<rparr>)"
  by (rule mem_invI [OF inv]) (use mem_inv_sorted [OF inv] pc h in \<open>auto simp: node_somewhere_def\<close>)

lemma mem_inv_node:
  assumes inv: "mem_inv s" and pc: "ms_sched s = S_Node t nd"
  shows "mem_inv (s\<lparr>ms_sched := S_Drain t, ms_mem := expire_node nd (ms_mem s)\<rparr>)" (is "mem_inv ?s")
proof (rule mem_invI [OF inv])
  have "node_somewhere s e k \<Longrightarrow> k \<noteq> snd nd \<or> e \<noteq> fst nd \<Longrightarrow> node_somewhere ?s e k" for e k
    using pc by (auto simp: node_somewhere_def)
  then show "mem_store (ms_mem ?s) k1 = Some en \<Longrightarrow>
      mem_store (ms_mem s) k1 = Some en \<and> (node_somewhere s (me_expiry en) k1 \<longrightarrow> node_somewhere ?s (me_expiry en) k1) \<or>
      me_expiry en = TIME_MAX \<or> node_somewhere ?s (me_expiry en) k1" for k1 en
    using store_expire_node [of nd "ms_mem s" k1 en] by auto
qed (use mem_inv_sorted [OF inv] in auto)

lemma mem_step_inv: "mem_step s s1 \<Longrightarrow> mem_inv s \<Longrightarrow> mem_inv s1"
proof (induction rule: mem_step.induct)
  case (set_put s i k v e timed)
  then show ?case by (intro mem_inv_put)
next
  case (set_push s i e k)
  then show ?case by (intro mem_inv_push)
next
  case (get_erase s i k)
  then show ?case by (intro mem_inv_goto mem_inv_erase) auto
next
  case (sched_node s t nd)
  then show ?case by (intro mem_inv_node)
next
  case (sched_pop s t nd nds)
  then show ?case by (intro mem_inv_pop)
next
  case (tick s t)
  then show ?case by (simp add: mem_inv_def node_somewhere_def)
next
  case (stop s)
  then show ?case by (simp add: mem_inv_def node_somewhere_def)
qed (auto intro!: mem_inv_goto mem_inv_sched simp: expiry_at_def)

lemma mem_reach_inv: "mem_reach s \<Longrightarrow> mem_inv s"
proof (induction rule: mem_reach.induct)
  case (step s s1)
  then show ?case by (blast intro: mem_step_inv)
qed (simp add: mem_start_def mem_inv_def empty_mem_def)


text \<open>
  C36. Whatever the threads do, when the scheduler goes back to waiting after it has drained the heap at time \<open>t\<close>, no
  entry that expires by \<open>t\<close> is left, unless a thread that has stored it has not pushed its node yet; and every entry with an
  expiry in the store has a node that will be reached.
\<close>

theorem sweep_complete:
  assumes "mem_reach s" and "mem_store (ms_mem s) k = Some en" and "me_expiry en \<noteq> TIME_MAX"
  shows "((me_expiry en, k) \<in> set (exp_heap (ms_mem s)) \<or> (\<exists>i. ms_threads s i = P_Push (me_expiry en) k) \<or>
      (\<exists>t. ms_sched s = S_Node t (me_expiry en, k))) \<and>
    (\<forall>t. ms_sched s = S_Drain t \<and> list_all (\<lambda>nd. t < fst nd) (take 1 (exp_heap (ms_mem s))) \<and> me_expiry en \<le> t \<longrightarrow>
      (\<exists>i. ms_threads s i = P_Push (me_expiry en) k))"
proof (intro conjI allI impI)
  have inv: "mem_inv s" by (rule mem_reach_inv [OF assms(1)])
  then have ns: "node_somewhere s (me_expiry en) k" using assms(2,3) by (auto simp: mem_inv_def)
  then show "(me_expiry en, k) \<in> set (exp_heap (ms_mem s)) \<or> (\<exists>i. ms_threads s i = P_Push (me_expiry en) k) \<or>
      (\<exists>t. ms_sched s = S_Node t (me_expiry en, k))"
    by (simp add: node_somewhere_def)
  fix t
  assume pc: "ms_sched s = S_Drain t \<and> list_all (\<lambda>nd. t < fst nd) (take 1 (exp_heap (ms_mem s))) \<and> me_expiry en \<le> t"
  have "t < fst nd" if "nd \<in> set (exp_heap (ms_mem s))" for nd
    using mem_inv_sorted [OF inv] pc that by (cases "exp_heap (ms_mem s)") (auto intro: less_le_trans)
  then show "\<exists>i. ms_threads s i = P_Push (me_expiry en) k" using ns pc by (force simp: node_somewhere_def)
qed

text \<open>A thread has stored a value for a second and is about to push its node.\<close>

definition stored :: mem_sys where
  "stored = mem_goto 0 (P_Push 1000000000 ''k'') ((mem_goto 0 (P_Store ''k'' ''a'' 1000000000 True) (mem_start 0))
     \<lparr>ms_mem := mem_put ''k'' ''a'' 1000000000 (ms_mem (mem_start 0)), ms_sets := [(''k'', ''a'', 1000000000)]\<rparr>)"

lemma stored_reach: "mem_reach stored"
proof -
  have "mem_reach (mem_goto 0 (P_Store ''k'' ''a'' (expiry_at (ms_now (mem_start 0)) 1) (0 \<le> (1 :: int))) (mem_start 0))"
    by (rule mem_reach.step [OF mem_reach.start mem_step.set_call]) (simp add: mem_start_def)
  then have "mem_reach (mem_goto 0 (P_Store ''k'' ''a'' 1000000000 True) (mem_start 0))"
    by (simp add: mem_start_def expiry_at_def)
  from mem_reach.step [OF this mem_step.set_put [where i = 0 and k = "''k''" and v = "''a''" and e = 1000000000 and timed = True]]
  show ?thesis by (simp add: stored_def) (simp add: mem_start_def)
qed

theorem sweep_complete_witness:
  "(1000000000, ''k'') \<in> set (exp_heap (ms_mem stored)) \<or> (\<exists>i. ms_threads stored i = P_Push 1000000000 ''k'') \<or>
     (\<exists>t. ms_sched stored = S_Node t (1000000000, ''k''))"
  using sweep_complete [OF stored_reach, of "''k''" "\<lparr>me_value = ''a'', me_expiry = 1000000000\<rparr>"]
  by (simp add: stored_def mem_put_def TIME_MAX_def int_limits)

text \<open>
  A read can erase a value that it never saw: between the moment at which it finds the old entry expired and the one
  at which it erases the key, another thread can set the key anew. The new value, set to stay for ever, is gone although
  nothing has been set since and no thread is running.
\<close>

theorem get_erases_new_value:
  "\<exists>s. mem_reach s \<and> (\<forall>i. ms_threads s i = P_Idle) \<and> ms_sets s \<noteq> [] \<and> last (ms_sets s) = (k, v, TIME_MAX) \<and>
     mem_store (ms_mem s) k = None"
proof -
  define s0 where "s0 = mem_start 0"
  define s1 where "s1 = mem_goto 0 (P_Store k v 0 True) s0"
  define s2 where "s2 = mem_goto 0 (P_Push 0 k) (s1\<lparr>ms_mem := mem_put k v 0 (ms_mem s1), ms_sets := ms_sets s1 @ [(k, v, 0)]\<rparr>)"
  define s3 where "s3 = mem_goto 0 P_Idle (s2\<lparr>ms_mem := heap_push 0 k (ms_mem s2)\<rparr>)"
  define s4 where "s4 = mem_goto 1 (P_Erase k) s3"
  define s5 where "s5 = mem_goto 2 (P_Store k v TIME_MAX False) s4"
  define s6 where "s6 = mem_goto 2 P_Idle (s5\<lparr>ms_mem := mem_put k v TIME_MAX (ms_mem s5), ms_sets := ms_sets s5 @ [(k, v, TIME_MAX)]\<rparr>)"
  define s7 where "s7 = mem_goto 1 P_Idle (s6\<lparr>ms_mem := mem_erase k (ms_mem s6)\<rparr>)"
  have "mem_reach s0" unfolding s0_def by (rule mem_reach.start)
  moreover have "mem_step s0 s1"
    using mem_step.set_call [of s0 0 k v 0] by (simp add: s0_def s1_def mem_start_def expiry_at_def)
  moreover have "mem_step s1 s2" using mem_step.set_put [of s1 0 k v 0 True] by (simp add: s1_def s2_def)
  moreover have "mem_step s2 s3"
    unfolding s3_def by (rule mem_step.set_push) (simp_all add: s2_def s1_def s0_def mem_start_def)
  moreover have "mem_check (ms_now s3) k (ms_mem s3) = Stale"
    by (simp add: s3_def s2_def s1_def s0_def mem_start_def mem_check_def mem_put_def)
  then have "mem_step s3 s4"
    using mem_step.get_check [of s3 1 k] by (simp add: s4_def) (simp add: s3_def s2_def s1_def s0_def mem_start_def)
  moreover have "mem_step s4 s5"
    using mem_step.set_call [of s4 2 k v "-1"]
    by (simp add: s5_def expiry_at_def) (simp add: s4_def s3_def s2_def s1_def s0_def mem_start_def)
  moreover have "mem_step s5 s6" using mem_step.set_put [of s5 2 k v TIME_MAX False] by (simp add: s5_def s6_def)
  moreover have "mem_step s6 s7"
    unfolding s7_def by (rule mem_step.get_erase) (simp add: s6_def s5_def s4_def)
  ultimately have "mem_reach s7"
    by (intro mem_reach.step [of s6 s7] mem_reach.step [of s5 s6] mem_reach.step [of s4 s5] mem_reach.step [of s3 s4]
      mem_reach.step [of s2 s3] mem_reach.step [of s1 s2] mem_reach.step [of s0 s1])
  moreover have "ms_threads s7 i = P_Idle" for i
    by (simp add: s7_def s6_def s5_def s4_def s3_def s2_def s1_def s0_def mem_start_def)
  moreover have "ms_sets s7 \<noteq> [] \<and> last (ms_sets s7) = (k, v, TIME_MAX) \<and> mem_store (ms_mem s7) k = None"
    by (simp add: s7_def s6_def mem_erase_def)
  ultimately show ?thesis by blast
qed

end
