(* ===== verification/Thread_Pool.thy ===== *)
theory Thread_Pool
  imports Nano_Prelude "HOL-Library.Multiset"
begin

text \<open>
  The thread pool (\<open>threadPool.hpp\<close>, and the same class in \<open>hft_clean/binance.hpp\<close>): workers that take tasks from a queue
  under a mutex and sleep on a condition variable, and a destructor that lets them finish the queue.

  One step is what a thread does while it holds the mutex, a notification, or the running of a task, which is to return. A sleeping
  worker may wake up without a notification. \<open>p_notify\<close> counts the calls of \<open>enqueue\<close> that have released the mutex and have
  not notified yet, \<open>p_notify_all\<close> is the same for the destructor. Enqueuing into a pool that is being destroyed is the error
  of the caller and no step. \<open>p_in\<close>, \<open>p_started\<close> and \<open>p_done\<close> record what was enqueued, taken and finished.
\<close>

datatype 'a worker = W_Check | W_Sleep | W_Run 'a | W_Exit

record 'a thread_pool =
  p_tasks :: "'a list"
  p_stop :: bool
  p_workers :: "'a worker list"
  p_notify :: nat
  p_notify_all :: bool
  p_in :: "'a list"
  p_started :: "'a list"
  p_done :: "'a list"

definition new_pool :: "nat \<Rightarrow> 'a thread_pool" where
  "new_pool n = \<lparr>p_tasks = [], p_stop = False, p_workers = replicate n W_Check, p_notify = 0, p_notify_all = False,
     p_in = [], p_started = [], p_done = []\<rparr>"

definition p_enqueue :: "'a \<Rightarrow> 'a thread_pool \<Rightarrow> 'a thread_pool" where
  "p_enqueue x s = s\<lparr>p_tasks := p_tasks s @ [x], p_notify := Suc (p_notify s), p_in := p_in s @ [x]\<rparr>"

definition put_worker :: "nat \<Rightarrow> 'a worker \<Rightarrow> 'a thread_pool \<Rightarrow> 'a thread_pool" where
  "put_worker i w s = s\<lparr>p_workers := (p_workers s)[i := w]\<rparr>"

definition notify_all :: "'a thread_pool \<Rightarrow> 'a thread_pool" where
  "notify_all s = s\<lparr>p_workers := map (\<lambda>w. if w = W_Sleep then W_Check else w) (p_workers s), p_notify_all := False\<rparr>"

text \<open>What a worker does when it has the mutex: sleep, return, or take a task.\<close>

definition worker_check :: "nat \<Rightarrow> 'a thread_pool \<Rightarrow> 'a thread_pool" where
  "worker_check i s =
     (case p_tasks s of
        [] \<Rightarrow> put_worker i (if p_stop s then W_Exit else W_Sleep) s
      | x # xs \<Rightarrow> put_worker i (W_Run x) (s\<lparr>p_tasks := xs, p_started := p_started s @ [x]\<rparr>))"

inductive pool_step :: "'a thread_pool \<Rightarrow> 'a thread_pool \<Rightarrow> bool" where
  enqueue: "\<not> p_stop s \<Longrightarrow> pool_step s (p_enqueue x s)"
| notify_one: "p_notify s = Suc m \<Longrightarrow> i < length (p_workers s) \<Longrightarrow> p_workers s ! i = W_Sleep \<Longrightarrow>
    pool_step s (put_worker i W_Check (s\<lparr>p_notify := m\<rparr>))"
| notify_none: "p_notify s = Suc m \<Longrightarrow> W_Sleep \<notin> set (p_workers s) \<Longrightarrow> pool_step s (s\<lparr>p_notify := m\<rparr>)"
| spurious: "i < length (p_workers s) \<Longrightarrow> p_workers s ! i = W_Sleep \<Longrightarrow> pool_step s (put_worker i W_Check s)"
| check: "i < length (p_workers s) \<Longrightarrow> p_workers s ! i = W_Check \<Longrightarrow> pool_step s (worker_check i s)"
| run: "i < length (p_workers s) \<Longrightarrow> p_workers s ! i = W_Run x \<Longrightarrow>
    pool_step s (put_worker i W_Check (s\<lparr>p_done := p_done s @ [x]\<rparr>))"
| destroy: "\<not> p_stop s \<Longrightarrow> pool_step s (s\<lparr>p_stop := True, p_notify_all := True\<rparr>)"
| wake_all: "p_notify_all s \<Longrightarrow> pool_step s (notify_all s)"

inductive pool_reach :: "nat \<Rightarrow> 'a thread_pool \<Rightarrow> bool" for n where
  start: "pool_reach n (new_pool n)"
| step: "pool_reach n s \<Longrightarrow> pool_step s s1 \<Longrightarrow> pool_reach n s1"

section \<open>The invariant\<close>

definition running :: "'a worker list \<Rightarrow> 'a multiset" where
  "running ws = mset (concat (map (\<lambda>w. case w of W_Run x \<Rightarrow> [x] | _ \<Rightarrow> []) ws))"

definition awake :: "'a worker \<Rightarrow> bool" where
  "awake w \<longleftrightarrow> w \<noteq> W_Sleep \<and> w \<noteq> W_Exit"

definition pool_inv :: "nat \<Rightarrow> 'a thread_pool \<Rightarrow> bool" where
  "pool_inv n s \<longleftrightarrow> length (p_workers s) = n \<and> p_in s = p_started s @ p_tasks s \<and>
     mset (p_started s) = mset (p_done s) + running (p_workers s) \<and>
     (p_tasks s \<noteq> [] \<longrightarrow> 0 < p_notify s \<or> p_notify_all s \<or> n = 0 \<or> (\<exists>w \<in> set (p_workers s). awake w)) \<and>
     (W_Exit \<in> set (p_workers s) \<longrightarrow> p_stop s \<and> p_tasks s = []) \<and>
     (p_stop s \<longrightarrow> p_notify_all s \<or> W_Sleep \<notin> set (p_workers s))"

lemma running_update:
  "i < length ws \<Longrightarrow> running (ws[i := w]) + running [ws ! i] = running ws + running [w]"
proof (induction ws arbitrary: i)
  case (Cons v ws)
  show ?case
  proof (cases i)
    case (Suc j)
    then have "running (ws[j := w]) + running [ws ! j] = running ws + running [w]" using Cons by simp
    then show ?thesis using Suc by (simp add: running_def ac_simps)
  qed (simp add: running_def)
qed simp

lemma running_simps [simp]:
  "running [W_Check] = {#}" "running [W_Sleep] = {#}" "running [W_Exit] = {#}" "running [W_Run x] = {#x#}"
  by (simp_all add: running_def)

lemma running_notify: "running (map (\<lambda>w. if w = W_Sleep then W_Check else w) ws) = running ws"
  by (induction ws) (auto simp: running_def)

lemma running_idle: "i < length ws \<Longrightarrow> running [ws ! i] = {#} \<Longrightarrow> running [w] = {#} \<Longrightarrow> running (ws[i := w]) = running ws"
  using running_update [of i ws w] by simp

lemma awake_update: "i < length ws \<Longrightarrow> awake w \<Longrightarrow> \<exists>v \<in> set (ws[i := w]). awake v"
  using set_update_memI by fast

lemma exit_update: "W_Exit \<in> set (ws[i := w]) \<Longrightarrow> w \<noteq> W_Exit \<Longrightarrow> W_Exit \<in> set ws"
  using set_update_subset_insert [of ws i w] by auto

lemma sleep_update: "W_Sleep \<in> set (ws[i := w]) \<Longrightarrow> w \<noteq> W_Sleep \<Longrightarrow> W_Sleep \<in> set ws"
  using set_update_subset_insert [of ws i w] by auto

lemma pool_inv_wake:
  assumes inv: "pool_inv n s" and i: "i < length (p_workers s)" "p_workers s ! i = W_Sleep"
  shows "pool_inv n (put_worker i W_Check (s\<lparr>p_notify := m\<rparr>))"
proof -
  have "running ((p_workers s)[i := W_Check]) = running (p_workers s)" by (rule running_idle) (use i in simp_all)
  moreover have "\<exists>w \<in> set ((p_workers s)[i := W_Check]). awake w" using i(1) by (rule awake_update) (simp add: awake_def)
  ultimately show ?thesis using inv exit_update [of "p_workers s" i W_Check] sleep_update [of "p_workers s" i W_Check]
    by (auto simp: pool_inv_def put_worker_def)
qed

lemma pool_inv_check:
  assumes inv: "pool_inv n s" and i: "i < length (p_workers s)" "p_workers s ! i = W_Check"
  shows "pool_inv n (worker_check i s)"
proof (cases "p_tasks s")
  case Nil
  have "running ((p_workers s)[i := w]) = running (p_workers s)" if "w \<in> {W_Exit, W_Sleep}" for w
    by (rule running_idle) (use i that in auto)
  then show ?thesis
    using inv Nil exit_update [of "p_workers s" i W_Sleep] sleep_update [of "p_workers s" i W_Exit]
    by (auto simp: pool_inv_def put_worker_def worker_check_def)
next
  case (Cons x xs)
  have "running ((p_workers s)[i := W_Run x]) = running (p_workers s) + {#x#}"
    using running_update [OF i(1), of "W_Run x"] i(2) by simp
  moreover have "\<exists>w \<in> set ((p_workers s)[i := W_Run x]). awake w" using i(1) by (rule awake_update) (simp add: awake_def)
  ultimately show ?thesis
    using inv Cons exit_update [of "p_workers s" i "W_Run x"] sleep_update [of "p_workers s" i "W_Run x"]
    by (auto simp: pool_inv_def put_worker_def worker_check_def)
qed

lemma pool_inv_run:
  assumes inv: "pool_inv n s" and i: "i < length (p_workers s)" "p_workers s ! i = W_Run x"
  shows "pool_inv n (put_worker i W_Check (s\<lparr>p_done := p_done s @ [x]\<rparr>))"
proof -
  have "running ((p_workers s)[i := W_Check]) + {#x#} = running (p_workers s)"
    using running_update [OF i(1), of W_Check] i(2) by simp
  moreover have "\<exists>w \<in> set ((p_workers s)[i := W_Check]). awake w" using i(1) by (rule awake_update) (simp add: awake_def)
  ultimately show ?thesis using inv exit_update [of "p_workers s" i W_Check] sleep_update [of "p_workers s" i W_Check]
    by (auto simp: pool_inv_def put_worker_def ac_simps)
qed

lemma pool_inv_notify_all:
  assumes "pool_inv n s"
  shows "pool_inv n (notify_all s)"
proof -
  have "\<exists>w \<in> set (p_workers (notify_all s)). awake w" if "p_tasks s \<noteq> []" "n \<noteq> 0"
  proof -
    have "p_workers s \<noteq> []" using assms that by (auto simp: pool_inv_def)
    then obtain w where "w \<in> set (p_workers s)" by (meson list.set_sel(1))
    moreover have "w \<noteq> W_Exit" using assms that(1) calculation by (auto simp: pool_inv_def)
    ultimately have "awake (if w = W_Sleep then W_Check else w)"
        and "(if w = W_Sleep then W_Check else w) \<in> set (p_workers (notify_all s))"
      by (auto simp: notify_all_def awake_def image_iff)
    then show ?thesis by blast
  qed
  then show ?thesis using assms running_notify [of "p_workers s"]
    by (auto simp: pool_inv_def notify_all_def split: if_splits)
qed

lemma pool_step_inv: "pool_step s s1 \<Longrightarrow> pool_inv n s \<Longrightarrow> pool_inv n s1"
proof (induction rule: pool_step.induct)
  case (spurious i s)
  then show ?case using pool_inv_wake [of n s i "p_notify s"] by simp
next
  case (notify_none s m)
  have "\<exists>w \<in> set (p_workers s). awake w" if "p_tasks s \<noteq> []" "n \<noteq> 0"
  proof -
    have "p_workers s \<noteq> []" using notify_none that by (auto simp: pool_inv_def)
    then obtain w where w: "w \<in> set (p_workers s)" by (meson list.set_sel(1))
    then have "awake w" using notify_none that(1) by (auto simp: pool_inv_def awake_def)
    then show ?thesis using w by blast
  qed
  then show ?case using notify_none by (auto simp: pool_inv_def)
next
  case (enqueue s x)
  then show ?case by (simp add: pool_inv_def p_enqueue_def)
next
  case (destroy s)
  then show ?case by (simp add: pool_inv_def)
qed (rule pool_inv_wake pool_inv_check pool_inv_run pool_inv_notify_all; assumption)+

lemma pool_reach_inv: "pool_reach n s \<Longrightarrow> pool_inv n s"
proof (induction rule: pool_reach.induct)
  case start
  have "running (replicate n W_Check) = {#}" by (induction n) (auto simp: running_def)
  then show ?case by (simp add: pool_inv_def new_pool_def)
qed (rule pool_step_inv)


text \<open>
  C37. Whatever the threads do, the tasks are taken in the order in which they were enqueued, each once: what was enqueued is
  what was taken followed by what is queued, and what was taken is finished or running. No task is forgotten: while the
  queue has tasks, a worker is awake, or a notification that will wake one is still to come.
\<close>

theorem pool_tasks:
  assumes "pool_reach n s" and "0 < n"
  shows "p_in s = p_started s @ p_tasks s \<and> mset (p_started s) = mset (p_done s) + running (p_workers s) \<and>
    (p_tasks s = [] \<or> (\<exists>w \<in> set (p_workers s). awake w) \<or> 0 < p_notify s \<or> p_notify_all s)"
  using pool_reach_inv [OF assms(1)] assms(2) by (auto simp: pool_inv_def)

text \<open>One worker that sleeps, and a task that was enqueued and not announced yet.\<close>

definition one_task :: "nat thread_pool" where
  "one_task = p_enqueue 7 (worker_check 0 (new_pool 1))"

lemma one_task_reach: "pool_reach 1 one_task"
proof -
  have "pool_step (new_pool 1) (worker_check 0 (new_pool 1) :: nat thread_pool)"
    by (rule pool_step.check) (simp_all add: new_pool_def)
  moreover have "pool_step (worker_check 0 (new_pool 1)) one_task"
    unfolding one_task_def by (rule pool_step.enqueue) (simp add: new_pool_def worker_check_def put_worker_def)
  ultimately show ?thesis by (blast intro: pool_reach.intros)
qed

theorem pool_tasks_witness:
  "p_in one_task = p_started one_task @ p_tasks one_task \<and>
   mset (p_started one_task) = mset (p_done one_task) + running (p_workers one_task) \<and>
   (p_tasks one_task = [] \<or> (\<exists>w \<in> set (p_workers one_task). awake w) \<or> 0 < p_notify one_task \<or> p_notify_all one_task)"
  by (rule pool_tasks [OF one_task_reach]) simp

section \<open>The end of a pool\<close>

text \<open>How many steps are left when the pool is being destroyed.\<close>

fun worker_steps :: "'a worker \<Rightarrow> nat" where
  "worker_steps W_Check = 1"
| "worker_steps W_Sleep = 2"
| "worker_steps (W_Run x) = 2"
| "worker_steps W_Exit = 0"

definition pool_steps :: "'a thread_pool \<Rightarrow> nat" where
  "pool_steps s = 2 * length (p_tasks s) + sum_list (map worker_steps (p_workers s)) + p_notify s +
     (if p_notify_all s then 1 else 0)"

lemma steps_update:
  "i < length ws \<Longrightarrow> sum_list (map worker_steps (ws[i := w])) + worker_steps (ws ! i) =
     sum_list (map worker_steps ws) + worker_steps w"
  by (induction ws arbitrary: i) (auto split: nat.splits)

lemma steps_notify: "sum_list (map worker_steps (map (\<lambda>w. if w = W_Sleep then W_Check else w) ws)) \<le> sum_list (map worker_steps ws)"
  by (induction ws) auto

lemma pool_step_stopped:
  "pool_step s s1 \<Longrightarrow> p_stop s \<Longrightarrow> pool_inv n s \<Longrightarrow> p_stop s1 \<and> pool_steps s1 < pool_steps s"
proof (induction rule: pool_step.induct)
  case (notify_one s m i)
  then show ?case using steps_update [of i "p_workers s" W_Check] by (simp add: pool_steps_def put_worker_def)
next
  case (spurious i s)
  then show ?case using steps_update [of i "p_workers s" W_Check] by (simp add: pool_steps_def put_worker_def)
next
  case (check i s)
  then show ?case
  proof (cases "p_tasks s")
    case Nil
    then show ?thesis using check steps_update [of i "p_workers s" W_Exit]
      by (simp add: pool_steps_def put_worker_def worker_check_def)
  next
    case (Cons x xs)
    then show ?thesis using check steps_update [of i "p_workers s" "W_Run x"]
      by (simp add: pool_steps_def put_worker_def worker_check_def)
  qed
next
  case (run i s x)
  then show ?case using steps_update [of i "p_workers s" W_Check] by (simp add: pool_steps_def put_worker_def)
next
  case (wake_all s)
  then show ?case using steps_notify [of "p_workers s"] by (simp add: pool_steps_def notify_all_def)
qed (simp_all add: pool_steps_def)

lemma pool_stuck:
  assumes inv: "pool_inv n s" and stop: "p_stop s" and stuck: "\<nexists>s1. pool_step s s1" and n: "0 < n"
  shows "set (p_workers s) = {W_Exit} \<and> p_tasks s = [] \<and> mset (p_done s) = mset (p_in s)"
proof -
  have "\<not> p_notify_all s" using stuck pool_step.wake_all by blast
  then have sl: "W_Sleep \<notin> set (p_workers s)" using inv stop by (simp add: pool_inv_def)
  have ex: "w = W_Exit" if w: "w \<in> set (p_workers s)" for w
  proof -
    obtain i where i: "i < length (p_workers s)" "p_workers s ! i = w" using w unfolding in_set_conv_nth by blast
    then show ?thesis
      using stuck pool_step.check [of i s] pool_step.run [of i s] sl w by (cases w; simp; blast)
  qed
  have "p_workers s \<noteq> []" using inv n by (auto simp: pool_inv_def)
  then have all: "set (p_workers s) = {W_Exit}" using ex by (cases "p_workers s") auto
  have "running (p_workers s) = {#}" using ex by (fastforce simp: running_def)
  then show ?thesis using inv all by (simp add: pool_inv_def)
qed

text \<open>
  C38. The destructor of the pool comes to its end: once it has set the flag every step of any thread makes the number
  of steps that are left smaller, so that no run goes on for ever; and where no step is left every worker has returned, the
  queue is empty and every task that was enqueued has been run exactly once.
\<close>

theorem pool_drains:
  assumes "pool_reach n s" and "0 < n" and "p_stop s"
  shows "(\<forall>s1. pool_step s s1 \<longrightarrow> p_stop s1 \<and> pool_steps s1 < pool_steps s) \<and>
    ((\<nexists>s1. pool_step s s1) \<longrightarrow>
       set (p_workers s) = {W_Exit} \<and> p_tasks s = [] \<and> mset (p_done s) = mset (p_in s))"
  using pool_step_stopped [OF _ assms(3) pool_reach_inv [OF assms(1)]] pool_stuck [OF pool_reach_inv [OF assms(1)] assms(3) _ assms(2)]
  by blast

definition stopped_pool :: "nat thread_pool" where
  "stopped_pool = one_task\<lparr>p_stop := True, p_notify_all := True\<rparr>"

theorem pool_drains_witness:
  "p_stop (notify_all stopped_pool) \<and> pool_steps (notify_all stopped_pool) < pool_steps stopped_pool"
proof -
  have "pool_step one_task stopped_pool" unfolding stopped_pool_def
    by (rule pool_step.destroy) (simp add: one_task_def new_pool_def worker_check_def put_worker_def p_enqueue_def)
  then have "pool_reach 1 stopped_pool" by (rule pool_reach.step [OF one_task_reach])
  moreover have "pool_step stopped_pool (notify_all stopped_pool)"
    by (rule pool_step.wake_all) (simp add: stopped_pool_def)
  ultimately show ?thesis using pool_drains [of 1 stopped_pool] by (simp add: stopped_pool_def)
qed

end
