(* ===== verification/Binance_Sync.thy ===== *)
theory Binance_Sync
  imports Order_Book "HOL-Library.Sublist"
begin

text \<open>
  The session that keeps an order book in step with an exchange (\<open>BinanceSync\<close> in \<open>hft_clean/binance.hpp\<close>). One thread reads the frames
  of the web socket: as long as the snapshot is not ready it puts them into a buffer, then it feeds them to the handler. The
  other waits for the first frame, fetches the snapshot, feeds what is buffered and says that the snapshot is ready.

  One step is one access to what the threads share. The reading loop tests whether to stop (\<open>Ws_Test\<close>) and then blocks in the
  read (\<open>Ws_Read\<close>), so a frame may arrive after \<open>stop\<close> has been set. The frames that will arrive are part of the state; reading may fail at any
  time, and so may the fetching; \<open>stop()\<close>, which ends the reading loop, may be called at any time. \<open>y_got\<close>, \<open>y_early\<close> and \<open>y_live\<close> record the frames that have arrived, those that the first
  thread has fed from the buffer and those that the reading thread has fed; what \<open>feed\<close> does with them is in \<open>Market_Data\<close>.
\<close>

record depth_update =
  du_first :: int
  du_final :: int
  du_payload :: string
  du_sentinel :: bool

definition sentinel :: depth_update where
  "sentinel = \<lparr>du_first = 0, du_final = 0, du_payload = [], du_sentinel = True\<rparr>"

datatype ws_pc = Ws_Connect | Ws_Test | Ws_Read | Ws_Got depth_update | Ws_Push depth_update | Ws_Feed depth_update | Ws_End | Ws_Last | Ws_Done

datatype main_pc = M_Wait | M_Fetch | M_Drain | M_Feed "depth_update list" | M_Join | M_Done

record sync =
  y_stream :: "depth_update list"
  y_ws :: ws_pc
  y_main :: main_pc
  y_buf :: "depth_update list"
  y_ready :: bool
  y_gap :: bool
  y_stop :: bool
  y_error :: bool
  y_snapshot :: int
  y_last :: int
  y_got :: "depth_update list"
  y_early :: "depth_update list"
  y_live :: "depth_update list"

definition sync_start :: "depth_update list \<Rightarrow> sync" where
  "sync_start fs = \<lparr>y_stream = fs, y_ws = Ws_Connect, y_main = M_Wait, y_buf = [], y_ready = False, y_gap = False, y_stop = False,
     y_error = False, y_snapshot = 0, y_last = 0, y_got = [], y_early = [], y_live = []\<rparr>"

text \<open>What the reading thread does with a frame once the snapshot is ready.\<close>

definition live_check :: "depth_update \<Rightarrow> sync \<Rightarrow> sync" where
  "live_check f s =
     (if du_final f \<le> y_snapshot s then s\<lparr>y_ws := Ws_Test\<rparr>
      else if (if y_last s = 0 then (y_snapshot s + 1) mod 2 ^ 64 < du_first f else du_first f \<noteq> (y_last s + 1) mod 2 ^ 64)
      then s\<lparr>y_gap := True, y_ws := Ws_End\<rparr>
      else s\<lparr>y_last := du_final f, y_ws := Ws_Feed f\<rparr>)"

text \<open>One buffered frame.\<close>

definition feed_buffered :: "depth_update \<Rightarrow> depth_update list \<Rightarrow> sync \<Rightarrow> sync" where
  "feed_buffered f fs s =
     (if du_sentinel f \<or> du_final f \<le> y_snapshot s then s\<lparr>y_main := M_Feed fs\<rparr>
      else s\<lparr>y_main := M_Feed fs, y_early := y_early s @ [f]\<rparr>)"

inductive sync_step :: "sync \<Rightarrow> sync \<Rightarrow> bool" where
  ws_connect: "y_ws s = Ws_Connect \<Longrightarrow> sync_step s (s\<lparr>y_ws := Ws_Test\<rparr>)"
| ws_test: "y_ws s = Ws_Test \<Longrightarrow> \<not> y_stop s \<Longrightarrow> sync_step s (s\<lparr>y_ws := Ws_Read\<rparr>)"
| ws_recv: "y_ws s = Ws_Read \<Longrightarrow> y_stream s = f # fs \<Longrightarrow>
    sync_step s (s\<lparr>y_stream := fs, y_ws := Ws_Got f, y_got := y_got s @ [f]\<rparr>)"
| ws_fail: "y_ws s = Ws_Connect \<or> y_ws s = Ws_Read \<Longrightarrow> sync_step s (s\<lparr>y_error := True, y_ws := Ws_End\<rparr>)"
| ws_stop: "y_ws s = Ws_Test \<Longrightarrow> sync_step s (s\<lparr>y_ws := Ws_End\<rparr>)"
| ws_early: "y_ws s = Ws_Got f \<Longrightarrow> \<not> y_ready s \<Longrightarrow> sync_step s (s\<lparr>y_ws := Ws_Push f\<rparr>)"
| ws_push: "y_ws s = Ws_Push f \<Longrightarrow> sync_step s (s\<lparr>y_buf := y_buf s @ [f], y_ws := Ws_Test\<rparr>)"
| ws_live: "y_ws s = Ws_Got f \<Longrightarrow> y_ready s \<Longrightarrow> sync_step s (live_check f s)"
| ws_feed: "y_ws s = Ws_Feed f \<Longrightarrow> sync_step s (s\<lparr>y_live := y_live s @ [f], y_ws := Ws_Test\<rparr>)"
| ws_end: "y_ws s = Ws_End \<Longrightarrow> sync_step s (s\<lparr>y_stop := True, y_ws := Ws_Last\<rparr>)"
| ws_done: "y_ws s = Ws_Last \<Longrightarrow> sync_step s (s\<lparr>y_buf := y_buf s @ [sentinel], y_ws := Ws_Done\<rparr>)"
| main_first: "y_main s = M_Wait \<Longrightarrow> y_buf s \<noteq> [] \<Longrightarrow> sync_step s (s\<lparr>y_main := (if y_error s then M_Join else M_Fetch)\<rparr>)"
| main_fetch: "y_main s = M_Fetch \<Longrightarrow> 0 \<le> n \<Longrightarrow> n < 2 ^ 64 \<Longrightarrow> sync_step s (s\<lparr>y_snapshot := n, y_main := M_Drain\<rparr>)"
| main_fail: "y_main s = M_Fetch \<Longrightarrow> sync_step s (s\<lparr>y_stop := True, y_main := M_Join\<rparr>)"
| main_drain: "y_main s = M_Drain \<Longrightarrow> sync_step s (s\<lparr>y_main := M_Feed (y_buf s), y_buf := []\<rparr>)"
| main_feed: "y_main s = M_Feed (f # fs) \<Longrightarrow> sync_step s (feed_buffered f fs s)"
| main_ready: "y_main s = M_Feed [] \<Longrightarrow> sync_step s (s\<lparr>y_ready := True, y_main := M_Join\<rparr>)"
| main_join: "y_main s = M_Join \<Longrightarrow> y_ws s = Ws_Done \<Longrightarrow> sync_step s (s\<lparr>y_main := M_Done\<rparr>)"

inductive sync_reach :: "depth_update list \<Rightarrow> sync \<Rightarrow> bool" for fs where
  start: "sync_reach fs (sync_start fs)"
| step: "sync_reach fs s \<Longrightarrow> sync_step s s1 \<Longrightarrow> sync_reach fs s1"

section \<open>The snapshot\<close>

text \<open>
  \<open>fetch_snapshot\<close> adds the levels of the REST answer, bids first; \<open>pos t\<close> stands for \<open>std::stod(t) > 0.0\<close> and \<open>fixed t\<close> for
  \<open>to_price(std::stod(t))\<close>, which is \<open>to_qty\<close> too.
\<close>

fun add_levels :: "(string \<Rightarrow> bool) \<Rightarrow> (string \<Rightarrow> int) \<Rightarrow> side \<Rightarrow> (string \<times> string) list \<Rightarrow> book \<Rightarrow> book option" where
  "add_levels pos fixed sd [] b = Some b"
| "add_levels pos fixed sd ((p, q) # ls) b =
     (if pos q then
        (case add_order sd LIMIT (fixed p) (fixed q) BINANCE b of
           None \<Rightarrow> None
         | Some (r, b1) \<Rightarrow> add_levels pos fixed sd ls b1)
      else add_levels pos fixed sd ls b)"

definition apply_snapshot :: "(string \<Rightarrow> bool) \<Rightarrow> (string \<Rightarrow> int) \<Rightarrow> (string \<times> string) list \<Rightarrow> (string \<times> string) list \<Rightarrow>
    book \<Rightarrow> book option" where
  "apply_snapshot pos fixed bids asks b =
     (case add_levels pos fixed BUY bids b of None \<Rightarrow> None | Some b1 \<Rightarrow> add_levels pos fixed SELL asks b1)"

section \<open>The invariant\<close>

text \<open>The frame the reading thread holds, and the frames the first thread still has to look at.\<close>

fun ws_frame :: "ws_pc \<Rightarrow> depth_update list" where
  "ws_frame (Ws_Got f) = [f]"
| "ws_frame (Ws_Push f) = [f]"
| "ws_frame (Ws_Feed f) = [f]"
| "ws_frame pc = []"

fun main_frames :: "main_pc \<Rightarrow> depth_update list" where
  "main_frames (M_Feed fs) = fs"
| "main_frames pc = []"

definition frames :: "depth_update list \<Rightarrow> depth_update list" where
  "frames = filter (\<lambda>f. \<not> du_sentinel f)"

fun chain_from :: "int \<Rightarrow> depth_update list \<Rightarrow> bool" where
  "chain_from n [] = True"
| "chain_from n (f # fs) = (du_first f = (n + 1) mod 2 ^ 64 \<and> chain_from (du_final f) fs)"

text \<open>Frames that follow the snapshot without a gap.\<close>

definition follows :: "int \<Rightarrow> depth_update list \<Rightarrow> bool" where
  "follows n fs \<longleftrightarrow> (\<forall>f \<in> set fs. n < du_final f) \<and>
     (case fs of [] \<Rightarrow> True | f # gs \<Rightarrow> du_first f \<le> n + 1 \<and> chain_from (du_final f) gs)"

definition fed_live :: "sync \<Rightarrow> depth_update list" where
  "fed_live s = y_live s @ (case y_ws s of Ws_Feed f \<Rightarrow> [f] | _ \<Rightarrow> [])"

text \<open>What is fed is what has arrived, in its order, without the frames that were skipped.\<close>

definition order_inv :: "sync \<Rightarrow> bool" where
  "order_inv s \<longleftrightarrow>
     (if y_ready s then subseq (y_early s @ y_live s @ ws_frame (y_ws s)) (y_got s)
      else subseq (y_early s @ frames (main_frames (y_main s)) @ frames (y_buf s) @ ws_frame (y_ws s)) (y_got s))"

definition phase_inv :: "sync \<Rightarrow> bool" where
  "phase_inv s \<longleftrightarrow> (y_ready s \<longrightarrow> y_main s = M_Join \<or> y_main s = M_Done) \<and> (\<not> y_ready s \<longrightarrow> fed_live s = []) \<and>
     (y_main s = M_Wait \<or> y_main s = M_Fetch \<longrightarrow> y_early s = []) \<and>
     0 \<le> y_snapshot s \<and> (\<forall>f \<in> set (y_early s). y_snapshot s < du_final f) \<and>
     (\<forall>f \<in> set (y_got s @ y_stream s). \<not> du_sentinel f)"

definition live_inv :: "sync \<Rightarrow> bool" where
  "live_inv s \<longleftrightarrow> follows (y_snapshot s) (fed_live s) \<and>
     y_last s = (if fed_live s = [] then 0 else du_final (last (fed_live s)))"

definition sync_inv :: "sync \<Rightarrow> bool" where
  "sync_inv s \<longleftrightarrow> order_inv s \<and> phase_inv s \<and> live_inv s"

lemma subseq_drop: "subseq (a @ b @ c) g \<Longrightarrow> subseq (a @ c) g"
proof -
  assume "subseq (a @ b @ c) g"
  moreover have "subseq (a @ c) (a @ b @ c)" by (intro list_emb_append_mono list_emb_append2 subseq_order.refl)
  ultimately show ?thesis by (rule subseq_order.trans [rotated])
qed

lemma subseq_drop_last: "subseq (a @ b) g \<Longrightarrow> subseq a g"
  using subseq_drop [of a b "[]" g] by simp

lemma subseq_snoc: "subseq a g \<Longrightarrow> subseq (a @ [f]) (g @ [f])"
  by (rule list_emb_append_mono) auto

lemma frames_simps [simp]:
  "frames [] = []" "frames (a @ b) = frames a @ frames b" "frames (f # fs) = (if du_sentinel f then frames fs else f # frames fs)"
  by (simp_all add: frames_def)

lemma sentinel_sentinel [simp]: "du_sentinel sentinel"
  by (simp add: sentinel_def)

lemma chain_from_snoc:
  "chain_from n (fs @ [g]) \<longleftrightarrow>
     chain_from n fs \<and> du_first g = ((if fs = [] then n else du_final (last fs)) + 1) mod 2 ^ 64"
  by (induction fs arbitrary: n) auto

lemma follows_snoc:
  assumes "follows n fs" and "n < du_final g" and "fs = [] \<Longrightarrow> du_first g \<le> n + 1"
    and "fs \<noteq> [] \<Longrightarrow> du_first g = (du_final (last fs) + 1) mod 2 ^ 64"
  shows "follows n (fs @ [g])"
  using assms by (cases fs) (auto simp: follows_def chain_from_snoc)

text \<open>A step of the reading thread that changes neither the frames nor the phase.\<close>

lemma sync_inv_ws:
  assumes inv: "sync_inv s" and fr: "ws_frame (y_ws s1) = [] \<or> ws_frame (y_ws s1) = ws_frame (y_ws s)"
    and fed: "fed_live s1 = fed_live s" and live: "y_live s1 @ ws_frame (y_ws s1) = y_live s @ ws_frame (y_ws s) \<or> y_live s1 = y_live s"
    and buf: "frames (y_buf s1) = frames (y_buf s)"
    and same: "y_main s1 = y_main s" "y_ready s1 = y_ready s" "y_early s1 = y_early s" "y_got s1 = y_got s"
      "y_snapshot s1 = y_snapshot s" "y_stream s1 = y_stream s" "y_last s1 = y_last s"
  shows "sync_inv s1"
proof -
  have "order_inv s1"
  proof (cases "y_ready s")
    case True
    then have "subseq (y_early s @ y_live s @ ws_frame (y_ws s)) (y_got s)" using inv by (simp add: sync_inv_def order_inv_def)
    then have "subseq (y_early s @ y_live s1 @ ws_frame (y_ws s1)) (y_got s)"
      using live fr subseq_drop_last [of "y_early s @ y_live s" "ws_frame (y_ws s)" "y_got s"] by auto
    then show ?thesis using True by (simp add: order_inv_def same)
  next
    case False
    let ?a = "y_early s @ frames (main_frames (y_main s)) @ frames (y_buf s)"
    have "subseq (?a @ ws_frame (y_ws s)) (y_got s)" using False inv by (simp add: sync_inv_def order_inv_def)
    then have "subseq (?a @ ws_frame (y_ws s1)) (y_got s)" using fr subseq_drop_last by fastforce
    then show ?thesis using False by (simp add: order_inv_def same buf)
  qed
  then show ?thesis using inv fed by (simp add: sync_inv_def phase_inv_def live_inv_def same)
qed

lemma sync_inv_recv:
  assumes inv: "sync_inv s" and pc: "y_ws s = Ws_Read" and st: "y_stream s = f # fs"
  shows "sync_inv (s\<lparr>y_stream := fs, y_ws := Ws_Got f, y_got := y_got s @ [f]\<rparr>)" (is "sync_inv ?s")
proof -
  have "order_inv ?s"
  proof (cases "y_ready s")
    case True
    then show ?thesis using inv pc subseq_snoc [of "y_early s @ y_live s" "y_got s" f] by (simp add: sync_inv_def order_inv_def)
  next
    case False
    then show ?thesis
      using inv pc subseq_snoc [of "y_early s @ frames (main_frames (y_main s)) @ frames (y_buf s)" "y_got s" f]
      by (simp add: sync_inv_def order_inv_def)
  qed
  moreover have "fed_live ?s = fed_live s" using pc by (simp add: fed_live_def)
  ultimately show ?thesis using inv st by (auto simp: sync_inv_def phase_inv_def live_inv_def)
qed

lemma sync_inv_push:
  assumes inv: "sync_inv s" and pc: "y_ws s = Ws_Push f"
  shows "sync_inv (s\<lparr>y_buf := y_buf s @ [f], y_ws := Ws_Test\<rparr>)" (is "sync_inv ?s")
proof -
  have "order_inv ?s"
  proof (cases "y_ready s")
    case True
    then show ?thesis using inv pc subseq_drop_last [of "y_early s @ y_live s" "[f]" "y_got s"]
      by (simp add: sync_inv_def order_inv_def)
  next
    case False
    then have "subseq (y_early s @ frames (main_frames (y_main s)) @ frames (y_buf s) @ [f]) (y_got s)"
      using inv pc by (simp add: sync_inv_def order_inv_def)
    then show ?thesis
      using False subseq_drop_last [of "y_early s @ frames (main_frames (y_main s)) @ frames (y_buf s)" "[f]" "y_got s"]
      by (simp add: order_inv_def)
  qed
  moreover have "fed_live ?s = fed_live s" using pc by (simp add: fed_live_def)
  ultimately show ?thesis using inv by (simp add: sync_inv_def phase_inv_def live_inv_def)
qed

lemma live_check_ok:
  assumes inv: "sync_inv s" and got: "y_ws s = Ws_Got f" and new: "y_snapshot s < du_final f"
    and ok: "if y_last s = 0 then du_first f \<le> (y_snapshot s + 1) mod 2 ^ 64 else du_first f = (y_last s + 1) mod 2 ^ 64"
  shows "follows (y_snapshot s) (y_live s @ [f])"
proof (rule follows_snoc)
  have live: "fed_live s = y_live s" using got by (simp add: fed_live_def)
  have n: "0 \<le> y_snapshot s" using inv by (simp add: sync_inv_def phase_inv_def)
  show "follows (y_snapshot s) (y_live s)" using inv live by (simp add: sync_inv_def live_inv_def)
  show "y_snapshot s < du_final f" by (rule new)
  show "du_first f \<le> y_snapshot s + 1" if "y_live s = []"
  proof -
    have "y_last s = 0" using inv live that by (simp add: sync_inv_def live_inv_def)
    then have "du_first f \<le> (y_snapshot s + 1) mod 2 ^ 64" using ok by simp
    also have "\<dots> \<le> y_snapshot s + 1" using n by (intro zmod_le_nonneg_dividend) simp
    finally show ?thesis .
  qed
  show "du_first f = (du_final (last (y_live s)) + 1) mod 2 ^ 64" if "y_live s \<noteq> []"
  proof -
    have l: "y_last s = du_final (last (y_live s))" using inv live that by (simp add: sync_inv_def live_inv_def)
    moreover have "y_snapshot s < du_final (last (y_live s))"
      using inv live last_in_set [OF that] by (auto simp: sync_inv_def live_inv_def follows_def)
    ultimately have "y_last s \<noteq> 0" using n by linarith
    then show ?thesis using ok l by simp
  qed
qed

lemma sync_inv_live:
  assumes inv: "sync_inv s" and got: "y_ws s = Ws_Got f" and ready: "y_ready s"
  shows "sync_inv (live_check f s)"
proof -
  have live: "fed_live s = y_live s" using got by (simp add: fed_live_def)
  define gap where "gap \<longleftrightarrow> (if y_last s = 0 then (y_snapshot s + 1) mod 2 ^ 64 < du_first f else du_first f \<noteq> (y_last s + 1) mod 2 ^ 64)"
  consider "du_final f \<le> y_snapshot s" | (gap) "y_snapshot s < du_final f" gap | (ok) "y_snapshot s < du_final f" "\<not> gap"
    by linarith
  then show ?thesis
  proof cases
    case 1
    then have "live_check f s = s\<lparr>y_ws := Ws_Test\<rparr>" by (simp add: live_check_def)
    then show ?thesis by (simp only:) (rule sync_inv_ws [OF inv], auto simp: fed_live_def got)
  next
    case gap
    then have "live_check f s = s\<lparr>y_gap := True, y_ws := Ws_End\<rparr>" unfolding live_check_def gap_def [symmetric] by simp
    then show ?thesis by (simp only:) (rule sync_inv_ws [OF inv], auto simp: fed_live_def got)
  next
    case ok
    then have c: "live_check f s = s\<lparr>y_last := du_final f, y_ws := Ws_Feed f\<rparr>" unfolding live_check_def gap_def [symmetric] by simp
    have "follows (y_snapshot s) (y_live s @ [f])"
      by (rule live_check_ok [OF inv got ok(1)]) (use ok(2) in \<open>auto simp: gap_def split: if_splits\<close>)
    moreover have "subseq (y_early s @ y_live s @ [f]) (y_got s)" using inv ready got by (simp add: sync_inv_def order_inv_def)
    ultimately show ?thesis using inv ready
      unfolding c by (simp add: sync_inv_def order_inv_def phase_inv_def live_inv_def fed_live_def)
  qed
qed

lemma sync_inv_feed:
  assumes inv: "sync_inv s" and pc: "y_main s = M_Feed (f # fs)"
  shows "sync_inv (feed_buffered f fs s)"
proof -
  let ?r = "frames fs @ frames (y_buf s) @ ws_frame (y_ws s)"
  have nr: "\<not> y_ready s" using inv pc by (auto simp: sync_inv_def phase_inv_def split: if_splits)
  have sub: "subseq (y_early s @ (if du_sentinel f then [] else [f]) @ ?r) (y_got s)"
    using inv pc nr by (simp add: sync_inv_def order_inv_def split: if_splits)
  then have "order_inv (feed_buffered f fs s)"
    using nr subseq_drop [of "y_early s" "[f]" ?r] by (simp add: feed_buffered_def order_inv_def split: if_splits)
  then show ?thesis using inv nr
    by (auto simp: sync_inv_def phase_inv_def live_inv_def feed_buffered_def fed_live_def split: if_splits)
qed

lemma sync_inv_main:
  assumes inv: "sync_inv s" and "main_frames (y_main s) = []" and "main_frames pc = []" and "\<not> y_ready s \<or> pc = M_Done"
    and "pc = M_Wait \<or> pc = M_Fetch \<Longrightarrow> y_early s = []"
  shows "sync_inv (s\<lparr>y_main := pc\<rparr>)"
  using assms by (auto simp: sync_inv_def order_inv_def phase_inv_def live_inv_def fed_live_def)


lemma sync_inv_ready:
  assumes inv: "sync_inv s" and pc: "y_main s = M_Feed []"
  shows "sync_inv (s\<lparr>y_ready := True, y_main := M_Join\<rparr>)"
proof -
  have nr: "\<not> y_ready s" using inv pc by (auto simp: sync_inv_def phase_inv_def)
  then have fed: "y_live s = []" "fed_live s = []" using inv by (auto simp: sync_inv_def phase_inv_def fed_live_def)
  have "subseq (y_early s @ frames (y_buf s) @ ws_frame (y_ws s)) (y_got s)"
    using inv pc nr by (simp add: sync_inv_def order_inv_def)
  then have "subseq (y_early s @ ws_frame (y_ws s)) (y_got s)" by (rule subseq_drop)
  then show ?thesis using inv fed
    by (simp add: sync_inv_def order_inv_def phase_inv_def live_inv_def) (simp add: fed_live_def)
qed

lemma sync_step_inv: "sync_step s s1 \<Longrightarrow> sync_inv s \<Longrightarrow> sync_inv s1"
proof (induction rule: sync_step.induct)
  case (ws_recv s f fs)
  then show ?case by (intro sync_inv_recv)
next
  case (ws_push s f)
  then show ?case by (intro sync_inv_push)
next
  case (ws_live s f)
  then show ?case by (intro sync_inv_live)
next
  case (main_feed s f fs)
  then show ?case by (intro sync_inv_feed)
next
  case (main_ready s)
  then show ?case by (intro sync_inv_ready)
next
  case (main_first s)
  then show ?case by (intro sync_inv_main) (auto simp: sync_inv_def phase_inv_def)
next
  case (main_join s)
  then show ?case by (intro sync_inv_main) auto
next
  case (main_fetch s n)
  then show ?case
    by (auto simp: sync_inv_def order_inv_def phase_inv_def live_inv_def fed_live_def follows_def)
next
  case (main_fail s)
  then show ?case
    by (auto simp: sync_inv_def order_inv_def phase_inv_def live_inv_def fed_live_def)
next
  case (main_drain s)
  then show ?case
    by (auto simp: sync_inv_def order_inv_def phase_inv_def live_inv_def fed_live_def)
next
  case (ws_feed s f)
  show ?case by (rule sync_inv_ws [OF \<open>sync_inv s\<close>]) (simp_all add: fed_live_def \<open>y_ws s = Ws_Feed f\<close>)
next
  case (ws_fail s)
  then have "fed_live (s\<lparr>y_error := True, y_ws := Ws_End\<rparr>) = fed_live s" by (auto simp: fed_live_def)
  then show ?case by (intro sync_inv_ws [OF \<open>sync_inv s\<close>]) simp_all
next
  case (ws_connect s)
  show ?case by (rule sync_inv_ws [OF \<open>sync_inv s\<close>]) (simp_all add: fed_live_def \<open>y_ws s = Ws_Connect\<close>)
next
  case (ws_test s)
  show ?case by (rule sync_inv_ws [OF \<open>sync_inv s\<close>]) (simp_all add: fed_live_def \<open>y_ws s = Ws_Test\<close>)
next
  case (ws_stop s)
  show ?case by (rule sync_inv_ws [OF \<open>sync_inv s\<close>]) (simp_all add: fed_live_def \<open>y_ws s = Ws_Test\<close>)
next
  case (ws_early s f)
  show ?case by (rule sync_inv_ws [OF \<open>sync_inv s\<close>]) (simp_all add: fed_live_def \<open>y_ws s = Ws_Got f\<close>)
next
  case (ws_end s)
  show ?case by (rule sync_inv_ws [OF \<open>sync_inv s\<close>]) (simp_all add: fed_live_def \<open>y_ws s = Ws_End\<close>)
next
  case (ws_done s)
  show ?case by (rule sync_inv_ws [OF \<open>sync_inv s\<close>]) (simp_all add: fed_live_def \<open>y_ws s = Ws_Last\<close>)
qed

lemma sync_reach_inv: "sync_reach fs s \<Longrightarrow> list_all (\<lambda>f. \<not> du_sentinel f) fs \<Longrightarrow> sync_inv s"
proof (induction rule: sync_reach.induct)
  case start
  then show ?case
    by (simp add: sync_start_def sync_inv_def order_inv_def phase_inv_def live_inv_def fed_live_def follows_def list_all_iff)
next
  case (step s s1)
  then show ?case by (blast intro: sync_step_inv)
qed


section \<open>What is fed\<close>

lemma chain_from_butlast: "chain_from n (fs @ gs) \<Longrightarrow> chain_from n fs"
  by (induction fs arbitrary: n) auto

lemma follows_butlast: "follows n (fs @ gs) \<Longrightarrow> follows n fs"
  by (cases fs) (auto simp: follows_def dest: chain_from_butlast)

lemma sync_fed:
  assumes "sync_inv s"
  shows "subseq (y_early s @ y_live s) (y_got s)" and "follows (y_snapshot s) (y_live s)"
    and "\<forall>f \<in> set (y_early s @ y_live s). y_snapshot s < du_final f"
proof -
  have o: "order_inv s" and p: "phase_inv s" and l: "live_inv s" using assms by (auto simp: sync_inv_def)
  show f: "follows (y_snapshot s) (y_live s)"
    using l by (auto simp: live_inv_def fed_live_def intro: follows_butlast)
  then show "\<forall>f \<in> set (y_early s @ y_live s). y_snapshot s < du_final f"
    using p by (auto simp: phase_inv_def follows_def)
  show "subseq (y_early s @ y_live s) (y_got s)"
  proof (cases "y_ready s")
    case True
    then show ?thesis using o subseq_drop_last [of "y_early s @ y_live s" "ws_frame (y_ws s)" "y_got s"]
      by (simp add: order_inv_def)
  next
    case False
    then have "y_live s = []" using p by (simp add: phase_inv_def fed_live_def)
    then show ?thesis using o False subseq_drop_last [of "y_early s" _ "y_got s"] by (simp add: order_inv_def)
  qed
qed

lemma sync_got: "sync_reach fs s \<Longrightarrow> y_got s @ y_stream s = fs"
proof (induction rule: sync_reach.induct)
  case (step s s1)
  from step.hyps(2) show ?case using step.IH
    by (induction rule: sync_step.induct) (auto simp: live_check_def feed_buffered_def)
qed (simp add: sync_start_def)

text \<open>
  C39. However the two threads interleave, and whatever fails, the handler is never used by both at once; the frames that are
  fed are frames that have arrived, in the order in which they arrived, each newer than the snapshot; and those of the live
  phase follow the snapshot and each other without a gap.
\<close>

theorem sync_feeds:
  assumes "sync_reach fs s" and "list_all (\<lambda>f. \<not> du_sentinel f) fs"
  shows "\<not> (main_frames (y_main s) \<noteq> [] \<and> (\<exists>f. y_ws s = Ws_Feed f)) \<and> subseq (y_early s @ y_live s) fs \<and>
    (\<forall>f \<in> set (y_early s @ y_live s). y_snapshot s < du_final f) \<and> follows (y_snapshot s) (y_live s)"
proof -
  have inv: "sync_inv s" by (rule sync_reach_inv [OF assms])
  have "subseq (y_early s @ y_live s) fs"
    using sync_fed(1) [OF inv] sync_got [OF assms(1)] by (metis subseq_order.order_trans list_emb_append2 list_emb_prefix subseq_order.refl)
  moreover have "\<not> (main_frames (y_main s) \<noteq> [] \<and> (\<exists>f. y_ws s = Ws_Feed f))"
    using inv by (cases "y_ready s") (auto simp: sync_inv_def phase_inv_def fed_live_def)
  ultimately show ?thesis using sync_fed(2,3) [OF inv] by blast
qed


text \<open>Two frames that follow each other; the snapshot is in the middle of the first.\<close>

definition frame :: "int \<Rightarrow> int \<Rightarrow> depth_update" where
  "frame a b = \<lparr>du_first = a, du_final = b, du_payload = [], du_sentinel = False\<rparr>"

definition two_frames :: "depth_update list" where
  "two_frames = [frame 1 5, frame 6 9]"

text \<open>The first was buffered and fed by the first thread, then the second has arrived.\<close>

definition second_frame :: sync where
  "second_frame = \<lparr>y_stream = [], y_ws = Ws_Got (frame 6 9), y_main = M_Join, y_buf = [], y_ready = True, y_gap = False, y_stop = False,
     y_error = False, y_snapshot = 3, y_last = 0, y_got = two_frames, y_early = [frame 1 5], y_live = []\<rparr>"

lemma second_frame_reach: "sync_reach two_frames second_frame"
proof -
  define s0 where "s0 = sync_start two_frames"
  define t0 where "t0 = s0\<lparr>y_ws := Ws_Test\<rparr>"
  define r0 where "r0 = t0\<lparr>y_ws := Ws_Read\<rparr>"
  define s1 where "s1 = r0\<lparr>y_stream := [frame 6 9], y_ws := Ws_Got (frame 1 5), y_got := [frame 1 5]\<rparr>"
  define s2 where "s2 = s1\<lparr>y_ws := Ws_Push (frame 1 5)\<rparr>"
  define s3 where "s3 = s2\<lparr>y_buf := y_buf s2 @ [frame 1 5], y_ws := Ws_Test\<rparr>"
  define s4 where "s4 = s3\<lparr>y_main := M_Fetch\<rparr>"
  define s5 where "s5 = s4\<lparr>y_snapshot := 3, y_main := M_Drain\<rparr>"
  define s6 where "s6 = s5\<lparr>y_main := M_Feed (y_buf s5), y_buf := []\<rparr>"
  define s7 where "s7 = feed_buffered (frame 1 5) [] s6"
  define s8 where "s8 = s7\<lparr>y_ready := True, y_main := M_Join\<rparr>"
  define r8 where "r8 = s8\<lparr>y_ws := Ws_Read\<rparr>"
  note defs = r8_def r0_def t0_def s8_def s7_def s6_def s5_def s4_def s3_def s2_def s1_def s0_def sync_start_def two_frames_def frame_def feed_buffered_def
  have "sync_reach two_frames s0" unfolding s0_def by (rule sync_reach.start)
  moreover have "sync_step s0 t0" unfolding t0_def by (rule sync_step.ws_connect) (simp add: defs)
  moreover have "sync_step t0 r0" unfolding r0_def by (rule sync_step.ws_test) (simp_all add: defs)
  moreover have "sync_step r0 s1" using sync_step.ws_recv [of r0 "frame 1 5" "[frame 6 9]"] by (simp add: defs)
  moreover have "sync_step s1 s2" unfolding s2_def by (rule sync_step.ws_early) (simp_all add: defs)
  moreover have "sync_step s2 s3" unfolding s3_def by (rule sync_step.ws_push) (simp add: defs)
  moreover have "sync_step s3 s4" using sync_step.main_first [of s3] by (simp add: defs)
  moreover have "sync_step s4 s5" unfolding s5_def by (rule sync_step.main_fetch) (simp_all add: defs)
  moreover have "sync_step s5 s6" unfolding s6_def by (rule sync_step.main_drain) (simp add: defs)
  moreover have "sync_step s6 s7" unfolding s7_def by (rule sync_step.main_feed) (simp add: defs)
  moreover have "sync_step s7 s8" unfolding s8_def by (rule sync_step.main_ready) (simp add: defs)
  moreover have "sync_step s8 r8" unfolding r8_def by (rule sync_step.ws_test) (simp_all add: defs)
  moreover have "sync_step r8 second_frame"
    using sync_step.ws_recv [of r8 "frame 6 9" "[]"] by (simp add: defs second_frame_def)
  ultimately show ?thesis
    by (intro sync_reach.step [of _ r8 second_frame] sync_reach.step [of _ s8 r8] sync_reach.step [of _ s7 s8] sync_reach.step [of _ s6 s7] sync_reach.step [of _ s5 s6]
      sync_reach.step [of _ s4 s5] sync_reach.step [of _ s3 s4] sync_reach.step [of _ s2 s3] sync_reach.step [of _ s1 s2]
      sync_reach.step [of _ r0 s1] sync_reach.step [of _ t0 r0] sync_reach.step [of _ s0 t0])
qed

theorem sync_feeds_witness:
  "subseq (y_early second_frame @ y_live second_frame) two_frames \<and> follows (y_snapshot second_frame) (y_live second_frame)"
proof -
  have "list_all (\<lambda>f. \<not> du_sentinel f) two_frames" by (simp add: two_frames_def frame_def)
  then show ?thesis using sync_feeds [OF second_frame_reach] by blast
qed

lemma sorted_wrt_subseq: "subseq xs ys \<Longrightarrow> sorted_wrt P ys \<Longrightarrow> sorted_wrt P xs"
  by (induction rule: list_emb.induct) (auto dest: list_emb_set)

text \<open>
  C40. A session that has fed a buffered frame never goes live: when the numbers of the frames increase as they arrive, no frame
  is ever fed in the live phase once one was fed from the buffer, not even when the stream has no gap, for the first live
  frame is compared with the snapshot and not with the last frame that was fed.
\<close>

theorem sync_false_gap:
  assumes "sync_reach fs s" and "list_all (\<lambda>f. \<not> du_sentinel f) fs" and "sorted_wrt (\<lambda>f g. du_final f < du_first g) fs"
    and "y_early s \<noteq> []"
  shows "y_live s = []"
proof (rule ccontr)
  assume live: "y_live s \<noteq> []"
  have inv: "sync_inv s" by (rule sync_reach_inv [OF assms(1,2)])
  obtain g gs where g: "y_early s = g # gs" using assms(4) by (cases "y_early s") auto
  obtain l ls where l: "y_live s = l # ls" using live by (cases "y_live s") auto
  have "sorted_wrt (\<lambda>f g. du_final f < du_first g) (y_got s)"
    using assms(3) sync_got [OF assms(1)] by (metis sorted_wrt_append)
  then have "sorted_wrt (\<lambda>f g. du_final f < du_first g) (y_early s @ y_live s)"
    using sorted_wrt_subseq [OF sync_fed(1) [OF inv]] by blast
  then have "du_final g < du_first l" by (simp add: g l sorted_wrt_append)
  moreover have "y_snapshot s < du_final g" using sync_fed(3) [OF inv] g by simp
  moreover have "du_first l \<le> y_snapshot s + 1" using sync_fed(2) [OF inv] l by (simp add: follows_def)
  ultimately show False by linarith
qed

text \<open>The two frames: the second follows the first, and is taken for a gap.\<close>

theorem sync_false_gap_witness:
  "y_live second_frame = [] \<and> y_gap (live_check (frame 6 9) second_frame)"
proof
  show "y_live second_frame = []"
    by (rule sync_false_gap [OF second_frame_reach]) (simp_all add: two_frames_def frame_def second_frame_def)
  show "y_gap (live_check (frame 6 9) second_frame)" by (simp add: live_check_def second_frame_def frame_def)
qed

end
