(* ===== verification/SQL_Server.thy ===== *)
theory SQL_Server
  imports Parse_Props
begin

text \<open>
  The server (\<open>network_server.cpp\<close>): a thread per client reads from the socket, cuts what it has read at every semicolon,
  runs each statement and sends the answer back.

  \<open>cons\<close> is the constructor of the parser, which gives the current database, changes the world or throws. The socket is what the calls of \<open>read\<close> give,
  one text each, and the results of the calls of \<open>send\<close>; after the last of them the connection is broken. An empty text or the
  end of the list is the end of the connection or of the server.
\<close>

definition error_text :: string where
  "error_text = ''ERROR: ''"

definition handle_sql :: "'w backend \<Rightarrow> ('w \<Rightarrow> 'w answer) \<Rightarrow> string \<Rightarrow> 'w \<Rightarrow> 'w answer" where
  "handle_sql bk cons sql w =
     (case (case tokenize sql of
              Inl e \<Rightarrow> (Inl e, w)
            | Inr toks \<Rightarrow> (case cons w of (Inl e, w1) \<Rightarrow> (Inl e, w1) | (Inr db, w1) \<Rightarrow> parse bk (mk_parser db toks) w1)) of
        (Inl (Throw m), w1) \<Rightarrow> (Inr (error_text @ m @ [CHR 0x0A]), w1)
      | (r, w1) \<Rightarrow> (r, w1))"

text \<open>The bytes that were sent, the results that are left, and whether all was sent.\<close>

fun send_all :: "int list \<Rightarrow> string \<Rightarrow> string \<times> int list \<times> bool" where
  "send_all rs [] = ([], rs, True)"
| "send_all [] dat = ([], [], False)"
| "send_all (r # rs) dat =
     (if r \<le> 0 then ([], rs, False)
      else (case send_all rs (drop (nat r) dat) of (out, rs1, ok) \<Rightarrow> (take (nat r) dat @ out, rs1, ok)))"

datatype conn_status = Open | Closed | Crashed fault

record 'w conn =
  cn_buf :: string
  cn_world :: 'w
  cn_out :: string
  cn_sends :: "int list"
  cn_status :: conn_status

text \<open>One statement, its semicolon included; without white space it may be the word that ends the session.\<close>

definition statement_step :: "'w backend \<Rightarrow> ('w \<Rightarrow> 'w answer) \<Rightarrow> string \<Rightarrow> 'w conn \<Rightarrow> 'w conn" where
  "statement_step bk cons sql c =
     (if filter (\<lambda>ch. \<not> is_cspace ch) sql \<in> {''exit;'', ''quit;''} then c\<lparr>cn_status := Closed\<rparr>
      else (case handle_sql bk cons sql (cn_world c) of
              (Inl e, w1) \<Rightarrow> c\<lparr>cn_world := w1, cn_status := Crashed e\<rparr>
            | (Inr r, w1) \<Rightarrow>
                (case send_all (cn_sends c) r of
                   (out, rs, ok) \<Rightarrow> c\<lparr>cn_world := w1, cn_out := cn_out c @ out, cn_sends := rs,
                     cn_status := (if ok then cn_status c else Closed)\<rparr>)))"

text \<open>The loop over the statements in the buffer.\<close>

definition semi :: char where "semi = CHR '';''"

function drain_buffer :: "'w backend \<Rightarrow> ('w \<Rightarrow> 'w answer) \<Rightarrow> 'w conn \<Rightarrow> 'w conn" where
  "drain_buffer bk cons c =
     (if cn_status c = Open \<and> semi \<in> set (cn_buf c) then
        drain_buffer bk cons (statement_step bk cons (takeWhile (\<lambda>ch. ch \<noteq> semi) (cn_buf c) @ [semi])
          (c\<lparr>cn_buf := tl (dropWhile (\<lambda>ch. ch \<noteq> semi) (cn_buf c))\<rparr>))
      else c)"
  by pat_completeness auto
termination
proof (relation "measure (\<lambda>(bk, cons, c). length (cn_buf c))", goal_cases)
  case (2 bk cons c)
  then have "dropWhile (\<lambda>ch. ch \<noteq> semi) (cn_buf c) \<noteq> []" by (auto simp: dropWhile_eq_Nil_conv)
  then have "length (tl (dropWhile (\<lambda>ch. ch \<noteq> semi) (cn_buf c))) < length (cn_buf c)"
    using length_dropWhile_le [of "\<lambda>ch. ch \<noteq> semi" "cn_buf c"] by (cases "dropWhile (\<lambda>ch. ch \<noteq> semi) (cn_buf c)") auto
  then show ?case by (simp add: statement_step_def split: sum.splits prod.splits)
qed simp

declare drain_buffer.simps [simp del]

fun handle_client :: "'w backend \<Rightarrow> ('w \<Rightarrow> 'w answer) \<Rightarrow> string list \<Rightarrow> 'w conn \<Rightarrow> 'w conn" where
  "handle_client bk cons [] c = c\<lparr>cn_status := (if cn_status c = Open then Closed else cn_status c)\<rparr>"
| "handle_client bk cons (chunk # chunks) c =
     (if cn_status c \<noteq> Open then c
      else if chunk = [] then c\<lparr>cn_status := Closed\<rparr>
      else handle_client bk cons chunks (drain_buffer bk cons (c\<lparr>cn_buf := cn_buf c @ chunk\<rparr>)))"

definition new_conn :: "int list \<Rightarrow> 'w \<Rightarrow> 'w conn" where
  "new_conn rs w = \<lparr>cn_buf = [], cn_world = w, cn_out = [], cn_sends = rs, cn_status = Open\<rparr>"

section \<open>Statements one by one\<close>

text \<open>The specification: the statements of the text in their order, as long as the connection is open.\<close>

fun run_statements :: "'w backend \<Rightarrow> ('w \<Rightarrow> 'w answer) \<Rightarrow> string list \<Rightarrow> 'w conn \<Rightarrow> 'w conn" where
  "run_statements bk cons [] c = c"
| "run_statements bk cons (s # ss) c =
     (if cn_status c = Open then run_statements bk cons ss (statement_step bk cons (s @ [semi]) c) else c)"

text \<open>The whole statements of a text and what is behind the last semicolon.\<close>

fun split_semi :: "string \<Rightarrow> string list \<times> string" where
  "split_semi [] = ([], [])"
| "split_semi (ch # s) =
     (case split_semi s of
        (ss, r) \<Rightarrow> if ch = semi then ([] # ss, r) else (case ss of [] \<Rightarrow> ([], ch # r) | t # ts \<Rightarrow> ((ch # t) # ts, r)))"

lemma statement_step_buf [simp]: "cn_buf (statement_step bk cons s c) = cn_buf c"
  by (simp add: statement_step_def split: sum.splits prod.splits)

lemma statement_step_with_buf: "statement_step bk cons s (c\<lparr>cn_buf := b\<rparr>) = (statement_step bk cons s c)\<lparr>cn_buf := b\<rparr>"
  by (simp add: statement_step_def split: sum.splits prod.splits)

lemma split_semi_none: "semi \<notin> set s \<Longrightarrow> split_semi s = ([], s)"
  by (induction s) auto

lemma split_semi_first: "semi \<notin> set s \<Longrightarrow> split_semi (s @ semi # r) = (s # fst (split_semi r), snd (split_semi r))"
  by (induction s) (auto split: prod.splits)

lemma split_semi_append:
  "split_semi (s @ r) = (fst (split_semi s) @ fst (split_semi (snd (split_semi s) @ r)), snd (split_semi (snd (split_semi s) @ r)))"
proof (induction s)
  case (Cons ch s)
  obtain ss t where s: "split_semi s = (ss, t)" by fastforce
  show ?case
  proof (cases "ch = semi \<or> ss \<noteq> []")
    case True
    then show ?thesis using Cons s by (cases ss) (auto split: prod.splits)
  next
    case False
    then show ?thesis using Cons s by (auto split: prod.splits list.splits)
  qed
qed simp

lemma takeWhile_semi: "semi \<in> set s \<Longrightarrow> s = takeWhile (\<lambda>ch. ch \<noteq> semi) s @ semi # tl (dropWhile (\<lambda>ch. ch \<noteq> semi) s)"
  by (induction s) auto

lemma split_semi_semi:
  assumes "semi \<in> set s"
  shows "split_semi s = (takeWhile (\<lambda>ch. ch \<noteq> semi) s # fst (split_semi (tl (dropWhile (\<lambda>ch. ch \<noteq> semi) s))),
    snd (split_semi (tl (dropWhile (\<lambda>ch. ch \<noteq> semi) s))))"
proof -
  have "semi \<notin> set (takeWhile (\<lambda>ch. ch \<noteq> semi) s)" by (auto dest: set_takeWhileD)
  from split_semi_first [OF this] show ?thesis using takeWhile_semi [OF assms] by metis
qed

lemma run_statements_with_buf: "run_statements bk cons ss (c\<lparr>cn_buf := b\<rparr>) = (run_statements bk cons ss c)\<lparr>cn_buf := b\<rparr>"
  by (induction ss arbitrary: c) (simp_all add: statement_step_with_buf)

lemma run_statements_append: "run_statements bk cons (ss @ ts) c = run_statements bk cons ts (run_statements bk cons ss c)"
proof (induction ss arbitrary: c)
  case (Cons s ss)
  show ?case
  proof (cases "cn_status c = Open")
    case False
    then show ?thesis by (cases ts) auto
  qed (simp add: Cons)
qed simp

lemma run_statements_closed: "cn_status c \<noteq> Open \<Longrightarrow> run_statements bk cons ss c = c"
  by (cases ss) auto

lemma drain_buffer_spec:
  "(drain_buffer bk cons c)\<lparr>cn_buf := []\<rparr> = (if cn_status c = Open then run_statements bk cons (fst (split_semi (cn_buf c))) (c\<lparr>cn_buf := []\<rparr>)
      else c\<lparr>cn_buf := []\<rparr>) \<and>
   (cn_status (drain_buffer bk cons c) = Open \<longrightarrow> cn_buf (drain_buffer bk cons c) = snd (split_semi (cn_buf c)))"
proof (induction bk cons c rule: drain_buffer.induct)
  case (1 bk cons c)
  show ?case
  proof (cases "cn_status c = Open \<and> semi \<in> set (cn_buf c)")
    case False
    then show ?thesis by (subst (1 2 3) drain_buffer.simps) (auto simp: split_semi_none)
  next
    case True
    let ?t = "takeWhile (\<lambda>ch. ch \<noteq> semi) (cn_buf c)" and ?r = "tl (dropWhile (\<lambda>ch. ch \<noteq> semi) (cn_buf c))"
    let ?c = "statement_step bk cons (?t @ [semi]) (c\<lparr>cn_buf := ?r\<rparr>)"
    have d: "drain_buffer bk cons c = drain_buffer bk cons ?c" using True by (subst drain_buffer.simps) simp
    have sp: "split_semi (cn_buf c) = (?t # fst (split_semi ?r), snd (split_semi ?r))" using True by (simp add: split_semi_semi)
    have st: "statement_step bk cons (?t @ [semi]) (c\<lparr>cn_buf := []\<rparr>) = ?c\<lparr>cn_buf := []\<rparr>" by (simp add: statement_step_with_buf)
    show ?thesis using 1 [OF True] True unfolding d sp
      by (simp add: st run_statements_closed)
  qed
qed

definition closed :: "'w conn \<Rightarrow> 'w conn" where
  "closed c = c\<lparr>cn_buf := [], cn_status := (if cn_status c = Open then Closed else cn_status c)\<rparr>"

lemma handle_client_spec:
  "list_all (\<lambda>s. s \<noteq> []) chunks \<Longrightarrow> snd (split_semi (cn_buf c)) = cn_buf c \<and> fst (split_semi (cn_buf c)) = [] \<Longrightarrow>
   closed (handle_client bk cons chunks c) =
     closed (run_statements bk cons (fst (split_semi (cn_buf c @ concat chunks))) (c\<lparr>cn_buf := []\<rparr>))"
proof (induction chunks arbitrary: c)
  case Nil
  then show ?case by (simp add: closed_def)
next
  case (Cons x chunks)
  show ?case
  proof (cases "cn_status c = Open")
    case False
    then show ?thesis by (simp add: run_statements_closed closed_def)
  next
    case True
    define d where "d = drain_buffer bk cons (c\<lparr>cn_buf := cn_buf c @ x\<rparr>)"
    have d: "d\<lparr>cn_buf := []\<rparr> = run_statements bk cons (fst (split_semi (cn_buf c @ x))) (c\<lparr>cn_buf := []\<rparr>)"
        "cn_status d = Open \<Longrightarrow> cn_buf d = snd (split_semi (cn_buf c @ x))"
      using drain_buffer_spec [of bk cons "c\<lparr>cn_buf := cn_buf c @ x\<rparr>"] True by (simp_all add: d_def)
    have sp: "fst (split_semi (cn_buf c @ concat (x # chunks))) =
        fst (split_semi (cn_buf c @ x)) @ fst (split_semi (snd (split_semi (cn_buf c @ x)) @ concat chunks))"
      using split_semi_append [of "cn_buf c @ x" "concat chunks"] by simp
    have h: "handle_client bk cons (x # chunks) c = handle_client bk cons chunks d" using True Cons.prems(1) by (simp add: d_def)
    show ?thesis
    proof (cases "cn_status d = Open")
      case True
      have "split_semi (snd (split_semi s)) = ([], snd (split_semi s))" for s
        by (induction s) (auto split: prod.splits list.splits if_splits)
      then have "snd (split_semi (cn_buf d)) = cn_buf d \<and> fst (split_semi (cn_buf d)) = []" using d(2) [OF True] by simp
      then have "closed (handle_client bk cons chunks d) =
          closed (run_statements bk cons (fst (split_semi (cn_buf d @ concat chunks))) (d\<lparr>cn_buf := []\<rparr>))"
        using Cons.prems(1) by (intro Cons.IH) auto
      then show ?thesis unfolding h sp run_statements_append d(1) [symmetric] using d(2) [OF True] by simp
    next
      case False
      then have "run_statements bk cons ss (d\<lparr>cn_buf := []\<rparr>) = d\<lparr>cn_buf := []\<rparr>" for ss by (simp add: run_statements_closed)
      moreover have "handle_client bk cons chunks d = d" using False by (cases chunks) auto
      ultimately show ?thesis unfolding h sp run_statements_append d(1) [symmetric] by (simp add: closed_def)
    qed
  qed
qed

lemma send_all_ok: "send_all rs dat = (out, rs1, ok) \<Longrightarrow> (ok \<longrightarrow> out = dat) \<and> (\<exists>r. dat = out @ r)"
proof (induction rs dat arbitrary: out rule: send_all.induct)
  case (3 r rs ch dat)
  show ?case
  proof (cases "r \<le> 0")
    case False
    obtain out2 where "send_all rs (drop (nat r) (ch # dat)) = (out2, rs1, ok)" "out = take (nat r) (ch # dat) @ out2"
      using 3(2) False by (auto split: prod.splits)
    then show ?thesis using 3(1) [OF False] by (metis append.assoc append_take_drop_id)
  qed (use 3(2) in auto)
qed auto


section \<open>What a client sees\<close>

text \<open>The answers to the statements of a text, up to the one that ends the session.\<close>

fun answers :: "'w backend \<Rightarrow> ('w \<Rightarrow> 'w answer) \<Rightarrow> string list \<Rightarrow> 'w \<Rightarrow> string" where
  "answers bk cons [] w = []"
| "answers bk cons (s # ss) w =
     (if filter (\<lambda>ch. \<not> is_cspace ch) (s @ [semi]) \<in> {''exit;'', ''quit;''} then []
      else (case handle_sql bk cons (s @ [semi]) w of
              (Inl e, w1) \<Rightarrow> []
            | (Inr r, w1) \<Rightarrow> r @ answers bk cons ss w1))"

lemma run_statements_out:
  "cn_status c = Open \<Longrightarrow>
   \<exists>out r. cn_out (run_statements bk cons ss c) = cn_out c @ out \<and> answers bk cons ss (cn_world c) = out @ r \<and>
     (cn_status (run_statements bk cons ss c) = Open \<longrightarrow> r = [])"
proof (induction ss arbitrary: c)
  case (Cons s ss)
  let ?c = "statement_step bk cons (s @ [semi]) c"
  show ?case
  proof (cases "filter (\<lambda>ch. \<not> is_cspace ch) (s @ [semi]) \<in> {''exit;'', ''quit;''}")
    case True
    then have "?c = c\<lparr>cn_status := Closed\<rparr>" unfolding statement_step_def by (rule if_P)
    moreover have "answers bk cons (s # ss) (cn_world c) = []" using True by (simp only: answers.simps if_True)
    ultimately show ?thesis using Cons.prems by (simp add: run_statements_closed)
  next
    case False
    have st: "?c = (case handle_sql bk cons (s @ [semi]) (cn_world c) of
              (Inl e, w1) \<Rightarrow> c\<lparr>cn_world := w1, cn_status := Crashed e\<rparr>
            | (Inr r, w1) \<Rightarrow>
                (case send_all (cn_sends c) r of
                   (out, rs, ok) \<Rightarrow> c\<lparr>cn_world := w1, cn_out := cn_out c @ out, cn_sends := rs,
                     cn_status := (if ok then cn_status c else Closed)\<rparr>))"
      unfolding statement_step_def by (rule if_not_P [OF False])
    have an: "answers bk cons (s # ss) (cn_world c) = (case handle_sql bk cons (s @ [semi]) (cn_world c) of
              (Inl e, w1) \<Rightarrow> []
            | (Inr r, w1) \<Rightarrow> r @ answers bk cons ss w1)"
      using False by (simp only: answers.simps if_False)
    show ?thesis
    proof (cases "handle_sql bk cons (s @ [semi]) (cn_world c)")
      case (Pair res w1)
      show ?thesis
      proof (cases res)
        case (Inl e)
        then show ?thesis using Cons.prems st an Pair by (simp add: run_statements_closed)
      next
        case (Inr r)
        obtain out rs ok where snd: "send_all (cn_sends c) r = (out, rs, ok)" by (metis prod_cases3)
        have c1: "?c = c\<lparr>cn_world := w1, cn_out := cn_out c @ out, cn_sends := rs, cn_status := (if ok then Open else Closed)\<rparr>"
          using st Pair Inr snd Cons.prems by simp
        have a1: "answers bk cons (s # ss) (cn_world c) = r @ answers bk cons ss w1" using an Pair Inr by simp
        show ?thesis
        proof (cases ok)
          case True
          then obtain out2 r2 where "cn_out (run_statements bk cons ss ?c) = cn_out ?c @ out2"
              "answers bk cons ss (cn_world ?c) = out2 @ r2" "cn_status (run_statements bk cons ss ?c) = Open \<longrightarrow> r2 = []"
            using Cons.IH [of ?c] c1 by auto
          then show ?thesis using Cons.prems a1 c1 send_all_ok [OF snd] True by simp
        next
          case False
          then obtain r2 where "r = out @ r2" using send_all_ok [OF snd] by blast
          then show ?thesis using Cons.prems a1 c1 False by (simp add: run_statements_closed)
        qed
      qed
    qed
  qed
qed simp

lemma handle_client_ends: "cn_status (handle_client bk cons chunks c) \<noteq> Open"
  by (induction chunks arbitrary: c) auto

text \<open>
  C25. However the bytes of a client are cut into reads, the server runs the statements of the text one after the other: the
  end of the world, what is sent and how the session ends are those of running the texts between the semicolons, in order. What is
  sent is the answers to them in their order, all of them when the session lasts to the end of the input, and a first part of
  them when sending fails or the session is ended before.
\<close>

theorem server_session:
  fixes bk :: "'w backend" and cons :: "'w \<Rightarrow> 'w answer" and rs :: "int list" and w :: 'w
  assumes "list_all (\<lambda>s. s \<noteq> []) chunks"
  defines "c \<equiv> handle_client bk cons chunks (new_conn rs w)" and "ss \<equiv> fst (split_semi (concat chunks))"
  shows "cn_world c = cn_world (run_statements bk cons ss (new_conn rs w)) \<and>
    cn_out c = cn_out (run_statements bk cons ss (new_conn rs w)) \<and>
    cn_status c = (case cn_status (run_statements bk cons ss (new_conn rs w)) of Open \<Rightarrow> Closed | st \<Rightarrow> st) \<and>
    (\<exists>r. answers bk cons ss w = cn_out c @ r \<and> (cn_status (run_statements bk cons ss (new_conn rs w)) = Open \<longrightarrow> r = []))"
proof -
  let ?d = "run_statements bk cons ss (new_conn rs w)"
  have "closed c = closed ?d"
    using handle_client_spec [OF assms(1), of "new_conn rs w"] by (simp add: c_def ss_def new_conn_def)
  then have eq: "cn_world c = cn_world ?d" "cn_out c = cn_out ?d" "cn_status (closed c) = cn_status (closed ?d)"
    by (metis (no_types, lifting) closed_def conn.select_convs(2,3) conn.surjective conn.update_convs(1,5))+
  obtain out r where "cn_out ?d = out" "answers bk cons ss w = out @ r" "cn_status ?d = Open \<longrightarrow> r = []"
    using run_statements_out [of "new_conn rs w" bk cons ss] by (auto simp: new_conn_def)
  then show ?thesis using eq handle_client_ends [of bk cons chunks "new_conn rs w"]
    by (auto simp: closed_def c_def split: conn_status.splits if_splits)
qed

theorem server_session_witness:
  "cn_world (handle_client log_engine (\<lambda>w. (Inr [], w)) [''a'', ''b;ex'', ''it;c''] (new_conn [3] [])) =
     cn_world (run_statements log_engine (\<lambda>w. (Inr [], w)) [''ab'', ''exit''] (new_conn [3] []))"
proof -
  have "list_all (\<lambda>s. s \<noteq> []) [''a'', ''b;ex'', ''it;c'']" by simp
  from server_session [OF this, of log_engine "\<lambda>w. (Inr [], w)" "[3]" "[]"] show ?thesis by (simp add: semi_def)
qed

end
