(* ===== verification/Server_Props.thy ===== *)
theory Server_Props
  imports Session_Props SQL_Server
begin

text \<open>
  The server on the engine: the constructor of the parser, which reads the file of the current database
  (\<open>ensureCurrentDbFile\<close> in \<open>SQL_PARSER.hpp\<close>), and a session from the bytes of a client to the files and back.
\<close>

definition ensure_current_db :: "(string \<Rightarrow> 'd result) \<Rightarrow> engine \<Rightarrow> engine answer" where
  "ensure_current_db rd en =
     (case st_files (en_store en) meta_file of
        None \<Rightarrow> (Inr [], en\<lparr>en_store := (set_file meta_file (''{\"current_db\":\"test\"}'' @ newline) (en_store en))\<lparr>st_db := ''test''\<rparr>\<rparr>)
      | Some t \<Rightarrow>
          (case parse_json rd t of
             Inl e \<Rightarrow> (Inl (Throw ''Failed to parse current_db.meta JSON.''), en)
           | Inr (v, r) \<Rightarrow>
               (case v of
                  J_object m \<Rightarrow>
                    (case sm_find ''current_db'' m of
                       Some (J_string db) \<Rightarrow> (Inr db, en\<lparr>en_store := (en_store en)\<lparr>st_db := db\<rparr>\<rparr>)
                     | _ \<Rightarrow> (Inr [], en))
                | _ \<Rightarrow> (Inr [], en))))"

text \<open>The file names the current database in memory: the constructor changes nothing.\<close>

lemma ensure_current_db_frame:
  assumes "ensure_current_db rd en = (Inr d, en)" and "d \<noteq> []" and "st_files s1 meta_file = st_files (en_store en) meta_file"
    and "st_db s1 = st_db (en_store en)"
  shows "ensure_current_db rd (en\<lparr>en_store := s1\<rparr>) = (Inr d, en\<lparr>en_store := s1\<rparr>)"
proof (cases "st_files (en_store en) meta_file")
  case None
  then show ?thesis using assms(1,2) by (simp add: ensure_current_db_def)
next
  case (Some t)
  obtain v r m where v: "parse_json rd t = Inr (v, r)" "v = J_object m" "sm_find ''current_db'' m = Some (J_string d)"
    using assms(1,2) Some by (auto simp: ensure_current_db_def split: sum.splits json.splits option.splits prod.splits)
  have e: "en\<lparr>en_store := (en_store en)\<lparr>st_db := d\<rparr>\<rparr> = en"
    using assms(1) Some v by (simp add: ensure_current_db_def)
  have "st_db (en_store (en\<lparr>en_store := (en_store en)\<lparr>st_db := d\<rparr>\<rparr>)) = st_db (en_store en)" by (simp only: e)
  then have "st_db (en_store en) = d" by simp
  then have "s1\<lparr>st_db := d\<rparr> = s1" using assms(4) by simp
  then show ?thesis using Some v assms(3) by (simp add: ensure_current_db_def)
qed

lemma parse_meta:
  assumes "unescaped db"
  shows "parse_json rd (''{\"current_db\":\"'' @ db @ ''\"}'') = Inr (J_object [(''current_db'', J_string db)], [])"
proof -
  let ?v = "CHR 0x22 # db @ CHR 0x22 # ''}''"
  have k: "read_string (CHR 0x22 # ''current_db\":'' @ ?v) = Inr (''current_db'', CHR '':'' # ?v)"
    using read_string_unescaped [of "''current_db''" "CHR '':'' # ?v"] by (simp add: unescaped_def)
  have v: "read_string ?v = Inr (db, ''}'')" by (rule read_string_unescaped [OF assms])
  have "json_value rd (Suc (Suc (Suc n))) (''{\"current_db\":\"'' @ db @ ''\"}'') = Inr (J_object [(''current_db'', J_string db)], [])" for n
    using k v by (simp add: skip_white_def is_cspace_def read_scalar_def)
  moreover obtain n where "2 * length (''{\"current_db\":\"'' @ db @ ''\"}'') + 1 = Suc (Suc (Suc n))" by simp
  ultimately show ?thesis unfolding parse_json_def by metis
qed

text \<open>What \<open>USE\<close> writes is read back by the next statement.\<close>

lemma ensure_current_db_use:
  assumes "unescaped db"
  shows "ensure_current_db rd (en\<lparr>en_store := change_current_db db s\<rparr>) = (Inr db, en\<lparr>en_store := (change_current_db db s)\<lparr>st_db := db\<rparr>\<rparr>)"
  using parse_meta [OF assms, of rd] by (simp add: ensure_current_db_def change_current_db_def set_file_def)


section \<open>From bytes to bytes\<close>

text \<open>Sending that never fails sends everything.\<close>

lemma send_all_enough:
  "list_all (\<lambda>r. 0 < r) rs \<Longrightarrow> length dat \<le> length rs \<Longrightarrow>
   \<exists>rs1. send_all rs dat = (dat, rs1, True) \<and> list_all (\<lambda>r. 0 < r) rs1 \<and> length rs \<le> length rs1 + length dat"
proof (induction rs dat rule: send_all.induct)
  case (3 r rs ch dat)
  have r: "\<not> r \<le> 0" "list_all (\<lambda>r. 0 < r) rs" "length (drop (nat r) (ch # dat)) \<le> length rs" using 3(2,3) by auto
  then obtain rs1 where rs1: "send_all rs (drop (nat r) (ch # dat)) = (drop (nat r) (ch # dat), rs1, True)"
      "list_all (\<lambda>r. 0 < r) rs1" "length rs \<le> length rs1 + length (drop (nat r) (ch # dat))"
    using 3(1) by blast
  have "length (r # rs) \<le> length rs1 + length (ch # dat)" using rs1(3) r(1) by (auto simp: Suc_le_eq)
  then show ?case using rs1(1,2) r(1) append_take_drop_id [of "nat r" "ch # dat"] by simp
qed auto

lemma statement_step_answer:
  assumes "filter (\<lambda>ch. \<not> is_cspace ch) sql \<notin> {''exit;'', ''quit;''}" and "cons (cn_world c) = (Inr d, cn_world c)"
    and "tokenize sql = tokenize txt" and "run_sql bk d txt (cn_world c) = (Inr ans, w1)"
    and "list_all (\<lambda>r. 0 < r) (cn_sends c)" and "length ans \<le> length (cn_sends c)" and "cn_status c = Open"
  shows "\<exists>rs. statement_step bk cons sql c = c\<lparr>cn_world := w1, cn_out := cn_out c @ ans, cn_sends := rs\<rparr> \<and>
    list_all (\<lambda>r. 0 < r) rs \<and> length (cn_sends c) \<le> length rs + length ans"
proof -
  have "handle_sql bk cons sql (cn_world c) = (Inr ans, w1)"
    using assms(2-4) by (auto simp: handle_sql_def run_sql_def split: sum.splits)
  moreover obtain rs where "send_all (cn_sends c) ans = (ans, rs, True)" "list_all (\<lambda>r. 0 < r) rs"
      "length (cn_sends c) \<le> length rs + length ans"
    using send_all_enough [OF assms(5,6)] by blast
  ultimately show ?thesis using assms(1,7) unfolding statement_step_def by (intro exI [of _ rs]) simp
qed

lemma meta_file_frame: "only_table t s s1 \<Longrightarrow> st_files s1 meta_file = st_files s meta_file \<and> st_db s1 = st_db s"
proof -
  have "meta_file \<notin> path_of s t ` {''.index'', ''.data'', ''.delete''}"
    by (auto simp: meta_file_def table_path_def tableDirectory_def)
  then show "only_table t s s1 \<Longrightarrow> ?thesis" by (simp add: only_table_def)
qed

lemma caught_world: "fst (caught (r, w)) = Inr t \<Longrightarrow> caught (r, v) = (Inr t, v)"
  by (cases "(r, w)" rule: caught.cases) auto

lemma client_fields:
  assumes "closed (handle_client bk cons chunks c) = closed e"
  shows "cn_world (handle_client bk cons chunks c) = cn_world e" "cn_out (handle_client bk cons chunks c) = cn_out e"
    "cn_status (handle_client bk cons chunks c) = (if cn_status e = Open then Closed else cn_status e)"
  using arg_cong [OF assms, of cn_world] arg_cong [OF assms, of cn_out] arg_cong [OF assms, of cn_status]
    handle_client_ends [of bk cons chunks c]
  by (simp_all add: closed_def split: if_splits)

text \<open>The answer to a SELECT from a table with these rows.\<close>

definition select_answer :: "(string list \<Rightarrow> string list) \<Rightarrow> column list \<Rightarrow> expr option \<Rightarrow> stored list \<Rightarrow> string result" where
  "select_answer iter cols wh rows =
     fst (caught (bindE (outcome (column_names cols) wh rows) (\<lambda>_.
       Inr (json_table iter cols (map (shown (column_names cols)) (filter (hit (column_names cols) wh) rows)))), ()))"

text \<open>
  C26. From the bytes of a client to the files and back. A client sends two texts with a semicolon at the end of each and none
  inside, cut into reads in any way: the first has the tokens of an INSERT into a table that exists, the second those of a SELECT
  from it. The file of the current database names the database. Then the client is sent the message of success followed by
  the JSON of the rows of the table with the new one, as far as they are live and satisfy the condition, or by the message
  of the error of the condition; and the files of the table then stand for the rows with the new one.
\<close>

theorem server_sql_session:
  fixes x :: "'d outside"
  assumes "insert_text_ok stmt" and "select_text_ok sel" and "sel_table sel = ins_table stmt" and "d \<noteq> []"
    and "check_table (os_stod x) (ins_table stmt) (en_store en) = Inr (True, [])"
    and "table_rel (en_store en) (ins_table stmt) cols rows" and "length (ins_columns stmt) = length (ins_values stmt)"
    and "sort_by_name (\<lambda>c. c) (ins_columns stmt) = sorted_names cols" and "ins_columns stmt \<noteq> []" and "next_id rows \<le> INT64_MAX"
    and "data_size (en_store en) (ins_table stmt) + int (length (concat (ins_values stmt))) \<le> INT64_MAX"
    and chunks: "list_all (\<lambda>s. s \<noteq> []) chunks" "concat chunks = a @ [semi] @ b @ [semi]" "semi \<notin> set a" "semi \<notin> set b"
    and texts: "tokenize (a @ [semi]) = tokenize (print_tokens (print_insert stmt))"
      "tokenize (b @ [semi]) = tokenize (print_tokens (print_select sel))"
    and no_exit: "filter (\<lambda>ch. \<not> is_cspace ch) (a @ [semi]) \<notin> {''exit;'', ''quit;''}"
      "filter (\<lambda>ch. \<not> is_cspace ch) (b @ [semi]) \<notin> {''exit;'', ''quit;''}"
    and meta: "ensure_current_db (os_stod x) en = (Inr d, en)"
    and ans: "select_answer (os_columns x) cols (sel_where sel) (rows @ [(next_id rows, given_values stmt, False)]) = Inr ans"
    and sends: "list_all (\<lambda>r. 0 < r) rs" "length (success_json @ ans) \<le> length rs"
  shows "\<exists>c. handle_client (nano_engine x) (ensure_current_db (os_stod x)) chunks (new_conn rs en) = c \<and>
    cn_out c = success_json @ ans \<and> cn_status c = Closed \<and>
    table_rel (en_store (cn_world c)) (ins_table stmt) cols (rows @ [(next_id rows, given_values stmt, False)])"
proof -
  let ?bk = "nano_engine x" and ?cons = "ensure_current_db (os_stod x)" and ?c0 = "new_conn rs en"
  let ?rows = "rows @ [(next_id rows, given_values stmt, False)]"
  let ?r = "bindE (outcome (column_names cols) (sel_where sel) ?rows) (\<lambda>_. Inr (json_table (os_columns x) cols
    (map (shown (column_names cols)) (filter (hit (column_names cols) (sel_where sel)) ?rows))))"
  obtain s1 where s1: "run_sql ?bk d (print_tokens (print_insert stmt)) en = (Inr success_json, en\<lparr>en_store := s1\<rparr>)"
      "run_sql ?bk d (print_tokens (print_select sel)) (en\<lparr>en_store := s1\<rparr>) = caught (?r, en\<lparr>en_store := s1\<rparr>)"
      "table_rel s1 (ins_table stmt) cols ?rows" "only_table (ins_table stmt) (en_store en) s1"
    using sql_session [OF assms(1-11)] by blast
  have s2: "run_sql ?bk d (print_tokens (print_select sel)) (en\<lparr>en_store := s1\<rparr>) = (Inr ans, en\<lparr>en_store := s1\<rparr>)"
    unfolding s1(2) by (rule caught_world [OF ans [unfolded select_answer_def]])
  have meta1: "ensure_current_db (os_stod x) (en\<lparr>en_store := s1\<rparr>) = (Inr d, en\<lparr>en_store := s1\<rparr>)"
    using ensure_current_db_frame [OF meta assms(4)] meta_file_frame [OF s1(4)] by blast
  have "\<exists>rs1. statement_step ?bk ?cons (a @ [semi]) ?c0 =
      ?c0\<lparr>cn_world := en\<lparr>en_store := s1\<rparr>, cn_out := cn_out ?c0 @ success_json, cn_sends := rs1\<rparr> \<and>
      list_all (\<lambda>r. 0 < r) rs1 \<and> length (cn_sends ?c0) \<le> length rs1 + length success_json"
    by (rule statement_step_answer [OF no_exit(1) _ texts(1)]) (use meta s1(1) sends in \<open>auto simp: new_conn_def\<close>)
  then obtain rs1 where rs1: "statement_step ?bk ?cons (a @ [semi]) ?c0 =
      ?c0\<lparr>cn_world := en\<lparr>en_store := s1\<rparr>, cn_out := success_json, cn_sends := rs1\<rparr>"
      "list_all (\<lambda>r. 0 < r) rs1" "length rs \<le> length rs1 + length success_json"
    by (auto simp: new_conn_def)
  let ?c1 = "?c0\<lparr>cn_world := en\<lparr>en_store := s1\<rparr>, cn_out := success_json, cn_sends := rs1\<rparr>"
  have "\<exists>rs2. statement_step ?bk ?cons (b @ [semi]) ?c1 =
      ?c1\<lparr>cn_world := en\<lparr>en_store := s1\<rparr>, cn_out := cn_out ?c1 @ ans, cn_sends := rs2\<rparr> \<and>
      list_all (\<lambda>r. 0 < r) rs2 \<and> length (cn_sends ?c1) \<le> length rs2 + length ans"
    by (rule statement_step_answer [OF no_exit(2) _ texts(2)]) (use meta1 s2 sends rs1 in \<open>auto simp: new_conn_def\<close>)
  then obtain rs2 where rs2: "statement_step ?bk ?cons (b @ [semi]) ?c1 = ?c1\<lparr>cn_out := success_json @ ans, cn_sends := rs2\<rparr>"
    by auto
  have "fst (split_semi (concat chunks)) = [a, b]"
    using split_semi_first [OF chunks(3), of "b @ [semi]"] split_semi_first [OF chunks(4), of "[]"] by (simp add: chunks(2))
  then have "run_statements ?bk ?cons (fst (split_semi (concat chunks))) ?c0 =
      ?c1\<lparr>cn_out := success_json @ ans, cn_sends := rs2\<rparr>"
    using rs1(1) rs2 by (simp add: new_conn_def)
  then have "closed (handle_client ?bk ?cons chunks ?c0) = closed (?c1\<lparr>cn_out := success_json @ ans, cn_sends := rs2\<rparr>)"
    using handle_client_spec [OF chunks(1), of ?c0] by (simp add: new_conn_def)
  from client_fields [OF this] show ?thesis using s1(3) by (simp add: new_conn_def)
qed


section \<open>A session\<close>

definition session_chunks :: "string list" where
  "session_chunks = [''insert into t (name) '', ''values (\"Ann\"); sel'', ''ect name from t;'']"

lemma session_texts:
  "tokenize (''insert into t (name) values (\"Ann\")'' @ [semi]) = tokenize (print_tokens (print_insert insert_name))"
  "tokenize ('' select name from t'' @ [semi]) = tokenize (print_tokens (print_select select_t))"
  by code_simp+


lemma meta_frame:
  assumes "\<forall>p. p \<notin> insert (database_file ''d'') (path_of empty_database t ` {''.index'', ''.data'', ''.delete''}) \<longrightarrow>
      st_files us p = st_files empty_database p" and "st_db us = ''d''"
  shows "ensure_current_db rd \<lparr>en_store = us, en_hft = h\<rparr> = (Inr ''d'', \<lparr>en_store = us, en_hft = h\<rparr>)"
proof -
  have "meta_file \<noteq> database_file ''d''" by (simp add: meta_file_def database_file_def)
  moreover have "meta_file \<notin> path_of empty_database t ` {''.index'', ''.data'', ''.delete''}"
    by (auto simp: meta_file_def table_path_def tableDirectory_def)
  ultimately have "st_files us meta_file = Some (''{\"current_db\":\"'' @ ''d'' @ ''\"}'')"
    using assms(1) by (simp add: empty_database_def)
  moreover have "us\<lparr>st_db := ''d''\<rparr> = us" using assms(2) by simp
  ultimately show ?thesis
    using parse_meta [of "''d''" rd] by (simp add: ensure_current_db_def unescaped_def)
qed

theorem server_sql_session_witness:
  "\<exists>s1 c. generate_create text_double (\<lambda>d. d) (\<lambda>_. [(''d'', ''t'')]) create_people empty_database = (Inr (), s1) \<and>
     handle_client (nano_engine test_outside) (ensure_current_db text_double) session_chunks
       (new_conn (replicate 60 5) \<lparr>en_store = s1, en_hft = new_hft\<rparr>) = c \<and>
     cn_out c = ''{\"suceess\" : true}[{\"id\":\"1\",\"name\":\"Ann\"}]'' \<and> cn_status c = Closed"
proof -
  have t: "cr_name create_people = ''t''" "st_db empty_database = ''d''" by (simp_all add: create_people_def empty_database_def)
  obtain us where us: "generate_create text_double (\<lambda>d. d) (\<lambda>_. [(''d'', ''t'')]) create_people empty_database = (Inr (), us)"
      "table_rel us ''t'' (map snd people_columns) []" "data_size us ''t'' = 0" "check_table text_double ''t'' us = Inr (True, [])"
      "st_db us = ''d''"
      "\<forall>p. p \<notin> insert (database_file ''d'') (path_of empty_database ''t'' ` {''.index'', ''.data'', ''.delete''}) \<longrightarrow>
        st_files us p = st_files empty_database p"
    by (rule people_created_empty)
  let ?en = "\<lparr>en_store = us, en_hft = new_hft\<rparr>"
  have i: "insert_text_ok insert_name" "select_text_ok select_t"
    by (simp_all add: insert_text_ok_def insert_ok_def insert_name_def select_text_ok_def select_ok_def select_t_def where_ok_def
        where_text_ok_def name_ok_examples session_names)
  have sel: "ins_table insert_name = ''t''" "ins_columns insert_name = [''name'']" "ins_values insert_name = [''Ann'']"
      "sel_table select_t = ''t''" "sel_where select_t = None" "os_stod test_outside = text_double"
      "os_columns test_outside = (\<lambda>ns. ns)" "next_id [] = 1" "given_values insert_name = [''Ann'']"
      "sort_by_name (\<lambda>c. c) [''name''] = [''name'']"
    by (simp_all add: insert_name_def select_t_def test_outside_def next_id_def given_values_def given_columns_def
        sort_by_name_def)
  have ans: "select_answer (\<lambda>ns. ns) (map snd people_columns) None [(1, [''Ann''], False)] = Inr ''[{\"id\":\"1\",\"name\":\"Ann\"}]''"
    by (simp add: select_answer_def json_table_def json_row_def row_of_def people_columns_names show_1)
  have c: "concat session_chunks = ''insert into t (name) values (\"Ann\")'' @ [semi] @ '' select name from t'' @ [semi]"
    by (simp add: session_chunks_def semi_def)
  have s: "semi \<notin> set ''insert into t (name) values (\"Ann\")''" "semi \<notin> set '' select name from t''" by (simp_all add: semi_def)
  have e: "filter (\<lambda>ch. \<not> is_cspace ch) (''insert into t (name) values (\"Ann\")'' @ [semi]) \<notin> {''exit;'', ''quit;''}"
      "filter (\<lambda>ch. \<not> is_cspace ch) ('' select name from t'' @ [semi]) \<notin> {''exit;'', ''quit;''}"
    by (simp_all add: is_cspace_def)
  have ch: "list_all (\<lambda>s. s \<noteq> []) session_chunks" by (simp add: session_chunks_def)
  have snds: "list_all (\<lambda>r. 0 < r) (replicate 60 (5 :: int))"
      "length (success_json @ ''[{\"id\":\"1\",\"name\":\"Ann\"}]'') \<le> length (replicate 60 (5 :: int))"
    by (simp_all add: list_all_iff success_json_def)
  have "\<exists>c. handle_client (nano_engine test_outside) (ensure_current_db (os_stod test_outside)) session_chunks (new_conn (replicate 60 5) ?en) = c \<and>
      cn_out c = success_json @ ''[{\"id\":\"1\",\"name\":\"Ann\"}]'' \<and> cn_status c = Closed \<and>
      table_rel (en_store (cn_world c)) (ins_table insert_name) (map snd people_columns)
        ([] @ [(next_id [], given_values insert_name, False)])"
    by (rule server_sql_session [OF i _ _ _ _ _ _ _ _ _ ch c s session_texts e, where d = "''d''" and rs = "replicate 60 5"])
      (simp_all add: sel people_columns_names int_limits us ans snds meta_frame [OF us(6,5)] success_json_def del: replicate.simps)
  then show ?thesis using us(1) unfolding sel(6) by (auto simp: success_json_def)
qed

end
