(* ===== verification/Spec2Isabelle.thy ===== *)
theory Spec2Isabelle
  imports Book_Props SQL_Lexer Parse_Props BPlus_Index Table_Props Ring_Mpmc Ring_Deque Json_Props Hft_Props Session_Props Market_Props Memory_Store Thread_Pool Binance_Sync Server_Props
begin

text \<open>
  NanoVaultDB: a trading database with a limit order book matching engine (\<open>hft_clean/\<close>), an SQL
  dialect over tables kept in files, and columns of market ticks with technical indicators.

  \<^bold>\<open>Parts and theories.\<close>

  \<^item> Library: \<open>Nano_Prelude\<close> (theorem collections, lemmas on lists and maps), \<open>Std_Map\<close> (the ordered map
    \<open>std::map\<close> as a sorted association list), \<open>Std_Text\<close> (character classes, \<open>std::stoi\<close>,
    \<open>std::stoll\<close>, \<open>std::from_chars\<close>, decimal output).

  \<^item> \<open>Memory_Pool\<close>: the fixed pools (\<open>hft_clean/include/memory_pool.hpp\<close>,
    \<open>orderbook/object_pool.hpp\<close>, \<open>pool.hpp\<close>, \<open>strategyPool.hpp\<close>). A slot is its index; the free list
    and the constructed values are the state. The locale \<open>slot_pool\<close> is what a client of a
    pool relies on, with interpretations on both pools.

  \<^item> \<open>Book_Types\<close>: orders, trades, price levels, the best bid and offer
    (\<open>hft_clean/include/types.hpp\<close>, \<open>price_level.hpp\<close>).

  \<^item> \<open>Order_Book\<close>: the matching engine (\<open>hft_clean/src/order_book.cpp\<close>), one definition per method,
    on the record \<open>book\<close> with the fields of the class: two ladders of price levels, the index from order
    ids to slots, the pool of orders with their intrusive links, the counters and the log of callbacks.
    The matching loop reads the key of a price level that it has just erased; the model counts these reads
    (\<open>stale_reads\<close>) and takes whatever the freed memory holds (\<open>freed_keys\<close>, about which nothing is assumed).

  \<^item> \<open>Book_Heap\<close>, \<open>Book_Spec\<close>, \<open>Book_Invariant\<close>, \<open>Book_Fill\<close>, \<open>Book_Match\<close>, \<open>Book_Add\<close>, \<open>Book_Cancel\<close>,
    \<open>Book_Runs\<close>, \<open>Book_Props\<close>: linked queues read back as lists; the abstract book (two price-sorted
    lists of queues) and its price-time priority specification; the invariant and its preservation; the
    refinement of fills, sweeps, additions, cancellations; runs of whole sessions; claims C1 to C9.

  \<^item> \<open>SQL_Token\<close>, \<open>SQL_Lexer\<close>: \<open>SQL_LEXER.hpp\<close>. The input is a string and a cursor; \<open>tokenize\<close> gives the
    tokens or the error with its line. Claims C10 and C11: shape of the token list, printing and lexing
    are inverse; lemmas on the positions of errors and on keywords in any case.

  \<^item> \<open>SQL_AST\<close>, \<open>SQL_Parser\<close>: the statement classes (\<open>global.hpp\<close>) and every parse function of
    \<open>SQL_PARSER.hpp\<close>. The parser state is the token list split at the cursor and the current database. A
    function gives the new state and a value, or the exception.

  \<^item> \<open>SQL_Dispatch\<close>: \<open>parse()\<close>, the loop over the branches and \<open>execute_sql\<close> (\<open>db_engine.cpp\<close>). The functions
    of the storage engine that the branches call are the parameter \<open>backend\<close>: a call (\<open>db_call\<close>) changes a
    world \<open>'w\<close> and answers or throws.

  \<^item> \<open>Parse_Safety\<close>, \<open>Parse_Calls\<close>, \<open>Parse_Print\<close>, \<open>Select_Eval\<close>, \<open>Parse_Props\<close>: a contract \<open>ran\<close> in
    the manner of Hoare triples (the cursor stays in the token list, no error but those of the table of messages),
    the calls that reach the engine, printing of statements and reading them back, the evaluation of WHERE
    clauses (\<open>selectAstEvaluator.hpp\<close>); claims C13 and C14.

  \<^item> \<open>BPlus_Tree\<close>, \<open>BPlus_Inv\<close>, \<open>BPlus_Remove\<close>, \<open>BPlus_Index\<close>: the index tree (\<open>storageTree.hpp\<close>), its invariant (ordered,
    balanced, filled nodes), insertion and removal as operations on the sorted list of its entries, and the
    contract \<open>ordered_index\<close>, of which the tree is an instance for every comparator; claims C15 and C16.

  \<^item> \<open>Std_Files\<close>, \<open>Table_Store\<close>: bytes of files, and the table storage (\<open>PagerHandler\<close> in \<open>utility.hpp\<close>,
    \<open>generator.hpp\<close>, \<open>SelectQueryHandler\<close>): INSERT, SELECT, UPDATE, DELETE and the vacuum on the record \<open>store\<close>,
    which has the file system, the schema cache and the index trees.

  \<^item> \<open>Table_Rel\<close>, \<open>Table_Ops\<close>, \<open>Table_Handlers\<close>, \<open>Table_Changes\<close>, \<open>Table_Props\<close>: the relation between the three files
    of a table and the list of its rows, each handler as an operation on that list, what is read back after
    a change; claims C17 to C21. The bounds keep sizes below \<open>2^63\<close> and, for DELETE and UPDATE, each index
    tree a single leaf (C16 says why).

  \<^item> \<open>Ring_Spsc\<close>, \<open>Ring_Mpmc\<close>, \<open>Ring_Deque\<close>: the lock-free queues (\<open>utils/spsc.hpp\<close>, \<open>utils/mpmc.hpp\<close>,
    \<open>utils/work_stealing_deque.hpp\<close>) as step relations whose steps are the atomic accesses. An atomic counter of the
    rings is the list of its values and a load may give an old one; the owner of the deque sees its own stores to the bottom
    before the thieves do. The locale \<open>bounded_fifo\<close> is the contract of a ring whose calls do not overlap; claims
    C27 to C29. The counters of the rings are 64 bits wide and wrap; those of the deque are unbounded integers.

  \<^item> \<open>Json_Text\<close>, \<open>Json_Props\<close>: the JSON parser and printer (\<open>json.hpp\<close>). Values are polymorphic in the numbers with a
    fraction, whose reading and printing are parameters. The mutual recursion of values, members and elements has the
    length of the text as fuel; claim C30.

  \<^item> \<open>Hft_Columns\<close>, \<open>Hft_Props\<close>: the rings of ticks (\<open>hft.hpp\<close>), the moving average and the order book imbalance
    (\<open>fastindicator\<close>), the strategies (\<open>faststrategy\<close>), their registration (\<open>IndicatorHandler.hpp\<close>, \<open>strategyHandler.hpp\<close>),
    the processing of a packet (\<open>UDPReceiver.hpp\<close>) and the batches (\<open>batchWriter.hpp\<close>) on the record \<open>hft\<close>.
    An access to an array, a ring or the buffer of a packet outside of its bounds is a fault of the result; claims C31 and C32.

  \<^item> \<open>Schema_Store\<close>, \<open>Schema_Load\<close>: CREATE, DROP and CREATE HFT TABLE (\<open>generator.hpp\<close>), the loading of a database and of
    its index trees (\<open>initialLoad.hpp\<close>), the wrappers of JSON values (\<open>databaseSchemaReader.hpp\<close>) and the current
    database, on the record \<open>store\<close> and, where the feed takes part, the record \<open>engine\<close>.

  \<^item> \<open>Nano_Engine\<close>: STATISTICS, and the functions above as the \<open>backend\<close> on which the parser runs. What reaches the
    network, source files or the memory store is a parameter.

  \<^item> \<open>Schema_Props\<close>, \<open>Session_Props\<close>: the life of a table from CREATE over a restart to DROP, statistics, a session of
    SQL texts from the lexer to the files, and the safety of any text on any engine; claims C12 and C22 to C24.


  \<^item> \<open>Market_Data\<close>, \<open>Market_Props\<close>: the adapters of two exchanges and the handler that routes what they read to the order books
    (\<open>exchange_adapter.cpp\<close>, \<open>market_data_handler.cpp\<close>): the loops over the levels of a JSON frame and of a binary packet as functions on
    the bytes; claims C33 and C34.

  \<^item> \<open>Memory_Store\<close>: values with a time to live, the heap of their expiries and the scheduler (\<open>generator.hpp\<close>): the
    operations as functions with the specification of a map with times to live, and their critical sections as the steps of threads;
    claims C35 and C36.

  \<^item> \<open>Thread_Pool\<close>, \<open>Binance_Sync\<close>: the pool of worker threads (\<open>threadPool.hpp\<close>) and the two threads of a depth stream session
    (\<open>hft_clean/binance.hpp\<close>) as step relations; claims C37 to C40.

  \<^item> \<open>SQL_Server\<close>, \<open>Server_Props\<close>: the session of a client of the server (\<open>network_server.cpp\<close>), from the bytes that are read to
    the bytes that are sent, the file of the current database (\<open>ensureCurrentDbFile\<close>), and both together with the engine; claims
    C25 and C26.
  \<^bold>\<open>Bounds and fuel.\<close> The grammar of expressions is parsed with a fuel of \<open>4 * n + 4\<close> for \<open>n\<close> tokens left:
  every level of the recursion that does not consume a token is one of four (logical, its loop, comparison,
  primary). Loops over tokens have the fuel \<open>n + 1\<close>, since each turn consumes one. \<open>parse_safe\<close> (C12) shows that
  the fuel never runs out. The walk over a level and the sweep over the levels are
  \<open>partial_function (option)\<close>: \<open>None\<close> is a loop that does not end, and C1, C2 and C9 show where it ends and where not.

  \<^bold>\<open>Platform and integers.\<close> The model is that of a 64-bit Linux build: \<open>int64_t\<close> is \<open>long\<close>, which decides an
  \<open>if constexpr\<close> of DELETE and UPDATE (\<open>remove_text\<close>). A price or quantity is an \<open>int\<close> that the code copies and compares;
  the sums it builds in \<open>int64_t\<close> without a bound (the total of a price level, the fill-or-kill test, the moving
  average) wrap through \<open>i64\<close>, so the claims about them either hold modulo \<open>2 ^ 64\<close> (C33) or state the bound under which
  the sum is exact (C6, C31); \<open>fok_overflow\<close> and \<open>sma_wraps\<close> show what happens beyond. The sum of STATISTICS is a fault
  when it overflows (C24).

  \<^bold>\<open>Not modelled.\<close> Doubles: a numeric literal with a decimal
  point stays its text, and the JSON numbers with a fraction are a type parameter. Locks of tables, the output on \<open>stdout\<close>, the
  network, \<open>io_uring\<close> and the vendored libraries are left out; the memory order of atomics is modelled for the queues only.
  Files can always be opened, created and written, and setting up an \<open>io_uring\<close> never fails.
\<close>

end
